(* ===== verification/Prelude.thy ===== *)
theory Prelude
  imports Main "HOL-Library.Word"
begin

text \<open>
  What every component shares: the names of the machine types, the outcome type of a C
  function that returns 1 or 0 and updates an object through a pointer, and the lemmas on
  bytes, words and lists that the component proofs use.

  A pointer into a byte buffer is the list of bytes from that address to the end of its
  object: adding \<open>n\<close> to the pointer is \<^term>\<open>drop n\<close>, reading \<open>p[i]\<close> is \<^term>\<open>(!)\<close>.
  Sizes (the C type size\_t) are natural numbers; where the code adds or multiplies sizes
  without a guard, the wrap-around at \<open>2 ^ 64\<close> is written out with \<open>size_wrap\<close>.
\<close>

unbundle bit_operations_syntax

named_theorems word_bytes \<comment> \<open>reading and building words byte by byte\<close>

type_synonym u8 = "8 word"
type_synonym u16 = "16 word"
type_synonym u32 = "32 word"
type_synonym u64 = "64 word"

abbreviation SIZE_MAX :: nat where
  "SIZE_MAX \<equiv> 2 ^ 64 - 1"

abbreviation INT_MAX :: nat where
  "INT_MAX \<equiv> 2 ^ 31 - 1"

definition size_wrap :: "nat \<Rightarrow> nat" where
  "size_wrap n = n mod 2 ^ 64"

lemma size_wrap_small [simp]: "n < 2 ^ 64 \<Longrightarrow> size_wrap n = n"
  by (simp add: size_wrap_def)

lemma size_wrap_overflows:
  assumes "a < 2 ^ 64" and "b < 2 ^ 64"
  shows "size_wrap (a + b) < a \<longleftrightarrow> 2 ^ 64 \<le> a + b"
proof (cases "a + b < 2 ^ 64")
  case True
  then show ?thesis by simp
next
  case False
  then have "size_wrap (a + b) = a + b - 2 ^ 64"
    using assms by (simp add: size_wrap_def mod_if)
  then show ?thesis using False assms by linarith
qed

subsection \<open>Calls that return 1 or 0 and update an object\<close>

text \<open>
  A C function \<open>int f(S *s, T *out)\<close> is a function from the object to \<^term>\<open>(r, s')\<close>:
  \<open>r\<close> is \<^term>\<open>None\<close> when it returned 0 and \<^term>\<open>Some out\<close> when it returned 1, and
  \<open>s'\<close> is the object afterwards, also after a failure. \<open>bindC m k\<close> is the idiom
  \<open>if (!m(s, &x)) return 0;\<close> followed by \<open>k\<close>.
\<close>

type_synonym ('s, 'a) call = "'s \<Rightarrow> 'a option \<times> 's"

definition retC :: "'a \<Rightarrow> ('s, 'a) call" where
  "retC x s = (Some x, s)"

definition failC :: "('s, 'a) call" where
  "failC s = (None, s)"

definition bindC :: "('s, 'a) call \<Rightarrow> ('a \<Rightarrow> ('s, 'b) call) \<Rightarrow> ('s, 'b) call" where
  "bindC m k s = (case m s of (None, s') \<Rightarrow> (None, s') | (Some x, s') \<Rightarrow> k x s')"

definition guardC :: "bool \<Rightarrow> ('s, 'a) call \<Rightarrow> ('s, 'a) call" where
  "guardC b m = (if b then m else failC)"

lemma call_simps [simp]:
  "retC x s = (Some x, s)" "failC s = (None, s)"
  "guardC True m = m" "guardC False m = failC"
  by (simp_all add: retC_def failC_def guardC_def)

lemma bindC_Some: "m s = (Some x, s') \<Longrightarrow> bindC m k s = k x s'"
  by (simp add: bindC_def)

lemma bindC_None: "m s = (None, s') \<Longrightarrow> bindC m k s = (None, s')"
  by (simp add: bindC_def)

lemma bindC_SomeE:
  assumes "bindC m k s = (Some y, t)"
  obtains x s' where "m s = (Some x, s')" and "k x s' = (Some y, t)"
  using assms by (auto simp: bindC_def split: prod.splits option.splits)

lemma guardC_SomeE:
  assumes "guardC b m s = (Some y, t)"
  obtains "b" and "m s = (Some y, t)"
  using assms by (cases b) auto

lemma bindC_ret [simp]: "bindC (retC x) k = k x"
  by (rule ext) (simp add: bindC_def)

subsection \<open>Bytes and words\<close>

definition be_nat :: "u8 list \<Rightarrow> nat" where
  "be_nat bs = foldl (\<lambda>v b. v * 256 + unat b) 0 bs"

text \<open>The loop \<open>result <<= 8; result |= b\<close> over a list of bytes.\<close>

definition shift_in :: "u64 \<Rightarrow> u8 \<Rightarrow> u64" where
  "shift_in r b = push_bit 8 r OR ucast b"

lemma byte_lt: "unat (b :: u8) < 256"
  using unsigned_less [of b] by simp

lemma shift_in_plus: "shift_in r b = r * 256 + ucast b"
proof -
  have "push_bit 8 r AND ucast b = 0"
    by (rule bit_word_eqI) (auto simp: bit_simps dest: bit_imp_le_length)
  then have "shift_in r b = push_bit 8 r + ucast b"
    by (simp add: shift_in_def disjunctive_add_eq_or)
  then show ?thesis by (simp add: push_bit_eq_mult)
qed

lemma be_nat_Nil [simp]: "be_nat [] = 0"
  by (simp add: be_nat_def)

lemma be_nat_snoc [simp]: "be_nat (bs @ [b]) = be_nat bs * 256 + unat b"
  by (simp add: be_nat_def)

lemma be_nat_single [simp]: "be_nat [b] = unat b"
  by (simp add: be_nat_def)

lemma be_nat_append: "be_nat (as @ bs) = be_nat as * 256 ^ length bs + be_nat bs"
proof (induction bs rule: rev_induct)
  case Nil
  then show ?case by simp
next
  case (snoc b bs)
  have "be_nat (as @ bs @ [b]) = be_nat ((as @ bs) @ [b])" by simp
  also have "\<dots> = be_nat (as @ bs) * 256 + unat b" by (rule be_nat_snoc)
  finally show ?case using snoc by (simp add: algebra_simps)
qed

lemma be_nat_Cons: "be_nat (b # bs) = unat b * 256 ^ length bs + be_nat bs"
  using be_nat_append [of "[b]" bs] by simp

lemma be_nat_less: "be_nat bs < 256 ^ length bs"
proof (induction bs rule: rev_induct)
  case Nil
  then show ?case by simp
next
  case (snoc b bs)
  have "be_nat bs * 256 + unat b < (be_nat bs + 1) * 256"
    using byte_lt [of b] by simp
  also have "\<dots> \<le> 256 ^ length bs * 256"
    using snoc by simp
  finally show ?case by (simp add: mult.commute)
qed

lemma foldl_shift_in: "foldl shift_in r bs = r * 256 ^ length bs + of_nat (be_nat bs)"
proof (induction bs rule: rev_induct)
  case Nil
  then show ?case by simp
next
  case (snoc b bs)
  then show ?case
    by (simp add: shift_in_plus algebra_simps)
qed

lemma unat_be_loop:
  assumes "length bs \<le> 8"
  shows "unat (foldl shift_in 0 bs) = be_nat bs"
proof -
  have "be_nat bs < 256 ^ length bs" by (rule be_nat_less)
  also have "\<dots> \<le> 256 ^ 8" using assms by (rule power_increasing) simp
  finally have "be_nat bs < 2 ^ 64" by simp
  then show ?thesis by (simp add: foldl_shift_in unat_of_nat)
qed

subsection \<open>Masks, shifts and casts, read as numbers\<close>

lemma unat_take_bit: "unat (take_bit k (w :: 'a :: len word)) = unat w mod 2 ^ k"
  by (simp only: unsigned_take_bit_eq) (simp add: take_bit_eq_mod)

lemma unat_and_mask: "unat ((w :: 'a :: len word) AND mask k) = unat w mod 2 ^ k"
  by (simp only: unat_take_bit flip: take_bit_eq_mask)

lemma unat_drop_bit: "unat (drop_bit k (w :: 'a :: len word)) = unat w div 2 ^ k"
  by (simp only: unat_drop_bit_eq) (simp add: drop_bit_eq_div)

lemma byte_high_bit: "(b :: u8) AND 0x80 \<noteq> 0 \<longleftrightarrow> 128 \<le> unat b"
proof -
  have "b AND 0x80 \<noteq> 0 \<longleftrightarrow> bit b 7"
    using and_exp_eq_0_iff_not_bit [of b 7] by simp
  also have "\<dots> \<longleftrightarrow> bit (unat b) 7" by (simp add: bit_unsigned_iff)
  also have "\<dots> \<longleftrightarrow> odd (unat b div 128)" by (simp add: bit_iff_odd)
  also have "\<dots> \<longleftrightarrow> 128 \<le> unat b" 
  proof -
    have "unat b div 128 < 2" using byte_lt [of b] by auto
    then show ?thesis by (cases "unat b < 128") (auto simp: div_eq_0_iff less_2_cases_iff)
  qed
  finally show ?thesis .
qed

lemma unat_and_7f: "unat ((b :: u8) AND 0x7f) = unat b mod 128"
  using unat_and_mask [of b 7] by (simp add: mask_eq_exp_minus_1)

lemma drop_bit_0_iff: "drop_bit k (w :: 'a :: len word) = 0 \<longleftrightarrow> unat w < 2 ^ k"
proof -
  have "drop_bit k w = 0 \<longleftrightarrow> unat (drop_bit k w) = 0" by (simp only: unat_eq_zero)
  also have "\<dots> \<longleftrightarrow> unat w < 2 ^ k" by (simp only: unat_drop_bit div_eq_0_iff) simp
  finally show ?thesis .
qed

lemma take_bit_small: "unat (w :: 'a :: len word) < 2 ^ k \<Longrightarrow> take_bit k w = w"
  by (simp only: word_unat_eq_iff unat_take_bit) simp

lemma push_or_plus:
  assumes "unat w < 2 ^ k"
  shows "push_bit k (v :: 'a :: len word) OR w = push_bit k v + w"
proof -
  have "push_bit k v AND take_bit k w = 0"
    by (rule bit_word_eqI) (auto simp: bit_simps)
  then have "push_bit k v AND w = 0" using take_bit_small [OF assms] by simp
  then show ?thesis by (simp add: disjunctive_add_eq_or)
qed

lemma unat_push_or:
  assumes "unat w < 2 ^ k" and "unat v * 2 ^ k + unat w < 2 ^ LENGTH('a)"
  shows "unat (push_bit k (v :: 'a :: len word) OR w) = unat v * 2 ^ k + unat w"
proof -
  have "push_bit k v + w = of_nat (unat v * 2 ^ k + unat w)"
    by (simp add: push_bit_eq_mult)
  then show ?thesis using assms by (simp only: push_or_plus unat_of_nat) simp
qed

lemma unat_ucast: "unat (ucast (w :: 'a :: len word) :: 'b :: len word) = unat w mod 2 ^ LENGTH('b)"
  by (simp only: unsigned_ucast_eq) (simp add: take_bit_eq_mod)
lemma unat_ucast_up:
  assumes "LENGTH('a) \<le> LENGTH('b)"
  shows "unat (ucast (w :: 'a :: len word) :: 'b :: len word) = unat w"
proof -
  have "unat w < 2 ^ LENGTH('a)" by (rule unsigned_less)
  also have "\<dots> \<le> 2 ^ LENGTH('b)" using assms by (rule power_increasing) simp
  finally show ?thesis by (simp only: unat_ucast mod_less)
qed

lemma unat_ucast_wider [simp]:
  "unat (ucast (b :: u8) :: u16) = unat b" "unat (ucast (b :: u8) :: u32) = unat b"
  "unat (ucast (b :: u8) :: u64) = unat b" "unat (ucast (h :: u16) :: u32) = unat h"
  "unat (ucast (h :: u16) :: u64) = unat h" "unat (ucast (w :: u32) :: u64) = unat w"
  by (simp_all add: unat_ucast_up)

lemma unat_or_128: "unat (b :: u8) < 128 \<Longrightarrow> unat (b OR 0x80) = unat b + 128"
proof -
  assume b: "unat b < 128"
  have "push_bit 7 (1 :: u8) OR b = push_bit 7 1 + b"
    using b by (intro push_or_plus) simp
  moreover have "push_bit 7 (1 :: u8) = 0x80" by (simp add: push_bit_eq_mult)
  ultimately have "b OR 0x80 = b + 0x80" by (simp add: or.commute add.commute)
  then show ?thesis using b by (simp add: unat_word_ariths)
qed

lemma unat_of_nat_u8: "n < 256 \<Longrightarrow> unat (of_nat n :: u8) = n"
  by (simp add: unat_of_nat)

lemma byte_high_mod:
  assumes "128 \<le> unat (b :: u8)"
  shows "unat b mod 128 + 128 = unat b"
proof -
  have nat: "n mod 128 + 128 = n" if "128 \<le> n" "n < 256" for n :: nat
    using that by (simp add: le_mod_geq)
  show ?thesis by (rule nat [OF assms byte_lt])
qed

subsection \<open>Numbers as big-endian bytes\<close>

text \<open>\<open>be_bytes\<close> is the shortest big-endian form, \<open>be_fixed k\<close> the form in \<open>k\<close> bytes.\<close>

fun be_bytes :: "nat \<Rightarrow> u8 list" where
  "be_bytes n = (if n = 0 then [] else be_bytes (n div 256) @ [of_nat (n mod 256)])"

declare be_bytes.simps [simp del]

fun be_fixed :: "nat \<Rightarrow> nat \<Rightarrow> u8 list" where
  "be_fixed 0 n = []"
| "be_fixed (Suc k) n = be_fixed k (n div 256) @ [of_nat (n mod 256)]"

lemma be_bytes_0 [simp]: "be_bytes 0 = []"
  by (simp add: be_bytes.simps)

lemma be_bytes_step: "0 < n \<Longrightarrow> be_bytes n = be_bytes (n div 256) @ [of_nat (n mod 256)]"
  by (simp add: be_bytes.simps)

lemma length_be_fixed [simp]: "length (be_fixed k n) = k"
  by (induction k arbitrary: n) auto

lemma be_nat_be_fixed: "be_nat (be_fixed k n) = n mod 256 ^ k"
proof (induction k arbitrary: n)
  case (Suc k)
  have "n mod 256 ^ Suc k = n div 256 mod 256 ^ k * 256 + n mod 256"
    by (metis add.commute mod_mult2_eq mult.commute power_Suc)
  then show ?case using Suc by (simp add: unat_of_nat_u8)
qed simp

lemma be_nat_be_bytes [simp]: "be_nat (be_bytes n) = n"
proof (induction n rule: be_bytes.induct)
  case (1 n)
  show ?case
  proof (cases "n = 0")
    case False
    with 1 show ?thesis by (simp add: be_bytes_step unat_of_nat_u8)
  qed simp
qed

lemma be_bytes_be_nat:
  assumes "bs = [] \<or> hd bs \<noteq> 0"
  shows "be_bytes (be_nat bs) = bs"
  using assms
proof (induction bs rule: rev_induct)
  case (snoc b bs)
  have hd: "bs = [] \<or> hd bs \<noteq> 0" using snoc.prems by (cases bs) auto
  then have IH: "be_bytes (be_nat bs) = bs" by (rule snoc.IH)
  have pos: "0 < be_nat bs * 256 + unat b"
  proof (cases bs)
    case Nil
    with snoc.prems show ?thesis by (simp add: unat_gt_0)
  next
    case (Cons c cs)
    have "be_nat bs \<noteq> 0"
    proof
      assume "be_nat bs = 0"
      with IH have "bs = []" by simp
      with Cons show False by simp
    qed
    then show ?thesis by simp
  qed
  have "(be_nat bs * 256 + unat b) div 256 = be_nat bs" "(be_nat bs * 256 + unat b) mod 256 = unat b"
    using byte_lt [of b] by simp_all
  with pos IH show ?case by (simp add: be_bytes_step del: of_nat_add)
qed simp

lemma length_be_bytes_le: "n < 256 ^ k \<Longrightarrow> length (be_bytes n) \<le> k"
proof (induction k arbitrary: n)
  case (Suc k)
  then have "n div 256 < 256 ^ k" by (simp add: div_less_iff_less_mult mult.commute)
  with Suc.IH [of "n div 256"] show ?case by (cases "n = 0") (simp_all add: be_bytes_step)
qed simp

lemma length_be_bytes_ge: "256 ^ k \<le> n \<Longrightarrow> k < length (be_bytes n)"
proof -
  assume "256 ^ k \<le> n"
  also have "n < 256 ^ length (be_bytes n)" using be_nat_less [of "be_bytes n"] by simp
  finally show ?thesis by (rule power_less_imp_less_exp [rotated]) simp
qed

lemma hd_nonzero_iff:
  assumes "bs \<noteq> []"
  shows "hd bs \<noteq> 0 \<longleftrightarrow> 256 ^ (length bs - 1) \<le> be_nat bs"
proof -
  obtain b cs where bs: "bs = b # cs" using assms by (cases bs) auto
  have "256 ^ length cs \<le> unat b * 256 ^ length cs + be_nat cs \<longleftrightarrow> 0 < unat b"
    using be_nat_less [of cs] by (cases "unat b") auto
  then show ?thesis by (simp add: bs be_nat_Cons unat_gt_0)
qed

lemma be_fixed_be_bytes: "be_fixed (length (be_bytes n)) n = be_bytes n"
proof (induction n rule: be_bytes.induct)
  case (1 n)
  show ?case
  proof (cases "n = 0")
    case False
    with 1 show ?thesis by (simp add: be_bytes_step)
  qed simp
qed

subsection \<open>Words as little-endian bytes\<close>

lemma ucast_byte:
  assumes "8 \<le> LENGTH('a)"
  shows "ucast (ucast (v AND 0xff) :: u8) = (take_bit 8 (v :: 'a :: len word) :: 'a word)"
proof -
  have m: "(0xff :: 'a word) = mask 8" by (simp add: mask_eq_exp_minus_1)
  show ?thesis unfolding m using assms by (intro bit_word_eqI) (auto simp: bit_simps)
qed

lemma next_byte:
  "push_bit k (take_bit 8 (drop_bit k v)) OR push_bit (k + 8) (drop_bit (k + 8) v) =
     push_bit k (drop_bit k (v :: 'a :: len word))"
proof (rule bit_word_eqI)
  fix n
  assume "n < LENGTH('a)"
  then show "bit (push_bit k (take_bit 8 (drop_bit k v)) OR push_bit (k + 8) (drop_bit (k + 8) v)) n =
      bit (push_bit k (drop_bit k v)) n"
    by (cases "n < k"; cases "n - k < 8") (auto simp: bit_simps)
qed

lemma last_byte: "k + 8 = LENGTH('a) \<Longrightarrow> take_bit 8 (drop_bit k v) = drop_bit k (v :: 'a :: len word)"
  by (rule bit_word_eqI) (auto simp: bit_simps dest: bit_imp_le_length)

lemma bytes32:
  "take_bit 8 v OR push_bit 8 (take_bit 8 (drop_bit 8 v)) OR push_bit 16 (take_bit 8 (drop_bit 16 v)) OR
     push_bit 24 (take_bit 8 (drop_bit 24 v)) = (v :: u32)"
proof -
  have 0: "take_bit 8 v OR push_bit 8 (drop_bit 8 v) = v" using next_byte [of 0 v] by simp
  have 1: "push_bit 8 (take_bit 8 (drop_bit 8 v)) OR push_bit 16 (drop_bit 16 v) = push_bit 8 (drop_bit 8 v)"
    using next_byte [of 8 v] by simp
  have 2: "push_bit 16 (take_bit 8 (drop_bit 16 v)) OR push_bit 24 (drop_bit 24 v) = push_bit 16 (drop_bit 16 v)"
    using next_byte [of 16 v] by simp
  have 3: "take_bit 8 (drop_bit 24 v) = drop_bit 24 v" by (rule last_byte) simp
  show ?thesis unfolding 3 2 1 0 ..
qed

lemma bytes64:
  "take_bit 8 v OR push_bit 8 (take_bit 8 (drop_bit 8 v)) OR push_bit 16 (take_bit 8 (drop_bit 16 v)) OR
     push_bit 24 (take_bit 8 (drop_bit 24 v)) OR push_bit 32 (take_bit 8 (drop_bit 32 v)) OR
     push_bit 40 (take_bit 8 (drop_bit 40 v)) OR push_bit 48 (take_bit 8 (drop_bit 48 v)) OR
     push_bit 56 (take_bit 8 (drop_bit 56 v)) = (v :: u64)"
proof -
  have step: "push_bit k (take_bit 8 (drop_bit k v)) OR push_bit l (drop_bit l v) = push_bit k (drop_bit k v)"
    if "l = k + 8" for k l unfolding that by (rule next_byte)
  have 0: "take_bit 8 v OR push_bit 8 (drop_bit 8 v) = v" using step [of 8 0] by simp
  have 7: "take_bit 8 (drop_bit 56 v) = drop_bit 56 v" by (rule last_byte) simp
  show ?thesis
    unfolding 7 step [of 56 48, simplified] step [of 48 40, simplified] step [of 40 32, simplified]
      step [of 32 24, simplified] step [of 24 16, simplified] step [of 16 8, simplified] 0 ..
qed

text \<open>A word in memory, little-endian, and back.\<close>

definition fixed32_bytes :: "u32 \<Rightarrow> u8 list" where
  "fixed32_bytes v = map (\<lambda>k. ucast (drop_bit k v AND 0xff)) [0, 8, 16, 24]"

definition fixed64_bytes :: "u64 \<Rightarrow> u8 list" where
  "fixed64_bytes v = map (\<lambda>k. ucast (drop_bit k v AND 0xff)) [0, 8, 16, 24, 32, 40, 48, 56]"

definition word32_of :: "u8 list \<Rightarrow> u32" where
  "word32_of bytes = ucast (bytes ! 0) OR push_bit 8 (ucast (bytes ! 1)) OR push_bit 16 (ucast (bytes ! 2)) OR
     push_bit 24 (ucast (bytes ! 3))"

definition word64_of :: "u8 list \<Rightarrow> u64" where
  "word64_of bytes = ucast (bytes ! 0) OR push_bit 8 (ucast (bytes ! 1)) OR push_bit 16 (ucast (bytes ! 2)) OR
     push_bit 24 (ucast (bytes ! 3)) OR push_bit 32 (ucast (bytes ! 4)) OR push_bit 40 (ucast (bytes ! 5)) OR
     push_bit 48 (ucast (bytes ! 6)) OR push_bit 56 (ucast (bytes ! 7))"

lemma word32_of_bytes: "word32_of (fixed32_bytes v @ rest) = v"
proof -
  have u: "ucast (ucast (w AND 0xff) :: u8) = take_bit 8 w" for w :: u32 by (rule ucast_byte) simp
  show ?thesis using bytes32 [of v] by (simp add: word32_of_def fixed32_bytes_def u)
qed

lemma word64_of_bytes: "word64_of (fixed64_bytes v @ rest) = v"
proof -
  have u: "ucast (ucast (w AND 0xff) :: u8) = take_bit 8 w" for w :: u64 by (rule ucast_byte) simp
  show ?thesis using bytes64 [of v] by (simp add: word64_of_def fixed64_bytes_def u)
qed

lemma length_fixed_bytes [simp]: "length (fixed32_bytes v) = 4" "length (fixed64_bytes w) = 8"
  by (simp_all add: fixed32_bytes_def fixed64_bytes_def)

end
