(* ===== verification/Mem.thy ===== *)
theory Mem
  imports Prelude
begin

text \<open>
  crypto/mem.c and the memory helpers of crypto/internal.h: allocation, comparison,
  hashing, and the bounded string functions.

  The state of the C heap is the parameter \<open>heap_env\<close>: which sizes \<open>malloc\<close> can serve
  and what a fresh block holds. Every theorem quantifies over it, so no result depends on
  the contents of uninitialised memory. An allocated block is its list of bytes (the size
  that the code stores in its prefix is the length), and a pointer that may be NULL is an
  option. The weak hooks \<open>OPENSSL_memory_alloc\<close> and the failure-testing build are not set.
\<close>

type_synonym ptr = u64 \<comment> \<open>a pointer to an object; 0 is NULL\<close>

record heap_env =
  malloc_serves :: "nat \<Rightarrow> bool"
  fresh_byte :: "nat \<Rightarrow> u8"

text \<open>A heap that serves every request with zero bytes, for concrete runs.\<close>

definition calm_heap :: heap_env where
  "calm_heap = \<lparr>malloc_serves = \<lambda>_. True, fresh_byte = \<lambda>_. 0\<rparr>"

definition OPENSSL_MALLOC_PREFIX :: nat where
  "OPENSSL_MALLOC_PREFIX = 8"

definition OPENSSL_malloc :: "heap_env \<Rightarrow> nat \<Rightarrow> u8 list option" where
  "OPENSSL_malloc E sz =
     (if size_wrap (sz + OPENSSL_MALLOC_PREFIX) < sz then None
      else if \<not> malloc_serves E (size_wrap (sz + OPENSSL_MALLOC_PREFIX)) then None
      else Some (map (fresh_byte E) [0..<sz]))"

definition OPENSSL_zalloc :: "heap_env \<Rightarrow> nat \<Rightarrow> u8 list option" where
  "OPENSSL_zalloc E sz =
     (case OPENSSL_malloc E sz of None \<Rightarrow> None | Some ret \<Rightarrow> Some (replicate sz 0 @ drop sz ret))"

definition OPENSSL_calloc :: "heap_env \<Rightarrow> nat \<Rightarrow> nat \<Rightarrow> u8 list option" where
  "OPENSSL_calloc E num sz =
     (if sz \<noteq> 0 \<and> SIZE_MAX div sz < num then None
      else OPENSSL_zalloc E (size_wrap (num * sz)))"

definition OPENSSL_realloc :: "heap_env \<Rightarrow> u8 list option \<Rightarrow> nat \<Rightarrow> u8 list option" where
  "OPENSSL_realloc E orig_ptr new_size =
     (case orig_ptr of
        None \<Rightarrow> OPENSSL_malloc E new_size
      | Some blk \<Rightarrow>
          (let old_size = length blk in
           case OPENSSL_malloc E new_size of
             None \<Rightarrow> None
           | Some ret \<Rightarrow>
               (let to_copy = (if old_size < new_size then old_size else new_size) in
                Some (take to_copy blk @ drop to_copy ret))))"

definition OPENSSL_memdup :: "heap_env \<Rightarrow> u8 list \<Rightarrow> nat \<Rightarrow> u8 list option" where
  "OPENSSL_memdup E p sz =
     (if sz = 0 then None
      else case OPENSSL_malloc E sz of
             None \<Rightarrow> None
           | Some ret \<Rightarrow> Some (take sz p @ drop sz ret))"

lemma OPENSSL_malloc_length: "OPENSSL_malloc E n = Some b \<Longrightarrow> length b = n"
  by (auto simp: OPENSSL_malloc_def split: if_splits)

lemma OPENSSL_realloc_length:
  "OPENSSL_realloc E p n = Some b \<Longrightarrow> length b = n"
  by (auto simp: OPENSSL_realloc_def Let_def OPENSSL_malloc_length
      split: option.splits if_splits)

lemma OPENSSL_realloc_keeps:
  "OPENSSL_realloc E (Some blk) n = Some b \<Longrightarrow> m \<le> length blk \<Longrightarrow> m \<le> n \<Longrightarrow> take m b = take m blk"
  by (auto simp: OPENSSL_realloc_def Let_def min_def split: option.splits if_splits)

lemma OPENSSL_memdup_Some:
  "OPENSSL_memdup E p n = Some b \<Longrightarrow> n \<le> length p \<Longrightarrow> b = take n p"
  by (auto simp: OPENSSL_memdup_def OPENSSL_malloc_length split: option.splits if_splits)

subsection \<open>Comparison, search and hashing\<close>

text \<open>The constant-time comparison: the OR of the differences of the first \<open>n\<close> bytes.\<close>

definition CRYPTO_memcmp :: "u8 list \<Rightarrow> u8 list \<Rightarrow> nat \<Rightarrow> u8" where
  "CRYPTO_memcmp a b n = foldl (\<lambda>x i. x OR (a ! i XOR b ! i)) 0 [0..<n]"

text \<open>\<open>memcmp\<close> of the C library, by the sign of its result; \<open>OPENSSL_memcmp\<close> is 0 for \<open>n = 0\<close>.\<close>

fun memcmp_sgn :: "u8 list \<Rightarrow> u8 list \<Rightarrow> int" where
  "memcmp_sgn (x # a) (y # b) =
     (if unat x < unat y then -1 else if unat y < unat x then 1 else memcmp_sgn a b)"
| "memcmp_sgn _ _ = 0"

definition OPENSSL_memcmp :: "u8 list \<Rightarrow> u8 list \<Rightarrow> nat \<Rightarrow> int" where
  "OPENSSL_memcmp s1 s2 n = (if n = 0 then 0 else memcmp_sgn (take n s1) (take n s2))"

text \<open>\<open>OPENSSL_memchr\<close>: the index of the first \<open>c\<close> among the first \<open>n\<close> bytes.\<close>

fun memchr_from :: "u8 list \<Rightarrow> u8 \<Rightarrow> nat \<Rightarrow> nat \<Rightarrow> nat option" where
  "memchr_from (x # s) c (Suc n) i = (if x = c then Some i else memchr_from s c n (Suc i))"
| "memchr_from _ _ _ _ = None"

definition OPENSSL_memchr :: "u8 list \<Rightarrow> u8 \<Rightarrow> nat \<Rightarrow> nat option" where
  "OPENSSL_memchr s c n = (if n = 0 then None else memchr_from s c n 0)"

definition OPENSSL_hash32 :: "u8 list \<Rightarrow> nat \<Rightarrow> u32" where
  "OPENSSL_hash32 p n = foldl (\<lambda>h i. (h XOR ucast (p ! i)) * 16777619) 2166136261 [0..<n]"

lemma foldl_or_zero:
  "foldl (\<lambda>x i. x OR f i) (x0 :: u8) is = 0 \<longleftrightarrow> x0 = 0 \<and> (\<forall>i \<in> set is. f i = 0)"
proof (induction "is" arbitrary: x0)
  case Nil
  then show ?case by simp
next
  case (Cons i "is")
  then show ?case by (simp add: or_eq_0_iff)
qed

lemma xor_zero_iff: "(x :: u8) XOR y = 0 \<longleftrightarrow> x = y"
  by (simp add: bit_eq_iff bit_simps)

lemma CRYPTO_memcmp_zero_iff:
  assumes "n \<le> length a" and "n \<le> length b"
  shows "CRYPTO_memcmp a b n = 0 \<longleftrightarrow> take n a = take n b"
proof -
  have "CRYPTO_memcmp a b n = 0 \<longleftrightarrow> (\<forall>i < n. a ! i = b ! i)"
    by (auto simp: CRYPTO_memcmp_def foldl_or_zero xor_zero_iff)
  also have "\<dots> \<longleftrightarrow> take n a = take n b"
    using assms by (auto simp: list_eq_iff_nth_eq)
  finally show ?thesis .
qed

lemma memcmp_sgn_range: "memcmp_sgn a b \<in> {-1, 0, 1}"
  by (induction a b rule: memcmp_sgn.induct) auto

lemma memcmp_sgn_zero_iff: "length a = length b \<Longrightarrow> memcmp_sgn a b = 0 \<longleftrightarrow> a = b"
  by (induction a b rule: memcmp_sgn.induct) (auto simp: word_unat_eq_iff)

lemma memcmp_sgn_swap: "memcmp_sgn b a = - memcmp_sgn a b"
  by (induction a b rule: memcmp_sgn.induct) auto

lemma memchr_from_Some:
  "memchr_from s c n i = Some k \<Longrightarrow>
     i \<le> k \<and> k - i < n \<and> k - i < length s \<and> s ! (k - i) = c \<and> c \<notin> set (take (k - i) s)"
proof (induction s c n i rule: memchr_from.induct)
  case (1 x s c n i)
  show ?case
  proof (cases "x = c")
    case True
    with "1.prems" show ?thesis by simp
  next
    case False
    with 1 have IH: "Suc i \<le> k" "k - Suc i < n" "k - Suc i < length s" "s ! (k - Suc i) = c"
      "c \<notin> set (take (k - Suc i) s)" by simp_all
    then have "k - i = Suc (k - Suc i)" by arith
    with IH False show ?thesis by simp
  qed
qed simp_all

lemma memchr_from_None:
  "memchr_from s c n i = None \<longleftrightarrow> c \<notin> set (take n s)"
  by (induction s c n i rule: memchr_from.induct) auto

lemma OPENSSL_memchr_None: "OPENSSL_memchr s c n = None \<longleftrightarrow> c \<notin> set (take n s)"
  by (simp add: OPENSSL_memchr_def memchr_from_None)

lemma OPENSSL_memchr_Some:
  "OPENSSL_memchr s c n = Some k \<Longrightarrow> k < n \<and> k < length s \<and> s ! k = c \<and> c \<notin> set (take k s)"
  by (auto simp: OPENSSL_memchr_def dest: memchr_from_Some split: if_splits)

end
