(* ===== verification/Cbs.thy ===== *)
theory Cbs
  imports Mem
begin

text \<open>
  crypto/bytestring/cbs.c, the fixed-width readers: a CBS is a pointer and a length, read
  from the front. The model keeps both, so the invariant \<open>cbs_ok\<close> (the length stays inside
  the object) is a fact to prove, and \<open>cbs_bytes\<close> is the span a CBS denotes.

  The interface every reader keeps is the locale \<open>byte_reader\<close>: on a well-formed CBS the
  reader leaves a well-formed CBS, and its result and the remaining bytes are those of a
  specification on byte lists. The lemmas of the locale follow once and for all: a reader
  never grows its input and never looks at memory past the end.
\<close>

subsection \<open>The CBS object and its operations\<close>

record cbs =
  cbs_data :: "u8 list"
  cbs_len :: nat

definition CBS_init :: "u8 list \<Rightarrow> nat \<Rightarrow> cbs" where
  "CBS_init p n = \<lparr>cbs_data = p, cbs_len = n\<rparr>"

definition CBS_data :: "cbs \<Rightarrow> u8 list" where
  "CBS_data c = cbs_data c"

definition CBS_len :: "cbs \<Rightarrow> nat" where
  "CBS_len c = cbs_len c"

definition cbs_get :: "nat \<Rightarrow> (cbs, u8 list) call" where
  "cbs_get n c =
     (if cbs_len c < n then (None, c)
      else (Some (cbs_data c), c\<lparr>cbs_data := drop n (cbs_data c), cbs_len := cbs_len c - n\<rparr>))"

definition CBS_skip :: "nat \<Rightarrow> (cbs, unit) call" where
  "CBS_skip n = bindC (cbs_get n) (\<lambda>dummy. retC ())"

text \<open>\<open>CBS_stow\<close>: the copy it leaves in \<open>*out_ptr\<close> (NULL for an empty CBS) and its length.\<close>

definition CBS_stow :: "heap_env \<Rightarrow> cbs \<Rightarrow> (u8 list option \<times> nat) option" where
  "CBS_stow E c =
     (if cbs_len c = 0 then Some (None, 0)
      else case OPENSSL_memdup E (cbs_data c) (cbs_len c) of
             None \<Rightarrow> None
           | Some p \<Rightarrow> Some (Some p, cbs_len c))"

definition CBS_contains_zero_byte :: "cbs \<Rightarrow> bool" where
  "CBS_contains_zero_byte c \<longleftrightarrow> OPENSSL_memchr (cbs_data c) 0 (cbs_len c) \<noteq> None"

definition CBS_mem_equal :: "cbs \<Rightarrow> u8 list \<Rightarrow> nat \<Rightarrow> bool" where
  "CBS_mem_equal c p n =
     (if n \<noteq> cbs_len c then False else CRYPTO_memcmp (cbs_data c) p n = 0)"

definition cbs_get_u :: "nat \<Rightarrow> (cbs, u64) call" where
  "cbs_get_u n = bindC (cbs_get n) (\<lambda>p. retC (foldl (\<lambda>r i. shift_in r (p ! i)) 0 [0..<n]))"

definition CBS_get_u8 :: "(cbs, u8) call" where
  "CBS_get_u8 = bindC (cbs_get 1) (\<lambda>v. retC (v ! 0))"

definition CBS_get_u16 :: "(cbs, u16) call" where
  "CBS_get_u16 = bindC (cbs_get_u 2) (\<lambda>v. retC (ucast v))"

definition CRYPTO_bswap2 :: "u16 \<Rightarrow> u16" where
  "CRYPTO_bswap2 x = drop_bit 8 x OR push_bit 8 x"

definition CRYPTO_bswap4 :: "u32 \<Rightarrow> u32" where
  "CRYPTO_bswap4 x0 =
     (let x = (drop_bit 16 x0) OR (push_bit 16 x0)
      in (drop_bit 8 (x AND 0xff00ff00)) OR (push_bit 8 (x AND 0x00ff00ff)))"

definition CRYPTO_bswap8 :: "u64 \<Rightarrow> u64" where
  "CRYPTO_bswap8 x =
     ucast (CRYPTO_bswap4 (ucast (drop_bit 32 x))) OR push_bit 32 (ucast (CRYPTO_bswap4 (ucast x)))"

definition CBS_get_u16le :: "(cbs, u16) call" where
  "CBS_get_u16le = bindC CBS_get_u16 (\<lambda>v. retC (CRYPTO_bswap2 v))"

definition CBS_get_u24 :: "(cbs, u32) call" where
  "CBS_get_u24 = bindC (cbs_get_u 3) (\<lambda>v. retC (ucast v))"

definition CBS_get_u32 :: "(cbs, u32) call" where
  "CBS_get_u32 = bindC (cbs_get_u 4) (\<lambda>v. retC (ucast v))"

definition CBS_get_u32le :: "(cbs, u32) call" where
  "CBS_get_u32le = bindC CBS_get_u32 (\<lambda>v. retC (CRYPTO_bswap4 v))"

definition CBS_get_u64 :: "(cbs, u64) call" where
  "CBS_get_u64 = cbs_get_u 8"

definition CBS_get_u64le :: "(cbs, u64) call" where
  "CBS_get_u64le = bindC (cbs_get_u 8) (\<lambda>v. retC (CRYPTO_bswap8 v))"

definition CBS_get_last_u8 :: "(cbs, u8) call" where
  "CBS_get_last_u8 c =
     (if cbs_len c = 0 then (None, c)
      else (Some (cbs_data c ! (cbs_len c - 1)), c\<lparr>cbs_len := cbs_len c - 1\<rparr>))"

definition CBS_get_bytes :: "nat \<Rightarrow> (cbs, cbs) call" where
  "CBS_get_bytes n = bindC (cbs_get n) (\<lambda>v. retC (CBS_init v n))"

definition CBS_copy_bytes :: "nat \<Rightarrow> (cbs, u8 list) call" where
  "CBS_copy_bytes n = bindC (cbs_get n) (\<lambda>v. retC (take n v))"

definition cbs_get_length_prefixed :: "nat \<Rightarrow> (cbs, cbs) call" where
  "cbs_get_length_prefixed len_len = bindC (cbs_get_u len_len) (\<lambda>len. CBS_get_bytes (unat len))"

definition CBS_get_u8_length_prefixed :: "(cbs, cbs) call" where
  "CBS_get_u8_length_prefixed = cbs_get_length_prefixed 1"

definition CBS_get_u16_length_prefixed :: "(cbs, cbs) call" where
  "CBS_get_u16_length_prefixed = cbs_get_length_prefixed 2"

definition CBS_get_u24_length_prefixed :: "(cbs, cbs) call" where
  "CBS_get_u24_length_prefixed = cbs_get_length_prefixed 3"

definition CBS_get_until_first :: "u8 \<Rightarrow> (cbs, cbs) call" where
  "CBS_get_until_first ch c =
     (case OPENSSL_memchr (CBS_data c) ch (CBS_len c) of
        None \<Rightarrow> (None, c)
      | Some split \<Rightarrow> CBS_get_bytes split c)"

subsection \<open>Well-formed CBS and the bytes it spans\<close>

definition cbs_ok :: "cbs \<Rightarrow> bool" where
  "cbs_ok c \<longleftrightarrow> cbs_len c \<le> length (cbs_data c) \<and> cbs_len c < 2 ^ 64"

definition cbs_bytes :: "cbs \<Rightarrow> u8 list" where
  "cbs_bytes c = take (cbs_len c) (cbs_data c)"

definition spans :: "cbs \<Rightarrow> u8 list \<Rightarrow> bool" where
  "spans c bs \<longleftrightarrow> cbs_ok c \<and> cbs_bytes c = bs"

definition of_bytes :: "u8 list \<Rightarrow> cbs" where
  "of_bytes bs = CBS_init bs (length bs)"

lemma of_bytes_spans [simp]:
  "length bs < 2 ^ 64 \<Longrightarrow> cbs_ok (of_bytes bs)" "cbs_bytes (of_bytes bs) = bs"
  by (simp_all add: of_bytes_def CBS_init_def cbs_ok_def cbs_bytes_def)

lemma length_cbs_bytes [simp]: "cbs_ok c \<Longrightarrow> length (cbs_bytes c) = cbs_len c"
  by (simp add: cbs_ok_def cbs_bytes_def)

lemma cbs_bytes_nth [simp]: "cbs_ok c \<Longrightarrow> i < cbs_len c \<Longrightarrow> cbs_data c ! i = cbs_bytes c ! i"
  by (simp add: cbs_bytes_def)

text \<open>The readers on byte lists that the code is measured against.\<close>

definition l_get :: "nat \<Rightarrow> (u8 list, u8 list) call" where
  "l_get n bs = (if length bs < n then (None, bs) else (Some (take n bs), drop n bs))"

definition l_u8 :: "(u8 list, u8) call" where
  "l_u8 = bindC (l_get 1) (\<lambda>bs. retC (bs ! 0))"

definition l_u :: "nat \<Rightarrow> (u8 list, nat) call" where
  "l_u n = bindC (l_get n) (\<lambda>bs. retC (be_nat bs))"

lemma l_get_simps [simp]:
  "length bs < n \<Longrightarrow> l_get n bs = (None, bs)"
  "n \<le> length bs \<Longrightarrow> l_get n bs = (Some (take n bs), drop n bs)"
  by (simp_all add: l_get_def)

lemma l_get_append [simp]: "l_get (length as) (as @ bs) = (Some as, bs)"
  by (simp add: l_get_def)

lemma l_get_SomeD: "l_get n bs = (Some x, t) \<Longrightarrow> bs = x @ t \<and> length x = n"
  by (auto simp: l_get_def split: if_splits)

lemma l_u8_simps [simp]: "l_u8 [] = (None, [])" "l_u8 (b # bs) = (Some b, bs)"
  by (simp_all add: l_u8_def bindC_def)

lemma l_u8_SomeD: "l_u8 bs = (Some b, t) \<Longrightarrow> bs = b # t"
  by (cases bs) auto

lemma l_u_append: "length as = n \<Longrightarrow> l_u n (as @ bs) = (Some (be_nat as), bs)"
  by (auto simp: l_u_def bindC_def)

lemma l_u_SomeD: "l_u n bs = (Some v, t) \<Longrightarrow> \<exists>as. bs = as @ t \<and> length as = n \<and> v = be_nat as"
  by (auto simp: l_u_def dest!: l_get_SomeD elim!: bindC_SomeE)

subsection \<open>The interface of a reader\<close>

locale byte_reader =
  fixes rd :: "(cbs, 'a) call"
    and out :: "'a \<Rightarrow> 'b \<Rightarrow> bool"
    and spec :: "(u8 list, 'b) call"
  assumes reads: "cbs_ok c \<Longrightarrow> cbs_ok (snd (rd c)) \<and>
      cbs_bytes (snd (rd c)) = snd (spec (cbs_bytes c)) \<and>
      rel_option out (fst (rd c)) (fst (spec (cbs_bytes c)))"
    and advances: "\<exists>n. snd (spec bs) = drop n bs"
begin

lemma reader_ok: "cbs_ok c \<Longrightarrow> cbs_ok (snd (rd c))"
  using reads by blast

lemma reader_shrinks: "cbs_ok c \<Longrightarrow> cbs_len (snd (rd c)) \<le> cbs_len c"
proof -
  assume ok: "cbs_ok c"
  obtain n where "snd (spec (cbs_bytes c)) = drop n (cbs_bytes c)" using advances by blast
  then have "length (cbs_bytes (snd (rd c))) \<le> length (cbs_bytes c)"
    using reads [OF ok] by simp
  with ok show ?thesis by (simp add: reader_ok)
qed

text \<open>Nothing past the end is read: two CBS that span the same bytes, over whatever memory,
  give the same answer and the same rest.\<close>

lemma reader_no_overread:
  assumes "cbs_ok c" and "cbs_ok d" and "cbs_bytes c = cbs_bytes d"
  shows "cbs_bytes (snd (rd c)) = cbs_bytes (snd (rd d))"
    and "fst (rd c) = None \<longleftrightarrow> fst (rd d) = None"
    and "fst (rd c) = Some x \<Longrightarrow> fst (rd d) = Some y \<Longrightarrow> \<exists>v. out x v \<and> out y v"
  using reads [OF assms(1)] reads [OF assms(2)] assms(3)
  by (auto simp: option_rel_Some1 option_rel_Some2)

lemma reader_Some:
  assumes "cbs_ok c" and "spec (cbs_bytes c) = (Some v, t)"
  shows "\<exists>x c'. rd c = (Some x, c') \<and> out x v \<and> spans c' t"
  using reads [OF assms(1)] assms
  by (cases "rd c") (auto simp: spans_def option_rel_Some2)

lemma reader_None:
  assumes "cbs_ok c" and "spec (cbs_bytes c) = (None, t)"
  shows "\<exists>c'. rd c = (None, c') \<and> spans c' t"
  using reads [OF assms(1)] assms
  by (cases "rd c") (auto simp: spans_def)

lemma reader_SomeD:
  assumes "cbs_ok c" and "rd c = (Some x, c')"
  shows "\<exists>v. spec (cbs_bytes c) = (Some v, cbs_bytes c') \<and> out x v \<and> cbs_ok c'"
  using reads [OF assms(1)] assms(2)
  by (cases "spec (cbs_bytes c)") (auto simp: option_rel_Some1)

lemma reader_iff:
  assumes "cbs_ok c" and "\<And>x v v'. out x v \<Longrightarrow> out x v' \<Longrightarrow> v = v'"
  shows "(\<exists>x c'. rd c = (Some x, c') \<and> out x v \<and> spans c' r) \<longleftrightarrow> spec (cbs_bytes c) = (Some v, r)"
proof
  assume "\<exists>x c'. rd c = (Some x, c') \<and> out x v \<and> spans c' r"
  then obtain x c' where x: "rd c = (Some x, c')" "out x v" "cbs_bytes c' = r" by (auto simp: spans_def)
  from reader_SomeD [OF assms(1) x(1)] obtain v' where
    "spec (cbs_bytes c) = (Some v', cbs_bytes c')" "out x v'" by blast
  with assms(2) [OF x(2)] x(3) show "spec (cbs_bytes c) = (Some v, r)" by blast
qed (rule reader_Some [OF assms(1)])

end

named_theorems reader_intros \<comment> \<open>what makes a composed function a reader\<close>

lemma bindC_reader:
  assumes m: "byte_reader m R f"
    and k: "\<And>x y. R x y \<Longrightarrow> byte_reader (k x) S (g y)"
    and g: "\<And>y bs. \<exists>n. snd (g y bs) = drop n bs"
  shows "byte_reader (bindC m k) S (bindC f g)"
proof (rule byte_reader.intro)
  fix c
  assume ok: "cbs_ok c"
  show "cbs_ok (snd (bindC m k c)) \<and>
    cbs_bytes (snd (bindC m k c)) = snd (bindC f g (cbs_bytes c)) \<and>
    rel_option S (fst (bindC m k c)) (fst (bindC f g (cbs_bytes c)))"
  proof (cases "f (cbs_bytes c)")
    case (Pair r t)
    show ?thesis
    proof (cases r)
      case None
      with Pair byte_reader.reader_None [OF m ok] show ?thesis
        by (auto simp: bindC_def spans_def)
    next
      case (Some v)
      with Pair byte_reader.reader_Some [OF m ok] obtain x c'
        where "m c = (Some x, c')" "R x v" "spans c' t" by blast
      with Pair Some byte_reader.reads [OF k, of x v c'] show ?thesis
        by (simp add: bindC_def spans_def)
    qed
  qed
next
  fix bs
  obtain r t where f: "f bs = (r, t)" by (cases "f bs")
  obtain n where n: "t = drop n bs" using byte_reader.advances [OF m, of bs] f by auto
  show "\<exists>n. snd (bindC f g bs) = drop n bs"
  proof (cases r)
    case None
    with f n show ?thesis by (auto simp: bindC_def)
  next
    case (Some v)
    obtain k' where "snd (g v t) = drop k' t" using g by blast
    with f n Some show ?thesis by (auto simp: bindC_def)
  qed
qed

lemma retC_reader [reader_intros]: "R x y \<Longrightarrow> byte_reader (retC x) R (retC y)"
  by (rule byte_reader.intro) (auto intro: exI [of _ 0])

lemma failC_reader [reader_intros]: "byte_reader failC R failC"
  by (rule byte_reader.intro) (auto intro: exI [of _ 0])

lemma guardC_reader [reader_intros]:
  "b = b' \<Longrightarrow> (b \<Longrightarrow> byte_reader m R f) \<Longrightarrow> byte_reader (guardC b m) R (guardC b' f)"
  by (cases b) (auto intro: failC_reader)

text \<open>Readers whose continuation is again a reader of the list that is left.\<close>

definition advancing :: "(u8 list, 'a) call \<Rightarrow> bool" where
  "advancing f \<longleftrightarrow> (\<forall>bs. \<exists>n. snd (f bs) = drop n bs)"

lemma advancing_ret: "advancing (retC y)"
  by (auto simp: advancing_def intro: exI [of _ 0])

lemma advancing_fail: "advancing failC"
  by (auto simp: advancing_def intro: exI [of _ 0])

lemma advancing_guard: "(b \<Longrightarrow> advancing f) \<Longrightarrow> advancing (guardC b f)"
  by (cases b) (simp_all add: advancing_fail)

lemma advancing_get: "advancing (l_get n)"
  by (auto simp: advancing_def l_get_def intro: exI [of _ n] exI [of _ 0])

lemma advancing_bind:
  assumes f: "advancing f" and g: "\<And>y. advancing (g y)"
  shows "advancing (bindC f g)"
  unfolding advancing_def
proof
  fix bs
  obtain r t where f1: "f bs = (r, t)" by (cases "f bs")
  moreover obtain n where "snd (f bs) = drop n bs" using f by (auto simp: advancing_def)
  ultimately have 1: "f bs = (r, t)" "t = drop n bs" by simp_all
  show "\<exists>n. snd (bindC f g bs) = drop n bs"
  proof (cases r)
    case None
    with 1 show ?thesis by (auto simp: bindC_def)
  next
    case (Some v)
    obtain k' where "snd (g v t) = drop k' t" using g [of v] by (auto simp: advancing_def)
    with 1 Some show ?thesis by (auto simp: bindC_def)
  qed
qed

lemmas advancing_intros [reader_intros] =
  advancing_ret advancing_fail advancing_guard advancing_get advancing_bind

lemma bindC_reader' [reader_intros]:
  assumes "byte_reader m R f" and "\<And>x y. R x y \<Longrightarrow> byte_reader (k x) S (g y)"
    and "\<And>y. advancing (g y)"
  shows "byte_reader (bindC m k) S (bindC f g)"
  by (rule bindC_reader [OF assms(1,2)]) (use assms(3) in \<open>simp_all add: advancing_def\<close>)

lemma cbs_get_reader [reader_intros]:
  "byte_reader (cbs_get n) (\<lambda>p bs. n \<le> length p \<and> n < 2 ^ 64 \<and> take n p = bs) (l_get n)"
  by (rule byte_reader.intro)
    (auto simp: cbs_get_def l_get_def cbs_ok_def cbs_bytes_def take_drop min_def
      intro: exI [of _ n] exI [of _ 0])

lemma advancing_l_u [reader_intros]: "advancing (l_u n)"
  unfolding l_u_def by (intro advancing_intros)

lemma advancing_l_u8 [reader_intros]: "advancing l_u8"
  unfolding l_u8_def by (intro advancing_intros)

lemma foldl_shift_in_prefix:
  fixes p :: "u8 list"
  shows "n \<le> length p \<Longrightarrow> foldl (\<lambda>r i. shift_in r (p ! i)) r0 [0..<n] = foldl shift_in r0 (take n p)"
  by (induction n) (simp_all add: take_Suc_conv_app_nth)

lemma cbs_get_u_reader [reader_intros]:
  assumes "n \<le> 8"
  shows "byte_reader (cbs_get_u n) (\<lambda>v k. unat v = k \<and> k < 256 ^ n) (l_u n)"
  unfolding cbs_get_u_def l_u_def
proof (rule bindC_reader' [OF cbs_get_reader])
  fix p bs :: "u8 list"
  assume "n \<le> length p \<and> n < 2 ^ 64 \<and> take n p = bs"
  then have p: "n \<le> length p" "take n p = bs" "length bs = n" by auto
  then have "unat (foldl (\<lambda>r i. shift_in r (p ! i)) 0 [0..<n]) = be_nat bs \<and> be_nat bs < 256 ^ n"
    using assms be_nat_less [of bs] by (simp add: foldl_shift_in_prefix unat_be_loop)
  then show "byte_reader (retC (foldl (\<lambda>r i. shift_in r (p ! i)) 0 [0..<n]))
      (\<lambda>v k. unat v = k \<and> k < 256 ^ n) (retC (be_nat bs))"
    by (rule retC_reader)
qed (rule reader_intros)

lemma CBS_get_u8_reader [reader_intros]: "byte_reader CBS_get_u8 (=) l_u8"
  unfolding CBS_get_u8_def l_u8_def
  by (rule bindC_reader' [OF cbs_get_reader]) (auto intro: reader_intros)

lemma CBS_get_bytes_reader [reader_intros]: "byte_reader (CBS_get_bytes n) spans (l_get n)"
proof -
  have "byte_reader (CBS_get_bytes n) spans (bindC (l_get n) (\<lambda>bs. retC bs))"
    unfolding CBS_get_bytes_def
    by (rule bindC_reader' [OF cbs_get_reader])
      (auto intro!: reader_intros simp: spans_def CBS_init_def cbs_ok_def cbs_bytes_def)
  moreover have "bindC (l_get n) (\<lambda>bs. retC bs) = l_get n"
    by (rule ext) (simp add: bindC_def l_get_def)
  ultimately show ?thesis by simp
qed

lemma CBS_skip_reader [reader_intros]:
  "byte_reader (CBS_skip n) (\<lambda>_ _. True) (bindC (l_get n) (\<lambda>_. retC ()))"
  unfolding CBS_skip_def
  by (rule bindC_reader' [OF cbs_get_reader]) (auto intro: reader_intros)

definition l_prefixed :: "nat \<Rightarrow> (u8 list, u8 list) call" where
  "l_prefixed k = bindC (l_u k) l_get"

lemma advancing_l_prefixed [reader_intros]: "advancing (l_prefixed k)"
  unfolding l_prefixed_def by (intro advancing_intros advancing_l_u)

lemma cbs_get_length_prefixed_reader [reader_intros]:
  "k \<le> 8 \<Longrightarrow> byte_reader (cbs_get_length_prefixed k) spans (l_prefixed k)"
  unfolding cbs_get_length_prefixed_def l_prefixed_def
  by (rule bindC_reader' [OF cbs_get_u_reader]) (auto intro: reader_intros)

text \<open>The interface on the code's own readers.\<close>

interpretation get_u8: byte_reader CBS_get_u8 "(=)" l_u8
  by (rule CBS_get_u8_reader)

interpretation get_bytes: byte_reader "CBS_get_bytes n" spans "l_get n" for n
  by (rule CBS_get_bytes_reader)

interpretation skip: byte_reader "CBS_skip n" "\<lambda>_ _. True" "bindC (l_get n) (\<lambda>_. retC ())" for n
  by (rule CBS_skip_reader)

end
