(* ===== verification/Cbs_Asn1.thy ===== *)
theory Cbs_Asn1
  imports Cbs
begin

text \<open>
  crypto/bytestring/cbs.c, the ASN.1 element reader: identifier octets, length octets and
  the element they delimit, in DER and in the BER variant. The specification side is the
  encoder \<open>der_header\<close>: the reader accepts exactly the byte strings it produces.
\<close>

subsection \<open>Tags\<close>

definition CBS_ASN1_TAG_SHIFT :: nat where [simp]: "CBS_ASN1_TAG_SHIFT = 24"

definition CBS_ASN1_CONSTRUCTED :: u32 where "CBS_ASN1_CONSTRUCTED = 0x20000000"

definition CBS_ASN1_TAG_NUMBER_MASK :: u32 where "CBS_ASN1_TAG_NUMBER_MASK = 0x1fffffff"

text \<open>\<open>parse_base128_integer\<close>: the do loop, one octet per turn.\<close>

function parse_base128_loop :: "u64 \<Rightarrow> (cbs, u64) call" where
  "parse_base128_loop v c =
     (case CBS_get_u8 c of
        (None, c') \<Rightarrow> (None, c')
      | (Some b, c') \<Rightarrow>
          if drop_bit (64 - 7) v \<noteq> 0 then (None, c')
          else if v = 0 \<and> b = 0x80 then (None, c')
          else let v' = push_bit 7 v OR ucast (b AND 0x7f)
               in if b AND 0x80 \<noteq> 0 then parse_base128_loop v' c' else (Some v', c'))"
  by pat_completeness auto
termination
  by (relation "measure (\<lambda>(v, c). cbs_len c)")
    (auto simp: CBS_get_u8_def cbs_get_def bindC_def split: if_splits)

declare parse_base128_loop.simps [simp del]

definition parse_base128_integer :: "(cbs, u64) call" where
  "parse_base128_integer = parse_base128_loop 0"

definition parse_asn1_tag :: "(cbs, u32) call" where
  "parse_asn1_tag = bindC CBS_get_u8 (\<lambda>tag_byte.
     let tag = push_bit CBS_ASN1_TAG_SHIFT (ucast tag_byte AND 0xe0);
         tag_number = ucast tag_byte AND 0x1f in
     bindC (if tag_number = 0x1f
            then bindC parse_base128_integer (\<lambda>v.
                   guardC (\<not> (ucast CBS_ASN1_TAG_NUMBER_MASK < v) \<and> \<not> (v < 0x1f)) (retC (ucast v)))
            else retC tag_number) (\<lambda>tag_number.
     let tag = tag OR tag_number in
     guardC (tag AND NOT CBS_ASN1_CONSTRUCTED \<noteq> 0) (retC tag)))"

subsection \<open>Elements\<close>

text \<open>What \<open>cbs_get_any_asn1_element\<close> hands back through its out parameters.\<close>

record asn1_elt =
  elt_out :: cbs
  elt_tag :: u32
  elt_header_len :: nat
  elt_ber_found :: bool
  elt_indefinite :: bool

definition finish_element :: "cbs \<Rightarrow> nat \<Rightarrow> u32 \<Rightarrow> nat \<Rightarrow> bool \<Rightarrow> bool \<Rightarrow> asn1_elt option \<times> cbs" where
  "finish_element c len tag header_len ber_found indefinite =
     bindC (CBS_get_bytes len) (\<lambda>out. retC
       \<lparr>elt_out = out, elt_tag = tag, elt_header_len = header_len,
        elt_ber_found = ber_found, elt_indefinite = indefinite\<rparr>) c"

text \<open>
  \<open>cbs\<close> itself is only advanced by the final \<open>CBS_get_bytes\<close>; the header is parsed on a copy.
\<close>

definition cbs_get_any_asn1_element :: "bool \<Rightarrow> (cbs, asn1_elt) call" where
  "cbs_get_any_asn1_element ber_ok c =
     (case parse_asn1_tag c of
        (None, _) \<Rightarrow> (None, c)
      | (Some tag, header) \<Rightarrow>
     (case CBS_get_u8 header of
        (None, _) \<Rightarrow> (None, c)
      | (Some length_byte, header) \<Rightarrow>
     (let header_len = CBS_len c - CBS_len header in
      if length_byte AND 0x80 = 0
      then finish_element c (unat length_byte + header_len) tag header_len False False
      else
        let num_bytes = unat (length_byte AND 0x7f) in
        if ber_ok \<and> tag AND CBS_ASN1_CONSTRUCTED \<noteq> 0 \<and> num_bytes = 0
        then finish_element c header_len tag header_len True True
        else if num_bytes = 0 \<or> 4 < num_bytes then (None, c)
        else
     (case cbs_get_u num_bytes header of
        (None, _) \<Rightarrow> (None, c)
      | (Some len64, _) \<Rightarrow>
          let short_form = len64 < 128;
              too_long = drop_bit ((num_bytes - 1) * 8) len64 = 0 in
          if short_form \<and> \<not> ber_ok then (None, c)
          else if too_long \<and> \<not> ber_ok then (None, c)
          else
            let len = unat len64 in
            if size_wrap (len + header_len + num_bytes) < len then (None, c)
            else finish_element c (size_wrap (len + header_len + num_bytes)) tag
                   (header_len + num_bytes) (short_form \<or> too_long) False))))"

definition CBS_get_any_asn1_element :: "(cbs, asn1_elt) call" where
  "CBS_get_any_asn1_element = cbs_get_any_asn1_element False"

definition CBS_get_any_ber_asn1_element :: "(cbs, asn1_elt) call" where
  "CBS_get_any_ber_asn1_element = cbs_get_any_asn1_element True"

definition CBS_get_any_asn1 :: "(cbs, cbs \<times> u32) call" where
  "CBS_get_any_asn1 = bindC CBS_get_any_asn1_element (\<lambda>e c.
     (case CBS_skip (elt_header_len e) (elt_out e) of
        (None, _) \<Rightarrow> (None, c)
      | (Some _, out) \<Rightarrow> (Some (out, elt_tag e), c)))"

definition cbs_get_asn1 :: "u32 \<Rightarrow> bool \<Rightarrow> (cbs, cbs) call" where
  "cbs_get_asn1 tag_value skip_header = bindC CBS_get_any_asn1_element (\<lambda>e c.
     if elt_tag e \<noteq> tag_value then (None, c)
     else if skip_header then
       (case CBS_skip (elt_header_len e) (elt_out e) of
          (None, _) \<Rightarrow> (None, c)
        | (Some _, out) \<Rightarrow> (Some out, c))
     else (Some (elt_out e), c))"

definition CBS_get_asn1 :: "u32 \<Rightarrow> (cbs, cbs) call" where
  "CBS_get_asn1 tag_value = cbs_get_asn1 tag_value True"

definition CBS_get_asn1_element :: "u32 \<Rightarrow> (cbs, cbs) call" where
  "CBS_get_asn1_element tag_value = cbs_get_asn1 tag_value False"

definition CBS_peek_asn1_tag :: "cbs \<Rightarrow> u32 \<Rightarrow> bool" where
  "CBS_peek_asn1_tag c tag_value \<longleftrightarrow> fst (parse_asn1_tag c) = Some tag_value"

subsection \<open>Base-128 integers\<close>

fun b128_cont :: "nat \<Rightarrow> u8 list" where
  "b128_cont n = (if n = 0 then [] else b128_cont (n div 128) @ [of_nat (n mod 128) OR 0x80])"

declare b128_cont.simps [simp del]

definition b128 :: "nat \<Rightarrow> u8 list" where
  "b128 n = b128_cont (n div 128) @ [of_nat (n mod 128)]"

fun l_base128 :: "nat \<Rightarrow> (u8 list, nat) call" where
  "l_base128 v [] = (None, [])"
| "l_base128 v (b # bs) =
     (if 2 ^ 57 \<le> v then (None, bs)
      else if v = 0 \<and> b = 0x80 then (None, bs)
      else let v' = v * 128 + unat b mod 128
           in if 128 \<le> unat b then l_base128 v' bs else (Some v', bs))"

lemma b128_cont_0 [simp]: "b128_cont 0 = []"
  by (simp add: b128_cont.simps)

lemma b128_cont_step: "0 < n \<Longrightarrow> b128_cont n = b128_cont (n div 128) @ [of_nat (n mod 128) OR 0x80]"
  by (simp add: b128_cont.simps)

lemma of_nat_or_80: "n < 128 \<Longrightarrow> unat (of_nat n OR 0x80 :: u8) = n + 128"
  by (simp add: unat_or_128 unat_of_nat)

text \<open>The reader computes exactly on the bytes it spans.\<close>

lemma base128_step:
  fixes b :: u8
  assumes "unat v < 2 ^ 57"
  shows "unat (push_bit 7 v OR ucast (b AND 0x7f) :: u64) = unat v * 128 + unat b mod 128"
proof -
  have "unat b mod 128 < 128" by simp
  then show ?thesis
    using assms unat_push_or [of "ucast (b AND 0x7f) :: u64" 7 v] by (simp add: unat_and_7f)
qed

lemma parse_base128_loop_reads:
  "cbs_ok c \<Longrightarrow> unat v = k \<Longrightarrow>
     cbs_ok (snd (parse_base128_loop v c)) \<and>
     cbs_bytes (snd (parse_base128_loop v c)) = snd (l_base128 k (cbs_bytes c)) \<and>
     rel_option (\<lambda>w n. unat w = n) (fst (parse_base128_loop v c)) (fst (l_base128 k (cbs_bytes c)))"
proof (induction v c arbitrary: k rule: parse_base128_loop.induct)
  case (1 v c)
  show ?case
  proof (cases "cbs_bytes c")
    case Nil
    with get_u8.reader_None [OF "1.prems"(1)] obtain c' where
      "CBS_get_u8 c = (None, c')" "spans c' []" by auto
    with Nil show ?thesis by (subst (1 2 3) parse_base128_loop.simps) (simp add: spans_def)
  next
    case (Cons b bs)
    with get_u8.reader_Some [OF "1.prems"(1)] obtain c' where
      c': "CBS_get_u8 c = (Some b, c')" "cbs_ok c'" "cbs_bytes c' = bs" by (auto simp: spans_def)
    show ?thesis
    proof (cases "drop_bit 57 v \<noteq> 0 \<or> v = 0 \<and> b = 0x80")
      case True
      then have "2 ^ 57 \<le> k \<or> k = 0 \<and> b = 0x80"
        using "1.prems"(2) by (auto simp: drop_bit_0_iff)
      with True Cons c' show ?thesis
        by (subst (1 2 3) parse_base128_loop.simps) auto
    next
      case False
      then have k: "k < 2 ^ 57" "\<not> (k = 0 \<and> b = 0x80)"
        using "1.prems"(2) by (auto simp: drop_bit_0_iff unat_eq_zero)
      let ?v = "push_bit 7 v OR ucast (b AND 0x7f) :: u64"
      have v: "unat ?v = k * 128 + unat b mod 128"
        using base128_step k "1.prems"(2) by simp
      show ?thesis
      proof (cases "b AND 0x80 \<noteq> 0")
        case True
        with False k v c' Cons "1.IH" [OF c'(1) [symmetric] refl _ _ refl True c'(2) v]
        show ?thesis
          by (subst (1 2 3) parse_base128_loop.simps) (auto simp: byte_high_bit Let_def)
      next
        case high: False
        with False k v c' Cons show ?thesis
          by (subst (1 2 3) parse_base128_loop.simps) (auto simp: byte_high_bit Let_def)
      qed
    qed
  qed
qed

lemma l_base128_advancing [reader_intros]: "advancing (l_base128 k)"
  unfolding advancing_def
proof
  fix bs show "\<exists>n. snd (l_base128 k bs) = drop n bs"
  proof (induction k bs rule: l_base128.induct)
    case (2 v b bs)
    show ?case
    proof (cases "2 ^ 57 \<le> v \<or> v = 0 \<and> b = 0x80 \<or> \<not> 128 \<le> unat b")
      case True
      then show ?thesis by (auto simp: Let_def intro: exI [of _ 1])
    next
      case False
      then obtain n where "snd (l_base128 (v * 128 + unat b mod 128) bs) = drop n bs"
        using 2 by auto
      with False have "snd (l_base128 v (b # bs)) = drop (Suc n) (b # bs)"
        by (auto simp: Let_def)
      then show ?thesis by blast
    qed
  qed simp
qed

lemma parse_base128_integer_reader [reader_intros]:
  "byte_reader parse_base128_integer (\<lambda>w n. unat w = n) (l_base128 0)"
proof (rule byte_reader.intro)
  fix c
  assume "cbs_ok c"
  then show "cbs_ok (snd (parse_base128_integer c)) \<and>
      cbs_bytes (snd (parse_base128_integer c)) = snd (l_base128 0 (cbs_bytes c)) \<and>
      rel_option (\<lambda>w n. unat w = n) (fst (parse_base128_integer c)) (fst (l_base128 0 (cbs_bytes c)))"
    unfolding parse_base128_integer_def by (rule parse_base128_loop_reads) simp
qed (use l_base128_advancing in \<open>simp add: advancing_def\<close>)

interpretation base128: byte_reader parse_base128_integer "\<lambda>w n. unat w = n" "l_base128 0"
  by (rule parse_base128_integer_reader)

text \<open>The accepted octets are exactly the minimal encoding.\<close>

lemma b128_cont_octet:
  assumes "128 \<le> unat b" and "\<not> (k = 0 \<and> b = 0x80)"
  shows "b128_cont (k * 128 + unat b mod 128) = b128_cont k @ [b]"
proof -
  have "0 < k * 128 + unat b mod 128"
  proof (rule ccontr)
    assume "\<not> 0 < k * 128 + unat b mod 128"
    then have "k = 0" and "unat b mod 128 = 0" by auto
    moreover have "unat b = 128"
      using \<open>unat b mod 128 = 0\<close> byte_high_mod [OF assms(1)] by simp
    then have "b = 0x80" by (simp add: word_unat_eq_iff)
    ultimately show False using assms(2) by simp
  qed
  moreover have "of_nat (unat b mod 128) OR 0x80 = b"
  proof -
    show ?thesis using byte_high_mod [OF assms(1)]
      by (simp only: word_unat_eq_iff) (simp add: of_nat_or_80)
  qed
  ultimately show ?thesis by (subst b128_cont_step) simp_all
qed

lemma l_base128_SomeD:
  "l_base128 k bs = (Some v, t) \<Longrightarrow>
     \<exists>ds. bs = ds @ t \<and> b128 v = b128_cont k @ ds \<and> v < 2 ^ 64"
proof (induction k bs rule: l_base128.induct)
  case (2 k b bs)
  let ?k = "k * 128 + unat b mod 128"
  from "2.prems" have k: "k < 2 ^ 57" "\<not> (k = 0 \<and> b = 0x80)"
    by (auto split: if_splits)
  show ?case
  proof (cases "128 \<le> unat b")
    case True
    with "2.prems" k have "l_base128 ?k bs = (Some v, t)" by (auto simp: Let_def split: if_splits)
    with "2.IH" True k obtain ds where "bs = ds @ t" "b128 v = b128_cont ?k @ ds" "v < 2 ^ 64"
      by (auto simp: Let_def)
    with b128_cont_octet [OF True k(2)] show ?thesis by simp
  next
    case False
    with "2.prems" k have "v = ?k" "t = bs" by (auto simp: Let_def split: if_splits)
    moreover from False have "?k div 128 = k" "?k mod 128 = unat b" by simp_all
    ultimately show ?thesis using k False by (auto simp: b128_def)
  qed
qed simp

lemma l_base128_cont:
  "n < 2 ^ 64 \<Longrightarrow> l_base128 0 (b128_cont n @ bs) = l_base128 n bs"
proof (induction n arbitrary: bs rule: b128_cont.induct)
  case (1 n)
  show ?case
  proof (cases "n = 0")
    case False
    let ?b = "of_nat (n mod 128) OR 0x80 :: u8"
    have b: "unat ?b = n mod 128 + 128" by (simp add: of_nat_or_80)
    have "\<not> (n div 128 = 0 \<and> ?b = 0x80)"
    proof
      assume "n div 128 = 0 \<and> ?b = 0x80"
      then have "n mod 128 = 0" "n div 128 = 0" using b by simp_all
      with False show False by simp
    qed
    moreover have "n div 128 < 2 ^ 57" using "1.prems" by simp
    moreover have "n div 128 * 128 + unat ?b mod 128 = n" using b by simp
    ultimately have "l_base128 (n div 128) (?b # bs) = l_base128 n bs"
      using b by (auto simp: Let_def)
    with "1.IH" [OF False, of "?b # bs"] "1.prems" show ?thesis
      using False by (simp add: b128_cont_step)
  qed simp
qed

lemma l_base128_last:
  assumes "k < 2 ^ 57" and "d < 128"
  shows "l_base128 k (of_nat d # t) = (Some (k * 128 + d), t)"
proof -
  have "unat (of_nat d :: u8) = d" using assms(2) by (simp add: unat_of_nat)
  moreover from this have "(of_nat d :: u8) \<noteq> 0x80" using assms(2) by auto
  ultimately show ?thesis using assms by (simp add: Let_def)
qed

theorem l_base128_iff:
  "l_base128 0 bs = (Some v, t) \<longleftrightarrow> v < 2 ^ 64 \<and> bs = b128 v @ t"
proof
  assume "l_base128 0 bs = (Some v, t)"
  then show "v < 2 ^ 64 \<and> bs = b128 v @ t" using l_base128_SomeD by force
next
  assume v: "v < 2 ^ 64 \<and> bs = b128 v @ t"
  have "v div 128 < 2 ^ 64" using v by (simp add: div_less_iff_less_mult)
  then have "l_base128 0 (b128_cont (v div 128) @ of_nat (v mod 128) # t) =
      l_base128 (v div 128) (of_nat (v mod 128) # t)"
    by (rule l_base128_cont)
  then have "l_base128 0 bs = l_base128 (v div 128) (of_nat (v mod 128) # t)"
    using v by (simp add: b128_def del: l_base128.simps)
  also have "\<dots> = (Some (v div 128 * 128 + v mod 128), t)"
    by (rule l_base128_last) (use v in \<open>simp_all add: div_less_iff_less_mult\<close>)
  also have "\<dots> = (Some v, t)" by simp
  finally show "l_base128 0 bs = (Some v, t)" .
qed

subsection \<open>Identifier octets\<close>

definition der_tag :: "u32 \<Rightarrow> u8 list" where
  "der_tag tag =
     (let tag_bits = ucast (drop_bit CBS_ASN1_TAG_SHIFT tag AND 0xe0) :: u8;
          tag_number = tag AND CBS_ASN1_TAG_NUMBER_MASK
      in if 0x1f \<le> unat tag_number then (tag_bits OR 0x1f) # b128 (unat tag_number)
         else [tag_bits OR ucast tag_number])"

definition valid_tag :: "u32 \<Rightarrow> bool" where
  "valid_tag tag \<longleftrightarrow> tag AND NOT CBS_ASN1_CONSTRUCTED \<noteq> 0"

definition l_tag :: "(u8 list, u32) call" where
  "l_tag = bindC l_u8 (\<lambda>tag_byte.
     let tag = push_bit CBS_ASN1_TAG_SHIFT (ucast tag_byte AND 0xe0);
         tag_number = ucast tag_byte AND 0x1f in
     bindC (if tag_number = 0x1f
            then bindC (l_base128 0) (\<lambda>v.
                   guardC (v < 2 ^ 29 \<and> 0x1f \<le> v) (retC (of_nat v)))
            else retC tag_number) (\<lambda>tag_number.
     let tag = tag OR tag_number in
     guardC (valid_tag tag) (retC tag)))"

lemma l_tag_advancing [reader_intros]: "advancing l_tag"
  unfolding l_tag_def Let_def by (auto intro!: advancing_intros advancing_l_u8 l_base128_advancing)

lemma tag_number_reader:
  "byte_reader (bindC parse_base128_integer
      (\<lambda>v. guardC (\<not> (ucast CBS_ASN1_TAG_NUMBER_MASK < v) \<and> \<not> (v < 0x1f)) (retC (ucast v :: u32)))) (=)
    (bindC (l_base128 0) (\<lambda>n. guardC (n < 2 ^ 29 \<and> 0x1f \<le> n) (retC (of_nat n))))"
proof (rule bindC_reader' [OF parse_base128_integer_reader], goal_cases)
  case (1 v n)
  then have "(\<not> ucast CBS_ASN1_TAG_NUMBER_MASK < v \<and> \<not> v < 0x1f) = (n < 2 ^ 29 \<and> 0x1f \<le> n)"
    by (auto simp: word_less_nat_alt CBS_ASN1_TAG_NUMBER_MASK_def)
  moreover have "(ucast v :: u32) = of_nat n"
    using 1 by (auto simp: word_unat_eq_iff unat_ucast unat_of_nat)
  ultimately show ?case by (intro guardC_reader retC_reader) simp_all
qed (intro advancing_intros)

lemma parse_asn1_tag_reader [reader_intros]: "byte_reader parse_asn1_tag (=) l_tag"
  unfolding parse_asn1_tag_def l_tag_def Let_def
proof (rule bindC_reader' [OF CBS_get_u8_reader], goal_cases)
  case (1 x y)
  have num: "byte_reader
      (if ucast x AND 0x1f = (0x1f :: u32)
       then bindC parse_base128_integer
              (\<lambda>v. guardC (\<not> ucast CBS_ASN1_TAG_NUMBER_MASK < v \<and> \<not> v < 0x1f) (retC (ucast v :: u32)))
       else retC (ucast x AND 0x1f)) (=)
      (if ucast y AND 0x1f = (0x1f :: u32)
       then bindC (l_base128 0) (\<lambda>n. guardC (n < 2 ^ 29 \<and> 0x1f \<le> n) (retC (of_nat n)))
       else retC (ucast y AND 0x1f))"
    using 1 tag_number_reader by (auto intro: reader_intros)
  show ?case
    by (rule bindC_reader' [OF num]) (auto simp: valid_tag_def 1 intro!: guardC_reader retC_reader advancing_intros)
next
  case (2 y)
  show ?case by (auto intro!: advancing_intros l_base128_advancing)
qed

interpretation asn1_tag: byte_reader parse_asn1_tag "(=)" l_tag
  by (rule parse_asn1_tag_reader)

text \<open>Both directions in terms of numbers: \<open>mk_tag hi n\<close> is the tag with the three class and
  form bits \<open>hi\<close> and the tag number \<open>n\<close>, \<open>mk_id hi n\<close> the identifier octet.\<close>

definition mk_tag :: "nat \<Rightarrow> nat \<Rightarrow> u32" where
  "mk_tag hi n = of_nat (hi * 2 ^ 29 + n)"

definition mk_id :: "nat \<Rightarrow> nat \<Rightarrow> u8" where
  "mk_id hi n = of_nat (hi * 32 + n)"

lemma unat_mk_tag:
  assumes "hi < 8" and "n < 2 ^ 29"
  shows "unat (mk_tag hi n) = hi * 2 ^ 29 + n"
  unfolding mk_tag_def by (subst unat_of_nat) (use assms in simp)

lemma unat_mk_id:
  assumes "hi < 8" and "n < 32"
  shows "unat (mk_id hi n) = hi * 32 + n"
  unfolding mk_id_def by (subst unat_of_nat) (use assms in simp)

lemma mk_tag_eq:
  assumes "hi < 8" and "n < 2 ^ 29"
  shows "tag = mk_tag hi n \<longleftrightarrow> unat tag div 2 ^ 29 = hi \<and> unat tag mod 2 ^ 29 = n"
proof
  assume "unat tag div 2 ^ 29 = hi \<and> unat tag mod 2 ^ 29 = n"
  then have "unat tag = hi * 2 ^ 29 + n" by (metis div_mult_mod_eq)
  then show "tag = mk_tag hi n" by (simp only: word_unat_eq_iff unat_mk_tag [OF assms])
qed (use assms in \<open>simp add: unat_mk_tag\<close>)

lemma mk_id_eq:
  assumes "hi < 8" and "n < 32"
  shows "b = mk_id hi n \<longleftrightarrow> unat b div 32 = hi \<and> unat b mod 32 = n"
proof
  assume "unat b div 32 = hi \<and> unat b mod 32 = n"
  then have "unat b = hi * 32 + n" by (metis div_mult_mod_eq)
  then show "b = mk_id hi n" by (simp only: word_unat_eq_iff unat_mk_id [OF assms])
qed (use assms in \<open>simp add: unat_mk_id\<close>)

lemma high_bits_lt: "unat (b :: u8) div 32 < 8" "unat (tag :: u32) div 2 ^ 29 < 8"
  using byte_lt [of b] unsigned_less [of tag] by (simp_all add: div_less_iff_less_mult)

lemma and_e0: "(w :: u32) AND 0xe0 = push_bit 5 (take_bit 3 (drop_bit 5 w))"
proof -
  have "(0xe0 :: u32) = push_bit 5 (mask 3)"
    by (simp add: mask_eq_exp_minus_1 push_bit_eq_mult)
  show ?thesis
    unfolding \<open>0xe0 = push_bit 5 (mask 3)\<close> by (auto intro!: bit_word_eqI simp: bit_simps)
qed

lemma tag_join:
  assumes "unat num < 2 ^ 29"
  shows "push_bit 24 (ucast (b :: u8) AND 0xe0) OR num = mk_tag (unat b div 32) (unat num)"
proof -
  let ?x = "take_bit 3 (drop_bit 5 (ucast b)) :: u32"
  have x: "unat ?x = unat b div 32"
    using high_bits_lt(1) [of b] by (simp only: unat_take_bit unat_drop_bit unat_ucast_wider) simp
  have e0: "push_bit 24 (ucast b AND 0xe0) = push_bit 29 ?x"
    by (simp only: and_e0 push_bit_push_bit) simp
  have "unat (push_bit 29 ?x OR num) = unat b div 32 * 2 ^ 29 + unat num"
    using unat_push_or [of num 29 ?x] x high_bits_lt(1) [of b] assms by simp
  then show ?thesis
    using high_bits_lt(1) [of b] assms unfolding e0 by (simp only: word_unat_eq_iff unat_mk_tag)
qed

lemma id_number: "unat (ucast (b :: u8) AND 0x1f :: u32) = unat b mod 32"
  using unat_and_mask [of "ucast b :: u32" 5] by (simp add: mask_eq_exp_minus_1)

lemma id_number_31: "ucast (b :: u8) AND 0x1f = (0x1f :: u32) \<longleftrightarrow> unat b mod 32 = 31"
  by (simp add: word_unat_eq_iff id_number)

lemma l_tag_Cons:
  "l_tag (b # bs) = (Some tag, r) \<longleftrightarrow>
     valid_tag tag \<and>
     (if unat b mod 32 = 31
      then \<exists>v. l_base128 0 bs = (Some v, r) \<and> v < 2 ^ 29 \<and> 31 \<le> v \<and> tag = mk_tag (unat b div 32) v
      else r = bs \<and> tag = mk_tag (unat b div 32) (unat b mod 32))"
proof (cases "unat b mod 32 = 31")
  case True
  have J: "push_bit 24 (ucast b AND 0xe0) OR of_nat v = mk_tag (unat b div 32) v" if "v < 2 ^ 29" for v
    using tag_join [of "of_nat v" b] that by (simp add: unat_of_nat)
  show ?thesis
    using True J unfolding l_tag_def
    by (auto simp: bindC_def Let_def id_number_31 guardC_def simp del: push_bit_and
        split: prod.splits option.splits if_splits)
next
  case False
  have "unat (ucast b AND 0x1f :: u32) < 2 ^ 29" by (simp add: id_number less_le_trans [of _ 32])
  note J = tag_join [OF this, of b, unfolded id_number]
  show ?thesis
    using False unfolding l_tag_def
    by (auto simp: bindC_def Let_def id_number_31 guardC_def J simp del: push_bit_and split: if_splits)
qed

lemma id_join:
  assumes "hi < 8" and "unat y < 32"
  shows "push_bit 5 (of_nat hi) OR y = mk_id hi (unat y)"
proof -
  have h: "unat (of_nat hi :: u8) = hi" using assms(1) by (simp add: unat_of_nat)
  have "unat (push_bit 5 (of_nat hi) OR y) = hi * 32 + unat y"
    using unat_push_or [of y 5 "of_nat hi"] assms h by simp
  then show ?thesis using assms by (simp only: word_unat_eq_iff unat_mk_id)
qed

lemma der_tag_nat:
  "der_tag tag =
     (let hi = unat tag div 2 ^ 29; num = unat tag mod 2 ^ 29
      in if 31 \<le> num then mk_id hi 31 # b128 num else [mk_id hi num])"
proof -
  let ?hi = "unat tag div 2 ^ 29"
  note lt = high_bits_lt(2) [of tag]
  have num: "unat (tag AND CBS_ASN1_TAG_NUMBER_MASK) = unat tag mod 2 ^ 29"
    using unat_and_mask [of tag 29]
    by (simp add: mask_eq_exp_minus_1 CBS_ASN1_TAG_NUMBER_MASK_def)
  have bits: "ucast (drop_bit 24 tag AND 0xe0) = push_bit 5 (of_nat ?hi :: u8)"
  proof -
    have "unat (take_bit 3 (drop_bit 29 tag)) = ?hi"
      using lt by (simp only: unat_take_bit unat_drop_bit) simp
    moreover have "drop_bit 24 tag AND 0xe0 = push_bit 5 (take_bit 3 (drop_bit 29 tag))"
      by (simp add: and_e0)
    ultimately have "unat (drop_bit 24 tag AND 0xe0) = ?hi * 32"
      using lt unat_push_or [of 0 5 "take_bit 3 (drop_bit 29 tag)"] by simp
    moreover have "unat (push_bit 5 (of_nat ?hi :: u8)) = ?hi * 32"
      using lt unat_push_or [of 0 5 "of_nat ?hi :: u8"] by (simp add: unat_of_nat)
    ultimately show ?thesis using lt by (simp only: word_unat_eq_iff unat_ucast) simp
  qed
  show ?thesis
  proof (cases "31 \<le> unat tag mod 2 ^ 29")
    case True
    with id_join [OF lt, of "0x1f"] show ?thesis
      unfolding der_tag_def CBS_ASN1_TAG_SHIFT_def bits Let_def num by simp
  next
    case False
    then have "unat (ucast (tag AND CBS_ASN1_TAG_NUMBER_MASK) :: u8) = unat tag mod 2 ^ 29"
      using num by (simp only: unat_ucast) simp
    with False id_join [OF lt, of "ucast (tag AND CBS_ASN1_TAG_NUMBER_MASK)"] show ?thesis
      unfolding der_tag_def CBS_ASN1_TAG_SHIFT_def bits Let_def num by simp
  qed
qed

lemma ex_tag_number:
  assumes "\<And>v. v < B \<Longrightarrow> tag = f v \<longleftrightarrow> hi = h \<and> num = v" and "num < B"
  shows "(\<exists>v. P v \<and> v < B \<and> L \<le> v \<and> tag = f v) \<longleftrightarrow> P num \<and> L \<le> num \<and> hi = h"
  using assms by metis

theorem l_tag_iff: "l_tag bs = (Some tag, r) \<longleftrightarrow> valid_tag tag \<and> bs = der_tag tag @ r"
proof (cases bs)
  case Nil
  then show ?thesis by (simp add: l_tag_def bindC_def der_tag_nat Let_def)
next
  case (Cons b cs)
  define hi num where "hi = unat tag div 2 ^ 29" and "num = unat tag mod 2 ^ 29"
  have tag: "tag = mk_tag (unat b div 32) v \<longleftrightarrow> hi = unat b div 32 \<and> num = v" if "v < 2 ^ 29" for v
    unfolding hi_def num_def by (rule mk_tag_eq [OF high_bits_lt(1) that])
  have lt: "hi < 8" "num < 2 ^ 29"
    using high_bits_lt(2) [of tag] by (simp_all add: hi_def num_def)
  have b: "b = mk_id hi n \<longleftrightarrow> unat b div 32 = hi \<and> unat b mod 32 = n" if "n < 32" for n
    by (rule mk_id_eq [OF lt(1) that])
  have n32: "unat b mod 32 < 32" by simp
  then have n29: "unat b mod 32 < 2 ^ 29" by (rule less_le_trans) simp
  have big: "num < 2 ^ 64" using lt(2) by simp
  have enc: "der_tag tag = (if 31 \<le> num then mk_id hi 31 # b128 num else [mk_id hi num])"
    unfolding der_tag_nat Let_def hi_def num_def ..
  show ?thesis
  proof (cases "unat b mod 32 = 31")
    case True
    have "(\<exists>v. l_base128 0 cs = (Some v, r) \<and> v < 2 ^ 29 \<and> 31 \<le> v \<and> tag = mk_tag (unat b div 32) v) \<longleftrightarrow>
        l_base128 0 cs = (Some num, r) \<and> 31 \<le> num \<and> hi = unat b div 32"
      by (rule ex_tag_number [OF tag lt(2)])
    then show ?thesis
      unfolding Cons l_tag_Cons enc using True b [of 31] b [of num] big
      by (simp only: l_base128_iff) auto
  next
    case False
    then show ?thesis
      unfolding Cons l_tag_Cons enc using tag [OF n29] b [of 31] b [of num] n32
      by auto
  qed
qed

subsection \<open>Length octets and the element\<close>

definition der_len :: "nat \<Rightarrow> u8 list" where
  "der_len n = (if n < 128 then [of_nat n] else of_nat (128 + length (be_bytes n)) # be_bytes n)"

definition l_len :: "(u8 list, nat) call" where
  "l_len = bindC l_u8 (\<lambda>b.
     if unat b < 128 then retC (unat b)
     else guardC (unat b mod 128 \<noteq> 0 \<and> unat b mod 128 \<le> 4)
       (bindC (l_u (unat b mod 128)) (\<lambda>v.
          guardC (128 \<le> v \<and> 256 ^ (unat b mod 128 - 1) \<le> v) (retC v))))"

lemma l_len_iff: "l_len bs = (Some n, r) \<longleftrightarrow> n < 2 ^ 32 \<and> bs = der_len n @ r"
proof
  assume "l_len bs = (Some n, r)"
  then obtain b cs where bs: "bs = b # cs" and
    b: "unat b < 128 \<and> n = unat b \<and> r = cs \<or>
        128 \<le> unat b \<and> unat b mod 128 \<noteq> 0 \<and> unat b mod 128 \<le> 4 \<and>
        l_u (unat b mod 128) cs = (Some n, r) \<and> 128 \<le> n \<and> 256 ^ (unat b mod 128 - 1) \<le> n"
    unfolding l_len_def
    by (auto elim!: bindC_SomeE guardC_SomeE dest!: l_u8_SomeD split: if_splits)
  show "n < 2 ^ 32 \<and> bs = der_len n @ r"
  proof (cases "unat b < 128")
    case True
    with b bs show ?thesis by (simp add: der_len_def)
  next
    case False
    with b obtain as where as: "cs = as @ r" "length as = unat b mod 128" "n = be_nat as"
      using l_u_SomeD by force
    have ne: "as \<noteq> []" and l4: "length as \<le> 4" using False b as by auto
    have "hd as \<noteq> 0" using hd_nonzero_iff [OF ne] as b False by simp
    then have enc: "be_bytes n = as" using as be_bytes_be_nat by blast
    have "be_nat as < 256 ^ 4"
      using be_nat_less [of as] power_increasing [OF l4, of "256 :: nat"] by linarith
    moreover have "of_nat (128 + length as) = b"
    proof -
      have "128 + length as = unat b" using byte_high_mod [of b] False as by simp
      then show ?thesis by (simp only: of_nat_unat ucast_id)
    qed
    ultimately show ?thesis using enc as bs False b by (auto simp: der_len_def)
  qed
next
  assume n: "n < 2 ^ 32 \<and> bs = der_len n @ r"
  show "l_len bs = (Some n, r)"
  proof (cases "n < 128")
    case True
    with n show ?thesis by (simp add: der_len_def l_len_def bindC_def unat_of_nat)
  next
    case False
    let ?k = "length (be_bytes n)"
    have k4: "?k \<le> 4" using n by (intro length_be_bytes_le) simp
    have k: "0 < ?k" using length_be_bytes_ge [of 0 n] False by simp
    have b: "unat (of_nat (128 + ?k) :: u8) = 128 + ?k"
      using k4 by (intro unat_of_nat_u8) simp
    then have m: "unat (of_nat (128 + ?k) :: u8) mod 128 = ?k" using k4 by simp
    have "256 ^ (?k - 1) \<le> n"
    proof (rule ccontr)
      assume "\<not> 256 ^ (?k - 1) \<le> n"
      then have "?k \<le> ?k - 1" by (intro length_be_bytes_le) simp
      with k show False by linarith
    qed
    moreover have "bs = of_nat (128 + ?k) # be_bytes n @ r" using n False by (simp add: der_len_def)
    ultimately show ?thesis
      using b m k4 k False l_u_append [OF refl, of "be_bytes n" r]
      unfolding l_len_def bindC_def by (simp del: of_nat_add)
  qed
qed

lemma l_len_advancing [reader_intros]: "advancing l_len"
proof -
  have "advancing (if unat b < 128 then retC (unat b)
     else guardC (unat b mod 128 \<noteq> 0 \<and> unat b mod 128 \<le> 4)
       (bindC (l_u (unat b mod 128)) (\<lambda>v.
          guardC (128 \<le> v \<and> 256 ^ (unat b mod 128 - 1) \<le> v) (retC v))))" for b :: u8
    by (auto intro!: advancing_intros advancing_l_u)
  then show ?thesis unfolding l_len_def by (intro advancing_intros advancing_l_u8)
qed

definition l_header :: "(u8 list, u32 \<times> nat) call" where
  "l_header = bindC l_tag (\<lambda>t. bindC l_len (\<lambda>n. retC (t, n)))"

definition der_header :: "u32 \<Rightarrow> nat \<Rightarrow> u8 list" where
  "der_header t n = der_tag t @ der_len n"

lemma l_header_iff:
  "l_header bs = (Some (t, n), r) \<longleftrightarrow> valid_tag t \<and> n < 2 ^ 32 \<and> bs = der_header t n @ r"
proof
  assume "l_header bs = (Some (t, n), r)"
  then obtain s where "l_tag bs = (Some t, s)" "l_len s = (Some n, r)"
    by (auto simp: l_header_def elim!: bindC_SomeE)
  then show "valid_tag t \<and> n < 2 ^ 32 \<and> bs = der_header t n @ r"
    by (simp add: l_tag_iff l_len_iff der_header_def)
next
  assume "valid_tag t \<and> n < 2 ^ 32 \<and> bs = der_header t n @ r"
  then have "l_tag bs = (Some t, der_len n @ r)" "l_len (der_len n @ r) = (Some n, r)"
    by (simp_all add: l_tag_iff l_len_iff der_header_def)
  then show "l_header bs = (Some (t, n), r)" by (simp add: l_header_def bindC_def)
qed

lemma l_header_advancing: "advancing l_header"
  unfolding l_header_def by (intro advancing_intros l_tag_advancing l_len_advancing)

text \<open>What the DER reader does, in terms of \<open>l_header\<close>.\<close>

definition header_result :: "cbs \<Rightarrow> asn1_elt option \<times> cbs" where
  "header_result c =
     (case l_header (cbs_bytes c) of
        (None, _) \<Rightarrow> (None, c)
      | (Some (t, n), r) \<Rightarrow>
          let h = cbs_len c - length r
          in if length r < n then (None, c)
             else (Some \<lparr>elt_out = CBS_init (cbs_data c) (h + n), elt_tag = t, elt_header_len = h,
                        elt_ber_found = False, elt_indefinite = False\<rparr>,
                   c\<lparr>cbs_data := drop (h + n) (cbs_data c), cbs_len := length r - n\<rparr>))"

lemma long_form_octet:
  assumes "\<not> unat (b :: u8) < 128"
  shows "b AND 0x80 \<noteq> 0" and "unat (b AND 0x7f) = unat b mod 128"
  using assms byte_high_bit [of b] by (simp_all add: unat_and_7f)

lemma finish_element_eq:
  "finish_element c len t h bf ind =
     (if cbs_len c < len then (None, c)
      else (Some \<lparr>elt_out = CBS_init (cbs_data c) len, elt_tag = t, elt_header_len = h,
                  elt_ber_found = bf, elt_indefinite = ind\<rparr>,
            c\<lparr>cbs_data := drop len (cbs_data c), cbs_len := cbs_len c - len\<rparr>))"
  by (simp add: finish_element_def CBS_get_bytes_def bindC_def cbs_get_def)

lemma element_after_tag:
  assumes ok: "cbs_ok c" "cbs_len c < 2 ^ 64"
    and tag: "parse_asn1_tag c = (Some t, hdr)" "cbs_ok hdr" "cbs_bytes hdr = s"
    and l: "l_header (cbs_bytes c) = bindC l_len (\<lambda>n. retC (t, n)) s"
    and s: "length s \<le> cbs_len c"
  shows "cbs_get_any_asn1_element False c = header_result c"
proof (cases s)
  case Nil
  with get_u8.reader_None [OF tag(2)] tag(3) obtain h where "CBS_get_u8 hdr = (None, h)" by auto
  with Nil l tag(1) show ?thesis
    by (simp add: cbs_get_any_asn1_element_def header_result_def bindC_def l_len_def)
next
  case (Cons b bs)
  with get_u8.reader_Some [OF tag(2)] tag(3) obtain h where
    h: "CBS_get_u8 hdr = (Some b, h)" "cbs_ok h" "cbs_bytes h = bs" by (auto simp: spans_def)
  then have len: "cbs_len h = length bs" by auto
  have le: "Suc (length bs) \<le> cbs_len c" using s Cons by simp
  show ?thesis
  proof (cases "unat b < 128")
    case True
    then have "b AND 0x80 = 0" using byte_high_bit [of b] by auto
    then have E: "cbs_get_any_asn1_element False c =
        finish_element c (unat b + (cbs_len c - length bs)) t (cbs_len c - length bs) False False"
      unfolding cbs_get_any_asn1_element_def by (simp add: tag(1) h(1) CBS_len_def len Let_def)
    have "l_len s = (Some (unat b), bs)" using True Cons by (simp add: l_len_def bindC_def)
    then show ?thesis
      unfolding E header_result_def l finish_element_eq using le
      by (auto simp add: bindC_def Let_def add.commute)
  next
    case False
    note lf = long_form_octet [OF False]
    let ?n = "unat b mod 128"
    show ?thesis
    proof (cases "?n = 0 \<or> 4 < ?n")
      case True
      then have "cbs_get_any_asn1_element False c = (None, c)"
        unfolding cbs_get_any_asn1_element_def using lf by (simp add: tag(1) h(1) Let_def)
      moreover have "l_len s = (None, bs)" using False True Cons by (auto simp: l_len_def bindC_def)
      ultimately show ?thesis unfolding header_result_def l by (simp add: bindC_def)
    next
      case n: False
      then have n8: "?n \<le> 8" by simp
      note rd = cbs_get_u_reader [OF n8]
      show ?thesis
      proof (cases "l_u ?n bs")
        case (Pair r u)
        show ?thesis
        proof (cases r)
          case None
          with byte_reader.reader_None [OF rd h(2)] h(3) Pair obtain h' where
            "cbs_get_u ?n h = (None, h')" by auto
          then have "cbs_get_any_asn1_element False c = (None, c)"
            unfolding cbs_get_any_asn1_element_def using lf n by (simp add: tag(1) h(1) Let_def)
          moreover have "l_len s = (None, u)"
            using False n Cons Pair None by (simp add: l_len_def bindC_def)
          ultimately show ?thesis unfolding header_result_def l by (simp add: bindC_def)
        next
          case (Some v)
          with byte_reader.reader_Some [OF rd h(2)] h(3) Pair obtain w h' where
            w: "cbs_get_u ?n h = (Some w, h')" "unat w = v" "v < 256 ^ ?n" by auto
          have "v < 256 ^ 4"
            using w(3) n power_increasing [of ?n 4 "256 :: nat"] by linarith
          then have v32: "v < 2 ^ 32" by simp
          from l_u_SomeD [OF Pair [unfolded Some]] have u: "length bs = ?n + length u" by auto
          have sf: "w < 128 \<longleftrightarrow> v < 128" using w(2) by (simp add: word_less_nat_alt)
          have tl: "drop_bit ((?n - 1) * 8) w = 0 \<longleftrightarrow> \<not> 256 ^ (?n - 1) \<le> v"
          proof -
            have "(2 :: nat) ^ ((?n - 1) * 8) = 256 ^ (?n - 1)"
              by (simp add: mult.commute [of _ 8] power_mult)
            then show ?thesis using w(2) by (simp only: drop_bit_0_iff not_le)
          qed
          have L: "l_len s = (if 128 \<le> v \<and> 256 ^ (?n - 1) \<le> v then (Some v, u) else (None, u))"
            using Cons Pair Some n False by (simp add: l_len_def bindC_def guardC_def)
          let ?total = "v + (cbs_len c - length bs) + ?n"
          have T: "?total = cbs_len c - length u + v" using le u by simp
          show ?thesis
          proof (cases "128 \<le> v \<and> 256 ^ (?n - 1) \<le> v")
            case False
            with L have "l_len s = (None, u)" by argo
            then have R: "header_result c = (None, c)"
              by (simp add: header_result_def l bindC_def)
            from False show ?thesis
              unfolding R cbs_get_any_asn1_element_def
              using lf n w by (auto simp: tag(1) h(1) Let_def sf tl [unfolded One_nat_def])
          next
            case good: True
            with L have R: "header_result c = (let h = cbs_len c - length u in
                if length u < v then (None, c)
                else (Some \<lparr>elt_out = CBS_init (cbs_data c) (h + v), elt_tag = t, elt_header_len = h,
                          elt_ber_found = False, elt_indefinite = False\<rparr>,
                     c\<lparr>cbs_data := drop (h + v) (cbs_data c), cbs_len := length u - v\<rparr>))"
              by (simp add: header_result_def l bindC_def)
            have E: "cbs_get_any_asn1_element False c =
                (if size_wrap ?total < v then (None, c)
                 else finish_element c (size_wrap ?total) t (cbs_len c - length bs + ?n) False False)"
              unfolding cbs_get_any_asn1_element_def
              using good lf n w by (auto simp: tag(1) h(1) Let_def sf tl [unfolded One_nat_def] CBS_len_def len)
            show ?thesis
            proof (cases "2 ^ 64 \<le> ?total")
              case True
              then have "size_wrap (v + ((cbs_len c - length bs) + ?n)) < v"
                using size_wrap_overflows [of v "cbs_len c - length bs + ?n"] v32 le u ok(2)
                by (simp add: add.assoc)
              moreover have "length u < v" using True T ok(2) le u by linarith
              ultimately show ?thesis unfolding E R Let_def by (simp add: add.assoc)
            next
              case False
              then have "size_wrap ?total = ?total" by simp
              moreover have "cbs_len c < ?total \<longleftrightarrow> length u < v"
                using T le u by linarith
              moreover have "cbs_len c - length bs + ?n = cbs_len c - length u" using le u by simp
              moreover have "cbs_len c - (cbs_len c - length u + v) = length u - v" using le u by simp
              ultimately show ?thesis unfolding E R Let_def finish_element_eq by (simp add: T)
            qed
          qed
        qed
      qed
    qed
  qed
qed

lemma element_der:
  assumes ok: "cbs_ok c" "cbs_len c < 2 ^ 64"
  shows "cbs_get_any_asn1_element False c = header_result c"
proof (cases "l_tag (cbs_bytes c)")
  case (Pair r s)
  obtain k where "snd (l_tag (cbs_bytes c)) = drop k (cbs_bytes c)"
    using l_tag_advancing by (auto simp: advancing_def)
  with Pair ok(1) have s: "length s \<le> cbs_len c" by simp
  show ?thesis
  proof (cases r)
    case None
    with Pair asn1_tag.reader_None [OF ok(1)] obtain h where "parse_asn1_tag c = (None, h)" by blast
    with None Pair show ?thesis
      by (simp add: cbs_get_any_asn1_element_def header_result_def l_header_def bindC_def)
  next
    case (Some t)
    with Pair asn1_tag.reader_Some [OF ok(1)] obtain hdr where
      "parse_asn1_tag c = (Some t, hdr)" "cbs_ok hdr" "cbs_bytes hdr = s"
      by (auto simp: spans_def)
    moreover have "l_header (cbs_bytes c) = bindC l_len (\<lambda>n. retC (t, n)) s"
      using Some Pair by (simp add: l_header_def bindC_def)
    ultimately show ?thesis using element_after_tag ok s by blast
  qed
qed

text \<open>The element reader on byte lists.\<close>

definition l_element :: "(u8 list, u32 \<times> u8 list \<times> nat) call" where
  "l_element bs =
     (case l_header bs of
        (None, _) \<Rightarrow> (None, bs)
      | (Some (t, n), r) \<Rightarrow>
          if length r < n then (None, bs)
          else (Some (t, take (length bs - length r + n) bs, length bs - length r), drop n r))"

lemma l_element_header:
  "l_header bs = (Some (t, n), r) \<Longrightarrow>
     l_element bs = (if length r < n then (None, bs)
       else (Some (t, take (length bs - length r + n) bs, length bs - length r), drop n r)) \<and>
     length r \<le> length bs \<and> r = drop (length bs - length r) bs"
  using l_header_iff [of bs t n r] by (simp add: l_element_def)

lemma l_element_iff:
  "l_element bs = (Some (t, w, h), r) \<longleftrightarrow>
     valid_tag t \<and> (\<exists>b. length b < 2 ^ 32 \<and> w = der_header t (length b) @ b \<and>
        h = length (der_header t (length b)) \<and> bs = w @ r)" (is "?L \<longleftrightarrow> ?R")
proof
  assume L: ?L
  then obtain t' n u where hd: "l_header bs = (Some (t', n), u)"
    by (cases "l_header bs") (auto simp: l_element_def split: option.splits)
  note E = l_element_header [OF hd]
  from E L have n: "\<not> length u < n" by auto
  from E L n have eq: "t' = t" "w = take (length bs - length u + n) bs" "h = length bs - length u" "r = drop n u"
    by simp_all
  from hd have enc: "valid_tag t" "n < 2 ^ 32" "bs = der_header t n @ u"
    unfolding eq l_header_iff by simp_all
  have "w = der_header t n @ take n u" "length (take n u) = n" "h = length (der_header t n)"
    unfolding eq(2,3) enc(3) using n by simp_all
  with enc n eq show ?R by (intro conjI exI [of _ "take n u"]) auto
next
  assume ?R
  then obtain b where b: "valid_tag t" "length b < 2 ^ 32" "w = der_header t (length b) @ b"
    "h = length (der_header t (length b))" "bs = w @ r" by blast
  from b(3,5) have bs: "bs = der_header t (length b) @ b @ r" by (simp only: append_assoc)
  with b(1,2) have "l_header bs = (Some (t, length b), b @ r)" by (simp only: l_header_iff simp_thms)
  moreover have "length bs - length (b @ r) = h" unfolding bs b(4) by (simp only: length_append)
  moreover have "take (h + length b) bs = w" "drop (length b) (b @ r) = r"
    unfolding b(5) unfolding b(3,4) by simp_all
  ultimately show ?L unfolding l_element_def by simp
qed

lemma l_element_advancing: "\<exists>n. snd (l_element bs) = drop n bs"
proof (cases "fst (l_header bs)")
  case None
  then show ?thesis by (auto simp: l_element_def split: prod.splits intro: exI [of _ 0])
next
  case (Some x)
  then obtain t n r where "l_header bs = (Some (t, n), r)" by (metis prod.collapse)
  note E = l_element_header [OF this]
  show ?thesis
  proof (cases "length r < n")
    case True
    with E show ?thesis by (auto intro: exI [of _ 0])
  next
    case False
    with E have "snd (l_element bs) = drop n (drop (length bs - length r) bs)" by simp
    then show ?thesis unfolding drop_drop by blast
  qed
qed

definition elt_rel :: "asn1_elt \<Rightarrow> u32 \<times> u8 list \<times> nat \<Rightarrow> bool" where
  "elt_rel e = (\<lambda>(t, w, h). elt_tag e = t \<and> spans (elt_out e) w \<and> elt_header_len e = h \<and>
     h \<le> length w \<and> \<not> elt_ber_found e \<and> \<not> elt_indefinite e)"

lemma CBS_get_any_asn1_element_reader [reader_intros]:
  "byte_reader CBS_get_any_asn1_element elt_rel l_element"
proof (rule byte_reader.intro)
  fix c
  assume ok: "cbs_ok c"
  then have len: "cbs_len c < 2 ^ 64" "cbs_len c \<le> length (cbs_data c)" by (simp_all add: cbs_ok_def)
  have get: "CBS_get_any_asn1_element c = header_result c"
    unfolding CBS_get_any_asn1_element_def using ok len by (intro element_der)
  show "cbs_ok (snd (CBS_get_any_asn1_element c)) \<and>
      cbs_bytes (snd (CBS_get_any_asn1_element c)) = snd (l_element (cbs_bytes c)) \<and>
      rel_option elt_rel (fst (CBS_get_any_asn1_element c)) (fst (l_element (cbs_bytes c)))"
  proof (cases "fst (l_header (cbs_bytes c))")
    case None
    then show ?thesis
      unfolding get using ok by (auto simp: header_result_def l_element_def split: prod.splits)
  next
    case (Some x)
    then obtain t n r where hd: "l_header (cbs_bytes c) = (Some (t, n), r)" by (metis prod.collapse)
    note E = l_element_header [OF this]
    show ?thesis
    proof (cases "length r < n")
      case True
      with E hd ok show ?thesis unfolding get by (simp add: header_result_def Let_def)
    next
      case False
      let ?h = "cbs_len c - length r"
      have lb: "length (cbs_bytes c) = cbs_len c" using ok by simp
      have r: "length r \<le> cbs_len c" using E lb by simp
      then have total: "?h + n \<le> cbs_len c" using False by linarith
      have "drop n r = drop (?h + n) (cbs_bytes c)"
        using E lb by (metis add.commute drop_drop)
      then have "drop n r = take (length r - n) (drop (?h + n) (cbs_data c))"
        using False r by (simp add: cbs_bytes_def drop_take)
      with False hd E lb len total r show ?thesis
        unfolding get
        by (simp add: header_result_def Let_def elt_rel_def spans_def cbs_ok_def CBS_init_def)
          (auto simp: cbs_bytes_def min_def)
    qed
  qed
qed (rule l_element_advancing)

interpretation any_element: byte_reader CBS_get_any_asn1_element elt_rel l_element
  by (rule CBS_get_any_asn1_element_reader)

definition l_any_asn1 :: "(u8 list, u8 list \<times> u32) call" where
  "l_any_asn1 = bindC l_element (\<lambda>(t, w, h). retC (drop h w, t))"

definition l_asn1 :: "u32 \<Rightarrow> (u8 list, u8 list) call" where
  "l_asn1 tag = bindC l_element (\<lambda>(t, w, h). guardC (t = tag) (retC (drop h w)))"

definition l_asn1_element :: "u32 \<Rightarrow> (u8 list, u8 list) call" where
  "l_asn1_element tag = bindC l_element (\<lambda>(t, w, h). guardC (t = tag) (retC w))"

lemma CBS_skip_header:
  assumes "spans out w" and "h \<le> length w"
  shows "\<exists>out'. CBS_skip h out = (Some (), out') \<and> spans out' (drop h w)"
  using skip.reader_Some [of out h] assms by (simp add: spans_def bindC_def)

lemma element_body_reader:
  assumes "elt_rel e (t, w, h)"
  shows "byte_reader (\<lambda>c. case CBS_skip (elt_header_len e) (elt_out e) of
           (None, _) \<Rightarrow> (None, c) | (Some _, out) \<Rightarrow> (Some (out, elt_tag e), c))
         (\<lambda>(out, t) (b, t'). spans out b \<and> t = t') (retC (drop h w, t))"
proof -
  obtain out' where "CBS_skip (elt_header_len e) (elt_out e) = (Some (), out')" "spans out' (drop h w)"
    using assms CBS_skip_header [of "elt_out e" w h] by (auto simp: elt_rel_def)
  then have "(\<lambda>c :: cbs. case CBS_skip (elt_header_len e) (elt_out e) of
      (None, _) \<Rightarrow> (None, c) | (Some _, out) \<Rightarrow> (Some (out, elt_tag e), c)) = retC (out', t)"
    and "spans out' (drop h w)"
    using assms by (auto simp: elt_rel_def)
  then show ?thesis by (auto intro: retC_reader)
qed

lemma advancing_element: "advancing l_element"
  using l_element_advancing by (simp add: advancing_def)

lemma CBS_get_any_asn1_reader [reader_intros]:
  "byte_reader CBS_get_any_asn1 (\<lambda>(out, t) (b, t'). spans out b \<and> t = t') l_any_asn1"
  unfolding CBS_get_any_asn1_def l_any_asn1_def
proof (rule bindC_reader' [OF CBS_get_any_asn1_element_reader], goal_cases)
  case (1 e y)
  then show ?case by (cases y) (simp add: element_body_reader)
qed (auto intro: advancing_intros)

lemma cbs_get_asn1_reader:
  "byte_reader (cbs_get_asn1 tag sk) spans (if sk then l_asn1 tag else l_asn1_element tag)"
proof -
  have "byte_reader (cbs_get_asn1 tag sk) spans
      (bindC l_element (\<lambda>(t, w, h). guardC (t = tag) (retC (if sk then drop h w else w))))"
    unfolding cbs_get_asn1_def
  proof (rule bindC_reader' [OF CBS_get_any_asn1_element_reader], goal_cases)
    case (1 e y)
    obtain t w h where y: "y = (t, w, h)" by (cases y)
    with 1 have e: "elt_tag e = t" "spans (elt_out e) w" "elt_header_len e = h" "h \<le> length w"
      by (simp_all add: elt_rel_def)
    obtain out' where s: "CBS_skip h (elt_out e) = (Some (), out')" "spans out' (drop h w)"
      using CBS_skip_header e by blast
    have E: "(\<lambda>c. if elt_tag e \<noteq> tag then (None, c)
        else if sk then (case CBS_skip (elt_header_len e) (elt_out e) of
            (None, _) \<Rightarrow> (None, c) | (Some _, out) \<Rightarrow> (Some out, c))
        else (Some (elt_out e), c)) =
        guardC (t = tag) (retC (if sk then out' else elt_out e))"
      using e s by (auto simp: guardC_def)
    have "byte_reader (guardC (t = tag) (retC (if sk then out' else elt_out e))) spans
        (guardC (t = tag) (retC (if sk then drop h w else w)))"
      using e s by (intro guardC_reader retC_reader) simp_all
    then show ?case by (simp only: E y prod.case)
  qed (auto intro!: advancing_intros split: prod.splits)
  then show ?thesis by (cases sk) (simp_all add: l_asn1_def l_asn1_element_def)
qed

lemma CBS_get_asn1_reader [reader_intros]: "byte_reader (CBS_get_asn1 tag) spans (l_asn1 tag)"
  using cbs_get_asn1_reader [of tag True] by (simp add: CBS_get_asn1_def)

lemma CBS_get_asn1_element_reader [reader_intros]:
  "byte_reader (CBS_get_asn1_element tag) spans (l_asn1_element tag)"
  using cbs_get_asn1_reader [of tag False] by (simp add: CBS_get_asn1_element_def)

interpretation any_asn1: byte_reader CBS_get_any_asn1 "\<lambda>(out, t) (b, t'). spans out b \<and> t = t'" l_any_asn1
  by (rule CBS_get_any_asn1_reader)

interpretation asn1: byte_reader "CBS_get_asn1 tag" spans "l_asn1 tag" for tag
  by (rule CBS_get_asn1_reader)

interpretation asn1_element: byte_reader "CBS_get_asn1_element tag" spans "l_asn1_element tag" for tag
  by (rule CBS_get_asn1_element_reader)

lemma l_any_asn1_iff:
  "l_any_asn1 bs = (Some (b, t), r) \<longleftrightarrow>
     valid_tag t \<and> length b < 2 ^ 32 \<and> bs = der_header t (length b) @ b @ r"
proof
  assume "l_any_asn1 bs = (Some (b, t), r)"
  then obtain w h where "l_element bs = (Some (t, w, h), r)" "b = drop h w"
    by (auto simp: l_any_asn1_def elim!: bindC_SomeE)
  then show "valid_tag t \<and> length b < 2 ^ 32 \<and> bs = der_header t (length b) @ b @ r"
    by (auto simp: l_element_iff)
next
  assume "valid_tag t \<and> length b < 2 ^ 32 \<and> bs = der_header t (length b) @ b @ r"
  then have "l_element bs = (Some (t, der_header t (length b) @ b, length (der_header t (length b))), r)"
    unfolding l_element_iff by auto
  then show "l_any_asn1 bs = (Some (b, t), r)" by (simp add: l_any_asn1_def bindC_def)
qed

lemma l_asn1_any: "l_asn1 tag bs = (Some b, r) \<longleftrightarrow> l_any_asn1 bs = (Some (b, tag), r)"
  by (auto simp: l_asn1_def l_any_asn1_def bindC_def split: prod.splits option.splits)
    (auto simp: guardC_def split: if_splits)

lemma l_asn1_append [simp]:
  "valid_tag t \<Longrightarrow> length b < 2 ^ 32 \<Longrightarrow> l_asn1 t (der_header t (length b) @ b @ r) = (Some b, r)"
  by (simp add: l_asn1_any l_any_asn1_iff)

subsection \<open>Properties\<close>

text \<open>C10: \<open>CBS_get_any_asn1\<close> is exactly DER: it returns tag \<open>t\<close>, body \<open>b\<close> and leaves \<open>r\<close> if and
  only if \<open>t\<close> is a tag (tag number nonzero within its class), the body is shorter than
  \<open>2 ^ 32\<close> bytes and the input is the one DER encoding of that element followed by \<open>r\<close>. So the
  reader accepts every encoding and no second spelling of the tag or of the length.\<close>

theorem CBS_get_any_asn1_canonical:
  assumes "cbs_ok c"
  shows "(\<exists>out c'. CBS_get_any_asn1 c = (Some (out, t), c') \<and> spans out b \<and> spans c' r) \<longleftrightarrow>
    valid_tag t \<and> length b < 2 ^ 32 \<and> cbs_bytes c = der_header t (length b) @ b @ r"
  using any_asn1.reader_iff [OF assms, of "(b, t)" r] by (auto simp: l_any_asn1_iff spans_def)

lemma sequence_header: "valid_tag 0x20000010" "der_header 0x20000010 (Suc (Suc 0)) = [0x30, 2]"
  by (simp_all add: valid_tag_def CBS_ASN1_CONSTRUCTED_def der_header_def der_tag_def der_len_def
      CBS_ASN1_TAG_NUMBER_MASK_def)

theorem CBS_get_any_asn1_canonical_witness:
  "\<exists>out c'. CBS_get_any_asn1 (of_bytes [0x30, 2, 5, 0, 7]) = (Some (out, 0x20000010), c') \<and>
     spans out [5, 0] \<and> spans c' [7]"
  using CBS_get_any_asn1_canonical [of "of_bytes [0x30, 2, 5, 0, 7]" "0x20000010" "[5, 0]" "[7]"]
  by (simp add: sequence_header)

end
