(* ===== verification/Cbb.thy ===== *)
theory Cbb
  imports Cbs_Asn1
begin

text \<open>
  crypto/bytestring/cbb.c, the byte builder: one growing buffer and a chain of CBB handles,
  each child waiting for its length prefix.

  The chain hangs off the root CBB, so a state is the base buffer and the list of pending
  children, outermost first. The handle \<open>d\<close> is the root for \<open>d = 0\<close> and the \<open>d\<close>-th child
  otherwise; \<open>cbb->child\<close> of handle \<open>d\<close> is the child at index \<open>d\<close>, and a handle past the end
  of the list is one whose \<open>base\<close> was set to NULL by a flush. The specification is a stack of
  frames: the root's bytes and, per pending child, its kind and its bytes so far.
\<close>

subsection \<open>The CBB object\<close>

record cbb_child =
  cc_offset :: nat
  cc_pending_len_len :: nat
  cc_pending_is_asn1 :: bool

record cbb =
  base_buf :: "u8 list option"
  base_len :: nat
  base_cap :: nat
  base_can_resize :: bool
  base_error :: bool
  cbb_children :: "cbb_child list"

definition CBB_zero :: cbb where
  "CBB_zero = \<lparr>base_buf = None, base_len = 0, base_cap = 0, base_can_resize = False,
     base_error = False, cbb_children = []\<rparr>"

definition cbb_init :: "u8 list option \<Rightarrow> nat \<Rightarrow> bool \<Rightarrow> cbb" where
  "cbb_init buf cap can_resize = \<lparr>base_buf = buf, base_len = 0, base_cap = cap,
     base_can_resize = can_resize, base_error = False, cbb_children = []\<rparr>"

definition CBB_init :: "heap_env \<Rightarrow> nat \<Rightarrow> unit option \<times> cbb" where
  "CBB_init E initial_capacity =
     (let buf = OPENSSL_malloc E initial_capacity in
      if 0 < initial_capacity \<and> buf = None then (None, CBB_zero)
      else (Some (), cbb_init buf initial_capacity True))"

definition CBB_init_fixed :: "u8 list option \<Rightarrow> nat \<Rightarrow> unit option \<times> cbb" where
  "CBB_init_fixed buf len = (Some (), cbb_init buf len False)"

text \<open>The block that \<open>CBB_cleanup\<close> frees.\<close>

definition CBB_cleanup :: "cbb \<Rightarrow> u8 list option" where
  "CBB_cleanup s = (if base_can_resize s then base_buf s else None)"

definition buf_bytes :: "cbb \<Rightarrow> u8 list" where
  "buf_bytes s = (case base_buf s of None \<Rightarrow> [] | Some b \<Rightarrow> b)"

definition buf_write :: "nat \<Rightarrow> u8 list \<Rightarrow> cbb \<Rightarrow> cbb" where
  "buf_write off bs s =
     s\<lparr>base_buf := map_option (\<lambda>b. take off b @ bs @ drop (off + length bs) b) (base_buf s)\<rparr>"

definition buf_set_error :: "cbb \<Rightarrow> cbb" where
  "buf_set_error s = s\<lparr>base_error := True\<rparr>"

text \<open>The result of a reservation is the index in the buffer that \<open>*out\<close> points to.\<close>

definition cbb_buffer_reserve :: "heap_env \<Rightarrow> nat \<Rightarrow> (cbb, nat) call" where
  "cbb_buffer_reserve E len s =
     (let newlen = size_wrap (base_len s + len) in
      if newlen < base_len s then (None, buf_set_error s)
      else if base_cap s < newlen then
        if \<not> base_can_resize s then (None, buf_set_error s)
        else
          let newcap = size_wrap (base_cap s * 2);
              newcap = (if newcap < base_cap s \<or> newcap < newlen then newlen else newcap)
          in case OPENSSL_realloc E (base_buf s) newcap of
               None \<Rightarrow> (None, buf_set_error s)
             | Some newbuf \<Rightarrow>
                 (Some (base_len s), s\<lparr>base_buf := Some newbuf, base_cap := newcap\<rparr>)
      else (Some (base_len s), s))"

definition cbb_buffer_add :: "heap_env \<Rightarrow> nat \<Rightarrow> (cbb, nat) call" where
  "cbb_buffer_add E len = bindC (cbb_buffer_reserve E len) (\<lambda>out s.
     (Some out, s\<lparr>base_len := base_len s + len\<rparr>))"

definition cbb_get_base :: "nat \<Rightarrow> cbb \<Rightarrow> bool" where
  "cbb_get_base d s \<longleftrightarrow> d \<le> length (cbb_children s)"

definition cbb_on_error :: "nat \<Rightarrow> cbb \<Rightarrow> cbb" where
  "cbb_on_error d s = s\<lparr>base_error := True, cbb_children := take d (cbb_children s)\<rparr>"

subsection \<open>Flushing\<close>

text \<open>Number of length octets, first octet, and the length still to be written after it.\<close>

definition asn1_length_form :: "nat \<Rightarrow> nat \<times> u8 \<times> nat" where
  "asn1_length_form len =
     (if 0xffffff < len then (5, 0x80 OR 4, len)
      else if 0xffff < len then (4, 0x80 OR 3, len)
      else if 0xff < len then (3, 0x80 OR 2, len)
      else if 0x7f < len then (2, 0x80 OR 1, len)
      else (1, of_nat len, 0))"

text \<open>The loop \<open>for (i = k - 1; i < k; i--) { buf[off + i] = (uint8_t)v; v >>= 8; }\<close>.\<close>

fun write_be_loop :: "nat \<Rightarrow> nat \<Rightarrow> nat \<Rightarrow> cbb \<Rightarrow> nat \<times> cbb" where
  "write_be_loop off 0 v s = (v, s)"
| "write_be_loop off (Suc i) v s = write_be_loop off i (v div 256) (buf_write (off + i) [of_nat v] s)"

definition flush_length :: "nat \<Rightarrow> nat \<Rightarrow> nat \<Rightarrow> nat \<Rightarrow> (cbb, unit) call" where
  "flush_length d off k len s =
     (case write_be_loop off k len s of
        (rest, s) \<Rightarrow>
          if rest \<noteq> 0 then (None, cbb_on_error d s)
          else (Some (), s\<lparr>cbb_children := take d (cbb_children s)\<rparr>))"

definition flush_child :: "heap_env \<Rightarrow> nat \<Rightarrow> cbb_child \<Rightarrow> nat \<Rightarrow> (cbb, unit) call" where
  "flush_child E d child child_start s =
     (let len = base_len s - child_start in
      if cc_pending_is_asn1 child then
        if 0xfffffffe < len then (None, cbb_on_error d s)
        else
          case asn1_length_form len of (len_len, initial_length_byte, rest) \<Rightarrow>
          if len_len \<noteq> 1 then
            case cbb_buffer_add E (len_len - 1) s of
              (None, s) \<Rightarrow> (None, cbb_on_error d s)
            | (Some _, s) \<Rightarrow>
                let s = buf_write (child_start + (len_len - 1)) (take len (drop child_start (buf_bytes s))) s;
                    s = buf_write (cc_offset child) [initial_length_byte] s
                in flush_length d (cc_offset child + 1) (len_len - 1) rest s
          else flush_length d (cc_offset child + 1) (len_len - 1) rest
                 (buf_write (cc_offset child) [initial_length_byte] s)
      else flush_length d (cc_offset child) (cc_pending_len_len child) len s)"

function CBB_flush :: "heap_env \<Rightarrow> nat \<Rightarrow> (cbb, unit) call" where
  "CBB_flush E d s =
     (if \<not> cbb_get_base d s \<or> base_error s then (None, s)
      else if length (cbb_children s) = d then (Some (), s)
      else
        let child = cbb_children s ! d;
            child_start = size_wrap (cc_offset child + cc_pending_len_len child)
        in case CBB_flush E (Suc d) s of
             (None, s) \<Rightarrow> (None, cbb_on_error d s)
           | (Some _, s) \<Rightarrow>
               if child_start < cc_offset child \<or> base_len s < child_start
               then (None, cbb_on_error d s)
               else flush_child E d child child_start s)"
  by pat_completeness auto
termination
  by (relation "measure (\<lambda>(E, d, s). length (cbb_children s) - d)") (auto simp: cbb_get_base_def)

declare CBB_flush.simps [simp del]

definition CBB_finish :: "heap_env \<Rightarrow> nat \<Rightarrow> bool \<Rightarrow> (cbb, u8 list option \<times> nat) call" where
  "CBB_finish E d has_out = guardC (d = 0) (bindC (CBB_flush E d) (\<lambda>_ s.
     if base_can_resize s \<and> \<not> has_out then (None, s)
     else (Some (base_buf s, base_len s), s\<lparr>base_buf := None\<rparr>)))"

subsection \<open>Writing\<close>

definition CBB_data :: "nat \<Rightarrow> cbb \<Rightarrow> u8 list" where
  "CBB_data d s =
     (if d = 0 then buf_bytes s
      else let c = cbb_children s ! (d - 1)
           in drop (cc_offset c + cc_pending_len_len c) (buf_bytes s))"

definition CBB_len :: "nat \<Rightarrow> cbb \<Rightarrow> nat" where
  "CBB_len d s =
     (if d = 0 then base_len s
      else let c = cbb_children s ! (d - 1)
           in base_len s - cc_offset c - cc_pending_len_len c)"

definition cbb_add_child :: "heap_env \<Rightarrow> nat \<Rightarrow> nat \<Rightarrow> bool \<Rightarrow> (cbb, unit) call" where
  "cbb_add_child E d len_len is_asn1 s =
     (let offset = base_len s in
      case cbb_buffer_add E len_len s of
        (None, s) \<Rightarrow> (None, s)
      | (Some prefix_bytes, s) \<Rightarrow>
          let s = buf_write prefix_bytes (replicate len_len 0) s
          in (Some (), s\<lparr>cbb_children := take d (cbb_children s) @
               [\<lparr>cc_offset = offset, cc_pending_len_len = len_len, cc_pending_is_asn1 = is_asn1\<rparr>]\<rparr>))"

definition cbb_add_length_prefixed :: "heap_env \<Rightarrow> nat \<Rightarrow> nat \<Rightarrow> (cbb, unit) call" where
  "cbb_add_length_prefixed E d len_len = bindC (CBB_flush E d) (\<lambda>_. cbb_add_child E d len_len False)"

definition CBB_add_u8_length_prefixed :: "heap_env \<Rightarrow> nat \<Rightarrow> (cbb, unit) call" where
  "CBB_add_u8_length_prefixed E d = cbb_add_length_prefixed E d 1"

definition CBB_add_u16_length_prefixed :: "heap_env \<Rightarrow> nat \<Rightarrow> (cbb, unit) call" where
  "CBB_add_u16_length_prefixed E d = cbb_add_length_prefixed E d 2"

definition CBB_add_u24_length_prefixed :: "heap_env \<Rightarrow> nat \<Rightarrow> (cbb, unit) call" where
  "CBB_add_u24_length_prefixed E d = cbb_add_length_prefixed E d 3"

definition CBB_add_space :: "heap_env \<Rightarrow> nat \<Rightarrow> nat \<Rightarrow> (cbb, nat) call" where
  "CBB_add_space E d len = bindC (CBB_flush E d) (\<lambda>_. cbb_buffer_add E len)"

definition CBB_add_bytes :: "heap_env \<Rightarrow> nat \<Rightarrow> u8 list \<Rightarrow> nat \<Rightarrow> (cbb, unit) call" where
  "CBB_add_bytes E d data len = bindC (CBB_add_space E d len) (\<lambda>out s.
     (Some (), buf_write out (take len data) s))"

definition CBB_add_zeros :: "heap_env \<Rightarrow> nat \<Rightarrow> nat \<Rightarrow> (cbb, unit) call" where
  "CBB_add_zeros E d len = bindC (CBB_add_space E d len) (\<lambda>out s.
     (Some (), buf_write out (replicate len 0) s))"

definition CBB_reserve :: "heap_env \<Rightarrow> nat \<Rightarrow> nat \<Rightarrow> (cbb, nat) call" where
  "CBB_reserve E d len = bindC (CBB_flush E d) (\<lambda>_. cbb_buffer_reserve E len)"

definition CBB_did_write :: "nat \<Rightarrow> nat \<Rightarrow> (cbb, unit) call" where
  "CBB_did_write d len s =
     (let newlen = size_wrap (base_len s + len) in
      if d < length (cbb_children s) \<or> newlen < base_len s \<or> base_cap s < newlen then (None, s)
      else (Some (), s\<lparr>base_len := newlen\<rparr>))"

definition cbb_add_u :: "heap_env \<Rightarrow> nat \<Rightarrow> u64 \<Rightarrow> nat \<Rightarrow> (cbb, unit) call" where
  "cbb_add_u E d v len_len = bindC (CBB_add_space E d len_len) (\<lambda>buf s.
     case write_be_loop buf len_len (unat v) s of
       (rest, s) \<Rightarrow> if rest \<noteq> 0 then (None, cbb_on_error d s) else (Some (), s))"

definition CBB_add_u8 :: "heap_env \<Rightarrow> nat \<Rightarrow> u8 \<Rightarrow> (cbb, unit) call" where
  "CBB_add_u8 E d value = cbb_add_u E d (ucast value) 1"

definition CBB_add_u16 :: "heap_env \<Rightarrow> nat \<Rightarrow> u16 \<Rightarrow> (cbb, unit) call" where
  "CBB_add_u16 E d value = cbb_add_u E d (ucast value) 2"

definition CBB_add_u16le :: "heap_env \<Rightarrow> nat \<Rightarrow> u16 \<Rightarrow> (cbb, unit) call" where
  "CBB_add_u16le E d value = CBB_add_u16 E d (CRYPTO_bswap2 value)"

definition CBB_add_u24 :: "heap_env \<Rightarrow> nat \<Rightarrow> u32 \<Rightarrow> (cbb, unit) call" where
  "CBB_add_u24 E d value = cbb_add_u E d (ucast value) 3"

definition CBB_add_u32 :: "heap_env \<Rightarrow> nat \<Rightarrow> u32 \<Rightarrow> (cbb, unit) call" where
  "CBB_add_u32 E d value = cbb_add_u E d (ucast value) 4"

definition CBB_add_u32le :: "heap_env \<Rightarrow> nat \<Rightarrow> u32 \<Rightarrow> (cbb, unit) call" where
  "CBB_add_u32le E d value = CBB_add_u32 E d (CRYPTO_bswap4 value)"

definition CBB_add_u64 :: "heap_env \<Rightarrow> nat \<Rightarrow> u64 \<Rightarrow> (cbb, unit) call" where
  "CBB_add_u64 E d value = cbb_add_u E d value 8"

definition CBB_add_u64le :: "heap_env \<Rightarrow> nat \<Rightarrow> u64 \<Rightarrow> (cbb, unit) call" where
  "CBB_add_u64le E d value = CBB_add_u64 E d (CRYPTO_bswap8 value)"

definition CBB_discard_child :: "nat \<Rightarrow> cbb \<Rightarrow> cbb" where
  "CBB_discard_child d s =
     (if length (cbb_children s) \<le> d then s
      else s\<lparr>base_len := cc_offset (cbb_children s ! d), cbb_children := take d (cbb_children s)\<rparr>)"

text \<open>\<open>add_base128_integer\<close>: the counting loop and the writing loop.\<close>

function base128_len_loop :: "u64 \<Rightarrow> nat" where
  "base128_len_loop v = (if 0 < v then Suc (base128_len_loop (drop_bit 7 v)) else 0)"
  by pat_completeness auto
termination
proof (relation "measure unat")
  fix v :: u64
  assume "0 < v"
  then have "0 < unat v" by (simp add: word_less_nat_alt)
  then show "(drop_bit 7 v, v) \<in> measure unat" using unat_drop_bit [of 7 v] by simp
qed simp

declare base128_len_loop.simps [simp del]

fun base128_write_loop :: "heap_env \<Rightarrow> nat \<Rightarrow> u64 \<Rightarrow> nat \<Rightarrow> (cbb, unit) call" where
  "base128_write_loop E d v 0 = retC ()"
| "base128_write_loop E d v (Suc i) =
     (let byte = ucast (drop_bit (7 * i) v) AND 0x7f :: u8;
          byte = (if i \<noteq> 0 then byte OR 0x80 else byte)
      in bindC (CBB_add_u8 E d byte) (\<lambda>_. base128_write_loop E d v i))"

definition add_base128_integer :: "heap_env \<Rightarrow> nat \<Rightarrow> u64 \<Rightarrow> (cbb, unit) call" where
  "add_base128_integer E d v =
     (let len_len = base128_len_loop v;
          len_len = (if len_len = 0 then 1 else len_len)
      in base128_write_loop E d v len_len)"

definition CBB_add_asn1 :: "heap_env \<Rightarrow> nat \<Rightarrow> u32 \<Rightarrow> (cbb, unit) call" where
  "CBB_add_asn1 E d tag = bindC (CBB_flush E d) (\<lambda>_.
     let tag_bits = ucast (drop_bit CBS_ASN1_TAG_SHIFT tag AND 0xe0) :: u8;
         tag_number = tag AND CBS_ASN1_TAG_NUMBER_MASK
     in bindC (if 0x1f \<le> tag_number
               then bindC (CBB_add_u8 E d (tag_bits OR 0x1f)) (\<lambda>_. add_base128_integer E d (ucast tag_number))
               else CBB_add_u8 E d (tag_bits OR ucast tag_number))
          (\<lambda>_. cbb_add_child E d 1 True))"

subsection \<open>The specification: a stack of frames\<close>

datatype frame_kind = Fixed nat | Der

fun prefix_len :: "frame_kind \<Rightarrow> nat" where
  "prefix_len (Fixed k) = k"
| "prefix_len Der = 1"

type_synonym frames = "(frame_kind \<times> u8 list) list"

text \<open>Closing a frame puts its length prefix in front of its bytes, if they fit.\<close>

fun close_frame :: "frame_kind \<Rightarrow> u8 list \<Rightarrow> u8 list option" where
  "close_frame (Fixed k) b = (if length b < 256 ^ k then Some (be_fixed k (length b) @ b) else None)"
| "close_frame Der b = (if length b \<le> 0xfffffffe then Some (der_len (length b) @ b) else None)"

fun close_frames :: "frames \<Rightarrow> u8 list option" where
  "close_frames [] = Some []"
| "close_frames ((k, b) # fs) =
     (case close_frames fs of None \<Rightarrow> None | Some x \<Rightarrow> close_frame k (b @ x))"

definition append_top :: "u8 list \<times> frames \<Rightarrow> u8 list \<Rightarrow> u8 list \<times> frames" where
  "append_top st x = (case st of (root, fs) \<Rightarrow>
     if fs = [] then (root @ x, [])
     else (root, butlast fs @ [(fst (last fs), snd (last fs) @ x)]))"

text \<open>Flushing handle \<open>d\<close>, and the two ways to write at handle \<open>d\<close>.\<close>

definition spec_flush :: "nat \<Rightarrow> u8 list \<times> frames \<Rightarrow> (u8 list \<times> frames) option" where
  "spec_flush d st =
     (if length (snd st) < d then None
      else case close_frames (drop d (snd st)) of
        None \<Rightarrow> None
      | Some x \<Rightarrow> Some (append_top (fst st, take d (snd st)) x))"

definition spec_write :: "nat \<Rightarrow> u8 list \<Rightarrow> u8 list \<times> frames \<Rightarrow> (u8 list \<times> frames) option" where
  "spec_write d x st = map_option (\<lambda>st. append_top st x) (spec_flush d st)"

definition spec_open :: "nat \<Rightarrow> frame_kind \<Rightarrow> u8 list \<times> frames \<Rightarrow> (u8 list \<times> frames) option" where
  "spec_open d k st = map_option (\<lambda>(root, fs). (root, fs @ [(k, [])])) (spec_flush d st)"

subsection \<open>What a CBB represents\<close>

definition layout :: "u8 list \<times> frames \<Rightarrow> u8 list" where
  "layout st = fst st @ concat (map (\<lambda>(k, b). replicate (prefix_len k) 0 @ b) (snd st))"

fun child_recs :: "nat \<Rightarrow> frames \<Rightarrow> cbb_child list" where
  "child_recs off [] = []"
| "child_recs off ((k, b) # fs) =
     \<lparr>cc_offset = off, cc_pending_len_len = prefix_len k, cc_pending_is_asn1 = (k = Der)\<rparr> #
     child_recs (off + prefix_len k + length b) fs"

definition cbb_ok :: "cbb \<Rightarrow> bool" where
  "cbb_ok s \<longleftrightarrow> length (buf_bytes s) = base_cap s \<and> base_len s \<le> base_cap s \<and> base_cap s < 2 ^ 64"

definition written :: "cbb \<Rightarrow> u8 list" where
  "written s = take (base_len s) (buf_bytes s)"

definition rep :: "cbb \<Rightarrow> u8 list \<times> frames \<Rightarrow> bool" where
  "rep s st \<longleftrightarrow> cbb_ok s \<and> \<not> base_error s \<and> written s = layout st \<and>
     cbb_children s = child_recs (length (fst st)) (snd st)"

lemma length_child_recs [simp]: "length (child_recs off fs) = length fs"
  by (induction off fs rule: child_recs.induct) auto

lemma child_recs_append:
  "child_recs off (fs @ gs) =
     child_recs off fs @ child_recs (off + length (layout ([], fs))) gs"
  by (induction off fs rule: child_recs.induct) (simp_all add: layout_def add.assoc)

lemma take_child_recs: "take d (child_recs off fs) = child_recs off (take d fs)"
  by (metis append_take_drop_id child_recs_append length_child_recs length_take append_eq_conv_conj
      min.commute take_take take_all_iff nat_le_linear min.absorb1 append_Nil2 min.absorb2)

lemma layout_snoc: "layout (root, fs @ [(k, b)]) = layout (root, fs) @ replicate (prefix_len k) 0 @ b"
  by (simp add: layout_def)

lemma layout_append_top: "layout (append_top st x) = layout st @ x"
proof (cases st)
  case (Pair root fs)
  show ?thesis
  proof (cases fs rule: rev_cases)
    case (snoc gs f)
    with Pair show ?thesis by (cases f) (simp add: append_top_def layout_def)
  qed (simp add: Pair append_top_def layout_def)
qed

lemma recs_append_top:
  "child_recs (length (fst (append_top st x))) (snd (append_top st x)) =
   child_recs (length (fst st)) (snd st)"
proof (cases st)
  case (Pair root fs)
  show ?thesis
  proof (cases fs rule: rev_cases)
    case (snoc gs f)
    with Pair show ?thesis by (cases f) (simp add: append_top_def child_recs_append)
  qed (simp add: Pair append_top_def)
qed

lemma append_top_append: "append_top (append_top st x) y = append_top st (x @ y)"
  by (cases st) (simp add: append_top_def)

lemma append_top_Nil [simp]: "append_top st [] = st"
  by (cases st; cases "snd st" rule: rev_cases) (auto simp: append_top_def)

lemma written_length: "cbb_ok s \<Longrightarrow> length (written s) = base_len s"
  by (simp add: written_def cbb_ok_def)

lemma rep_len: "rep s st \<Longrightarrow> base_len s = length (layout st)"
  by (metis rep_def written_length)

subsection \<open>Writes to the buffer\<close>

lemma buf_write_simps [simp]:
  "base_len (buf_write off bs s) = base_len s" "base_cap (buf_write off bs s) = base_cap s"
  "base_error (buf_write off bs s) = base_error s" "base_can_resize (buf_write off bs s) = base_can_resize s"
  "cbb_children (buf_write off bs s) = cbb_children s"
  by (simp_all add: buf_write_def)

lemma buf_bytes_write:
  "off + length bs \<le> length (buf_bytes s) \<Longrightarrow>
     buf_bytes (buf_write off bs s) = take off (buf_bytes s) @ bs @ drop (off + length bs) (buf_bytes s)"
  by (cases "base_buf s") (simp_all add: buf_write_def buf_bytes_def)

lemma cbb_ok_write: "cbb_ok s \<Longrightarrow> off + length bs \<le> base_cap s \<Longrightarrow> cbb_ok (buf_write off bs s)"
  by (auto simp: cbb_ok_def buf_bytes_write)

text \<open>The big-endian loop stores \<open>be_fixed k v\<close> and returns what did not fit.\<close>

lemma write_be_loop_eq:
  assumes "off + k \<le> length (buf_bytes s)"
  shows "write_be_loop off k v s = (v div 256 ^ k, buf_write off (be_fixed k v) s)"
  using assms
proof (induction k arbitrary: v s)
  case 0
  show ?case by (cases "base_buf s") (simp_all add: buf_write_def)
next
  case (Suc k)
  let ?s = "buf_write (off + k) [of_nat v] s"
  have "length (buf_bytes ?s) = length (buf_bytes s)"
    using Suc.prems by (simp add: buf_bytes_write)
  with Suc have IH: "write_be_loop off k (v div 256) ?s =
      (v div 256 div 256 ^ k, buf_write off (be_fixed k (v div 256)) ?s)" by simp
  have b: "(of_nat v :: u8) = of_nat (v mod 256)"
    by (simp add: word_unat_eq_iff unat_of_nat)
  have "buf_write off (be_fixed k (v div 256)) ?s = buf_write off (be_fixed (Suc k) v) s"
  proof (cases "base_buf s")
    case None
    then show ?thesis by (simp add: buf_write_def)
  next
    case (Some B)
    with Suc.prems have "off + Suc k \<le> length B" by (simp add: buf_bytes_def)
    with Some show ?thesis by (simp add: buf_write_def b)
  qed
  with IH show ?case by (simp add: div_mult2_eq)
qed

lemma written_write:
  assumes "cbb_ok s" and "written s = P @ Q @ R" and "length X = length Q" and "off = length P"
  shows "written (buf_write off X s) = P @ X @ R" and "cbb_ok (buf_write off X s)"
proof -
  let ?B = "buf_bytes s" and ?m = "base_len s"
  have m: "?m \<le> length ?B" using assms(1) by (simp add: cbb_ok_def)
  have len: "?m = length P + length Q + length R"
    using written_length [OF assms(1)] assms(2) by simp
  have fits: "off + length X \<le> length ?B" using m len assms(3,4) by simp
  have B: "?B = P @ Q @ R @ drop ?m ?B"
    using assms(2) append_take_drop_id [of ?m ?B] by (simp add: written_def)
  have "take off ?B = P" "drop (off + length X) ?B = R @ drop ?m ?B"
    using assms(3,4) by (subst B, simp)+
  then have "buf_bytes (buf_write off X s) = P @ X @ R @ drop ?m ?B"
    using fits by (simp add: buf_bytes_write)
  then show "written (buf_write off X s) = P @ X @ R"
    using len assms(3) by (simp add: written_def)
  show "cbb_ok (buf_write off X s)"
    using assms(1) fits by (intro cbb_ok_write) (simp_all add: cbb_ok_def)
qed

text \<open>The size a buffer grows to.\<close>

definition new_cap :: "cbb \<Rightarrow> nat \<Rightarrow> nat" where
  "new_cap s n =
     (let newcap = size_wrap (base_cap s * 2) in
      if newcap < base_cap s \<or> newcap < base_len s + n then base_len s + n else newcap)"

lemma cbb_buffer_reserve_grow:
  assumes small: "base_len s + n < 2 ^ 64" and big: "base_cap s < base_len s + n"
  shows "cbb_buffer_reserve E n s =
    (if \<not> base_can_resize s then (None, buf_set_error s)
     else case OPENSSL_realloc E (base_buf s) (new_cap s n) of
            None \<Rightarrow> (None, buf_set_error s)
          | Some newbuf \<Rightarrow> (Some (base_len s), s\<lparr>base_buf := Some newbuf, base_cap := new_cap s n\<rparr>))"
proof -
  have "\<not> base_len s + n < base_len s" by simp
  then show ?thesis
    using big by (simp only: new_cap_def cbb_buffer_reserve_def Let_def size_wrap_small [OF small] if_True if_False)
qed

lemma new_cap_bounds: "base_cap s < base_len s + n \<Longrightarrow> base_cap s < new_cap s n \<and> new_cap s n \<le> 2 * (base_len s + n)"
proof -
  have "size_wrap (base_cap s * 2) \<le> base_cap s * 2" by (simp add: size_wrap_def)
  then show "base_cap s < base_len s + n \<Longrightarrow> base_cap s < new_cap s n \<and> new_cap s n \<le> 2 * (base_len s + n)"
    by (auto simp: new_cap_def Let_def)
qed

lemma cbb_buffer_reserve_Some:
  assumes ok: "cbb_ok s" and n: "n < 2 ^ 64" and r: "cbb_buffer_reserve E n s = (Some out, s')"
  shows "out = base_len s \<and> base_len s + n \<le> base_cap s' \<and> cbb_ok s' \<and> written s' = written s \<and>
    base_len s' = base_len s \<and> cbb_children s' = cbb_children s \<and> base_error s' = base_error s \<and>
    base_can_resize s' = base_can_resize s"
proof -
  have l: "base_len s < 2 ^ 64" using ok by (simp add: cbb_ok_def)
  from r have "\<not> size_wrap (base_len s + n) < base_len s"
    by (auto simp: cbb_buffer_reserve_def Let_def split: if_splits)
  then have small: "base_len s + n < 2 ^ 64" using size_wrap_overflows [OF l n] by simp
  show ?thesis
  proof (cases "base_cap s < base_len s + n")
    case False
    with r small ok show ?thesis by (auto simp: cbb_buffer_reserve_def Let_def)
  next
    case True
    define cap where "cap = new_cap s n"
    have e: "cbb_buffer_reserve E n s =
        (if \<not> base_can_resize s then (None, buf_set_error s)
         else case OPENSSL_realloc E (base_buf s) cap of
                None \<Rightarrow> (None, buf_set_error s)
              | Some newbuf \<Rightarrow> (Some (base_len s), s\<lparr>base_buf := Some newbuf, base_cap := cap\<rparr>))"
      unfolding cap_def by (rule cbb_buffer_reserve_grow [OF small True])
    with r [unfolded e] obtain B where B: "OPENSSL_realloc E (base_buf s) cap = Some B"
      and s': "s' = s\<lparr>base_buf := Some B, base_cap := cap\<rparr>" and out: "out = base_len s"
      by (cases "base_can_resize s"; cases "OPENSSL_realloc E (base_buf s) cap") simp_all
    have c: "base_len s + n \<le> cap" "cap < 2 ^ 64" using small by (auto simp: cap_def new_cap_def Let_def size_wrap_def)
    have B_len: "length B = cap" using B by (rule OPENSSL_realloc_length)
    have "take (base_len s) B = take (base_len s) (buf_bytes s)"
    proof (cases "base_buf s")
      case None
      then show ?thesis using ok by (simp add: buf_bytes_def cbb_ok_def)
    next
      case (Some b)
      with B have "OPENSSL_realloc E (Some b) cap = Some B" by simp
      moreover have "base_len s \<le> length b" using ok Some by (simp add: cbb_ok_def buf_bytes_def)
      ultimately have "take (base_len s) B = take (base_len s) b"
        using c(1) by (intro OPENSSL_realloc_keeps) (assumption, simp_all)
      with Some show ?thesis by (simp add: buf_bytes_def)
    qed
    then show ?thesis
      using out c B_len unfolding s' by (simp add: cbb_ok_def written_def buf_bytes_def)
  qed
qed

lemma cbb_buffer_reserve_fits:
  "cbb_ok s \<Longrightarrow> base_len s + n \<le> base_cap s \<Longrightarrow> cbb_buffer_reserve E n s = (Some (base_len s), s)"
  by (simp add: cbb_buffer_reserve_def cbb_ok_def)

lemma cbb_buffer_add_Some:
  assumes ok: "cbb_ok s" and n: "n < 2 ^ 64" and r: "cbb_buffer_add E n s = (Some out, s')"
  shows "out = base_len s \<and> cbb_ok s' \<and> base_len s' = base_len s + n \<and>
    (\<exists>J. length J = n \<and> written s' = written s @ J) \<and>
    cbb_children s' = cbb_children s \<and> base_error s' = base_error s \<and>
    base_can_resize s' = base_can_resize s"
proof -
  from r obtain t where t: "cbb_buffer_reserve E n s = (Some out, t)"
    and s': "s' = t\<lparr>base_len := base_len t + n\<rparr>"
    by (auto simp: cbb_buffer_add_def elim!: bindC_SomeE)
  note R = cbb_buffer_reserve_Some [OF ok n t]
  have bb: "buf_bytes s' = buf_bytes t" unfolding s' by (simp add: buf_bytes_def)
  have ok': "cbb_ok s'" using R bb unfolding s' by (simp add: cbb_ok_def)
  have "written s' = written s @ take n (drop (base_len t) (buf_bytes t))"
    using R unfolding written_def bb by (auto simp: s' take_add)
  moreover have "length (take n (drop (base_len t) (buf_bytes t))) = n"
    using R ok' bb unfolding s' by (auto simp: cbb_ok_def)
  ultimately show ?thesis using R ok' unfolding s' by auto
qed

subsection \<open>Flushing closes the frames\<close>

lemma asn1_length_form_eq:
  assumes "len < 2 ^ 32"
  shows "asn1_length_form len =
    (if len < 128 then (1, of_nat len, 0)
     else (Suc (length (be_bytes len)), of_nat (128 + length (be_bytes len)), len))"
proof (cases "len < 128")
  case True
  then show ?thesis by (simp add: asn1_length_form_def)
next
  case False
  consider "0xffffff < len" | "0xffff < len" "len \<le> 0xffffff" | "0xff < len" "len \<le> 0xffff"
    | "0x7f < len" "len \<le> 0xff" using False by linarith
  then show ?thesis
  proof cases
    case 1
    then have "length (be_bytes len) = 4"
      using assms length_be_bytes_ge [of 3 len] length_be_bytes_le [of len 4] by simp
    with 1 False show ?thesis by (simp add: asn1_length_form_def)
  next
    case 2
    then have "length (be_bytes len) = 3"
      using length_be_bytes_ge [of 2 len] length_be_bytes_le [of len 3] by simp
    with 2 False show ?thesis by (simp add: asn1_length_form_def)
  next
    case 3
    then have "length (be_bytes len) = 2"
      using length_be_bytes_ge [of 1 len] length_be_bytes_le [of len 2] by simp
    with 3 False show ?thesis by (simp add: asn1_length_form_def)
  next
    case 4
    then have "0 < length (be_bytes len)" "length (be_bytes len) \<le> 1"
      using length_be_bytes_ge [of 0 len] length_be_bytes_le [of len 1] by (simp_all only: power_0 power_one_right)
    then have "length (be_bytes len) = 1" by linarith
    with 4 False show ?thesis by (simp add: asn1_length_form_def)
  qed
qed

lemma flush_length_eq:
  assumes "off + k \<le> length (buf_bytes s)"
  shows "flush_length d off k len s =
    (if len < 256 ^ k
     then (Some (), (buf_write off (be_fixed k len) s)\<lparr>cbb_children := take d (cbb_children s)\<rparr>)
     else (None, cbb_on_error d (buf_write off (be_fixed k len) s)))"
  using write_be_loop_eq [OF assms, of len] by (simp add: flush_length_def div_eq_0_iff)

lemma written_children [simp]:
  "written (s\<lparr>cbb_children := cs\<rparr>) = written s" "cbb_ok (s\<lparr>cbb_children := cs\<rparr>) = cbb_ok s"
  "buf_bytes (s\<lparr>cbb_children := cs\<rparr>) = buf_bytes s"
  by (simp_all add: written_def cbb_ok_def buf_bytes_def)

lemma flush_length_rep:
  assumes ok: "cbb_ok s" "\<not> base_error s"
    and w: "written s = layout (root, fs) @ H @ replicate k z @ b" and H: "off = length (layout (root, fs) @ H)"
    and ch: "take (length fs) (cbb_children s) = child_recs (length root) fs"
    and r: "flush_length (length fs) off k len s = (Some (), s')"
  shows "len < 256 ^ k \<and> rep s' (append_top (root, fs) (H @ be_fixed k len @ b))"
proof -
  let ?s = "buf_write off (be_fixed k len) s"
  have "length (written s) \<le> length (buf_bytes s)" by (simp add: written_def)
  then have fits: "off + k \<le> length (buf_bytes s)" using w H by simp
  have w': "written s = (layout (root, fs) @ H) @ replicate k z @ b" using w by simp
  have W: "written ?s = (layout (root, fs) @ H) @ be_fixed k len @ b" "cbb_ok ?s"
    using written_write [OF ok(1) w', of "be_fixed k len" off] H by simp_all
  from r fits have "len < 256 ^ k" and s': "s' = ?s\<lparr>cbb_children := take (length fs) (cbb_children s)\<rparr>"
    by (auto simp: flush_length_eq split: if_splits)
  then show ?thesis
    using W ok ch by (simp add: rep_def layout_append_top recs_append_top)
qed

lemma flush_child_rep:
  assumes s: "rep s (root, fs @ [(k, b)])" and k: "prefix_len k \<le> 8"
    and child: "child = \<lparr>cc_offset = length (layout (root, fs)), cc_pending_len_len = prefix_len k,
                  cc_pending_is_asn1 = (k = Der)\<rparr>"
    and start: "child_start = length (layout (root, fs)) + prefix_len k"
    and r: "flush_child E (length fs) child child_start s = (Some (), s')"
  shows "\<exists>x. close_frame k b = Some x \<and> rep s' (append_top (root, fs) x)"
proof -
  let ?L = "layout (root, fs)" and ?n = "length b"
  have ok: "cbb_ok s" "\<not> base_error s" and w: "written s = ?L @ replicate (prefix_len k) 0 @ b"
    and ch: "take (length fs) (cbb_children s) = child_recs (length root) fs"
    using s by (simp_all add: rep_def layout_snoc take_child_recs)
  have len: "base_len s - child_start = ?n" using rep_len [OF s] start by (simp add: layout_snoc)
  show ?thesis
  proof (cases k)
    case (Fixed m)
    with r child len have "flush_length (length fs) (length ?L) m ?n s = (Some (), s')"
      by (simp add: flush_child_def)
    from flush_length_rep [OF ok _ _ ch this, where H = "[]" and z = 0] w Fixed show ?thesis by simp
  next
    case Der
    have max: "?n \<le> 0xfffffffe"
      using r child len Der by (auto simp: flush_child_def Let_def split: if_splits)
    then have n32: "?n < 2 ^ 32" by simp
    show ?thesis
    proof (cases "?n < 128")
      case True
      let ?s = "buf_write (length ?L) [of_nat ?n] s"
      have W: "written ?s = ?L @ [of_nat ?n] @ b" "cbb_ok ?s"
        using written_write [OF ok(1), of ?L "[0]" b "[of_nat ?n]"] w Der by simp_all
      have "flush_length (length fs) (length ?L + 1) 0 0 ?s = (Some (), s')"
        using r child len Der max True asn1_length_form_eq [OF n32] by (simp add: flush_child_def Let_def)
      from flush_length_rep [OF W(2) _ _ _ _ this, where H = "[of_nat ?n]"] W(1) ok(2) ch
      have "rep s' (append_top (root, fs) (of_nat ?n # b))" by simp
      with max True Der show ?thesis by (simp add: der_len_def)
    next
      case False
      define e where "e = length (be_bytes ?n)"
      define h where "h = (of_nat (128 + e) :: u8)"
      have e: "0 < e" "e < 2 ^ 64"
        using length_be_bytes_ge [of 0 ?n] length_be_bytes_le [of ?n 4] False n32 by (simp_all add: e_def)
      have form: "asn1_length_form ?n = (Suc e, h, ?n)"
        using asn1_length_form_eq [OF n32] False by (simp add: e_def h_def)
      from r child len Der max form e(1) obtain out t where
        add: "cbb_buffer_add E e s = (Some out, t)" and
        fl: "flush_length (length fs) (length ?L + 1) e ?n
               (buf_write (length ?L) [h] (buf_write (child_start + e) (take ?n (drop child_start (buf_bytes t))) t)) =
             (Some (), s')"
        by (auto simp: flush_child_def Let_def split: prod.splits option.splits)
      from cbb_buffer_add_Some [OF ok(1) e(2) add] obtain J where
        t: "cbb_ok t" "written t = ?L @ [0] @ b @ J" "length J = e" "cbb_children t = cbb_children s"
           "base_error t = base_error s"
        using w Der by auto
      have "take ?n (drop child_start (buf_bytes t)) = take ?n (drop child_start (written t))"
      proof -
        have "base_len t = length ?L + 1 + ?n + e"
          using written_length [OF t(1)] t(2,3) by simp
        then show ?thesis using start Der by (simp add: written_def drop_take min_def)
      qed
      then have b: "take ?n (drop child_start (buf_bytes t)) = b"
        using t(2) start Der by simp
      let ?P = "take (child_start + e) (written t)" and ?Q = "drop (child_start + e) (written t)"
      have Q: "length ?Q = ?n" "length ?P = child_start + e"
        using t(2,3) start Der by simp_all
      let ?u = "buf_write (child_start + e) b t"
      have u: "written ?u = ?P @ b" "cbb_ok ?u"
        using written_write [OF t(1), of ?P ?Q "[]" b "child_start + e"] Q by simp_all
      define M where "M = take e (b @ J)"
      have P: "?P = ?L @ [0] @ M"
        using t(2,3) start Der by (simp add: M_def)
      let ?v = "buf_write (length ?L) [h] ?u"
      have v: "written ?v = ?L @ [h] @ M @ b" "cbb_ok ?v"
        using written_write [OF u(2), of ?L "[0]" "M @ b" "[h]" "length ?L"] u(1) P by simp_all
      have len_e: "length M = e" using t(3) by (simp add: M_def)
      have bf: "be_fixed e ?n = be_bytes ?n" unfolding e_def by (rule be_fixed_be_bytes)
      let ?x = "buf_write (length ?L + 1) (be_fixed e ?n) ?v"
      have x: "written ?x = ?L @ [h] @ be_bytes ?n @ b" "cbb_ok ?x"
        using written_write [OF v(2), of "?L @ [h]" M b "be_fixed e ?n" "length ?L + 1"]
          v(1) len_e bf e_def by simp_all
      have "length (written ?v) \<le> length (buf_bytes ?v)" by (simp add: written_def)
      then have fits: "length ?L + 1 + e \<le> length (buf_bytes ?v)" using v(1) len_e by simp
      have "?n < 256 ^ e" unfolding e_def using be_nat_less [of "be_bytes ?n"] by simp
      then have s': "s' = ?x\<lparr>cbb_children := take (length fs) (cbb_children s)\<rparr>"
        using fl fits t(4) unfolding b by (simp add: flush_length_eq)
      have "rep s' (append_top (root, fs) (h # be_bytes ?n @ b))"
        unfolding s' using x ch ok(2) t(5) by (simp add: rep_def layout_append_top recs_append_top)
      with max False Der show ?thesis by (simp add: der_len_def h_def e_def del: of_nat_add)
    qed
  qed
qed

lemma nth_child_recs:
  "d < length fs \<Longrightarrow> child_recs (length root) fs ! d =
     \<lparr>cc_offset = length (layout (root, take d fs)), cc_pending_len_len = prefix_len (fst (fs ! d)),
      cc_pending_is_asn1 = (fst (fs ! d) = Der)\<rparr>"
proof -
  assume d: "d < length fs"
  then have "fs = take d fs @ [fs ! d] @ drop (Suc d) fs" by (simp add: id_take_nth_drop)
  then have "child_recs (length root) fs =
      child_recs (length root) (take d fs) @
      child_recs (length root + length (layout ([], take d fs))) ([fs ! d] @ drop (Suc d) fs)"
    by (metis child_recs_append)
  moreover have "length root + length (layout ([], take d fs)) = length (layout (root, take d fs))"
    by (simp add: layout_def)
  ultimately show ?thesis
    using d by (cases "fs ! d") (simp add: nth_append)
qed

definition small_prefixes :: "u8 list \<times> frames \<Rightarrow> bool" where
  "small_prefixes st \<longleftrightarrow> (\<forall>f \<in> set (snd st). prefix_len (fst f) \<le> 8)"

lemma small_append_top [simp]: "small_prefixes (append_top st x) \<longleftrightarrow> small_prefixes st"
proof (cases st)
  case (Pair root fs)
  then show ?thesis by (cases fs rule: rev_cases) (auto simp: small_prefixes_def append_top_def)
qed

lemma small_take: "small_prefixes (root, fs) \<Longrightarrow> small_prefixes (root, take d fs)"
  by (auto simp: small_prefixes_def dest: in_set_takeD)

lemma append_top_take:
  assumes "d < length fs"
  shows "append_top (root, take (Suc d) fs) x = (root, take d fs @ [(fst (fs ! d), snd (fs ! d) @ x)])"
  using assms by (simp add: append_top_def take_Suc_conv_app_nth)

lemma close_frames_drop:
  assumes "d < length fs"
  shows "close_frames (drop d fs) =
    (case close_frames (drop (Suc d) fs) of None \<Rightarrow> None | Some x \<Rightarrow> close_frame (fst (fs ! d)) (snd (fs ! d) @ x))"
proof (cases "fs ! d")
  case (Pair k b)
  with assms have "drop d fs = (k, b) # drop (Suc d) fs" by (metis Cons_nth_drop_Suc)
  with Pair show ?thesis by (simp split: option.split)
qed

text \<open>A flush that succeeds closes the frames above its handle.\<close>

lemma CBB_flush_rep:
  "CBB_flush E d s = (Some (), s') \<Longrightarrow> rep s (root, fs) \<Longrightarrow> small_prefixes (root, fs) \<Longrightarrow>
     \<exists>st. spec_flush d (root, fs) = Some st \<and> rep s' st"
proof (induction E d s arbitrary: s' rule: CBB_flush.induct)
  case (1 E d s)
  have len: "length (cbb_children s) = length fs" using "1.prems"(2) by (simp add: rep_def)
  from "1.prems"(1) have base: "cbb_get_base d s" "\<not> base_error s"
    by (subst (asm) CBB_flush.simps, simp split: if_splits)+
  then have le: "d \<le> length fs" using len by (simp add: cbb_get_base_def)
  have nb: "\<not> (\<not> cbb_get_base d s \<or> base_error s)" using base by simp
  show ?case
  proof (cases "length fs = d")
    case True
    with "1.prems"(1,2) base len show ?thesis
      by (subst (asm) CBB_flush.simps) (simp add: spec_flush_def)
  next
    case False
    with le have d: "d < length fs" by simp
    let ?k = "fst (fs ! d)" and ?b = "snd (fs ! d)"
    let ?child = "cbb_children s ! d"
    have child: "?child = \<lparr>cc_offset = length (layout (root, take d fs)),
        cc_pending_len_len = prefix_len ?k, cc_pending_is_asn1 = (?k = Der)\<rparr>"
      using "1.prems"(2) nth_child_recs [OF d] by (simp add: rep_def)
    have k: "prefix_len ?k \<le> 8" using "1.prems"(3) d by (auto simp: small_prefixes_def)
    have "length (layout (root, take d fs)) + prefix_len ?k \<le> base_len s"
    proof -
      have "fs = take d fs @ [fs ! d] @ drop (Suc d) fs" using d by (simp add: id_take_nth_drop)
      then have "layout (root, fs) = layout (root, take d fs @ [fs ! d]) @
          concat (map (\<lambda>(k, b). replicate (prefix_len k) 0 @ b) (drop (Suc d) fs))"
        by (metis (no_types, lifting) append.assoc concat_append fst_conv layout_def map_append snd_conv)
      then have "length (layout (root, take d fs @ [fs ! d])) \<le> base_len s"
        using rep_len [OF "1.prems"(2)] by simp
      then show ?thesis by (cases "fs ! d") (simp add: layout_snoc)
    qed
    moreover have "base_len s < 2 ^ 64" using "1.prems"(2) by (simp add: rep_def cbb_ok_def)
    ultimately have start: "size_wrap (cc_offset ?child + cc_pending_len_len ?child) =
        length (layout (root, take d fs)) + prefix_len ?k" by (simp add: child)
    from "1.prems"(1) obtain t where
      rec: "CBB_flush E (Suc d) s = (Some (), t)" and
      fc: "flush_child E d ?child (length (layout (root, take d fs)) + prefix_len ?k) t = (Some (), s')"
      using base len False by (subst (asm) CBB_flush.simps)
        (auto simp: Let_def start split: prod.splits option.splits if_splits)
    have ne: "length (cbb_children s) \<noteq> d" using len False by simp
    from "1.IH" [OF nb ne refl refl rec "1.prems"(2,3)] obtain st where
      st: "spec_flush (Suc d) (root, fs) = Some st" "rep t st" by blast
    then obtain x where x: "close_frames (drop (Suc d) fs) = Some x"
      "st = append_top (root, take (Suc d) fs) x"
      by (auto simp: spec_flush_def split: option.splits if_splits)
    then have t: "rep t (root, take d fs @ [(?k, ?b @ x)])" using st(2) append_top_take [OF d] by simp
    have "length (take d fs) = d" using d by simp
    with flush_child_rep [OF t k child refl] fc obtain y where
      y: "close_frame ?k (?b @ x) = Some y" "rep s' (append_top (root, take d fs) y)" by auto
    then have "spec_flush d (root, fs) = Some (append_top (root, take d fs) y)"
      using x(1) le by (simp add: spec_flush_def close_frames_drop [OF d])
    with y(2) show ?thesis by blast
  qed
qed

subsection \<open>The growth of the buffer\<close>

text \<open>What an operation may do to the buffer: leave its size alone, or grow it, when it can be resized and
  is too small, to a size the allocator served and at most twice the bytes written.\<close>

definition grown :: "heap_env \<Rightarrow> cbb \<Rightarrow> cbb \<Rightarrow> bool" where
  "grown E s t \<longleftrightarrow> base_can_resize t = base_can_resize s \<and> base_len s \<le> base_len t \<and>
     (base_cap t = base_cap s \<or>
      base_can_resize s \<and> base_cap s < base_len t \<and> base_cap s < base_cap t \<and> base_cap t \<le> 2 * base_len t \<and>
      OPENSSL_malloc E (base_cap t) \<noteq> None)"

text \<open>Room for \<open>n\<close> bytes in all: they fit, or the buffer can be resized and the allocator serves every
  size up to twice as many.\<close>

definition room :: "heap_env \<Rightarrow> cbb \<Rightarrow> nat \<Rightarrow> bool" where
  "room E s n \<longleftrightarrow> n \<le> base_cap s \<or>
     base_can_resize s \<and> (\<forall>m. base_cap s < m \<and> m \<le> 2 * n \<longrightarrow> OPENSSL_malloc E m \<noteq> None)"

lemma grown_refl [simp]: "grown E s s" by (simp add: grown_def)

lemma grown_trans: "grown E s t \<Longrightarrow> grown E t u \<Longrightarrow> grown E s u"
  by (auto simp: grown_def)

lemma grown_write [simp]: "grown E s (buf_write off bs t) = grown E s t"
  by (simp add: grown_def)

lemma grown_children [simp]: "grown E s (t\<lparr>cbb_children := cs\<rparr>) = grown E s t"
  by (simp add: grown_def)

lemma room_mono: "room E s n \<Longrightarrow> m \<le> n \<Longrightarrow> room E s m"
  by (auto simp: room_def)

lemma room_grown: "room E s n \<Longrightarrow> grown E s t \<Longrightarrow> room E t n"
  by (auto simp: room_def grown_def)

lemma OPENSSL_malloc_bound: "OPENSSL_malloc E n \<noteq> None \<Longrightarrow> n < 2 ^ 64"
  by (auto simp: OPENSSL_malloc_def size_wrap_def split: if_splits intro: ccontr)

lemma OPENSSL_realloc_Some: "(\<exists>b. OPENSSL_realloc E p n = Some b) \<longleftrightarrow> OPENSSL_malloc E n \<noteq> None"
  by (auto simp: OPENSSL_realloc_def Let_def split: option.splits)

lemma cbb_buffer_reserve_room:
  assumes ok: "cbb_ok s" and r: "room E s (base_len s + n)"
  shows "\<exists>out t. cbb_buffer_reserve E n s = (Some out, t)"
proof (cases "base_len s + n \<le> base_cap s")
  case True
  then show ?thesis using cbb_buffer_reserve_fits [OF ok True] by blast
next
  case False
  then have res: "base_can_resize s" and
    mal: "\<And>m. base_cap s < m \<Longrightarrow> m \<le> 2 * (base_len s + n) \<Longrightarrow> OPENSSL_malloc E m \<noteq> None"
    using r by (auto simp: room_def)
  have small: "2 * (base_len s + n) < 2 ^ 64" using OPENSSL_malloc_bound [OF mal] False by simp
  then have s64: "base_len s + n < 2 ^ 64" by simp
  from False have big: "base_cap s < base_len s + n" by simp
  from mal new_cap_bounds [OF big] obtain B where "OPENSSL_realloc E (base_buf s) (new_cap s n) = Some B"
    using OPENSSL_realloc_Some by blast
  then show ?thesis using res unfolding cbb_buffer_reserve_grow [OF s64 big] by simp
qed

lemma cbb_buffer_reserve_grown:
  assumes ok: "cbb_ok s" and n: "n < 2 ^ 64" and r: "cbb_buffer_reserve E n s = (Some out, t)"
  shows "grown E s (t\<lparr>base_len := base_len t + n\<rparr>)"
proof -
  note R = cbb_buffer_reserve_Some [OF ok n r]
  show ?thesis
  proof (cases "base_len s + n \<le> base_cap s")
    case True
    then show ?thesis using r cbb_buffer_reserve_fits [OF ok True, of E] by (simp add: grown_def)
  next
    case False
    have small: "base_len s + n < 2 ^ 64" using R by (simp add: cbb_ok_def)
    from False have big: "base_cap s < base_len s + n" by simp
    from r [unfolded cbb_buffer_reserve_grow [OF small big]] obtain B
      where B: "OPENSSL_realloc E (base_buf s) (new_cap s n) = Some B" and res: "base_can_resize s"
      and t: "t = s\<lparr>base_buf := Some B, base_cap := new_cap s n\<rparr>"
      by (cases "base_can_resize s"; cases "OPENSSL_realloc E (base_buf s) (new_cap s n)") simp_all
    have "OPENSSL_malloc E (new_cap s n) \<noteq> None" using B OPENSSL_realloc_Some by blast
    then show ?thesis using res new_cap_bounds [OF big] big unfolding t by (simp add: grown_def)
  qed
qed

lemma cbb_buffer_add_grown:
  assumes ok: "cbb_ok s" and n: "n < 2 ^ 64" and r: "cbb_buffer_add E n s = (Some out, t)"
  shows "grown E s t"
  using r cbb_buffer_reserve_grown [OF ok n] by (auto simp: cbb_buffer_add_def elim!: bindC_SomeE)

lemma cbb_buffer_add_room:
  "cbb_ok s \<Longrightarrow> room E s (base_len s + n) \<Longrightarrow> \<exists>out t. cbb_buffer_add E n s = (Some out, t)"
  using cbb_buffer_reserve_room [of s E n] by (auto simp: cbb_buffer_add_def bindC_def)

lemma flush_length_grown: "flush_length d off k len s = (Some (), t) \<Longrightarrow> grown E s t"
proof -
  have "grown E s' (snd (write_be_loop off k len s)) \<longleftrightarrow> grown E s' s" for s'
    by (induction off k len s rule: write_be_loop.induct) simp_all
  then show "flush_length d off k len s = (Some (), t) \<Longrightarrow> grown E s t"
    by (auto simp: flush_length_def split: prod.splits if_splits)
qed

lemma asn1_length_form_small: "fst (asn1_length_form len) - 1 < 2 ^ 64"
  by (simp add: asn1_length_form_def)

lemma flush_child_grown:
  assumes ok: "cbb_ok s" and r: "flush_child E d child start s = (Some (), t)"
  shows "grown E s t"
proof (cases "cc_pending_is_asn1 child")
  case False
  then show ?thesis using r by (auto simp: flush_child_def Let_def intro: flush_length_grown)
next
  case True
  obtain l h rest where f: "asn1_length_form (base_len s - start) = (l, h, rest)" by (cases "asn1_length_form (base_len s - start)")
  show ?thesis
  proof (cases "l = 1")
    case True
    then show ?thesis using r f \<open>cc_pending_is_asn1 child\<close>
      by (auto simp: flush_child_def Let_def split: if_splits dest!: flush_length_grown [of _ _ _ _ _ _ E]) (simp add: grown_def)
  next
    case False
    with r f True obtain out u where u: "cbb_buffer_add E (l - 1) s = (Some out, u)"
      and fl: "flush_length d (cc_offset child + 1) (l - 1) rest
        (buf_write (cc_offset child) [h] (buf_write (start + (l - 1))
          (take (base_len s - start) (drop start (buf_bytes u))) u)) = (Some (), t)"
      by (auto simp: flush_child_def Let_def split: if_splits prod.splits option.splits)
    have "l - 1 < 2 ^ 64" using asn1_length_form_small [of "base_len s - start"] f by simp
    from cbb_buffer_add_grown [OF ok this u] have "grown E s u" .
    moreover have "grown E u t" using flush_length_grown [OF fl, of E] by (simp add: grown_def)
    ultimately show ?thesis by (rule grown_trans)
  qed
qed

lemma CBB_flush_grown:
  "CBB_flush E d s = (Some (), s') \<Longrightarrow> rep s (root, fs) \<Longrightarrow> small_prefixes (root, fs) \<Longrightarrow> grown E s s'"
proof (induction E d s arbitrary: s' rule: CBB_flush.induct)
  case (1 E d s)
  from "1.prems"(1) have base: "cbb_get_base d s" "\<not> base_error s"
    by (subst (asm) CBB_flush.simps, simp split: if_splits)+
  then have nb: "\<not> (\<not> cbb_get_base d s \<or> base_error s)" by simp
  show ?case
  proof (cases "length (cbb_children s) = d")
    case True
    with "1.prems"(1) base show ?thesis by (subst (asm) CBB_flush.simps) simp
  next
    case False
    from "1.prems"(1) obtain t where t: "CBB_flush E (Suc d) s = (Some (), t)"
      and fc: "flush_child E d (cbb_children s ! d)
        (size_wrap (cc_offset (cbb_children s ! d) + cc_pending_len_len (cbb_children s ! d))) t = (Some (), s')"
      using base False by (subst (asm) CBB_flush.simps)
        (auto simp: Let_def split: prod.splits option.splits if_splits)
    from CBB_flush_rep [OF t "1.prems"(2,3)] have "cbb_ok t" by (auto simp: rep_def)
    with "1.IH" [OF nb False refl refl t "1.prems"(2,3)] flush_child_grown [OF _ fc] show ?thesis
      using grown_trans by blast
  qed
qed

text \<open>With room for the result, a flush does succeed.\<close>

lemma cbb_buffer_add_fits:
  "cbb_ok s \<Longrightarrow> base_len s + n \<le> base_cap s \<Longrightarrow>
     cbb_buffer_add E n s = (Some (base_len s), s\<lparr>base_len := base_len s + n\<rparr>)"
  by (simp add: cbb_buffer_add_def bindC_def cbb_buffer_reserve_fits)

lemma length_der_len: "length (der_len n) = (if n < 128 then 1 else Suc (length (be_bytes n)))"
  by (simp add: der_len_def)

lemma flush_child_room:
  assumes s: "rep s (root, fs @ [(k, b)])"
    and child: "child = \<lparr>cc_offset = length (layout (root, fs)), cc_pending_len_len = prefix_len k,
                  cc_pending_is_asn1 = (k = Der)\<rparr>"
    and start: "child_start = length (layout (root, fs)) + prefix_len k"
    and x: "close_frame k b = Some x" and rm: "room E s (length (layout (root, fs)) + length x)"
  shows "\<exists>s'. flush_child E d child child_start s = (Some (), s')"
proof -
  let ?L = "layout (root, fs)" and ?n = "length b"
  have ok: "cbb_ok s" and bl: "base_len s = length ?L + prefix_len k + ?n"
    using s rep_len [OF s] by (simp_all add: rep_def layout_snoc)
  have bb: "length (buf_bytes s) = base_cap s" and le: "base_len s \<le> base_cap s"
    using ok by (simp_all add: cbb_ok_def)
  have len: "base_len s - child_start = ?n" using bl start by simp
  show ?thesis
  proof (cases k)
    case (Fixed m)
    with x have "?n < 256 ^ m" by (simp split: if_splits)
    with Fixed child len bl bb le show ?thesis
      by (simp add: flush_child_def flush_length_eq)
  next
    case Der
    with x have max: "?n \<le> 0xfffffffe" and x': "x = der_len ?n @ b" by (simp_all split: if_splits)
    then have n32: "?n < 2 ^ 32" by simp
    show ?thesis
    proof (cases "?n < 128")
      case True
      have "length (buf_bytes (buf_write (length ?L) [of_nat ?n] s)) = base_cap s"
        using cbb_ok_write [OF ok, of "length ?L" "[of_nat ?n]"] bl le Der by (simp add: cbb_ok_def)
      with True Der child len max bl le asn1_length_form_eq [OF n32] show ?thesis
        by (simp add: flush_child_def Let_def flush_length_eq)
    next
      case False
      define e where "e = length (be_bytes ?n)"
      have e: "0 < e" "e < 2 ^ 64"
        using length_be_bytes_ge [of 0 ?n] length_be_bytes_le [of ?n 4] False n32 by (simp_all add: e_def)
      have "length ?L + length x = base_len s + e" using x' bl Der False by (simp add: length_der_len e_def)
      then obtain out t where add: "cbb_buffer_add E e s = (Some out, t)"
        using cbb_buffer_add_room [OF ok, of E e] rm by auto
      have t: "cbb_ok t" "base_len t = base_len s + e" using cbb_buffer_add_Some [OF ok e(2) add] by blast+
      let ?u = "buf_write (child_start + e) (take ?n (drop child_start (buf_bytes t))) t"
      let ?v = "buf_write (length ?L) [of_nat (128 + e)] ?u"
      have lt: "base_len t \<le> base_cap t" using t(1) by (simp add: cbb_ok_def)
      have "cbb_ok ?u" by (rule cbb_ok_write [OF t(1)]) (use start bl t(2) lt in simp)
      then have "cbb_ok ?v" by (rule cbb_ok_write) (use bl lt t(2) Der in simp)
      then have v: "length (buf_bytes ?v) = base_cap t" by (simp add: cbb_ok_def)
      have "?n < 256 ^ e" unfolding e_def using be_nat_less [of "be_bytes ?n"] by simp
      moreover have "asn1_length_form ?n = (Suc e, of_nat (128 + e), ?n)"
        using asn1_length_form_eq [OF n32] False by (simp add: e_def)
      ultimately show ?thesis
        using Der child len max e(1) add v t(2) lt bl
        by (simp add: flush_child_def Let_def flush_length_eq del: of_nat_add)
    qed
  qed
qed

lemma close_frame_len: "close_frame k b = Some x \<Longrightarrow> prefix_len k + length b \<le> length x"
  by (cases k) (auto simp: length_der_len split: if_splits)

lemma room_bound: "room E s n \<Longrightarrow> base_cap s < 2 ^ 64 \<Longrightarrow> n < 2 ^ 64"
  using OPENSSL_malloc_bound [of E "2 * n"] by (cases "n \<le> base_cap s") (auto simp: room_def)

lemma CBB_flush_room:
  "rep s (root, fs) \<Longrightarrow> small_prefixes (root, fs) \<Longrightarrow> d \<le> length fs \<Longrightarrow>
   close_frames (drop d fs) = Some x \<Longrightarrow> room E s (length (layout (root, take d fs)) + length x) \<Longrightarrow>
   \<exists>s'. CBB_flush E d s = (Some (), s')"
proof (induction "length fs - d" arbitrary: d x)
  case 0
  then have "length (cbb_children s) = d" "\<not> base_error s" by (simp_all add: rep_def)
  then show ?case by (subst CBB_flush.simps) (simp add: cbb_get_base_def)
next
  case (Suc n)
  then have d: "d < length fs" by simp
  let ?k = "fst (fs ! d)" and ?b = "snd (fs ! d)"
  let ?L = "layout (root, take d fs)"
  let ?child = "cbb_children s ! d"
  have len: "length (cbb_children s) = length fs" "\<not> base_error s" using Suc.prems(1) by (simp_all add: rep_def)
  have child: "?child = \<lparr>cc_offset = length ?L, cc_pending_len_len = prefix_len ?k, cc_pending_is_asn1 = (?k = Der)\<rparr>"
    using Suc.prems(1) nth_child_recs [OF d] by (simp add: rep_def)
  from Suc.prems(4) obtain y where y: "close_frames (drop (Suc d) fs) = Some y" "close_frame ?k (?b @ y) = Some x"
    unfolding close_frames_drop [OF d] by (auto split: option.splits)
  have len_y: "prefix_len ?k + length ?b + length y \<le> length x" using close_frame_len [OF y(2)] by simp
  have L1: "layout (root, take (Suc d) fs) = ?L @ replicate (prefix_len ?k) 0 @ ?b"
    using d by (cases "fs ! d") (simp add: take_Suc_conv_app_nth layout_snoc)
  have rm: "room E s (length (layout (root, take (Suc d) fs)) + length y)"
    by (rule room_mono [OF Suc.prems(5)]) (use len_y L1 in simp)
  have "n = length fs - Suc d" "Suc d \<le> length fs" using Suc.hyps(2) d by linarith+
  from Suc.hyps(1) [OF this(1) Suc.prems(1,2) this(2) y(1) rm] obtain t where
    t: "CBB_flush E (Suc d) s = (Some (), t)" by blast
  from CBB_flush_rep [OF t Suc.prems(1,2)] y(1) have r: "rep t (root, take d fs @ [(?k, ?b @ y)])"
    using append_top_take [OF d] d by (simp add: spec_flush_def)
  have "base_cap s < 2 ^ 64" using Suc.prems(1) by (simp add: rep_def cbb_ok_def)
  from room_bound [OF Suc.prems(5) this]
  have start: "size_wrap (length ?L + prefix_len ?k) = length ?L + prefix_len ?k" using len_y by simp
  have "length ?L + prefix_len ?k \<le> base_len t" using rep_len [OF r] by (simp add: layout_snoc)
  moreover have "\<exists>s'. flush_child E d ?child (length ?L + prefix_len ?k) t = (Some (), s')"
    using flush_child_room [OF r child refl y(2)]
      room_grown [OF Suc.prems(5) CBB_flush_grown [OF t Suc.prems(1,2)]] by blast
  ultimately show ?case
    using t len d by (subst CBB_flush.simps) (auto simp: cbb_get_base_def Let_def start child)
qed

lemma spec_flush_layout:
  "d \<le> length fs \<Longrightarrow> close_frames (drop d fs) = Some x \<Longrightarrow>
   spec_flush d (root, fs) = Some (append_top (root, take d fs) x)"
  by (simp add: spec_flush_def)

lemma CBB_flush_fits:
  assumes s: "rep s (root, fs)" "small_prefixes (root, fs)" "d \<le> length fs"
    and x: "close_frames (drop d fs) = Some x" and cap: "length (layout (root, take d fs)) + length x \<le> base_cap s"
  shows "\<exists>s'. CBB_flush E d s = (Some (), s') \<and> base_cap s' = base_cap s"
proof -
  from CBB_flush_room [OF s x, of E] cap obtain s' where s': "CBB_flush E d s = (Some (), s')"
    by (auto simp: room_def)
  from CBB_flush_rep [OF s' s(1,2)] have "rep s' (append_top (root, take d fs) x)"
    by (simp add: spec_flush_layout [OF s(3) x])
  with cap have "base_len s' \<le> base_cap s" using rep_len by (simp add: layout_append_top)
  with CBB_flush_grown [OF s' s(1,2)] s' show ?thesis by (auto simp: grown_def)
qed

subsection \<open>The interface of a writer\<close>

text \<open>A function that appends \<open>x\<close> at handle \<open>d\<close>: when it succeeds it has flushed the deeper
  handles and appended \<open>x\<close>, and with nothing pending and room in the buffer it succeeds.\<close>

locale cbb_writer =
  fixes d :: nat and wr :: "(cbb, unit) call" and x :: "u8 list"
  assumes writes: "wr s = (Some (), s') \<Longrightarrow> rep s st \<Longrightarrow> small_prefixes st \<Longrightarrow>
      \<exists>st'. spec_write d x st = Some st' \<and> rep s' st'"
    and fits: "rep s st \<Longrightarrow> small_prefixes st \<Longrightarrow> length (snd st) = d \<Longrightarrow>
      base_len s + length x \<le> base_cap s \<Longrightarrow> \<exists>s'. wr s = (Some (), s') \<and> base_cap s' = base_cap s"
begin

lemma appends:
  assumes "wr s = (Some (), s')" and "rep s st" and "small_prefixes st" and "length (snd st) = d"
  shows "rep s' (append_top st x) \<and> written s' = written s @ x"
proof -
  have "spec_write d x st = Some (append_top st x)"
    using assms(4) by (cases st) (simp add: spec_write_def spec_flush_def)
  with writes [OF assms(1-3)] have "rep s' (append_top st x)" by simp
  with assms(2) show ?thesis by (simp add: rep_def layout_append_top)
qed

lemma total:
  assumes "rep s st" and "small_prefixes st" and "length (snd st) = d"
    and "base_len s + length x \<le> base_cap s"
  shows "\<exists>s'. wr s = (Some (), s') \<and> rep s' (append_top st x) \<and> base_cap s' = base_cap s"
  using fits [OF assms] appends [OF _ assms(1-3)] by blast

end

lemma length_append_top [simp]: "length (snd (append_top st x)) = length (snd st)"
  by (cases st; cases "snd st" rule: rev_cases) (auto simp: append_top_def)

lemma spec_write_shape:
  "spec_write d x st = Some st' \<Longrightarrow>
     d \<le> length (snd st) \<and> (\<exists>y. st' = append_top (fst st, take d (snd st)) (y @ x))"
proof -
  assume w: "spec_write d x st = Some st'"
  then have d: "d \<le> length (snd st)" by (auto simp: spec_write_def spec_flush_def split: if_splits)
  from w obtain y where "close_frames (drop d (snd st)) = Some y"
    using d by (cases "close_frames (drop d (snd st))") (simp_all add: spec_write_def spec_flush_def)
  with w d have "st' = append_top (append_top (fst st, take d (snd st)) y) x"
    by (simp add: spec_write_def spec_flush_def)
  then show ?thesis unfolding append_top_append by (intro conjI d exI)
qed

lemma spec_write_Some: "spec_write d x st = Some st' \<Longrightarrow> length (snd st') = d"
  by (drule spec_write_shape, elim conjE exE, hypsubst) simp

lemma spec_flush_idle: "length (snd st) = d \<Longrightarrow> spec_flush d st = Some st"
  by (cases st) (simp add: spec_flush_def)

lemma spec_write_twice: "spec_write d x st = Some st' \<Longrightarrow> spec_write d y st' = spec_write d (x @ y) st"
  by (frule spec_write_Some) (auto simp: spec_write_def spec_flush_idle append_top_append)

lemma small_write: "spec_write d x st = Some st' \<Longrightarrow> small_prefixes st \<Longrightarrow> small_prefixes st'"
  by (drule spec_write_shape, elim conjE exE, hypsubst) (simp add: small_take)

lemma CBB_flush_idle:
  "rep s st \<Longrightarrow> length (snd st) = d \<Longrightarrow> CBB_flush E d s = (Some (), s)"
  by (subst CBB_flush.simps) (auto simp: rep_def cbb_get_base_def)

lemma CBB_flush_spec:
  "CBB_flush E d s = (Some (), s') \<Longrightarrow> rep s st \<Longrightarrow> small_prefixes st \<Longrightarrow>
     \<exists>st'. spec_flush d st = Some st' \<and> rep s' st'"
  using CBB_flush_rep [of E d s s' "fst st" "snd st"] by simp

lemma CBB_add_space_rep:
  assumes r: "CBB_add_space E d n s = (Some out, t)" and s: "rep s st" "small_prefixes st" and n: "n < 2 ^ 64"
  shows "\<exists>st'. spec_flush d st = Some st' \<and> out = length (layout st') \<and> cbb_ok t \<and> \<not> base_error t \<and>
    (\<exists>J. length J = n \<and> written t = layout st' @ J) \<and>
    cbb_children t = child_recs (length (fst st')) (snd st')"
proof -
  from r obtain u where u: "CBB_flush E d s = (Some (), u)" "cbb_buffer_add E n u = (Some out, t)"
    by (auto simp: CBB_add_space_def elim!: bindC_SomeE)
  from CBB_flush_spec [OF u(1) s] obtain st' where st': "spec_flush d st = Some st'" "rep u st'" by blast
  have ok: "cbb_ok u" using st'(2) by (simp add: rep_def)
  from cbb_buffer_add_Some [OF ok n u(2)] st' show ?thesis
    by (auto simp: rep_len [OF st'(2)]) (auto simp: rep_def)
qed

lemma fill_space:
  assumes "cbb_ok t" and "\<not> base_error t" and "written t = layout st @ J" and "length X = length J"
    and "cbb_children t = child_recs (length (fst st)) (snd st)"
  shows "rep (buf_write (length (layout st)) X t) (append_top st X)"
  using written_write [OF assms(1), of "layout st" J "[]" X] assms
  by (simp add: rep_def layout_append_top recs_append_top)

lemma CBB_add_space_fits:
  assumes "rep s st" and "length (snd st) = d" and "base_len s + n \<le> base_cap s"
  shows "CBB_add_space E d n s = (Some (base_len s), s\<lparr>base_len := base_len s + n\<rparr>)"
  using assms CBB_flush_idle [OF assms(1,2)] cbb_buffer_add_fits [of s n E]
  by (simp add: CBB_add_space_def bindC_def rep_def)

text \<open>Every writer of bytes is one \<open>CBB_add_space\<close> and one store.\<close>

lemma cbb_writer_fill:
  assumes n: "length x < 2 ^ 64"
    and f: "\<And>out s s'. f out s = (Some (), s') \<Longrightarrow> out + length x \<le> length (buf_bytes s) \<Longrightarrow> s' = buf_write out x s"
    and g: "\<And>out s. out + length x \<le> length (buf_bytes s) \<Longrightarrow> f out s = (Some (), buf_write out x s)"
  shows "cbb_writer d (bindC (CBB_add_space E d (length x)) f) x"
proof (rule cbb_writer.intro)
  fix s s' st
  assume r: "bindC (CBB_add_space E d (length x)) f s = (Some (), s')" and s: "rep s st" "small_prefixes st"
  then obtain out t where t: "CBB_add_space E d (length x) s = (Some out, t)" "f out t = (Some (), s')"
    by (auto elim!: bindC_SomeE)
  from CBB_add_space_rep [OF t(1) s n] obtain st' J where
    st': "spec_flush d st = Some st'" and out: "out = length (layout st')" and
    ok: "cbb_ok t" "\<not> base_error t" and J: "length J = length x" "written t = layout st' @ J" and
    ch: "cbb_children t = child_recs (length (fst st')) (snd st')" by blast
  have "length (written t) \<le> length (buf_bytes t)" by (simp add: written_def)
  then have "s' = buf_write out x t" using f [OF t(2)] J out by simp
  with fill_space [OF ok J(2) _ ch, of x] J out st' show
    "\<exists>st'. spec_write d x st = Some st' \<and> rep s' st'" by (simp add: spec_write_def)
next
  fix s st
  assume s: "rep s st" "small_prefixes st" "length (snd st) = d" "base_len s + length x \<le> base_cap s"
  note a = CBB_add_space_fits [OF s(1,3,4), of E]
  have "base_len s + length x \<le> length (buf_bytes (s\<lparr>base_len := base_len s + length x\<rparr>))"
    using s by (simp add: rep_def cbb_ok_def buf_bytes_def)
  from g [OF this] a show "\<exists>s'. bindC (CBB_add_space E d (length x)) f s = (Some (), s') \<and> base_cap s' = base_cap s"
    by (simp add: bindC_def)
qed

lemma add_bytes_writer:
  "length x < 2 ^ 64 \<Longrightarrow> n = length x \<Longrightarrow> cbb_writer d (CBB_add_bytes E d x n) x"
  unfolding CBB_add_bytes_def by (simp, rule cbb_writer_fill) simp_all

lemma add_zeros_writer:
  "n < 2 ^ 64 \<Longrightarrow> cbb_writer d (CBB_add_zeros E d n) (replicate n 0)"
  unfolding CBB_add_zeros_def using cbb_writer_fill [of "replicate n 0"] by simp

lemma cbb_add_u_writer:
  assumes "n \<le> 8" and "unat v < 256 ^ n"
  shows "cbb_writer d (cbb_add_u E d v n) (be_fixed n (unat v))"
proof -
  have "unat v div 256 ^ n = 0" using assms(2) by simp
  then have eq: "(case write_be_loop buf n (unat v) s of
        (rest, s) \<Rightarrow> if rest \<noteq> 0 then (None, cbb_on_error d s) else (Some (), s)) =
      (Some (), buf_write buf (be_fixed n (unat v)) s)" if "buf + n \<le> length (buf_bytes s)" for buf s
    by (simp add: write_be_loop_eq [OF that])
  show ?thesis
    unfolding cbb_add_u_def
    using cbb_writer_fill [of "be_fixed n (unat v)"] assms(1) eq by simp
qed

lemma add_u8_writer: "cbb_writer d (CBB_add_u8 E d b) [b]"
  using cbb_add_u_writer [of 1 "ucast b" d E] byte_lt [of b] by (simp add: CBB_add_u8_def)

lemma writer_seq:
  assumes a: "cbb_writer d f x" and b: "cbb_writer d g y"
  shows "cbb_writer d (bindC f (\<lambda>_. g)) (x @ y)"
proof (rule cbb_writer.intro)
  fix s s' st
  assume r: "bindC f (\<lambda>_. g) s = (Some (), s')" and s: "rep s st" "small_prefixes st"
  then obtain t where t: "f s = (Some (), t)" "g t = (Some (), s')" by (auto elim!: bindC_SomeE)
  from cbb_writer.writes [OF a t(1) s] obtain u where u: "spec_write d x st = Some u" "rep t u" by blast
  from cbb_writer.writes [OF b t(2) u(2) small_write [OF u(1) s(2)]]
  obtain v where v: "spec_write d y u = Some v" "rep s' v" by blast
  with spec_write_twice [OF u(1)] show
    "\<exists>st'. spec_write d (x @ y) st = Some st' \<and> rep s' st'" by auto
next
  fix s st
  assume s: "rep s st" "small_prefixes st" "length (snd st) = d" "base_len s + length (x @ y) \<le> base_cap s"
  then have "base_len s + length x \<le> base_cap s" by simp
  from cbb_writer.total [OF a s(1-3) this] obtain t where
    t: "f s = (Some (), t)" "rep t (append_top st x)" "base_cap t = base_cap s" by blast
  have "base_len t + length y \<le> base_cap t"
    using s(4) t(3) rep_len [OF t(2)] rep_len [OF s(1)] by (simp add: layout_append_top)
  from cbb_writer.total [OF b t(2) _ _ this] s t show
    "\<exists>s'. bindC f (\<lambda>_. g) s = (Some (), s') \<and> base_cap s' = base_cap s"
    by (auto simp: bindC_def)
qed

lemma b128_cont_map:
  "b128_cont n = map (\<lambda>i. of_nat (n div 128 ^ i mod 128) OR 0x80) (rev [0..<length (b128_cont n)])"
proof (induction n rule: b128_cont.induct)
  case (1 n)
  show ?case
  proof (cases "n = 0")
    case False
    let ?L = "length (b128_cont (n div 128))"
    have L: "length (b128_cont n) = Suc ?L" using False by (simp add: b128_cont_step)
    have "rev [0..<Suc ?L] = map Suc (rev [0..<?L]) @ [0]"
      by (simp add: upt_conv_Cons rev_map map_Suc_upt [symmetric] del: upt_Suc)
    then have "map (\<lambda>i. of_nat (n div 128 ^ i mod 128) OR 0x80 :: u8) (rev [0..<Suc ?L]) =
        map (\<lambda>i. of_nat (n div 128 div 128 ^ i mod 128) OR 0x80) (rev [0..<?L]) @ [of_nat (n mod 128) OR 0x80]"
      by (simp add: o_def div_mult2_eq del: upt_Suc)
    with 1 [OF False] False show ?thesis unfolding L by (simp add: b128_cont_step del: upt_Suc)
  qed simp
qed

definition b128_octet :: "nat \<Rightarrow> nat \<Rightarrow> u8" where
  "b128_octet n i = (if i \<noteq> 0 then of_nat (n div 128 ^ i mod 128) OR 0x80 else of_nat (n mod 128))"

lemma b128_map: "map (b128_octet n) (rev [0..<Suc (length (b128_cont (n div 128)))]) = b128 n"
proof -
  let ?L = "length (b128_cont (n div 128))"
  have "rev [0..<Suc ?L] = map Suc (rev [0..<?L]) @ [0]"
    by (simp add: upt_conv_Cons rev_map map_Suc_upt [symmetric] del: upt_Suc)
  then have "map (b128_octet n) (rev [0..<Suc ?L]) =
      map (\<lambda>i. of_nat (n div 128 div 128 ^ i mod 128) OR 0x80) (rev [0..<?L]) @ [of_nat (n mod 128)]"
    by (simp add: o_def b128_octet_def div_mult2_eq del: upt_Suc)
  then show ?thesis using b128_cont_map [of "n div 128"] by (simp add: b128_def)
qed

lemma base128_len: "base128_len_loop v = length (b128_cont (unat v))"
proof (induction v rule: base128_len_loop.induct)
  case (1 v)
  have "0 < v \<longleftrightarrow> 0 < unat v" by (simp add: word_less_nat_alt)
  with 1 unat_drop_bit [of 7 v] show ?case
    by (subst base128_len_loop.simps) (simp add: b128_cont_step)
qed

lemma base128_octet_word:
  fixes v :: u64
  shows "(let byte = ucast (drop_bit (7 * i) v) AND 0x7f :: u8 in if i \<noteq> 0 then byte OR 0x80 else byte) =
    b128_octet (unat v) i"
proof -
  have "unat (ucast (drop_bit (7 * i) v) AND 0x7f :: u8) = unat v div 128 ^ i mod 128"
  proof -
    have "(2 :: nat) ^ (7 * i) = 128 ^ i" by (simp add: power_mult)
    then show ?thesis by (simp add: unat_and_7f unat_ucast unat_drop_bit mod_mod_cancel)
  qed
  moreover have "unat v div 128 ^ i mod 128 < 256" by (rule less_le_trans [of _ 128]) simp_all
  ultimately have "ucast (drop_bit (7 * i) v) AND 0x7f = (of_nat (unat v div 128 ^ i mod 128) :: u8)"
    by (simp only: word_unat_eq_iff unat_of_nat_u8)
  then show ?thesis by (simp add: Let_def b128_octet_def)
qed

lemma ret_writer: "cbb_writer d (bindC (CBB_flush E d) (\<lambda>_. retC ())) []"
proof (rule cbb_writer.intro)
  fix s s' st
  assume "bindC (CBB_flush E d) (\<lambda>_. retC ()) s = (Some (), s')" "rep s st" "small_prefixes st"
  then show "\<exists>st'. spec_write d [] st = Some st' \<and> rep s' st'"
    using CBB_flush_spec by (fastforce simp: spec_write_def elim!: bindC_SomeE)
qed (auto simp: bindC_def CBB_flush_idle)

lemma base128_write_loop_writer:
  "cbb_writer d (base128_write_loop E d v (Suc k)) (map (b128_octet (unat v)) (rev [0..<Suc k]))"
proof (induction k)
  case 0
  have "bindC (CBB_add_u8 E d b) (\<lambda>_. retC ()) = CBB_add_u8 E d b" for b
    by (rule ext) (simp add: bindC_def split: prod.split option.split)
  then have "base128_write_loop E d v (Suc 0) = CBB_add_u8 E d (b128_octet (unat v) 0)"
    using base128_octet_word [of 0 v] by (simp add: Let_def)
  then show ?case using add_u8_writer by simp
next
  case (Suc k)
  have "base128_write_loop E d v (Suc (Suc k)) =
      bindC (CBB_add_u8 E d (b128_octet (unat v) (Suc k))) (\<lambda>_. base128_write_loop E d v (Suc k))"
    using base128_octet_word [of "Suc k" v] by (simp add: Let_def del: base128_write_loop.simps(1))
  with writer_seq [OF add_u8_writer Suc] show ?case by simp
qed

lemma add_base128_integer_writer: "cbb_writer d (add_base128_integer E d v) (b128 (unat v))"
proof -
  let ?L = "length (b128_cont (unat v div 128))"
  have "(let l = base128_len_loop v in if l = 0 then 1 else l) = Suc ?L"
  proof (cases "unat v = 0")
    case False
    then show ?thesis by (simp add: base128_len b128_cont_step Let_def)
  qed (simp add: base128_len Let_def)
  then have "add_base128_integer E d v = base128_write_loop E d v (Suc ?L)"
    by (simp add: add_base128_integer_def Let_def del: base128_write_loop.simps)
  with base128_write_loop_writer [of d E v ?L] show ?thesis by (simp only: b128_map)
qed

subsection \<open>The interface on the code's own writers\<close>

interpretation add_u8: cbb_writer d "CBB_add_u8 E d b" "[b]" for d E b
  by (rule add_u8_writer)

interpretation add_base128: cbb_writer d "add_base128_integer E d v" "b128 (unat v)" for d E v
  by (rule add_base128_integer_writer)

subsection \<open>Opening a child\<close>

lemma cbb_add_child_rep:
  assumes r: "cbb_add_child E d n is_asn1 s = (Some (), s')" and s: "rep s st" "length (snd st) = d"
    and n: "n = prefix_len k" "is_asn1 = (k = Der)" "n \<le> 8"
  shows "rep s' (fst st, snd st @ [(k, [])])"
proof -
  have ok: "cbb_ok s" "\<not> base_error s" and w: "written s = layout st"
    and ch: "cbb_children s = child_recs (length (fst st)) (snd st)" using s(1) by (simp_all add: rep_def)
  have n64: "n < 2 ^ 64" using n(3) by simp
  from r obtain out t where t: "cbb_buffer_add E n s = (Some out, t)" and
    s': "s' = (buf_write out (replicate n 0) t)\<lparr>cbb_children := take d (cbb_children t) @
       [\<lparr>cc_offset = base_len s, cc_pending_len_len = n, cc_pending_is_asn1 = is_asn1\<rparr>]\<rparr>"
    by (auto simp: cbb_add_child_def Let_def split: prod.splits option.splits)
  from cbb_buffer_add_Some [OF ok(1) n64 t] obtain J where
    J: "out = base_len s" "cbb_ok t" "length J = n" "written t = written s @ J" "cbb_children t = cbb_children s"
    "base_error t = base_error s" by blast
  have out: "out = length (layout st)" using J(1) rep_len [OF s(1)] by simp
  have "written (buf_write out (replicate n 0) t) = layout st @ replicate n 0"
    "cbb_ok (buf_write out (replicate n 0) t)"
    using written_write [OF J(2), of "layout st" J "[]" "replicate n 0" out] J w out by simp_all
  moreover have "layout (fst st, snd st @ [(k, [])]) = layout st @ replicate n 0"
    using n by (cases st) (simp add: layout_snoc)
  moreover have "child_recs (length (fst st)) (snd st @ [(k, [])]) =
      cbb_children s @ [\<lparr>cc_offset = base_len s, cc_pending_len_len = n, cc_pending_is_asn1 = is_asn1\<rparr>]"
    using ch n rep_len [OF s(1)] by (cases st) (simp add: child_recs_append layout_def)
  moreover have "take d (cbb_children t) = cbb_children s" using J(5) ch s(2) by simp
  ultimately show ?thesis unfolding s' using ok J(6) by (simp add: rep_def)
qed

lemma cbb_add_child_fits:
  assumes "cbb_ok s" and "base_len s + n \<le> base_cap s"
  shows "\<exists>s'. cbb_add_child E d n is_asn1 s = (Some (), s') \<and> base_cap s' = base_cap s"
  using cbb_buffer_add_fits [OF assms, of E] by (simp add: cbb_add_child_def)

text \<open>The identifier octets are written by one writer of \<open>der_tag\<close>.\<close>

definition write_tag :: "heap_env \<Rightarrow> nat \<Rightarrow> u32 \<Rightarrow> (cbb, unit) call" where
  "write_tag E d tag =
     (let tag_bits = ucast (drop_bit CBS_ASN1_TAG_SHIFT tag AND 0xe0) :: u8;
          tag_number = tag AND CBS_ASN1_TAG_NUMBER_MASK
      in if 0x1f \<le> tag_number
         then bindC (CBB_add_u8 E d (tag_bits OR 0x1f)) (\<lambda>_. add_base128_integer E d (ucast tag_number))
         else CBB_add_u8 E d (tag_bits OR ucast tag_number))"

lemma CBB_add_asn1_eq:
  "CBB_add_asn1 E d tag =
     bindC (CBB_flush E d) (\<lambda>_. bindC (write_tag E d tag) (\<lambda>_. cbb_add_child E d 1 True))"
  by (simp add: CBB_add_asn1_def write_tag_def Let_def)

lemma write_tag_writer: "cbb_writer d (write_tag E d tag) (der_tag tag)"
proof -
  have le: "0x1f \<le> tag AND CBS_ASN1_TAG_NUMBER_MASK \<longleftrightarrow> 0x1f \<le> unat (tag AND CBS_ASN1_TAG_NUMBER_MASK)"
    by (simp add: word_le_nat_alt)
  have "cbb_writer d (bindC (CBB_add_u8 E d x) (\<lambda>_. add_base128_integer E d (ucast y))) (x # b128 (unat y))"
    for x and y :: u32
  proof -
    have "cbb_writer d (bindC (CBB_add_u8 E d x) (\<lambda>_. add_base128_integer E d (ucast y)))
        ([x] @ b128 (unat (ucast y :: u64)))"
      by (rule writer_seq [OF add_u8_writer add_base128_integer_writer])
    then show ?thesis by simp
  qed
  then show ?thesis
    using add_u8_writer unfolding write_tag_def der_tag_def Let_def le by simp
qed

lemma small_snoc [simp]:
  "small_prefixes (root, fs @ [(k, b)]) \<longleftrightarrow> small_prefixes (root, fs) \<and> prefix_len k \<le> 8"
  by (auto simp: small_prefixes_def)

lemma spec_flush_shape:
  "spec_flush d st = Some st' \<Longrightarrow> length (snd st') = d \<and> (small_prefixes st \<longrightarrow> small_prefixes st')"
proof -
  assume w: "spec_flush d st = Some st'"
  then have d: "d \<le> length (snd st)" by (auto simp: spec_flush_def split: if_splits)
  from w obtain y where "append_top (fst st, take d (snd st)) y = st'"
    using d by (cases "close_frames (drop d (snd st))") (simp_all add: spec_flush_def)
  then have "st' = append_top (fst st, take d (snd st)) y" by (rule sym)
  with d small_take [of "fst st" "snd st" d] show ?thesis by simp
qed

lemma CBB_add_asn1_rep:
  assumes r: "CBB_add_asn1 E d tag s = (Some (), s')" and s: "rep s st" "small_prefixes st"
  shows "\<exists>st'. spec_write d (der_tag tag) st = Some st' \<and> rep s' (fst st', snd st' @ [(Der, [])])"
proof -
  from r obtain t u where t: "CBB_flush E d s = (Some (), t)" "write_tag E d tag t = (Some (), u)"
    "cbb_add_child E d 1 True u = (Some (), s')"
    unfolding CBB_add_asn1_eq by (elim bindC_SomeE) simp
  from CBB_flush_spec [OF t(1) s] obtain st0 where st0: "spec_flush d st = Some st0" "rep t st0" by blast
  have sh: "length (snd st0) = d" "small_prefixes st0" using spec_flush_shape [OF st0(1)] s(2) by blast+
  let ?st = "append_top st0 (der_tag tag)"
  have u: "rep u ?st"
    using cbb_writer.appends [OF write_tag_writer t(2) st0(2) sh(2,1)] by blast
  have "length (snd ?st) = d" using sh(1) by simp
  from cbb_add_child_rep [OF t(3) u this, of Der] have "rep s' (fst ?st, snd ?st @ [(Der, [])])" by simp
  moreover have "spec_write d (der_tag tag) st = Some ?st" using st0(1) by (simp add: spec_write_def)
  ultimately show ?thesis by blast
qed

lemma CBB_add_asn1_fits:
  assumes s: "rep s st" "small_prefixes st" "length (snd st) = d"
    and room: "base_len s + length (der_tag tag) + 1 \<le> base_cap s"
  shows "\<exists>s'. CBB_add_asn1 E d tag s = (Some (), s') \<and> base_cap s' = base_cap s"
proof -
  have "base_len s + length (der_tag tag) \<le> base_cap s" using room by simp
  from cbb_writer.total [OF write_tag_writer s this] obtain t where
    t: "write_tag E d tag s = (Some (), t)" "rep t (append_top st (der_tag tag))" "base_cap t = base_cap s" by blast
  have "base_len t + 1 \<le> base_cap t"
    using room t(3) rep_len [OF t(2)] rep_len [OF s(1)] by (simp add: layout_append_top)
  moreover have "cbb_ok t" using t(2) by (simp add: rep_def)
  ultimately show ?thesis
    using t CBB_flush_idle [OF s(1,3), of E] cbb_add_child_fits [of t 1 E d True]
    unfolding CBB_add_asn1_eq by (auto simp: bindC_def)
qed

lemma cbb_add_length_prefixed_rep:
  assumes r: "cbb_add_length_prefixed E d n s = (Some (), s')" and s: "rep s st" "small_prefixes st" and n: "n \<le> 8"
  shows "\<exists>st'. spec_open d (Fixed n) st = Some st' \<and> rep s' st'"
proof -
  from r obtain t where t: "CBB_flush E d s = (Some (), t)" "cbb_add_child E d n False t = (Some (), s')"
    by (auto simp: cbb_add_length_prefixed_def elim!: bindC_SomeE)
  from CBB_flush_spec [OF t(1) s] obtain st0 where st0: "spec_flush d st = Some st0" "rep t st0" by blast
  with cbb_add_child_rep [OF t(2) st0(2), of "Fixed n"] spec_flush_shape [OF st0(1)] n
  show ?thesis by (cases st0) (simp add: spec_open_def)
qed

lemma CBB_finish_rep:
  assumes r: "CBB_finish E d has_out s = (Some (buf, n), s')" and s: "rep s (root, fs)" "small_prefixes (root, fs)"
  shows "\<exists>x. close_frames fs = Some x \<and> n = length (root @ x) \<and>
    take n (case buf of None \<Rightarrow> [] | Some b \<Rightarrow> b) = root @ x"
proof -
  from r obtain t where d: "d = 0" and t: "CBB_flush E 0 s = (Some (), t)" and
    o: "buf = base_buf t" "n = base_len t"
    by (auto simp: CBB_finish_def elim!: guardC_SomeE bindC_SomeE split: if_splits)
  from CBB_flush_spec [OF t s] obtain st where st: "spec_flush 0 (root, fs) = Some st" "rep t st" by blast
  then obtain x where x: "close_frames fs = Some x" "st = (root @ x, [])"
    by (auto simp: spec_flush_def append_top_def split: option.splits)
  have "written t = root @ x" using st(2) x(2) by (simp add: rep_def layout_def)
  with rep_len [OF st(2)] x o show ?thesis
    by (simp add: written_def buf_bytes_def layout_def)
qed

lemma CBB_init_rep: "CBB_init E cap = (Some (), s) \<Longrightarrow> cap < 2 ^ 64 \<Longrightarrow> rep s ([], [])"
  by (auto simp: CBB_init_def cbb_init_def Let_def rep_def cbb_ok_def written_def layout_def buf_bytes_def
      OPENSSL_malloc_length split: if_splits option.splits)

lemma CBB_init_fixed_rep:
  "length buf = cap \<Longrightarrow> cap < 2 ^ 64 \<Longrightarrow> rep (snd (CBB_init_fixed (Some buf) cap)) ([], [])"
  by (simp add: CBB_init_fixed_def cbb_init_def rep_def cbb_ok_def written_def layout_def buf_bytes_def)

subsection \<open>Properties\<close>

text \<open>C17: \<open>CBB_flush\<close> refines the stack of frames. When it succeeds on handle \<open>d\<close> it has closed exactly
  the frames above \<open>d\<close>, innermost first, each with its shortest DER length or its fixed-width length in
  front of its bytes, and the buffer has grown only if the result did not fit, to at most twice the
  result, and only if it may be resized and the allocator served that size. It succeeds whenever the
  specification closes the frames and the result fits in the buffer, or the buffer may be resized and
  the allocator serves the sizes above the present one up to twice the result. So it fails only because
  a length does not fit its prefix, because a fixed buffer is full, or because the allocator refused.\<close>

theorem CBB_flush_refines:
  assumes "rep s st" and "small_prefixes st"
  shows "(\<forall>s'. CBB_flush E d s = (Some (), s') \<longrightarrow>
      (\<exists>st'. spec_flush d st = Some st' \<and> rep s' st' \<and>
        (if length (layout st') \<le> base_cap s then base_cap s' = base_cap s
         else base_can_resize s \<and> base_cap s' \<le> 2 * length (layout st') \<and> OPENSSL_malloc E (base_cap s') \<noteq> None))) \<and>
    (\<forall>st'. spec_flush d st = Some st' \<and>
       (length (layout st') \<le> base_cap s \<or>
        base_can_resize s \<and>
          (\<forall>n. base_cap s < n \<and> n \<le> 2 * length (layout st') \<longrightarrow> OPENSSL_malloc E n \<noteq> None)) \<longrightarrow>
       (\<exists>s'. CBB_flush E d s = (Some (), s') \<and> rep s' st'))"
proof (intro conjI allI impI)
  fix s' assume f: "CBB_flush E d s = (Some (), s')"
  from CBB_flush_spec [OF f assms] obtain st' where st': "spec_flush d st = Some st'" "rep s' st'" by blast
  have g: "grown E s s'" using CBB_flush_grown [of E d s s' "fst st" "snd st"] f assms by simp
  have "cbb_ok s'" using st'(2) by (simp add: rep_def)
  then have "base_len s' \<le> base_cap s'" by (simp add: cbb_ok_def)
  with g rep_len [OF st'(2)] st' show "\<exists>st'. spec_flush d st = Some st' \<and> rep s' st' \<and>
        (if length (layout st') \<le> base_cap s then base_cap s' = base_cap s
         else base_can_resize s \<and> base_cap s' \<le> 2 * length (layout st') \<and> OPENSSL_malloc E (base_cap s') \<noteq> None)"
    by (intro exI [of _ st']) (auto simp: grown_def)
next
  fix st'
  assume st': "spec_flush d st = Some st' \<and>
       (length (layout st') \<le> base_cap s \<or>
        base_can_resize s \<and>
          (\<forall>n. base_cap s < n \<and> n \<le> 2 * length (layout st') \<longrightarrow> OPENSSL_malloc E n \<noteq> None))"
  then have d: "d \<le> length (snd st)" by (auto simp: spec_flush_def split: if_splits)
  with st' obtain x where x: "close_frames (drop d (snd st)) = Some x"
    by (cases "close_frames (drop d (snd st))") (simp_all add: spec_flush_def)
  with st' d have "st' = append_top (fst st, take d (snd st)) x" by (simp add: spec_flush_def)
  then have "room E s (length (layout (fst st, take d (snd st))) + length x)"
    using st' by (simp add: room_def layout_append_top)
  with CBB_flush_room [of s "fst st" "snd st" d x E] assms d x obtain s' where
    s': "CBB_flush E d s = (Some (), s')" by auto
  with CBB_flush_spec [OF s' assms] st' show "\<exists>s'. CBB_flush E d s = (Some (), s') \<and> rep s' st'" by auto
qed

lemma pending_example:
  "rep \<lparr>base_buf = Some [9, 0, 7, 8, 0], base_len = 4, base_cap = 5, base_can_resize = False,
     base_error = False, cbb_children = [\<lparr>cc_offset = 1, cc_pending_len_len = 1, cc_pending_is_asn1 = True\<rparr>]\<rparr>
   ([9], [(Der, [7, 8])])"
  by (simp add: rep_def cbb_ok_def written_def layout_def buf_bytes_def)

text \<open>A child whose length needs a second octet, in a buffer that is full and may be resized.\<close>

definition full_example :: cbb where
  "full_example = \<lparr>base_buf = Some (0 # replicate 128 7), base_len = 129, base_cap = 129, base_can_resize = True,
     base_error = False, cbb_children = [\<lparr>cc_offset = 0, cc_pending_len_len = 1, cc_pending_is_asn1 = True\<rparr>]\<rparr>"

lemma full_example: "rep full_example ([], [(Der, replicate 128 7)])"
  by (simp add: full_example_def rep_def cbb_ok_def written_def layout_def buf_bytes_def)

theorem CBB_flush_refines_witness:
  "(\<exists>s'. CBB_flush calm_heap 0 \<lparr>base_buf = Some [9, 0, 7, 8, 0], base_len = 4, base_cap = 5, base_can_resize = False,
     base_error = False, cbb_children = [\<lparr>cc_offset = 1, cc_pending_len_len = 1, cc_pending_is_asn1 = True\<rparr>]\<rparr> =
     (Some (), s') \<and> written s' = [9, 2, 7, 8]) \<and>
   (\<exists>s'. CBB_flush calm_heap 0 full_example = (Some (), s') \<and> written s' = 0x81 # 0x80 # replicate 128 7)"
proof
  have "spec_flush 0 ([9], [(Der, [7, 8])]) = Some ([9, 2, 7, 8], [])"
    by (simp add: spec_flush_def append_top_def der_len_def)
  moreover have "small_prefixes ([9], [(Der, [7, 8])])" by (simp add: small_prefixes_def)
  ultimately show "\<exists>s'. CBB_flush calm_heap 0 \<lparr>base_buf = Some [9, 0, 7, 8, 0], base_len = 4, base_cap = 5,
     base_can_resize = False, base_error = False,
     cbb_children = [\<lparr>cc_offset = 1, cc_pending_len_len = 1, cc_pending_is_asn1 = True\<rparr>]\<rparr> =
     (Some (), s') \<and> written s' = [9, 2, 7, 8]"
    using CBB_flush_refines [OF pending_example, of calm_heap 0] by (auto simp: rep_def layout_def)
next
  have "be_bytes 128 = [0x80]" by (simp add: be_bytes.simps)
  then have f: "spec_flush 0 ([], [(Der, replicate 128 7)]) = Some (0x81 # 0x80 # replicate 128 7, [])"
    by (simp add: spec_flush_def append_top_def der_len_def)
  have "small_prefixes ([], [(Der, replicate 128 7)])" by (simp add: small_prefixes_def)
  note r = conjunct2 [OF CBB_flush_refines [OF full_example this, of calm_heap 0], rule_format]
  have "\<exists>s'. CBB_flush calm_heap 0 full_example = (Some (), s') \<and> rep s' (0x81 # 0x80 # replicate 128 7, [])"
    by (rule r) (simp add: f full_example_def layout_def OPENSSL_malloc_def calm_heap_def OPENSSL_MALLOC_PREFIX_def)
  then show "\<exists>s'. CBB_flush calm_heap 0 full_example = (Some (), s') \<and> written s' = 0x81 # 0x80 # replicate 128 7"
    by (auto simp: rep_def layout_def)
qed

text \<open>\<open>cbb_add_u\<close> (and so every \<open>CBB_add_u8\<close> to \<open>CBB_add_u64\<close>) appends exactly the
  \<open>n\<close>-byte big-endian form of the value, and a value that does not fit makes it fail and locks
  the builder in its error state.\<close>

theorem cbb_add_u_exact:
  assumes "rep s st" and "small_prefixes st" and "length (snd st) = d" and "n \<le> 8"
    and "base_len s + n \<le> base_cap s"
  shows "if unat v < 256 ^ n
    then \<exists>s'. cbb_add_u E d v n s = (Some (), s') \<and> written s' = written s @ be_fixed n (unat v)
    else fst (cbb_add_u E d v n s) = None \<and> base_error (snd (cbb_add_u E d v n s))"
proof (cases "unat v < 256 ^ n")
  case True
  note w = cbb_add_u_writer [OF assms(4) True, of d E]
  from True cbb_writer.total [OF w assms(1-3)] cbb_writer.appends [OF w _ assms(1-3)] assms(5)
  show ?thesis by fastforce
next
  case False
  have "unat v div 256 ^ n \<noteq> 0" using False by (simp add: div_eq_0_iff)
  moreover have "base_len s + n \<le> length (buf_bytes (s\<lparr>base_len := base_len s + n\<rparr>))"
    using assms(1,5) by (simp add: rep_def cbb_ok_def buf_bytes_def)
  ultimately show ?thesis
    using False CBB_add_space_fits [OF assms(1,3,5), of E]
    by (simp add: cbb_add_u_def bindC_def write_be_loop_eq cbb_on_error_def)
qed

theorem cbb_add_u_exact_witness:
  "(\<exists>s'. cbb_add_u calm_heap 0 0x0102 2 (snd (CBB_init_fixed (Some [0, 0]) 2)) = (Some (), s') \<and> written s' = [1, 2]) \<and>
   fst (cbb_add_u calm_heap 0 0x010203 2 (snd (CBB_init_fixed (Some [0, 0]) 2))) = None"
proof -
  have r: "rep (snd (CBB_init_fixed (Some [0, 0]) 2)) ([], [])" by (rule CBB_init_fixed_rep) simp_all
  have s: "base_len (snd (CBB_init_fixed (Some [0, 0]) 2)) = 0" "base_cap (snd (CBB_init_fixed (Some [0, 0]) 2)) = 2"
    "written (snd (CBB_init_fixed (Some [0, 0]) 2)) = []"
    by (simp_all add: CBB_init_fixed_def cbb_init_def written_def)
  have b: "be_fixed 2 258 = [1, 2]" by (simp add: numeral_2_eq_2)
  show ?thesis
    using cbb_add_u_exact [OF r, of 0 2 "0x0102" calm_heap] cbb_add_u_exact [OF r, of 0 2 "0x010203" calm_heap] s b
    by (simp add: small_prefixes_def)
qed

end
