(* ===== verification/Cbs_Values.thy ===== *)
theory Cbs_Values
  imports Cbs_Asn1
begin

text \<open>
  crypto/bytestring/cbs.c, the values inside an element: decimal numbers, INTEGER, BOOLEAN,
  BIT STRING and OBJECT IDENTIFIER contents and the optional-field readers, and the
  little-endian loads of crypto/internal.h. The specification of INTEGER is the encoder
  \<open>der_int\<close>, two's complement in the fewest bytes.
\<close>

subsection \<open>Operations\<close>

definition CBS_ASN1_BOOLEAN :: u32 where "CBS_ASN1_BOOLEAN = 0x1"
definition CBS_ASN1_INTEGER :: u32 where "CBS_ASN1_INTEGER = 0x2"
definition CBS_ASN1_OCTETSTRING :: u32 where "CBS_ASN1_OCTETSTRING = 0x4"

definition OPENSSL_isdigit :: "u8 \<Rightarrow> bool" where
  "OPENSSL_isdigit ch \<longleftrightarrow> 0x30 \<le> ch \<and> ch \<le> 0x39"

definition UINT64_MAX :: u64 where "UINT64_MAX = 0xffffffffffffffff"

text \<open>\<open>CBS_get_u64_decimal\<close>: the while loop; \<open>v > UINT64_MAX / 10\<close> on 64-bit words.\<close>

function decimal_loop :: "u64 \<Rightarrow> bool \<Rightarrow> (cbs, u64) call" where
  "decimal_loop v seen_digit c =
     (if CBS_len c = 0 \<or> \<not> OPENSSL_isdigit (CBS_data c ! 0)
      then (if seen_digit then Some v else None, c)
      else
        let ch = CBS_data c ! 0;
            c' = snd (CBS_skip 1 c);
            d = ucast ch - 0x30
        in if v = 0 \<and> seen_digit \<or> UINT64_MAX div 10 < v \<or> UINT64_MAX - d < v * 10
           then (None, c')
           else decimal_loop (v * 10 + d) True c')"
  by pat_completeness auto
termination
  by (relation "measure (\<lambda>(v, s, c). cbs_len c)")
    (auto simp: CBS_skip_def cbs_get_def bindC_def CBS_len_def)

declare decimal_loop.simps [simp del]

definition CBS_get_u64_decimal :: "(cbs, u64) call" where
  "CBS_get_u64_decimal = decimal_loop 0 False"

text \<open>The result is \<^term>\<open>Some is_negative\<close> when the C function returns 1.\<close>

definition CBS_is_valid_asn1_integer :: "cbs \<Rightarrow> bool option" where
  "CBS_is_valid_asn1_integer c =
     (case CBS_get_u8 c of
        (None, _) \<Rightarrow> None
      | (Some first_byte, copy) \<Rightarrow>
          let is_negative = first_byte AND 0x80 \<noteq> 0 in
          case CBS_get_u8 copy of
            (None, _) \<Rightarrow> Some is_negative
          | (Some second_byte, _) \<Rightarrow>
              if first_byte = 0 \<and> second_byte AND 0x80 = 0 \<or>
                 first_byte = 0xff \<and> second_byte AND 0x80 \<noteq> 0
              then None else Some is_negative)"

definition CBS_is_unsigned_asn1_integer :: "cbs \<Rightarrow> bool" where
  "CBS_is_unsigned_asn1_integer c \<longleftrightarrow> CBS_is_valid_asn1_integer c = Some False"

fun asn1_uint64_loop :: "u64 \<Rightarrow> u8 list \<Rightarrow> u64 option" where
  "asn1_uint64_loop out [] = Some out"
| "asn1_uint64_loop out (b # bs) =
     (if drop_bit 56 out \<noteq> 0 then None else asn1_uint64_loop (push_bit 8 out OR ucast b) bs)"

definition CBS_get_asn1_uint64 :: "(cbs, u64) call" where
  "CBS_get_asn1_uint64 = bindC (CBS_get_asn1 CBS_ASN1_INTEGER) (\<lambda>bytes.
     guardC (CBS_is_unsigned_asn1_integer bytes)
       (case asn1_uint64_loop 0 (take (CBS_len bytes) (CBS_data bytes)) of
          None \<Rightarrow> failC | Some out \<Rightarrow> retC out))"

text \<open>A load of eight bytes on a little-endian machine, then the byte swap.\<close>

definition load_u64_native :: "u8 list \<Rightarrow> u64" where
  "load_u64_native p = of_nat (be_nat (rev (take 8 p)))"

definition CRYPTO_load_u64_be :: "u8 list \<Rightarrow> u64" where
  "CRYPTO_load_u64_be p = CRYPTO_bswap8 (load_u64_native p)"

definition CBS_get_asn1_int64 :: "(cbs, u64) call" where
  "CBS_get_asn1_int64 = bindC (CBS_get_asn1 CBS_ASN1_INTEGER) (\<lambda>bytes.
     case CBS_is_valid_asn1_integer bytes of
       None \<Rightarrow> failC
     | Some is_negative \<Rightarrow>
         let len = CBS_len bytes;
             sign_extend = replicate 8 (if is_negative then 0xff else 0)
         in guardC (len \<le> 8)
              (retC (CRYPTO_load_u64_be (take (8 - len) sign_extend @ take len (CBS_data bytes)))))"

definition CBS_get_asn1_bool :: "(cbs, bool) call" where
  "CBS_get_asn1_bool = bindC (CBS_get_asn1 CBS_ASN1_BOOLEAN) (\<lambda>bytes.
     guardC (CBS_len bytes = 1)
       (let value = CBS_data bytes ! 0
        in guardC (value = 0 \<or> value = 0xff) (retC (value \<noteq> 0))))"

definition CBS_get_optional_asn1 :: "u32 \<Rightarrow> (cbs, cbs option) call" where
  "CBS_get_optional_asn1 tag c =
     (if CBS_peek_asn1_tag c tag then bindC (CBS_get_asn1 tag) (\<lambda>out. retC (Some out)) c
      else (Some None, c))"

definition CBS_get_optional_asn1_octet_string :: "u32 \<Rightarrow> (cbs, cbs option) call" where
  "CBS_get_optional_asn1_octet_string tag = bindC (CBS_get_optional_asn1 tag) (\<lambda>present.
     case present of
       None \<Rightarrow> retC None
     | Some child \<Rightarrow>
         (case CBS_get_asn1 CBS_ASN1_OCTETSTRING child of
            (None, _) \<Rightarrow> failC
          | (Some out, child) \<Rightarrow> guardC (CBS_len child = 0) (retC (Some out))))"

definition CBS_get_optional_asn1_uint64 :: "u32 \<Rightarrow> u64 \<Rightarrow> (cbs, u64) call" where
  "CBS_get_optional_asn1_uint64 tag default_value = bindC (CBS_get_optional_asn1 tag) (\<lambda>present.
     case present of
       None \<Rightarrow> retC default_value
     | Some child \<Rightarrow>
         (case CBS_get_asn1_uint64 child of
            (None, _) \<Rightarrow> failC
          | (Some out, child) \<Rightarrow> guardC (CBS_len child = 0) (retC out)))"

definition CBS_get_optional_asn1_bool :: "u32 \<Rightarrow> bool \<Rightarrow> (cbs, bool) call" where
  "CBS_get_optional_asn1_bool tag default_value = bindC (CBS_get_optional_asn1 tag) (\<lambda>present.
     case present of
       None \<Rightarrow> retC default_value
     | Some child \<Rightarrow>
         (case CBS_get_asn1 CBS_ASN1_BOOLEAN child of
            (None, _) \<Rightarrow> failC
          | (Some child2, child) \<Rightarrow>
              guardC (CBS_len child2 = 1 \<and> CBS_len child = 0)
                (let boolean = CBS_data child2 ! 0
                 in if boolean = 0 then retC False
                    else if boolean = 0xff then retC True else failC)))"

definition CBS_is_valid_asn1_bitstring :: "cbs \<Rightarrow> bool" where
  "CBS_is_valid_asn1_bitstring c =
     (case CBS_get_u8 c of
        (None, _) \<Rightarrow> False
      | (Some num_unused_bits, inp) \<Rightarrow>
          if 7 < num_unused_bits then False
          else if num_unused_bits = 0 then True
          else case CBS_get_last_u8 inp of
                 (None, _) \<Rightarrow> False
               | (Some last_byte, _) \<Rightarrow> last_byte AND (push_bit (unat num_unused_bits) 1 - 1) = 0)"

text \<open>\<open>bit\<close> is an \<open>unsigned\<close> of 32 bits; \<open>(bit >> 3) + 1\<close> does not wrap.\<close>

definition CBS_asn1_bitstring_has_bit :: "cbs \<Rightarrow> u32 \<Rightarrow> bool" where
  "CBS_asn1_bitstring_has_bit c n =
     (if \<not> CBS_is_valid_asn1_bitstring c then False
      else
        let byte_num = drop_bit 3 n + 1;
            bit_num = 7 - (n AND 7)
        in unat byte_num < CBS_len c \<and>
           CBS_data c ! unat byte_num AND push_bit (unat bit_num) 1 \<noteq> 0)"

function oid_loop :: "u8 \<Rightarrow> cbs \<Rightarrow> bool" where
  "oid_loop prev c =
     (case CBS_get_u8 c of
        (None, _) \<Rightarrow> prev AND 0x80 = 0
      | (Some v, c') \<Rightarrow> if prev AND 0x80 = 0 \<and> v = 0x80 then False else oid_loop v c')"
  by pat_completeness auto
termination
  by (relation "measure (\<lambda>(p, c). cbs_len c)")
    (auto simp: CBS_get_u8_def cbs_get_def bindC_def split: if_splits)

declare oid_loop.simps [simp del]

definition CBS_is_valid_asn1_oid :: "cbs \<Rightarrow> bool" where
  "CBS_is_valid_asn1_oid c = (if CBS_len c = 0 then False else oid_loop 0 c)"

subsection \<open>Two's complement\<close>

function der_int :: "int \<Rightarrow> u8 list" where
  "der_int z = (if -128 \<le> z \<and> z < 128 then [of_int z] else der_int (z div 256) @ [of_int (z mod 256)])"
  by pat_completeness auto
termination
proof (relation "measure (\<lambda>z. nat \<bar>z\<bar>)")
  fix z :: int
  assume "\<not> (-128 \<le> z \<and> z < 128)"
  then have "\<bar>z div 256\<bar> < \<bar>z\<bar>" by (cases "0 \<le> z") auto
  then show "(z div 256, z) \<in> measure (\<lambda>z. nat \<bar>z\<bar>)" by simp
qed simp

declare der_int.simps [simp del]

definition twos :: "u8 list \<Rightarrow> int" where
  "twos bs = (if 128 \<le> unat (hd bs) then int (be_nat bs) - 256 ^ length bs else int (be_nat bs))"

definition int_minimal :: "u8 list \<Rightarrow> bool" where
  "int_minimal bs \<longleftrightarrow> bs \<noteq> [] \<and> (1 < length bs \<longrightarrow>
     \<not> (unat (bs ! 0) = 0 \<and> unat (bs ! 1) < 128) \<and> \<not> (unat (bs ! 0) = 255 \<and> 128 \<le> unat (bs ! 1)))"

lemma byte_uint: "128 \<le> unat (b :: u8) \<longleftrightarrow> 128 \<le> uint b" "0 \<le> uint b" "uint b < 256"
proof -
  have u: "uint b = int (unat b)" by simp
  show "128 \<le> unat b \<longleftrightarrow> 128 \<le> uint b" "0 \<le> uint b" "uint b < 256"
    unfolding u using byte_lt [of b] by linarith+
qed

lemma twos_single: "twos [b] = (if 128 \<le> uint b then uint b - 256 else uint b)"
  by (simp add: twos_def byte_uint)

lemma twos_snoc: "bs \<noteq> [] \<Longrightarrow> twos (bs @ [b]) = twos bs * 256 + int (unat b)"
  by (simp add: twos_def algebra_simps)

lemma int_minimal_snoc:
  "bs \<noteq> [] \<Longrightarrow> 1 < length bs \<Longrightarrow> int_minimal (bs @ [b]) \<longleftrightarrow> int_minimal bs"
  by (auto simp: int_minimal_def nth_append)

lemma of_int_byte:
  assumes "0 \<le> z" and "z < 256"
  shows "uint (of_int z :: u8) = z" and "unat (of_int z :: u8) = nat z"
proof -
  show "uint (of_int z :: u8) = z" using assms by (simp add: unsigned_of_int take_bit_eq_mod)
  then show "unat (of_int z :: u8) = nat z" by (metis nat_uint_eq)
qed

lemma der_int_small: "-128 \<le> z \<Longrightarrow> z < 128 \<Longrightarrow> der_int z = [of_int z]"
  by (subst der_int.simps) simp

lemma der_int_step: "\<not> (-128 \<le> z \<and> z < 128) \<Longrightarrow> der_int z = der_int (z div 256) @ [of_int (z mod 256)]"
  by (subst der_int.simps) (simp only: if_False)

lemma der_int_ne [simp]: "der_int z \<noteq> []"
  by (subst der_int.simps) simp

lemma twos_der_int: "twos (der_int z) = z"
proof (induction z rule: der_int.induct)
  case (1 z)
  show ?case
  proof (cases "-128 \<le> z \<and> z < 128")
    case True
    show ?thesis
    proof (cases "0 \<le> z")
      case True
      with \<open>-128 \<le> z \<and> z < 128\<close> show ?thesis
        using of_int_byte [of z] by (subst der_int.simps) (simp add: twos_single)
    next
      case False
      have shift: "of_int (z + 256) = (of_int z :: u8)" by simp
      have "uint (of_int (z + 256) :: u8) = z + 256"
        by (rule of_int_byte(1)) (use False \<open>-128 \<le> z \<and> z < 128\<close> in simp_all)
      then have "uint (of_int z :: u8) = z + 256" unfolding shift .
      with False \<open>-128 \<le> z \<and> z < 128\<close> show ?thesis
        by (subst der_int.simps) (simp add: twos_single)
    qed
  next
    case False
    then show ?thesis
      using 1 of_int_byte [of "z mod 256"] by (simp add: der_int_step twos_snoc)
  qed
qed

lemma twos_small:
  "twos bs < 128 \<and> -128 \<le> twos bs \<Longrightarrow> int_minimal bs \<Longrightarrow> \<exists>b. bs = [b]"
proof -
  assume t: "twos bs < 128 \<and> -128 \<le> twos bs" and m: "int_minimal bs"
  show ?thesis
  proof (rule ccontr)
    assume n: "\<nexists>b. bs = [b]"
    then obtain a b cs where bs: "bs = a # b # cs"
      using m by (cases bs; cases "tl bs") (auto simp: int_minimal_def)
    define A B where "A = unat a" and "B = unat b"
    have AB: "A < 256" "B < 256" using byte_lt by (simp_all add: A_def B_def)
    let ?k = "256 ^ length cs :: int"
    have pos: "1 \<le> ?k" by simp
    have c: "int (be_nat cs) < ?k"
      using be_nat_less [of cs] by (metis of_nat_less_iff of_nat_numeral of_nat_power)
    have v: "int (be_nat bs) = int A * 256 * ?k + int B * ?k + int (be_nat cs)"
      unfolding A_def B_def by (simp add: bs be_nat_Cons algebra_simps)
    show False
    proof (cases "128 \<le> unat a")
      case False
      have "int (be_nat bs) < 128" using t False by (simp add: twos_def bs)
      moreover have "A \<noteq> 0 \<or> 128 \<le> B" using m by (auto simp: int_minimal_def bs A_def B_def)
      then have "128 \<le> int A * 256 + int B" by auto
      then have "128 * ?k \<le> (int A * 256 + int B) * ?k"
        by (rule mult_right_mono) simp
      ultimately show False using v pos by (simp add: algebra_simps)
    next
      case True
      have "int (be_nat bs) - 256 * 256 * ?k \<ge> -128" using t True by (simp add: twos_def bs)
      moreover have "A \<noteq> 255 \<or> B < 128" using m by (auto simp: int_minimal_def bs A_def B_def)
      then have "int A * 256 + int B \<le> 255 * 256 + 127" using AB by auto
      then have "(int A * 256 + int B) * ?k \<le> (255 * 256 + 127) * ?k"
        by (rule mult_right_mono) simp
      ultimately show False using v pos c by (simp add: algebra_simps)
    qed
  qed
qed

lemma der_int_twos: "int_minimal bs \<Longrightarrow> der_int (twos bs) = bs"
proof (induction bs rule: rev_induct)
  case Nil
  then show ?case by (simp add: int_minimal_def)
next
  case (snoc b bs)
  show ?case
  proof (cases bs)
    case Nil
    show ?thesis
    proof (cases "128 \<le> uint b")
      case True
      then have t: "twos [b] = uint b - 256" by (simp add: twos_single)
      have "der_int (uint b - 256) = [of_int (uint b - 256)]"
        by (rule der_int_small) (use True byte_uint(3) [of b] in linarith)+
      then show ?thesis using Nil t by simp
    next
      case False
      then have t: "twos [b] = uint b" by (simp add: twos_single)
      have "der_int (uint b) = [of_int (uint b)]"
        by (rule der_int_small) (use False byte_uint(2) [of b] in linarith)+
      then show ?thesis using Nil t by simp
    qed
  next
    case (Cons a cs)
    let ?z = "twos (bs @ [b])"
    have big: "\<not> (-128 \<le> ?z \<and> ?z < 128)"
      using twos_small [of "bs @ [b]"] snoc.prems Cons by auto
    have "int_minimal bs"
      using snoc.prems Cons int_minimal_snoc [of bs b]
      by (cases cs) (auto simp: int_minimal_def)
    with snoc.IH have IH: "der_int (twos bs) = bs" .
    have z: "?z = twos bs * 256 + int (unat b)" by (rule twos_snoc) (use Cons in simp)
    have "?z div 256 = twos bs" "?z mod 256 = int (unat b)"
    proof -
      have q: "(m * 256 + k) div 256 = m" "(m * 256 + k) mod 256 = k" if "0 \<le> k" "k < 256" for m k :: int
        using that by simp_all
      show "?z div 256 = twos bs" "?z mod 256 = int (unat b)"
        unfolding z by (rule q; use byte_lt [of b] in linarith)+
    qed
    then show ?thesis using IH by (simp add: der_int_step [OF big])
  qed
qed

lemma int_minimal_der_int: "int_minimal (der_int z)"
proof (induction z rule: der_int.induct)
  case (1 z)
  show ?case
  proof (cases "-128 \<le> z \<and> z < 128")
    case True
    then show ?thesis by (subst der_int.simps) (simp add: int_minimal_def)
  next
    case False
    let ?d = "der_int (z div 256)" and ?b = "of_int (z mod 256) :: u8"
    have d: "der_int z = ?d @ [?b]" by (subst der_int.simps) (simp only: False if_False)
    show ?thesis
    proof (cases "1 < length ?d")
      case True
      then show ?thesis unfolding d using 1 False int_minimal_snoc [of ?d ?b] by simp
    next
      case False
      then obtain a where a: "?d = [a]" by (cases ?d) auto
      have "twos [a] = z div 256" using twos_der_int [of "z div 256"] a by simp
      moreover have "z = z div 256 * 256 + z mod 256" by simp
      moreover have "unat ?b = nat (z mod 256)" by (rule of_int_byte) simp_all
      moreover have "uint a = int (unat a)" by simp
      ultimately have "\<not> (unat a = 0 \<and> unat ?b < 128)" "\<not> (unat a = 255 \<and> 128 \<le> unat ?b)"
        using \<open>\<not> (-128 \<le> z \<and> z < 128)\<close> unfolding twos_single
        by (simp_all only: split: if_splits) linarith+
      then show ?thesis unfolding d a by (simp add: int_minimal_def)
    qed
  qed
qed

text \<open>The range of an encoding of at most \<open>k\<close> bytes.\<close>

lemma length_der_int_le:
  "0 < k \<Longrightarrow> length (der_int z) \<le> k \<longleftrightarrow> - (128 * 256 ^ (k - 1)) \<le> z \<and> z < 128 * 256 ^ (k - 1)"
proof (induction z arbitrary: k rule: der_int.induct)
  case (1 z)
  show ?case
  proof (cases "-128 \<le> z \<and> z < 128")
    case True
    have "(1 :: int) \<le> 256 ^ (k - 1)" by simp
    with True have "- (128 * 256 ^ (k - 1)) \<le> z \<and> z < 128 * 256 ^ (k - 1)" by linarith
    with True "1.prems" show ?thesis by (subst der_int.simps) simp
  next
    case False
    then have len: "length (der_int z) = Suc (length (der_int (z div 256)))"
      by (subst der_int.simps) simp
    show ?thesis
    proof (cases "k = 1")
      case True
      with False show ?thesis by (simp add: len)
    next
      case k: False
      with "1.prems" obtain j where j: "k = Suc (Suc j)" by (metis One_nat_def gr0_conv_Suc not0_implies_Suc)
      have "length (der_int z) \<le> k \<longleftrightarrow> length (der_int (z div 256)) \<le> Suc j" by (simp add: len j)
      also have "\<dots> \<longleftrightarrow> - (128 * 256 ^ j) \<le> z div 256 \<and> z div 256 < 128 * 256 ^ j"
        using "1.IH" [OF False, of "Suc j"] by simp
      also have "\<dots> \<longleftrightarrow> - (128 * 256 ^ Suc j) \<le> z \<and> z < 128 * 256 ^ Suc j"
      proof -
        have "m \<le> z div 256 \<longleftrightarrow> m * 256 \<le> z" "z div 256 < m \<longleftrightarrow> z < m * 256" for m :: int
          by linarith+
        then show ?thesis by (simp add: mult.commute mult.left_commute)
      qed
      finally show ?thesis by (simp add: j)
    qed
  qed
qed

subsection \<open>The code against the specification\<close>

lemma CBS_is_valid_asn1_integer_eq:
  assumes "cbs_ok c"
  shows "CBS_is_valid_asn1_integer c =
    (if int_minimal (cbs_bytes c) then Some (128 \<le> unat (hd (cbs_bytes c))) else None)"
proof (cases "cbs_bytes c")
  case Nil
  with get_u8.reader_None [OF assms] obtain c' where "CBS_get_u8 c = (None, c')" by auto
  with Nil show ?thesis by (simp add: CBS_is_valid_asn1_integer_def int_minimal_def)
next
  case (Cons a bs)
  with get_u8.reader_Some [OF assms] obtain c1 where
    c1: "CBS_get_u8 c = (Some a, c1)" "cbs_ok c1" "cbs_bytes c1 = bs" by (auto simp: spans_def)
  show ?thesis
  proof (cases bs)
    case Nil
    with get_u8.reader_None [OF c1(2)] c1(3) obtain c' where "CBS_get_u8 c1 = (None, c')" by auto
    with Nil Cons c1 show ?thesis
      by (simp add: CBS_is_valid_asn1_integer_def int_minimal_def byte_high_bit)
  next
    case (Cons b cs)
    with get_u8.reader_Some [OF c1(2)] c1(3) obtain c2 where "CBS_get_u8 c1 = (Some b, c2)" by auto
    moreover have "a = 0xff \<longleftrightarrow> unat a = 255" "a = 0 \<longleftrightarrow> unat a = 0"
      by (simp_all add: word_unat_eq_iff)
    moreover have "b AND 0x80 = 0 \<longleftrightarrow> unat b < 128" using byte_high_bit [of b] by auto
    ultimately show ?thesis
      using Cons \<open>cbs_bytes c = a # bs\<close> c1
      by (simp add: CBS_is_valid_asn1_integer_def int_minimal_def byte_high_bit)
  qed
qed

lemma asn1_uint64_loop_eq:
  "asn1_uint64_loop v bs =
     (if unat v * 256 ^ length bs + be_nat bs < 2 ^ 64
      then Some (of_nat (unat v * 256 ^ length bs + be_nat bs)) else None)"
proof (induction bs arbitrary: v)
  case Nil
  then show ?case using unsigned_less [of v] by simp
next
  case (Cons b bs)
  show ?case
  proof (cases "drop_bit 56 v = 0")
    case False
    then have "2 ^ 56 \<le> unat v" by (simp add: drop_bit_0_iff)
    then have "2 ^ 56 * 256 ^ length (b # bs) \<le> unat v * 256 ^ length (b # bs)"
      by (rule mult_right_mono) simp
    moreover have "2 ^ 64 \<le> (2 ^ 56 * 256 ^ length (b # bs) :: nat)" by simp
    ultimately have "\<not> unat v * 256 ^ length (b # bs) + be_nat (b # bs) < 2 ^ 64" by linarith
    with False show ?thesis by simp
  next
    case True
    then have v: "unat v < 2 ^ 56" by (simp add: drop_bit_0_iff)
    have "unat (push_bit 8 v OR ucast b) = unat v * 256 + unat b"
      using unat_push_or [of "ucast b :: u64" 8 v] v byte_lt [of b] by simp
    then have "unat (push_bit 8 v OR ucast b) * 256 ^ length bs + be_nat bs =
        unat v * 256 ^ length (b # bs) + be_nat (b # bs)"
      by (simp add: be_nat_Cons algebra_simps)
    with True Cons show ?thesis by simp
  qed
qed

lemma twos_nonneg: "bs \<noteq> [] \<Longrightarrow> \<not> 128 \<le> unat (hd bs) \<Longrightarrow> twos bs = int (be_nat bs)"
  by (simp add: twos_def)

lemma twos_neg: "bs \<noteq> [] \<Longrightarrow> 128 \<le> unat (hd bs) \<Longrightarrow> twos bs < 0"
proof -
  assume "bs \<noteq> []" "128 \<le> unat (hd bs)"
  moreover have "int (be_nat bs) < 256 ^ length bs"
    using be_nat_less [of bs] by (metis of_nat_less_iff of_nat_numeral of_nat_power)
  ultimately show ?thesis by (simp add: twos_def)
qed

lemma twos_nonneg_iff: "bs \<noteq> [] \<Longrightarrow> 0 \<le> twos bs \<longleftrightarrow> \<not> 128 \<le> unat (hd bs)"
  using twos_neg [of bs] twos_nonneg [of bs] by (cases "128 \<le> unat (hd bs)") auto

text \<open>The readers on byte lists.\<close>

definition l_asn1_uint64 :: "(u8 list, nat) call" where
  "l_asn1_uint64 = bindC (l_asn1 CBS_ASN1_INTEGER) (\<lambda>bs.
     guardC (int_minimal bs \<and> 0 \<le> twos bs \<and> twos bs < 2 ^ 64) (retC (nat (twos bs))))"

lemma spansD: "spans c bs \<Longrightarrow> cbs_ok c \<and> cbs_bytes c = bs \<and> take (length bs) (CBS_data c) = bs \<and>
    CBS_len c = length bs"
  by (auto simp: spans_def CBS_len_def CBS_data_def cbs_bytes_def cbs_ok_def)

lemma advancing_l_asn1 [reader_intros]: "advancing (l_asn1 t)"
  unfolding l_asn1_def
  by (auto intro!: advancing_intros advancing_element split: prod.splits)

lemma CBS_get_asn1_uint64_reader [reader_intros]:
  "byte_reader CBS_get_asn1_uint64 (\<lambda>w n. unat w = n) l_asn1_uint64"
  unfolding CBS_get_asn1_uint64_def l_asn1_uint64_def
proof (rule bindC_reader' [OF CBS_get_asn1_reader], goal_cases)
  case (1 c bs)
  note s = spansD [OF this]
  have un: "CBS_is_unsigned_asn1_integer c \<longleftrightarrow> int_minimal bs \<and> 0 \<le> twos bs"
    using s CBS_is_valid_asn1_integer_eq [of c]
    by (auto simp: CBS_is_unsigned_asn1_integer_def int_minimal_def twos_nonneg_iff)
  show ?case
  proof (cases "int_minimal bs \<and> 0 \<le> twos bs")
    case True
    then have bs: "twos bs = int (be_nat bs)"
      by (metis int_minimal_def twos_nonneg twos_nonneg_iff)
    then have lt: "twos bs < 2 ^ 64 \<longleftrightarrow> be_nat bs < 2 ^ 64"
      by (metis of_nat_less_iff of_nat_numeral of_nat_power)
    show ?thesis
    proof (cases "be_nat bs < 2 ^ 64")
      case big: True
      then have "unat (of_nat (be_nat bs) :: u64) = be_nat bs" by (simp add: unat_of_nat)
      with True un s lt big bs show ?thesis
        by (simp add: asn1_uint64_loop_eq retC_reader)
    next
      case False
      with True un s lt show ?thesis by (simp add: asn1_uint64_loop_eq failC_reader)
    qed
  next
    case False
    with un have "\<not> CBS_is_unsigned_asn1_integer c"
      "\<not> (int_minimal bs \<and> 0 \<le> twos bs \<and> twos bs < 2 ^ 64)" by blast+
    then show ?thesis by (simp only: call_simps failC_reader)
  qed
qed (intro advancing_intros)

interpretation asn1_uint64: byte_reader CBS_get_asn1_uint64 "\<lambda>w n. unat w = n" l_asn1_uint64
  by (rule CBS_get_asn1_uint64_reader)

lemma integer_tag [simp]: "valid_tag CBS_ASN1_INTEGER" "valid_tag CBS_ASN1_BOOLEAN"
  "valid_tag CBS_ASN1_OCTETSTRING"
  by (simp_all add: valid_tag_def CBS_ASN1_INTEGER_def CBS_ASN1_BOOLEAN_def
      CBS_ASN1_OCTETSTRING_def CBS_ASN1_CONSTRUCTED_def)

definition der_integer :: "int \<Rightarrow> u8 list" where
  "der_integer z = der_header CBS_ASN1_INTEGER (length (der_int z)) @ der_int z"

lemma length_der_int_9: "- (2 ^ 64) \<le> z \<Longrightarrow> z < 2 ^ 64 \<Longrightarrow> length (der_int z) \<le> 9"
  by (subst length_der_int_le) simp_all

lemma l_integer_iff:
  assumes "length (der_int z) < 2 ^ 32"
  shows "(\<exists>bs. l_asn1 CBS_ASN1_INTEGER s = (Some bs, r) \<and> int_minimal bs \<and> twos bs = z) \<longleftrightarrow>
    s = der_integer z @ r"
proof -
  have "int_minimal bs \<and> twos bs = z \<longleftrightarrow> bs = der_int z" for bs
    using der_int_twos [of bs] twos_der_int [of z] int_minimal_der_int [of z] by auto
  then show ?thesis
    using assms by (auto simp: l_asn1_any l_any_asn1_iff der_integer_def)
qed

lemma l_asn1_uint64_iff:
  "l_asn1_uint64 s = (Some n, r) \<longleftrightarrow> n < 2 ^ 64 \<and> s = der_integer (int n) @ r"
proof -
  have "l_asn1_uint64 s = (Some n, r) \<longleftrightarrow>
      n < 2 ^ 64 \<and> (\<exists>bs. l_asn1 CBS_ASN1_INTEGER s = (Some bs, r) \<and> int_minimal bs \<and> twos bs = int n)"
  proof -
    have "int n < 2 ^ 64 \<longleftrightarrow> n < 2 ^ 64" by (metis of_nat_less_iff of_nat_numeral of_nat_power)
    then show ?thesis
      by (auto simp: l_asn1_uint64_def bindC_def guardC_def split: prod.splits option.splits if_splits)
  qed
  also have "\<dots> \<longleftrightarrow> n < 2 ^ 64 \<and> s = der_integer (int n) @ r"
  proof (cases "n < 2 ^ 64")
    case True
    then have "int n < 2 ^ 64" by (metis of_nat_less_iff of_nat_numeral of_nat_power)
    then have "length (der_int (int n)) < 2 ^ 32" using length_der_int_9 [of "int n"] by simp
    from l_integer_iff [OF this] show ?thesis by simp
  qed simp
  finally show ?thesis .
qed

subsection \<open>Byte swaps\<close>

text \<open>The three swaps move whole bytes: bit \<open>n\<close> of the result is bit \<open>n mod 8\<close> of the mirrored
  byte. The masks of the 32-bit swap are checked bit by bit.\<close>

lemma bswap_masks:
  "(0xff00ff00 :: u32) = push_bit 8 (mask 8) OR push_bit 24 (mask 8)"
  "(0x00ff00ff :: u32) = mask 8 OR push_bit 16 (mask 8)"
  by (simp_all add: mask_eq_exp_minus_1 push_bit_eq_mult)

lemma bit_bswap4:
  assumes "r < 8"
  shows "bit (CRYPTO_bswap4 x) r \<longleftrightarrow> bit x (24 + r)" "bit (CRYPTO_bswap4 x) (8 + r) \<longleftrightarrow> bit x (16 + r)"
    "bit (CRYPTO_bswap4 x) (16 + r) \<longleftrightarrow> bit x (8 + r)" "bit (CRYPTO_bswap4 x) (24 + r) \<longleftrightarrow> bit x r"
proof -
  have out: "\<not> bit x (32 + r)" "\<not> bit x (40 + r)" by (auto dest: bit_imp_le_length)
  show "bit (CRYPTO_bswap4 x) r \<longleftrightarrow> bit x (24 + r)" "bit (CRYPTO_bswap4 x) (8 + r) \<longleftrightarrow> bit x (16 + r)"
    "bit (CRYPTO_bswap4 x) (16 + r) \<longleftrightarrow> bit x (8 + r)" "bit (CRYPTO_bswap4 x) (24 + r) \<longleftrightarrow> bit x r"
    using assms out by (simp_all add: CRYPTO_bswap4_def Let_def bswap_masks bit_simps)
qed

lemma bit_bswap2:
  assumes "r < 8"
  shows "bit (CRYPTO_bswap2 x) r \<longleftrightarrow> bit x (8 + r)" "bit (CRYPTO_bswap2 x) (8 + r) \<longleftrightarrow> bit x r"
proof -
  have out: "\<not> bit x (16 + r)" by (auto dest: bit_imp_le_length)
  show "bit (CRYPTO_bswap2 x) r \<longleftrightarrow> bit x (8 + r)" "bit (CRYPTO_bswap2 x) (8 + r) \<longleftrightarrow> bit x r"
    using assms out by (simp_all add: CRYPTO_bswap2_def bit_simps)
qed

lemma bit_bswap8:
  assumes "r < 8" and "i < 8"
  shows "bit (CRYPTO_bswap8 x) (8 * i + r) \<longleftrightarrow> bit x (8 * (7 - i) + r)"
proof -
  have out: "\<not> bit (CRYPTO_bswap4 (ucast y)) (32 + r)" "\<not> bit (CRYPTO_bswap4 (ucast y)) (40 + r)"
    "\<not> bit (CRYPTO_bswap4 (ucast y)) (48 + r)" "\<not> bit (CRYPTO_bswap4 (ucast y)) (56 + r)" for y :: u64
    by (auto dest: bit_imp_le_length)
  have "i \<in> {0, 1, 2, 3, 4, 5, 6, 7}" using assms(2) by auto
  then show ?thesis
    using assms(1) out by (elim insertE) (simp_all add: CRYPTO_bswap8_def bit_bswap4 bit_simps)
qed

lemma bit_byte_split:
  assumes "r < 8"
  shows "bit (m * 256 + unat (b :: u8)) r \<longleftrightarrow> bit b r"
proof -
  have "take_bit 8 (m * 256 + unat b) = take_bit 8 (unat b)" by (simp add: take_bit_eq_mod)
  then have "bit (m * 256 + unat b) r \<longleftrightarrow> bit (unat b) r"
    using assms by (metis bit_take_bit_iff)
  then show ?thesis using assms by (simp add: bit_unsigned_iff)
qed

lemma bit_be_nat:
  "r < 8 \<Longrightarrow> bit (be_nat bs) (8 * i + r) \<longleftrightarrow> i < length bs \<and> bit (rev bs ! i) r"
proof (induction bs arbitrary: i rule: rev_induct)
  case (snoc b bs)
  show ?case
  proof (cases i)
    case 0
    then show ?thesis using bit_byte_split [OF snoc.prems] by simp
  next
    case (Suc j)
    have "(be_nat bs * 256 + unat b) div 2 ^ (8 * i + r) = be_nat bs div 2 ^ (8 * j + r)"
    proof -
      have "(2 :: nat) ^ (8 * i + r) = 256 * 2 ^ (8 * j + r)" by (simp add: Suc power_add)
      moreover have "(be_nat bs * 256 + unat b) div 256 = be_nat bs" using byte_lt [of b] by simp
      ultimately show ?thesis by (metis div_mult2_eq)
    qed
    then show ?thesis using snoc.IH [OF snoc.prems, of j] by (simp add: bit_iff_odd Suc)
  qed
qed simp

lemma bit_word_of_nat: "bit (of_nat n :: 'a :: len word) i \<longleftrightarrow> i < LENGTH('a) \<and> bit n i"
proof -
  have "bit (of_nat n :: 'a word) i \<longleftrightarrow> i < LENGTH('a) \<and> bit (unat (of_nat n :: 'a word)) i"
    by (simp add: bit_unsigned_iff) (auto dest: bit_imp_le_length)
  also have "unat (of_nat n :: 'a word) = take_bit LENGTH('a) n"
    by (simp add: unat_of_nat take_bit_eq_mod)
  finally show ?thesis by (auto simp: bit_take_bit_iff)
qed

text \<open>Reading in the machine's byte order and swapping is reading big-endian.\<close>

lemma bswap_correct:
  "length bs = 2 \<Longrightarrow> CRYPTO_bswap2 (of_nat (be_nat (rev bs))) = of_nat (be_nat bs)"
  "length bs = 4 \<Longrightarrow> CRYPTO_bswap4 (of_nat (be_nat (rev bs))) = of_nat (be_nat bs)"
  "length bs = 8 \<Longrightarrow> CRYPTO_bswap8 (of_nat (be_nat (rev bs))) = of_nat (be_nat bs)"
proof -
  have split: "\<exists>i r. n = 8 * i + r \<and> r < 8 \<and> i < k" if "n < 8 * k" for n k :: nat
    using that by (intro exI [of _ "n div 8"] exI [of _ "n mod 8"]) auto
  note b0 = bit_be_nat [of _ _ 0, simplified]
  note b1 = bit_be_nat [of _ _ 1, simplified]
  note b2 = bit_be_nat [of _ _ 2, simplified]
  note b3 = bit_be_nat [of _ _ 3, simplified]
  show "CRYPTO_bswap2 (of_nat (be_nat (rev bs))) = of_nat (be_nat bs)" if l: "length bs = 2"
  proof (rule bit_word_eqI)
    fix n assume "n < LENGTH(16)"
    then obtain i r where n: "n = 8 * i + r" "r < 8" "i < 2" using split [of n 2] by auto
    then have "i = 0 \<or> i = 1" by auto
    then show "bit (CRYPTO_bswap2 (of_nat (be_nat (rev bs)))) n \<longleftrightarrow> bit (of_nat (be_nat bs) :: u16) n"
      using n l by (auto simp: bit_bswap2 bit_word_of_nat b0 b1 rev_nth)
  qed
  show "CRYPTO_bswap4 (of_nat (be_nat (rev bs))) = of_nat (be_nat bs)" if l: "length bs = 4"
  proof (rule bit_word_eqI)
    fix n assume "n < LENGTH(32)"
    then obtain i r where n: "n = 8 * i + r" "r < 8" "i < 4" using split [of n 4] by auto
    then have "i = 0 \<or> i = 1 \<or> i = 2 \<or> i = 3" by auto
    then show "bit (CRYPTO_bswap4 (of_nat (be_nat (rev bs)))) n \<longleftrightarrow> bit (of_nat (be_nat bs) :: u32) n"
      using n l by (auto simp: bit_bswap4 bit_word_of_nat b0 b1 b2 b3 rev_nth)
  qed
  show "CRYPTO_bswap8 (of_nat (be_nat (rev bs))) = of_nat (be_nat bs)" if l: "length bs = 8"
  proof (rule bit_word_eqI)
    fix n assume "n < LENGTH(64)"
    then obtain i r where n: "n = 8 * i + r" "r < 8" "i < 8" using split [of n 8] by auto
    then have "8 * (7 - i) + r < 64" "8 * i + r < 64" "7 - i < 8" by auto
    with n l show "bit (CRYPTO_bswap8 (of_nat (be_nat (rev bs)))) n \<longleftrightarrow> bit (of_nat (be_nat bs) :: u64) n"
      by (simp add: bit_bswap8 bit_word_of_nat bit_be_nat rev_nth)
  qed
qed

subsection \<open>Signed integers\<close>

definition l_asn1_int64 :: "(u8 list, int) call" where
  "l_asn1_int64 = bindC (l_asn1 CBS_ASN1_INTEGER) (\<lambda>bs.
     guardC (int_minimal bs \<and> length bs \<le> 8) (retC (twos bs)))"

lemma be_nat_replicate_0: "be_nat (replicate k 0 @ bs) = be_nat bs"
  by (induction k) (simp_all add: be_nat_Cons)

lemma be_nat_replicate_ff:
  "be_nat (replicate k 0xff @ bs) + 256 ^ length bs = 256 ^ (k + length bs) + be_nat bs"
  by (induction k) (simp_all add: be_nat_Cons)

lemma sint_of_int_64:
  assumes "- (2 ^ 63) \<le> z" and "z < 2 ^ 63"
  shows "sint (of_int z :: u64) = z"
  using assms by (simp add: signed_of_int signed_take_bit_int_eq_self)

lemma twos_range:
  assumes "int_minimal bs" and "length bs \<le> 8"
  shows "- (2 ^ 63) \<le> twos bs" and "twos bs < 2 ^ 63"
  using length_der_int_le [of 8 "twos bs"] assms by (simp_all add: der_int_twos)

lemma load_sign_extended:
  assumes m: "int_minimal bs" and l: "length bs \<le> 8"
  shows "sint (CRYPTO_load_u64_be
    (replicate (8 - length bs) (if 128 \<le> unat (hd bs) then 0xff else 0) @ bs)) = twos bs"
proof -
  let ?e = "replicate (8 - length bs) (if 128 \<le> unat (hd bs) then 0xff else 0) @ bs"
  have "take 8 ?e = ?e" "length ?e = 8" using l by simp_all
  then have "CRYPTO_load_u64_be ?e = of_nat (be_nat ?e)"
    unfolding CRYPTO_load_u64_be_def load_u64_native_def by (simp only: bswap_correct(3))
  also have "\<dots> = of_int (twos bs)"
  proof (cases "128 \<le> unat (hd bs)")
    case False
    then show ?thesis by (simp add: twos_def be_nat_replicate_0)
  next
    case True
    have "be_nat ?e + 256 ^ length bs = 2 ^ 64 + be_nat bs"
      using True l be_nat_replicate_ff [of "8 - length bs" bs] by simp
    then have "of_nat (be_nat ?e + 256 ^ length bs) = (of_nat (2 ^ 64 + be_nat bs) :: u64)" by (rule arg_cong)
    moreover have "(of_nat (2 ^ 64) :: u64) = 0" by simp
    ultimately have "of_nat (be_nat ?e) + 256 ^ length bs = (of_nat (be_nat bs) :: u64)"
      by (simp only: of_nat_add of_nat_power of_nat_numeral) simp
    then have "of_nat (be_nat ?e) = of_nat (be_nat bs) - (256 ^ length bs :: u64)"
      by (simp add: eq_diff_eq)
    with True show ?thesis by (simp add: twos_def)
  qed
  finally show ?thesis using sint_of_int_64 twos_range [OF m l] by metis
qed

lemma CBS_get_asn1_int64_reader [reader_intros]:
  "byte_reader CBS_get_asn1_int64 (\<lambda>w z. sint w = z) l_asn1_int64"
  unfolding CBS_get_asn1_int64_def l_asn1_int64_def
proof (rule bindC_reader' [OF CBS_get_asn1_reader], goal_cases)
  case (1 c bs)
  note s = spansD [OF this]
  show ?case
  proof (cases "int_minimal bs \<and> length bs \<le> 8")
    case True
    with s CBS_is_valid_asn1_integer_eq [of c] load_sign_extended [of bs] show ?thesis
      by (auto simp: Let_def take_replicate intro!: retC_reader)
  next
    case False
    with s CBS_is_valid_asn1_integer_eq [of c] show ?thesis
      by (auto simp: Let_def intro!: failC_reader)
  qed
qed (intro advancing_intros)

interpretation asn1_int64: byte_reader CBS_get_asn1_int64 "\<lambda>w z. sint w = z" l_asn1_int64
  by (rule CBS_get_asn1_int64_reader)

lemma l_asn1_int64_iff:
  "l_asn1_int64 s = (Some z, r) \<longleftrightarrow> - (2 ^ 63) \<le> z \<and> z < 2 ^ 63 \<and> s = der_integer z @ r"
proof -
  have "l_asn1_int64 s = (Some z, r) \<longleftrightarrow>
      length (der_int z) \<le> 8 \<and> (\<exists>bs. l_asn1 CBS_ASN1_INTEGER s = (Some bs, r) \<and> int_minimal bs \<and> twos bs = z)"
    using der_int_twos
    by (auto simp: l_asn1_int64_def bindC_def guardC_def split: prod.splits option.splits if_splits)
  also have "\<dots> \<longleftrightarrow> length (der_int z) \<le> 8 \<and> s = der_integer z @ r"
    using l_integer_iff [of z s r] by auto
  finally show ?thesis by (simp add: length_der_int_le)
qed

subsection \<open>Decimal numbers\<close>

fun decimal :: "nat \<Rightarrow> u8 list" where
  "decimal n = (if n < 10 then [of_nat (48 + n)] else decimal (n div 10) @ [of_nat (48 + n mod 10)])"

declare decimal.simps [simp del]

fun l_dec :: "nat \<Rightarrow> bool \<Rightarrow> (u8 list, nat) call" where
  "l_dec v s [] = (if s then Some v else None, [])"
| "l_dec v s (b # bs) =
     (if \<not> OPENSSL_isdigit b then (if s then Some v else None, b # bs)
      else if v = 0 \<and> s \<or> 2 ^ 64 \<le> v * 10 + (unat b - 48) then (None, bs)
      else l_dec (v * 10 + (unat b - 48)) True bs)"

lemma isdigit_nat: "OPENSSL_isdigit b \<longleftrightarrow> 48 \<le> unat b \<and> unat b \<le> 57"
  by (simp add: OPENSSL_isdigit_def word_le_nat_alt)

lemma decimal_small: "n < 10 \<Longrightarrow> decimal n = [of_nat (48 + n)]"
  by (simp add: decimal.simps)

lemma decimal_step: "10 \<le> n \<Longrightarrow> decimal n = decimal (n div 10) @ [of_nat (48 + n mod 10)]"
  by (subst decimal.simps) simp

lemma unat_digit: "n < 10 \<Longrightarrow> unat (of_nat (48 + n) :: u8) = 48 + n"
  by (subst unat_of_nat) simp

lemma digit_char: "48 \<le> unat (b :: u8) \<Longrightarrow> unat b \<le> 57 \<Longrightarrow> of_nat (48 + (unat b - 48)) = b"
  by simp

lemma decimal_snoc:
  assumes "OPENSSL_isdigit b" and "v \<noteq> 0"
  shows "decimal (v * 10 + (unat b - 48)) = decimal v @ [b]"
proof -
  let ?d = "unat b - 48"
  have "48 \<le> unat b" "unat b \<le> 57" using assms(1) by (simp_all add: isdigit_nat)
  then have d: "?d < 10" "of_nat (48 + ?d) = b" by (linarith, rule digit_char)
  then have "(v * 10 + ?d) div 10 = v" "(v * 10 + ?d) mod 10 = ?d" by simp_all
  with d assms(2) show ?thesis by (subst decimal_step) (auto simp del: of_nat_add)
qed

lemma l_dec_SomeD:
  assumes "l_dec v s bs = (Some n, r)" and "\<not> s \<Longrightarrow> v = 0" and "v < 2 ^ 64"
  shows "n < 2 ^ 64 \<and> (r = [] \<or> \<not> OPENSSL_isdigit (hd r)) \<and>
    (\<exists>ds. bs = ds @ r \<and> decimal n = (if s then decimal v else []) @ ds)"
  using assms
proof (induction v s bs rule: l_dec.induct)
  case (1 v s)
  then show ?case by (auto split: if_splits)
next
  case (2 v s b bs)
  show ?case
  proof (cases "OPENSSL_isdigit b")
    case False
    with 2 show ?thesis by (auto split: if_splits)
  next
    case True
    let ?v = "v * 10 + (unat b - 48)"
    from True 2(2) have g: "\<not> (v = 0 \<and> s \<or> 2 ^ 64 \<le> ?v)" and rec: "l_dec ?v True bs = (Some n, r)"
      by (auto split: if_splits)
    from g have lt: "?v < 2 ^ 64" by linarith
    have nn: "\<not> \<not> OPENSSL_isdigit b" using True by simp
    from 2(1) [OF nn g rec _ lt] obtain ds where
      ds: "n < 2 ^ 64" "r = [] \<or> \<not> OPENSSL_isdigit (hd r)" "bs = ds @ r" "decimal n = decimal ?v @ ds"
      by auto
    have "decimal ?v = (if s then decimal v else []) @ [b]"
    proof (cases s)
      case s: True
      with g have "v \<noteq> 0" by auto
      with s True show ?thesis by (simp add: decimal_snoc)
    next
      case False
      with 2(3) have v: "?v = unat b - 48" by simp
      have "unat b - 48 < 10" using True [unfolded isdigit_nat] by linarith
      then show ?thesis using False True unfolding v
        by (simp only: decimal_small digit_char isdigit_nat) simp
    qed
    with ds show ?thesis by auto
  qed
qed

lemma l_dec_decimal:
  "n < 2 ^ 64 \<Longrightarrow> l_dec 0 False (decimal n @ t) = l_dec n True t"
proof (induction n arbitrary: t rule: decimal.induct)
  case (1 n)
  show ?case
  proof (cases "n < 10")
    case True
    have "unat (of_nat (48 + n) :: u8) = 48 + n" by (rule unat_digit [OF True])
    with True "1.prems" show ?thesis
      by (simp add: decimal_small isdigit_nat del: of_nat_add)
  next
    case False
    let ?c = "of_nat (48 + n mod 10) :: u8"
    have c: "unat ?c = 48 + n mod 10" by (rule unat_digit) simp
    have "l_dec 0 False (decimal n @ t) = l_dec (n div 10) True (?c # t)"
      using "1.IH" [OF False, of "?c # t"] "1.prems" False by (simp add: decimal_step)
    moreover have "n div 10 * 10 + (unat ?c - 48) = n" using c by simp
    moreover have "n div 10 \<noteq> 0" using False by simp
    moreover have "OPENSSL_isdigit ?c" unfolding isdigit_nat c by simp
    ultimately show ?thesis using "1.prems" by (simp del: of_nat_add)
  qed
qed

lemma l_dec_iff:
  "l_dec 0 False bs = (Some n, r) \<longleftrightarrow>
     n < 2 ^ 64 \<and> (r = [] \<or> \<not> OPENSSL_isdigit (hd r)) \<and> bs = decimal n @ r"
proof
  assume "l_dec 0 False bs = (Some n, r)"
  from l_dec_SomeD [OF this] show
    "n < 2 ^ 64 \<and> (r = [] \<or> \<not> OPENSSL_isdigit (hd r)) \<and> bs = decimal n @ r" by auto
next
  assume r: "n < 2 ^ 64 \<and> (r = [] \<or> \<not> OPENSSL_isdigit (hd r)) \<and> bs = decimal n @ r"
  then have "l_dec n True r = (Some n, r)" by (cases r) auto
  with r show "l_dec 0 False bs = (Some n, r)" by (simp add: l_dec_decimal)
qed

lemma decimal_guard:
  assumes "48 \<le> unat b" and "unat b \<le> 57"
  shows "(UINT64_MAX div 10 < v \<or> UINT64_MAX - (ucast (b :: u8) - 0x30) < v * 10) \<longleftrightarrow>
    2 ^ 64 \<le> unat v * 10 + (unat b - 48)"
    "\<not> 2 ^ 64 \<le> unat v * 10 + (unat b - 48) \<Longrightarrow>
     unat (v * 10 + (ucast b - 0x30)) = unat v * 10 + (unat b - 48)"
proof -
  let ?d = "ucast b - 0x30 :: u64"
  have d: "unat ?d = unat b - 48" using assms by (subst unat_sub) (simp_all add: word_le_nat_alt)
  have M: "unat UINT64_MAX = 2 ^ 64 - 1" by (simp add: UINT64_MAX_def)
  have Md: "unat (UINT64_MAX - ?d) = 2 ^ 64 - 1 - (unat b - 48)"
    using assms d M by (subst unat_sub) (simp_all add: word_le_nat_alt)
  have q: "unat (UINT64_MAX div 10) = (2 ^ 64 - 1) div 10"
    by (simp add: unat_div UINT64_MAX_def)
  show "(UINT64_MAX div 10 < v \<or> UINT64_MAX - ?d < v * 10) \<longleftrightarrow>
    2 ^ 64 \<le> unat v * 10 + (unat b - 48)"
  proof (cases "UINT64_MAX div 10 < v")
    case True
    then have "(2 ^ 64 - 1) div 10 < unat v" unfolding word_less_nat_alt q .
    with True show ?thesis by simp
  next
    case False
    then have "unat v \<le> (2 ^ 64 - 1) div 10" unfolding word_less_nat_alt q by simp
    then have m: "unat (v * 10) = unat v * 10" by (simp add: unat_word_ariths)
    have "UINT64_MAX - ?d < v * 10 \<longleftrightarrow> 2 ^ 64 - 1 - (unat b - 48) < unat v * 10"
      unfolding word_less_nat_alt Md m ..
    with False assms show ?thesis by auto
  qed
  show "unat (v * 10 + ?d) = unat v * 10 + (unat b - 48)"
    if "\<not> 2 ^ 64 \<le> unat v * 10 + (unat b - 48)"
    using that d by (simp add: unat_word_ariths)
qed

lemma decimal_loop_reads:
  "cbs_ok c \<Longrightarrow> unat v = n \<Longrightarrow>
     cbs_ok (snd (decimal_loop v s c)) \<and>
     cbs_bytes (snd (decimal_loop v s c)) = snd (l_dec n s (cbs_bytes c)) \<and>
     rel_option (\<lambda>w n. unat w = n) (fst (decimal_loop v s c)) (fst (l_dec n s (cbs_bytes c)))"
proof (induction v s c arbitrary: n rule: decimal_loop.induct)
  case (1 v s c)
  show ?case
  proof (cases "cbs_bytes c")
    case Nil
    then have "CBS_len c = 0" using length_cbs_bytes [OF "1.prems"(1)] by (simp add: CBS_len_def)
    with Nil "1.prems" show ?thesis by (subst (1 2 3) decimal_loop.simps) simp
  next
    case (Cons b bs)
    have len: "CBS_len c \<noteq> 0" and hd: "CBS_data c ! 0 = b"
      using length_cbs_bytes [OF "1.prems"(1)] cbs_bytes_nth [OF "1.prems"(1), of 0] Cons
      by (auto simp: CBS_len_def CBS_data_def)
    obtain c' where c': "CBS_skip 1 c = (Some (), c')" "cbs_ok c'" "cbs_bytes c' = bs"
      using skip.reader_Some [OF "1.prems"(1), of 1] Cons by (auto simp: bindC_def spans_def)
    show ?thesis
    proof (cases "OPENSSL_isdigit b")
      case False
      with len hd Cons "1.prems" show ?thesis by (subst (1 2 3) decimal_loop.simps) simp
    next
      case True
      let ?d = "ucast b - 0x30 :: u64"
      note g = decimal_guard [OF True [unfolded isdigit_nat, THEN conjunct1]
          True [unfolded isdigit_nat, THEN conjunct2], of v]
      have z: "v = 0 \<longleftrightarrow> n = 0" using "1.prems"(2) by (auto simp: unat_eq_zero)
      show ?thesis
      proof (cases "v = 0 \<and> s \<or> UINT64_MAX div 10 < v \<or> UINT64_MAX - ?d < v * 10")
        case bad: True
        with g(1) z "1.prems"(2) have "n = 0 \<and> s \<or> 2 ^ 64 \<le> n * 10 + (unat b - 48)" by auto
        then have "snd (l_dec n s (b # bs)) = bs" "fst (l_dec n s (b # bs)) = None"
          using True by auto
        with bad len hd True Cons c' show ?thesis
          by (subst (1 2 3) decimal_loop.simps) (simp add: Let_def del: l_dec.simps)
      next
        case good: False
        with g(1) z "1.prems"(2) have ng: "\<not> (n = 0 \<and> s \<or> 2 ^ 64 \<le> n * 10 + (unat b - 48))" by auto
        then have L: "l_dec n s (cbs_bytes c) = l_dec (n * 10 + (unat b - 48)) True bs"
          by (simp only: Cons l_dec.simps True if_False not_True_eq_False)
        have v: "unat (v * 10 + ?d) = n * 10 + (unat b - 48)"
          using g(2) ng "1.prems"(2) by auto
        have E: "decimal_loop v s c = decimal_loop (v * 10 + ?d) True c'"
          using good len hd True c' by (subst decimal_loop.simps) (auto simp: Let_def)
        have "\<not> (CBS_len c = 0 \<or> \<not> OPENSSL_isdigit (CBS_data c ! 0))" using len hd True by simp
        note IH = "1.IH" [OF this refl refl refl, unfolded hd c'(1) snd_conv, OF good c'(2) v]
        show ?thesis using IH unfolding E L c'(3) .
      qed
    qed
  qed
qed

lemma l_dec_advancing: "\<exists>k. snd (l_dec v s bs) = drop k bs"
proof (induction v s bs rule: l_dec.induct)
  case (2 v s b bs)
  consider "\<not> OPENSSL_isdigit b" | "OPENSSL_isdigit b" "v = 0 \<and> s \<or> 2 ^ 64 \<le> v * 10 + (unat b - 48)"
    | "OPENSSL_isdigit b" "\<not> (v = 0 \<and> s \<or> 2 ^ 64 \<le> v * 10 + (unat b - 48))" by blast
  then show ?case
  proof cases
    case 1
    then show ?thesis by (auto intro: exI [of _ 0])
  next
    case c: 2
    then show ?thesis by (auto intro: exI [of _ 1])
  next
    case 3
    with 2 obtain k where "snd (l_dec (v * 10 + (unat b - 48)) True bs) = drop k bs" by blast
    moreover have "l_dec v s (b # bs) = l_dec (v * 10 + (unat b - 48)) True bs"
      by (simp only: l_dec.simps 3 if_False not_True_eq_False)
    ultimately have "snd (l_dec v s (b # bs)) = drop (Suc k) (b # bs)" by (simp del: l_dec.simps)
    then show ?thesis by blast
  qed
qed auto

lemma CBS_get_u64_decimal_reader [reader_intros]:
  "byte_reader CBS_get_u64_decimal (\<lambda>w n. unat w = n) (l_dec 0 False)"
  unfolding CBS_get_u64_decimal_def
  by (rule byte_reader.intro) (simp_all add: decimal_loop_reads l_dec_advancing)

interpretation u64_decimal: byte_reader CBS_get_u64_decimal "\<lambda>w n. unat w = n" "l_dec 0 False"
  by (rule CBS_get_u64_decimal_reader)

subsection \<open>Optional fields, booleans and bit strings\<close>

lemma CBS_peek_asn1_tag_eq:
  "cbs_ok c \<Longrightarrow> CBS_peek_asn1_tag c tag \<longleftrightarrow> fst (l_tag (cbs_bytes c)) = Some tag"
  using asn1_tag.reads [of c] by (simp add: CBS_peek_asn1_tag_def) (metis option.rel_eq)

definition l_optional :: "u32 \<Rightarrow> (u8 list, u8 list option) call" where
  "l_optional tag bs =
     (if fst (l_tag bs) = Some tag then bindC (l_asn1 tag) (\<lambda>b. retC (Some b)) bs
      else (Some None, bs))"

lemma CBS_get_optional_asn1_reader [reader_intros]:
  "byte_reader (CBS_get_optional_asn1 tag) (rel_option spans) (l_optional tag)"
proof (rule byte_reader.intro)
  fix c assume ok: "cbs_ok c"
  have R: "byte_reader (bindC (CBS_get_asn1 tag) (\<lambda>out. retC (Some out))) (rel_option spans)
      (bindC (l_asn1 tag) (\<lambda>b. retC (Some b)))"
    by (rule bindC_reader' [OF CBS_get_asn1_reader]) (auto intro!: retC_reader advancing_intros)
  show "cbs_ok (snd (CBS_get_optional_asn1 tag c)) \<and>
      cbs_bytes (snd (CBS_get_optional_asn1 tag c)) = snd (l_optional tag (cbs_bytes c)) \<and>
      rel_option (rel_option spans) (fst (CBS_get_optional_asn1 tag c)) (fst (l_optional tag (cbs_bytes c)))"
    using byte_reader.reads [OF R ok] ok
    by (simp add: CBS_get_optional_asn1_def l_optional_def CBS_peek_asn1_tag_eq)
next
  fix bs
  have "advancing (bindC (l_asn1 tag) (\<lambda>b. retC (Some b)))"
    by (intro advancing_intros advancing_l_asn1)
  then show "\<exists>n. snd (l_optional tag bs) = drop n bs"
    by (auto simp: l_optional_def advancing_def intro: exI [of _ 0])
qed

interpretation optional_asn1: byte_reader "CBS_get_optional_asn1 tag" "rel_option spans" "l_optional tag" for tag
  by (rule CBS_get_optional_asn1_reader)

text \<open>A BIT STRING body is a count of unused bits and the bits themselves, first bit highest;
  the unused ones must be zero.\<close>

definition bits_of :: "u8 list \<Rightarrow> bool list" where
  "bits_of bs = concat (map (\<lambda>b. map (\<lambda>i. bit b (7 - i)) [0..<8]) bs)"

definition bitstring_ok :: "u8 list \<Rightarrow> bool" where
  "bitstring_ok s \<longleftrightarrow> (\<exists>u bs. s = u # bs \<and> unat u \<le> 7 \<and> (unat u = 0 \<or>
     bs \<noteq> [] \<and> (\<forall>i < unat u. \<not> bit (last bs) i)))"

lemma length_bits_of [simp]: "length (bits_of bs) = 8 * length bs"
  by (induction bs) (auto simp: bits_of_def)

lemma nth_bits_of:
  "i < 8 * length bs \<Longrightarrow> bits_of bs ! i = bit (bs ! (i div 8)) (7 - i mod 8)"
proof (induction bs arbitrary: i)
  case (Cons b bs)
  have step: "bits_of (b # bs) = map (\<lambda>i. bit b (7 - i)) [0..<8] @ bits_of bs"
    by (simp add: bits_of_def)
  show ?case
  proof (cases "i < 8")
    case True
    then show ?thesis unfolding step by (simp add: nth_append)
  next
    case False
    then have "bits_of (b # bs) ! i = bits_of bs ! (i - 8)"
      unfolding step by (simp add: nth_append)
    also have "\<dots> = bit (bs ! ((i - 8) div 8)) (7 - (i - 8) mod 8)"
      using False Cons.prems by (intro Cons.IH) simp
    finally show ?thesis using False by (simp add: le_mod_geq le_div_geq)
  qed
qed (simp add: bits_of_def)

lemma low_bits_zero:
  fixes b :: u8
  assumes "k \<le> 7"
  shows "b AND (2 ^ k - 1) = 0 \<longleftrightarrow> (\<forall>i < k. \<not> bit b i)"
proof -
  have lt: "i < 8" if "i < k" for i using that assms by simp
  have "2 ^ k - 1 = (mask k :: u8)" by (simp add: mask_eq_exp_minus_1)
  moreover have "b AND mask k = 0 \<longleftrightarrow> (\<forall>i < k. \<not> bit b i)"
    by (simp add: bit_eq_iff bit_simps) (use lt in blast)
  ultimately show ?thesis by simp
qed

lemma CBS_get_last_u8_eq:
  assumes "cbs_ok c"
  shows "fst (CBS_get_last_u8 c) = (if cbs_bytes c = [] then None else Some (last (cbs_bytes c)))"
proof (cases "cbs_len c = 0")
  case True
  then show ?thesis by (simp add: CBS_get_last_u8_def cbs_bytes_def)
next
  case False
  then have "cbs_bytes c \<noteq> []" using length_cbs_bytes [OF assms] by auto
  then have "last (cbs_bytes c) = cbs_bytes c ! (cbs_len c - 1)"
    using assms by (simp add: last_conv_nth)
  with False assms \<open>cbs_bytes c \<noteq> []\<close> show ?thesis by (simp add: CBS_get_last_u8_def)
qed

lemma CBS_is_valid_asn1_bitstring_eq:
  assumes "cbs_ok c"
  shows "CBS_is_valid_asn1_bitstring c \<longleftrightarrow> bitstring_ok (cbs_bytes c)"
proof (cases "cbs_bytes c")
  case Nil
  with get_u8.reader_None [OF assms] obtain c' where "CBS_get_u8 c = (None, c')" by auto
  with Nil show ?thesis by (simp add: CBS_is_valid_asn1_bitstring_def bitstring_ok_def)
next
  case (Cons u bs)
  with get_u8.reader_Some [OF assms] obtain c1 where
    c1: "CBS_get_u8 c = (Some u, c1)" "cbs_ok c1" "cbs_bytes c1 = bs" by (auto simp: spans_def)
  have u: "7 < u \<longleftrightarrow> \<not> unat u \<le> 7" "u = 0 \<longleftrightarrow> unat u = 0"
    by (auto simp: word_less_nat_alt unat_eq_zero)
  show ?thesis
  proof (cases "unat u \<le> 7 \<and> unat u \<noteq> 0")
    case True
    obtain q d where q: "CBS_get_last_u8 c1 = (q, d)" by (cases "CBS_get_last_u8 c1")
    then have "q = (if bs = [] then None else Some (last bs))"
      using CBS_get_last_u8_eq [OF c1(2)] c1(3) by simp
    with True q Cons c1 show ?thesis
      by (auto simp: CBS_is_valid_asn1_bitstring_def bitstring_ok_def u low_bits_zero)
  next
    case False
    with Cons c1 show ?thesis
      by (auto simp: CBS_is_valid_asn1_bitstring_def bitstring_ok_def u)
  qed
qed

lemma bit_test: "(b :: u8) AND push_bit k 1 \<noteq> 0 \<longleftrightarrow> bit b k"
  using and_exp_eq_0_iff_not_bit [of b k] by (simp add: push_bit_eq_mult)

lemma has_bit_index:
  fixes n :: u32
  shows "unat (drop_bit 3 n + 1) = unat n div 8 + 1" and "unat (7 - (n AND 7)) = 7 - unat n mod 8"
proof -
  have "unat (drop_bit 3 n) = unat n div 8" using unat_drop_bit [of 3 n] by simp
  moreover have "unat n < 2 ^ 32" using unsigned_less [of n] by simp
  then have "unat n div 8 < 2 ^ 29" by (simp add: div_less_iff_less_mult)
  then have "unat n div 8 + 1 < 2 ^ 32" by simp
  ultimately show "unat (drop_bit 3 n + 1) = unat n div 8 + 1" by (simp add: unat_word_ariths)
  have m: "unat (n AND 7) = unat n mod 8"
    using unat_and_mask [of n 3] by (simp add: mask_eq_exp_minus_1)
  have "unat n mod 8 < 8" by simp
  then have "unat (7 - (n AND 7)) = unat (7 :: u32) - unat (n AND 7)"
    using m by (intro unat_sub) (simp add: word_le_nat_alt)
  then show "unat (7 - (n AND 7)) = 7 - unat n mod 8" using m by simp
qed

lemma unused_bit_clear:
  assumes "bitstring_ok (u # bs)" and "i < 8 * length bs" and "bits_of bs ! i"
  shows "i < 8 * length bs - unat u"
proof (rule ccontr)
  assume ge: "\<not> i < 8 * length bs - unat u"
  with assms(2) have ne: "bs \<noteq> []" and u: "unat u \<noteq> 0" by auto
  from u assms(1) have ok: "unat u \<le> 7" "\<forall>j < unat u. \<not> bit (last bs) j"
    by (auto simp: bitstring_ok_def)
  have q: "i div 8 = length bs - 1"
    using ge ok(1) assms(2) ne u by (cases bs; simp; linarith)
  then have "i = 8 * (length bs - 1) + i mod 8" by (metis mult_div_mod_eq)
  moreover have "0 < length bs" "i mod 8 < 8" using ne by simp_all
  ultimately have r: "7 - i mod 8 < unat u" using ge u by linarith
  have "bit (last bs) (7 - i mod 8)"
    using assms(2,3) q ne by (simp add: nth_bits_of last_conv_nth)
  with ok(2) r show False by blast
qed

lemma has_bit_eq:
  assumes "cbs_ok c" and "cbs_bytes c = u # bs"
  shows "CBS_asn1_bitstring_has_bit c n \<longleftrightarrow>
    bitstring_ok (u # bs) \<and> unat n < 8 * length bs - unat u \<and> bits_of bs ! unat n"
proof -
  have len: "CBS_len c = Suc (length bs)"
    using length_cbs_bytes [OF assms(1)] assms(2) by (simp add: CBS_len_def)
  have byte: "CBS_data c ! (unat n div 8 + 1) = bs ! (unat n div 8)" if "unat n div 8 < length bs"
    using cbs_bytes_nth [OF assms(1), of "unat n div 8 + 1"] that len assms(2)
    by (simp add: CBS_data_def CBS_len_def)
  have "CBS_asn1_bitstring_has_bit c n \<longleftrightarrow>
      bitstring_ok (u # bs) \<and> unat n div 8 < length bs \<and> bit (bs ! (unat n div 8)) (7 - unat n mod 8)"
    unfolding CBS_asn1_bitstring_has_bit_def CBS_is_valid_asn1_bitstring_eq [OF assms(1)] assms(2)
      Let_def has_bit_index len bit_test
    using byte by auto
  also have "\<dots> \<longleftrightarrow> bitstring_ok (u # bs) \<and> unat n < 8 * length bs \<and> bits_of bs ! unat n"
    using nth_bits_of [of "unat n" bs] by (auto simp: div_less_iff_less_mult mult.commute)
  also have "\<dots> \<longleftrightarrow> bitstring_ok (u # bs) \<and> unat n < 8 * length bs - unat u \<and> bits_of bs ! unat n"
    using unused_bit_clear by auto
  finally show ?thesis .
qed

subsection \<open>Object identifiers\<close>

fun l_oid :: "u8 \<Rightarrow> u8 list \<Rightarrow> bool" where
  "l_oid p [] \<longleftrightarrow> unat p < 128"
| "l_oid p (b # bs) \<longleftrightarrow> \<not> (unat p < 128 \<and> b = 0x80) \<and> l_oid b bs"

lemma oid_loop_eq: "cbs_ok c \<Longrightarrow> oid_loop p c \<longleftrightarrow> l_oid p (cbs_bytes c)"
proof (induction p c rule: oid_loop.induct)
  case (1 p c)
  have hb: "p AND 0x80 = 0 \<longleftrightarrow> unat p < 128" using byte_high_bit [of p] by auto
  show ?case
  proof (cases "cbs_bytes c")
    case Nil
    with get_u8.reader_None [OF "1.prems"] obtain c' where "CBS_get_u8 c = (None, c')" by auto
    with Nil hb show ?thesis by (subst oid_loop.simps) simp
  next
    case (Cons b bs)
    with get_u8.reader_Some [OF "1.prems"] obtain c' where
      c': "CBS_get_u8 c = (Some b, c')" "cbs_ok c'" "cbs_bytes c' = bs" by (auto simp: spans_def)
    with Cons hb "1.IH" [OF c'(1) [symmetric] refl _ c'(2)] show ?thesis
      by (subst oid_loop.simps) auto
  qed
qed

lemma l_oid_components:
  "l_oid p bs \<Longrightarrow> unat p < 128 \<Longrightarrow> \<exists>ns. bs = concat (map b128 ns)"
  "l_oid p bs \<Longrightarrow> \<not> unat p < 128 \<Longrightarrow>
     \<forall>k > 0. \<exists>n ns ds. bs = ds @ concat (map b128 ns) \<and> b128 n = b128_cont k @ ds"
proof (induction bs arbitrary: p)
  case Nil
  {
    case 1
    show ?case by (rule exI [of _ "[]"]) simp
  next
    case 2
    then show ?case by simp
  }
next
  case (Cons b bs)
  have low: "\<exists>n ns ds. b # bs = ds @ concat (map b128 ns) \<and> b128 n = b128_cont k @ ds"
    if h: "l_oid b bs" "unat b < 128" for k
  proof -
    obtain ns where "bs = concat (map b128 ns)" using Cons.IH(1) h by blast
    moreover have "b128 (k * 128 + unat b) = b128_cont k @ [b]" using h(2) by (simp add: b128_def)
    ultimately show ?thesis by (metis append_Cons append_Nil)
  qed
  have high: "\<exists>n ns ds. b # bs = ds @ concat (map b128 ns) \<and> b128 n = b128_cont k @ ds"
    if h: "l_oid b bs" "\<not> unat b < 128" "\<not> (k = 0 \<and> b = 0x80)" for k
  proof -
    have e: "b128_cont (k * 128 + unat b mod 128) = b128_cont k @ [b]"
      using h by (intro b128_cont_octet) auto
    have "k * 128 + unat b mod 128 \<noteq> 0"
    proof
      assume "k * 128 + unat b mod 128 = 0"
      with e show False by simp
    qed
    then have "0 < k * 128 + unat b mod 128" by (simp only: neq0_conv)
    with Cons.IH(2) [OF h(1,2)] obtain n ns ds where "bs = ds @ concat (map b128 ns)"
      "b128 n = b128_cont (k * 128 + unat b mod 128) @ ds"
      by (elim allE [of _ "k * 128 + unat b mod 128"] impE exE conjE)
    with e have "b # bs = (b # ds) @ concat (map b128 ns) \<and> b128 n = b128_cont k @ b # ds" by simp
    then show ?thesis by blast
  qed
  {
    case 1
    then have "l_oid b bs" "\<not> ((0 :: nat) = 0 \<and> b = 0x80)" by auto
    with low [of 0] high [of 0] obtain n ns ds where
      "b # bs = ds @ concat (map b128 ns)" "b128 n = ds" by (cases "unat b < 128") auto
    then have "b # bs = concat (map b128 (n # ns))" by simp
    then show ?case by blast
  next
    case 2
    show ?case
    proof (intro allI impI)
      fix k :: nat
      assume "0 < k"
      with 2 low [of k] high [of k] show
        "\<exists>n ns ds. b # bs = ds @ concat (map b128 ns) \<and> b128 n = b128_cont k @ ds"
        by (cases "unat b < 128") auto
    qed
  }
qed

lemma l_oid_cont:
  "0 < n \<Longrightarrow> unat p < 128 \<Longrightarrow> l_oid p (b128_cont n @ b # t) \<longleftrightarrow> l_oid b t"
proof (induction n arbitrary: b t rule: b128_cont.induct)
  case (1 n)
  let ?c = "of_nat (n mod 128) OR 0x80 :: u8"
  have c: "unat ?c = n mod 128 + 128" by (simp add: of_nat_or_80)
  then have skip: "l_oid ?c (b # t) \<longleftrightarrow> l_oid b t" by simp
  show ?case
  proof (cases "n div 128 = 0")
    case True
    then have "n mod 128 \<noteq> 0" using "1.prems" by (metis div_mult_mod_eq add_0 mult_0 not_gr0)
    with c have "?c \<noteq> 0x80" by auto
    with True skip "1.prems" show ?thesis by (simp add: b128_cont_step)
  next
    case False
    with "1.IH" [of ?c "b # t"] "1.prems" skip show ?thesis by (simp add: b128_cont_step)
  qed
qed

lemma l_oid_b128: "unat p < 128 \<Longrightarrow> l_oid p (b128 n @ t) \<longleftrightarrow> l_oid (of_nat (n mod 128)) t"
proof (cases "n div 128 = 0")
  case True
  assume "unat p < 128"
  have "unat (of_nat (n mod 128) :: u8) = n mod 128" by (rule unat_of_nat_u8) (simp add: less_le_trans [of _ 128])
  then have "(of_nat (n mod 128) :: u8) \<noteq> 0x80" using mod_less_divisor [of 128 n] by fastforce
  with True show ?thesis by (simp add: b128_def)
next
  case False
  assume "unat p < 128"
  with False l_oid_cont [of "n div 128" p] show ?thesis by (simp add: b128_def)
qed

lemma l_oid_iff: "unat p < 128 \<Longrightarrow> l_oid p bs \<longleftrightarrow> (\<exists>ns. bs = concat (map b128 ns))"
proof
  assume p: "unat p < 128"
  have "unat (of_nat (n mod 128) :: u8) < 128" for n :: nat
    by (subst unat_of_nat_u8) (simp_all add: less_le_trans [of _ 128])
  then have "l_oid q (concat (map b128 ns))" if "unat q < 128" for q ns
    using that by (induction ns arbitrary: q) (auto simp: l_oid_b128)
  with p show "l_oid p bs" if "\<exists>ns. bs = concat (map b128 ns)" using that by blast
qed (use l_oid_components(1) in blast)

subsection \<open>Properties\<close>

text \<open>\<open>CBS_get_asn1_uint64\<close> reads exactly the minimal DER INTEGERs of the numbers below
  \<open>2 ^ 64\<close>: it returns \<open>n\<close> with rest \<open>r\<close> if and only if the input is the encoding of \<open>n\<close>
  followed by \<open>r\<close>; negative, overlong and oversized integers are refused.\<close>

theorem CBS_get_asn1_uint64_exact:
  assumes "cbs_ok c"
  shows "(\<exists>w c'. CBS_get_asn1_uint64 c = (Some w, c') \<and> unat w = n \<and> spans c' r) \<longleftrightarrow>
    n < 2 ^ 64 \<and> cbs_bytes c = der_integer (int n) @ r"
  using asn1_uint64.reader_iff [OF assms, of n r] by (auto simp: l_asn1_uint64_iff)

lemma der_integer_200: "der_integer 200 = [2, 2, 0, 200]"
proof -
  have "der_int 200 = [0, 200]" by (subst der_int_step) (simp_all add: der_int_small)
  then show ?thesis
    by (simp add: der_integer_def der_header_def der_tag_def der_len_def CBS_ASN1_INTEGER_def
        CBS_ASN1_TAG_NUMBER_MASK_def)
qed

theorem CBS_get_asn1_uint64_exact_witness:
  "\<exists>w c'. CBS_get_asn1_uint64 (of_bytes [2, 2, 0, 200, 9]) = (Some w, c') \<and> unat w = 200 \<and> spans c' [9]"
  using CBS_get_asn1_uint64_exact [of "of_bytes [2, 2, 0, 200, 9]" 200 "[9]"]
  by (simp add: der_integer_200)

text \<open>\<open>CBS_get_asn1_int64\<close> reads exactly the minimal two's complement INTEGERs of the
  numbers from \<open>-2 ^ 63\<close> below \<open>2 ^ 63\<close>, and the 64-bit word it stores, read as signed, is the
  number: the sign extension and the byte-swapped load are right for every length.\<close>

theorem CBS_get_asn1_int64_exact:
  assumes "cbs_ok c"
  shows "(\<exists>w c'. CBS_get_asn1_int64 c = (Some w, c') \<and> sint w = z \<and> spans c' r) \<longleftrightarrow>
    - (2 ^ 63) \<le> z \<and> z < 2 ^ 63 \<and> cbs_bytes c = der_integer z @ r"
  using asn1_int64.reader_iff [OF assms, of z r] by (auto simp: l_asn1_int64_iff)

lemma der_integer_neg: "der_integer (-200) = [2, 2, 255, 56]"
proof -
  have "der_int (-200) = [255, 56]" by (subst der_int_step) (simp_all add: der_int_small)
  then show ?thesis
    by (simp add: der_integer_def der_header_def der_tag_def der_len_def CBS_ASN1_INTEGER_def
        CBS_ASN1_TAG_NUMBER_MASK_def)
qed

theorem CBS_get_asn1_int64_exact_witness:
  "\<exists>w c'. CBS_get_asn1_int64 (of_bytes [2, 2, 255, 56]) = (Some w, c') \<and> sint w = -200 \<and> spans c' []"
  using CBS_get_asn1_int64_exact [of "of_bytes [2, 2, 255, 56]" "-200" "[]"]
  by (simp add: der_integer_neg)

text \<open>\<open>CBS_get_u64_decimal\<close> reads the longest run of digits and accepts it exactly when it
  is the decimal form, without leading zeros, of a number below \<open>2 ^ 64\<close>: the 64-bit overflow
  tests refuse neither too much nor too little.\<close>

theorem CBS_get_u64_decimal_exact:
  assumes "cbs_ok c"
  shows "(\<exists>w c'. CBS_get_u64_decimal c = (Some w, c') \<and> unat w = n \<and> spans c' r) \<longleftrightarrow>
    n < 2 ^ 64 \<and> (r = [] \<or> \<not> OPENSSL_isdigit (hd r)) \<and> cbs_bytes c = decimal n @ r"
  using u64_decimal.reader_iff [OF assms, of n r] by (auto simp: l_dec_iff)

theorem CBS_get_u64_decimal_exact_witness:
  "\<exists>w c'. CBS_get_u64_decimal (of_bytes [0x34, 0x32, 0x2e]) = (Some w, c') \<and> unat w = 42 \<and> spans c' [0x2e]"
  using CBS_get_u64_decimal_exact [of "of_bytes [0x34, 0x32, 0x2e]" 42 "[0x2e]"]
  by (simp add: decimal_step decimal_small isdigit_nat)

text \<open>On a BIT STRING body \<open>u # bs\<close> with a valid padding, \<open>CBS_asn1_bitstring_has_bit\<close>
  returns bit \<open>n\<close> of the string of \<open>8 * length bs - u\<close> bits, first bit highest in its byte, and
  false for every index past the end; an invalid body has no bit set.\<close>

theorem CBS_asn1_bitstring_has_bit_spec:
  assumes "cbs_ok c" and "cbs_bytes c = u # bs"
  shows "CBS_asn1_bitstring_has_bit c n \<longleftrightarrow>
    bitstring_ok (u # bs) \<and> unat n < 8 * length bs - unat u \<and> bits_of bs ! unat n"
  using assms by (rule has_bit_eq)

theorem CBS_asn1_bitstring_has_bit_spec_witness:
  "CBS_asn1_bitstring_has_bit (of_bytes [5, 0x20]) 2 \<and> \<not> CBS_asn1_bitstring_has_bit (of_bytes [5, 0x20]) 3"
proof -
  have "bitstring_ok [5, 0x20]" using low_bits_zero [of 5 "0x20"] by (simp add: bitstring_ok_def)
  moreover have "bits_of [0x20] ! 2" by code_simp
  ultimately show ?thesis
    using CBS_asn1_bitstring_has_bit_spec [of "of_bytes [5, 0x20]" 5 "[0x20]" 2]
      CBS_asn1_bitstring_has_bit_spec [of "of_bytes [5, 0x20]" 5 "[0x20]" 3] by simp
qed

text \<open>\<open>CBS_is_valid_asn1_oid\<close> accepts exactly the concatenations of one or more minimally
  encoded base-128 components, of any size.\<close>

theorem CBS_is_valid_asn1_oid_iff:
  assumes "cbs_ok c"
  shows "CBS_is_valid_asn1_oid c \<longleftrightarrow> (\<exists>ns. ns \<noteq> [] \<and> cbs_bytes c = concat (map b128 ns))"
proof (cases "cbs_bytes c = []")
  case True
  moreover have "concat (map b128 ns) \<noteq> []" if "ns \<noteq> []" for ns
    using that by (cases ns) (simp_all add: b128_def)
  ultimately show ?thesis
    using length_cbs_bytes [OF assms] by (auto simp: CBS_is_valid_asn1_oid_def CBS_len_def)
next
  case False
  then have "CBS_is_valid_asn1_oid c \<longleftrightarrow> l_oid 0 (cbs_bytes c)"
    using length_cbs_bytes [OF assms] oid_loop_eq [OF assms]
    by (auto simp: CBS_is_valid_asn1_oid_def CBS_len_def)
  moreover have "(\<exists>ns. cbs_bytes c = concat (map b128 ns)) \<longleftrightarrow>
      (\<exists>ns. ns \<noteq> [] \<and> cbs_bytes c = concat (map b128 ns))"
    using False by (metis concat.simps(1) list.map(1))
  ultimately show ?thesis by (simp add: l_oid_iff)
qed

theorem CBS_is_valid_asn1_oid_iff_witness:
  "CBS_is_valid_asn1_oid (of_bytes [0x2a, 0x86, 0x48])"
proof -
  have "b128 42 = [0x2a]" "b128 840 = [0x86, 0x48]" by (simp_all add: b128_def b128_cont_step)
  then have "\<exists>ns. ns \<noteq> [] \<and> cbs_bytes (of_bytes [0x2a, 0x86, 0x48]) = concat (map b128 ns)"
    by (intro exI [of _ "[42, 840]"]) simp
  moreover have "cbs_ok (of_bytes [0x2a, 0x86, 0x48])" by simp
  ultimately show ?thesis by (simp only: CBS_is_valid_asn1_oid_iff)
qed

end
