(* ===== verification/Cbb_Values.thy ===== *)
theory Cbb_Values
  imports Cbb Cbs_Values
begin

text \<open>
  crypto/bytestring/cbb.c, the functions that write whole ASN.1 values: integers, octet
  strings, booleans and object identifiers, with the OID text conversions of cbs.c. Each is
  proved to be a writer of the encoding that the readers of \<open>Cbs_Values\<close> accept.
\<close>

subsection \<open>Operations\<close>

text \<open>The idiom of these functions: open a child with a tag, write its contents, flush; an error
  before the flush puts the builder in its error state.\<close>

definition with_asn1_child :: "heap_env \<Rightarrow> nat \<Rightarrow> u32 \<Rightarrow> (cbb, unit) call \<Rightarrow> (cbb, unit) call" where
  "with_asn1_child E d tag contents s =
     (case bindC (CBB_add_asn1 E d tag) (\<lambda>_. contents) s of
        (None, s) \<Rightarrow> (None, cbb_on_error d s)
      | (Some _, s) \<Rightarrow> CBB_flush E d s)"

definition byte_at :: "u64 \<Rightarrow> nat \<Rightarrow> u8" where
  "byte_at v i = ucast (drop_bit (8 * i) v) AND 0xff"

fun asn1_uint64_bytes :: "heap_env \<Rightarrow> nat \<Rightarrow> u64 \<Rightarrow> bool \<Rightarrow> nat list \<Rightarrow> (cbb, unit) call" where
  "asn1_uint64_bytes E child v started [] = (if \<not> started then CBB_add_u8 E child 0 else retC ())"
| "asn1_uint64_bytes E child v started (i # is) =
     (let byte = byte_at v (7 - i) in
      if \<not> started \<and> byte = 0 then asn1_uint64_bytes E child v started is
      else bindC (if \<not> started \<and> byte AND 0x80 \<noteq> 0 then CBB_add_u8 E child 0 else retC ()) (\<lambda>_.
           bindC (CBB_add_u8 E child byte) (\<lambda>_. asn1_uint64_bytes E child v True is)))"

definition CBB_add_asn1_uint64_with_tag :: "heap_env \<Rightarrow> nat \<Rightarrow> u64 \<Rightarrow> u32 \<Rightarrow> (cbb, unit) call" where
  "CBB_add_asn1_uint64_with_tag E d v tag =
     with_asn1_child E d tag (asn1_uint64_bytes E (Suc d) v False [0..<8])"

definition CBB_add_asn1_uint64 :: "heap_env \<Rightarrow> nat \<Rightarrow> u64 \<Rightarrow> (cbb, unit) call" where
  "CBB_add_asn1_uint64 E d v = CBB_add_asn1_uint64_with_tag E d v CBS_ASN1_INTEGER"

text \<open>The loop that skips leading sign bytes, over the little-endian bytes of the value.\<close>

fun asn1_int64_start :: "u64 \<Rightarrow> nat \<Rightarrow> nat" where
  "asn1_int64_start v 0 = 0"
| "asn1_int64_start v (Suc start) =
     (if byte_at v (Suc start) = 0xff \<and> byte_at v start AND 0x80 \<noteq> 0
      then asn1_int64_start v start else Suc start)"

fun asn1_int64_bytes :: "heap_env \<Rightarrow> nat \<Rightarrow> u64 \<Rightarrow> nat \<Rightarrow> (cbb, unit) call" where
  "asn1_int64_bytes E child v 0 = CBB_add_u8 E child (byte_at v 0)"
| "asn1_int64_bytes E child v (Suc i) =
     bindC (CBB_add_u8 E child (byte_at v (Suc i))) (\<lambda>_. asn1_int64_bytes E child v i)"

definition CBB_add_asn1_int64_with_tag :: "heap_env \<Rightarrow> nat \<Rightarrow> u64 \<Rightarrow> u32 \<Rightarrow> (cbb, unit) call" where
  "CBB_add_asn1_int64_with_tag E d v tag =
     (if 0 \<le> sint v then CBB_add_asn1_uint64_with_tag E d v tag
      else with_asn1_child E d tag (asn1_int64_bytes E (Suc d) v (asn1_int64_start v 7)))"

definition CBB_add_asn1_int64 :: "heap_env \<Rightarrow> nat \<Rightarrow> u64 \<Rightarrow> (cbb, unit) call" where
  "CBB_add_asn1_int64 E d v = CBB_add_asn1_int64_with_tag E d v CBS_ASN1_INTEGER"

text \<open>The last two report an error of the flush as well.\<close>

definition or_on_error :: "nat \<Rightarrow> (cbb, unit) call \<Rightarrow> (cbb, unit) call" where
  "or_on_error d m s = (case m s of (None, s) \<Rightarrow> (None, cbb_on_error d s) | (Some _, s) \<Rightarrow> (Some (), s))"

definition CBB_add_asn1_octet_string :: "heap_env \<Rightarrow> nat \<Rightarrow> u8 list \<Rightarrow> nat \<Rightarrow> (cbb, unit) call" where
  "CBB_add_asn1_octet_string E d data data_len = or_on_error d
     (bindC (CBB_add_asn1 E d CBS_ASN1_OCTETSTRING) (\<lambda>_.
      bindC (CBB_add_bytes E (Suc d) data data_len) (\<lambda>_. CBB_flush E d)))"

definition CBB_add_asn1_bool :: "heap_env \<Rightarrow> nat \<Rightarrow> bool \<Rightarrow> (cbb, unit) call" where
  "CBB_add_asn1_bool E d value = or_on_error d
     (bindC (CBB_add_asn1 E d CBS_ASN1_BOOLEAN) (\<lambda>_.
      bindC (CBB_add_u8 E (Suc d) (if value then 0xff else 0)) (\<lambda>_. CBB_flush E d)))"

text \<open>The object identifier text: \<open>parse_dotted_decimal\<close> consumes one number and its dot.\<close>

definition parse_dotted_decimal :: "(cbs, u64) call" where
  "parse_dotted_decimal = bindC CBS_get_u64_decimal (\<lambda>out c.
     (case CBS_get_u8 c of
        (None, c) \<Rightarrow> (Some out, c)
      | (Some dot, c) \<Rightarrow> if dot = 0x2e \<and> 0 < CBS_len c then (Some out, c) else (None, c)))"

lemma CBS_skip_len: "cbs_len (snd (CBS_skip 1 c)) \<le> cbs_len c \<and>
    (cbs_len c \<noteq> 0 \<longrightarrow> cbs_len (snd (CBS_skip 1 c)) < cbs_len c)"
  by (simp add: CBS_skip_def cbs_get_def bindC_def)

lemma decimal_loop_len:
  "decimal_loop v s c = (Some w, c') \<Longrightarrow> cbs_len c' \<le> cbs_len c \<and> (\<not> s \<longrightarrow> cbs_len c' < cbs_len c)"
proof (induction v s c rule: decimal_loop.induct)
  case (1 v s c)
  show ?case
  proof (cases "CBS_len c = 0 \<or> \<not> OPENSSL_isdigit (CBS_data c ! 0)")
    case True
    with "1.prems" show ?thesis by (subst (asm) decimal_loop.simps) (auto split: if_splits)
  next
    case False
    let ?d = "ucast (CBS_data c ! 0) - 0x30 :: u64" and ?c = "snd (CBS_skip 1 c)"
    from False "1.prems" have g: "\<not> (v = 0 \<and> s \<or> UINT64_MAX div 10 < v \<or> UINT64_MAX - ?d < v * 10)"
      and r: "decimal_loop (v * 10 + ?d) True ?c = (Some w, c')"
      by (subst (asm) decimal_loop.simps, auto simp: Let_def split: if_splits)+
    from "1.IH" [OF False refl refl refl g r] CBS_skip_len [of c] False show ?thesis
      by (auto simp: CBS_len_def)
  qed
qed

lemma parse_dotted_decimal_len: "parse_dotted_decimal c = (Some a, c') \<Longrightarrow> CBS_len c' < CBS_len c"
proof -
  assume "parse_dotted_decimal c = (Some a, c')"
  then obtain c1 where 1: "decimal_loop 0 False c = (Some a, c1)" and 2: "cbs_len c' \<le> cbs_len c1"
    by (auto simp: parse_dotted_decimal_def CBS_get_u64_decimal_def CBS_get_u8_def cbs_get_def bindC_def
        split: prod.splits option.splits if_splits)
  with decimal_loop_len [OF 1] show ?thesis by (simp add: CBS_len_def)
qed

function oid_text_loop :: "heap_env \<Rightarrow> nat \<Rightarrow> cbs \<Rightarrow> (cbb, unit) call" where
  "oid_text_loop E d c s =
     (if CBS_len c = 0 then (Some (), s)
      else case parse_dotted_decimal c of
             (None, _) \<Rightarrow> (None, s)
           | (Some a, c') \<Rightarrow>
               (case add_base128_integer E d a s of
                  (None, s) \<Rightarrow> (None, s)
                | (Some _, s) \<Rightarrow> oid_text_loop E d c' s))"
  by pat_completeness auto
termination
  by (relation "measure (\<lambda>(E, d, c, s). CBS_len c)") (auto dest: parse_dotted_decimal_len [OF sym])

declare oid_text_loop.simps [simp del]

definition CBB_add_asn1_oid_from_text :: "heap_env \<Rightarrow> nat \<Rightarrow> u8 list \<Rightarrow> nat \<Rightarrow> (cbb, unit) call" where
  "CBB_add_asn1_oid_from_text E d text len = bindC (CBB_flush E d) (\<lambda>_ s.
     (case parse_dotted_decimal (CBS_init text len) of
        (None, _) \<Rightarrow> (None, s)
      | (Some a, c) \<Rightarrow>
     (case parse_dotted_decimal c of
        (None, _) \<Rightarrow> (None, s)
      | (Some b, c) \<Rightarrow>
          if 2 < a \<or> a < 2 \<and> 39 < b \<or> UINT64_MAX - 80 < b then (None, s)
          else bindC (add_base128_integer E d (40 * a + b)) (\<lambda>_. oid_text_loop E d c) s)))"

text \<open>\<open>add_decimal\<close> prints with \<open>PRIu64\<close>, the decimal form of the C library.\<close>

definition add_decimal :: "heap_env \<Rightarrow> nat \<Rightarrow> u64 \<Rightarrow> (cbb, unit) call" where
  "add_decimal E d v = CBB_add_bytes E d (decimal (unat v)) (length (decimal (unat v)))"

lemma parse_base128_len: "parse_base128_integer c = (Some v, c') \<Longrightarrow> CBS_len c' < CBS_len c"
proof -
  have "parse_base128_loop w c = (Some v, c') \<Longrightarrow> cbs_len c' < cbs_len c" for w
  proof (induction w c rule: parse_base128_loop.induct)
    case (1 w c)
    from "1.prems" obtain b c1 where c1: "CBS_get_u8 c = (Some b, c1)"
      by (subst (asm) parse_base128_loop.simps) (auto split: prod.splits option.splits)
    then have lt: "cbs_len c1 < cbs_len c"
      by (auto simp: CBS_get_u8_def cbs_get_def bindC_def split: if_splits)
    show ?case
    proof (cases "b AND 0x80 \<noteq> 0")
      case True
      from "1.prems" c1 True have g: "\<not> drop_bit (64 - 7) w \<noteq> 0" "\<not> (w = 0 \<and> b = 0x80)"
        and r: "parse_base128_loop (push_bit 7 w OR ucast (b AND 0x7f)) c1 = (Some v, c')"
        by (subst (asm) parse_base128_loop.simps, auto simp: Let_def split: if_splits)+
      from "1.IH" [OF c1 [symmetric] refl g refl True r] lt show ?thesis by simp
    next
      case False
      with "1.prems" c1 have "c' = c1"
        by (subst (asm) parse_base128_loop.simps) (auto simp: Let_def split: if_splits)
      with lt show ?thesis by simp
    qed
  qed
  then show "parse_base128_integer c = (Some v, c') \<Longrightarrow> CBS_len c' < CBS_len c"
    by (simp add: parse_base128_integer_def CBS_len_def)
qed

function oid_to_text_loop :: "heap_env \<Rightarrow> cbs \<Rightarrow> (cbb, unit) call" where
  "oid_to_text_loop E copy s =
     (if CBS_len copy = 0 then (Some (), s)
      else case parse_base128_integer copy of
             (None, _) \<Rightarrow> (None, s)
           | (Some v, copy') \<Rightarrow>
               (case bindC (CBB_add_u8 E 0 0x2e) (\<lambda>_. add_decimal E 0 v) s of
                  (None, s) \<Rightarrow> (None, s)
                | (Some _, s) \<Rightarrow> oid_to_text_loop E copy' s))"
  by pat_completeness auto
termination
  by (relation "measure (\<lambda>(E, c, s). CBS_len c)") (auto dest: parse_base128_len [OF sym])

declare oid_to_text_loop.simps [simp del]

definition CBS_asn1_oid_to_text :: "heap_env \<Rightarrow> cbs \<Rightarrow> u8 list option" where
  "CBS_asn1_oid_to_text E c =
     (case CBB_init E 32 of
        (None, _) \<Rightarrow> None
      | (Some _, cbb) \<Rightarrow>
     (case parse_base128_integer c of
        (None, _) \<Rightarrow> None
      | (Some v, copy) \<Rightarrow>
          let first = (if 80 \<le> v
                then bindC (CBB_add_bytes E 0 [0x32, 0x2e] 2) (\<lambda>_. add_decimal E 0 (v - 80))
                else bindC (add_decimal E 0 (v div 40)) (\<lambda>_.
                     bindC (CBB_add_u8 E 0 0x2e) (\<lambda>_. add_decimal E 0 (v mod 40))))
          in case bindC first (\<lambda>_. bindC (oid_to_text_loop E copy) (\<lambda>_.
                  bindC (CBB_add_u8 E 0 0) (\<lambda>_. CBB_finish E 0 True))) cbb of
               (None, _) \<Rightarrow> None
             | (Some (txt, txt_len), _) \<Rightarrow> txt))"

subsection \<open>A whole element is a writer\<close>

lemma spec_flush_child:
  assumes "length (snd st) = d"
  shows "spec_flush d (fst st, snd st @ [(k, b)]) =
    (case close_frame k b of None \<Rightarrow> None | Some x \<Rightarrow> Some (append_top st x))"
  using assms by (cases st) (auto simp: spec_flush_def split: option.splits)

lemma element_rep:
  assumes a: "CBB_add_asn1 E d tag s = (Some (), t)" and b: "wr t = (Some (), u)" and f: "CBB_flush E d u = (Some (), s')"
    and w: "cbb_writer (Suc d) wr y" and s: "rep s st" "small_prefixes st"
  shows "\<exists>st'. spec_write d (der_header tag (length y) @ y) st = Some st' \<and> rep s' st'"
proof -
  from CBB_add_asn1_rep [OF a s] obtain st1 where
    st1: "spec_write d (der_tag tag) st = Some st1" "rep t (fst st1, snd st1 @ [(Der, [])])" by blast
  have l: "length (snd st1) = d" and sm: "small_prefixes st1"
    using spec_write_Some [OF st1(1)] small_write [OF st1(1) s(2)] by blast+
  then have sm': "small_prefixes (fst st1, snd st1 @ [(Der, [])])" by (cases st1) simp
  have "length (snd (fst st1, snd st1 @ [(Der, [])])) = Suc d" using l by simp
  from cbb_writer.appends [OF w b st1(2) sm' this] have
    u: "rep u (fst st1, snd st1 @ [(Der, y)])" by (simp add: append_top_def)
  have sm'': "small_prefixes (fst st1, snd st1 @ [(Der, y)])" using sm by (cases st1) simp
  from CBB_flush_spec [OF f u sm''] obtain st' where
    st': "spec_flush d (fst st1, snd st1 @ [(Der, y)]) = Some st'" "rep s' st'" by blast
  then have "st' = append_top st1 (der_len (length y) @ y)"
    unfolding spec_flush_child [OF l] by (auto split: if_splits)
  moreover have "spec_write d (der_len (length y) @ y) st1 = Some (append_top st1 (der_len (length y) @ y))"
    using l by (simp add: spec_write_def spec_flush_idle)
  ultimately have "spec_write d (der_tag tag @ der_len (length y) @ y) st = Some st'"
    using spec_write_twice [OF st1(1)] by simp
  with st'(2) show ?thesis by (simp add: der_header_def)
qed

lemma element_fits:
  assumes w: "cbb_writer (Suc d) wr y" and y: "length y \<le> 0xfffffffe"
    and s: "rep s st" "small_prefixes st" "length (snd st) = d"
    and room: "base_len s + length (der_header tag (length y) @ y) \<le> base_cap s"
  shows "\<exists>t u s'. CBB_add_asn1 E d tag s = (Some (), t) \<and> wr t = (Some (), u) \<and>
    CBB_flush E d u = (Some (), s') \<and> base_cap s' = base_cap s"
proof -
  have dl: "0 < length (der_len (length y))" by (simp add: length_der_len)
  have "base_len s + length (der_tag tag) + 1 \<le> base_cap s"
    using room dl unfolding der_header_def length_append by linarith
  from CBB_add_asn1_fits [OF s this] obtain t where
    t: "CBB_add_asn1 E d tag s = (Some (), t)" "base_cap t = base_cap s" by blast
  from CBB_add_asn1_rep [OF t(1) s(1,2)] s(3) have
    rt: "rep t (fst (append_top st (der_tag tag)), snd (append_top st (der_tag tag)) @ [(Der, [])])"
    by (auto simp: spec_write_def spec_flush_idle)
  let ?st1 = "append_top st (der_tag tag)"
  have sm: "small_prefixes (fst ?st1, snd ?st1 @ [(Der, [])])"
    using s(2) by (simp add: small_append_top [of st, unfolded small_prefixes_def] small_prefixes_def)
  have lt: "length (snd (fst ?st1, snd ?st1 @ [(Der, [])])) = Suc d" using s(3) by simp
  have L1: "layout (fst ?st1, snd ?st1 @ [(Der, b)]) = layout st @ der_tag tag @ [0] @ b" for b
    by (simp add: layout_snoc layout_append_top)
  have "base_len t = base_len s + length (der_tag tag) + 1"
    using rep_len [OF rt] rep_len [OF s(1)] unfolding L1 by simp
  then have "base_len t + length y \<le> base_cap t"
    using room dl t(2) unfolding der_header_def length_append by linarith
  from cbb_writer.total [OF w rt sm lt this] obtain u where
    u: "wr t = (Some (), u)" "rep u (fst ?st1, snd ?st1 @ [(Der, y)])" "base_cap u = base_cap t"
    by (auto simp: append_top_def)
  have sm': "small_prefixes (fst ?st1, snd ?st1 @ [(Der, y)])"
    using sm by (simp add: small_prefixes_def)
  have "close_frames (drop d (snd ?st1 @ [(Der, y)])) = Some (der_len (length y) @ y)"
    using y s(3) by simp
  moreover have "length (layout (fst ?st1, take d (snd ?st1 @ [(Der, y)]))) + length (der_len (length y) @ y) \<le> base_cap u"
    using room s(3) t(2) u(3) rep_len [OF s(1)] by (simp add: layout_append_top der_header_def)
  moreover have "d \<le> length (snd ?st1 @ [(Der, y)])" using s(3) by simp
  ultimately obtain s' where "CBB_flush E d u = (Some (), s')" "base_cap s' = base_cap u"
    using CBB_flush_fits [OF u(2) sm'] by blast
  with t u show ?thesis by auto
qed

lemma with_asn1_child_writer:
  assumes w: "cbb_writer (Suc d) wr y" and y: "length y \<le> 0xfffffffe"
  shows "cbb_writer d (with_asn1_child E d tag wr) (der_header tag (length y) @ y)"
proof (rule cbb_writer.intro)
  fix s s' st
  assume r: "with_asn1_child E d tag wr s = (Some (), s')" and s: "rep s st" "small_prefixes st"
  from r obtain t u where "CBB_add_asn1 E d tag s = (Some (), t)" "wr t = (Some (), u)" "CBB_flush E d u = (Some (), s')"
    by (auto simp: with_asn1_child_def bindC_def split: prod.splits option.splits)
  then show "\<exists>st'. spec_write d (der_header tag (length y) @ y) st = Some st' \<and> rep s' st'"
    by (rule element_rep [OF _ _ _ w s])
next
  fix s st
  assume "rep s st" "small_prefixes st" "length (snd st) = d"
    "base_len s + length (der_header tag (length y) @ y) \<le> base_cap s"
  from element_fits [OF w y this, of E] show "\<exists>s'. with_asn1_child E d tag wr s = (Some (), s') \<and> base_cap s' = base_cap s"
    by (auto simp: with_asn1_child_def bindC_def)
qed

lemma or_on_error_writer:
  assumes w: "cbb_writer (Suc d) wr y" and y: "length y \<le> 0xfffffffe"
  shows "cbb_writer d (or_on_error d (bindC (CBB_add_asn1 E d tag) (\<lambda>_. bindC wr (\<lambda>_. CBB_flush E d))))
    (der_header tag (length y) @ y)"
proof (rule cbb_writer.intro)
  fix s s' st
  assume r: "or_on_error d (bindC (CBB_add_asn1 E d tag) (\<lambda>_. bindC wr (\<lambda>_. CBB_flush E d))) s = (Some (), s')"
    and s: "rep s st" "small_prefixes st"
  from r obtain t u where "CBB_add_asn1 E d tag s = (Some (), t)" "wr t = (Some (), u)" "CBB_flush E d u = (Some (), s')"
    by (auto simp: or_on_error_def bindC_def split: prod.splits option.splits)
  then show "\<exists>st'. spec_write d (der_header tag (length y) @ y) st = Some st' \<and> rep s' st'"
    by (rule element_rep [OF _ _ _ w s])
next
  fix s st
  assume "rep s st" "small_prefixes st" "length (snd st) = d"
    "base_len s + length (der_header tag (length y) @ y) \<le> base_cap s"
  from element_fits [OF w y this, of E] show
    "\<exists>s'. or_on_error d (bindC (CBB_add_asn1 E d tag) (\<lambda>_. bindC wr (\<lambda>_. CBB_flush E d))) s = (Some (), s') \<and>
      base_cap s' = base_cap s"
    by (auto simp: or_on_error_def bindC_def)
qed

subsection \<open>Integers, octet strings and booleans\<close>

lemma byte_at_nat: "byte_at v i = of_nat (unat v div 256 ^ i mod 256)"
proof -
  have "(2 :: nat) ^ (8 * i) = 256 ^ i" by (simp add: power_mult)
  then have "unat (byte_at v i) = unat v div 256 ^ i mod 256"
    using unat_and_mask [of "ucast (drop_bit (8 * i) v) :: u8" 8]
    by (simp add: byte_at_def mask_eq_exp_minus_1 unat_ucast unat_drop_bit)
  then show ?thesis by (simp add: word_unat_eq_iff unat_of_nat_u8)
qed

lemma map_byte_at: "map (\<lambda>i. of_nat (n div 256 ^ i mod 256)) (rev [0..<k]) = be_fixed k n"
proof (induction k arbitrary: n)
  case (Suc k)
  have "rev [0..<Suc k] = map Suc (rev [0..<k]) @ [0]"
    by (simp add: upt_conv_Cons rev_map map_Suc_upt [symmetric] del: upt_Suc)
  then show ?case using Suc [of "n div 256"] by (simp add: o_def div_mult2_eq del: upt_Suc)
qed simp

text \<open>The loop without the builder: strip leading zeros, pad a set high bit.\<close>

fun unsigned_octets :: "bool \<Rightarrow> u8 list \<Rightarrow> u8 list" where
  "unsigned_octets started [] = (if \<not> started then [0] else [])"
| "unsigned_octets started (b # bs) =
     (if \<not> started \<and> b = 0 then unsigned_octets started bs
      else (if \<not> started \<and> b AND 0x80 \<noteq> 0 then [0] else []) @ b # unsigned_octets True bs)"

lemma started_octets [simp]: "unsigned_octets True bs = bs"
  by (induction bs) auto

lemma bind_ret_unit [simp]: "bindC m retC = (m :: (cbb, unit) call)"
  by (rule ext) (simp add: bindC_def split: prod.split option.split)

lemma uint64_bytes_started:
  "cbb_writer ch (asn1_uint64_bytes E ch v True (i # is)) (map (\<lambda>i. byte_at v (7 - i)) (i # is))"
proof (induction "is" arbitrary: i)
  case Nil
  show ?case using add_u8_writer by (simp add: Let_def)
next
  case (Cons j js)
  show ?case using writer_seq [OF add_u8_writer Cons [of j]] by (simp add: Let_def)
qed

lemma uint64_bytes_writer:
  "cbb_writer ch (asn1_uint64_bytes E ch v False is) (unsigned_octets False (map (\<lambda>i. byte_at v (7 - i)) is))"
proof (induction "is")
  case Nil
  show ?case using add_u8_writer by simp
next
  case (Cons i js)
  let ?b = "byte_at v (7 - i)"
  have rest: "cbb_writer ch (bindC (CBB_add_u8 E ch ?b) (\<lambda>_. asn1_uint64_bytes E ch v True js))
      (map (\<lambda>i. byte_at v (7 - i)) (i # js))"
    using uint64_bytes_started [of ch E v i js] by (simp add: Let_def)
  show ?case
    using Cons rest writer_seq [OF add_u8_writer [of ch E 0] rest] by (simp add: Let_def)
qed

lemma unsigned_octets_be:
  "unsigned_octets False bs =
     (let n = be_nat bs in if n = 0 then [0] else if 128 \<le> unat (hd (be_bytes n)) then 0 # be_bytes n else be_bytes n)"
proof (induction bs)
  case (Cons b bs)
  show ?case
  proof (cases "b = 0")
    case True
    with Cons show ?thesis by (simp add: be_nat_Cons)
  next
    case False
    then have "be_bytes (be_nat (b # bs)) = b # bs" by (intro be_bytes_be_nat) simp
    moreover have "be_nat (b # bs) \<noteq> 0"
    proof
      assume "be_nat (b # bs) = 0"
      then have "be_bytes (be_nat (b # bs)) = []" by (simp only: be_bytes_0)
      with calculation show False by simp
    qed
    ultimately show ?thesis using False byte_high_bit [of b] by (simp add: Let_def)
  qed
qed simp

lemma hd_be_bytes_ne: "0 < n \<Longrightarrow> hd (be_bytes n) \<noteq> 0"
proof (induction n rule: be_bytes.induct)
  case (1 n)
  show ?case
  proof (cases "n div 256 = 0")
    case True
    with "1.prems" have "n mod 256 = n" "n < 256" by auto
    with "1.prems" True unat_of_nat_u8 [of n] show ?thesis by (auto simp: be_bytes_step)
  next
    case False
    with 1 have "hd (be_bytes (n div 256)) \<noteq> 0" by simp
    moreover have "be_bytes (n div 256) \<noteq> []" using False by (simp add: be_bytes_step)
    ultimately show ?thesis using "1.prems" by (simp add: be_bytes_step)
  qed
qed

lemma der_int_nat:
  "der_int (int n) = (if n = 0 then [0] else if 128 \<le> unat (hd (be_bytes n)) then 0 # be_bytes n else be_bytes n)"
proof -
  let ?L = "if n = 0 then [0] else if 128 \<le> unat (hd (be_bytes n)) then 0 # be_bytes n else be_bytes n :: u8 list"
  have ne: "be_bytes n \<noteq> []" if "n \<noteq> 0" using that by (simp add: be_bytes_step)
  have hd0: "unat (hd (be_bytes n)) \<noteq> 0" if "n \<noteq> 0"
    using hd_be_bytes_ne [of n] that by (simp add: unat_eq_zero)
  have "int_minimal ?L"
    using ne hd0 by (cases "be_bytes n") (auto simp: int_minimal_def)
  moreover have "twos ?L = int n"
    using ne by (auto simp: twos_def be_nat_Cons)
  ultimately show ?thesis using der_int_twos [of ?L] by metis
qed

lemma uint64_writer:
  "cbb_writer ch (asn1_uint64_bytes E ch v False [0..<8]) (der_int (int (unat v)))"
proof -
  have "[0..<8] = [0, 1, 2, 3, 4, 5, 6, 7 :: nat]" by (simp add: upt_rec)
  moreover have "rev [0..<8] = [7, 6, 5, 4, 3, 2, 1, 0 :: nat]" by (simp add: upt_rec)
  ultimately have "map (\<lambda>i. byte_at v (7 - i)) [0..<8] = map (\<lambda>i. of_nat (unat v div 256 ^ i mod 256)) (rev [0..<8])"
    by (simp add: byte_at_nat)
  then have "map (\<lambda>i. byte_at v (7 - i)) [0..<8] = be_fixed 8 (unat v)" by (simp only: map_byte_at)
  moreover have "unat v < 256 ^ 8" using unsigned_less [of v] by simp
  then have "be_nat (be_fixed 8 (unat v)) = unat v" by (simp only: be_nat_be_fixed mod_less)
  ultimately have "unsigned_octets False (map (\<lambda>i. byte_at v (7 - i)) [0..<8]) = der_int (int (unat v))"
    by (simp only: unsigned_octets_be der_int_nat Let_def)
  then show ?thesis using uint64_bytes_writer [of ch E v "[0..<8]"] by simp
qed

lemma be_fixed_Cons: "be_fixed (Suc k) (unat v) = byte_at v k # be_fixed k (unat v)"
  by (simp add: map_byte_at [symmetric] byte_at_nat del: be_fixed.simps)

lemma sint_nat: "sint (v :: u64) = (if unat v < 2 ^ 63 then int (unat v) else int (unat v) - 2 ^ 64)"
proof (cases "unat v < 2 ^ 63")
  case True
  then have "int (unat v) < 2 ^ 63" by (metis of_nat_less_iff of_nat_numeral of_nat_power)
  moreover have "- (2 ^ 63) \<le> int (unat v)" by (rule order_trans [of _ 0]) simp_all
  moreover have "of_int (int (unat v)) = v" by simp
  ultimately show ?thesis using True sint_of_int_64 [of "int (unat v)"] by metis
next
  case False
  have "unat v < 2 ^ 64" using unsigned_less [of v] by simp
  then have "int (unat v) < 2 ^ 64" by (metis of_nat_less_iff of_nat_numeral of_nat_power)
  moreover have "2 ^ 63 \<le> int (unat v)" using False by (metis not_less of_nat_le_iff of_nat_numeral of_nat_power)
  ultimately have s: "sint (of_int (int (unat v) - 2 ^ 64) :: u64) = int (unat v) - 2 ^ 64"
    by (intro sint_of_int_64) simp_all
  have z: "of_int (int (unat v) - 2 ^ 64) = v" by simp
  show ?thesis using s False unfolding z by (simp only: if_False)
qed

lemma int64_start_minimal:
  "128 \<le> unat (byte_at v k) \<Longrightarrow>
     twos (be_fixed (Suc (asn1_int64_start v k)) (unat v)) = twos (be_fixed (Suc k) (unat v)) \<and>
     int_minimal (be_fixed (Suc (asn1_int64_start v k)) (unat v))"
proof (induction k)
  case 0
  have "be_fixed (Suc 0) (unat v) = [byte_at v 0]" by (subst be_fixed_Cons) simp
  then show ?case by (simp add: int_minimal_def del: be_fixed.simps)
next
  case (Suc k)
  have two: "be_fixed (Suc (Suc k)) (unat v) = byte_at v (Suc k) # byte_at v k # be_fixed k (unat v)"
    by (simp only: be_fixed_Cons)
  have ff: "byte_at v (Suc k) = 0xff \<longleftrightarrow> unat (byte_at v (Suc k)) = 255"
    by (simp add: word_unat_eq_iff)
  show ?case
  proof (cases "byte_at v (Suc k) = 0xff \<and> byte_at v k AND 0x80 \<noteq> 0")
    case True
    then have h: "128 \<le> unat (byte_at v k)" and f: "unat (byte_at v (Suc k)) = 255"
      using ff by (auto simp: byte_high_bit)
    let ?t = "byte_at v k # be_fixed k (unat v)"
    have "twos (byte_at v (Suc k) # ?t) = twos ?t"
      using h f by (simp add: twos_def be_nat_Cons [of "byte_at v (Suc k)"] del: of_nat_unat)
    moreover have "be_fixed (Suc k) (unat v) = ?t" by (rule be_fixed_Cons)
    ultimately show ?thesis using Suc.IH [OF h] True two by (simp del: be_fixed.simps)
  next
    case False
    then have "asn1_int64_start v (Suc k) = Suc k" by (simp only: asn1_int64_start.simps if_False)
    moreover have "int_minimal (be_fixed (Suc (Suc k)) (unat v))"
      unfolding two int_minimal_def using Suc.prems False ff by (auto simp: byte_high_bit)
    ultimately show ?thesis by (simp del: be_fixed.simps)
  qed
qed

lemma int64_bytes_writer:
  "cbb_writer ch (asn1_int64_bytes E ch v k) (be_fixed (Suc k) (unat v))"
proof (induction k)
  case 0
  have "be_fixed (Suc 0) (unat v) = [byte_at v 0]" by (subst be_fixed_Cons) simp
  then show ?case using add_u8_writer by (simp del: be_fixed.simps)
next
  case (Suc k)
  have "be_fixed (Suc (Suc k)) (unat v) = [byte_at v (Suc k)] @ be_fixed (Suc k) (unat v)"
    by (subst be_fixed_Cons) simp
  then show ?case using writer_seq [OF add_u8_writer Suc] by (simp del: be_fixed.simps)
qed

lemma int64_writer:
  assumes "sint v < 0"
  shows "cbb_writer ch (asn1_int64_bytes E ch v (asn1_int64_start v 7)) (der_int (sint v))"
proof -
  let ?n = "unat v"
  have n64: "?n < 256 ^ 8" using unsigned_less [of v] by simp
  have big: "2 ^ 63 \<le> ?n" using assms by (auto simp: sint_nat split: if_splits)
  have b7: "unat (byte_at v 7) = ?n div 256 ^ 7 mod 256" unfolding byte_at_nat by (rule unat_of_nat_u8) simp
  have "?n div 256 ^ 7 < 256" using n64 by (simp add: div_less_iff_less_mult)
  moreover have "128 \<le> ?n div 256 ^ 7" using big by (simp add: less_eq_div_iff_mult_less_eq)
  ultimately have h: "128 \<le> unat (byte_at v 7)" using b7 by simp
  have "be_fixed (Suc 7) ?n = byte_at v 7 # be_fixed 7 ?n" by (rule be_fixed_Cons)
  then have "twos (be_fixed (Suc 7) ?n) = int ?n - 2 ^ 64"
    using h n64 be_nat_be_fixed [of 8 ?n] by (simp add: twos_def del: be_fixed.simps of_nat_unat)
  also have "\<dots> = sint v" using big by (simp add: sint_nat)
  finally have "twos (be_fixed (Suc (asn1_int64_start v 7)) ?n) = sint v"
    "int_minimal (be_fixed (Suc (asn1_int64_start v 7)) ?n)"
    using int64_start_minimal [OF h] by simp_all
  then have "be_fixed (Suc (asn1_int64_start v 7)) ?n = der_int (sint v)" using der_int_twos by metis
  with int64_bytes_writer [of ch E v "asn1_int64_start v 7"] show ?thesis by simp
qed

definition der_element :: "u32 \<Rightarrow> u8 list \<Rightarrow> u8 list" where
  "der_element tag b = der_header tag (length b) @ b"

lemma length_der_int_64: "- (2 ^ 63) \<le> z \<Longrightarrow> z < 2 ^ 64 \<Longrightarrow> length (der_int z) \<le> 0xfffffffe"
  using length_der_int_9 [of z] by simp

lemma CBB_add_asn1_uint64_with_tag_writer:
  "cbb_writer d (CBB_add_asn1_uint64_with_tag E d v tag) (der_element tag (der_int (int (unat v))))"
proof -
  have "unat v < 2 ^ 64" using unsigned_less [of v] by simp
  then have "int (unat v) < 2 ^ 64" by (metis of_nat_less_iff of_nat_numeral of_nat_power)
  moreover have "- (2 ^ 63) \<le> int (unat v)" by (rule order_trans [of _ 0]) simp_all
  ultimately have "length (der_int (int (unat v))) \<le> 0xfffffffe" by (intro length_der_int_64)
  then show ?thesis
    unfolding CBB_add_asn1_uint64_with_tag_def der_element_def by (intro with_asn1_child_writer uint64_writer)
qed

lemma CBB_add_asn1_int64_with_tag_writer:
  "cbb_writer d (CBB_add_asn1_int64_with_tag E d v tag) (der_element tag (der_int (sint v)))"
proof (cases "0 \<le> sint v")
  case True
  have "unat v < 2 ^ 64" using unsigned_less [of v] by simp
  then have "int (unat v) < 2 ^ 64" by (metis of_nat_less_iff of_nat_numeral of_nat_power)
  with True have "sint v = int (unat v)" by (simp add: sint_nat del: of_nat_unat split: if_splits)
  with True CBB_add_asn1_uint64_with_tag_writer [of d E v tag] show ?thesis
    by (simp add: CBB_add_asn1_int64_with_tag_def)
next
  case False
  have "length (der_int (sint v)) \<le> 0xfffffffe"
    using False sint_greater_eq [of v] by (intro length_der_int_64) simp_all
  with False show ?thesis
    unfolding CBB_add_asn1_int64_with_tag_def der_element_def
    by (simp, intro with_asn1_child_writer int64_writer) simp_all
qed

lemma CBB_add_asn1_octet_string_writer:
  "length x \<le> 0xfffffffe \<Longrightarrow>
     cbb_writer d (CBB_add_asn1_octet_string E d x (length x)) (der_element CBS_ASN1_OCTETSTRING x)"
  unfolding CBB_add_asn1_octet_string_def der_element_def
  by (intro or_on_error_writer add_bytes_writer) simp_all

lemma CBB_add_asn1_bool_writer:
  "cbb_writer d (CBB_add_asn1_bool E d v) (der_element CBS_ASN1_BOOLEAN [if v then 0xff else 0])"
proof -
  have "cbb_writer d (or_on_error d (bindC (CBB_add_asn1 E d CBS_ASN1_BOOLEAN) (\<lambda>_.
      bindC (CBB_add_u8 E (Suc d) b) (\<lambda>_. CBB_flush E d)))) (der_header CBS_ASN1_BOOLEAN (length [b]) @ [b])" for b
    by (rule or_on_error_writer [OF add_u8_writer]) simp
  then show ?thesis unfolding CBB_add_asn1_bool_def der_element_def by simp
qed

interpretation add_asn1_uint64: cbb_writer d "CBB_add_asn1_uint64_with_tag E d v tag"
    "der_element tag (der_int (int (unat v)))" for d E v tag
  by (rule CBB_add_asn1_uint64_with_tag_writer)

interpretation add_asn1_int64: cbb_writer d "CBB_add_asn1_int64_with_tag E d v tag"
    "der_element tag (der_int (sint v))" for d E v tag
  by (rule CBB_add_asn1_int64_with_tag_writer)

interpretation add_asn1_bool: cbb_writer d "CBB_add_asn1_bool E d v"
    "der_element CBS_ASN1_BOOLEAN [if v then 0xff else 0]" for d E v
  by (rule CBB_add_asn1_bool_writer)

subsection \<open>Object identifier text\<close>

text \<open>The dotted form of a nonempty list of components, and the components an encoding has.\<close>

definition dotted :: "nat list \<Rightarrow> u8 list" where
  "dotted ns = decimal (hd ns) @ concat (map (\<lambda>n. 0x2e # decimal n) (tl ns))"

definition l_component :: "(u8 list, nat) call" where
  "l_component = bindC (l_dec 0 False) (\<lambda>n bs.
     (case l_u8 bs of
        (None, bs) \<Rightarrow> (Some n, bs)
      | (Some dot, bs) \<Rightarrow> if dot = 0x2e \<and> bs \<noteq> [] then (Some n, bs) else (None, bs)))"

lemma l_u8_advance: "\<exists>k. snd (l_u8 bs) = drop k bs"
  using advancing_l_u8 by (simp add: advancing_def)

lemma parse_dotted_decimal_reader: "byte_reader parse_dotted_decimal (\<lambda>w n. unat w = n) l_component"
  unfolding parse_dotted_decimal_def l_component_def
proof (rule bindC_reader [OF CBS_get_u64_decimal_reader], goal_cases)
  case (1 w n)
  show ?case
  proof (rule byte_reader.intro, goal_cases)
    case (1 c)
    show ?case
    proof (cases "cbs_bytes c")
      case Nil
      with get_u8.reader_None [OF 1] \<open>unat w = n\<close> 1 show ?thesis by (auto simp: spans_def)
    next
      case (Cons b bs)
      with get_u8.reader_Some [OF 1] obtain c' where c': "CBS_get_u8 c = (Some b, c')" "cbs_ok c'" "cbs_bytes c' = bs"
        by (auto simp: spans_def)
      then have "CBS_len c' = length bs" using length_cbs_bytes [OF c'(2)] by (simp add: CBS_len_def)
      with c' Cons \<open>unat w = n\<close> show ?thesis by auto
    qed
  next
    case (2 bs)
    show ?case using l_u8_advance [of bs] by (auto split: prod.splits option.splits)
  qed
next
  case (2 n bs)
  show ?case using l_u8_advance [of bs] by (auto split: prod.splits option.splits)
qed

interpretation dotted_decimal: byte_reader parse_dotted_decimal "\<lambda>w n. unat w = n" l_component
  by (rule parse_dotted_decimal_reader)

lemma l_component_iff:
  "l_component bs = (Some n, r) \<longleftrightarrow>
     n < 2 ^ 64 \<and> (if r = [] then bs = decimal n else bs = decimal n @ 0x2e # r)"
proof
  assume "l_component bs = (Some n, r)"
  then obtain t where t: "l_dec 0 False bs = (Some n, t)"
    "(case l_u8 t of (None, bs) \<Rightarrow> (Some n, bs)
      | (Some dot, bs) \<Rightarrow> if dot = 0x2e \<and> bs \<noteq> [] then (Some n, bs) else (None, bs)) = (Some n, r)"
    unfolding l_component_def
    by (auto simp: bindC_def split: prod.splits option.splits if_splits)
  from t(1) have "n < 2 ^ 64" "bs = decimal n @ t" by (simp_all add: l_dec_iff)
  with t(2) show "n < 2 ^ 64 \<and> (if r = [] then bs = decimal n else bs = decimal n @ 0x2e # r)"
    by (cases t) (auto split: if_splits)
next
  assume r: "n < 2 ^ 64 \<and> (if r = [] then bs = decimal n else bs = decimal n @ 0x2e # r)"
  have dot: "\<not> OPENSSL_isdigit 0x2e" by (simp add: isdigit_nat)
  show "l_component bs = (Some n, r)"
  proof (cases "r = []")
    case True
    with r have "l_dec 0 False bs = (Some n, [])" by (simp add: l_dec_iff)
    with True show ?thesis by (simp add: l_component_def bindC_def)
  next
    case False
    with r dot have "l_dec 0 False bs = (Some n, 0x2e # r)" by (simp add: l_dec_iff)
    with False show ?thesis by (simp add: l_component_def bindC_def)
  qed
qed

lemma dotted_Cons: "dotted (n # ns) = (if ns = [] then decimal n else decimal n @ 0x2e # dotted ns)"
  by (cases ns) (simp_all add: dotted_def)

lemma decimal_ne [simp]: "decimal n \<noteq> []"
  by (subst decimal.simps) simp

lemma dotted_ne: "ns \<noteq> [] \<Longrightarrow> dotted ns \<noteq> []"
  by (simp add: dotted_def)

text \<open>What is left to parse is the dotted form of the remaining components.\<close>

definition dotted_rest :: "nat list \<Rightarrow> u8 list" where
  "dotted_rest ns = (if ns = [] then [] else dotted ns)"

lemma component_dotted:
  "l_component bs = (Some n, dotted_rest ns) \<longleftrightarrow> n < 2 ^ 64 \<and> bs = dotted (n # ns)"
  by (auto simp: l_component_iff dotted_rest_def dotted_Cons dotted_ne)

lemma oid_text_loop_rep:
  "oid_text_loop E d c s = (Some (), s') \<Longrightarrow> cbs_ok c \<Longrightarrow> rep s st \<Longrightarrow> small_prefixes st \<Longrightarrow>
   length (snd st) = d \<Longrightarrow>
   \<exists>ns. (\<forall>n \<in> set ns. n < 2 ^ 64) \<and> cbs_bytes c = dotted_rest ns \<and>
     rep s' (append_top st (concat (map b128 ns)))"
proof (induction E d c s arbitrary: st rule: oid_text_loop.induct)
  case (1 E d c s)
  show ?case
  proof (cases "CBS_len c = 0")
    case True
    then have "cbs_bytes c = []" by (simp add: CBS_len_def cbs_bytes_def)
    moreover have "s' = s" using "1.prems"(1) True by (subst (asm) oid_text_loop.simps) simp
    ultimately show ?thesis using "1.prems" by (intro exI [of _ "[]"]) (simp add: dotted_rest_def)
  next
    case False
    with "1.prems"(1) obtain a c' t where p: "parse_dotted_decimal c = (Some a, c')"
      and t: "add_base128_integer E d a s = (Some (), t)" and r: "oid_text_loop E d c' t = (Some (), s')"
      by (subst (asm) oid_text_loop.simps) (auto split: prod.splits option.splits)
    from dotted_decimal.reader_SomeD [OF "1.prems"(2) p] have
      l: "l_component (cbs_bytes c) = (Some (unat a), cbs_bytes c')" and ok: "cbs_ok c'" by auto
    from add_base128.appends [OF t "1.prems"(3-5)] have rt: "rep t (append_top st (b128 (unat a)))" by blast
    from "1.IH" [OF False p [symmetric] refl t [symmetric] refl r ok rt] "1.prems"(4,5) obtain ns where
      ns: "\<forall>n \<in> set ns. n < 2 ^ 64" "cbs_bytes c' = dotted_rest ns"
        "rep s' (append_top (append_top st (b128 (unat a))) (concat (map b128 ns)))" by auto
    from l [unfolded ns(2)] have "unat a < 2 ^ 64" "cbs_bytes c = dotted (unat a # ns)"
      by (simp_all add: component_dotted)
    with ns show ?thesis
      by (intro exI [of _ "unat a # ns"]) (simp add: append_top_append dotted_rest_def)
  qed
qed

text \<open>The first two components share one base-128 number.\<close>

definition oid_first_ok :: "nat \<Rightarrow> nat \<Rightarrow> bool" where
  "oid_first_ok a b \<longleftrightarrow> a \<le> 2 \<and> (a < 2 \<longrightarrow> b \<le> 39) \<and> b \<le> 2 ^ 64 - 81"

definition oid_split :: "nat \<Rightarrow> nat list" where
  "oid_split m = (if 80 \<le> m then [2, m - 80] else [m div 40, m mod 40])"

lemma oid_split_join: "oid_first_ok a b \<Longrightarrow> oid_split (40 * a + b) = [a, b]"
proof -
  assume ok: "oid_first_ok a b"
  show ?thesis
  proof (cases "a = 2")
    case False
    with ok have "a = 0 \<or> a = 1" "b < 40" by (auto simp: oid_first_ok_def)
    then show ?thesis by (auto simp: oid_split_def)
  qed (simp add: oid_split_def)
qed

lemma CBB_add_asn1_oid_from_text_rep:
  assumes r: "CBB_add_asn1_oid_from_text E d text (length text) s = (Some (), s')"
    and s: "rep s st" "small_prefixes st" and l: "length text < 2 ^ 64"
  shows "\<exists>a b ns st'. text = dotted (a # b # ns) \<and> oid_first_ok a b \<and> (\<forall>n \<in> set ns. n < 2 ^ 64) \<and>
    spec_write d (concat (map b128 ((40 * a + b) # ns))) st = Some st' \<and> rep s' st'"
proof -
  let ?c = "CBS_init text (length text)"
  have ok: "cbs_ok ?c" "cbs_bytes ?c = text" using of_bytes_spans [of "text"] l by (simp_all add: of_bytes_def)
  from r obtain t a c1 b c2 u where t: "CBB_flush E d s = (Some (), t)"
    and a: "parse_dotted_decimal ?c = (Some a, c1)" and b: "parse_dotted_decimal c1 = (Some b, c2)"
    and g: "\<not> (2 < a \<or> a < 2 \<and> 39 < b \<or> UINT64_MAX - 80 < b)"
    and u: "add_base128_integer E d (40 * a + b) t = (Some (), u)" and v: "oid_text_loop E d c2 u = (Some (), s')"
    by (auto simp: CBB_add_asn1_oid_from_text_def bindC_def split: prod.splits option.splits if_splits)
  from dotted_decimal.reader_SomeD [OF ok(1) a] have
    la: "l_component text = (Some (unat a), cbs_bytes c1)" "cbs_ok c1" using ok(2) by auto
  from dotted_decimal.reader_SomeD [OF la(2) b] have
    lb: "l_component (cbs_bytes c1) = (Some (unat b), cbs_bytes c2)" "cbs_ok c2" by auto
  have M: "unat (UINT64_MAX - 80) = 2 ^ 64 - 81" by (simp add: UINT64_MAX_def)
  have first: "oid_first_ok (unat a) (unat b)"
    using g unfolding oid_first_ok_def word_less_nat_alt M by auto
  have join: "unat (40 * a + b) = 40 * unat a + unat b"
    using first by (simp add: oid_first_ok_def unat_word_ariths)
  from CBB_flush_spec [OF t s] obtain st0 where st0: "spec_flush d st = Some st0" "rep t st0" by blast
  have sh: "length (snd st0) = d" "small_prefixes st0" using spec_flush_shape [OF st0(1)] s(2) by blast+
  from add_base128.appends [OF u st0(2) sh(2,1)] have ru: "rep u (append_top st0 (b128 (unat (40 * a + b))))" by blast
  from oid_text_loop_rep [OF v lb(2) ru] sh obtain ns where
    ns: "\<forall>n \<in> set ns. n < 2 ^ 64" "cbs_bytes c2 = dotted_rest ns"
      "rep s' (append_top (append_top st0 (b128 (unat (40 * a + b)))) (concat (map b128 ns)))" by auto
  from lb(1) [unfolded ns(2)] have c1: "cbs_bytes c1 = dotted (unat b # ns)" by (simp add: component_dotted)
  then have "cbs_bytes c1 = dotted_rest (unat b # ns)" by (simp add: dotted_rest_def)
  with la(1) have "text = dotted (unat a # unat b # ns)" by (metis component_dotted)
  with ns first st0(1) show ?thesis
    by (intro exI [of _ "unat a"] exI [of _ "unat b"] exI [of _ ns])
      (simp add: spec_write_def append_top_append join)
qed

lemma length_decimal_le: "n < 10 ^ k \<Longrightarrow> 0 < k \<Longrightarrow> length (decimal n) \<le> k"
proof (induction k arbitrary: n)
  case (Suc k)
  show ?case
  proof (cases "n < 10")
    case True
    then show ?thesis by (simp add: decimal_small)
  next
    case False
    then have "n div 10 < 10 ^ k" "0 < k"
      using Suc.prems(1) by (simp_all add: div_less_iff_less_mult mult.commute) (cases k; simp)
    with Suc.IH [of "n div 10"] False show ?thesis by (simp add: decimal_step)
  qed
qed simp

lemma add_decimal_writer: "cbb_writer d (add_decimal E d v) (decimal (unat v))"
proof -
  have "unat v < 10 ^ 20" using unsigned_less [of v] by (rule less_le_trans) simp
  then have "length (decimal (unat v)) \<le> 20" by (rule length_decimal_le) simp
  then have "length (decimal (unat v)) < 2 ^ 64" by simp
  then show ?thesis unfolding add_decimal_def by (rule add_bytes_writer) simp
qed

lemma b128_concat_inj:
  "concat (map b128 ms) = concat (map b128 ns) \<Longrightarrow> \<forall>m \<in> set ms. m < 2 ^ 64 \<Longrightarrow> \<forall>n \<in> set ns. n < 2 ^ 64 \<Longrightarrow>
     ms = ns"
proof (induction ms arbitrary: ns)
  case Nil
  then show ?case by (cases ns) (simp_all add: b128_def)
next
  case (Cons m ms)
  obtain n ns' where ns: "ns = n # ns'" using Cons.prems(1) by (cases ns) (auto simp: b128_def)
  have "l_base128 0 (concat (map b128 (m # ms))) = (Some m, concat (map b128 ms))"
    "l_base128 0 (concat (map b128 ns)) = (Some n, concat (map b128 ns'))"
    using Cons.prems(2,3) ns by (simp_all add: l_base128_iff del: l_base128.simps)
  with Cons.prems(1) have "m = n" "concat (map b128 ms) = concat (map b128 ns')" by simp_all
  with Cons.IH [of ns'] Cons.prems(2,3) ns show ?case by simp
qed

lemma oid_to_text_loop_rep:
  "oid_to_text_loop E c s = (Some (), s') \<Longrightarrow> cbs_ok c \<Longrightarrow> rep s st \<Longrightarrow> small_prefixes st \<Longrightarrow> snd st = [] \<Longrightarrow>
   \<exists>ns. (\<forall>n \<in> set ns. n < 2 ^ 64) \<and> cbs_bytes c = concat (map b128 ns) \<and>
     rep s' (append_top st (concat (map (\<lambda>n. 0x2e # decimal n) ns)))"
proof (induction E c s arbitrary: st rule: oid_to_text_loop.induct)
  case (1 E c s)
  show ?case
  proof (cases "CBS_len c = 0")
    case True
    then have "cbs_bytes c = []" by (simp add: CBS_len_def cbs_bytes_def)
    moreover have "s' = s" using "1.prems"(1) True by (subst (asm) oid_to_text_loop.simps) simp
    ultimately show ?thesis using "1.prems" by (intro exI [of _ "[]"]) simp
  next
    case False
    with "1.prems"(1) obtain v c' t where p: "parse_base128_integer c = (Some v, c')"
      and t: "bindC (CBB_add_u8 E 0 0x2e) (\<lambda>_. add_decimal E 0 v) s = (Some (), t)"
      and r: "oid_to_text_loop E c' t = (Some (), s')"
      by (subst (asm) oid_to_text_loop.simps) (auto split: prod.splits option.splits)
    from base128.reader_SomeD [OF "1.prems"(2) p] have
      l: "l_base128 0 (cbs_bytes c) = (Some (unat v), cbs_bytes c')" and ok: "cbs_ok c'" by auto
    have len: "length (snd st) = 0" using "1.prems"(5) by simp
    have w: "cbb_writer 0 (bindC (CBB_add_u8 E 0 0x2e) (\<lambda>_. add_decimal E 0 v)) ([0x2e] @ decimal (unat v))"
      by (rule writer_seq [OF add_u8_writer add_decimal_writer])
    from cbb_writer.appends [OF w t "1.prems"(3,4) len]
    have rt: "rep t (append_top st (0x2e # decimal (unat v)))" by simp
    have e: "snd (append_top st (0x2e # decimal (unat v))) = []"
      using "1.prems"(5) by (cases st) (simp add: append_top_def)
    from "1.IH" [OF False p [symmetric] refl t [symmetric] refl r ok rt _ e] "1.prems"(4) obtain ns where
      ns: "\<forall>n \<in> set ns. n < 2 ^ 64" "cbs_bytes c' = concat (map b128 ns)"
        "rep s' (append_top (append_top st (0x2e # decimal (unat v))) (concat (map (\<lambda>n. 0x2e # decimal n) ns)))"
      by auto
    from l have "unat v < 2 ^ 64" "cbs_bytes c = b128 (unat v) @ cbs_bytes c'"
      by (simp_all add: l_base128_iff del: l_base128.simps)
    with ns show ?thesis
      by (intro exI [of _ "unat v # ns"]) (simp add: append_top_append)
  qed
qed

lemma oid_first_writer:
  "cbb_writer 0 (if 80 \<le> v
      then bindC (CBB_add_bytes E 0 [0x32, 0x2e] 2) (\<lambda>_. add_decimal E 0 (v - 80))
      else bindC (add_decimal E 0 (v div 40)) (\<lambda>_.
           bindC (CBB_add_u8 E 0 0x2e) (\<lambda>_. add_decimal E 0 (v mod 40)))) (dotted (oid_split (unat v)))"
proof (cases "80 \<le> v")
  case True
  then have v: "unat (v - 80) = unat v - 80" "80 \<le> unat v" by (simp_all add: unat_sub word_le_nat_alt)
  have "cbb_writer 0 (CBB_add_bytes E 0 [0x32, 0x2e] 2) [0x32, 0x2e]" by (rule add_bytes_writer) simp_all
  from writer_seq [OF this add_decimal_writer [of 0 E "v - 80"]] v True show ?thesis
    by (simp add: oid_split_def dotted_def decimal_small)
next
  case False
  then have v: "\<not> 80 \<le> unat v" by (simp add: word_le_nat_alt)
  have d: "unat (v div 40) = unat v div 40" "unat (v mod 40) = unat v mod 40"
    by (simp_all add: unat_div unat_mod)
  from writer_seq [OF add_decimal_writer [of 0 E "v div 40"]
      writer_seq [OF add_u8_writer [of 0 E "0x2e"] add_decimal_writer [of 0 E "v mod 40"]]] v False d
  show ?thesis by (simp add: oid_split_def dotted_def)
qed

lemma CBS_asn1_oid_to_text_rep:
  assumes r: "CBS_asn1_oid_to_text E c = Some txt" and ok: "cbs_ok c"
  shows "\<exists>m ns. cbs_bytes c = concat (map b128 (m # ns)) \<and> (\<forall>n \<in> set (m # ns). n < 2 ^ 64) \<and>
    take (length (dotted (oid_split m @ ns)) + 1) txt = dotted (oid_split m @ ns) @ [0]"
proof -
  let ?first = "\<lambda>v :: u64. if 80 \<le> v
      then bindC (CBB_add_bytes E 0 [0x32, 0x2e] 2) (\<lambda>_. add_decimal E 0 (v - 80))
      else bindC (add_decimal E 0 (v div 40)) (\<lambda>_.
           bindC (CBB_add_u8 E 0 0x2e) (\<lambda>_. add_decimal E 0 (v mod 40)))"
  from r obtain s0 v c1 where s0: "CBB_init E 32 = (Some (), s0)" and v: "parse_base128_integer c = (Some v, c1)"
    by (auto simp: CBS_asn1_oid_to_text_def split: prod.splits option.splits)
  with r obtain s1 s2 s3 s4 n where s1: "?first v s0 = (Some (), s1)" and s2: "oid_to_text_loop E c1 s1 = (Some (), s2)"
    and s3: "CBB_add_u8 E 0 0 s2 = (Some (), s3)" and s4: "CBB_finish E 0 True s3 = (Some (Some txt, n), s4)"
    unfolding CBS_asn1_oid_to_text_def Let_def
    by (auto simp: bindC_def split: prod.splits option.splits if_splits)
  have r0: "rep s0 ([], [])" using CBB_init_rep [OF s0] by simp
  have sm: "small_prefixes (x, [])" for x by (simp add: small_prefixes_def)
  from base128.reader_SomeD [OF ok v] have
    l: "l_base128 0 (cbs_bytes c) = (Some (unat v), cbs_bytes c1)" and ok1: "cbs_ok c1" by auto
  from cbb_writer.appends [OF oid_first_writer s1 r0 sm] have
    r1: "rep s1 (dotted (oid_split (unat v)), [])" by (simp add: append_top_def)
  from oid_to_text_loop_rep [OF s2 ok1 r1 sm] obtain ns where
    ns: "\<forall>n \<in> set ns. n < 2 ^ 64" "cbs_bytes c1 = concat (map b128 ns)" and
    r2: "rep s2 (dotted (oid_split (unat v)) @ concat (map (\<lambda>n. 0x2e # decimal n) ns), [])"
    by (auto simp: append_top_def)
  have dot: "dotted (oid_split (unat v)) @ concat (map (\<lambda>n. 0x2e # decimal n) ns) = dotted (oid_split (unat v) @ ns)"
    by (simp add: oid_split_def dotted_def)
  from add_u8.appends [OF s3 r2 sm] have
    r3: "rep s3 (dotted (oid_split (unat v) @ ns) @ [0], [])" by (simp add: append_top_def dot)
  from CBB_finish_rep [OF s4 r3 sm] have "n = length (dotted (oid_split (unat v) @ ns)) + 1"
    "take n txt = dotted (oid_split (unat v) @ ns) @ [0]" by auto
  moreover from l have "unat v < 2 ^ 64" "cbs_bytes c = b128 (unat v) @ cbs_bytes c1"
    by (simp_all add: l_base128_iff del: l_base128.simps)
  ultimately show ?thesis using ns by (intro exI [of _ "unat v"] exI [of _ ns]) simp
qed

subsection \<open>Properties\<close>

text \<open>\<open>CBB_add_asn1_int64_with_tag\<close> appends the DER element with the given tag and the
  shortest two's complement form of the value, for every 64-bit value, and succeeds whenever
  the buffer has room for it.\<close>

theorem CBB_add_asn1_int64_with_tag_exact:
  assumes "rep s st" and "small_prefixes st" and "length (snd st) = d"
    and "base_len s + length (der_element tag (der_int (sint v))) \<le> base_cap s"
  shows "\<exists>s'. CBB_add_asn1_int64_with_tag E d v tag s = (Some (), s') \<and>
    written s' = written s @ der_element tag (der_int (sint v)) \<and> base_cap s' = base_cap s"
proof -
  obtain s' where s': "CBB_add_asn1_int64_with_tag E d v tag s = (Some (), s')" "base_cap s' = base_cap s"
    using add_asn1_int64.total [OF assms, of E] by blast
  with add_asn1_int64.appends [OF s'(1) assms(1-3)] show ?thesis by blast
qed

theorem CBB_add_asn1_int64_with_tag_exact_witness:
  "\<exists>s'. CBB_add_asn1_int64_with_tag calm_heap 0 (-200) CBS_ASN1_INTEGER (snd (CBB_init_fixed (Some [0, 0, 0, 0]) 4)) =
     (Some (), s') \<and> written s' = [2, 2, 255, 56]"
proof -
  have r: "rep (snd (CBB_init_fixed (Some [0, 0, 0, 0]) 4)) ([], [])" by (rule CBB_init_fixed_rep) simp_all
  have "sint (-200 :: u64) = -200" using sint_of_int_64 [of "-200"] by simp
  then have e: "der_element CBS_ASN1_INTEGER (der_int (sint (-200 :: u64))) = [2, 2, 255, 56]"
    using der_integer_neg by (simp add: der_element_def der_integer_def)
  show ?thesis
    using CBB_add_asn1_int64_with_tag_exact [OF r, of 0 CBS_ASN1_INTEGER "-200" calm_heap] unfolding e
    by (auto simp add: small_prefixes_def CBB_init_fixed_def cbb_init_def written_def)
qed

text \<open>C27: object identifier text round trip: if \<open>CBB_add_asn1_oid_from_text\<close> accepts a text and
  \<open>CBS_asn1_oid_to_text\<close> then returns a string for the bytes written, that string is the same
  text with its terminator, and the bytes are a valid OBJECT IDENTIFIER body.\<close>

theorem oid_text_roundtrip:
  assumes w: "CBB_add_asn1_oid_from_text E 0 txt (length txt) s = (Some (), s')"
    and s: "rep s ([], [])" and l: "length txt < 2 ^ 64"
    and r: "CBS_asn1_oid_to_text E' (of_bytes (written s')) = Some out"
  shows "take (length txt + 1) out = txt @ [0] \<and> CBS_is_valid_asn1_oid (of_bytes (written s'))"
proof -
  have sm: "small_prefixes ([], [])" by (simp add: small_prefixes_def)
  from CBB_add_asn1_oid_from_text_rep [OF w s sm l] obtain a b ns st' where
    tx: "txt = dotted (a # b # ns)" and f: "oid_first_ok a b" and n: "\<forall>n \<in> set ns. n < 2 ^ 64"
    and st': "spec_write 0 (concat (map b128 ((40 * a + b) # ns))) ([], []) = Some st'" "rep s' st'" by blast
  from st'(1) have "st' = (concat (map b128 ((40 * a + b) # ns)), [])"
    by (simp add: spec_write_def spec_flush_idle append_top_def)
  with st'(2) have wr: "written s' = concat (map b128 ((40 * a + b) # ns))"
    by (simp add: rep_def layout_def)
  have "cbb_ok s'" using st'(2) by (simp add: rep_def)
  then have "length (written s') < 2 ^ 64" using written_length [of s'] by (simp add: cbb_ok_def)
  then have ok: "cbs_ok (of_bytes (written s'))" by simp
  from CBS_asn1_oid_to_text_rep [OF r ok] obtain m ms where
    m: "written s' = concat (map b128 (m # ms))" "\<forall>n \<in> set (m # ms). n < 2 ^ 64"
      "take (length (dotted (oid_split m @ ms)) + 1) out = dotted (oid_split m @ ms) @ [0]" by auto
  have "\<forall>n \<in> set ((40 * a + b) # ns). n < 2 ^ 64" using n f by (auto simp: oid_first_ok_def)
  with b128_concat_inj [of "m # ms" "(40 * a + b) # ns"] m(1,2) wr have "m = 40 * a + b" "ms = ns" by simp_all
  then have "dotted (oid_split m @ ms) = txt" using tx oid_split_join [OF f] by simp
  moreover have "l_oid 0 (written s')" using wr by (subst l_oid_iff) (simp, blast)
  moreover have "written s' \<noteq> []" using wr by (simp add: b128_def)
  moreover have "CBS_len (of_bytes (written s')) = length (written s')"
    by (simp add: of_bytes_def CBS_init_def CBS_len_def)
  ultimately show ?thesis
    using m(3) oid_loop_eq [OF ok] by (simp add: CBS_is_valid_asn1_oid_def)
qed

lemma oid_text_example:
  "CBB_add_asn1_oid_from_text E 0 [0x31, 0x2e, 0x32] (length [0x31, 0x2e, 0x32 :: u8]) (snd (CBB_init_fixed (Some [0, 0]) 2)) =
     (Some (), \<lparr>base_buf = Some [42, 0], base_len = 1, base_cap = 2,
        base_can_resize = False, base_error = False, cbb_children = []\<rparr>)"
  by (simp add: CBB_add_asn1_oid_from_text_def CBB_init_fixed_def cbb_init_def bindC_def CBB_flush.simps
      cbb_get_base_def parse_dotted_decimal_def CBS_get_u64_decimal_def decimal_loop.simps CBS_init_def
      CBS_len_def CBS_data_def CBS_skip_def cbs_get_def OPENSSL_isdigit_def Let_def UINT64_MAX_def
      CBS_get_u8_def add_base128_integer_def base128_len_loop.simps CBB_add_u8_def cbb_add_u_def
      CBB_add_space_def cbb_buffer_add_def cbb_buffer_reserve_def buf_write_def oid_text_loop.simps)

lemma oid_to_text_example:
  "CBS_asn1_oid_to_text calm_heap (of_bytes [42]) =
     Some (0x31 # 0x2e # 0x32 # 0 # drop (Suc (Suc (Suc (Suc 0)))) (map (\<lambda>_. 0) [0..<32]))"
  by (simp add: CBS_asn1_oid_to_text_def CBB_init_def OPENSSL_malloc_def OPENSSL_MALLOC_PREFIX_def
      calm_heap_def CBB_init_fixed_def cbb_init_def bindC_def CBB_flush.simps of_bytes_def cbb_get_base_def
      CBS_init_def CBS_len_def parse_base128_integer_def parse_base128_loop.simps CBS_data_def CBS_skip_def
      cbs_get_def Let_def CBS_get_u8_def add_decimal_def decimal.simps CBB_add_u8_def cbb_add_u_def
      CBB_add_space_def CBB_add_bytes_def CBB_finish_def cbb_buffer_add_def cbb_buffer_reserve_def
      buf_write_def oid_to_text_loop.simps)

theorem oid_text_roundtrip_witness:
  "\<exists>out. CBS_asn1_oid_to_text calm_heap (of_bytes [42]) = Some out \<and>
     take (length [0x31, 0x2e, 0x32 :: u8] + 1) out = [0x31, 0x2e, 0x32] @ [0] \<and>
     CBS_is_valid_asn1_oid (of_bytes [42])"
proof -
  have r: "rep (snd (CBB_init_fixed (Some [0, 0]) 2)) ([], [])" by (rule CBB_init_fixed_rep) simp_all
  have w: "written \<lparr>base_buf = Some [42, 0], base_len = 1, base_cap = 2, base_can_resize = False,
      base_error = False, cbb_children = []\<rparr> = [42]" by (simp add: written_def buf_bytes_def)
  have l: "length [0x31, 0x2e, 0x32 :: u8] < 2 ^ 64" by simp
  from oid_text_roundtrip [OF oid_text_example [of calm_heap] r l, unfolded w, OF oid_to_text_example]
  show ?thesis using oid_to_text_example by blast
qed

end
