(* ===== verification/Win32_Window.thy ===== *)
theory Win32_Window
  imports Prelude
begin

text \<open>
  The Windows runner: \<open>win32_window.cpp\<close>, \<open>flutter_window.cpp\<close> and the message loop of
  \<open>main.cpp\<close>. The window objects live in a map from object numbers (the \<open>this\<close> pointers) to
  records of their fields; a call to the operating system or to the Flutter engine is appended
  to the trace \<open>calls\<close>. What the system answers is a parameter, the record \<open>win_os\<close>: the
  messages it sends to the window procedure before \<open>CreateWindow\<close> and \<open>DestroyWindow\<close> return,
  what it dispatches while the calls of \<open>OnCreate\<close> run, the client area, the theme value of the
  registry and so on. Those messages re-enter the program: \<open>Destroy\<close> calls \<open>DestroyWindow\<close>, which
  sends WM\_DESTROY, whose handler calls \<open>Destroy\<close> again. Messages sent during a call that is the last
  step of a handler are those that follow it. A call through a null pointer is the outcome \<^term>\<open>None\<close>.
\<close>

type_synonym hwnd = nat
type_synonym obj = nat
type_synonym lresult = int

record rect =
  rc_left :: u32
  rc_top :: u32
  rc_right :: u32
  rc_bottom :: u32

datatype message =
    WM_NCCREATE obj \<comment> \<open>\<open>lpCreateParams\<close> of the CREATESTRUCT\<close>
  | WM_DESTROY
  | WM_DPICHANGED rect
  | WM_SIZE
  | WM_ACTIVATE
  | WM_DWMCOLORIZATIONCOLORCHANGED
  | WM_FONTCHANGE
  | WM_OTHER nat

datatype os_call =
    Call_RegisterClass
  | Call_UnregisterClass
  | Call_CreateWindow "u16 list" "u32 \<times> u32 \<times> u32 \<times> u32"
  | Call_EnableNonClientDpiScaling hwnd
  | Call_DestroyWindow hwnd
  | Call_PostQuitMessage
  | Call_SetWindowPos hwnd "u32 \<times> u32 \<times> u32 \<times> u32"
  | Call_MoveWindow hwnd "u32 \<times> u32 \<times> u32 \<times> u32"
  | Call_SetFocus "hwnd option"
  | Call_SetParent hwnd "hwnd option"
  | Call_SetDarkMode hwnd bool
  | Call_ShowWindow "hwnd option"
  | Call_NewController u32 u32
  | Call_DeleteController
  | Call_RegisterPlugins
  | Call_SetNextFrameCallback obj
  | Call_ForceRedraw
  | Call_ReloadSystemFonts

text \<open>The dynamic type of an object: while \<open>~Win32Window\<close> runs it is \<open>Win32_Class\<close>.\<close>

datatype obj_class = Win32_Class | Flutter_Class

record window =
  quit_on_close :: bool
  window_handle :: "hwnd option"
  child_content :: "hwnd option"
  flutter_controller :: bool \<comment> \<open>whether the \<open>unique_ptr\<close> holds a controller\<close>
  dyn_class :: obj_class

record world =
  objs :: "obj \<Rightarrow> window"
  g_active_window_count :: int
  class_registered :: bool
  user_data :: "hwnd \<Rightarrow> obj option" \<comment> \<open>GWLP\_USERDATA of each window\<close>
  live :: "hwnd list" \<comment> \<open>the windows the system has not destroyed\<close>
  calls :: "os_call list"

text \<open>What the system dispatches: a message, or a close request, which the default window procedure
  answers by destroying the window.\<close>

datatype event = Ev_Message hwnd message | Ev_Close hwnd

text \<open>\<open>os_create\<close>: the handle, the messages to the new window, and whether it succeeds, given the live
  windows and the last argument; \<open>os_meanwhile\<close>: what is dispatched while a call runs.\<close>

record win_os =
  os_create :: "hwnd list \<Rightarrow> obj \<Rightarrow> hwnd \<times> message list \<times> bool"
  os_destroy_messages :: "hwnd \<Rightarrow> message list"
  os_meanwhile :: "os_call \<Rightarrow> event list"
  os_DefWindowProc :: "hwnd option \<Rightarrow> message \<Rightarrow> lresult"
  os_client_rect :: "hwnd option \<Rightarrow> rect"
  os_light_theme :: "u32 option" \<comment> \<open>the registry value, when it could be read\<close>
  os_dpi_scaling :: bool \<comment> \<open>User32 loads and exports EnableNonClientDpiScaling\<close>
  os_scale :: "u32 \<Rightarrow> u32" \<comment> \<open>the floating-point product with the monitor's scale\<close>
  os_ShowWindow :: "hwnd option \<Rightarrow> bool"
  os_engine_ok :: bool
  os_view_ok :: bool
  os_native_window :: hwnd
  os_top_level_proc :: "hwnd \<Rightarrow> message \<Rightarrow> lresult option"

definition call :: "os_call \<Rightarrow> world \<Rightarrow> world" where
  "call c w = w\<lparr>calls := calls w @ [c]\<rparr>"

definition upd :: "obj \<Rightarrow> (window \<Rightarrow> window) \<Rightarrow> world \<Rightarrow> world" where
  "upd i f w = w\<lparr>objs := (objs w)(i := f (objs w i))\<rparr>"

subsection \<open>Window class registration\<close>

definition GetWindowClass :: "world \<Rightarrow> world" where
  "GetWindowClass w =
     (if class_registered w then w else (call Call_RegisterClass w)\<lparr>class_registered := True\<rparr>)"

definition UnregisterWindowClass :: "world \<Rightarrow> world" where
  "UnregisterWindowClass w = (call Call_UnregisterClass w)\<lparr>class_registered := False\<rparr>"

subsection \<open>Small operations\<close>

definition EnableFullDpiSupportIfAvailable :: "win_os \<Rightarrow> hwnd \<Rightarrow> world \<Rightarrow> world" where
  "EnableFullDpiSupportIfAvailable env h w =
     (if os_dpi_scaling env then call (Call_EnableNonClientDpiScaling h) w else w)"

definition UpdateTheme :: "win_os \<Rightarrow> hwnd \<Rightarrow> world \<Rightarrow> world" where
  "UpdateTheme env h w =
     (case os_light_theme env of None \<Rightarrow> w | Some light_mode \<Rightarrow> call (Call_SetDarkMode h (light_mode = 0)) w)"

definition GetThisFromHandle :: "hwnd \<Rightarrow> world \<Rightarrow> obj option" where
  "GetThisFromHandle h w = user_data w h"

definition GetClientArea :: "win_os \<Rightarrow> obj \<Rightarrow> world \<Rightarrow> rect" where
  "GetClientArea env i w = os_client_rect env (window_handle (objs w i))"

definition rect_place :: "rect \<Rightarrow> u32 \<times> u32 \<times> u32 \<times> u32" where
  "rect_place r = (rc_left r, rc_top r, rc_right r - rc_left r, rc_bottom r - rc_top r)"

definition Show :: "win_os \<Rightarrow> obj \<Rightarrow> world \<Rightarrow> bool \<times> world" where
  "Show env i w = (let h = window_handle (objs w i) in (os_ShowWindow env h, call (Call_ShowWindow h) w))"

definition GetHandle :: "obj \<Rightarrow> world \<Rightarrow> hwnd option" where
  "GetHandle i w = window_handle (objs w i)"

definition SetQuitOnClose :: "bool \<Rightarrow> obj \<Rightarrow> world \<Rightarrow> world" where
  "SetQuitOnClose q i = upd i (\<lambda>o'. o'\<lparr>quit_on_close := q\<rparr>)"

definition Win32_OnDestroy :: "obj \<Rightarrow> world \<Rightarrow> world" where
  "Win32_OnDestroy i w = w"

definition Flutter_OnDestroy :: "obj \<Rightarrow> world \<Rightarrow> world" where
  "Flutter_OnDestroy i w =
     (let w = (if flutter_controller (objs w i)
               then call Call_DeleteController (upd i (\<lambda>o'. o'\<lparr>flutter_controller := False\<rparr>) w) else w)
      in Win32_OnDestroy i w)"

text \<open>The virtual call: it goes to the override of the object's dynamic type.\<close>

definition OnDestroy :: "obj \<Rightarrow> world \<Rightarrow> world" where
  "OnDestroy i w =
     (case dyn_class (objs w i) of Win32_Class \<Rightarrow> Win32_OnDestroy i w | Flutter_Class \<Rightarrow> Flutter_OnDestroy i w)"

lemma OnDestroy_handle [simp]: "window_handle (objs (OnDestroy i w) j) = window_handle (objs w j)"
  by (simp add: OnDestroy_def Win32_OnDestroy_def Flutter_OnDestroy_def call_def upd_def split: obj_class.split)

subsection \<open>Destroy and the window procedure\<close>

function Destroy :: "win_os \<Rightarrow> obj \<Rightarrow> world \<Rightarrow> world option"
  and DestroyWindow :: "win_os \<Rightarrow> hwnd \<Rightarrow> world \<Rightarrow> world option"
  and deliver :: "win_os \<Rightarrow> hwnd \<Rightarrow> message list \<Rightarrow> world \<Rightarrow> world option"
  and WndProc :: "win_os \<Rightarrow> hwnd \<Rightarrow> message \<Rightarrow> world \<Rightarrow> (lresult \<times> world) option"
  and Flutter_MessageHandler :: "win_os \<Rightarrow> obj \<Rightarrow> hwnd \<Rightarrow> message \<Rightarrow> world \<Rightarrow> (lresult \<times> world) option"
  and Win32_MessageHandler :: "win_os \<Rightarrow> obj \<Rightarrow> hwnd \<Rightarrow> message \<Rightarrow> world \<Rightarrow> (lresult \<times> world) option"
where
  "Destroy env i w =
     (let w = OnDestroy i w in
      case (case window_handle (objs w i) of
              None \<Rightarrow> Some w
            | Some h \<Rightarrow> map_option (upd i (\<lambda>o'. o'\<lparr>window_handle := None\<rparr>)) (DestroyWindow env h w)) of
        None \<Rightarrow> None
      | Some w \<Rightarrow> Some (if g_active_window_count w = 0 then UnregisterWindowClass w else w))"
| "DestroyWindow env h w =
     (let w = call (Call_DestroyWindow h) w in
      if h \<in> set (live w)
      then map_option (\<lambda>w. w\<lparr>live := removeAll h (live w), user_data := (user_data w)(h := None)\<rparr>)
             (deliver env h (os_destroy_messages env h) w)
      else Some w)"
| "deliver env h [] w = Some w"
| "deliver env h (m # ms) w =
     (case WndProc env h m w of None \<Rightarrow> None | Some (r, w) \<Rightarrow> deliver env h ms w)"
| "WndProc env h m w =
     (case m of
        WM_NCCREATE that \<Rightarrow>
          let w = w\<lparr>user_data := (user_data w)(h := Some that)\<rparr>;
              w = EnableFullDpiSupportIfAvailable env h w;
              w = upd that (\<lambda>o'. o'\<lparr>window_handle := Some h\<rparr>) w
          in Some (os_DefWindowProc env (Some h) m, w)
      | _ \<Rightarrow>
          (case GetThisFromHandle h w of
             Some that \<Rightarrow>
               (case dyn_class (objs w that) of
                  Win32_Class \<Rightarrow> Win32_MessageHandler env that h m w
                | Flutter_Class \<Rightarrow> Flutter_MessageHandler env that h m w)
           | None \<Rightarrow> Some (os_DefWindowProc env (Some h) m, w)))"
| "Flutter_MessageHandler env i h m w =
     (case (if flutter_controller (objs w i) then os_top_level_proc env h m else None) of
        Some result \<Rightarrow> Some (result, w)
      | None \<Rightarrow>
          if m = WM_FONTCHANGE
          then (if flutter_controller (objs w i)
                then Win32_MessageHandler env i h m (call Call_ReloadSystemFonts w) else None)
          else Win32_MessageHandler env i h m w)"
| "Win32_MessageHandler env i h m w =
     (case m of
        WM_DESTROY \<Rightarrow>
          (case Destroy env i (upd i (\<lambda>o'. o'\<lparr>window_handle := None\<rparr>) w) of
             None \<Rightarrow> None
           | Some w \<Rightarrow> Some (0, if quit_on_close (objs w i) then call Call_PostQuitMessage w else w))
      | WM_DPICHANGED newRectSize \<Rightarrow> Some (0, call (Call_SetWindowPos h (rect_place newRectSize)) w)
      | WM_SIZE \<Rightarrow>
          let rect = GetClientArea env i w in
          Some (0, case child_content (objs w i) of None \<Rightarrow> w
                   | Some c \<Rightarrow> call (Call_MoveWindow c (rect_place rect)) w)
      | WM_ACTIVATE \<Rightarrow>
          Some (0, case child_content (objs w i) of None \<Rightarrow> w | Some c \<Rightarrow> call (Call_SetFocus (Some c)) w)
      | WM_DWMCOLORIZATIONCOLORCHANGED \<Rightarrow> Some (0, UpdateTheme env h w)
      | _ \<Rightarrow> Some (os_DefWindowProc env (window_handle (objs w i)) m, w))"
  by pat_completeness auto

text \<open>The recursion ends because the handler of WM\_DESTROY clears the handle before it calls
  \<open>Destroy\<close>, and without a handle \<open>Destroy\<close> sends nothing.\<close>

termination
  by (relation "inv_image (less_than <*lex*> less_than)
      (\<lambda>x. case x of
         Inl (Inl (env, i, w)) \<Rightarrow> (if window_handle (objs w i) = None then 0 else 2, 0)
       | Inl (Inr (Inl (env, h, w))) \<Rightarrow> (1, Suc (4 * length (os_destroy_messages env h)))
       | Inl (Inr (Inr (env, h, ms, w))) \<Rightarrow> (1, 4 * length ms)
       | Inr (Inl (env, h, m, w)) \<Rightarrow> (1, 3)
       | Inr (Inr (Inl (env, i, h, m, w))) \<Rightarrow> (1, 2)
       | Inr (Inr (Inr (env, i, h, m, w))) \<Rightarrow> (1, 1))")
    (auto simp: upd_def)

declare Destroy.simps [simp del] DestroyWindow.simps [simp del] WndProc.simps [simp del]
  Flutter_MessageHandler.simps [simp del] Win32_MessageHandler.simps [simp del]

subsection \<open>Creation, construction and destruction\<close>

text \<open>The system's part of \<open>CreateWindow\<close>: it picks a handle, sends its messages and returns
  the handle, or destroys the window again and returns null.\<close>

definition CreateWindow :: "win_os \<Rightarrow> obj \<Rightarrow> u16 list \<Rightarrow> u32 \<times> u32 \<times> u32 \<times> u32 \<Rightarrow> world \<Rightarrow> (hwnd option \<times> world) option" where
  "CreateWindow env i title place w =
     (case os_create env (live w) i of (h, ms, ok) \<Rightarrow>
        map_option (\<lambda>w. if ok then (Some h, w)
            else (None, w\<lparr>live := removeAll h (live w), user_data := (user_data w)(h := None)\<rparr>))
          (deliver env h ms ((call (Call_CreateWindow title place) w)\<lparr>live := h # live w\<rparr>)))"

text \<open>Dispatching events, and a call of the system during which events are dispatched.\<close>

fun dispatch :: "win_os \<Rightarrow> event \<Rightarrow> world \<Rightarrow> world option" where
  "dispatch env (Ev_Message h m) w = (if h \<in> set (live w) then map_option snd (WndProc env h m w) else Some w)"
| "dispatch env (Ev_Close h) w = (if h \<in> set (live w) then DestroyWindow env h w else Some w)"

fun dispatch_all :: "win_os \<Rightarrow> event list \<Rightarrow> world \<Rightarrow> world option" where
  "dispatch_all env [] w = Some w"
| "dispatch_all env (e # es) w = (case dispatch env e w of None \<Rightarrow> None | Some w \<Rightarrow> dispatch_all env es w)"

definition during :: "win_os \<Rightarrow> os_call \<Rightarrow> world \<Rightarrow> world option" where
  "during env c w = dispatch_all env (os_meanwhile env c) (call c w)"

definition SetChildContent :: "win_os \<Rightarrow> hwnd \<Rightarrow> obj \<Rightarrow> world \<Rightarrow> world option" where
  "SetChildContent env content i w =
     (let w = upd i (\<lambda>o'. o'\<lparr>child_content := Some content\<rparr>) w
      in case during env (Call_SetParent content (window_handle (objs w i))) w of
           None \<Rightarrow> None
         | Some w \<Rightarrow>
             (case during env (Call_MoveWindow content (rect_place (GetClientArea env i w))) w of
                None \<Rightarrow> None
              | Some w \<Rightarrow> during env (Call_SetFocus (child_content (objs w i))) w))"

definition Win32_OnCreate :: "world \<Rightarrow> bool \<times> world" where
  "Win32_OnCreate w = (True, w)"

text \<open>The member is assigned when the controller is made; a controller it held before is deleted. The
  member is read again after the plugins and after the child window.\<close>

definition Flutter_OnCreate :: "win_os \<Rightarrow> obj \<Rightarrow> world \<Rightarrow> (bool \<times> world) option" where
  "Flutter_OnCreate env i w =
     (case Win32_OnCreate w of (ok, w) \<Rightarrow>
        if \<not> ok then Some (False, w)
        else
          let frame = GetClientArea env i w in
          case during env (Call_NewController (rc_right frame - rc_left frame) (rc_bottom frame - rc_top frame)) w of
            None \<Rightarrow> None
          | Some w \<Rightarrow>
              let w = (if flutter_controller (objs w i) then call Call_DeleteController w else w);
                  w = upd i (\<lambda>o'. o'\<lparr>flutter_controller := True\<rparr>) w
              in if \<not> os_engine_ok env \<or> \<not> os_view_ok env then Some (False, w)
                 else
                   case during env Call_RegisterPlugins w of
                     None \<Rightarrow> None
                   | Some w \<Rightarrow>
                       if \<not> flutter_controller (objs w i) then None
                       else
                         case SetChildContent env (os_native_window env) i w of
                           None \<Rightarrow> None
                         | Some w \<Rightarrow>
                             if \<not> flutter_controller (objs w i) then None
                             else Some (True, call Call_ForceRedraw (call (Call_SetNextFrameCallback i) w)))"

definition OnCreate :: "win_os \<Rightarrow> obj \<Rightarrow> world \<Rightarrow> (bool \<times> world) option" where
  "OnCreate env i w =
     (case dyn_class (objs w i) of Win32_Class \<Rightarrow> Some (Win32_OnCreate w) | Flutter_Class \<Rightarrow> Flutter_OnCreate env i w)"

definition Create :: "win_os \<Rightarrow> obj \<Rightarrow> u16 list \<Rightarrow> u32 \<times> u32 \<Rightarrow> u32 \<times> u32 \<Rightarrow> world \<Rightarrow> (bool \<times> world) option" where
  "Create env i title origin extent w =
     (case Destroy env i w of
        None \<Rightarrow> None
      | Some w \<Rightarrow>
          let w = GetWindowClass w;
              place = (os_scale env (fst origin), os_scale env (snd origin),
                       os_scale env (fst extent), os_scale env (snd extent))
          in case CreateWindow env i title place w of
               None \<Rightarrow> None
             | Some (None, w) \<Rightarrow> Some (False, w)
             | Some (Some h, w) \<Rightarrow> OnCreate env i (UpdateTheme env h w))"

text \<open>The constructors of both classes, and the destructor: \<open>~FlutterWindow\<close> has an empty body,
  then the members of \<open>FlutterWindow\<close> are destroyed, then \<open>~Win32Window\<close> runs.\<close>

definition new_window :: "obj \<Rightarrow> world \<Rightarrow> world" where
  "new_window i w =
     w\<lparr>objs := (objs w)(i := \<lparr>quit_on_close = False, window_handle = None, child_content = None,
         flutter_controller = False, dyn_class = Flutter_Class\<rparr>),
       g_active_window_count := g_active_window_count w + 1\<rparr>"

definition delete_window :: "win_os \<Rightarrow> obj \<Rightarrow> world \<Rightarrow> world option" where
  "delete_window env i w =
     (let w = (if flutter_controller (objs w i)
               then call Call_DeleteController (upd i (\<lambda>o'. o'\<lparr>flutter_controller := False\<rparr>) w) else w);
          w = upd i (\<lambda>o'. o'\<lparr>dyn_class := Win32_Class\<rparr>) w
      in Destroy env i (w\<lparr>g_active_window_count := g_active_window_count w - 1\<rparr>))"

subsection \<open>The message loop of the program\<close>

text \<open>The loop ends when the queue is empty and the quit message was posted.\<close>

datatype loop_result = Quit world | Waiting world

fun message_loop :: "win_os \<Rightarrow> event list \<Rightarrow> world \<Rightarrow> loop_result option" where
  "message_loop env [] w = Some (if Call_PostQuitMessage \<in> set (calls w) then Quit w else Waiting w)"
| "message_loop env (e # es) w = (case dispatch env e w of None \<Rightarrow> None | Some w \<Rightarrow> message_loop env es w)"

definition app_title :: "u16 list" where
  "app_title = map (\<lambda>c. of_nat (of_char c)) ''sayaaratukcom''"

definition EXIT_SUCCESS :: nat where "EXIT_SUCCESS = 0"
definition EXIT_FAILURE :: nat where "EXIT_FAILURE = 1"

text \<open>\<open>Inl w\<close>: the loop still waits for messages.\<close>

definition wWinMain :: "win_os \<Rightarrow> event list \<Rightarrow> world \<Rightarrow> (world + nat \<times> world) option" where
  "wWinMain env es w =
     (case Create env 0 app_title (10, 10) (1280, 720) (new_window 0 w) of
        None \<Rightarrow> None
      | Some (False, w) \<Rightarrow> map_option (\<lambda>w. Inr (EXIT_FAILURE, w)) (delete_window env 0 w)
      | Some (True, w) \<Rightarrow>
          (case message_loop env es (SetQuitOnClose True 0 w) of
             None \<Rightarrow> None
           | Some (Waiting w) \<Rightarrow> Some (Inl w)
           | Some (Quit w) \<Rightarrow> map_option (\<lambda>w. Inr (EXIT_SUCCESS, w)) (delete_window env 0 w)))"

definition process_start :: world where
  "process_start = \<lparr>objs = (\<lambda>_. \<lparr>quit_on_close = False, window_handle = None, child_content = None,
       flutter_controller = False, dyn_class = Win32_Class\<rparr>),
     g_active_window_count = 0, class_registered = False, user_data = (\<lambda>_. None), live = [], calls = []\<rparr>"

subsection \<open>Invariant and documented behaviour of the system\<close>

text \<open>
  \<open>os_ok\<close> is what the documentation of the system says, and nothing about plugins. \<open>CreateWindow\<close> uses a
  handle that no live window has; a WM\_NCCREATE carries its last argument, other messages may come
  before it, and no WM\_DESTROY comes when the creation succeeds; nothing is said of the messages of a
  creation that fails. A window that is destroyed is sent WM\_DESTROY and no WM\_NCCREATE. Neither
  message is dispatched at another time.
\<close>

fun plain_event :: "event \<Rightarrow> bool" where
  "plain_event (Ev_Message h m) \<longleftrightarrow> m \<noteq> WM_DESTROY \<and> (\<forall>j. m \<noteq> WM_NCCREATE j)"
| "plain_event (Ev_Close h) \<longleftrightarrow> True"

definition os_ok :: "win_os \<Rightarrow> bool" where
  "os_ok env \<longleftrightarrow>
     (\<forall>l i h ms ok. os_create env l i = (h, ms, ok) \<longrightarrow>
        h \<notin> set l \<and> (\<forall>j. WM_NCCREATE j \<in> set ms \<longrightarrow> j = i) \<and>
        (ok \<longrightarrow> WM_NCCREATE i \<in> set ms \<and> WM_DESTROY \<notin> set ms)) \<and>
     (\<forall>h. WM_DESTROY \<in> set (os_destroy_messages env h) \<and> (\<forall>j. WM_NCCREATE j \<notin> set (os_destroy_messages env h))) \<and>
     (\<forall>c. list_all plain_event (os_meanwhile env c))"

lemma os_ok_create:
  assumes "os_ok env" and "os_create env l i = (h, ms, good)"
  shows "h \<notin> set l" "\<And>j. WM_NCCREATE j \<in> set ms \<Longrightarrow> j = i" "good \<Longrightarrow> WM_NCCREATE i \<in> set ms \<and> WM_DESTROY \<notin> set ms"
  using assms unfolding os_ok_def by blast+

lemma os_ok_destroy:
  assumes "os_ok env"
  shows "WM_DESTROY \<in> set (os_destroy_messages env h)" "m \<in> set (os_destroy_messages env h) \<Longrightarrow> m \<noteq> WM_NCCREATE j"
  using assms unfolding os_ok_def by metis+

lemma os_ok_meanwhile: "os_ok env \<Longrightarrow> list_all plain_event (os_meanwhile env c)"
  by (simp add: os_ok_def)

text \<open>What the handling of a message may change of the world, seen from object \<open>i\<close>.\<close>

definition handled :: "obj \<Rightarrow> world \<Rightarrow> world \<Rightarrow> bool" where
  "handled i w w' \<longleftrightarrow>
     (\<forall>j. j \<noteq> i \<longrightarrow> objs w' j = objs w j) \<and>
     quit_on_close (objs w' i) = quit_on_close (objs w i) \<and> dyn_class (objs w' i) = dyn_class (objs w i) \<and>
     (window_handle (objs w' i) = window_handle (objs w i) \<or> window_handle (objs w' i) = None) \<and>
     user_data w' = user_data w \<and> live w' = live w \<and> g_active_window_count w' = g_active_window_count w \<and>
     (class_registered w' = class_registered w \<or> g_active_window_count w = 0) \<and>
     (flutter_controller (objs w' i) \<longrightarrow> flutter_controller (objs w i)) \<and> set (calls w) \<subseteq> set (calls w')"

text \<open>What the handler of WM\_DESTROY achieves, and no later message undoes.\<close>

definition closed :: "obj \<Rightarrow> world \<Rightarrow> bool" where
  "closed i w \<longleftrightarrow> window_handle (objs w i) = None \<and>
     (dyn_class (objs w i) = Flutter_Class \<longrightarrow> \<not> flutter_controller (objs w i)) \<and>
     (quit_on_close (objs w i) \<longrightarrow> Call_PostQuitMessage \<in> set (calls w))"

lemma closed_handled: "closed i w \<Longrightarrow> handled i w w' \<Longrightarrow> closed i w'"
  unfolding closed_def handled_def by fastforce

lemma closed_handle: "closed i w \<Longrightarrow> window_handle (objs w i) = None"
  by (simp add: closed_def)

lemma call_fields [simp]:
  "objs (call c w) = objs w" "g_active_window_count (call c w) = g_active_window_count w"
  "class_registered (call c w) = class_registered w" "user_data (call c w) = user_data w"
  "live (call c w) = live w" "calls (call c w) = calls w @ [c]"
  by (simp_all add: call_def)

lemma handled_refl [simp]: "handled i w w"
  by (simp add: handled_def)

lemma handled_trans: "handled i w w' \<Longrightarrow> handled i w' w'' \<Longrightarrow> handled i w w''"
  by (auto simp: handled_def)

lemma handled_call [simp]: "handled i w w' \<Longrightarrow> handled i w (call c w')"
  by (auto simp: handled_def)

lemma handled_OnDestroy: "handled i w (OnDestroy i w)"
  by (auto simp: handled_def OnDestroy_def Win32_OnDestroy_def Flutter_OnDestroy_def call_def upd_def split: obj_class.split)

lemma handled_clear: "handled i w (upd i (\<lambda>o'. o'\<lparr>window_handle := None\<rparr>) w)"
  by (simp add: handled_def upd_def)

text \<open>\<open>Destroy\<close> on an object without a window only runs the hook, and drops the class with the
  last object.\<close>

lemma Destroy_idle:
  "window_handle (objs w i) = None \<Longrightarrow>
     Destroy env i w = Some (let w = OnDestroy i w in if g_active_window_count w = 0 then UnregisterWindowClass w else w)"
  by (simp add: Destroy.simps Let_def)

lemma handled_Unregister: "g_active_window_count w = 0 \<Longrightarrow> handled i w (UnregisterWindowClass w)"
  by (auto simp: handled_def UnregisterWindowClass_def call_def)

lemma Destroy_idle_handled:
  assumes "window_handle (objs w i) = None"
  shows "\<exists>w'. Destroy env i w = Some w' \<and> handled i w w'"
proof -
  have "handled i w (let w = OnDestroy i w in if g_active_window_count w = 0 then UnregisterWindowClass w else w)"
    using handled_trans [OF handled_OnDestroy handled_Unregister] handled_OnDestroy by (simp add: Let_def)
  with Destroy_idle [OF assms, of env] show ?thesis by blast
qed

lemma handled_UpdateTheme [simp]: "handled i w (UpdateTheme env h w)"
  by (simp add: UpdateTheme_def split: option.split)

lemma Win32_MessageHandler_DESTROY:
  "\<exists>w'. Win32_MessageHandler env i h WM_DESTROY w = Some (0, w') \<and> handled i w w' \<and>
     closed i w'"
proof -
  define v where "v = upd i (\<lambda>o'. o'\<lparr>window_handle := None\<rparr>) w"
  have v: "window_handle (objs v i) = None" "handled i w v"
    unfolding v_def by (simp add: upd_def) (rule handled_clear)
  define x where "x = OnDestroy i v"
  define u where "u = (if g_active_window_count x = 0 then UnregisterWindowClass x else x)"
  have u: "Destroy env i v = Some u" using Destroy_idle [OF v(1), of env] by (simp add: u_def x_def Let_def)
  have x: "handled i v x" "dyn_class (objs x i) = Flutter_Class \<longrightarrow> \<not> flutter_controller (objs x i)"
    unfolding x_def by (rule handled_OnDestroy)
      (simp add: OnDestroy_def Win32_OnDestroy_def Flutter_OnDestroy_def upd_def split: obj_class.split)
  have xu: "handled i x u" "objs u = objs x"
    using handled_Unregister [of x i] by (simp_all add: u_def) (simp add: UnregisterWindowClass_def)
  have wu: "handled i w u" using handled_trans [OF v(2) handled_trans [OF x(1) xu(1)]] .
  have "window_handle (objs u i) = None" using handled_trans [OF x(1) xu(1)] v(1) by (auto simp: handled_def)
  then have "closed i (if quit_on_close (objs u i) then call Call_PostQuitMessage u else u)"
    using x(2) xu(2) by (simp add: closed_def)
  moreover have "Win32_MessageHandler env i h WM_DESTROY w =
      Some (0, if quit_on_close (objs u i) then call Call_PostQuitMessage u else u)"
    using u by (simp add: Win32_MessageHandler.simps v_def)
  ultimately show ?thesis using wu by (metis handled_call)
qed

lemma Win32_MessageHandler_handled:
  "\<exists>r w'. Win32_MessageHandler env i h m w = Some (r, w') \<and> handled i w w' \<and>
     (m = WM_DESTROY \<longrightarrow> closed i w')"
proof (cases m)
  case WM_DESTROY
  then show ?thesis using Win32_MessageHandler_DESTROY [of env i h w] by auto
next
  case WM_SIZE
  then show ?thesis by (cases "child_content (objs w i)") (simp_all add: Win32_MessageHandler.simps)
next
  case WM_ACTIVATE
  then show ?thesis by (cases "child_content (objs w i)") (simp_all add: Win32_MessageHandler.simps)
qed (simp_all add: Win32_MessageHandler.simps)

lemma Flutter_MessageHandler_cases:
  "Flutter_MessageHandler env i h m w =
     (if flutter_controller (objs w i) \<and> os_top_level_proc env h m \<noteq> None
      then Some (the (os_top_level_proc env h m), w)
      else if m = WM_FONTCHANGE \<and> \<not> flutter_controller (objs w i) then None
      else Win32_MessageHandler env i h m (if m = WM_FONTCHANGE then call Call_ReloadSystemFonts w else w))"
  by (cases "m = WM_FONTCHANGE"; cases "os_top_level_proc env h m") (simp_all add: Flutter_MessageHandler.simps)

lemma Flutter_MessageHandler_handled:
  assumes "Flutter_MessageHandler env i h m w = Some (r, w')"
  shows "handled i w w' \<and> (m = WM_DESTROY \<and> os_top_level_proc env h m = None \<longrightarrow> closed i w')"
proof -
  let ?v = "if m = WM_FONTCHANGE then call Call_ReloadSystemFonts w else w"
  obtain r' u where u: "Win32_MessageHandler env i h m ?v = Some (r', u)" "handled i ?v u"
    "m = WM_DESTROY \<longrightarrow> closed i u"
    using Win32_MessageHandler_handled by blast
  have "handled i w ?v" by simp
  then have "handled i w u" using u(2) by (rule handled_trans)
  with assms u(1,3) show ?thesis by (auto simp: Flutter_MessageHandler_cases split: if_splits)
qed

text \<open>A message to a live window of object \<open>i\<close>.\<close>

lemma WndProc_handled:
  assumes r: "WndProc env h m w = Some (r, w')" and m: "\<forall>j. m \<noteq> WM_NCCREATE j" and u: "user_data w h = Some i"
  shows "handled i w w' \<and> (m = WM_DESTROY \<and> os_top_level_proc env h m = None \<longrightarrow> closed i w')"
proof -
  have e: "WndProc env h m w = (case dyn_class (objs w i) of
      Win32_Class \<Rightarrow> Win32_MessageHandler env i h m w | Flutter_Class \<Rightarrow> Flutter_MessageHandler env i h m w)"
    using m u by (cases m; cases "dyn_class (objs w i)") (simp_all add: WndProc.simps GetThisFromHandle_def)
  show ?thesis
  proof (cases "dyn_class (objs w i)")
    case Win32_Class
    with e r Win32_MessageHandler_handled [of env i h m w] show ?thesis by auto
  next
    case Flutter_Class
    with e r show ?thesis by (intro Flutter_MessageHandler_handled [where r = r]) simp
  qed
qed

lemma deliver_handled:
  "deliver env h ms w = Some w' \<Longrightarrow> \<forall>j. WM_NCCREATE j \<notin> set ms \<Longrightarrow> user_data w h = Some i \<Longrightarrow>
     handled i w w' \<and> (WM_DESTROY \<in> set ms \<and> os_top_level_proc env h WM_DESTROY = None \<longrightarrow> closed i w')"
proof (induction ms arbitrary: w)
  case (Cons m ms)
  then obtain r v where v: "WndProc env h m w = Some (r, v)" "deliver env h ms v = Some w'"
    by (auto split: option.splits)
  have m: "\<forall>j. m \<noteq> WM_NCCREATE j" using Cons.prems(2) by auto
  from WndProc_handled [OF v(1) m Cons.prems(3)] have hv: "handled i w v"
    "m = WM_DESTROY \<and> os_top_level_proc env h WM_DESTROY = None \<longrightarrow> closed i v" by auto
  then have "user_data v h = Some i" using Cons.prems(3) by (simp add: handled_def)
  with Cons.IH [OF v(2)] Cons.prems(2) have
    h': "handled i v w'" "WM_DESTROY \<in> set ms \<and> os_top_level_proc env h WM_DESTROY = None \<longrightarrow> closed i w'" by auto
  from h'(1) have "closed i v \<longrightarrow> closed i w'" using closed_handled by blast
  with handled_trans [OF hv(1) h'(1)] hv(2) h'(2) show ?case by auto
qed simp

text \<open>Messages that do not destroy leave the objects alone, and post no quit message.\<close>

lemma Win32_MessageHandler_keeps:
  "Win32_MessageHandler env i h m w = Some (r, w') \<Longrightarrow> m \<noteq> WM_DESTROY \<Longrightarrow>
   objs w' = objs w \<and> (Call_PostQuitMessage \<in> set (calls w') \<longleftrightarrow> Call_PostQuitMessage \<in> set (calls w))"
  by (cases m; cases "child_content (objs w i)"; cases "os_light_theme env")
    (auto simp: Win32_MessageHandler.simps UpdateTheme_def)

lemma Flutter_MessageHandler_keeps:
  assumes "Flutter_MessageHandler env i h m w = Some (r, w')"
    "m \<noteq> WM_DESTROY \<or> flutter_controller (objs w i) \<and> os_top_level_proc env h m \<noteq> None"
  shows "objs w' = objs w \<and> (Call_PostQuitMessage \<in> set (calls w') \<longleftrightarrow> Call_PostQuitMessage \<in> set (calls w))"
proof (cases "flutter_controller (objs w i) \<and> os_top_level_proc env h m \<noteq> None")
  case True
  then show ?thesis using assms(1) by (simp add: Flutter_MessageHandler_cases)
next
  case False
  then have "Win32_MessageHandler env i h m (if m = WM_FONTCHANGE then call Call_ReloadSystemFonts w else w) = Some (r, w')"
    using assms(1) by (simp add: Flutter_MessageHandler_cases split: if_splits)
  moreover have "m \<noteq> WM_DESTROY" using False assms(2) by blast
  ultimately show ?thesis using Win32_MessageHandler_keeps by (auto split: if_splits)
qed

lemma WndProc_keeps:
  assumes r: "WndProc env h m w = Some (r, w')" and m: "\<forall>j. m \<noteq> WM_NCCREATE j"
    and d: "m = WM_DESTROY \<Longrightarrow> os_top_level_proc env h m \<noteq> None \<and>
      (\<exists>i. user_data w h = Some i \<and> dyn_class (objs w i) = Flutter_Class \<and> flutter_controller (objs w i))"
  shows "objs w' = objs w \<and> (Call_PostQuitMessage \<in> set (calls w') \<longleftrightarrow> Call_PostQuitMessage \<in> set (calls w))"
proof (cases "user_data w h")
  case None
  with r m show ?thesis by (cases m) (simp_all add: WndProc.simps GetThisFromHandle_def)
next
  case (Some i)
  then have e: "WndProc env h m w = (case dyn_class (objs w i) of
      Win32_Class \<Rightarrow> Win32_MessageHandler env i h m w | Flutter_Class \<Rightarrow> Flutter_MessageHandler env i h m w)"
    using m by (cases m; cases "dyn_class (objs w i)") (simp_all add: WndProc.simps GetThisFromHandle_def)
  show ?thesis
  proof (cases "dyn_class (objs w i)")
    case Win32_Class
    with e r d Some Win32_MessageHandler_keeps [of env i h m w r w'] show ?thesis by auto
  next
    case Flutter_Class
    with e r have "Flutter_MessageHandler env i h m w = Some (r, w')" by simp
    then show ?thesis by (rule Flutter_MessageHandler_keeps) (use d Some in auto)
  qed
qed


subsection \<open>The windows and their owners\<close>

text \<open>
  The live windows are those with user data, and it names a constructed object that has the handle of
  the window. The other direction does not hold: an object may keep the handle of a window that is gone,
  after a creation that failed or when a plugin took its WM\_DESTROY.
\<close>

definition win_map :: "obj set \<Rightarrow> world \<Rightarrow> bool" where
  "win_map A w \<longleftrightarrow> dom (user_data w) = set (live w) \<and>
     (\<forall>h i. user_data w h = Some i \<longrightarrow> i \<in> A \<and> window_handle (objs w i) = Some h)"

lemma win_map_owner:
  assumes "win_map A w" "h \<in> set (live w)"
  shows "\<exists>i \<in> A. user_data w h = Some i \<and> window_handle (objs w i) = Some h"
proof -
  have "h \<in> dom (user_data w)" using assms by (simp add: win_map_def)
  then obtain i where "user_data w h = Some i" by blast
  then show ?thesis using assms(1) by (simp add: win_map_def)
qed

text \<open>What an operation may do that creates no window: windows go, and the objects that own the windows
  that are left are as before.\<close>

definition settles :: "world \<Rightarrow> world \<Rightarrow> bool" where
  "settles w w' \<longleftrightarrow>
     (\<exists>gone. user_data w' = user_data w |` (- gone) \<and> set (live w') = set (live w) - gone) \<and>
     g_active_window_count w' = g_active_window_count w \<and>
     (class_registered w' = class_registered w \<or> g_active_window_count w = 0) \<and>
     (\<forall>j. dyn_class (objs w' j) = dyn_class (objs w j)) \<and>
     (\<forall>h k. user_data w' h = Some k \<longrightarrow> objs w' k = objs w k)"

lemma settles_user: "settles w w' \<Longrightarrow> user_data w' h = Some k \<Longrightarrow> user_data w h = Some k"
  by (auto simp: settles_def restrict_map_def split: if_splits)

lemma settles_objs: "settles w w' \<Longrightarrow> user_data w' h = Some k \<Longrightarrow> objs w' k = objs w k"
  by (simp add: settles_def)

lemma settles_same:
  "user_data w' = user_data w \<Longrightarrow> live w' = live w \<Longrightarrow> g_active_window_count w' = g_active_window_count w \<Longrightarrow>
   class_registered w' = class_registered w \<or> g_active_window_count w = 0 \<Longrightarrow>
   \<forall>j. dyn_class (objs w' j) = dyn_class (objs w j) \<Longrightarrow> \<forall>h k. user_data w h = Some k \<longrightarrow> objs w' k = objs w k \<Longrightarrow>
   settles w w'"
  unfolding settles_def by (intro conjI exI [of _ "{}"]) (simp_all add: restrict_map_def)

lemma settles_refl [simp]: "settles w w"
  by (rule settles_same) simp_all

lemma settles_trans:
  assumes "settles w w'" "settles w' w''"
  shows "settles w w''"
proof -
  obtain g g' where g: "user_data w' = user_data w |` (- g)" "set (live w') = set (live w) - g"
    "user_data w'' = user_data w' |` (- g')" "set (live w'') = set (live w') - g'"
    using assms by (auto simp: settles_def)
  then have "user_data w'' = user_data w |` (- (g \<union> g'))" "set (live w'') = set (live w) - (g \<union> g')"
    by (auto simp: restrict_map_def fun_eq_iff)
  moreover have "objs w'' k = objs w k" if "user_data w'' h = Some k" for h k
    using settles_objs [OF assms(2) that] settles_objs [OF assms(1) settles_user [OF assms(2) that]] by simp
  moreover have "g_active_window_count w'' = g_active_window_count w" "\<forall>j. dyn_class (objs w'' j) = dyn_class (objs w j)"
    "class_registered w'' = class_registered w \<or> g_active_window_count w = 0" using assms by (auto simp: settles_def)
  ultimately show ?thesis unfolding settles_def by blast
qed

lemma settles_map:
  assumes "win_map A w" "settles w w'"
  shows "win_map A w'"
proof -
  obtain g where "user_data w' = user_data w |` (- g)" "set (live w') = set (live w) - g"
    using assms(2) by (auto simp: settles_def)
  then have "dom (user_data w') = set (live w')" using assms(1) by (auto simp: win_map_def)
  moreover have "i \<in> A \<and> window_handle (objs w' i) = Some h" if "user_data w' h = Some i" for h i
    using settles_user [OF assms(2) that] settles_objs [OF assms(2) that] assms(1) by (auto simp: win_map_def)
  ultimately show ?thesis by (simp add: win_map_def)
qed

text \<open>A message to a live window, the end of a window, and \<open>Destroy\<close>.\<close>

lemma message_settles:
  assumes inv: "win_map A w" and r: "WndProc env h m w = Some (r, w')" and l: "h \<in> set (live w)"
    and m: "m \<noteq> WM_DESTROY" "\<forall>j. m \<noteq> WM_NCCREATE j"
  shows "settles w w'"
proof -
  obtain i where "user_data w h = Some i" using win_map_owner [OF inv l] by blast
  from WndProc_handled [OF r m(2) this] have "handled i w w'" by blast
  moreover have "objs w' = objs w" using WndProc_keeps [OF r m(2)] m(1) by blast
  ultimately show ?thesis by (intro settles_same) (auto simp: handled_def)
qed

lemma DestroyWindow_settles:
  assumes ok: "os_ok env" and inv: "win_map A w" and r: "DestroyWindow env h w = Some w'"
  shows "settles w w' \<and> h \<notin> set (live w') \<and> (\<forall>j. flutter_controller (objs w' j) \<longrightarrow> flutter_controller (objs w j))"
proof (cases "h \<in> set (live w)")
  case False
  with r have "w' = call (Call_DestroyWindow h) w" by (simp add: DestroyWindow.simps Let_def)
  then show ?thesis using False by (auto intro: settles_same)
next
  case True
  let ?w = "call (Call_DestroyWindow h) w"
  obtain i where i: "user_data w h = Some i" using win_map_owner [OF inv True] by blast
  from r True obtain v where v: "deliver env h (os_destroy_messages env h) ?w = Some v"
    "w' = v\<lparr>live := removeAll h (live v), user_data := (user_data v)(h := None)\<rparr>"
    by (auto simp: DestroyWindow.simps Let_def)
  have "handled i ?w v" using deliver_handled [OF v(1), of i] os_ok_destroy(2) [OF ok] i by auto
  then have hv: "handled i w v" by (auto simp: handled_def)
  have "user_data w' = user_data w |` (- {h})" using hv v(2) by (auto simp: handled_def restrict_map_def fun_eq_iff)
  moreover have "set (live w') = set (live w) - {h}" using hv v(2) by (simp add: handled_def)
  moreover have "objs w' k = objs w k" if k: "user_data w' h' = Some k" for h' k
  proof -
    have "h' \<noteq> h" "user_data w h' = Some k" using k hv v(2) by (auto simp: handled_def split: if_splits)
    then have "k \<noteq> i" using inv i unfolding win_map_def by (metis option.inject)
    then show ?thesis using hv v(2) by (simp add: handled_def)
  qed
  moreover have "dyn_class (objs w' j) = dyn_class (objs w j)" "flutter_controller (objs w' j) \<longrightarrow> flutter_controller (objs w j)" for j
    using hv v(2) by (cases "j = i"; simp add: handled_def)+
  ultimately show ?thesis using hv v(2) unfolding settles_def by (auto simp: handled_def)
qed

lemma Destroy_settles:
  assumes ok: "os_ok env" and inv: "win_map A w" and r: "Destroy env i w = Some w'"
  shows "settles w w' \<and> (\<forall>h. user_data w' h \<noteq> Some i) \<and>
    (g_active_window_count w = 0 \<longrightarrow> \<not> class_registered w') \<and>
    (dyn_class (objs w i) = Flutter_Class \<longrightarrow> \<not> flutter_controller (objs w' i))"
proof -
  define v where "v = OnDestroy i w"
  have hv: "handled i w v" unfolding v_def by (rule handled_OnDestroy)
  have vh: "window_handle (objs v j) = window_handle (objs w j)" for j by (simp add: v_def)
  have vc: "dyn_class (objs w i) = Flutter_Class \<longrightarrow> \<not> flutter_controller (objs v i)"
    by (simp add: v_def OnDestroy_def Flutter_OnDestroy_def Win32_OnDestroy_def upd_def)
  have mv: "win_map A v" using inv hv vh by (simp add: win_map_def handled_def)
  have dv: "dyn_class (objs v j) = dyn_class (objs w j)" "j \<noteq> i \<Longrightarrow> objs v j = objs w j" for j
    using hv by (cases "j = i"; simp add: handled_def)+
  obtain u where u: "settles v u" "\<forall>h. user_data u h \<noteq> Some i" "flutter_controller (objs u i) \<longrightarrow> flutter_controller (objs v i)"
    "w' = (if g_active_window_count u = 0 then UnregisterWindowClass u else u)"
  proof (cases "window_handle (objs v i)")
    case None
    then have "\<forall>h. user_data v h \<noteq> Some i" using mv by (auto simp: win_map_def)
    moreover have "w' = (if g_active_window_count v = 0 then UnregisterWindowClass v else v)"
      using r None by (simp add: Destroy.simps Let_def flip: v_def)
    ultimately show ?thesis using that [of v] by simp
  next
    case (Some h)
    from r Some obtain x where x: "DestroyWindow env h v = Some x"
      "w' = (let u = upd i (\<lambda>o'. o'\<lparr>window_handle := None\<rparr>) x in if g_active_window_count u = 0 then UnregisterWindowClass u else u)"
      by (auto simp: Destroy.simps Let_def simp flip: v_def split: option.splits)
    note sx = DestroyWindow_settles [OF ok mv x(1)]
    have none: "user_data x k \<noteq> Some i" for k
    proof
      assume k: "user_data x k = Some i"
      then have "k \<in> set (live x)" using settles_map [OF mv] sx by (auto simp: win_map_def)
      moreover have "window_handle (objs v i) = Some k" using settles_user [OF _ k] sx mv by (auto simp: win_map_def)
      ultimately show False using Some sx by auto
    qed
    let ?u = "upd i (\<lambda>o'. o'\<lparr>window_handle := None\<rparr>) x"
    have "settles x ?u" by (rule settles_same) (use none in \<open>auto simp: upd_def\<close>)
    moreover have "flutter_controller (objs x i) \<longrightarrow> flutter_controller (objs v i)"
      using sx by blast
    ultimately show ?thesis using that [of ?u] settles_trans [of v x ?u] sx none x(2) by (simp add: upd_def Let_def)
  qed
  have c: "g_active_window_count u = g_active_window_count w"
    using u(1) hv by (simp add: settles_def handled_def)
  have "settles w u"
  proof -
    have "user_data v = user_data w" "live v = live w" "g_active_window_count v = g_active_window_count w"
      "class_registered v = class_registered w \<or> g_active_window_count w = 0" using hv by (auto simp: handled_def)
    moreover have "objs u k = objs w k" if "user_data u h = Some k" for h k
    proof -
      have "k \<noteq> i" using that u(2) by blast
      then show ?thesis using settles_objs [OF u(1) that] dv(2) by simp
    qed
    ultimately show ?thesis using u(1) dv(1) unfolding settles_def by auto
  qed
  moreover have "settles u w'" unfolding u(4)
    by (cases "g_active_window_count u = 0") (auto simp: UnregisterWindowClass_def intro: settles_same)
  ultimately have "settles w w'" by (rule settles_trans)
  moreover have "user_data w' = user_data u" "objs w' = objs u" by (simp_all add: u(4) UnregisterWindowClass_def)
  ultimately show ?thesis using u(2,3,4) c vc by (auto simp: UnregisterWindowClass_def)
qed

subsection \<open>Reachable worlds\<close>

text \<open>\<open>A\<close> is the set of constructed objects. The system dispatches any message but WM\_NCCREATE and
  WM\_DESTROY at any time, and closes windows; the program constructs objects, creates their windows, and
  destructs them.\<close>

inductive reach :: "win_os \<Rightarrow> obj set \<Rightarrow> world \<Rightarrow> bool" for env where
  start: "reach env {} process_start"
| construct: "reach env A w \<Longrightarrow> i \<notin> A \<Longrightarrow> reach env (insert i A) (new_window i w)"
| create: "reach env A w \<Longrightarrow> i \<in> A \<Longrightarrow> Create env i title origin extent w = Some (b, w') \<Longrightarrow> reach env A w'"
| quit_on_close: "reach env A w \<Longrightarrow> i \<in> A \<Longrightarrow> reach env A (SetQuitOnClose q i w)"
| show_window: "reach env A w \<Longrightarrow> i \<in> A \<Longrightarrow> reach env A (snd (Show env i w))"
| event: "reach env A w \<Longrightarrow> plain_event e \<Longrightarrow> dispatch env e w = Some w' \<Longrightarrow> reach env A w'"
| destruct: "reach env A w \<Longrightarrow> i \<in> A \<Longrightarrow> delete_window env i w = Some w' \<Longrightarrow> reach env (A - {i}) w'"

text \<open>Outside \<open>Create\<close> the owner of a window has its controller; \<open>X\<close> are the exceptions.\<close>

definition win_inv :: "obj set \<Rightarrow> obj set \<Rightarrow> world \<Rightarrow> bool" where
  "win_inv A X w \<longleftrightarrow>
     finite A \<and> g_active_window_count w = int (card A) \<and> win_map A w \<and> (live w \<noteq> [] \<longrightarrow> class_registered w) \<and>
     (\<forall>i \<in> A. dyn_class (objs w i) = Flutter_Class) \<and>
     (\<forall>h i. user_data w h = Some i \<longrightarrow> i \<in> X \<or> flutter_controller (objs w i))"

lemma win_invD:
  assumes "win_inv A X w"
  shows "finite A" "g_active_window_count w = int (card A)" "win_map A w" "live w \<noteq> [] \<Longrightarrow> class_registered w"
    "i \<in> A \<Longrightarrow> dyn_class (objs w i) = Flutter_Class" "user_data w h = Some i \<Longrightarrow> i \<in> X \<or> flutter_controller (objs w i)"
  using assms unfolding win_inv_def by blast+

lemma settles_inv:
  assumes inv: "win_inv A X w" and s: "settles w w'"
  shows "win_inv A X w'"
proof -
  have m: "win_map A w'" by (rule settles_map [OF win_invD(3) [OF inv] s])
  have c: "g_active_window_count w' = g_active_window_count w" "class_registered w' = class_registered w \<or> g_active_window_count w = 0"
    "\<And>j. dyn_class (objs w' j) = dyn_class (objs w j)" using s by (auto simp: settles_def)
  have "class_registered w'" if l: "live w' \<noteq> []"
  proof -
    obtain h where h: "h \<in> set (live w')" using l by (cases "live w'") auto
    then have "h \<in> set (live w)" using s by (auto simp: settles_def)
    then have "class_registered w" using win_invD(4) [OF inv] by (cases "live w") auto
    moreover have "A \<noteq> {}" using win_map_owner [OF m h] by blast
    then have "g_active_window_count w \<noteq> 0" using win_invD(1,2) [OF inv] by simp
    ultimately show ?thesis using c(2) by blast
  qed
  moreover have "i \<in> X \<or> flutter_controller (objs w' i)" if "user_data w' h = Some i" for h i
    using win_invD(6) [OF inv settles_user [OF s that]] settles_objs [OF s that] by simp
  ultimately show ?thesis using m c inv by (simp add: win_inv_def)
qed

lemma dispatch_settles:
  assumes ok: "os_ok env" and inv: "win_map A w" and e: "plain_event e" and r: "dispatch env e w = Some w'"
  shows "settles w w'"
proof (cases e)
  case (Ev_Message h m)
  then show ?thesis
    using r e message_settles [OF inv] by (cases "h \<in> set (live w)") auto
next
  case (Ev_Close h)
  then show ?thesis
    using r DestroyWindow_settles [OF ok inv] by (cases "h \<in> set (live w)") auto
qed

lemma dispatch_all_settles:
  assumes ok: "os_ok env"
  shows "win_map A w \<Longrightarrow> list_all plain_event es \<Longrightarrow> dispatch_all env es w = Some w' \<Longrightarrow> settles w w'"
proof (induction es arbitrary: w)
  case (Cons e es)
  then obtain v where v: "dispatch env e w = Some v" "dispatch_all env es v = Some w'" by (auto split: option.splits)
  have s: "settles w v" using dispatch_settles [OF ok Cons.prems(1) _ v(1)] Cons.prems(2) by simp
  from Cons.IH [OF settles_map [OF Cons.prems(1) s] _ v(2)] Cons.prems(2) s show ?case using settles_trans by auto
qed simp

lemma during_inv:
  assumes ok: "os_ok env" and inv: "win_inv A X w" and r: "during env c w = Some w'"
  shows "win_inv A X w'"
proof -
  have s: "settles w (call c w)" by (rule settles_same) simp_all
  have "settles (call c w) w'"
    using dispatch_all_settles [OF ok settles_map [OF win_invD(3) [OF inv] s] os_ok_meanwhile [OF ok]] r by (simp add: during_def)
  with s have "settles w w'" by (rule settles_trans)
  with inv show ?thesis by (rule settles_inv)
qed

text \<open>Changes of fields that the invariant does not mention.\<close>

lemma upd_inv:
  assumes "win_inv A X w" "\<And>x. window_handle (f x) = window_handle x" "\<And>x. dyn_class (f x) = dyn_class x"
    "\<And>x. flutter_controller x \<Longrightarrow> flutter_controller (f x)"
  shows "win_inv A X (upd i f w)"
proof -
  have "window_handle (objs (upd i f w) k) = window_handle (objs w k)" "dyn_class (objs (upd i f w) k) = dyn_class (objs w k)"
    "flutter_controller (objs w k) \<longrightarrow> flutter_controller (objs (upd i f w) k)" for k
    using assms(2-4) by (simp_all add: upd_def)
  note f = this
  have u: "user_data (upd i f w) = user_data w" "live (upd i f w) = live w" "class_registered (upd i f w) = class_registered w"
    "g_active_window_count (upd i f w) = g_active_window_count w" by (simp_all add: upd_def)
  show ?thesis using assms(1) f unfolding win_inv_def win_map_def u by simp metis
qed

lemma call_inv: "win_inv A X w \<Longrightarrow> win_inv A X (call c w)"
  by (simp add: win_inv_def win_map_def)

lemma UpdateTheme_inv: "win_inv A X w \<Longrightarrow> win_inv A X (UpdateTheme env h w)"
  by (auto simp: UpdateTheme_def call_inv split: option.split)

subsection \<open>Creating a window\<close>

text \<open>The messages to the window \<open>h\<close> that is being created for object \<open>i\<close>.\<close>

definition creating :: "obj \<Rightarrow> hwnd \<Rightarrow> world \<Rightarrow> world \<Rightarrow> bool" where
  "creating i h w w' \<longleftrightarrow>
     (\<forall>j. j \<noteq> i \<longrightarrow> objs w' j = objs w j) \<and> dyn_class (objs w' i) = dyn_class (objs w i) \<and>
     (flutter_controller (objs w' i) \<longrightarrow> flutter_controller (objs w i)) \<and>
     (\<forall>h'. h' \<noteq> h \<longrightarrow> user_data w' h' = user_data w h') \<and> user_data w' h \<in> {user_data w h, Some i} \<and>
     live w' = live w \<and> g_active_window_count w' = g_active_window_count w \<and>
     (class_registered w' = class_registered w \<or> g_active_window_count w = 0)"

lemma creating_trans:
  assumes "creating i h w w'" "creating i h w' w''"
  shows "creating i h w w''"
proof -
  have "user_data w'' h \<in> {user_data w h, Some i}" using assms unfolding creating_def by (metis insert_iff singletonD)
  moreover have "class_registered w'' = class_registered w \<or> g_active_window_count w = 0"
    using assms unfolding creating_def by (elim conjE) auto
  ultimately show ?thesis using assms unfolding creating_def by simp
qed

lemma WndProc_NCCREATE:
  "\<exists>v. WndProc env h (WM_NCCREATE i) w = Some (os_DefWindowProc env (Some h) (WM_NCCREATE i), v) \<and> creating i h w v \<and>
     user_data v h = Some i \<and> window_handle (objs v i) = Some h \<and>
     flutter_controller (objs v i) = flutter_controller (objs w i)"
  by (simp add: WndProc.simps creating_def EnableFullDpiSupportIfAvailable_def upd_def Let_def)

lemma WndProc_creating:
  assumes r: "WndProc env h m w = Some (r, v)" and u: "user_data w h = None \<or> user_data w h = Some i"
    and m: "\<And>j. m = WM_NCCREATE j \<Longrightarrow> j = i"
  shows "creating i h w v"
proof (cases "m = WM_NCCREATE i")
  case True
  then show ?thesis using r WndProc_NCCREATE [of env h i w] by auto
next
  case False
  then have n: "\<forall>j. m \<noteq> WM_NCCREATE j" using m by blast
  show ?thesis
  proof (cases "user_data w h")
    case None
    then have "v = w" using r n by (cases m) (simp_all add: WndProc.simps GetThisFromHandle_def)
    then show ?thesis by (simp add: creating_def)
  next
    case (Some k)
    then have "user_data w h = Some i" using u by simp
    from WndProc_handled [OF r n this] show ?thesis by (auto simp: handled_def creating_def)
  qed
qed

lemma deliver_creating:
  "deliver env h ms w = Some v \<Longrightarrow> user_data w h = None \<or> user_data w h = Some i \<Longrightarrow>
   (\<And>j. WM_NCCREATE j \<in> set ms \<Longrightarrow> j = i) \<Longrightarrow> creating i h w v \<and>
   (WM_DESTROY \<notin> set ms \<and> (WM_NCCREATE i \<in> set ms \<or> user_data w h = Some i \<and> window_handle (objs w i) = Some h) \<longrightarrow>
    user_data v h = Some i \<and> window_handle (objs v i) = Some h)"
proof (induction ms arbitrary: w)
  case Nil
  then show ?case by (simp add: creating_def)
next
  case (Cons m ms)
  then obtain r u where u: "WndProc env h m w = Some (r, u)" "deliver env h ms u = Some v"
    by (auto split: option.splits)
  have c: "creating i h w u" by (rule WndProc_creating [OF u(1) Cons.prems(2)]) (use Cons.prems(3) in auto)
  then have "user_data u h = None \<or> user_data u h = Some i" using Cons.prems(2) by (auto simp: creating_def)
  from Cons.IH [OF u(2) this] Cons.prems(3) have v: "creating i h u v"
    "WM_DESTROY \<notin> set ms \<and> (WM_NCCREATE i \<in> set ms \<or> user_data u h = Some i \<and> window_handle (objs u i) = Some h) \<longrightarrow>
      user_data v h = Some i \<and> window_handle (objs v i) = Some h" by auto
  have "user_data u h = Some i \<and> window_handle (objs u i) = Some h"
    if d: "m \<noteq> WM_DESTROY" "m = WM_NCCREATE i \<or> user_data w h = Some i \<and> window_handle (objs w i) = Some h"
  proof (cases "m = WM_NCCREATE i")
    case True
    then show ?thesis using u(1) WndProc_NCCREATE [of env h i w] by auto
  next
    case False
    then have "\<forall>j. m \<noteq> WM_NCCREATE j" using Cons.prems(3) by auto
    then show ?thesis using WndProc_keeps [OF u(1)] d False c by (auto simp: creating_def)
  qed
  then show ?case using creating_trans [OF c v(1)] v(2) by auto
qed

lemma CreateWindow_inv:
  assumes ok: "os_ok env" and inv: "win_inv A X w" and i: "i \<in> A" and n: "\<And>h. user_data w h \<noteq> Some i"
    and c: "class_registered w" and r: "CreateWindow env i title place w = Some (res, w')"
  shows "win_inv A (insert i X) w' \<and> (res = None \<longrightarrow> win_inv A X w') \<and>
    (\<forall>h. res = Some h \<longrightarrow> user_data w' h = Some i \<and> window_handle (objs w' i) = Some h)"
proof -
  obtain h ms good where e: "os_create env (live w) i = (h, ms, good)" by (cases "os_create env (live w) i")
  note o = os_ok_create [OF ok e]
  let ?u = "(call (Call_CreateWindow title place) w)\<lparr>live := h # live w\<rparr>"
  from r e obtain v where v: "deliver env h ms ?u = Some v" "res = (if good then Some h else None)"
    "w' = (if good then v else v\<lparr>live := removeAll h (live v), user_data := (user_data v)(h := None)\<rparr>)"
    by (auto simp: CreateWindow_def split: if_splits)
  have m: "win_map A w" by (rule win_invD(3) [OF inv])
  have none: "user_data w h = None" using o(1) m by (auto simp: win_map_def)
  have d: "creating i h ?u v" "good \<longrightarrow> user_data v h = Some i \<and> window_handle (objs v i) = Some h"
    using deliver_creating [OF v(1), of i] none o(2,3) by auto
  have cnt: "g_active_window_count w \<noteq> 0" using win_invD(1,2) [OF inv] i by auto
  have ud: "user_data v h' = user_data w h'" if "h' \<noteq> h" for h' using d(1) that by (simp add: creating_def)
  have own: "k \<noteq> i \<and> objs v k = objs w k" if "user_data w h' = Some k" for h' k
  proof -
    have "k \<noteq> i" using n that by blast
    then show ?thesis using d(1) by (simp add: creating_def)
  qed
  have "dyn_class (objs v k) = dyn_class (objs w k)" for k using d(1) by (cases "k = i") (simp_all add: creating_def)
  then have rest: "finite A" "g_active_window_count v = int (card A)" "class_registered v" "live v = h # live w"
    "\<forall>k \<in> A. dyn_class (objs v k) = Flutter_Class"
    using inv d(1) c cnt by (auto simp: win_inv_def creating_def)
  show ?thesis
  proof (cases good)
    case True
    have "dom (user_data v) = set (live v)"
    proof -
      have "dom (user_data v) = insert h (dom (user_data w))" using True d(2) ud by (auto simp: dom_def) metis+
      then show ?thesis using m rest(4) by (simp add: win_map_def)
    qed
    moreover have "k \<in> A \<and> window_handle (objs v k) = Some h' \<and> (k \<in> insert i X \<or> flutter_controller (objs v k))"
      if k: "user_data v h' = Some k" for h' k
    proof (cases "h' = h")
      case True
      then show ?thesis using k d(2) \<open>good\<close> i by simp
    next
      case False
      then have "user_data w h' = Some k" using k ud by simp
      then show ?thesis using own m win_invD(6) [OF inv] by (auto simp: win_map_def)
    qed
    ultimately have "win_inv A (insert i X) v" using rest unfolding win_inv_def win_map_def by blast
    then show ?thesis using True v d(2) by simp
  next
    case False
    have "removeAll h (live v) = live w" using rest(4) o(1) by (simp add: removeAll_id)
    moreover have "(user_data v)(h := None) = user_data w" using ud none by (auto simp: fun_eq_iff)
    ultimately have w': "live w' = live w" "user_data w' = user_data w" "objs w' = objs v"
      "g_active_window_count w' = g_active_window_count v" "class_registered w' = class_registered v"
      using v(3) False by simp_all
    have "k \<in> A \<and> window_handle (objs v k) = Some h' \<and> (k \<in> X \<or> flutter_controller (objs v k))" if "user_data w h' = Some k" for h' k
      using own [OF that] that m win_invD(6) [OF inv that] by (auto simp: win_map_def)
    then have "win_inv A X w'" using rest m unfolding win_inv_def win_map_def w' by blast
    moreover from this have "win_inv A (insert i X) w'" unfolding win_inv_def by blast
    ultimately show ?thesis using False v(2) by simp
  qed
qed

lemma SetChildContent_inv:
  assumes ok: "os_ok env" and inv: "win_inv A X w" and r: "SetChildContent env content i w = Some w'"
  shows "win_inv A X w'"
proof -
  let ?w = "upd i (\<lambda>o'. o'\<lparr>child_content := Some content\<rparr>) w"
  from r obtain u v where u: "during env (Call_SetParent content (window_handle (objs ?w i))) ?w = Some u"
    and v: "during env (Call_MoveWindow content (rect_place (GetClientArea env i u))) u = Some v"
    and w': "during env (Call_SetFocus (child_content (objs v i))) v = Some w'"
    unfolding SetChildContent_def Let_def by (auto split: option.splits)
  have "win_inv A X ?w" by (rule upd_inv [OF inv]) simp_all
  from during_inv [OF ok this u] have "win_inv A X u" .
  from during_inv [OF ok this v] have "win_inv A X v" .
  from during_inv [OF ok this w'] show ?thesis .
qed

lemma OnCreate_inv:
  assumes ok: "os_ok env" and inv: "win_inv A {i} w" and i: "i \<in> A" and r: "OnCreate env i w = Some (b, w')"
  shows "win_inv A {} w'"
proof -
  define frame where "frame = GetClientArea env i w"
  have "Flutter_OnCreate env i w = Some (b, w')" using r win_invD(5) [OF inv i] by (simp add: OnCreate_def)
  then obtain v where v: "during env (Call_NewController (rc_right frame - rc_left frame) (rc_bottom frame - rc_top frame)) w = Some v"
    and t: "(let w = upd i (\<lambda>o'. o'\<lparr>flutter_controller := True\<rparr>) (if flutter_controller (objs v i) then call Call_DeleteController v else v)
      in if \<not> os_engine_ok env \<or> \<not> os_view_ok env then Some (False, w)
         else case during env Call_RegisterPlugins w of None \<Rightarrow> None
           | Some w \<Rightarrow> if \<not> flutter_controller (objs w i) then None
               else case SetChildContent env (os_native_window env) i w of None \<Rightarrow> None
                 | Some w \<Rightarrow> if \<not> flutter_controller (objs w i) then None
                     else Some (True, call Call_ForceRedraw (call (Call_SetNextFrameCallback i) w))) = Some (b, w')"
    unfolding Flutter_OnCreate_def Win32_OnCreate_def frame_def [symmetric] Let_def prod.case
    by (cases "during env (Call_NewController (rc_right frame - rc_left frame) (rc_bottom frame - rc_top frame)) w") simp_all
  define u where "u = upd i (\<lambda>o'. o'\<lparr>flutter_controller := True\<rparr>) (if flutter_controller (objs v i) then call Call_DeleteController v else v)"
  have "win_inv A {i} (if flutter_controller (objs v i) then call Call_DeleteController v else v)"
    using during_inv [OF ok inv v] call_inv by simp
  from upd_inv [OF this, of "\<lambda>o'. o'\<lparr>flutter_controller := True\<rparr>" i] have "win_inv A {i} u" by (simp add: u_def)
  moreover have "flutter_controller (objs u i)" by (simp add: u_def upd_def)
  ultimately have u: "win_inv A {} u" by (auto simp: win_inv_def)
  show ?thesis
  proof (cases "\<not> os_engine_ok env \<or> \<not> os_view_ok env")
    case True
    then show ?thesis using t u by (simp add: u_def Let_def)
  next
    case False
    with t obtain x y where x: "during env Call_RegisterPlugins u = Some x"
      and y: "SetChildContent env (os_native_window env) i x = Some y"
      and w': "w' = call Call_ForceRedraw (call (Call_SetNextFrameCallback i) y)"
      unfolding u_def [symmetric] Let_def by (auto split: option.splits if_splits)
    from during_inv [OF ok u x] have "win_inv A {} x" .
    from SetChildContent_inv [OF ok this y] show ?thesis unfolding w' by (intro call_inv)
  qed
qed

lemma Create_inv:
  assumes ok: "os_ok env" and inv: "win_inv A {} w" and i: "i \<in> A" and r: "Create env i title origin extent w = Some (b, w')"
  shows "win_inv A {} w'"
proof -
  from r obtain v where v: "Destroy env i w = Some v" by (auto simp: Create_def split: option.splits)
  note s = Destroy_settles [OF ok win_invD(3) [OF inv] v]
  have "win_inv A {} v" using settles_inv [OF inv] s by blast
  then have g: "win_inv A {} (GetWindowClass v)" "class_registered (GetWindowClass v)" "user_data (GetWindowClass v) = user_data v"
    by (simp_all add: GetWindowClass_def win_inv_def win_map_def)
  from r v obtain place res u where u: "CreateWindow env i title place (GetWindowClass v) = Some (res, u)"
    "case res of None \<Rightarrow> (b, w') = (False, u) | Some h \<Rightarrow> OnCreate env i (UpdateTheme env h u) = Some (b, w')"
    by (auto simp: Create_def Let_def split: option.splits)
  have "\<And>h. user_data (GetWindowClass v) h \<noteq> Some i" using s g(3) by simp
  note iu = CreateWindow_inv [OF ok g(1) i this g(2) u(1)]
  show ?thesis
  proof (cases res)
    case None
    with u(2) iu show ?thesis by simp
  next
    case (Some h)
    then show ?thesis using OnCreate_inv [OF ok UpdateTheme_inv i, of u env h b w'] u(2) iu by simp
  qed
qed

text \<open>The destructor: the object owns no window any more, and with the last object the class goes.\<close>

lemma delete_window_inv:
  assumes ok: "os_ok env" and inv: "win_inv A {} w" and i: "i \<in> A" and r: "delete_window env i w = Some w'"
  shows "win_inv (A - {i}) {} w' \<and> (A = {i} \<longrightarrow> live w' = [] \<and> \<not> class_registered w')"
proof -
  define u where "u = upd i (\<lambda>o'. o'\<lparr>dyn_class := Win32_Class\<rparr>) (if flutter_controller (objs w i)
     then call Call_DeleteController (upd i (\<lambda>o'. o'\<lparr>flutter_controller := False\<rparr>) w) else w)"
  define v where "v = u\<lparr>g_active_window_count := g_active_window_count w - 1\<rparr>"
  have v: "window_handle (objs v j) = window_handle (objs w j)" "user_data v = user_data w" "live v = live w"
    "class_registered v = class_registered w" "j \<noteq> i \<Longrightarrow> objs v j = objs w j" for j
    by (simp_all add: v_def u_def upd_def)
  have cnt: "g_active_window_count v = int (card (A - {i}))"
    using card_Suc_Diff1 [of A i] win_invD(1,2) [OF inv] i by (simp add: v_def)
  have fin: "finite (A - {i})" using win_invD(1) [OF inv] by simp
  have zero: "card (A - {i}) = 0 \<longleftrightarrow> A = {i}" unfolding card_0_eq [OF fin] using i by blast
  have "g_active_window_count u = g_active_window_count w" by (simp add: u_def upd_def)
  then have rv: "Destroy env i v = Some w'" using r by (simp add: delete_window_def Let_def v_def u_def)
  have mv: "win_map A v" using win_invD(3) [OF inv] v by (simp add: win_map_def)
  note D = Destroy_settles [OF ok mv rv]
  have m: "win_map A w'" by (rule settles_map [OF mv]) (use D in blast)
  have s: "g_active_window_count w' = g_active_window_count v" "class_registered w' = class_registered v \<or> g_active_window_count v = 0"
    "set (live w') \<subseteq> set (live v)" "\<And>j. dyn_class (objs w' j) = dyn_class (objs v j)" using D by (auto simp: settles_def)
  have m': "win_map (A - {i}) w'" using m D unfolding win_map_def by blast
  have last: "live w' = []" if "A = {i}" using win_map_owner [OF m'] that by (cases "live w'") auto
  have "class_registered w'" if l: "live w' \<noteq> []"
  proof -
    have "live w \<noteq> []" using l s(3) v(3) by (cases "live w") auto
    then show ?thesis using win_invD(4) [OF inv] s(2) v(4) cnt zero l last by auto
  qed
  moreover have "flutter_controller (objs w' k)" if k: "user_data w' h = Some k" for h k
  proof -
    have "k \<noteq> i" "objs w' k = objs v k" "user_data w h = Some k"
      using D k settles_objs [of v w' h k] settles_user [of v w' h k] v(2) by auto
    then show ?thesis using win_invD(6) [OF inv] v(5) by auto
  qed
  moreover have "dyn_class (objs w' k) = Flutter_Class" if "k \<in> A - {i}" for k
    using that win_invD(5) [OF inv] s(4) v(5) by auto
  ultimately have "win_inv (A - {i}) {} w'" using fin m' s(1) cnt by (simp add: win_inv_def)
  then show ?thesis using last D cnt zero by auto
qed

lemma reach_win_inv: "reach env A w \<Longrightarrow> os_ok env \<Longrightarrow> win_inv A {} w"
proof (induction rule: reach.induct)
  case start
  then show ?case by (simp add: win_inv_def win_map_def process_start_def)
next
  case (construct A w i)
  then have inv: "win_inv A {} w" by simp
  have n: "user_data w h \<noteq> Some i" for h using win_invD(3) [OF inv] construct(2) by (auto simp: win_map_def)
  then show ?case using inv construct(2) by (auto simp: win_inv_def win_map_def new_window_def)
next
  case (create A w i title origin extent b w')
  then show ?case using Create_inv by blast
next
  case (quit_on_close A w i q)
  then show ?case unfolding SetQuitOnClose_def by (intro upd_inv) simp_all
next
  case (show_window A w i)
  then show ?case by (simp add: Show_def Let_def call_inv)
next
  case (event A w e w')
  then have inv: "win_inv A {} w" by simp
  show ?case by (rule settles_inv [OF inv dispatch_settles [OF event.prems win_invD(3) [OF inv] event(2,3)]])
next
  case (destruct A w i w')
  then show ?case using delete_window_inv by blast
qed

lemma message_loop_inv:
  "message_loop env es w = Some (Quit w') \<Longrightarrow> win_inv A {} w \<Longrightarrow> os_ok env \<Longrightarrow> list_all plain_event es \<Longrightarrow> win_inv A {} w'"
proof (induction env es w rule: message_loop.induct)
  case (1 env w)
  then show ?case by (auto split: if_splits)
next
  case (2 env e es w)
  from 2(2) obtain v where v: "dispatch env e w = Some v" "message_loop env es v = Some (Quit w')" by (auto split: option.splits)
  have "win_inv A {} v" by (rule settles_inv [OF 2(3) dispatch_settles [OF 2(4) win_invD(3) [OF 2(3)] _ v(1)]]) (use 2(5) in simp)
  with 2(1) [OF v] 2(4,5) show ?case by simp
qed

subsection \<open>When the window procedure goes through a null pointer\<close>




subsection \<open>Properties\<close>

text \<open>A system that behaves as documented, for the concrete runs: a size query comes before WM\_NCCREATE, and
  the focus is announced while the child window gets it. A second system cannot create windows.\<close>

definition plain_os :: win_os where
  "plain_os = \<lparr>os_create = (\<lambda>l i. (Suc (sum_list l), [WM_OTHER 36, WM_NCCREATE i, WM_SIZE], True)),
     os_destroy_messages = (\<lambda>_. [WM_ACTIVATE, WM_DESTROY]),
     os_meanwhile = (\<lambda>c. case c of Call_SetFocus _ \<Rightarrow> [Ev_Message 1 WM_ACTIVATE] | _ \<Rightarrow> []), os_DefWindowProc = (\<lambda>_ _. 1),
     os_client_rect = (\<lambda>_. \<lparr>rc_left = 0, rc_top = 0, rc_right = 1280, rc_bottom = 720\<rparr>),
     os_light_theme = Some 0, os_dpi_scaling = True, os_scale = id, os_ShowWindow = (\<lambda>_. True),
     os_engine_ok = True, os_view_ok = True, os_native_window = 1000, os_top_level_proc = (\<lambda>_ _. None)\<rparr>"

definition failing_os :: win_os where
  "failing_os = plain_os\<lparr>os_create := (\<lambda>l i. (Suc (sum_list l), [], False))\<rparr>"

lemma fresh_handle: "Suc (sum_list l) \<notin> set (l :: nat list)"
  using member_le_sum_list [of "Suc (sum_list l)" l] by auto

lemma plain_os_ok: "os_ok plain_os" "os_ok failing_os"
  using fresh_handle by (auto simp: os_ok_def plain_os_def failing_os_def split: os_call.split)

text \<open>C21: in every reachable state of the runner, whatever messages the system sends while windows are
  created and destroyed, whatever plugins do with them, and whichever creations fail, the user data of
  every window names a constructed object whose handle is that window, so that its messages go to the
  object that owns it, and no object owns two; a handle that is no window has no user data; the counter
  is the number of constructed objects, and the window class is registered as long as there is a window.\<close>

theorem windows_route_to_owner:
  assumes "reach env A w" and "os_ok env"
  shows "(\<forall>h. if h \<in> set (live w) then \<exists>i \<in> A. GetThisFromHandle h w = Some i \<and> GetHandle i w = Some h
      else GetThisFromHandle h w = None) \<and>
    g_active_window_count w = int (card A) \<and> (live w \<noteq> [] \<longrightarrow> class_registered w)"
proof -
  have inv: "win_inv A {} w" using assms by (rule reach_win_inv)
  have m: "win_map A w" by (rule win_invD(3) [OF inv])
  have "GetThisFromHandle h w = None" if "h \<notin> set (live w)" for h
    using m that by (auto simp: win_map_def GetThisFromHandle_def)
  with win_map_owner [OF m] inv show ?thesis by (simp add: win_inv_def GetThisFromHandle_def GetHandle_def)
qed

lemmas window_runs = Create_def Destroy.simps DestroyWindow.simps OnDestroy_def Flutter_OnDestroy_def Win32_OnDestroy_def
  process_start_def GetWindowClass_def CreateWindow_def plain_os_def failing_os_def new_window_def WndProc.simps
  Flutter_MessageHandler.simps Win32_MessageHandler.simps UpdateTheme_def OnCreate_def Flutter_OnCreate_def
  Win32_OnCreate_def SetChildContent_def during_def GetThisFromHandle_def EnableFullDpiSupportIfAvailable_def
  upd_def call_def Let_def

lemma plain_created:
  "\<exists>w. Create plain_os 0 [] (10, 10) (1280, 720) (new_window 0 process_start) = Some (True, w) \<and>
     live w = [Suc 0] \<and> user_data w (Suc 0) = Some 0 \<and> window_handle (objs w 0) = Some (Suc 0) \<and>
     flutter_controller (objs w 0) \<and> dyn_class (objs w 0) = Flutter_Class"
  by (simp add: window_runs)

lemma plain_reach:
  "Create plain_os 0 [] (10, 10) (1280, 720) (new_window 0 process_start) = Some (True, w) \<Longrightarrow> reach plain_os {0} w"
  using reach.create [OF reach.construct [OF reach.start, of 0]] by simp

theorem windows_route_to_owner_witness:
  "\<exists>w. Create plain_os 0 [] (10, 10) (1280, 720) (new_window 0 process_start) = Some (True, w) \<and>
     GetHandle 0 w = Some (Suc 0) \<and> GetThisFromHandle (Suc 0) w = Some 0 \<and> class_registered w"
proof -
  from plain_created obtain w where
    w: "Create plain_os 0 [] (10, 10) (1280, 720) (new_window 0 process_start) = Some (True, w)"
      "live w = [Suc 0]" "window_handle (objs w 0) = Some (Suc 0)" by blast
  have l: "Suc 0 \<in> set (live w)" using w(2) by simp
  note t = windows_route_to_owner [OF plain_reach [OF w(1)] plain_os_ok(1)]
  from conjunct1 [OF t, THEN spec, of "Suc 0"] l have "GetThisFromHandle (Suc 0) w = Some 0" by auto
  moreover have "class_registered w" using t w(2) by simp
  ultimately show ?thesis using w by (auto simp: GetHandle_def)
qed






text \<open>C26: when \<open>wWinMain\<close> returns, with success or failure, no window is left, the window class is
  unregistered and the object count is back to zero, whatever the system sent and plugins took, and
  whether the creation of the window failed with or without messages to it.\<close>

theorem wWinMain_cleans_up:
  assumes "os_ok env" and "wWinMain env es process_start = Some (Inr (code, w))" and "list_all plain_event es"
  shows "live w = [] \<and> \<not> class_registered w \<and> g_active_window_count w = 0"
proof -
  have n: "reach env {0} (new_window 0 process_start)" using reach.construct [OF reach.start] by simp
  from assms(2) obtain b v where v: "Create env 0 app_title (10, 10) (1280, 720) (new_window 0 process_start) = Some (b, v)"
    by (auto simp: wWinMain_def split: option.splits)
  have iv: "win_inv {0} {} v" using Create_inv [OF assms(1) reach_win_inv [OF n assms(1)] _ v] by blast
  obtain u where u: "win_inv {0} {} u" "delete_window env 0 u = Some w"
  proof (cases b)
    case False
    with v assms(2) iv that show ?thesis by (auto simp: wWinMain_def)
  next
    case True
    have "win_inv {0} {} (SetQuitOnClose True 0 v)" unfolding SetQuitOnClose_def by (rule upd_inv [OF iv]) simp_all
    moreover obtain u where "message_loop env es (SetQuitOnClose True 0 v) = Some (Quit u)" "delete_window env 0 u = Some w"
      using True v assms(2) by (auto simp: wWinMain_def split: option.splits loop_result.splits)
    ultimately show ?thesis using that message_loop_inv [OF _ _ assms(1,3)] by blast
  qed
  from delete_window_inv [OF assms(1) u(1) _ u(2)] show ?thesis by (simp add: win_inv_def)
qed

lemma main_run:
  "\<exists>w. wWinMain plain_os [Ev_Message (Suc 0) WM_SIZE, Ev_Close (Suc 0)] process_start = Some (Inr (EXIT_SUCCESS, w))"
  "\<exists>w. wWinMain failing_os [] process_start = Some (Inr (EXIT_FAILURE, w))"
  by (simp_all add: wWinMain_def app_title_def delete_window_def SetQuitOnClose_def UnregisterWindowClass_def window_runs)

theorem wWinMain_cleans_up_witness:
  "(\<exists>w. wWinMain plain_os [Ev_Message (Suc 0) WM_SIZE, Ev_Close (Suc 0)] process_start = Some (Inr (EXIT_SUCCESS, w)) \<and>
     live w = [] \<and> \<not> class_registered w \<and> g_active_window_count w = 0) \<and>
   (\<exists>w. wWinMain failing_os [] process_start = Some (Inr (EXIT_FAILURE, w)) \<and>
     live w = [] \<and> \<not> class_registered w \<and> g_active_window_count w = 0)"
proof -
  from main_run obtain w x where
    w: "wWinMain plain_os [Ev_Message (Suc 0) WM_SIZE, Ev_Close (Suc 0)] process_start = Some (Inr (EXIT_SUCCESS, w))"
    and x: "wWinMain failing_os [] process_start = Some (Inr (EXIT_FAILURE, x))" by blast
  from wWinMain_cleans_up [OF plain_os_ok(1) w] wWinMain_cleans_up [OF plain_os_ok(2) x] w x show ?thesis by simp
qed

end
