(* ===== verification/Win32_Utils.thy ===== *)
theory Win32_Utils
  imports Prelude
begin

text \<open>
  \<open>utils.cpp\<close> of the Windows runner: the conversion of UTF-16 strings to UTF-8 and the command
  line. \<open>WideCharToMultiByte\<close> is a parameter: from a source string, a source length (\<open>-1\<close> for
  up to and including the terminator) and the capacity of the target it returns its integer
  result and the bytes it wrote. A C string is the list of its units with the terminator.
\<close>

type_synonym wide_char_to_multi_byte = "u16 list \<Rightarrow> int \<Rightarrow> nat \<Rightarrow> int \<times> u8 list"

definition wcslen :: "u16 list \<Rightarrow> nat" where
  "wcslen s = length (takeWhile (\<lambda>c. c \<noteq> 0) s)"

text \<open>The cast \<open>(int)wcslen(\<dots>)\<close>, and \<open>std::string::max_size()\<close>.\<close>

definition to_int32 :: "nat \<Rightarrow> int" where
  "to_int32 n = signed_take_bit 31 (int n)"

definition max_size :: nat where
  "max_size = 2 ^ 63 - 1"

definition Utf8FromUtf16 :: "wide_char_to_multi_byte \<Rightarrow> u16 list option \<Rightarrow> u8 list" where
  "Utf8FromUtf16 wc utf16_string =
     (case utf16_string of
        None \<Rightarrow> []
      | Some s \<Rightarrow>
          let target_length = fst (wc s (- 1) 0) - 1;
              input_length = to_int32 (wcslen s);
              utf8_string = []
          in if target_length \<le> 0 \<or> max_size < nat target_length then utf8_string
             else
               let utf8_string = replicate (nat target_length) 0 in
               case wc s input_length (nat target_length) of (converted_length, bytes) \<Rightarrow>
                 if converted_length = 0 then []
                 else bytes @ drop (length bytes) utf8_string)"

text \<open>\<open>argv\<close> is \<^term>\<open>None\<close> when \<open>CommandLineToArgvW\<close> fails.\<close>

fun args_loop :: "wide_char_to_multi_byte \<Rightarrow> u16 list list \<Rightarrow> nat \<Rightarrow> u8 list list \<Rightarrow> u8 list list" where
  "args_loop wc argv 0 command_line_arguments = command_line_arguments"
| "args_loop wc argv (Suc n) command_line_arguments =
     args_loop wc argv n
       (command_line_arguments @ [Utf8FromUtf16 wc (Some (argv ! (length argv - Suc n)))])"

definition GetCommandLineArguments :: "wide_char_to_multi_byte \<Rightarrow> u16 list list option \<Rightarrow> u8 list list" where
  "GetCommandLineArguments wc argv =
     (case argv of None \<Rightarrow> [] | Some argv \<Rightarrow> args_loop wc argv (length argv - 1) [])"

datatype console_call =
    Call_freopen_stdout
  | Call_freopen_stderr
  | Call_dup2_stdout nat \<comment> \<open>\<open>_dup2(_fileno(stdout), fd)\<close>\<close>
  | Call_sync_with_stdio
  | Call_ResyncOutputStreams

text \<open>\<open>freopen_s\<close> returns zero when it succeeds.\<close>

definition CreateAndAttachConsole :: "bool \<Rightarrow> int \<Rightarrow> int \<Rightarrow> console_call list" where
  "CreateAndAttachConsole alloc_console reopen_stdout reopen_stderr =
     (if alloc_console then
        [Call_freopen_stdout] @ (if reopen_stdout \<noteq> 0 then [Call_dup2_stdout 1] else []) @
        [Call_freopen_stderr] @ (if reopen_stderr \<noteq> 0 then [Call_dup2_stdout 2] else []) @
        [Call_sync_with_stdio, Call_ResyncOutputStreams]
      else [])"

subsection \<open>What the conversion means\<close>

definition high_surrogate :: "u16 \<Rightarrow> bool" where
  "high_surrogate c \<longleftrightarrow> 0xd800 \<le> unat c \<and> unat c < 0xdc00"

definition low_surrogate :: "u16 \<Rightarrow> bool" where
  "low_surrogate c \<longleftrightarrow> 0xdc00 \<le> unat c \<and> unat c < 0xe000"

fun utf16_decode :: "u16 list \<Rightarrow> nat list option" where
  "utf16_decode [] = Some []"
| "utf16_decode (c # cs) =
     (if high_surrogate c then
        (case cs of
           [] \<Rightarrow> None
         | d # ds \<Rightarrow> if low_surrogate d
             then map_option (Cons (0x10000 + (unat c - 0xd800) * 0x400 + (unat d - 0xdc00))) (utf16_decode ds)
             else None)
      else if low_surrogate c then None
      else map_option (Cons (unat c)) (utf16_decode cs))"

definition utf8_char :: "nat \<Rightarrow> u8 list" where
  "utf8_char u =
     (if u < 0x80 then [of_nat u]
      else if u < 0x800 then [of_nat (0xc0 + u div 64), of_nat (0x80 + u mod 64)]
      else if u < 0x10000 then
        [of_nat (0xe0 + u div 4096), of_nat (0x80 + u div 64 mod 64), of_nat (0x80 + u mod 64)]
      else
        [of_nat (0xf0 + u div 262144), of_nat (0x80 + u div 4096 mod 64),
         of_nat (0x80 + u div 64 mod 64), of_nat (0x80 + u mod 64)])"

definition utf8_of :: "u16 list \<Rightarrow> u8 list option" where
  "utf8_of s = map_option (\<lambda>us. concat (map utf8_char us)) (utf16_decode s)"

text \<open>The documented behaviour with \<open>WC_ERR_INVALID_CHARS\<close>: on a well-formed string the number
  of bytes (with the terminator's, when the source length is \<open>-1\<close>); zero on a lone surrogate,
  on an empty source and on a target that is too small; a capacity of zero only asks for the
  size.\<close>

definition wc_ok :: "wide_char_to_multi_byte \<Rightarrow> bool" where
  "wc_ok wc \<longleftrightarrow>
     (\<forall>t s. 0 \<notin> set t \<longrightarrow>
        fst (wc (t @ 0 # s) (- 1) 0) = (case utf8_of t of None \<Rightarrow> 0 | Some b \<Rightarrow> int (length b) + 1) \<and>
        (\<forall>cap. t \<noteq> [] \<and> 0 < cap \<longrightarrow> wc (t @ 0 # s) (int (length t)) cap =
           (case utf8_of t of None \<Rightarrow> (0, []) | Some b \<Rightarrow> if length b \<le> cap then (int (length b), b) else (0, []))))"

lemma wcslen_terminated [simp]: "0 \<notin> set t \<Longrightarrow> wcslen (t @ 0 # s) = length t"
proof -
  assume "0 \<notin> set t"
  then have "takeWhile (\<lambda>c. c \<noteq> 0) (t @ 0 # s) = t" by (subst takeWhile_append2) auto
  then show ?thesis by (simp add: wcslen_def)
qed

lemma to_int32_small: "n < 2 ^ 31 \<Longrightarrow> to_int32 n = int n"
  by (simp add: to_int32_def signed_take_bit_int_eq_self)

lemma Utf8FromUtf16_eq:
  assumes wc: "wc_ok wc" and t: "0 \<notin> set t" and l: "length t < 2 ^ 31"
    and b: "\<And>b. utf8_of t = Some b \<Longrightarrow> length b < 2 ^ 31"
  shows "Utf8FromUtf16 wc (Some (t @ 0 # s)) = (case utf8_of t of None \<Rightarrow> [] | Some b \<Rightarrow> b)"
proof (cases "utf8_of t")
  case None
  then have "fst (wc (t @ 0 # s) (- 1) 0) = 0" using wc t by (simp add: wc_ok_def)
  with None show ?thesis by (simp add: Utf8FromUtf16_def Let_def)
next
  case (Some x)
  then have len: "fst (wc (t @ 0 # s) (- 1) 0) = int (length x) + 1" using wc t by (simp add: wc_ok_def)
  show ?thesis
  proof (cases "x = []")
    case True
    with len Some show ?thesis by (simp add: Utf8FromUtf16_def Let_def)
  next
    case False
    have "t \<noteq> []"
    proof
      assume "t = []"
      with Some False show False by (simp add: utf8_of_def)
    qed
    with False have "wc (t @ 0 # s) (int (length t)) (length x) = (int (length x), x)"
      using wc t Some by (simp add: wc_ok_def)
    moreover have "length x \<le> max_size" using b [OF Some] by (simp add: max_size_def)
    ultimately show ?thesis
      using len Some False t to_int32_small [OF l] by (simp add: Utf8FromUtf16_def Let_def)
  qed
qed

lemma args_loop_eq:
  "n \<le> length argv \<Longrightarrow> args_loop wc argv n acc = acc @ map (\<lambda>s. Utf8FromUtf16 wc (Some s)) (drop (length argv - n) argv)"
proof (induction n arbitrary: acc)
  case (Suc n)
  then have "drop (length argv - Suc n) argv = argv ! (length argv - Suc n) # drop (length argv - n) argv"
    by (metis Cons_nth_drop_Suc Suc_diff_Suc Suc_le_lessD diff_less_Suc diff_Suc_less length_greater_0_conv
        less_le_trans list.size(3) not_less_zero zero_less_Suc)
  with Suc show ?case by simp
qed simp

subsection \<open>Properties\<close>

text \<open>C30: the engine gets the command line without the program name, every argument in UTF-8; an
  argument that is not well-formed UTF-16 becomes the empty string, and a failing
  \<open>CommandLineToArgvW\<close> gives no arguments.\<close>

theorem GetCommandLineArguments_utf8:
  assumes "wc_ok wc" and "\<forall>t \<in> set ts. 0 \<notin> set t \<and> length t < 2 ^ 31 \<and> (\<forall>b. utf8_of t = Some b \<longrightarrow> length b < 2 ^ 31)"
  shows "GetCommandLineArguments wc (Some (map (\<lambda>t. t @ [0]) (prog # ts))) =
      map (\<lambda>t. case utf8_of t of None \<Rightarrow> [] | Some b \<Rightarrow> b) ts \<and>
    GetCommandLineArguments wc None = []"
proof -
  have "Utf8FromUtf16 wc (Some (t @ [0])) = (case utf8_of t of None \<Rightarrow> [] | Some b \<Rightarrow> b)" if "t \<in> set ts" for t
    using assms that by (intro Utf8FromUtf16_eq) auto
  then show ?thesis by (simp add: GetCommandLineArguments_def args_loop_eq comp_def)
qed

text \<open>A converter that behaves as documented.\<close>

definition plain_wc :: wide_char_to_multi_byte where
  "plain_wc s n cap =
     (let t = (if n = - 1 then takeWhile (\<lambda>c. c \<noteq> 0) s else take (nat n) s) in
      case utf8_of t of
        None \<Rightarrow> (0, [])
      | Some b \<Rightarrow> if cap = 0 then (int (length b) + (if n = - 1 then 1 else 0), [])
                  else if length b \<le> cap then (int (length b), b) else (0, []))"

lemma plain_wc_ok: "wc_ok plain_wc"
proof -
  have "takeWhile (\<lambda>c. c \<noteq> 0) (t @ 0 # s) = t" if "0 \<notin> set t" for t s :: "u16 list"
    using that by (subst takeWhile_append2) auto
  then show ?thesis by (simp add: wc_ok_def plain_wc_def split: option.split)
qed

theorem GetCommandLineArguments_utf8_witness:
  "GetCommandLineArguments plain_wc (Some [[0x61, 0], [0x62, 0xe9, 0], [0xd83d, 0xde00, 0], [0xd83d, 0]]) =
     [[0x62, 0xc3, 0xa9], [0xf0, 0x9f, 0x98, 0x80], []]"
proof -
  have e: "utf8_of [0x62, 0xe9] = Some [0x62, 0xc3, 0xa9]" "utf8_of [0xd83d, 0xde00] = Some [0xf0, 0x9f, 0x98, 0x80]"
    "utf8_of [0xd83d] = None"
    by (simp_all add: utf8_of_def utf8_char_def high_surrogate_def low_surrogate_def)
  show ?thesis
    using GetCommandLineArguments_utf8 [OF plain_wc_ok, of "[[0x62, 0xe9], [0xd83d, 0xde00], [0xd83d]]" "[0x61]"] e
    by simp
qed

end
