(* ===== verification/Linux_Runner.thy ===== *)
theory Linux_Runner
  imports Prelude
begin

text \<open>
  The Linux runner, \<open>my_application.cc\<close>: the virtual functions GTK calls on the application
  object. The object's own state is the saved argument vector; what the functions ask of GTK and
  of the Flutter engine is appended to a trace. GTK's answers are the parameters of \<open>gtk\<close>.
\<close>

type_synonym cstr = "u8 list"

datatype gtk_call =
    Gtk_NewWindow
  | Gtk_HeaderBar cstr bool \<comment> \<open>title and close button of the header bar, set as the title bar\<close>
  | Gtk_WindowTitle cstr
  | Gtk_DefaultSize nat nat
  | Gtk_ShowWindow
  | Fl_NewView "cstr list option" \<comment> \<open>the entrypoint arguments of the project of the view\<close>
  | Gtk_ShowView
  | Gtk_AddView
  | Fl_RegisterPlugins
  | Gtk_GrabFocus
  | G_Warning cstr
  | G_Register
  | Parent_startup
  | Parent_shutdown
  | Parent_dispose

record my_application =
  dart_entrypoint_arguments :: "cstr list option" \<comment> \<open>a null pointer or the vector\<close>
  gtk_calls :: "gtk_call list"

record gtk =
  screen_is_x11 :: bool
  wm_name :: "cstr option" \<comment> \<open>the name of the window manager, or null\<close>
  register_error :: "cstr option" \<comment> \<open>why the application could not be registered\<close>

definition emit :: "gtk_call list \<Rightarrow> my_application \<Rightarrow> my_application" where
  "emit cs self = self\<lparr>gtk_calls := gtk_calls self @ cs\<rparr>"

definition app_name :: cstr where
  "app_name = map (\<lambda>c. of_nat (of_char c)) ''sayaaratukcom''"

definition gnome_shell :: cstr where
  "gnome_shell = map (\<lambda>c. of_nat (of_char c)) ''GNOME Shell''"

definition my_application_init :: my_application where
  "my_application_init = \<lparr>dart_entrypoint_arguments = None, gtk_calls = []\<rparr>"

definition use_header_bar :: "gtk \<Rightarrow> bool" where
  "use_header_bar G = (if screen_is_x11 G then wm_name G = Some gnome_shell else True)"

definition my_application_activate :: "gtk \<Rightarrow> my_application \<Rightarrow> my_application" where
  "my_application_activate G self =
     emit ([Gtk_NewWindow, if use_header_bar G then Gtk_HeaderBar app_name True else Gtk_WindowTitle app_name,
            Gtk_DefaultSize 1280 720, Gtk_ShowWindow, Fl_NewView (dart_entrypoint_arguments self),
            Gtk_ShowView, Gtk_AddView, Fl_RegisterPlugins, Gtk_GrabFocus]) self"

text \<open>\<open>arguments\<close> is the vector before its null terminator; \<open>*arguments + 1\<close> of an empty vector
  is past the terminator, the outcome \<^term>\<open>None\<close>. The result is the return value and the exit
  status.\<close>

definition my_application_local_command_line ::
    "gtk \<Rightarrow> cstr list \<Rightarrow> my_application \<Rightarrow> ((bool \<times> int) \<times> my_application) option" where
  "my_application_local_command_line G arguments self =
     (if arguments = [] then None
      else
        let self = self\<lparr>dart_entrypoint_arguments := Some (tl arguments)\<rparr>;
            self = emit [G_Register] self
        in case register_error G of
             Some message \<Rightarrow> Some ((True, 1), emit [G_Warning message] self)
           | None \<Rightarrow> Some ((True, 0), my_application_activate G self))"

definition my_application_startup :: "my_application \<Rightarrow> my_application" where
  "my_application_startup = emit [Parent_startup]"

definition my_application_shutdown :: "my_application \<Rightarrow> my_application" where
  "my_application_shutdown = emit [Parent_shutdown]"

definition my_application_dispose :: "my_application \<Rightarrow> my_application" where
  "my_application_dispose self = emit [Parent_dispose] (self\<lparr>dart_entrypoint_arguments := None\<rparr>)"

text \<open>Whatever was saved before, the engine gets the arguments after the program name, and nothing is
  opened when the application cannot be registered: then the reason is logged and the status is 1.\<close>

lemma local_command_line:
  "my_application_local_command_line G (prog # args) self =
     Some (case register_error G of
       Some message \<Rightarrow> ((True, 1), emit [G_Register, G_Warning message] (self\<lparr>dart_entrypoint_arguments := Some args\<rparr>))
     | None \<Rightarrow> ((True, 0), my_application_activate G (emit [G_Register] (self\<lparr>dart_entrypoint_arguments := Some args\<rparr>))))"
  by (simp add: my_application_local_command_line_def emit_def Let_def split: option.split)

lemma view_arguments:
  assumes "my_application_local_command_line G (prog # args) self = Some (r, self')" and "register_error G = None"
  shows "Fl_NewView (Some args) \<in> set (gtk_calls self')"
  using assms by (auto simp: local_command_line my_application_activate_def emit_def)

end
