(* ===== verification/Pb_Stream.thy ===== *)
theory Pb_Stream
  imports Prelude
begin

text \<open>
  The streams of nanopb: \<open>pb_istream_t\<close> of \<open>pb_decode.c\<close> and \<open>pb_ostream_t\<close> of
  \<open>pb_encode.c\<close>. A stream is its callback with its state, the byte counters and the first
  error message. Two callbacks are the library's own, \<open>buf_read\<close> and \<open>buf_write\<close>; any other
  is a parameter, a function from its state. The contract of a custom input callback in
  \<open>pb_decode.h\<close> lets it fail, and, as the library's end-of-file test expects, set
  \<open>bytes_left\<close> to zero when it fails at the end of its input.
\<close>

subsection \<open>Input streams\<close>

datatype in_result = In_Bytes "u8 list" | In_Failed bool \<comment> \<open>whether it set \<open>bytes_left\<close> to 0\<close>

datatype 'st in_source =
    Buf_Read "u8 list" \<comment> \<open>\<open>callback == buf_read\<close>, with the pointer \<open>state\<close>\<close>
  | In_Callback "'st \<Rightarrow> nat \<Rightarrow> in_result \<times> 'st" 'st

record 'st pb_istream =
  source :: "'st in_source"
  bytes_left :: nat
  errmsg :: "string option"

definition pb_istream_from_buffer :: "u8 list \<Rightarrow> nat \<Rightarrow> 'st pb_istream" where
  "pb_istream_from_buffer buf bufsize = \<lparr>source = Buf_Read buf, bytes_left = bufsize, errmsg = None\<rparr>"

text \<open>PB\_SET\_ERROR keeps the first message; PB\_RETURN\_ERROR then returns false.\<close>

definition PB_RETURN_ERROR :: "string \<Rightarrow> ('st pb_istream, 'a) call" where
  "PB_RETURN_ERROR msg stream =
     (None, stream\<lparr>errmsg := (case errmsg stream of None \<Rightarrow> Some msg | Some m \<Rightarrow> Some m)\<rparr>)"

definition buf_read :: "nat \<Rightarrow> u8 list \<Rightarrow> u8 list \<times> u8 list" where
  "buf_read count src = (take count src, drop count src)"

text \<open>\<open>stream->callback(stream, buf, count)\<close>.\<close>

definition in_callback :: "nat \<Rightarrow> ('st pb_istream, u8 list) call" where
  "in_callback count stream =
     (case source stream of
        Buf_Read p \<Rightarrow> (case buf_read count p of (bs, p') \<Rightarrow> (Some bs, stream\<lparr>source := Buf_Read p'\<rparr>))
      | In_Callback f st \<Rightarrow>
          (case f st count of
             (In_Bytes bs, st') \<Rightarrow> (Some bs, stream\<lparr>source := In_Callback f st'\<rparr>)
           | (In_Failed eof, st') \<Rightarrow>
               (None, stream\<lparr>source := In_Callback f st', bytes_left := if eof then 0 else bytes_left stream\<rparr>)))"

definition is_buf_read :: "'st pb_istream \<Rightarrow> bool" where
  "is_buf_read stream = (case source stream of Buf_Read _ \<Rightarrow> True | _ \<Rightarrow> False)"

text \<open>The tail of \<open>pb_read\<close>, and its loop that skips sixteen bytes at a time.\<close>

definition read_chunk :: "nat \<Rightarrow> ('st pb_istream, u8 list) call" where
  "read_chunk count stream =
     (if count = 0 then (Some [], stream)
      else if bytes_left stream < count then PB_RETURN_ERROR ''end-of-stream'' stream
      else
        (case in_callback count stream of
           (None, stream) \<Rightarrow> PB_RETURN_ERROR ''io error'' stream
         | (Some bs, stream) \<Rightarrow> (Some bs, stream\<lparr>bytes_left := bytes_left stream - count\<rparr>)))"

fun skip_loop :: "nat \<Rightarrow> ('st pb_istream, u8 list) call" where
  "skip_loop count =
     (if 16 < count then bindC (read_chunk 16) (\<lambda>_. skip_loop (count - 16)) else read_chunk count)"

declare skip_loop.simps [simp del]

text \<open>\<open>has_buf\<close>: whether the destination is not null.\<close>

definition pb_read :: "bool \<Rightarrow> nat \<Rightarrow> ('st pb_istream, u8 list) call" where
  "pb_read has_buf count stream =
     (if count = 0 then (Some [], stream)
      else if \<not> has_buf \<and> \<not> is_buf_read stream then skip_loop count stream
      else read_chunk count stream)"

definition pb_readbyte :: "('st pb_istream, u8) call" where
  "pb_readbyte stream =
     (if bytes_left stream = 0 then PB_RETURN_ERROR ''end-of-stream'' stream
      else
        (case in_callback 1 stream of
           (None, stream) \<Rightarrow> PB_RETURN_ERROR ''io error'' stream
         | (Some bs, stream) \<Rightarrow> (Some (hd bs), stream\<lparr>bytes_left := bytes_left stream - 1\<rparr>)))"

lemma in_callback_left: "in_callback n s = (Some bs, s') \<Longrightarrow> bytes_left s' = bytes_left s"
  by (auto simp: in_callback_def split: in_source.splits prod.splits in_result.splits)

lemma pb_readbyte_left:
  "pb_readbyte s = (Some b, s') \<Longrightarrow> 0 < bytes_left s \<and> bytes_left s' = bytes_left s - 1"
  by (auto simp: pb_readbyte_def PB_RETURN_ERROR_def dest: in_callback_left split: if_splits prod.splits option.splits)

lemma read_chunk_left:
  "read_chunk n s = (Some bs, s') \<Longrightarrow> n \<le> bytes_left s \<and> bytes_left s' = bytes_left s - n"
  by (auto simp: read_chunk_def PB_RETURN_ERROR_def dest: in_callback_left split: if_splits prod.splits option.splits)

lemma skip_loop_left:
  "skip_loop n s = (Some bs, s') \<Longrightarrow> n \<le> bytes_left s \<and> bytes_left s' = bytes_left s - n"
proof (induction n arbitrary: s rule: skip_loop.induct)
  case (1 n)
  show ?case
  proof (cases "16 < n")
    case True
    with 1(2) obtain x t where t: "read_chunk 16 s = (Some x, t)" "skip_loop (n - 16) t = (Some bs, s')"
      by (subst (asm) skip_loop.simps) (auto elim!: bindC_SomeE)
    from 1(1) [OF True t(2)] read_chunk_left [OF t(1)] True show ?thesis by linarith
  next
    case False
    with 1(2) read_chunk_left show ?thesis by (subst (asm) skip_loop.simps) simp
  qed
qed

lemma pb_read_left:
  "pb_read b n s = (Some bs, s') \<Longrightarrow> n \<le> bytes_left s \<and> bytes_left s' = bytes_left s - n"
  by (auto simp: pb_read_def split: if_splits dest: skip_loop_left read_chunk_left)

subsection \<open>Streams over a buffer\<close>

definition in_ok :: "'st pb_istream \<Rightarrow> bool" where
  "in_ok s \<longleftrightarrow> (\<exists>p. source s = Buf_Read p \<and> bytes_left s \<le> length p)"

text \<open>The bytes a stream over a buffer may still deliver.\<close>

definition in_bytes :: "'st pb_istream \<Rightarrow> u8 list" where
  "in_bytes s = (case source s of Buf_Read p \<Rightarrow> take (bytes_left s) p | _ \<Rightarrow> [])"

definition in_advance :: "nat \<Rightarrow> 'st pb_istream \<Rightarrow> 'st pb_istream" where
  "in_advance n s = s\<lparr>source := (case source s of Buf_Read p \<Rightarrow> Buf_Read (drop n p) | x \<Rightarrow> x),
     bytes_left := bytes_left s - n\<rparr>"

lemma length_in_bytes [simp]: "in_ok s \<Longrightarrow> length (in_bytes s) = bytes_left s"
  by (auto simp: in_ok_def in_bytes_def)

lemma in_ok_advance [simp]: "in_ok s \<Longrightarrow> n \<le> bytes_left s \<Longrightarrow> in_ok (in_advance n s)"
  by (auto simp: in_ok_def in_advance_def)

lemma in_bytes_advance [simp]: "in_ok s \<Longrightarrow> in_bytes (in_advance n s) = drop n (in_bytes s)"
  by (auto simp: in_ok_def in_bytes_def in_advance_def drop_take)

lemma in_advance_left [simp]: "bytes_left (in_advance n s) = bytes_left s - n"
  by (simp add: in_advance_def)

lemma in_advance_errmsg [simp]: "errmsg (in_advance n s) = errmsg s"
  by (simp add: in_advance_def)

lemma in_advance_add: "in_ok s \<Longrightarrow> in_advance m (in_advance n s) = in_advance (n + m) s"
  by (auto simp: in_ok_def in_advance_def add.commute)

lemma in_advance_0 [simp]: "in_ok s \<Longrightarrow> in_advance 0 s = s"
  by (auto simp: in_ok_def in_advance_def)

lemma from_buffer_ok [simp]:
  "n \<le> length buf \<Longrightarrow> in_ok (pb_istream_from_buffer buf n)"
  "in_bytes (pb_istream_from_buffer buf n) = take n buf"
  by (simp_all add: pb_istream_from_buffer_def in_ok_def in_bytes_def)

text \<open>A reader of a buffer stream follows a parser that returns a value and the number of bytes
  it used.\<close>

locale pb_reader =
  fixes rd :: "('st pb_istream, 'a) call" and parse :: "u8 list \<Rightarrow> ('a \<times> nat) option"
  assumes reads: "in_ok s \<Longrightarrow> parse (in_bytes s) = Some (v, n) \<Longrightarrow> n \<le> bytes_left s \<and> rd s = (Some v, in_advance n s)"
    and fails: "in_ok s \<Longrightarrow> parse (in_bytes s) = None \<Longrightarrow> fst (rd s) = None"
begin

lemma success_iff:
  assumes "in_ok s"
  shows "rd s = (Some v, s') \<longleftrightarrow> (\<exists>n. parse (in_bytes s) = Some (v, n) \<and> s' = in_advance n s)"
proof (cases "parse (in_bytes s)")
  case None
  with fails [OF assms] show ?thesis by auto
next
  case (Some p)
  with reads [OF assms, of "fst p" "snd p"] show ?thesis by (cases p) auto
qed

lemma keeps_ok: "in_ok s \<Longrightarrow> rd s = (Some v, s') \<Longrightarrow> in_ok s' \<and> bytes_left s' \<le> bytes_left s \<and> errmsg s' = errmsg s"
  using reads unfolding success_iff by fastforce

text \<open>On bytes in front of others.\<close>

lemma on_prefix:
  assumes "in_ok s" and "in_bytes s = x @ y" and "parse (x @ y) = Some (v, length x)"
  shows "rd s = (Some v, in_advance (length x) s) \<and> in_bytes (in_advance (length x) s) = y"
  using assms reads [OF assms(1), of v "length x"] by simp

end

lemma reader_bind:
  fixes f :: "('st pb_istream, 'a) call" and g :: "'a \<Rightarrow> ('st pb_istream, 'b) call"
  assumes f: "pb_reader f p" and g: "\<And>x. pb_reader (g x) (q x)"
  shows "pb_reader (bindC f g)
    (\<lambda>bs. case p bs of None \<Rightarrow> None | Some (x, n) \<Rightarrow>
       (case q x (drop n bs) of None \<Rightarrow> None | Some (y, m) \<Rightarrow> Some (y, n + m)))"
proof (rule pb_reader.intro)
  fix s :: "'st pb_istream" and v n
  assume s: "in_ok s" and r: "(case p (in_bytes s) of None \<Rightarrow> None | Some (x, n) \<Rightarrow>
       (case q x (drop n (in_bytes s)) of None \<Rightarrow> None | Some (y, m) \<Rightarrow> Some (y, n + m))) = Some (v, n)"
  then obtain x k m where x: "p (in_bytes s) = Some (x, k)" "q x (drop k (in_bytes s)) = Some (v, m)" "n = k + m"
    by (auto split: option.splits)
  from pb_reader.reads [OF f s x(1)] have k: "k \<le> bytes_left s" "f s = (Some x, in_advance k s)" by auto
  from pb_reader.reads [OF g, of "in_advance k s" x v m] s x(2) k(1) have
    "m \<le> bytes_left s - k" "g x (in_advance k s) = (Some v, in_advance m (in_advance k s))" by auto
  with k x(3) show "n \<le> bytes_left s \<and> bindC f g s = (Some v, in_advance n s)"
    by (simp add: bindC_def in_advance_add [OF s])
next
  fix s :: "'st pb_istream"
  assume s: "in_ok s" and r: "(case p (in_bytes s) of None \<Rightarrow> None | Some (x, n) \<Rightarrow>
       (case q x (drop n (in_bytes s)) of None \<Rightarrow> None | Some (y, m) \<Rightarrow> Some (y, n + m))) = None"
  show "fst (bindC f g s) = None"
  proof (cases "p (in_bytes s)")
    case None
    with pb_reader.fails [OF f s] show ?thesis by (cases "f s") (auto simp: bindC_def)
  next
    case (Some a)
    then obtain x k where x: "p (in_bytes s) = Some (x, k)" by (cases a) auto
    from pb_reader.reads [OF f s x] have k: "k \<le> bytes_left s" "f s = (Some x, in_advance k s)" by auto
    have "q x (in_bytes (in_advance k s)) = None" using r x s by (auto split: option.splits)
    with pb_reader.fails [OF g] s k show ?thesis by (simp add: bindC_def)
  qed
qed

lemma reader_ret: "pb_reader (retC x) (\<lambda>_. Some (x, 0))"
  by (rule pb_reader.intro) auto

lemma read_chunk_reader:
  "pb_reader (read_chunk n) (\<lambda>bs. if n \<le> length bs then Some (take n bs, n) else None)"
  by (rule pb_reader.intro)
    (auto simp: read_chunk_def in_callback_def buf_read_def in_ok_def in_bytes_def in_advance_def
      PB_RETURN_ERROR_def take_take min_def split: if_splits)

lemma pb_read_buffer: "in_ok s \<Longrightarrow> pb_read b n s = read_chunk n s"
  by (auto simp: pb_read_def is_buf_read_def in_ok_def read_chunk_def)

lemma pb_read_reader:
  "pb_reader (pb_read b n) (\<lambda>bs. if n \<le> length bs then Some (take n bs, n) else None)"
proof (rule pb_reader.intro)
  fix s :: "'a pb_istream" and v m
  assume s: "in_ok s"
  show "(if n \<le> length (in_bytes s) then Some (take n (in_bytes s), n) else None) = Some (v, m) \<Longrightarrow>
      m \<le> bytes_left s \<and> pb_read b n s = (Some v, in_advance m s)"
    using pb_reader.reads [OF read_chunk_reader s] by (simp add: pb_read_buffer [OF s])
  show "(if n \<le> length (in_bytes s) then Some (take n (in_bytes s), n) else None) = None \<Longrightarrow>
      fst (pb_read b n s) = None"
    using pb_reader.fails [OF read_chunk_reader s] by (simp add: pb_read_buffer [OF s])
qed

lemma pb_readbyte_reader:
  "pb_reader pb_readbyte (\<lambda>bs. case bs of [] \<Rightarrow> None | b # _ \<Rightarrow> Some (b, 1))"
  by (rule pb_reader.intro)
    (auto simp: pb_readbyte_def in_callback_def buf_read_def in_ok_def in_bytes_def in_advance_def
      PB_RETURN_ERROR_def split: list.splits if_splits, (case_tac p; case_tac "bytes_left s"; simp)+)

interpretation read_bytes: pb_reader "pb_read b n" "\<lambda>bs. if n \<le> length bs then Some (take n bs, n) else None" for b n
  by (rule pb_read_reader)

interpretation readbyte: pb_reader pb_readbyte "\<lambda>bs. case bs of [] \<Rightarrow> None | b # _ \<Rightarrow> Some (b, 1)"
  by (rule pb_readbyte_reader)


subsection \<open>Output streams\<close>

datatype 'st out_sink =
    Out_Null \<comment> \<open>a null callback: the stream only counts\<close>
  | Buf_Write "u8 list" nat \<comment> \<open>\<open>callback == buf_write\<close>: the buffer and the offset of \<open>state\<close> in it\<close>
  | Out_Callback "'st \<Rightarrow> u8 list \<Rightarrow> bool \<times> 'st" 'st

record 'st pb_ostream =
  sink :: "'st out_sink"
  max_size :: nat
  bytes_written :: nat
  oerrmsg :: "string option"

definition PB_OSTREAM_SIZING :: "'st pb_ostream" where
  "PB_OSTREAM_SIZING = \<lparr>sink = Out_Null, max_size = 0, bytes_written = 0, oerrmsg = None\<rparr>"

definition pb_ostream_from_buffer :: "u8 list \<Rightarrow> nat \<Rightarrow> 'st pb_ostream" where
  "pb_ostream_from_buffer buf bufsize =
     \<lparr>sink = Buf_Write buf 0, max_size = bufsize, bytes_written = 0, oerrmsg = None\<rparr>"

definition PB_RETURN_OERROR :: "string \<Rightarrow> ('st pb_ostream, 'a) call" where
  "PB_RETURN_OERROR msg stream =
     (None, stream\<lparr>oerrmsg := (case oerrmsg stream of None \<Rightarrow> Some msg | Some m \<Rightarrow> Some m)\<rparr>)"

definition buf_write :: "u8 list \<Rightarrow> u8 list \<Rightarrow> nat \<Rightarrow> u8 list \<times> nat" where
  "buf_write bs dest pos = (take pos dest @ bs @ drop (pos + length bs) dest, pos + length bs)"

definition out_callback :: "u8 list \<Rightarrow> ('st pb_ostream, unit) call" where
  "out_callback bs stream =
     (case sink stream of
        Buf_Write dest pos \<Rightarrow> (case buf_write bs dest pos of (d, p) \<Rightarrow> (Some (), stream\<lparr>sink := Buf_Write d p\<rparr>))
      | Out_Callback f st \<Rightarrow>
          (case f st bs of (ok, st') \<Rightarrow> (if ok then Some () else None, stream\<lparr>sink := Out_Callback f st'\<rparr>))
      | Out_Null \<Rightarrow> (None, stream))"

text \<open>\<open>buf\<close> are the bytes at the source pointer; a null source is the empty list.\<close>

definition pb_write :: "u8 list \<Rightarrow> nat \<Rightarrow> ('st pb_ostream, unit) call" where
  "pb_write buf count stream =
     (if 0 < count \<and> sink stream \<noteq> Out_Null then
        if size_wrap (bytes_written stream + count) < bytes_written stream \<or>
           max_size stream < size_wrap (bytes_written stream + count)
        then PB_RETURN_OERROR ''stream full'' stream
        else
          (case out_callback (take count buf) stream of
             (None, stream) \<Rightarrow> PB_RETURN_OERROR ''io error'' stream
           | (Some _, stream) \<Rightarrow> (Some (), stream\<lparr>bytes_written := size_wrap (bytes_written stream + count)\<rparr>))
      else (Some (), stream\<lparr>bytes_written := size_wrap (bytes_written stream + count)\<rparr>))"

subsection \<open>Streams into a buffer, and sizing streams\<close>

definition out_ok :: "'st pb_ostream \<Rightarrow> bool" where
  "out_ok s \<longleftrightarrow> bytes_written s \<le> max_size s \<and> max_size s < 2 ^ 64 \<and>
     (\<exists>buf pos. sink s = Buf_Write buf pos \<and> pos + (max_size s - bytes_written s) \<le> length buf)"

definition out_bytes :: "'st pb_ostream \<Rightarrow> u8 list" where
  "out_bytes s = (case sink s of Buf_Write buf pos \<Rightarrow> take pos buf | _ \<Rightarrow> [])"

definition out_append :: "u8 list \<Rightarrow> 'st pb_ostream \<Rightarrow> 'st pb_ostream" where
  "out_append x s = s\<lparr>sink := (case sink s of
       Buf_Write buf pos \<Rightarrow> Buf_Write (take pos buf @ x @ drop (pos + length x) buf) (pos + length x) | y \<Rightarrow> y),
     bytes_written := bytes_written s + length x\<rparr>"

lemma out_append_fields [simp]:
  "bytes_written (out_append x s) = bytes_written s + length x" "max_size (out_append x s) = max_size s"
  "oerrmsg (out_append x s) = oerrmsg s"
  by (simp_all add: out_append_def)

lemma out_ok_append [simp]:
  "out_ok s \<Longrightarrow> bytes_written s + length x \<le> max_size s \<Longrightarrow> out_ok (out_append x s)"
  by (auto simp: out_ok_def out_append_def)

lemma out_bytes_append [simp]: "out_ok s \<Longrightarrow> out_bytes (out_append x s) = out_bytes s @ x"
  by (auto simp: out_ok_def out_bytes_def out_append_def min_def)

lemma out_append_append:
  assumes "out_ok s" and "bytes_written s + length x \<le> max_size s"
  shows "out_append y (out_append x s) = out_append (x @ y) s"
proof -
  from assms obtain buf pos where b: "sink s = Buf_Write buf pos" "pos + length x \<le> length buf"
    by (auto simp: out_ok_def)
  then have "take (pos + length x) (take pos buf @ x @ drop (pos + length x) buf) = take pos buf @ x" by simp
  with b show ?thesis by (simp add: out_append_def drop_drop add.assoc add.commute [of "length y"])
qed

lemma out_append_Nil [simp]: "out_ok s \<Longrightarrow> out_append [] s = s"
  by (auto simp: out_ok_def out_append_def)

lemma out_null_append: "sink s = Out_Null \<Longrightarrow> out_append x s = s\<lparr>bytes_written := bytes_written s + length x\<rparr>"
  by (simp add: out_append_def)

lemma from_out_buffer_ok [simp]:
  "n \<le> length buf \<Longrightarrow> n < 2 ^ 64 \<Longrightarrow> out_ok (pb_ostream_from_buffer buf n)"
  "out_bytes (pb_ostream_from_buffer buf n) = []"
  "bytes_written (pb_ostream_from_buffer buf n) = 0" "max_size (pb_ostream_from_buffer buf n) = n"
  by (simp_all add: pb_ostream_from_buffer_def out_ok_def out_bytes_def)

text \<open>A writer appends its bytes when they fit, and fails otherwise; on a sizing stream it
  counts them.\<close>

locale pb_writer =
  fixes wr :: "('st pb_ostream, unit) call" and x :: "u8 list"
  assumes writes: "out_ok s \<Longrightarrow> bytes_written s + length x \<le> max_size s \<Longrightarrow> wr s = (Some (), out_append x s)"
    and full: "out_ok s \<Longrightarrow> length x < 2 ^ 64 \<Longrightarrow> max_size s < bytes_written s + length x \<Longrightarrow> fst (wr s) = None"
    and sizes: "sink s = Out_Null \<Longrightarrow> bytes_written s + length x < 2 ^ 64 \<Longrightarrow> wr s = (Some (), out_append x s)"
begin

lemma success_iff:
  assumes "out_ok s" and "length x < 2 ^ 64"
  shows "wr s = (Some (), s') \<longleftrightarrow> bytes_written s + length x \<le> max_size s \<and> s' = out_append x s"
proof (cases "bytes_written s + length x \<le> max_size s")
  case True
  with writes [OF assms(1)] show ?thesis by auto
next
  case False
  with full [OF assms] show ?thesis by auto
qed

lemma sizing: "length x < 2 ^ 64 \<Longrightarrow> wr PB_OSTREAM_SIZING = (Some (), out_append x PB_OSTREAM_SIZING)"
  by (rule sizes) (simp_all add: PB_OSTREAM_SIZING_def)

end

lemma pb_write_writer: "n = length x \<Longrightarrow> pb_writer (pb_write x n) x"
proof (rule pb_writer.intro)
  fix s :: "'a pb_ostream"
  assume n: "n = length x" and s: "out_ok s" "bytes_written s + length x \<le> max_size s"
  then have "bytes_written s + n < 2 ^ 64" by (simp add: out_ok_def)
  with n s show "pb_write x n s = (Some (), out_append x s)"
    by (auto simp: pb_write_def out_ok_def out_callback_def buf_write_def out_append_def)
next
  fix s :: "'a pb_ostream"
  assume n: "n = length x" and s: "out_ok s" "length x < 2 ^ 64" "max_size s < bytes_written s + length x"
  have b: "bytes_written s < 2 ^ 64" "bytes_written s \<le> max_size s" using s(1) by (auto simp: out_ok_def)
  have "0 < n" using s n b by auto
  moreover have "size_wrap (bytes_written s + n) < bytes_written s \<or> max_size s < size_wrap (bytes_written s + n)"
  proof (cases "bytes_written s + n < 2 ^ 64")
    case True
    then show ?thesis using s n by simp
  next
    case False
    then show ?thesis using size_wrap_overflows [OF b(1), of n] s n by simp
  qed
  ultimately show "fst (pb_write x n s) = None"
    using s(1) by (auto simp: pb_write_def PB_RETURN_OERROR_def out_ok_def)
next
  fix s :: "'a pb_ostream"
  assume "n = length x" "sink s = Out_Null" "bytes_written s + length x < 2 ^ 64"
  then show "pb_write x n s = (Some (), out_append x s)"
    by (simp add: pb_write_def out_null_append)
qed

lemma writer_bind:
  fixes f g :: "('st pb_ostream, unit) call"
  assumes f: "pb_writer f x" and g: "pb_writer g y"
  shows "pb_writer (bindC f (\<lambda>_. g)) (x @ y)"
proof (rule pb_writer.intro)
  fix s :: "'st pb_ostream"
  assume s: "out_ok s" "bytes_written s + length (x @ y) \<le> max_size s"
  then have "f s = (Some (), out_append x s)" "g (out_append x s) = (Some (), out_append y (out_append x s))"
    by (auto intro!: pb_writer.writes [OF f] pb_writer.writes [OF g])
  with s show "bindC f (\<lambda>_. g) s = (Some (), out_append (x @ y) s)"
    by (simp add: bindC_def out_append_append)
next
  fix s :: "'st pb_ostream"
  assume s: "out_ok s" "length (x @ y) < 2 ^ 64" "max_size s < bytes_written s + length (x @ y)"
  show "fst (bindC f (\<lambda>_. g) s) = None"
  proof (cases "bytes_written s + length x \<le> max_size s")
    case True
    then have "f s = (Some (), out_append x s)" using s by (intro pb_writer.writes [OF f])
    moreover have "fst (g (out_append x s)) = None" using s True by (intro pb_writer.full [OF g]) auto
    ultimately show ?thesis by (simp add: bindC_def)
  next
    case False
    then have "fst (f s) = None" using s by (intro pb_writer.full [OF f]) auto
    then show ?thesis by (cases "f s") (simp add: bindC_def)
  qed
next
  fix s :: "'st pb_ostream"
  assume s: "sink s = Out_Null" "bytes_written s + length (x @ y) < 2 ^ 64"
  then have "f s = (Some (), out_append x s)" by (intro pb_writer.sizes [OF f]) auto
  moreover have "g (out_append x s) = (Some (), out_append y (out_append x s))"
    using s by (intro pb_writer.sizes [OF g]) (auto simp: out_null_append)
  ultimately show "bindC f (\<lambda>_. g) s = (Some (), out_append (x @ y) s)"
    using s by (simp add: bindC_def out_null_append)
qed

interpretation write_bytes: pb_writer "pb_write x (length x)" x for x
  by (rule pb_write_writer) simp

end
