(* ===== verification/Varint_Bytes.thy ===== *)
theory Varint_Bytes
  imports Prelude
begin

text \<open>
  Base-128 numbers with the least significant group first, as both the protocol buffers of
  \<open>ios/Pods/nanopb\<close> and the files of \<open>ios/Pods/leveldb-library\<close> write them: the shortest form of a
  number, the front of a list that is such a form, and the number it spells; and the step that all
  the reading loops share, seven more bits into a word.
\<close>

text \<open>\<open>vlen\<close> is the length of the varint at the front of a list, \<open>vval\<close> the number its bytes
  spell, \<open>le128\<close> the shortest varint of a number.\<close>

fun vlen :: "u8 list \<Rightarrow> nat option" where
  "vlen [] = None"
| "vlen (b # bs) = (if 128 \<le> unat b then map_option Suc (vlen bs) else Some 1)"

fun vval :: "u8 list \<Rightarrow> nat" where
  "vval [] = 0"
| "vval (b # bs) = unat b mod 128 + 128 * vval bs"

fun le128 :: "nat \<Rightarrow> u8 list" where
  "le128 n = (if n < 128 then [of_nat n] else of_nat (n mod 128 + 128) # le128 (n div 128))"

declare le128.simps [simp del]

lemma vlen_bounds: "vlen bs = Some n \<Longrightarrow> 0 < n \<and> n \<le> length bs"
  by (induction bs arbitrary: n) (auto split: if_splits)

lemma vlen_append: "vlen x = Some (length x) \<Longrightarrow> vlen (x @ y) = Some (length x)"
  by (induction x) (auto split: if_splits)

lemma le128_varint: "vlen (le128 n) = Some (length (le128 n)) \<and> vval (le128 n) = n"
proof (induction n rule: le128.induct)
  case (1 n)
  show ?case
  proof (cases "n < 128")
    case True
    then show ?thesis by (subst le128.simps, subst (2) le128.simps, subst (3) le128.simps) (simp add: unat_of_nat_u8)
  next
    case False
    then have e: "le128 n = of_nat (n mod 128 + 128) # le128 (n div 128)" by (subst le128.simps) simp
    have "unat (of_nat (n mod 128 + 128) :: u8) = n mod 128 + 128" by (rule unat_of_nat_u8) simp
    with 1 False show ?thesis unfolding e by simp
  qed
qed

lemma le128_length: "n < 128 ^ k \<Longrightarrow> 0 < k \<Longrightarrow> length (le128 n) \<le> k"
proof (induction k arbitrary: n)
  case (Suc k)
  show ?case
  proof (cases "n < 128")
    case True
    then show ?thesis by (simp add: le128.simps)
  next
    case False
    then have "0 < k" using Suc.prems by (cases k) auto
    moreover have "n div 128 < 128 ^ k" using Suc.prems by (simp add: div_less_iff_less_mult mult.commute)
    ultimately have "length (le128 (n div 128)) \<le> k" by (intro Suc.IH)
    with False show ?thesis by (simp add: le128.simps [of n])
  qed
qed simp

lemma le128_length_64: "n < 2 ^ 64 \<Longrightarrow> length (le128 n) \<le> 10"
  by (rule le128_length) simp_all

lemma or_shifted:
  assumes "unat r < 2 ^ k"
  shows "r OR push_bit k (of_nat m) = r + 2 ^ k * (of_nat m :: 'a :: len word)"
  using push_or_plus [OF assms, of "of_nat m"] by (simp add: or.commute push_bit_eq_mult add.commute mult.commute)

lemma or_shifted_less:
  assumes "unat r < 2 ^ k" and "k + 7 \<le> LENGTH('a)" and "m < 128"
  shows "unat (r OR push_bit k (of_nat m :: 'a :: len word)) < 2 ^ (k + 7)"
proof -
  have p: "(2 :: nat) ^ k * 128 \<le> 2 ^ LENGTH('a)"
    using power_increasing [OF assms(2), of "2 :: nat"] by (simp add: power_add)
  have "(128 :: nat) \<le> 2 ^ LENGTH('a)"
    using power_increasing [of 7 "LENGTH('a)" "2 :: nat"] assms(2) by simp
  then have m: "unat (of_nat m :: 'a word) = m" using assms(3) by (simp add: unat_of_nat)
  have l: "m * 2 ^ k + unat r < 2 ^ k * 128"
  proof -
    have "m * 2 ^ k \<le> 127 * 2 ^ k" using assms(3) by (intro mult_right_mono) simp_all
    then show ?thesis using assms(1) by linarith
  qed
  from l p have "unat (of_nat m :: 'a word) * 2 ^ k + unat r < 2 ^ LENGTH('a)" unfolding m by linarith
  from unat_push_or [OF assms(1) this] have "unat (r OR push_bit k (of_nat m :: 'a word)) = m * 2 ^ k + unat r"
    by (simp only: or.commute m)
  with l show ?thesis by (simp add: power_add)
qed

end
