(* ===== verification/Pb_Wire.thy ===== *)
theory Pb_Wire
  imports Pb_Stream Varint_Bytes
begin

text \<open>
  The wire format of nanopb below messages: varints, zigzag integers, fixed-width integers, tags,
  strings and substreams, with the reading side of \<open>pb_decode.c\<close> and the writing side of
  \<open>pb_encode.c\<close>. The type \<open>uint_fast8_t\<close> of the bit positions has eight bits, as on the
  platforms the library is built for.
\<close>

definition PB_WT_VARINT :: nat where "PB_WT_VARINT = 0"
definition PB_WT_64BIT :: nat where "PB_WT_64BIT = 1"
definition PB_WT_STRING :: nat where "PB_WT_STRING = 2"
definition PB_WT_32BIT :: nat where "PB_WT_32BIT = 5"

subsection \<open>Reading\<close>

function varint32_loop :: "nat \<Rightarrow> u32 \<Rightarrow> ('st pb_istream, u32 \<times> nat \<times> u8) call" where
  "varint32_loop bitpos result stream =
     (case pb_readbyte stream of
        (None, stream) \<Rightarrow> (None, stream)
      | (Some byte, stream) \<Rightarrow>
          let sign_extension = (if bitpos < 63 then 0xff else 0x01);
              bitpos' = (bitpos + 7) mod 256
          in if 32 \<le> bitpos then
               (if byte AND 0x7f \<noteq> 0 \<and> (drop_bit 31 result = 0 \<or> byte \<noteq> sign_extension)
                then PB_RETURN_ERROR ''varint overflow'' stream
                else if byte AND 0x80 \<noteq> 0 then varint32_loop bitpos' result stream
                else (Some (result, bitpos', byte), stream))
             else
               (let result = result OR push_bit bitpos (ucast (byte AND 0x7f)) in
                if byte AND 0x80 \<noteq> 0 then varint32_loop bitpos' result stream
                else (Some (result, bitpos', byte), stream)))"
  by pat_completeness auto
termination
  by (relation "measure (\<lambda>(_, _, s). bytes_left s)") (auto dest: pb_readbyte_left [OF sym])

declare varint32_loop.simps [simp del]

text \<open>The second component: whether \<open>*eof\<close> was set.\<close>

definition pb_decode_varint32_eof :: "'st pb_istream \<Rightarrow> (u32 option \<times> 'st pb_istream) \<times> bool" where
  "pb_decode_varint32_eof stream =
     (case pb_readbyte stream of
        (None, stream) \<Rightarrow> ((None, stream), bytes_left stream = 0)
      | (Some byte, stream) \<Rightarrow>
          (if byte AND 0x80 = 0 then (Some (ucast byte), stream)
           else
             (case varint32_loop 7 (ucast (byte AND 0x7f)) stream of
                (None, stream) \<Rightarrow> (None, stream)
              | (Some (result, bitpos, byte), stream) \<Rightarrow>
                  if bitpos = 35 \<and> byte AND 0x70 \<noteq> 0 then PB_RETURN_ERROR ''varint overflow'' stream
                  else (Some result, stream)),
           False))"

definition pb_decode_varint32 :: "('st pb_istream, u32) call" where
  "pb_decode_varint32 stream = fst (pb_decode_varint32_eof stream)"

function varint_loop :: "nat \<Rightarrow> u64 \<Rightarrow> ('st pb_istream, u64) call" where
  "varint_loop bitpos result stream =
     (if 64 \<le> bitpos then PB_RETURN_ERROR ''varint overflow'' stream
      else
        (case pb_readbyte stream of
           (None, stream) \<Rightarrow> (None, stream)
         | (Some byte, stream) \<Rightarrow>
             let result = result OR push_bit bitpos (ucast (byte AND 0x7f)) in
             if byte AND 0x80 \<noteq> 0 then varint_loop ((bitpos + 7) mod 256) result stream
             else (Some result, stream)))"
  by pat_completeness auto
termination
  by (relation "measure (\<lambda>(_, _, s). bytes_left s)") (auto dest: pb_readbyte_left [OF sym])

declare varint_loop.simps [simp del]

definition pb_decode_varint :: "('st pb_istream, u64) call" where
  "pb_decode_varint = varint_loop 0 0"

function pb_skip_varint :: "('st pb_istream, unit) call" where
  "pb_skip_varint stream =
     (case pb_read True 1 stream of
        (None, stream) \<Rightarrow> (None, stream)
      | (Some bs, stream) \<Rightarrow> if hd bs AND 0x80 \<noteq> 0 then pb_skip_varint stream else (Some (), stream))"
  by pat_completeness auto
termination
  by (relation "measure bytes_left") (auto dest: pb_read_left [OF sym])

declare pb_skip_varint.simps [simp del]

definition pb_skip_string :: "('st pb_istream, unit) call" where
  "pb_skip_string = bindC pb_decode_varint32 (\<lambda>length. bindC (pb_read False (unat length)) (\<lambda>_. retC ()))"

definition pb_decode_tag :: "'st pb_istream \<Rightarrow> ((nat \<times> u32) option \<times> 'st pb_istream) \<times> bool" where
  "pb_decode_tag stream =
     (case pb_decode_varint32_eof stream of
        ((None, stream), eof) \<Rightarrow> ((None, stream), eof)
      | ((Some temp, stream), eof) \<Rightarrow>
          if temp = 0 then ((None, stream), True)
          else ((Some (unat (temp AND 7), drop_bit 3 temp), stream), eof))"

definition pb_skip_field :: "nat \<Rightarrow> ('st pb_istream, unit) call" where
  "pb_skip_field wire_type =
     (if wire_type = PB_WT_VARINT then pb_skip_varint
      else if wire_type = PB_WT_64BIT then bindC (pb_read False 8) (\<lambda>_. retC ())
      else if wire_type = PB_WT_STRING then pb_skip_string
      else if wire_type = PB_WT_32BIT then bindC (pb_read False 4) (\<lambda>_. retC ())
      else PB_RETURN_ERROR ''invalid wire_type'')"

text \<open>\<open>size\<close> bytes have been stored in the buffer; the result are all bytes stored.\<close>

function raw_varint_loop :: "nat \<Rightarrow> u8 list \<Rightarrow> ('st pb_istream, u8 list) call" where
  "raw_varint_loop limit buf stream =
     (if limit < Suc (length buf) then (None, stream)
      else
        (case pb_read True 1 stream of
           (None, stream) \<Rightarrow> (None, stream)
         | (Some bs, stream) \<Rightarrow>
             if hd bs AND 0x80 \<noteq> 0 then raw_varint_loop limit (buf @ [hd bs]) stream
             else (Some (buf @ [hd bs]), stream)))"
  by pat_completeness auto
termination
  by (relation "measure (\<lambda>(_, _, s). bytes_left s)") (auto dest: pb_read_left [OF sym])

declare raw_varint_loop.simps [simp del]

definition read_raw_value :: "nat \<Rightarrow> nat \<Rightarrow> ('st pb_istream, u8 list) call" where
  "read_raw_value wire_type limit =
     (if wire_type = PB_WT_VARINT then raw_varint_loop limit []
      else if wire_type = PB_WT_64BIT then pb_read True 8
      else if wire_type = PB_WT_32BIT then pb_read True 4
      else PB_RETURN_ERROR ''invalid wire_type'')"

text \<open>The value is the substream; the stream is the parent afterwards.\<close>

definition pb_make_string_substream :: "('st pb_istream, 'st pb_istream) call" where
  "pb_make_string_substream = bindC pb_decode_varint32 (\<lambda>size stream.
     let substream = stream in
     if bytes_left substream < unat size then PB_RETURN_ERROR ''parent stream too short'' stream
     else (Some (substream\<lparr>bytes_left := unat size\<rparr>), stream\<lparr>bytes_left := bytes_left stream - unat size\<rparr>))"

definition pb_close_string_substream :: "'st pb_istream \<Rightarrow> ('st pb_istream, unit) call" where
  "pb_close_string_substream substream stream =
     (case (if 0 < bytes_left substream then pb_read False (bytes_left substream) substream else (Some [], substream)) of
        (None, _) \<Rightarrow> (None, stream)
      | (Some _, substream) \<Rightarrow> (Some (), stream\<lparr>source := source substream, errmsg := errmsg substream\<rparr>))"

definition pb_decode_svarint :: "('st pb_istream, u64) call" where
  "pb_decode_svarint = bindC pb_decode_varint (\<lambda>value.
     retC (if value AND 1 \<noteq> 0 then NOT (drop_bit 1 value) else drop_bit 1 value))"

definition pb_decode_fixed32 :: "('st pb_istream, u32) call" where
  "pb_decode_fixed32 = bindC (pb_read True 4) (\<lambda>bytes.
     retC (ucast (bytes ! 0) OR push_bit 8 (ucast (bytes ! 1)) OR push_bit 16 (ucast (bytes ! 2)) OR
           push_bit 24 (ucast (bytes ! 3))))"

definition pb_decode_fixed64 :: "('st pb_istream, u64) call" where
  "pb_decode_fixed64 = bindC (pb_read True 8) (\<lambda>bytes.
     retC (ucast (bytes ! 0) OR push_bit 8 (ucast (bytes ! 1)) OR push_bit 16 (ucast (bytes ! 2)) OR
           push_bit 24 (ucast (bytes ! 3)) OR push_bit 32 (ucast (bytes ! 4)) OR push_bit 40 (ucast (bytes ! 5)) OR
           push_bit 48 (ucast (bytes ! 6)) OR push_bit 56 (ucast (bytes ! 7))))"

subsection \<open>Reading into a field of a given width\<close>

definition pb_dec_bool :: "('st pb_istream, bool) call" where
  "pb_dec_bool = bindC pb_decode_varint32 (\<lambda>value. retC (value \<noteq> 0))"

definition pb_decode_bool :: "('st pb_istream, bool) call" where
  "pb_decode_bool = pb_dec_bool"

text \<open>The value the field holds afterwards, as an integer; \<open>data_size\<close> is the field's width in
  bytes. The store happens before the range check, so the field is overwritten also when the
  check fails; only the successful outcome is a value here.\<close>

definition to_signed :: "nat \<Rightarrow> u64 \<Rightarrow> int" where
  "to_signed data_size value = signed_take_bit (8 * data_size - 1) (sint value)"

definition pb_dec_varint :: "nat \<Rightarrow> ('st pb_istream, int) call" where
  "pb_dec_varint data_size = bindC pb_decode_varint (\<lambda>value.
     let svalue = (if data_size = 8 then sint value else to_signed 4 value) in
     if data_size = 8 \<or> data_size = 4 \<or> data_size = 2 \<or> data_size = 1 then
       (let clamped = signed_take_bit (8 * data_size - 1) svalue in
        if clamped \<noteq> svalue then PB_RETURN_ERROR ''integer too large'' else retC clamped)
     else PB_RETURN_ERROR ''invalid data_size'')"

definition pb_dec_uvarint :: "nat \<Rightarrow> ('st pb_istream, nat) call" where
  "pb_dec_uvarint data_size = bindC pb_decode_varint (\<lambda>value.
     if data_size = 8 \<or> data_size = 4 \<or> data_size = 2 \<or> data_size = 1 then
       (let clamped = unat value mod 2 ^ (8 * data_size) in
        if clamped \<noteq> unat value then PB_RETURN_ERROR ''integer too large'' else retC clamped)
     else PB_RETURN_ERROR ''invalid data_size'')"

definition pb_dec_svarint :: "nat \<Rightarrow> ('st pb_istream, int) call" where
  "pb_dec_svarint data_size = bindC pb_decode_svarint (\<lambda>value.
     if data_size = 8 \<or> data_size = 4 \<or> data_size = 2 \<or> data_size = 1 then
       (let clamped = to_signed data_size value in
        if clamped \<noteq> sint value then PB_RETURN_ERROR ''integer too large'' else retC clamped)
     else PB_RETURN_ERROR ''invalid data_size'')"

subsection \<open>Writing\<close>

function varint_bytes_loop :: "u64 \<Rightarrow> u8 list \<Rightarrow> u8 list" where
  "varint_bytes_loop value buffer =
     (if value = 0 then buffer
      else varint_bytes_loop (drop_bit 7 value) (buffer @ [ucast (value AND 0x7f) OR 0x80]))"
  by pat_completeness auto
termination
  by (relation "measure (\<lambda>(v, _). unat v)") (auto simp: unat_drop_bit unat_gt_0 intro!: div_less_dividend)

declare varint_bytes_loop.simps [simp del]

definition pb_encode_varint :: "u64 \<Rightarrow> ('st pb_ostream, unit) call" where
  "pb_encode_varint value =
     (if value \<le> 0x7f then pb_write [ucast value] 1
      else
        let buffer = varint_bytes_loop value [];
            i = length buffer;
            buffer = buffer[i - 1 := (buffer ! (i - 1)) AND 0x7f]
        in pb_write buffer i)"

definition pb_encode_svarint :: "u64 \<Rightarrow> ('st pb_ostream, unit) call" where
  "pb_encode_svarint value =
     (let zigzagged = (if sint value < 0 then NOT (push_bit 1 value) else push_bit 1 value)
      in pb_encode_varint zigzagged)"

definition pb_encode_fixed32 :: "u32 \<Rightarrow> ('st pb_ostream, unit) call" where
  "pb_encode_fixed32 val =
     (let bytes = [ucast (val AND 0xff), ucast (drop_bit 8 val AND 0xff), ucast (drop_bit 16 val AND 0xff),
                   ucast (drop_bit 24 val AND 0xff)]
      in pb_write bytes 4)"

definition pb_encode_fixed64 :: "u64 \<Rightarrow> ('st pb_ostream, unit) call" where
  "pb_encode_fixed64 val =
     (let bytes = [ucast (val AND 0xff), ucast (drop_bit 8 val AND 0xff), ucast (drop_bit 16 val AND 0xff),
                   ucast (drop_bit 24 val AND 0xff), ucast (drop_bit 32 val AND 0xff), ucast (drop_bit 40 val AND 0xff),
                   ucast (drop_bit 48 val AND 0xff), ucast (drop_bit 56 val AND 0xff)]
      in pb_write bytes 8)"

definition pb_encode_tag :: "nat \<Rightarrow> u32 \<Rightarrow> ('st pb_ostream, unit) call" where
  "pb_encode_tag wiretype field_number =
     (let tag = push_bit 3 (ucast field_number) OR of_nat wiretype in pb_encode_varint tag)"

definition pb_encode_string :: "u8 list \<Rightarrow> nat \<Rightarrow> ('st pb_ostream, unit) call" where
  "pb_encode_string buffer size' = bindC (pb_encode_varint (of_nat size')) (\<lambda>_. pb_write buffer size')"

text \<open>Encoders of a field; the argument is the integer the field holds, \<open>data_size\<close> its width in
  bytes.\<close>

definition pb_enc_bool :: "bool \<Rightarrow> ('st pb_ostream, unit) call" where
  "pb_enc_bool src = pb_encode_varint (if src then 1 else 0)"

definition pb_enc_varint :: "nat \<Rightarrow> int \<Rightarrow> ('st pb_ostream, unit) call" where
  "pb_enc_varint data_size src =
     (if data_size = 1 \<or> data_size = 2 \<or> data_size = 4 \<or> data_size = 8
      then pb_encode_varint (word_of_int src) else PB_RETURN_OERROR ''invalid data_size'')"

definition pb_enc_uvarint :: "nat \<Rightarrow> nat \<Rightarrow> ('st pb_ostream, unit) call" where
  "pb_enc_uvarint data_size src =
     (if data_size = 1 \<or> data_size = 2 \<or> data_size = 4 \<or> data_size = 8
      then pb_encode_varint (of_nat src) else PB_RETURN_OERROR ''invalid data_size'')"

definition pb_enc_svarint :: "nat \<Rightarrow> int \<Rightarrow> ('st pb_ostream, unit) call" where
  "pb_enc_svarint data_size src =
     (if data_size = 1 \<or> data_size = 2 \<or> data_size = 4 \<or> data_size = 8
      then pb_encode_svarint (word_of_int src) else PB_RETURN_OERROR ''invalid data_size'')"

definition pb_enc_fixed32 :: "u32 \<Rightarrow> ('st pb_ostream, unit) call" where
  "pb_enc_fixed32 = pb_encode_fixed32"

definition pb_enc_fixed64 :: "u64 \<Rightarrow> ('st pb_ostream, unit) call" where
  "pb_enc_fixed64 = pb_encode_fixed64"

definition pb_enc_fixed_length_bytes :: "nat \<Rightarrow> u8 list \<Rightarrow> ('st pb_ostream, unit) call" where
  "pb_enc_fixed_length_bytes data_size src = pb_encode_string src data_size"

subsection \<open>Varints as lists of bytes\<close>

definition p_varint :: "u8 list \<Rightarrow> (u64 \<times> nat) option" where
  "p_varint bs = (case vlen bs of None \<Rightarrow> None
     | Some n \<Rightarrow> if n \<le> 10 then Some (of_nat (vval (take n bs)), n) else None)"

lemma p_varint_le128:
  assumes "unat v < 2 ^ 64"
  shows "p_varint (le128 (unat v) @ rest) = Some (v, length (le128 (unat v)))"
  using le128_varint [of "unat v"] vlen_append [of "le128 (unat v)" rest] le128_length_64 [OF assms]
  by (simp add: p_varint_def)

lemma and_80: "(b :: u8) AND 0x80 = 0 \<longleftrightarrow> unat b < 128"
  using byte_high_bit [of b] by auto

lemma ucast_7f: "(ucast (b AND 0x7f :: u8) :: u64) = of_nat (unat b mod 128)"
  by (simp only: word_unat_eq_iff unat_ucast_wider unat_and_7f) (simp add: unat_of_nat)

lemma readbyte_Cons:
  assumes "in_ok s" and "in_bytes s = b # bs"
  shows "pb_readbyte s = (Some b, in_advance 1 s)" "in_ok (in_advance 1 s)" "in_bytes (in_advance 1 s) = bs"
    "bytes_left s = Suc (length bs)"
proof -
  show l: "bytes_left s = Suc (length bs)" using length_in_bytes [OF assms(1)] assms(2) by simp
  show "pb_readbyte s = (Some b, in_advance 1 s)" using readbyte.reads [OF assms(1), of b 1] assms(2) by simp
  show "in_ok (in_advance 1 s)" using assms(1) l by simp
  show "in_bytes (in_advance 1 s) = bs" using assms by simp
qed

lemma readbyte_Nil: "in_ok s \<Longrightarrow> in_bytes s = [] \<Longrightarrow> fst (pb_readbyte s) = None"
  using readbyte.fails [of s] by simp

lemma varint_loop_reads:
  assumes "in_ok s" and "i \<le> 10" and "i < 10 \<Longrightarrow> unat r < 2 ^ (7 * i)"
  shows "case vlen (in_bytes s) of
      None \<Rightarrow> fst (varint_loop (7 * i) r s) = None
    | Some n \<Rightarrow> if i + n \<le> 10
        then varint_loop (7 * i) r s = (Some (r + 2 ^ (7 * i) * of_nat (vval (take n (in_bytes s)))), in_advance n s)
        else fst (varint_loop (7 * i) r s) = None"
  using assms
proof (induction "in_bytes s" arbitrary: s i r)
  case Nil
  then have e: "in_bytes s = []" by simp
  from readbyte_Nil [OF Nil(2) e] obtain t where "pb_readbyte s = (None, t)" by (cases "pb_readbyte s") auto
  with e show ?case by (simp add: varint_loop.simps [of "7 * i"] PB_RETURN_ERROR_def)
next
  case (Cons b bs)
  note rb = readbyte_Cons [OF Cons(3) Cons(2) [symmetric]]
  let ?m = "unat b mod 128"
  show ?case
  proof (cases "i = 10")
    case True
    then have "fst (varint_loop (7 * i) r s) = None" by (simp add: varint_loop.simps [of 70] PB_RETURN_ERROR_def)
    moreover have "vlen (in_bytes s) = Some n \<Longrightarrow> \<not> i + n \<le> 10" for n using vlen_bounds [of "in_bytes s" n] True by auto
    ultimately show ?thesis by (auto split: option.split)
  next
    case False
    with Cons(4) have i: "i < 10" "\<not> 64 \<le> 7 * i" by auto
    with Cons(5) have r: "unat r < 2 ^ (7 * i)" by simp
    let ?r = "r OR push_bit (7 * i) (of_nat ?m)"
    have step: "varint_loop (7 * i) r s =
        (if 128 \<le> unat b then varint_loop (7 * Suc i) ?r (in_advance 1 s) else (Some ?r, in_advance 1 s))"
      using i rb(1) by (simp add: varint_loop.simps [of "7 * i"] ucast_7f and_80 Let_def add.commute [of 7])
    have re: "?r = r + 2 ^ (7 * i) * of_nat ?m" by (rule or_shifted [OF r])
    show ?thesis
    proof (cases "128 \<le> unat b")
      case False
      then show ?thesis using step re i by (simp add: Cons(2) [symmetric])
    next
      case True
      have "unat ?r < 2 ^ (7 * Suc i)" if "Suc i < 10"
        using or_shifted_less [OF r, of ?m] that by (simp add: add.commute)
      from Cons(1) [OF rb(3) [symmetric] rb(2), of "Suc i" ?r] this i(1) have IH:
        "case vlen bs of
            None \<Rightarrow> fst (varint_loop (7 * Suc i) ?r (in_advance 1 s)) = None
          | Some n \<Rightarrow> if Suc i + n \<le> 10
              then varint_loop (7 * Suc i) ?r (in_advance 1 s) =
                (Some (?r + 2 ^ (7 * Suc i) * of_nat (vval (take n bs))), in_advance n (in_advance 1 s))
              else fst (varint_loop (7 * Suc i) ?r (in_advance 1 s)) = None"
        by (simp only: rb(3) Suc_leI)
      have sum: "?r + 2 ^ (7 * Suc i) * of_nat x = r + 2 ^ (7 * i) * of_nat (?m + 128 * x)" for x
        unfolding re by (simp add: power_add algebra_simps)
      show ?thesis
      proof (cases "vlen bs")
        case None
        with IH step True show ?thesis by (simp add: Cons(2) [symmetric])
      next
        case (Some n)
        with IH step True sum [of "vval (take n bs)"] show ?thesis
          by (auto simp: Cons(2) [symmetric] in_advance_add [OF Cons(3)] simp del: of_nat_add of_nat_mult mult_Suc_right)
      qed
    qed
  qed
qed

lemma pb_decode_varint_reader: "pb_reader pb_decode_varint p_varint"
proof (rule pb_reader.intro)
  fix s :: "'a pb_istream" and v n
  assume s: "in_ok s" and p: "p_varint (in_bytes s) = Some (v, n)"
  then have v: "vlen (in_bytes s) = Some n" "n \<le> 10" "v = of_nat (vval (take n (in_bytes s)))"
    by (auto simp: p_varint_def split: option.splits if_splits)
  from varint_loop_reads [OF s, of 0 0] v vlen_bounds [OF v(1)] s
  show "n \<le> bytes_left s \<and> pb_decode_varint s = (Some v, in_advance n s)" by (simp add: pb_decode_varint_def)
next
  fix s :: "'a pb_istream"
  assume s: "in_ok s" and p: "p_varint (in_bytes s) = None"
  from varint_loop_reads [OF s, of 0 0] p show "fst (pb_decode_varint s) = None"
    by (auto simp: p_varint_def pb_decode_varint_def split: option.splits if_splits)
qed

interpretation varint: pb_reader pb_decode_varint p_varint
  by (rule pb_decode_varint_reader)

subsection \<open>Varints of 32 bits\<close>

text \<open>The loop as a parser of lists.\<close>

fun p32_loop :: "nat \<Rightarrow> u32 \<Rightarrow> u8 list \<Rightarrow> ((u32 \<times> nat \<times> u8) \<times> nat) option" where
  "p32_loop bitpos r [] = None"
| "p32_loop bitpos r (b # bs) =
     (if 32 \<le> bitpos then
        (if b AND 0x7f \<noteq> 0 \<and> (drop_bit 31 r = 0 \<or> b \<noteq> (if bitpos < 63 then 0xff else 0x01)) then None
         else if 128 \<le> unat b then map_option (\<lambda>(x, n). (x, Suc n)) (p32_loop ((bitpos + 7) mod 256) r bs)
         else Some ((r, (bitpos + 7) mod 256, b), 1))
      else
        (let r = r OR push_bit bitpos (ucast (b AND 0x7f)) in
         if 128 \<le> unat b then map_option (\<lambda>(x, n). (x, Suc n)) (p32_loop ((bitpos + 7) mod 256) r bs)
         else Some ((r, (bitpos + 7) mod 256, b), 1)))"

fun p_varint32 :: "u8 list \<Rightarrow> (u32 \<times> nat) option" where
  "p_varint32 [] = None"
| "p_varint32 (b # bs) =
     (if unat b < 128 then Some (ucast b, 1)
      else
        (case p32_loop 7 (ucast (b AND 0x7f)) bs of
           None \<Rightarrow> None
         | Some ((r, bitpos, c), n) \<Rightarrow> if bitpos = 35 \<and> c AND 0x70 \<noteq> 0 then None else Some (r, Suc n)))"

lemma p32_loop_bounds: "p32_loop k r bs = Some (x, n) \<Longrightarrow> 0 < n \<and> n \<le> length bs"
  by (induction bs arbitrary: k r x n) (auto simp: Let_def split: if_splits)

lemma varint32_loop_reads:
  "in_ok s \<Longrightarrow>
     (case p32_loop k r (in_bytes s) of
        None \<Rightarrow> fst (varint32_loop k r s) = None
      | Some (x, n) \<Rightarrow> varint32_loop k r s = (Some x, in_advance n s))"
proof (induction "in_bytes s" arbitrary: s k r)
  case Nil
  then have e: "in_bytes s = []" by simp
  from readbyte_Nil [OF Nil(2) e] obtain t where "pb_readbyte s = (None, t)" by (cases "pb_readbyte s") auto
  with e show ?case by (simp add: varint32_loop.simps)
next
  case (Cons b bs)
  note rb = readbyte_Cons [OF Cons(3) Cons(2) [symmetric]]
  note IH = Cons(1) [OF rb(3) [symmetric] rb(2), unfolded rb(3)]
  have b: "b AND 0x80 \<noteq> 0 \<longleftrightarrow> 128 \<le> unat b" by (rule byte_high_bit)
  let ?k = "(k + 7) mod 256"
  have adv: "in_advance n (in_advance 1 s) = in_advance (Suc n) s" for n
    using in_advance_add [OF Cons(3), of n 1] by simp
  show ?case
  proof (cases "32 \<le> k")
    case True
    show ?thesis
    proof (cases "b AND 0x7f \<noteq> 0 \<and> (drop_bit 31 r = 0 \<or> b \<noteq> (if k < 63 then 0xff else 0x01))")
      case bad: True
      with True rb(1) show ?thesis
        by (simp add: Cons(2) [symmetric] varint32_loop.simps [of k] Let_def PB_RETURN_ERROR_def del: One_nat_def)
    next
      case False
      then have "varint32_loop k r s = (if 128 \<le> unat b then varint32_loop ?k r (in_advance 1 s)
          else (Some (r, ?k, b), in_advance 1 s))"
        using True rb(1) by (auto simp add: varint32_loop.simps [of k] Let_def b simp del: One_nat_def)
      with IH [of ?k r] True False adv show ?thesis
        by (cases "p32_loop ?k r bs") (auto simp: Cons(2) [symmetric] simp del: One_nat_def)
    qed
  next
    case False
    let ?r = "r OR push_bit k (ucast (b AND 0x7f))"
    have "varint32_loop k r s = (if 128 \<le> unat b then varint32_loop ?k ?r (in_advance 1 s)
        else (Some (?r, ?k, b), in_advance 1 s))"
      using False rb(1) by (simp add: varint32_loop.simps [of k] Let_def b del: One_nat_def)
    with IH [of ?k ?r] False adv show ?thesis
      by (cases "p32_loop ?k ?r bs") (auto simp: Cons(2) [symmetric] Let_def simp del: One_nat_def)
  qed
qed

lemma pb_decode_varint32_eof_reads:
  assumes s: "in_ok s"
  shows "case p_varint32 (in_bytes s) of
      None \<Rightarrow> (\<exists>t. pb_decode_varint32_eof s = ((None, t), bytes_left s = 0))
    | Some (v, n) \<Rightarrow> n \<le> bytes_left s \<and> pb_decode_varint32_eof s = ((Some v, in_advance n s), False)"
proof (cases "in_bytes s")
  case Nil
  then have "bytes_left s = 0" using length_in_bytes [OF s] by simp
  then show ?thesis using Nil by (simp add: pb_decode_varint32_eof_def pb_readbyte_def PB_RETURN_ERROR_def)
next
  case (Cons b bs)
  note rb = readbyte_Cons [OF s Cons]
  have adv: "in_advance n (in_advance 1 s) = in_advance (Suc n) s" for n
    using in_advance_add [OF s, of n 1] by simp
  show ?thesis
  proof (cases "unat b < 128")
    case True
    with rb Cons show ?thesis by (simp add: pb_decode_varint32_eof_def and_80)
  next
    case False
    show ?thesis
    proof (cases "p32_loop 7 (ucast (b AND 0x7f)) bs")
      case None
      with varint32_loop_reads [OF rb(2), of 7 "ucast (b AND 0x7f)", unfolded rb(3)] obtain t where
        "varint32_loop 7 (ucast (b AND 0x7f)) (in_advance 1 s) = (None, t)"
        by (cases "varint32_loop 7 (ucast (b AND 0x7f)) (in_advance 1 s)") auto
      with rb Cons False None show ?thesis by (simp add: pb_decode_varint32_eof_def and_80)
    next
      case (Some y)
      obtain r k c n where y: "y = ((r, k, c), n)" by (metis surj_pair)
      with Some varint32_loop_reads [OF rb(2), of 7 "ucast (b AND 0x7f)", unfolded rb(3)] have
        "varint32_loop 7 (ucast (b AND 0x7f)) (in_advance 1 s) = (Some (r, k, c), in_advance (Suc n) s)"
        by (simp add: adv del: One_nat_def)
      with rb Cons False Some y p32_loop_bounds [of 7 "ucast (b AND 0x7f)" bs "(r, k, c)" n] show ?thesis
        by (simp add: pb_decode_varint32_eof_def and_80 PB_RETURN_ERROR_def del: One_nat_def)
    qed
  qed
qed

lemma pb_decode_varint32_reader: "pb_reader pb_decode_varint32 p_varint32"
proof (rule pb_reader.intro)
  fix s :: "'a pb_istream" and v n
  assume "in_ok s" "p_varint32 (in_bytes s) = Some (v, n)"
  with pb_decode_varint32_eof_reads [of s] show "n \<le> bytes_left s \<and> pb_decode_varint32 s = (Some v, in_advance n s)"
    by (simp add: pb_decode_varint32_def)
next
  fix s :: "'a pb_istream"
  assume "in_ok s" "p_varint32 (in_bytes s) = None"
  with pb_decode_varint32_eof_reads [of s] show "fst (pb_decode_varint32 s) = None"
    by (auto simp: pb_decode_varint32_def)
qed

interpretation varint32: pb_reader pb_decode_varint32 p_varint32
  by (rule pb_decode_varint32_reader)

lemma vval_bounds:
  assumes "vlen x = Some (length x)"
  shows "128 ^ (length x - 1) * unat (last x) \<le> vval x \<and> vval x < 128 ^ (length x - 1) * (unat (last x) + 1) \<and>
    unat (last x) < 128"
  using assms
proof (induction x)
  case (Cons b bs)
  show ?case
  proof (cases "128 \<le> unat b")
    case True
    with Cons.prems have v: "vlen bs = Some (length bs)" by auto
    with vlen_bounds [OF v] have ne: "bs \<noteq> []" by auto
    then obtain k where k: "length bs = Suc k" by (cases bs) auto
    note IH = Cons.IH [OF v]
    have m: "unat b mod 128 < 128" by simp
    have p: "128 * 128 ^ k * unat (last bs) \<le> 128 * vval bs" using IH k by simp
    have "vval bs + 1 \<le> 128 ^ k * (unat (last bs) + 1)" using IH k by simp
    then have "128 * (vval bs + 1) \<le> 128 * (128 ^ k * (unat (last bs) + 1))" by (rule mult_le_mono2)
    then have q: "128 * vval bs + 128 \<le> 128 * 128 ^ k * (unat (last bs) + 1)" by (simp add: algebra_simps)
    have lo: "128 * 128 ^ k * unat (last bs) \<le> unat b mod 128 + 128 * vval bs" using p by linarith
    have hi: "unat b mod 128 + 128 * vval bs < 128 * 128 ^ k * (unat (last bs) + 1)" using m q by linarith
    have e: "128 ^ (length (b # bs) - 1) = 128 * (128 :: nat) ^ k" "last (b # bs) = last bs"
      "vval (b # bs) = unat b mod 128 + 128 * vval bs" using k ne by simp_all
    show ?thesis unfolding e using lo hi IH by blast
  next
    case False
    with Cons.prems show ?thesis by simp
  qed
qed simp

lemma p32_loop_short:
  "vlen x = Some (length x) \<Longrightarrow> 0 < i \<Longrightarrow> i + length x \<le> 5 \<Longrightarrow> unat r < 2 ^ (7 * i) \<Longrightarrow>
   p32_loop (7 * i) r (x @ rest) = Some ((r + 2 ^ (7 * i) * of_nat (vval x), 7 * (i + length x), last x), length x)"
proof (induction x arbitrary: i r)
  case (Cons b bs)
  let ?m = "unat b mod 128"
  have u: "(ucast (b AND 0x7f) :: u32) = of_nat ?m"
    by (simp only: word_unat_eq_iff unat_ucast_wider unat_and_7f) (simp add: unat_of_nat)
  let ?r = "r OR push_bit (7 * i) (of_nat ?m)"
  have re: "?r = r + 2 ^ (7 * i) * of_nat ?m" by (rule or_shifted [OF Cons.prems(4)])
  have i: "7 * i < 32" "(7 * i + 7) mod 256 = 7 * Suc i" using Cons.prems by auto
  show ?case
  proof (cases "128 \<le> unat b")
    case False
    with Cons.prems have "bs = []" by simp
    with False i re u show ?thesis by (simp add: Let_def)
  next
    case True
    with Cons.prems have v: "vlen bs = Some (length bs)" by auto
    then have ne: "bs \<noteq> []" by auto
    then have "Suc (Suc i) \<le> 5" using Cons.prems by (cases bs) auto
    then have "unat ?r < 2 ^ (7 * i + 7)" using Cons.prems(4) by (intro or_shifted_less) simp_all
    then have r: "unat ?r < 2 ^ (7 * Suc i)" by (simp add: add.commute)
    have sum: "?r + 2 ^ (7 * Suc i) * of_nat y = r + 2 ^ (7 * i) * of_nat (?m + 128 * y)" for y
      unfolding re by (simp add: power_add algebra_simps)
    have "p32_loop (7 * Suc i) ?r (bs @ rest) =
        Some ((?r + 2 ^ (7 * Suc i) * of_nat (vval bs), 7 * (Suc i + length bs), last bs), length bs)"
      using Cons.prems by (intro Cons.IH [OF v _ _ r]) simp_all
    moreover have "p32_loop (7 * i) r ((b # bs) @ rest) =
        map_option (\<lambda>(x, n). (x, Suc n)) (p32_loop (7 * Suc i) ?r (bs @ rest))"
      unfolding append_Cons p32_loop.simps u i(2) Let_def using True i(1) by simp
    ultimately show ?thesis using ne sum [of "vval bs"] by (simp del: of_nat_add of_nat_mult mult_Suc_right)
  qed
qed simp

lemma and_70: "unat (c :: u8) < 128 \<Longrightarrow> c AND 0x70 = 0 \<longleftrightarrow> unat c < 16"
proof -
  assume c: "unat c < 128"
  have m: "(0x70 :: u8) = push_bit 4 (mask 3)" by (simp add: push_bit_eq_mult mask_eq_exp_minus_1)
  have "c AND 0x70 = push_bit 4 (drop_bit 4 c AND mask 3)"
    unfolding m by (rule bit_word_eqI) (auto simp: bit_simps)
  moreover have d: "unat (drop_bit 4 c) = unat c div 16" by (simp add: unat_drop_bit)
  then have "unat (drop_bit 4 c AND mask 3) = unat c div 16" using c by (simp add: unat_and_mask)
  then have "unat (push_bit 4 (drop_bit 4 c AND mask 3)) = unat c div 16 * 16"
    using c by (simp add: push_bit_eq_mult unat_word_ariths)
  ultimately show ?thesis by (simp add: word_unat_eq_iff [of _ 0] div_eq_0_iff)
qed

lemma p_varint32_short:
  assumes v: "vlen x = Some (length x)" and l: "length x \<le> 5"
  shows "p_varint32 (x @ rest) = (if vval x < 2 ^ 32 then Some (of_nat (vval x), length x) else None)"
proof -
  obtain b bs where x: "x = b # bs" using v by (cases x) auto
  note bd = vval_bounds [OF v]
  show ?thesis
  proof (cases "unat b < 128")
    case True
    with v x have bs: "bs = []" by simp
    have "(ucast b :: u32) = of_nat (unat b)" by (simp only: word_unat_eq_iff unat_ucast_wider) (simp add: unat_of_nat byte_lt [THEN less_trans])
    with True x bs show ?thesis by simp
  next
    case False
    with v x have v': "vlen bs = Some (length bs)" by auto
    then have ne: "bs \<noteq> []" by auto
    have u: "(ucast (b AND 0x7f) :: u32) = of_nat (unat b mod 128)"
      by (simp only: word_unat_eq_iff unat_ucast_wider unat_and_7f) (simp add: unat_of_nat)
    have "unat (of_nat (unat b mod 128) :: u32) = unat b mod 128" by (simp add: unat_of_nat)
    then have "unat (of_nat (unat b mod 128) :: u32) < 2 ^ (7 * 1)" by simp
    from p32_loop_short [OF v' _ _ this, of rest] l x have
      p: "p32_loop 7 (of_nat (unat b mod 128)) (bs @ rest) =
        Some ((of_nat (vval x), 7 * length x, last x), length bs)" using ne by simp
    have "7 * length x = 35 \<and> last x AND 0x70 \<noteq> 0 \<longleftrightarrow> \<not> vval x < 2 ^ 32"
    proof (cases "length x = 5")
      case True
      with bd show ?thesis by (auto simp: and_70)
    next
      case False
      with l have "length x - 1 \<le> 3" by auto
      then have "(128 :: nat) ^ (length x - 1) \<le> 128 ^ 3" by (intro power_increasing) simp_all
      then have "128 ^ (length x - 1) * (unat (last x) + 1) \<le> 128 ^ 3 * (128 :: nat)"
        using bd by (intro mult_le_mono) simp_all
      with bd have "vval x < 2 ^ 32" by (simp add: less_le_trans)
      with False show ?thesis by auto
    qed
    with False p x u show ?thesis by (auto simp: Let_def)
  qed
qed

subsection \<open>What the writers write\<close>

lemma varint_bytes_loop_eq:
  "v \<noteq> 0 \<Longrightarrow> varint_bytes_loop v acc = acc @ butlast (le128 (unat v)) @ [of_nat (unat (last (le128 (unat v))) + 128)]"
proof (induction v acc rule: varint_bytes_loop.induct)
  case (1 v acc)
  let ?b = "ucast (v AND 0x7f) OR 0x80 :: u8"
  have n: "unat (ucast (v AND 0x7f) :: u8) = unat v mod 128"
    using unat_and_mask [of v 7] by (simp add: unat_ucast mask_eq_exp_minus_1)
  then have "unat ?b = unat v mod 128 + 128" by (simp add: unat_or_128)
  then have b: "?b = of_nat (unat v mod 128 + 128)"
    by (simp only: word_unat_eq_iff) (simp add: unat_of_nat_u8 del: of_nat_add)
  show ?case
  proof (cases "unat v < 128")
    case True
    then have "drop_bit 7 v = 0" by (simp add: drop_bit_0_iff)
    with 1(2) True b show ?thesis
      by (simp add: varint_bytes_loop.simps [of v] varint_bytes_loop.simps [of 0] le128.simps unat_of_nat_u8)
  next
    case False
    then have d: "drop_bit 7 v \<noteq> 0" by (simp add: drop_bit_0_iff)
    have "unat (drop_bit 7 v) = unat v div 128" by (simp add: unat_drop_bit)
    with 1(1) [OF 1(2) d] 1(2) False b show ?thesis
      by (simp add: varint_bytes_loop.simps [of v] le128.simps [of "unat v"] le128.simps [of "unat v div 128", symmetric] del: of_nat_add)
        (metis append_Cons append_Nil le128.simps list.distinct(1))
  qed
qed

lemma pb_encode_varint_writer: "pb_writer (pb_encode_varint v :: ('st pb_ostream, unit) call) (le128 (unat v))"
proof (cases "v \<le> 0x7f")
  case True
  then have u: "unat v < 128" by (simp add: word_le_nat_alt)
  then have "[ucast v :: u8] = le128 (unat v)"
    by (simp add: le128.simps)
  moreover have "pb_writer (pb_encode_varint v :: ('st pb_ostream, unit) call) [ucast v]"
    using True pb_write_writer [of 1 "[ucast v :: u8]"] by (simp add: pb_encode_varint_def)
  ultimately show ?thesis by simp
next
  case False
  then have nz: "v \<noteq> 0" by auto
  let ?y = "le128 (unat v)"
  let ?B = "varint_bytes_loop v []"
  have B: "?B = butlast ?y @ [of_nat (unat (last ?y) + 128)]" using varint_bytes_loop_eq [OF nz, of "[]"] by simp
  have ne: "?y \<noteq> []" by (simp add: le128.simps [of "unat v"])
  have l: "unat (last ?y) < 128" using vval_bounds [of ?y] le128_varint [of "unat v"] by simp
  have "of_nat (unat (last ?y) + 128) AND 0x7f = last ?y"
    using l by (simp only: word_unat_eq_iff unat_and_7f) (simp add: unat_of_nat_u8 del: of_nat_add)
  then have "?B[length ?B - 1 := ?B ! (length ?B - 1) AND 0x7f] = butlast ?y @ [last ?y]"
    unfolding B using ne by (simp add: nth_append list_update_append del: of_nat_add)
  then have "?B[length ?B - 1 := ?B ! (length ?B - 1) AND 0x7f] = ?y" using ne by simp
  moreover have "length ?B = length ?y" unfolding B using ne by simp
  ultimately have "(pb_encode_varint v :: ('st pb_ostream, unit) call) = pb_write ?y (length ?y)"
    using False unfolding pb_encode_varint_def Let_def by simp
  then show ?thesis using pb_write_writer [of "length ?y" ?y] by simp
qed

interpretation encode_varint: pb_writer "pb_encode_varint v" "le128 (unat v)" for v
  by (rule pb_encode_varint_writer)

text \<open>Zigzag.\<close>

definition zigzag :: "u64 \<Rightarrow> u64" where
  "zigzag v = (if sint v < 0 then NOT (push_bit 1 v) else push_bit 1 v)"

definition unzigzag :: "u64 \<Rightarrow> u64" where
  "unzigzag z = (if z AND 1 \<noteq> 0 then NOT (drop_bit 1 z) else drop_bit 1 z)"

lemma unzigzag_zigzag: "unzigzag (zigzag v) = v"
proof (cases "sint v < 0")
  case True
  then have top: "bit v 63" using bit_last_iff [of v] by simp
  have "NOT (push_bit 1 v) AND 1 \<noteq> 0" by (simp add: and_one_eq mod_2_eq_odd)
  moreover have "NOT (drop_bit 1 (NOT (push_bit 1 v))) = v"
  proof (rule bit_word_eqI)
    fix n
    assume "n < LENGTH(64)"
    then show "bit (NOT (drop_bit 1 (NOT (push_bit 1 v)))) n = bit v n"
      using top by (cases "n = 63") (simp_all add: bit_simps mult.commute [of v 2] bit_double_iff)
  qed
  ultimately show ?thesis using True by (simp add: zigzag_def unzigzag_def)
next
  case False
  then have top: "\<not> bit v 63" using bit_last_iff [of v] by simp
  have "push_bit 1 v AND 1 = 0" by (simp add: and_one_eq mod_2_eq_odd)
  moreover have "drop_bit 1 (push_bit 1 v) = v"
  proof (rule bit_word_eqI)
    fix n
    assume "n < LENGTH(64)"
    then show "bit (drop_bit 1 (push_bit 1 v)) n = bit v n"
      using top by (cases "n = 63") (simp_all add: bit_simps mult.commute [of v 2] bit_double_iff)
  qed
  ultimately show ?thesis using False by (simp add: zigzag_def unzigzag_def)
qed

lemma pb_encode_svarint_writer: "pb_writer (pb_encode_svarint v) (le128 (unat (zigzag v)))"
  using pb_encode_varint_writer [of "zigzag v"] by (simp add: pb_encode_svarint_def zigzag_def Let_def)

lemma pb_decode_svarint_reader:
  "pb_reader pb_decode_svarint (\<lambda>bs. map_option (\<lambda>(v, n). (unzigzag v, n)) (p_varint bs))"
proof -
  have "pb_reader (bindC pb_decode_varint (\<lambda>v. retC (unzigzag v)))
    (\<lambda>bs. case p_varint bs of None \<Rightarrow> None | Some (x, n) \<Rightarrow>
       (case Some (unzigzag x, 0) of None \<Rightarrow> None | Some (y, m) \<Rightarrow> Some (y, n + m)))"
    by (rule reader_bind [OF pb_decode_varint_reader reader_ret])
  moreover have "(\<lambda>bs. case p_varint bs of None \<Rightarrow> None | Some (x, n) \<Rightarrow>
       (case Some (unzigzag x, 0) of None \<Rightarrow> None | Some (y, m) \<Rightarrow> Some (y, n + m))) =
     (\<lambda>bs. map_option (\<lambda>(v, n). (unzigzag v, n)) (p_varint bs))"
    by (rule ext) (simp split: option.split)
  ultimately show ?thesis by (simp add: pb_decode_svarint_def unzigzag_def)
qed

interpretation svarint: pb_reader pb_decode_svarint "\<lambda>bs. map_option (\<lambda>(v, n). (unzigzag v, n)) (p_varint bs)"
  by (rule pb_decode_svarint_reader)

interpretation encode_svarint: pb_writer "pb_encode_svarint v" "le128 (unat (zigzag v))" for v
  by (rule pb_encode_svarint_writer)

subsection \<open>Fixed widths, strings and tags\<close>

lemma pb_encode_fixed32_writer: "pb_writer (pb_encode_fixed32 v) (fixed32_bytes v)"
  unfolding pb_encode_fixed32_def Let_def using pb_write_writer [of 4 "fixed32_bytes v"]
  by (simp add: fixed32_bytes_def)

lemma pb_encode_fixed64_writer: "pb_writer (pb_encode_fixed64 v) (fixed64_bytes v)"
  unfolding pb_encode_fixed64_def Let_def using pb_write_writer [of 8 "fixed64_bytes v"]
  by (simp add: fixed64_bytes_def)

text \<open>Reading \<open>n\<close> bytes and converting them.\<close>

lemma read_then_reader:
  fixes f :: "u8 list \<Rightarrow> 'a"
  assumes "\<And>bs. n \<le> length bs \<Longrightarrow> f (take n bs) = g bs"
  shows "pb_reader (bindC (pb_read b n :: ('st pb_istream, u8 list) call) (\<lambda>bs. retC (f bs)))
    (\<lambda>bs. if n \<le> length bs then Some (g bs, n) else None)"
proof -
  have e: "(\<lambda>bs. case (if n \<le> length bs then Some (take n bs, n) else None) of None \<Rightarrow> None
      | Some (x, k) \<Rightarrow> (case Some (f x, 0) of None \<Rightarrow> None | Some (y, m) \<Rightarrow> Some (y, k + m))) =
    (\<lambda>bs. if n \<le> length bs then Some (g bs, n) else None)" by (rule ext) (simp add: assms)
  show ?thesis using reader_bind [OF pb_read_reader reader_ret, of b n f] unfolding e .
qed

lemma pb_decode_fixed32_reader:
  "pb_reader pb_decode_fixed32 (\<lambda>bs. if 4 \<le> length bs then Some (word32_of bs, 4) else None)"
  unfolding pb_decode_fixed32_def by (rule read_then_reader) (simp add: word32_of_def)

lemma pb_decode_fixed64_reader:
  "pb_reader pb_decode_fixed64 (\<lambda>bs. if 8 \<le> length bs then Some (word64_of bs, 8) else None)"
  unfolding pb_decode_fixed64_def by (rule read_then_reader) (simp add: word64_of_def)

lemma pb_encode_string_writer:
  "length x < 2 ^ 64 \<Longrightarrow> pb_writer (pb_encode_string x (length x)) (le128 (length x) @ x)"
  unfolding pb_encode_string_def
  using writer_bind [OF pb_encode_varint_writer [of "of_nat (length x)"] pb_write_writer [OF refl, of x]]
  by (simp add: unat_of_nat)

interpretation fixed32: pb_reader pb_decode_fixed32 "\<lambda>bs. if 4 \<le> length bs then Some (word32_of bs, 4) else None"
  by (rule pb_decode_fixed32_reader)

interpretation fixed64: pb_reader pb_decode_fixed64 "\<lambda>bs. if 8 \<le> length bs then Some (word64_of bs, 8) else None"
  by (rule pb_decode_fixed64_reader)

text \<open>The skippers.\<close>

lemma pb_skip_varint_reader: "pb_reader pb_skip_varint (\<lambda>bs. map_option (\<lambda>n. ((), n)) (vlen bs))"
proof -
  have "in_ok s \<Longrightarrow> (case vlen (in_bytes s) of None \<Rightarrow> fst (pb_skip_varint s) = None
      | Some n \<Rightarrow> pb_skip_varint s = (Some (), in_advance n s))" for s :: "'a pb_istream"
  proof (induction "in_bytes s" arbitrary: s)
    case Nil
    then have "fst (pb_read True 1 s) = None" using read_bytes.fails [of s 1 True] by simp
    then obtain t where "pb_read True 1 s = (None, t)" by (cases "pb_read True 1 s") auto
    with Nil(1) show ?case by (simp add: pb_skip_varint.simps flip: Nil(1))
  next
    case (Cons b bs)
    note rb = readbyte_Cons [OF Cons(3) Cons(2) [symmetric]]
    have r: "pb_read True 1 s = (Some [b], in_advance 1 s)"
      using read_bytes.reads [OF Cons(3), of 1 "[b]" 1 True] by (simp flip: Cons(2))
    have st: "pb_skip_varint s = (if 128 \<le> unat b then pb_skip_varint (in_advance 1 s) else (Some (), in_advance 1 s))"
      using r by (simp add: pb_skip_varint.simps [of s] byte_high_bit)
    show ?case
    proof (cases "128 \<le> unat b \<and> vlen bs \<noteq> None")
      case True
      then obtain n where n: "vlen bs = Some n" by auto
      with Cons(1) [OF rb(3) [symmetric] rb(2)] rb(3) True st show ?thesis
        by (simp add: in_advance_add [OF Cons(3)] flip: Cons(2))
    next
      case False
      with Cons(1) [OF rb(3) [symmetric] rb(2)] rb(3) st show ?thesis by (auto simp flip: Cons(2))
    qed
  qed
  note main = this
  show ?thesis
  proof (rule pb_reader.intro)
    fix s :: "'a pb_istream" and v :: unit and n
    assume s: "in_ok s" "map_option (\<lambda>n. ((), n)) (vlen (in_bytes s)) = Some (v, n)"
    then have "vlen (in_bytes s) = Some n" by auto
    with main [OF s(1)] vlen_bounds [OF this] s(1)
    show "n \<le> bytes_left s \<and> pb_skip_varint s = (Some v, in_advance n s)" by simp
  next
    fix s :: "'a pb_istream"
    assume s: "in_ok s" "map_option (\<lambda>n. ((), n)) (vlen (in_bytes s)) = None"
    with main [OF s(1)] show "fst (pb_skip_varint s) = None" by simp
  qed
qed

definition p_string :: "u8 list \<Rightarrow> (nat \<times> nat) option" where
  "p_string bs = (case p_varint32 bs of None \<Rightarrow> None
     | Some (v, n) \<Rightarrow> if unat v \<le> length bs - n then Some (n, unat v) else None)"

lemma pb_skip_string_reader:
  "pb_reader pb_skip_string (\<lambda>bs. map_option (\<lambda>(n, m). ((), n + m)) (p_string bs))"
proof -
  have rb: "pb_reader (bindC (pb_read False n) (\<lambda>_. retC ())) (\<lambda>bs. if n \<le> length bs then Some ((), n) else None)" for n
    by (rule read_then_reader) simp
  have e: "(\<lambda>bs. case p_varint32 bs of None \<Rightarrow> None | Some (x, n) \<Rightarrow>
      (case (if unat x \<le> length (drop n bs) then Some ((), unat x) else None) of None \<Rightarrow> None | Some (y, m) \<Rightarrow> Some (y, n + m))) =
    (\<lambda>bs. map_option (\<lambda>(n, m). ((), n + m)) (p_string bs))"
    by (rule ext) (simp add: p_string_def split: option.split)
  show ?thesis unfolding pb_skip_string_def using reader_bind [OF pb_decode_varint32_reader rb, of unat] unfolding e .
qed

definition p_skip :: "nat \<Rightarrow> u8 list \<Rightarrow> (unit \<times> nat) option" where
  "p_skip wt bs =
     (if wt = PB_WT_VARINT then map_option (\<lambda>n. ((), n)) (vlen bs)
      else if wt = PB_WT_64BIT then (if 8 \<le> length bs then Some ((), 8) else None)
      else if wt = PB_WT_STRING then map_option (\<lambda>(n, m). ((), n + m)) (p_string bs)
      else if wt = PB_WT_32BIT then (if 4 \<le> length bs then Some ((), 4) else None)
      else None)"

lemma pb_skip_field_reader: "pb_reader (pb_skip_field wt) (p_skip wt)"
proof -
  have rb: "pb_reader (bindC (pb_read False n) (\<lambda>_. retC ())) (\<lambda>bs. if n \<le> length bs then Some ((), n) else None)" for n
    by (rule read_then_reader) simp
  have er: "pb_reader (PB_RETURN_ERROR m) (\<lambda>_. None)" for m
    by (rule pb_reader.intro) (simp_all add: PB_RETURN_ERROR_def)
  show ?thesis
    unfolding pb_skip_field_def p_skip_def [abs_def]
    using pb_skip_varint_reader pb_skip_string_reader rb er by (auto simp: p_skip_def [abs_def])
qed

interpretation skip_field: pb_reader "pb_skip_field wt" "p_skip wt" for wt
  by (rule pb_skip_field_reader)

lemma unat_tag:
  assumes "unat f < 2 ^ 29" and "wt < 8"
  shows "unat (push_bit 3 (ucast (f :: u32)) OR of_nat wt :: u64) = unat f * 8 + wt"
proof -
  have w: "unat (of_nat wt :: u64) = wt" using assms(2) by (simp add: unat_of_nat)
  have "unat (of_nat wt :: u64) < 2 ^ 3" using w assms(2) by simp
  moreover have "unat (ucast f :: u64) * 2 ^ 3 + unat (of_nat wt :: u64) < 2 ^ LENGTH(64)"
    using assms w by simp
  ultimately show ?thesis by (simp add: unat_push_or w)
qed

lemma le128_32: "n < 2 ^ 32 \<Longrightarrow> p_varint32 (le128 n @ rest) = Some (of_nat n, length (le128 n))"
proof -
  assume n: "n < 2 ^ 32"
  have "length (le128 n) \<le> 5" using n by (intro le128_length) simp_all
  with p_varint32_short [of "le128 n" rest] le128_varint [of n] n show ?thesis by simp
qed

lemma unat_of_nat_u32: "n < 2 ^ 32 \<Longrightarrow> unat (of_nat n :: u32) = n"
  by (simp add: unat_of_nat)

lemma pb_decode_tag_reads:
  assumes s: "in_ok s" and b: "in_bytes s = le128 (unat f * 8 + wt) @ rest"
    and f: "unat f < 2 ^ 29" "wt < 8" "unat f * 8 + wt \<noteq> 0"
  shows "pb_decode_tag s = ((Some (wt, f), in_advance (length (le128 (unat f * 8 + wt))) s), False)"
proof -
  let ?n = "unat f * 8 + wt"
  let ?t = "of_nat ?n :: u32"
  have n: "?n < 2 ^ 32" using f by simp
  then have t: "unat ?t = ?n" by (rule unat_of_nat_u32)
  have "?t \<noteq> 0" using t f(3) by (metis unat_0)
  moreover have "unat (?t AND 7) = wt"
    using unat_and_mask [of ?t 3] t f(2) by (simp add: mask_eq_exp_minus_1)
  moreover have "drop_bit 3 ?t = f"
  proof -
    have "unat (drop_bit 3 ?t) = unat f" using f(2) by (simp only: unat_drop_bit t) simp
    then show ?thesis by (simp only: word_unat_eq_iff)
  qed
  ultimately show ?thesis
    using pb_decode_varint32_eof_reads [OF s] b le128_32 [OF n, of rest]
    by (simp add: pb_decode_tag_def del: of_nat_add of_nat_mult)
qed

subsection \<open>Substreams\<close>

text \<open>A substream covers the payload; whatever part of it is read, closing it leaves the parent
  behind the payload.\<close>

lemma make_substream_reads:
  assumes s: "in_ok s" and b: "in_bytes s = le128 (length x) @ x @ rest" and l: "length x < 2 ^ 32"
  shows "\<exists>sub par. pb_make_string_substream s = (Some sub, par) \<and> in_ok sub \<and> in_bytes sub = x \<and>
    (\<forall>m \<le> length x. \<exists>t. pb_close_string_substream (in_advance m sub) par = (Some (), t) \<and> in_ok t \<and> in_bytes t = rest \<and>
      errmsg t = errmsg s)"
proof -
  let ?n = "length (le128 (length x))"
  let ?z = "of_nat (length x) :: u32"
  have z: "unat ?z = length x" using l by (simp add: unat_of_nat)
  have bl: "bytes_left s = ?n + length x + length rest" using length_in_bytes [OF s] b by simp
  have d: "pb_decode_varint32 s = (Some ?z, in_advance ?n s)"
    using varint32.reads [OF s, of ?z ?n] b le128_32 [OF l] by simp
  obtain p where p: "source s = Buf_Read p" "bytes_left s \<le> length p" using s by (auto simp: in_ok_def)
  have px: "take (bytes_left s) p = le128 (length x) @ x @ rest" using b p by (simp add: in_bytes_def)
  define q where "q = drop ?n p"
  have q: "take (length x + length rest) q = x @ rest"
    using px bl unfolding q_def by (simp add: take_drop add.commute add.left_commute)
  have lq: "length x + length rest \<le> length q" using p(2) bl by (simp add: q_def)
  let ?sub = "(in_advance ?n s)\<lparr>bytes_left := length x\<rparr>"
  let ?par = "(in_advance ?n s)\<lparr>bytes_left := length rest\<rparr>"
  have sub: "source ?sub = Buf_Read q" "source ?par = Buf_Read q" using p by (simp_all add: in_advance_def q_def)
  have "pb_make_string_substream s = (Some ?sub, ?par)"
    using d z bl by (simp add: pb_make_string_substream_def bindC_def)
  moreover have "in_ok ?sub" using sub lq by (auto simp: in_ok_def)
  moreover have "in_bytes ?sub = x"
  proof -
    have "take (length x) q = take (length x) (take (length x + length rest) q)" by (simp add: min_def)
    then show ?thesis using q sub by (simp add: in_bytes_def)
  qed
  moreover have "\<exists>t. pb_close_string_substream (in_advance m ?sub) ?par = (Some (), t) \<and> in_ok t \<and> in_bytes t = rest \<and>
      errmsg t = errmsg s" if "m \<le> length x" for m
  proof -
    let ?t = "?par\<lparr>source := Buf_Read (drop (length x) q)\<rparr>"
    have dr: "take (length rest) (drop (length x) q) = rest"
      using q by (metis append_eq_conv_conj drop_take diff_add_inverse)
    have "pb_close_string_substream (in_advance m ?sub) ?par = (Some (), ?t)"
    proof (cases "m < length x")
      case True
      have "in_ok (in_advance m ?sub)" using \<open>in_ok ?sub\<close> that by simp
      with True have "pb_read False (length x - m) (in_advance m ?sub) =
          (Some (drop m x), in_advance (length x - m) (in_advance m ?sub))"
        using read_bytes.reads [of "in_advance m ?sub" "length x - m" "drop m x" "length x - m" False]
          \<open>in_bytes ?sub = x\<close> \<open>in_ok ?sub\<close> by simp
      then show ?thesis using True sub by (simp add: pb_close_string_substream_def in_advance_def drop_drop)
    next
      case False
      with that have "m = length x" by simp
      then show ?thesis using sub by (simp add: pb_close_string_substream_def in_advance_def)
    qed
    moreover have "in_ok ?t \<and> in_bytes ?t = rest \<and> errmsg ?t = errmsg s"
      using lq dr by (auto simp: in_ok_def in_bytes_def)
    ultimately show ?thesis by blast
  qed
  ultimately show ?thesis by blast
qed

lemma encode_both:
  assumes "out_ok t" and "bytes_written t + 10 \<le> max_size t"
  shows "\<exists>x t' y t''. pb_encode_varint v t = (Some (), t') \<and> out_bytes t' = out_bytes t @ x \<and> length x \<le> 10 \<and>
    pb_encode_svarint v t = (Some (), t'') \<and> out_bytes t'' = out_bytes t @ y \<and> length y \<le> 10 \<and>
    (\<forall>(s :: 'st pb_istream) rest. in_ok s \<and> in_bytes s = x @ rest \<longrightarrow>
       (\<exists>s'. pb_decode_varint s = (Some v, s') \<and> in_bytes s' = rest)) \<and>
    (\<forall>(s :: 'st pb_istream) rest. in_ok s \<and> in_bytes s = y @ rest \<longrightarrow>
       (\<exists>s'. pb_decode_svarint s = (Some v, s') \<and> in_bytes s' = rest))"
proof -
  have l: "length (le128 (unat w)) \<le> 10" for w :: u64
    using le128_length_64 [of "unat w"] unsigned_less [of w] by simp
  have p: "p_varint (le128 (unat w) @ rest) = Some (w, length (le128 (unat w)))" for w rest
    using p_varint_le128 [of w rest] unsigned_less [of w] by simp
  have "bytes_written t + length (le128 (unat w)) \<le> max_size t" for w :: u64 using l [of w] assms(2) by simp
  then have e: "pb_encode_varint v t = (Some (), out_append (le128 (unat v)) t)"
    "pb_encode_svarint v t = (Some (), out_append (le128 (unat (zigzag v))) t)"
    using encode_varint.writes [OF assms(1)] encode_svarint.writes [OF assms(1)] by blast+
  have "\<forall>(s :: 'st pb_istream) rest. in_ok s \<and> in_bytes s = le128 (unat v) @ rest \<longrightarrow>
       (\<exists>s'. pb_decode_varint s = (Some v, s') \<and> in_bytes s' = rest)"
    using varint.on_prefix p by blast
  moreover have "\<forall>(s :: 'st pb_istream) rest. in_ok s \<and> in_bytes s = le128 (unat (zigzag v)) @ rest \<longrightarrow>
       (\<exists>s'. pb_decode_svarint s = (Some v, s') \<and> in_bytes s' = rest)"
    using svarint.on_prefix [where v = v] p by (fastforce simp: unzigzag_zigzag)
  ultimately show ?thesis using e l assms(1) by (intro exI [of _ "le128 (unat v)"] exI [of _ "le128 (unat (zigzag v))"] exI) auto
qed

subsection \<open>Properties\<close>

text \<open>Integers round trip: \<open>pb_encode_varint\<close> and \<open>pb_encode_svarint\<close> (zigzag) append at most
  ten bytes for every 64-bit value, and \<open>pb_decode_varint\<close> and \<open>pb_decode_svarint\<close> read the same
  value back from these bytes, whatever follows, and stop right behind them.\<close>

theorem varint_roundtrip:
  assumes "out_ok t" and "bytes_written t + 10 \<le> max_size t"
  shows "\<exists>x t' y t''. pb_encode_varint v t = (Some (), t') \<and> out_bytes t' = out_bytes t @ x \<and> length x \<le> 10 \<and>
    pb_encode_svarint v t = (Some (), t'') \<and> out_bytes t'' = out_bytes t @ y \<and> length y \<le> 10 \<and>
    (\<forall>(s :: 'st pb_istream) rest. in_ok s \<and> in_bytes s = x @ rest \<longrightarrow>
       (\<exists>s'. pb_decode_varint s = (Some v, s') \<and> in_bytes s' = rest)) \<and>
    (\<forall>(s :: 'st pb_istream) rest. in_ok s \<and> in_bytes s = y @ rest \<longrightarrow>
       (\<exists>s'. pb_decode_svarint s = (Some v, s') \<and> in_bytes s' = rest))"
  using encode_both [OF assms] .

theorem varint_roundtrip_witness:
  "\<exists>x t'. pb_encode_varint 300 (pb_ostream_from_buffer (replicate 10 0) 10 :: unit pb_ostream) = (Some (), t') \<and>
     out_bytes t' = x \<and>
     (\<exists>s'. pb_decode_varint (pb_istream_from_buffer (x @ [7]) (length (x @ [7])) :: unit pb_istream) = (Some 300, s') \<and>
       in_bytes s' = [7])"
proof -
  let ?t = "pb_ostream_from_buffer (replicate 10 0) 10 :: unit pb_ostream"
  have "out_ok ?t" "bytes_written ?t + 10 \<le> max_size ?t" by simp_all
  from varint_roundtrip [OF this, of 300, where 'st = unit] obtain x t' where
    x: "pb_encode_varint 300 ?t = (Some (), t')" "out_bytes t' = x"
      "\<forall>(s :: unit pb_istream) rest. in_ok s \<and> in_bytes s = x @ rest \<longrightarrow> (\<exists>s'. pb_decode_varint s = (Some 300, s') \<and> in_bytes s' = rest)"
    by (auto simp del: split_paired_All)
  then show ?thesis by (intro exI [of _ x] exI [of _ t']) simp
qed

text \<open>One field of a message on the wire, whatever its number and kind.\<close>

datatype wire_value = Wire_Varint u64 | Wire_64bit u64 | Wire_String "u8 list" | Wire_32bit u32

fun wire_type :: "wire_value \<Rightarrow> nat" where
  "wire_type (Wire_Varint _) = PB_WT_VARINT"
| "wire_type (Wire_64bit _) = PB_WT_64BIT"
| "wire_type (Wire_String _) = PB_WT_STRING"
| "wire_type (Wire_32bit _) = PB_WT_32BIT"

fun encode_wire :: "wire_value \<Rightarrow> ('st pb_ostream, unit) call" where
  "encode_wire (Wire_Varint v) = pb_encode_varint v"
| "encode_wire (Wire_64bit v) = pb_encode_fixed64 v"
| "encode_wire (Wire_String x) = pb_encode_string x (length x)"
| "encode_wire (Wire_32bit v) = pb_encode_fixed32 v"

fun wire_bytes :: "wire_value \<Rightarrow> u8 list" where
  "wire_bytes (Wire_Varint v) = le128 (unat v)"
| "wire_bytes (Wire_64bit v) = fixed64_bytes v"
| "wire_bytes (Wire_String x) = le128 (length x) @ x"
| "wire_bytes (Wire_32bit v) = fixed32_bytes v"

fun payload_length :: "wire_value \<Rightarrow> nat" where
  "payload_length (Wire_String x) = length x"
| "payload_length _ = 0"

lemma wire_type_less: "wire_type w < 8"
  by (cases w) (simp_all add: PB_WT_VARINT_def PB_WT_64BIT_def PB_WT_STRING_def PB_WT_32BIT_def)

lemma encode_wire_writer: "payload_length w < 2 ^ 32 \<Longrightarrow> pb_writer (encode_wire w) (wire_bytes w)"
  by (cases w) (auto intro: pb_encode_varint_writer pb_encode_fixed64_writer pb_encode_fixed32_writer pb_encode_string_writer)

lemma p_skip_wire:
  assumes "payload_length w < 2 ^ 32"
  shows "p_skip (wire_type w) (wire_bytes w @ rest) = Some ((), length (wire_bytes w))"
proof (cases w)
  case (Wire_String x)
  with assms le128_32 [of "length x" "x @ rest"] show ?thesis
    by (simp add: p_skip_def p_string_def PB_WT_VARINT_def PB_WT_64BIT_def PB_WT_STRING_def unat_of_nat_u32)
qed (simp_all add: p_skip_def PB_WT_VARINT_def PB_WT_64BIT_def PB_WT_STRING_def PB_WT_32BIT_def
    vlen_append le128_varint)

lemma pb_encode_tag_writer:
  assumes "unat f < 2 ^ 29" and "wt < 8"
  shows "pb_writer (pb_encode_tag wt f) (le128 (unat f * 8 + wt))"
  using pb_encode_varint_writer [of "push_bit 3 (ucast f) OR of_nat wt"]
  by (simp add: pb_encode_tag_def Let_def unat_tag [OF assms])

lemma wire_bytes_length: "payload_length w < 2 ^ 32 \<Longrightarrow> length (wire_bytes w) \<le> 10 + payload_length w"
proof (cases w)
  case (Wire_Varint v)
  then show ?thesis using le128_length_64 [of "unat v"] unsigned_less [of v] by simp
next
  case (Wire_String x)
  then show "payload_length w < 2 ^ 32 \<Longrightarrow> ?thesis" using le128_length_64 [of "length x"] by simp
qed simp_all

text \<open>C20: a field round trip: the tag and the value of a field, of any kind, written with
  \<open>pb_encode_tag\<close> and the value's encoder take at most fifteen bytes more than a string payload,
  and a decoder that does not know the field reads back the field number and wire type with
  \<open>pb_decode_tag\<close> and gets past exactly this value with \<open>pb_skip_field\<close>.\<close>

theorem unknown_field_skipped:
  assumes "out_ok t" and "bytes_written t + 15 + payload_length w \<le> max_size t"
    and "payload_length w < 2 ^ 32" and "0 < unat f" and "unat f < 2 ^ 29"
  shows "\<exists>x t'. bindC (pb_encode_tag (wire_type w) f) (\<lambda>_. encode_wire w) t = (Some (), t') \<and>
    out_bytes t' = out_bytes t @ x \<and> length x \<le> 15 + payload_length w \<and>
    (\<forall>(s :: 'st pb_istream) rest. in_ok s \<and> in_bytes s = x @ rest \<longrightarrow>
       (\<exists>s1 s2. pb_decode_tag s = ((Some (wire_type w, f), s1), False) \<and>
          pb_skip_field (wire_type w) s1 = (Some (), s2) \<and> in_ok s2 \<and> in_bytes s2 = rest))"
proof -
  let ?n = "unat f * 8 + wire_type w"
  let ?x = "le128 ?n @ wire_bytes w"
  have "?n < 128 ^ 5" using assms(5) wire_type_less [of w] by simp
  then have l: "length ?x \<le> 15 + payload_length w"
    using le128_length [of ?n 5] wire_bytes_length [OF assms(3)] by simp
  have "pb_writer (bindC (pb_encode_tag (wire_type w) f) (\<lambda>_. encode_wire w)) ?x"
    by (rule writer_bind [OF pb_encode_tag_writer [OF assms(5) wire_type_less] encode_wire_writer [OF assms(3)]])
  from pb_writer.writes [OF this assms(1)] l assms(1,2) have
    w: "bindC (pb_encode_tag (wire_type w) f) (\<lambda>_. encode_wire w) t = (Some (), out_append ?x t)" by simp
  have "\<exists>s1 s2. pb_decode_tag s = ((Some (wire_type w, f), s1), False) \<and>
      pb_skip_field (wire_type w) s1 = (Some (), s2) \<and> in_ok s2 \<and> in_bytes s2 = rest"
    if s: "in_ok s" "in_bytes s = ?x @ rest" for s :: "'st pb_istream" and rest
  proof -
    let ?s = "in_advance (length (le128 ?n)) s"
    have t: "pb_decode_tag s = ((Some (wire_type w, f), ?s), False)"
      using s assms(4) by (intro pb_decode_tag_reads [OF s(1) _ assms(5) wire_type_less]) simp_all
    have "length (le128 ?n) \<le> bytes_left s" using length_in_bytes [OF s(1)] s(2) by simp
    then have ok: "in_ok ?s" using s(1) by simp
    have b: "in_bytes ?s = wire_bytes w @ rest" using s by simp
    note k = skip_field.reads [OF ok, of "wire_type w" "()" "length (wire_bytes w)", unfolded b, OF p_skip_wire [OF assms(3)]]
    show ?thesis using t k ok b
      by (intro exI [of _ ?s] exI [of _ "in_advance (length (wire_bytes w)) ?s"]) simp
  qed
  with w l assms(1) show ?thesis by (intro exI [of _ ?x] exI) auto
qed

theorem unknown_field_skipped_witness:
  "\<exists>x t'. bindC (pb_encode_tag 2 5) (\<lambda>_. pb_encode_string [1, 2, 3] (length [1, 2, 3 :: u8]))
       (pb_ostream_from_buffer (replicate 20 0) 20 :: unit pb_ostream) = (Some (), t') \<and> out_bytes t' = x \<and>
     (\<exists>s1 s2. pb_decode_tag (pb_istream_from_buffer (x @ [9]) (length (x @ [9])) :: unit pb_istream) = ((Some (2, 5), s1), False) \<and>
       pb_skip_field 2 s1 = (Some (), s2) \<and> in_bytes s2 = [9])"
proof -
  let ?t = "pb_ostream_from_buffer (replicate 20 0) 20 :: unit pb_ostream"
  have "out_ok ?t" "bytes_written ?t + 15 + payload_length (Wire_String [1, 2, 3]) \<le> max_size ?t" by simp_all
  from unknown_field_skipped [OF this, of 5, where 'st = unit] obtain x t' where
    x: "bindC (pb_encode_tag 2 5) (\<lambda>_. pb_encode_string [1, 2, 3] (length [1, 2, 3 :: u8])) ?t = (Some (), t')" "out_bytes t' = x"
      "\<And>(s :: unit pb_istream) rest. in_ok s \<Longrightarrow> in_bytes s = x @ rest \<Longrightarrow>
        (\<exists>s1 s2. pb_decode_tag s = ((Some (2, 5), s1), False) \<and> pb_skip_field 2 s1 = (Some (), s2) \<and> in_bytes s2 = rest)"
    by (fastforce simp: PB_WT_STRING_def)
  then show ?thesis by (intro exI [of _ x] exI [of _ t']) simp
qed

text \<open>\<open>pb_decode_varint32\<close> on an encoding of up to five bytes is exact: it returns the value and
  stops behind it when the value fits 32 bits, and fails when it does not; in particular every
  shortest encoding of a 32-bit value is read back.\<close>

theorem pb_decode_varint32_exact:
  assumes "in_ok s" and "vlen (in_bytes s) = Some n" and "n \<le> 5"
  shows "if vval (take n (in_bytes s)) < 2 ^ 32
    then pb_decode_varint32 s = (Some (of_nat (vval (take n (in_bytes s)))), in_advance n s)
    else fst (pb_decode_varint32 s) = None"
proof -
  let ?x = "take n (in_bytes s)"
  have n: "n \<le> length (in_bytes s)" using vlen_bounds [OF assms(2)] by simp
  have "vlen bs = Some k \<Longrightarrow> vlen (take k bs) = Some k" for bs k
    by (induction bs arbitrary: k) (auto split: if_splits)
  from this [OF assms(2)] have "vlen ?x = Some (length ?x)" using n by simp
  from p_varint32_short [OF this, of "drop n (in_bytes s)"] n assms(3) have
    "p_varint32 (in_bytes s) = (if vval ?x < 2 ^ 32 then Some (of_nat (vval ?x), n) else None)" by simp
  with varint32.reads [OF assms(1)] varint32.fails [OF assms(1)] show ?thesis by (simp split: if_splits)
qed

theorem pb_decode_varint32_exact_witness:
  "fst (pb_decode_varint32 (pb_istream_from_buffer [0xff, 0xff, 0xff, 0xff, 0x0f] 5 :: unit pb_istream)) = Some 0xffffffff \<and>
   fst (pb_decode_varint32 (pb_istream_from_buffer [0xff, 0xff, 0xff, 0xff, 0x1f] 5 :: unit pb_istream)) = None"
  using pb_decode_varint32_exact [of "pb_istream_from_buffer [0xff, 0xff, 0xff, 0xff, 0x0f] 5 :: unit pb_istream" 5]
    pb_decode_varint32_exact [of "pb_istream_from_buffer [0xff, 0xff, 0xff, 0xff, 0x1f] 5 :: unit pb_istream" 5]
  by simp

text \<open>C31: an overlong varint is not always rejected: the bit position of \<open>pb_decode_varint32_eof\<close>
  is kept in eight bits and wraps, so after thirty-six padding bytes 0x80 a further byte is
  shifted into the low bits of the value. The 38 bytes below, which \<open>pb_decode_varint\<close> refuses
  and which spell a number of more than 250 bits, are read as 9.\<close>

theorem overlong_varint32_wraps:
  "fst (pb_decode_varint32 (pb_istream_from_buffer (0x81 # replicate 36 0x80 @ [1]) 38 :: 'st pb_istream)) = Some 9 \<and>
   fst (pb_decode_varint (pb_istream_from_buffer (0x81 # replicate 36 0x80 @ [1]) 38 :: 'st pb_istream)) = None \<and>
   vval (0x81 # replicate 36 0x80 @ [1]) = 1 + 2 ^ 259"
proof -
  let ?bs = "0x81 # replicate 36 0x80 @ [1] :: u8 list"
  let ?s = "pb_istream_from_buffer ?bs 38 :: 'st pb_istream"
  have s: "in_ok ?s" "in_bytes ?s = ?bs" by simp_all
  have r: "replicate 36 x = [x, x, x, x, x, x, x, x, x, x, x, x, x, x, x, x, x, x,
      x, x, x, x, x, x, x, x, x, x, x, x, x, x, x, x, x, x]" for x :: u8
    by (simp add: numeral_eq_Suc)
  have p: "p_varint32 ?bs = Some (9, 38)" unfolding r by (simp add: Let_def)
  have v: "p_varint ?bs = None" unfolding r by (simp add: p_varint_def)
  have "pb_decode_varint32 ?s = (Some 9, in_advance 38 ?s)"
    using varint32.reads [OF s(1), of 9 38] p unfolding s(2) by simp
  moreover have "fst (pb_decode_varint ?s) = None" using varint.fails [OF s(1)] v unfolding s(2) by simp
  moreover have "vval ?bs = 1 + 2 ^ 259" unfolding r by simp
  ultimately show ?thesis by simp
qed

text \<open>String substreams: on a length-prefixed payload \<open>pb_make_string_substream\<close> gives a
  substream of exactly the payload, and however much of it has been read,
  \<open>pb_close_string_substream\<close> leaves the parent right behind the payload.\<close>

theorem substream_covers_payload:
  assumes "in_ok s" and "in_bytes s = le128 (length x) @ x @ rest" and "length x < 2 ^ 32"
  shows "\<exists>sub par. pb_make_string_substream s = (Some sub, par) \<and> in_ok sub \<and> in_bytes sub = x \<and>
    (\<forall>m \<le> length x. \<exists>t. pb_close_string_substream (in_advance m sub) par = (Some (), t) \<and> in_ok t \<and> in_bytes t = rest)"
  using make_substream_reads [OF assms] by blast

theorem substream_covers_payload_witness:
  "\<exists>sub par t. pb_make_string_substream (pb_istream_from_buffer [2, 7, 8, 9] 4 :: unit pb_istream) = (Some sub, par) \<and>
     in_bytes sub = [7, 8] \<and> pb_close_string_substream (in_advance 1 sub) par = (Some (), t) \<and> in_bytes t = [9]"
proof -
  have "le128 (Suc (Suc 0)) = [2]" by (simp add: le128.simps)
  then have "in_bytes (pb_istream_from_buffer [2, 7, 8, 9] 4 :: unit pb_istream) = le128 (length [7, 8 :: u8]) @ [7, 8] @ [9]"
    by simp
  from substream_covers_payload [OF _ this] obtain sub par where
    "pb_make_string_substream (pb_istream_from_buffer [2, 7, 8, 9] 4 :: unit pb_istream) = (Some sub, par)"
    "in_bytes sub = [7, 8]"
    "\<forall>m \<le> length [7, 8 :: u8]. \<exists>t. pb_close_string_substream (in_advance m sub) par = (Some (), t) \<and> in_ok t \<and> in_bytes t = [9]"
    by auto
  moreover from this(3) have "\<exists>t. pb_close_string_substream (in_advance 1 sub) par = (Some (), t) \<and> in_ok t \<and> in_bytes t = [9]"
    by simp
  ultimately show ?thesis by blast
qed

text \<open>A signed integer field of one, two, four or eight bytes round trips through both of its
  encodings: what \<open>pb_enc_varint\<close> or \<open>pb_enc_svarint\<close> writes for a value of that width,
  \<open>pb_dec_varint\<close> or \<open>pb_dec_svarint\<close> of the same width reads back.\<close>

theorem signed_field_roundtrip:
  assumes "out_ok t" and "bytes_written t + 10 \<le> max_size t" and "ds \<in> {1, 2, 4, 8}"
    and "- (2 ^ (8 * ds - 1)) \<le> v" and "v < 2 ^ (8 * ds - 1)"
  shows "\<exists>x t' y t''. pb_enc_varint ds v t = (Some (), t') \<and> out_bytes t' = out_bytes t @ x \<and>
    pb_enc_svarint ds v t = (Some (), t'') \<and> out_bytes t'' = out_bytes t @ y \<and>
    (\<forall>(s :: 'st pb_istream) rest. in_ok s \<and> in_bytes s = x @ rest \<longrightarrow>
       (\<exists>s'. pb_dec_varint ds s = (Some v, s') \<and> in_bytes s' = rest)) \<and>
    (\<forall>(s :: 'st pb_istream) rest. in_ok s \<and> in_bytes s = y @ rest \<longrightarrow>
       (\<exists>s'. pb_dec_svarint ds s = (Some v, s') \<and> in_bytes s' = rest))"
proof -
  let ?w = "word_of_int v :: u64"
  have fits: "signed_take_bit k v = v" if "- (2 ^ k) \<le> v" "v < 2 ^ k" for k
    using that by (simp add: signed_take_bit_int_eq_self)
  have ds: "ds = 1 \<or> ds = 2 \<or> ds = 4 \<or> ds = 8" using assms(3) by auto
  have p: "(2 :: int) ^ (8 * ds - 1) \<le> 2 ^ 63" using ds by (intro power_increasing) auto
  have w: "sint ?w = v"
  proof -
    have "signed_take_bit 63 v = v" using assms(4,5) p by (intro fits) linarith+
    then show ?thesis by (simp add: signed_of_int)
  qed
  have c: "signed_take_bit (8 * ds - 1) v = v" using assms(4,5) by (rule fits)
  have c4: "signed_take_bit 31 v = v" if "ds \<noteq> 8"
  proof -
    have "(2 :: int) ^ (8 * ds - 1) \<le> 2 ^ 31" using ds that by (intro power_increasing) auto
    with assms(4,5) show ?thesis by (intro fits) linarith+
  qed
  have dv: "pb_dec_varint ds s = (Some v, s')" if "pb_decode_varint s = (Some ?w, s')" for s s' :: "'st pb_istream"
    using that ds c c4 w by (auto simp: pb_dec_varint_def bindC_def to_signed_def Let_def)
  have ds': "pb_dec_svarint ds s = (Some v, s')" if "pb_decode_svarint s = (Some ?w, s')" for s s' :: "'st pb_istream"
    using that ds c w by (auto simp: pb_dec_svarint_def bindC_def to_signed_def Let_def)
  obtain x t' y t'' where r: "pb_encode_varint ?w t = (Some (), t')" "out_bytes t' = out_bytes t @ x"
    "pb_encode_svarint ?w t = (Some (), t'')" "out_bytes t'' = out_bytes t @ y"
    "\<And>(s :: 'st pb_istream) rest. in_ok s \<Longrightarrow> in_bytes s = x @ rest \<Longrightarrow> \<exists>s'. pb_decode_varint s = (Some ?w, s') \<and> in_bytes s' = rest"
    "\<And>(s :: 'st pb_istream) rest. in_ok s \<Longrightarrow> in_bytes s = y @ rest \<Longrightarrow> \<exists>s'. pb_decode_svarint s = (Some ?w, s') \<and> in_bytes s' = rest"
    using encode_both [OF assms(1,2), where v = ?w and 'st = 'st] by blast
  have "pb_enc_varint ds v t = (Some (), t')" "pb_enc_svarint ds v t = (Some (), t'')"
    using r(1,3) ds by (auto simp: pb_enc_varint_def pb_enc_svarint_def)
  with r dv ds' show ?thesis by (intro exI [of _ x] exI [of _ t'] exI [of _ y] exI [of _ t'']) blast
qed

theorem signed_field_roundtrip_witness:
  "\<exists>x t'. pb_enc_varint 2 (-300) (pb_ostream_from_buffer (replicate 10 0) 10 :: unit pb_ostream) = (Some (), t') \<and>
     out_bytes t' = x \<and>
     fst (pb_dec_varint 2 (pb_istream_from_buffer x (length x) :: unit pb_istream)) = Some (-300)"
proof -
  let ?t = "pb_ostream_from_buffer (replicate 10 0) 10 :: unit pb_ostream"
  have "out_ok ?t" "bytes_written ?t + 10 \<le> max_size ?t" "(2 :: nat) \<in> {1, 2, 4, 8}" by simp_all
  from signed_field_roundtrip [OF this, of "-300", where 'st = unit] obtain x t' where
    x: "pb_enc_varint 2 (-300) ?t = (Some (), t')" "out_bytes t' = x"
      "\<And>(s :: unit pb_istream) rest. in_ok s \<Longrightarrow> in_bytes s = x @ rest \<Longrightarrow> \<exists>s'. pb_dec_varint 2 s = (Some (-300), s')"
    by fastforce
  from x(3) [of "pb_istream_from_buffer x (length x)" "[]"] x(1,2) show ?thesis
    by (intro exI [of _ x] exI [of _ t']) auto
qed

end
