(* ===== verification/Pb_Iter.thy ===== *)
theory Pb_Iter
  imports Prelude
begin

text \<open>
  The field descriptors of nanopb (\<open>pb.h\<close>) and the iterator over them of \<open>pb_common.c\<close>. A
  descriptor table is the list of its entries up to and including the terminator, whose tag is
  0; \<open>pos\<close> is an index into it. Addresses are integers, 0 is the null pointer.
\<close>

record pb_field =
  fld_tag :: u32
  fld_type :: u8
  data_offset :: u32
  size_offset :: int
  data_size :: u32
  array_size :: u32

definition PB_LTYPE :: "u8 \<Rightarrow> u8" where "PB_LTYPE x = x AND 0x0f"
definition PB_HTYPE :: "u8 \<Rightarrow> u8" where "PB_HTYPE x = x AND 0x30"
definition PB_ATYPE :: "u8 \<Rightarrow> u8" where "PB_ATYPE x = x AND 0xc0"

definition PB_LTYPE_EXTENSION :: u8 where "PB_LTYPE_EXTENSION = 0x09"
definition PB_HTYPE_REQUIRED :: u8 where "PB_HTYPE_REQUIRED = 0x00"
definition PB_HTYPE_REPEATED :: u8 where "PB_HTYPE_REPEATED = 0x20"
definition PB_HTYPE_ONEOF :: u8 where "PB_HTYPE_ONEOF = 0x30"
definition PB_ATYPE_STATIC :: u8 where "PB_ATYPE_STATIC = 0x00"
definition PB_ATYPE_POINTER :: u8 where "PB_ATYPE_POINTER = 0x80"
definition PB_SIZE_MAX :: u32 where "PB_SIZE_MAX = 0xffffffff"

definition PB_LAST_FIELD :: pb_field where
  "PB_LAST_FIELD = \<lparr>fld_tag = 0, fld_type = 0, data_offset = 0, size_offset = 0, data_size = 0, array_size = 0\<rparr>"

text \<open>The size of a pointer on the 64-bit targets.\<close>

definition sizeof_ptr :: int where "sizeof_ptr = 8"

record pb_field_iter =
  iter_start :: "pb_field list"
  pos :: nat
  required_field_index :: nat
  dest_struct :: int
  pData :: int
  pSize :: int

definition cur :: "pb_field_iter \<Rightarrow> pb_field" where
  "cur iter = iter_start iter ! pos iter"

definition pb_field_iter_begin :: "pb_field list \<Rightarrow> int \<Rightarrow> bool \<times> pb_field_iter" where
  "pb_field_iter_begin fs dest =
     (let f = fs ! 0;
          data = (if dest = 0 then 0 else dest + int (unat (data_offset f)));
          size' = (if dest = 0 then 0 else data + size_offset f)
      in (fld_tag f \<noteq> 0,
          \<lparr>iter_start = fs, pos = 0, required_field_index = 0, dest_struct = dest, pData = data, pSize = size'\<rparr>))"

definition pb_field_iter_next :: "pb_field_iter \<Rightarrow> bool \<times> pb_field_iter" where
  "pb_field_iter_next iter =
     (let prev_field = cur iter in
      if fld_tag prev_field = 0 then (False, iter)
      else
        let iter = iter\<lparr>pos := pos iter + 1\<rparr> in
        if fld_tag (cur iter) = 0 then (False, snd (pb_field_iter_begin (iter_start iter) (dest_struct iter)))
        else
          let prev_size = int (unat (data_size prev_field)) in
          if PB_HTYPE (fld_type prev_field) = PB_HTYPE_ONEOF \<and> PB_HTYPE (fld_type (cur iter)) = PB_HTYPE_ONEOF \<and>
             data_offset (cur iter) = PB_SIZE_MAX
          then (True, iter)
          else
            let prev_size =
                  (if PB_ATYPE (fld_type prev_field) = PB_ATYPE_STATIC \<and> PB_HTYPE (fld_type prev_field) = PB_HTYPE_REPEATED
                   then prev_size * int (unat (array_size prev_field))
                   else if PB_ATYPE (fld_type prev_field) = PB_ATYPE_POINTER then sizeof_ptr
                   else prev_size);
                req = (if PB_HTYPE (fld_type prev_field) = PB_HTYPE_REQUIRED
                       then required_field_index iter + 1 else required_field_index iter);
                data = pData iter + prev_size + int (unat (data_offset (cur iter)))
            in (True, iter\<lparr>required_field_index := req, pData := data, pSize := data + size_offset (cur iter)\<rparr>))"

definition wanted :: "u32 \<Rightarrow> pb_field \<Rightarrow> bool" where
  "wanted tag f \<longleftrightarrow> fld_tag f = tag \<and> PB_LTYPE (fld_type f) \<noteq> PB_LTYPE_EXTENSION"

text \<open>The do-while loop; it may not end on an iterator that is off its table.\<close>

partial_function (option) find_loop :: "nat \<Rightarrow> u32 \<Rightarrow> pb_field_iter \<Rightarrow> (bool \<times> pb_field_iter) option" where
  "find_loop start tag iter =
     (if wanted tag (cur iter) then Some (True, iter)
      else
        (let iter = snd (pb_field_iter_next iter) in
         if pos iter \<noteq> start then find_loop start tag iter else Some (False, iter)))"

definition pb_field_iter_find :: "u32 \<Rightarrow> pb_field_iter \<Rightarrow> (bool \<times> pb_field_iter) option" where
  "pb_field_iter_find tag iter = find_loop (pos iter) tag iter"

subsection \<open>Iterators on their table\<close>

text \<open>A table of \<open>n\<close> fields: nonzero tags, then the terminator.\<close>

definition table :: "pb_field list \<Rightarrow> nat \<Rightarrow> bool" where
  "table fs n \<longleftrightarrow> n < length fs \<and> (\<forall>k < n. fld_tag (fs ! k) \<noteq> 0) \<and> fld_tag (fs ! n) = 0"

text \<open>The iterator after \<open>k\<close> steps from the beginning.\<close>

fun iter_at :: "pb_field list \<Rightarrow> int \<Rightarrow> nat \<Rightarrow> pb_field_iter" where
  "iter_at fs dest 0 = snd (pb_field_iter_begin fs dest)"
| "iter_at fs dest (Suc k) = snd (pb_field_iter_next (iter_at fs dest k))"

definition on_table :: "pb_field list \<Rightarrow> nat \<Rightarrow> int \<Rightarrow> pb_field_iter \<Rightarrow> bool" where
  "on_table fs n dest iter \<longleftrightarrow> table fs n \<and> (pos iter < n \<or> n = 0 \<and> pos iter = 0) \<and>
     iter = iter_at fs dest (pos iter)"

lemma begin_fields [simp]:
  "pos (snd (pb_field_iter_begin fs dest)) = 0" "iter_start (snd (pb_field_iter_begin fs dest)) = fs"
  "dest_struct (snd (pb_field_iter_begin fs dest)) = dest"
  by (simp_all add: pb_field_iter_begin_def Let_def)

lemma next_fields:
  assumes "fld_tag (cur iter) \<noteq> 0" and "fld_tag (iter_start iter ! Suc (pos iter)) \<noteq> 0"
  shows "fst (pb_field_iter_next iter)" "pos (snd (pb_field_iter_next iter)) = Suc (pos iter)"
    "iter_start (snd (pb_field_iter_next iter)) = iter_start iter"
    "dest_struct (snd (pb_field_iter_next iter)) = dest_struct iter"
  using assms by (simp_all add: pb_field_iter_next_def Let_def cur_def)

lemma iter_at_fields:
  "table fs n \<Longrightarrow> k < n \<Longrightarrow> pos (iter_at fs dest k) = k \<and> iter_start (iter_at fs dest k) = fs \<and>
     dest_struct (iter_at fs dest k) = dest"
proof (induction k)
  case (Suc k)
  then have IH: "pos (iter_at fs dest k) = k" "iter_start (iter_at fs dest k) = fs"
    "dest_struct (iter_at fs dest k) = dest" by simp_all
  have "fld_tag (fs ! k) \<noteq> 0" "fld_tag (fs ! Suc k) \<noteq> 0" using Suc.prems by (auto simp: table_def)
  with IH next_fields [of "iter_at fs dest k"] show ?case by (simp add: cur_def)
qed simp

lemma begin_on_table: "table fs n \<Longrightarrow> on_table fs n dest (snd (pb_field_iter_begin fs dest))"
  by (cases n) (auto simp: on_table_def)

text \<open>A step goes to the next field, or back to the first one.\<close>

lemma next_on_table:
  assumes o: "on_table fs n dest iter"
  shows "on_table fs n dest (snd (pb_field_iter_next iter)) \<and>
    pos (snd (pb_field_iter_next iter)) = (if Suc (pos iter) < n then Suc (pos iter) else 0) \<and>
    fst (pb_field_iter_next iter) = (Suc (pos iter) < n)"
proof -
  have t: "table fs n" and i: "iter = iter_at fs dest (pos iter)" using o by (simp_all add: on_table_def)
  show ?thesis
  proof (cases n)
    case 0
    with o have p: "pos iter = 0" by (simp add: on_table_def)
    then have "iter = snd (pb_field_iter_begin fs dest)" using i by simp
    then have st: "iter_start iter = fs" by (metis begin_fields(2))
    have "pb_field_iter_next iter = (False, iter)"
      using t 0 p st by (simp add: pb_field_iter_next_def cur_def table_def)
    with o p 0 show ?thesis by simp
  next
    case (Suc m)
    then have p: "pos iter < n" using o by (auto simp: on_table_def)
    have f: "iter_start iter = fs" "dest_struct iter = dest" using iter_at_fields [OF t p, of dest] i by simp_all
    have c: "fld_tag (cur iter) \<noteq> 0" using t p f by (simp add: table_def cur_def)
    show ?thesis
    proof (cases "Suc (pos iter) < n")
      case True
      with t f have "fld_tag (iter_start iter ! Suc (pos iter)) \<noteq> 0" by (simp add: table_def)
      note nx = next_fields [OF c this]
      have "snd (pb_field_iter_next iter) = iter_at fs dest (Suc (pos iter))" using i by simp
      with nx t True show ?thesis by (simp add: on_table_def)
    next
      case False
      with p have "n = Suc (pos iter)" by simp
      then have "fld_tag (fs ! Suc (pos iter)) = 0" using t by (auto simp: table_def)
      then have "pb_field_iter_next iter = (False, snd (pb_field_iter_begin fs dest))"
        using c f by (simp add: pb_field_iter_next_def cur_def)
      with begin_on_table [OF t] False show ?thesis by simp
    qed
  qed
qed

lemma on_table_cur: "on_table fs n dest iter \<Longrightarrow> cur iter = fs ! pos iter"
proof -
  assume o: "on_table fs n dest iter"
  then have t: "table fs n" and i: "iter = iter_at fs dest (pos iter)" by (simp_all add: on_table_def)
  show ?thesis
  proof (cases "pos iter < n")
    case True
    from iter_at_fields [OF t True, of dest] i show ?thesis by (simp add: cur_def)
  next
    case False
    with o have "pos iter = 0" by (simp add: on_table_def)
    then have "iter = snd (pb_field_iter_begin fs dest)" using i by simp
    then have "iter_start iter = fs" by (metis begin_fields(2))
    then show ?thesis by (simp add: cur_def)
  qed
qed

lemma next_pos_mod:
  assumes "on_table fs n dest iter"
  shows "pos (snd (pb_field_iter_next iter)) = (pos iter + 1) mod max n 1"
proof -
  have "Suc (pos iter) < n \<or> Suc (pos iter) = max n 1" using assms by (auto simp: on_table_def)
  then show ?thesis using next_on_table [OF assms] by auto
qed

text \<open>The loop needs at most one round: \<open>d\<close> counts the fields it has still to visit.\<close>

lemma find_loop_total:
  "on_table fs n dest iter \<Longrightarrow> start < max n 1 \<Longrightarrow> d < max n 1 \<Longrightarrow> start = (pos iter + Suc d) mod max n 1 \<Longrightarrow>
   \<exists>b iter'. find_loop start tag iter = Some (b, iter') \<and> on_table fs n dest iter' \<and>
     (b \<longrightarrow> wanted tag (cur iter')) \<and>
     (\<not> b \<longrightarrow> pos iter' = start \<and> (\<forall>j \<le> d. \<not> wanted tag (fs ! ((pos iter + j) mod max n 1))))"
proof (induction d arbitrary: iter)
  case (0 iter)
  let ?i = "snd (pb_field_iter_next iter)"
  note nx = next_on_table [OF 0(1)]
  have p: "pos iter < max n 1" using 0(1) by (auto simp: on_table_def)
  have "pos ?i = start" using next_pos_mod [OF 0(1)] 0(4) by simp
  then have "find_loop start tag iter = (if wanted tag (cur iter) then Some (True, iter) else Some (False, ?i))"
    by (subst find_loop.simps) (simp add: Let_def)
  with 0(1) nx \<open>pos ?i = start\<close> on_table_cur [OF 0(1)] p show ?case by auto
next
  case (Suc d iter)
  let ?i = "snd (pb_field_iter_next iter)"
  let ?n = "max n 1"
  note nx = next_on_table [OF Suc(2)]
  have p: "pos iter < ?n" using Suc(2) by (auto simp: on_table_def)
  note pn = next_pos_mod [OF Suc(2)]
  show ?case
  proof (cases "wanted tag (cur iter)")
    case True
    then have "find_loop start tag iter = Some (True, iter)" by (subst find_loop.simps) simp
    with True Suc(2) show ?thesis by blast
  next
    case False
    have "(pos ?i + Suc d) mod ?n = (pos iter + 1 + Suc d) mod ?n" unfolding pn by (rule mod_add_left_eq)
    then have s: "start = (pos ?i + Suc d) mod ?n" using Suc(5) by simp
    have "pos ?i < ?n" using pn by simp
    then have ne: "pos ?i \<noteq> start" using s Suc(4) by (cases "pos ?i + Suc d < ?n") (auto simp: le_mod_geq)
    have "find_loop start tag iter = find_loop start tag ?i" using False ne by (subst find_loop.simps) (simp add: Let_def)
    moreover have d: "d < ?n" using Suc(4) by simp
    moreover from Suc(1) [OF conjunct1 [OF nx] Suc(3) d s] obtain b i' where
      i': "find_loop start tag ?i = Some (b, i')" "on_table fs n dest i'" "b \<longrightarrow> wanted tag (cur i')"
      "\<not> b \<longrightarrow> pos i' = start \<and> (\<forall>j \<le> d. \<not> wanted tag (fs ! ((pos ?i + j) mod ?n)))" by blast
    moreover have "\<not> wanted tag (fs ! ((pos iter + j) mod ?n))" if "\<not> b" "j \<le> Suc d" for j
    proof (cases j)
      case 0
      then show ?thesis using False on_table_cur [OF Suc(2)] p by simp
    next
      case (Suc k)
      with that i'(4) have "\<not> wanted tag (fs ! ((pos ?i + k) mod ?n))" by simp
      moreover have "(pos ?i + k) mod ?n = (pos iter + 1 + k) mod ?n" unfolding pn by (rule mod_add_left_eq)
      ultimately show ?thesis using Suc by simp
    qed
    ultimately show ?thesis by auto
  qed
qed

text \<open>C28: A search for a field always ends, wherever on its table it starts. It stops at a field with
  the wanted tag that is not an extension range; when the table has no such field it reports so
  and leaves the iterator at the position it had, its data pointers those of that field.\<close>

theorem pb_field_iter_find_total:
  assumes o: "on_table fs n dest iter"
  shows "\<exists>b iter'. pb_field_iter_find tag iter = Some (b, iter') \<and> on_table fs n dest iter' \<and>
    (b \<longleftrightarrow> (\<exists>k < n. wanted tag (fs ! k)) \<or> wanted tag (fs ! pos iter)) \<and>
    (if b then wanted tag (cur iter') else iter' = iter)"
proof -
  let ?n = "max n 1"
  have p: "pos iter < ?n" using o by (auto simp: on_table_def)
  have e: "pos iter = (pos iter + Suc (?n - 1)) mod ?n" using p by simp
  from find_loop_total [OF o p _ e, of tag] obtain b i' where
    i': "find_loop (pos iter) tag iter = Some (b, i')" "on_table fs n dest i'" "b \<longrightarrow> wanted tag (cur i')"
    "\<not> b \<longrightarrow> pos i' = pos iter \<and> (\<forall>j \<le> ?n - 1. \<not> wanted tag (fs ! ((pos iter + j) mod ?n)))" by auto
  have none: "\<not> wanted tag (fs ! k)" if "\<not> b" "k < ?n" for k
  proof -
    let ?j = "(k + ?n - pos iter) mod ?n"
    have "?j \<le> ?n - 1" using p by (simp add: less_Suc_eq_le [symmetric])
    with i'(4) that(1) have "\<not> wanted tag (fs ! ((pos iter + ?j) mod ?n))" by blast
    moreover have "(pos iter + ?j) mod ?n = (pos iter + (k + ?n - pos iter)) mod ?n" by (rule mod_add_right_eq)
    moreover have "(pos iter + (k + ?n - pos iter)) mod ?n = k" using p that(2) by simp
    ultimately show ?thesis by simp
  qed
  have "\<exists>k < n. wanted tag (fs ! k) \<or> wanted tag (fs ! pos iter)" if b and "n \<noteq> 0"
    using i'(2,3) on_table_cur [OF i'(2)] that by (auto simp: on_table_def)
  moreover have "wanted tag (fs ! pos iter)" if b and "n = 0"
    using i'(2,3) on_table_cur [OF i'(2)] o that by (auto simp: on_table_def)
  moreover have "\<not> (\<exists>k < n. wanted tag (fs ! k)) \<and> \<not> wanted tag (fs ! pos iter)" if "\<not> b"
    using none [OF that] p by auto
  ultimately have "b \<longleftrightarrow> (\<exists>k < n. wanted tag (fs ! k)) \<or> wanted tag (fs ! pos iter)" by blast
  moreover have "i' = iter" if "\<not> b" using i'(2,4) o that by (simp add: on_table_def)
  ultimately show ?thesis using i' unfolding pb_field_iter_find_def by (intro exI [of _ b] exI [of _ i']) simp
qed

definition demo_field :: "u32 \<Rightarrow> pb_field" where
  "demo_field t = \<lparr>fld_tag = t, fld_type = 1, data_offset = 4, size_offset = 0, data_size = 4, array_size = 0\<rparr>"

theorem pb_field_iter_find_total_witness:
  "\<exists>b iter'. pb_field_iter_find 9 (snd (pb_field_iter_begin [demo_field 1, demo_field 9, PB_LAST_FIELD] 1000)) =
     Some (b, iter') \<and> on_table [demo_field 1, demo_field 9, PB_LAST_FIELD] 2 1000 iter' \<and>
    (b \<longleftrightarrow> (\<exists>k < 2. wanted 9 ([demo_field 1, demo_field 9, PB_LAST_FIELD] ! k)) \<or>
       wanted 9 ([demo_field 1, demo_field 9, PB_LAST_FIELD] ! 0)) \<and>
    (if b then wanted 9 (cur iter')
     else iter' = snd (pb_field_iter_begin [demo_field 1, demo_field 9, PB_LAST_FIELD] 1000))"
proof -
  have "table [demo_field 1, demo_field 9, PB_LAST_FIELD] 2"
    by (simp add: table_def less_2_cases_iff demo_field_def PB_LAST_FIELD_def)
  from pb_field_iter_find_total [OF begin_on_table [OF this, of 1000], of 9]
  show ?thesis by simp
qed

end
