(* ===== verification/Comparator.thy ===== *)
theory Comparator
  imports Prelude
begin

text \<open>
  The contract of a C comparison function, as \<open>qsort\<close> and the stacks of crypto/stack/stack.c rely
  on it: on the objects of a set \<open>A\<close> its sign is that of a total preorder.
\<close>

locale comparator =
  fixes cmp :: "'a \<Rightarrow> 'a \<Rightarrow> int" and A :: "'a set"
  assumes anti: "x \<in> A \<Longrightarrow> y \<in> A \<Longrightarrow> cmp x y < 0 \<longleftrightarrow> 0 < cmp y x"
    and trans: "x \<in> A \<Longrightarrow> y \<in> A \<Longrightarrow> z \<in> A \<Longrightarrow> cmp x y \<le> 0 \<Longrightarrow> cmp y z \<le> 0 \<Longrightarrow> cmp x z \<le> 0"
begin

lemma self [simp]: "x \<in> A \<Longrightarrow> cmp x x = 0"
  using anti [of x x] by linarith

lemma flip: "x \<in> A \<Longrightarrow> y \<in> A \<Longrightarrow> 0 \<le> cmp x y \<longleftrightarrow> cmp y x \<le> 0"
  using anti [of x y] by linarith

lemma zero_sym: "x \<in> A \<Longrightarrow> y \<in> A \<Longrightarrow> cmp x y = 0 \<longleftrightarrow> cmp y x = 0"
  using flip [of x y] flip [of y x] by linarith

lemma ge_trans: "x \<in> A \<Longrightarrow> y \<in> A \<Longrightarrow> z \<in> A \<Longrightarrow> 0 \<le> cmp x y \<Longrightarrow> 0 \<le> cmp y z \<Longrightarrow> 0 \<le> cmp x z"
  using flip trans by blast

lemma less_le_trans: "x \<in> A \<Longrightarrow> y \<in> A \<Longrightarrow> z \<in> A \<Longrightarrow> cmp x y < 0 \<Longrightarrow> cmp y z \<le> 0 \<Longrightarrow> cmp x z < 0"
  using anti flip [of x z] trans [of y z x] by fastforce

lemma le_less_trans: "x \<in> A \<Longrightarrow> y \<in> A \<Longrightarrow> z \<in> A \<Longrightarrow> cmp x y \<le> 0 \<Longrightarrow> cmp y z < 0 \<Longrightarrow> cmp x z < 0"
  using anti flip [of x z] trans [of z x y] by fastforce

lemma subset: "B \<subseteq> A \<Longrightarrow> comparator cmp B"
  by unfold_locales (auto simp: anti subset_iff intro: trans)

end

text \<open>The elements in ascending order.\<close>

definition ascending :: "('a \<Rightarrow> 'a \<Rightarrow> int) \<Rightarrow> 'a list \<Rightarrow> bool" where
  "ascending cmp xs \<longleftrightarrow> sorted_wrt (\<lambda>a b. cmp a b \<le> 0) xs"

lemma ascending_nth: "ascending cmp xs \<Longrightarrow> i < j \<Longrightarrow> j < length xs \<Longrightarrow> cmp (xs ! i) (xs ! j) \<le> 0"
  by (simp add: ascending_def sorted_wrt_iff_nth_less)

lemma ascending_short: "length xs < 2 \<Longrightarrow> ascending cmp xs"
  by (cases xs rule: remdups_adj.cases) (auto simp: ascending_def)

lemma ascending_take: "ascending cmp xs \<Longrightarrow> ascending cmp (take n xs)"
  by (simp add: ascending_def sorted_wrt_take)

lemma ascending_filter: "ascending cmp xs \<Longrightarrow> ascending cmp (filter P xs)"
  by (simp add: ascending_def sorted_wrt_filter)

text \<open>Comparing keys: a comparator on an image is one on the objects.\<close>

lemma comparator_key: "comparator cmp B \<Longrightarrow> f ` A \<subseteq> B \<Longrightarrow> comparator (\<lambda>x y. cmp (f x) (f y)) A"
  unfolding comparator_def by blast

end
