(* ===== verification/Sk_Stack.thy ===== *)
theory Sk_Stack
  imports Mem Comparator "HOL-Library.Multiset"
begin

text \<open>
  crypto/stack/stack.c: the growable arrays of pointers behind \<open>STACK_OF(T)\<close>. Pointers are 64-bit
  words, 0 is NULL; a stack that may be NULL is an option; \<open>data\<close> is the whole allocated array, of
  which the first \<open>num\<close> pointers are valid. A comparison function is a value of a type of function
  pointers \<open>'c\<close>, and the \<open>call_cmp_func\<close> that applies it to two pointers is a parameter, as are
  the free, copy and delete-if functions, which run on a state of their own. \<open>free\<close> has no effect
  on the model of the heap.
\<close>

record 'c stack =
  num :: nat
  data :: "ptr list"
  is_sorted_flag :: bool
  num_alloc :: nat
  comp :: "'c option"

definition kMinSize :: nat where "kMinSize = 4"

definition sizeof_stack :: nat where "sizeof_stack = 40"
definition sizeof_voidp :: nat where "sizeof_voidp = 8"

text \<open>An array of pointers as the bytes of its block, and the other way.\<close>

definition ptr_bytes :: "ptr list \<Rightarrow> u8 list" where
  "ptr_bytes ps = concat (map fixed64_bytes ps)"

fun bytes_ptrs :: "nat \<Rightarrow> u8 list \<Rightarrow> ptr list" where
  "bytes_ptrs 0 bs = []"
| "bytes_ptrs (Suc n) bs = word64_of bs # bytes_ptrs n (drop 8 bs)"

definition OPENSSL_sk_new :: "heap_env \<Rightarrow> 'c option \<Rightarrow> 'c stack option" where
  "OPENSSL_sk_new E cmpf =
     (case OPENSSL_zalloc E sizeof_stack of
        None \<Rightarrow> None
      | Some _ \<Rightarrow>
          (case OPENSSL_calloc E kMinSize sizeof_voidp of
             None \<Rightarrow> None
           | Some blk \<Rightarrow>
               Some \<lparr>num = 0, data = bytes_ptrs kMinSize blk, is_sorted_flag = False, num_alloc = kMinSize, comp = cmpf\<rparr>))"

definition OPENSSL_sk_new_null :: "heap_env \<Rightarrow> 'c stack option" where
  "OPENSSL_sk_new_null E = OPENSSL_sk_new E None"

definition OPENSSL_sk_num :: "'c stack option \<Rightarrow> nat" where
  "OPENSSL_sk_num sk = (case sk of None \<Rightarrow> 0 | Some sk \<Rightarrow> num sk)"

definition OPENSSL_sk_zero :: "'c stack option \<Rightarrow> 'c stack option" where
  "OPENSSL_sk_zero sk =
     (case sk of None \<Rightarrow> None
      | Some sk \<Rightarrow>
          if num sk = 0 then Some sk
          else Some (sk\<lparr>data := replicate (num sk) 0 @ drop (num sk) (data sk), num := 0, is_sorted_flag := False\<rparr>))"

definition OPENSSL_sk_value :: "'c stack option \<Rightarrow> nat \<Rightarrow> ptr" where
  "OPENSSL_sk_value sk i =
     (case sk of None \<Rightarrow> 0 | Some sk \<Rightarrow> if num sk \<le> i then 0 else data sk ! i)"

definition OPENSSL_sk_set :: "'c stack option \<Rightarrow> nat \<Rightarrow> ptr \<Rightarrow> ptr \<times> 'c stack option" where
  "OPENSSL_sk_set sk i value =
     (case sk of None \<Rightarrow> (0, None)
      | Some sk \<Rightarrow> if num sk \<le> i then (0, Some sk) else (value, Some (sk\<lparr>data := (data sk)[i := value]\<rparr>)))"

text \<open>\<open>OPENSSL_sk_pop_free_ex\<close>: the calls of the free function, on the state \<open>'s\<close>.\<close>

fun free_loop :: "(ptr \<Rightarrow> 's \<Rightarrow> 's) \<Rightarrow> ptr list \<Rightarrow> 's \<Rightarrow> 's" where
  "free_loop call_free [] st = st"
| "free_loop call_free (p # ps) st = free_loop call_free ps (if p \<noteq> 0 then call_free p st else st)"

definition OPENSSL_sk_pop_free_ex :: "'c stack option \<Rightarrow> (ptr \<Rightarrow> 's \<Rightarrow> 's) \<Rightarrow> 's \<Rightarrow> 's" where
  "OPENSSL_sk_pop_free_ex sk call_free st =
     (case sk of None \<Rightarrow> st | Some sk \<Rightarrow> free_loop call_free (take (num sk) (data sk)) st)"

text \<open>The growth of the array: the new size in pointers and in bytes, and the overflow checks.\<close>

definition grown_alloc :: "nat \<Rightarrow> (nat \<times> nat) option" where
  "grown_alloc old =
     (let new_alloc = size_wrap (old * 2);
          alloc_size = size_wrap (new_alloc * sizeof_voidp);
          overflow = (new_alloc < old \<or> alloc_size div sizeof_voidp \<noteq> new_alloc);
          new_alloc = (if overflow then size_wrap (old + 1) else new_alloc);
          alloc_size = (if overflow then size_wrap (new_alloc * sizeof_voidp) else alloc_size)
      in if new_alloc < old \<or> alloc_size div sizeof_voidp \<noteq> new_alloc then None else Some (new_alloc, alloc_size))"

definition grow :: "heap_env \<Rightarrow> 'c stack \<Rightarrow> 'c stack option" where
  "grow E sk =
     (if num_alloc sk \<le> num sk + 1 then
        (case grown_alloc (num_alloc sk) of
           None \<Rightarrow> None
         | Some (new_alloc, alloc_size) \<Rightarrow>
             (case OPENSSL_realloc E (Some (ptr_bytes (data sk))) alloc_size of
                None \<Rightarrow> None
              | Some blk \<Rightarrow> Some (sk\<lparr>data := bytes_ptrs new_alloc blk, num_alloc := new_alloc\<rparr>)))
      else Some sk)"

definition OPENSSL_sk_insert :: "heap_env \<Rightarrow> 'c stack option \<Rightarrow> ptr \<Rightarrow> nat \<Rightarrow> nat \<times> 'c stack option" where
  "OPENSSL_sk_insert E sk p where' =
     (case sk of None \<Rightarrow> (0, None)
      | Some sk \<Rightarrow>
          if INT_MAX \<le> num sk then (0, Some sk)
          else
            (case grow E sk of
               None \<Rightarrow> (0, Some sk)
             | Some sk \<Rightarrow>
                 let d = (if num sk \<le> where' then (data sk)[num sk := p]
                          else (take (where' + 1) (data sk) @ take (num sk - where') (drop where' (data sk)) @
                                drop (num sk + 1) (data sk))[where' := p])
                 in (num sk + 1, Some (sk\<lparr>data := d, num := num sk + 1, is_sorted_flag := False\<rparr>))))"

definition OPENSSL_sk_delete :: "'c stack option \<Rightarrow> nat \<Rightarrow> ptr \<times> 'c stack option" where
  "OPENSSL_sk_delete sk where' =
     (case sk of None \<Rightarrow> (0, None)
      | Some sk \<Rightarrow>
          if num sk \<le> where' then (0, Some sk)
          else
            let ret = data sk ! where';
                d = (if where' \<noteq> num sk - 1
                     then take where' (data sk) @ take (num sk - where' - 1) (drop (where' + 1) (data sk)) @
                          drop (num sk - 1) (data sk)
                     else data sk)
            in (ret, Some (sk\<lparr>data := d, num := num sk - 1\<rparr>)))"

text \<open>The index of the first pointer that satisfies a test, from \<open>i\<close> on.\<close>

function first_index :: "(ptr \<Rightarrow> bool) \<Rightarrow> 'c stack \<Rightarrow> nat \<Rightarrow> nat option" where
  "first_index P sk i =
     (if i < num sk then (if P (data sk ! i) then Some i else first_index P sk (i + 1)) else None)"
  by auto
termination by (relation "measure (\<lambda>(P, sk, i). num sk - i)") auto

definition OPENSSL_sk_delete_ptr :: "'c stack option \<Rightarrow> ptr \<Rightarrow> ptr \<times> 'c stack option" where
  "OPENSSL_sk_delete_ptr sk p =
     (case sk of None \<Rightarrow> (0, None)
      | Some s \<Rightarrow> (case first_index (\<lambda>q. q = p) s 0 of None \<Rightarrow> (0, sk) | Some i \<Rightarrow> OPENSSL_sk_delete sk i))"

function delete_if_loop :: "(ptr \<Rightarrow> 's \<Rightarrow> bool \<times> 's) \<Rightarrow> nat \<Rightarrow> nat \<Rightarrow> nat \<Rightarrow> ptr list \<Rightarrow> 's \<Rightarrow> nat \<times> ptr list \<times> 's" where
  "delete_if_loop f n i new_num d st =
     (if i < n then
        (case f (d ! i) st of (del, st) \<Rightarrow>
           if \<not> del then delete_if_loop f n (i + 1) (new_num + 1) (d[new_num := d ! i]) st
           else delete_if_loop f n (i + 1) new_num d st)
      else (new_num, d, st))"
  by auto
termination by (relation "measure (\<lambda>(f, n, i, new_num, d, st). n - i)") auto

definition OPENSSL_sk_delete_if :: "'c stack option \<Rightarrow> (ptr \<Rightarrow> 's \<Rightarrow> bool \<times> 's) \<Rightarrow> 's \<Rightarrow> 'c stack option \<times> 's" where
  "OPENSSL_sk_delete_if sk f st =
     (case sk of None \<Rightarrow> (None, st)
      | Some sk \<Rightarrow>
          (case delete_if_loop f (num sk) 0 0 (data sk) st of
             (n, d, st) \<Rightarrow> (Some (sk\<lparr>data := d, num := n\<rparr>), st)))"

definition OPENSSL_sk_is_sorted :: "'c stack option \<Rightarrow> bool" where
  "OPENSSL_sk_is_sorted sk =
     (case sk of None \<Rightarrow> True | Some sk \<Rightarrow> is_sorted_flag sk \<or> comp sk \<noteq> None \<and> num sk < 2)"

text \<open>The binary search of \<open>OPENSSL_sk_find\<close> on the half-open interval from \<open>lo\<close> to \<open>hi\<close>.\<close>

function search_loop :: "('a \<Rightarrow> 'a \<Rightarrow> int) \<Rightarrow> 'a \<Rightarrow> 'a list \<Rightarrow> nat \<Rightarrow> nat \<Rightarrow> nat option" where
  "search_loop cmp p d lo hi =
     (if lo < hi then
        let mid = lo + (hi - lo - 1) div 2;
            r = cmp p (d ! mid)
        in if 0 < r then search_loop cmp p d (mid + 1) hi
           else if r < 0 then search_loop cmp p d lo mid
           else if hi - lo = 1 then Some mid
           else search_loop cmp p d lo (mid + 1)
      else None)"
  by auto
termination
proof (relation "measure (\<lambda>(cmp, p, d, lo, hi). hi - lo)", goal_cases)
  case (4 cmp p d lo hi mid r)
  then have "mid + 1 < hi" by linarith
  then show ?case using 4 by (auto simp: less_diff_conv)
qed (auto simp: Let_def)

text \<open>The result is the index found, if any; the output pointer may be NULL.\<close>

definition OPENSSL_sk_find :: "('c \<Rightarrow> ptr \<Rightarrow> ptr \<Rightarrow> int) \<Rightarrow> 'c stack option \<Rightarrow> ptr \<Rightarrow> nat option" where
  "OPENSSL_sk_find call_cmp_func sk p =
     (case sk of None \<Rightarrow> None
      | Some s \<Rightarrow>
          (case comp s of
             None \<Rightarrow> first_index (\<lambda>q. q = p) s 0
           | Some c \<Rightarrow>
               if p = 0 then None
               else if \<not> OPENSSL_sk_is_sorted sk then first_index (\<lambda>q. call_cmp_func c p q = 0) s 0
               else search_loop (call_cmp_func c) p (data s) 0 (num s)))"

definition OPENSSL_sk_shift :: "'c stack option \<Rightarrow> ptr \<times> 'c stack option" where
  "OPENSSL_sk_shift sk =
     (case sk of None \<Rightarrow> (0, None) | Some s \<Rightarrow> if num s = 0 then (0, sk) else OPENSSL_sk_delete sk 0)"

definition OPENSSL_sk_push :: "heap_env \<Rightarrow> 'c stack \<Rightarrow> ptr \<Rightarrow> nat \<times> 'c stack option" where
  "OPENSSL_sk_push E sk p = OPENSSL_sk_insert E (Some sk) p (num sk)"

definition OPENSSL_sk_pop :: "'c stack option \<Rightarrow> ptr \<times> 'c stack option" where
  "OPENSSL_sk_pop sk =
     (case sk of None \<Rightarrow> (0, None) | Some s \<Rightarrow> if num s = 0 then (0, sk) else OPENSSL_sk_delete sk (num s - 1))"

definition OPENSSL_sk_dup :: "heap_env \<Rightarrow> 'c stack option \<Rightarrow> 'c stack option" where
  "OPENSSL_sk_dup E sk =
     (case sk of None \<Rightarrow> None
      | Some sk \<Rightarrow>
          (case OPENSSL_zalloc E sizeof_stack of
             None \<Rightarrow> None
           | Some _ \<Rightarrow>
               (case OPENSSL_memdup E (ptr_bytes (data sk)) (size_wrap (sizeof_voidp * num_alloc sk)) of
                  None \<Rightarrow> None
                | Some blk \<Rightarrow>
                    Some \<lparr>num = num sk, data = bytes_ptrs (num_alloc sk) blk, is_sorted_flag = is_sorted_flag sk,
                      num_alloc = num_alloc sk, comp = comp sk\<rparr>)))"

definition OPENSSL_sk_set_cmp_func :: "'c stack \<Rightarrow> 'c option \<Rightarrow> 'c option \<times> 'c stack" where
  "OPENSSL_sk_set_cmp_func sk c =
     (let old = comp sk;
          sk = (if comp sk \<noteq> c then sk\<lparr>is_sorted_flag := False\<rparr> else sk)
      in (old, sk\<lparr>comp := c\<rparr>))"

text \<open>The copies of a deep copy; on failure the state in which the copies made were freed.\<close>

function copy_loop ::
  "(ptr \<Rightarrow> 's \<Rightarrow> ptr \<times> 's) \<Rightarrow> (ptr \<Rightarrow> 's \<Rightarrow> 's) \<Rightarrow> nat \<Rightarrow> nat \<Rightarrow> ptr list \<Rightarrow> 's \<Rightarrow> ptr list option \<times> 's" where
  "copy_loop copyf freef n i d st =
     (if i < n then
        if d ! i = 0 then copy_loop copyf freef n (i + 1) d st
        else
          (case copyf (d ! i) st of (p, st) \<Rightarrow>
             if p = 0 then (None, free_loop freef (take i d) st)
             else copy_loop copyf freef n (i + 1) (d[i := p]) st)
      else (Some d, st))"
  by auto
termination by (relation "measure (\<lambda>(copyf, freef, n, i, d, st). n - i)") auto

definition OPENSSL_sk_deep_copy ::
  "heap_env \<Rightarrow> 'c stack option \<Rightarrow> (ptr \<Rightarrow> 's \<Rightarrow> ptr \<times> 's) \<Rightarrow> (ptr \<Rightarrow> 's \<Rightarrow> 's) \<Rightarrow> 's \<Rightarrow> 'c stack option \<times> 's" where
  "OPENSSL_sk_deep_copy E sk copyf freef st =
     (case OPENSSL_sk_dup E sk of
        None \<Rightarrow> (None, st)
      | Some ret \<Rightarrow>
          (case copy_loop copyf freef (num ret) 0 (data ret) st of
             (None, st) \<Rightarrow> (None, st)
           | (Some d, st) \<Rightarrow> (Some (ret\<lparr>data := d\<rparr>), st)))"

subsection \<open>Heap sort\<close>

definition parent_idx :: "nat \<Rightarrow> nat" where "parent_idx idx = (idx - 1) div 2"

text \<open>An index is at most \<open>PTRDIFF_MAX\<close>, so the doubling does not wrap.\<close>

definition left_idx :: "nat \<Rightarrow> nat" where "left_idx idx = 2 * idx + 1"

function down_heap :: "('a \<Rightarrow> 'a \<Rightarrow> int) \<Rightarrow> nat \<Rightarrow> nat \<Rightarrow> 'a list \<Rightarrow> 'a list" where
  "down_heap cmp i n d =
     (let left = left_idx i in
      if n \<le> left then d
      else
        let next = (if cmp (d ! i) (d ! left) < 0 then left else i);
            right = left + 1;
            next = (if right < n \<and> cmp (d ! next) (d ! right) < 0 then right else next)
        in if i = next then d else down_heap cmp next n (d[i := d ! next, next := d ! i]))"
  by auto
termination by (relation "measure (\<lambda>(cmp, i, n, d). n - i)") (auto simp: left_idx_def Let_def split: if_splits)

text \<open>The first loop counts down to 0; its index then wraps above \<open>num\<close>.\<close>

fun build_heap :: "('a \<Rightarrow> 'a \<Rightarrow> int) \<Rightarrow> nat \<Rightarrow> nat \<Rightarrow> 'a list \<Rightarrow> 'a list" where
  "build_heap cmp 0 n d = down_heap cmp 0 n d"
| "build_heap cmp (Suc i) n d = build_heap cmp i n (down_heap cmp (Suc i) n d)"

fun extract_loop :: "('a \<Rightarrow> 'a \<Rightarrow> int) \<Rightarrow> nat \<Rightarrow> 'a list \<Rightarrow> 'a list" where
  "extract_loop cmp 0 d = d"
| "extract_loop cmp (Suc i) d = extract_loop cmp i (down_heap cmp 0 (Suc i) (d[0 := d ! Suc i, Suc i := d ! 0]))"

definition OPENSSL_sk_sort :: "('c \<Rightarrow> ptr \<Rightarrow> ptr \<Rightarrow> int) \<Rightarrow> 'c stack option \<Rightarrow> 'c stack option" where
  "OPENSSL_sk_sort call_cmp_func sk =
     (case sk of None \<Rightarrow> None
      | Some s \<Rightarrow>
          (case comp s of
             None \<Rightarrow> sk
           | Some c \<Rightarrow>
               if is_sorted_flag s then sk
               else
                 let d = (if 2 \<le> num s
                          then extract_loop (call_cmp_func c) (num s - 1)
                                 (build_heap (call_cmp_func c) (parent_idx (num s - 1)) (num s) (data s))
                          else data s)
                 in Some (s\<lparr>data := d, is_sorted_flag := True\<rparr>)))"

declare first_index.simps [simp del] delete_if_loop.simps [simp del] search_loop.simps [simp del]
  copy_loop.simps [simp del] down_heap.simps [simp del]

subsection \<open>Heap sort sorts\<close>

definition heap_at :: "('a \<Rightarrow> 'a \<Rightarrow> int) \<Rightarrow> nat \<Rightarrow> 'a list \<Rightarrow> nat \<Rightarrow> bool" where
  "heap_at cmp n d i \<longleftrightarrow> (\<forall>c. c = 2 * i + 1 \<or> c = 2 * i + 2 \<longrightarrow> c < n \<longrightarrow> 0 \<le> cmp (d ! i) (d ! c))"

text \<open>The index that takes the place of \<open>i\<close>.\<close>

definition sift_to :: "('a \<Rightarrow> 'a \<Rightarrow> int) \<Rightarrow> nat \<Rightarrow> nat \<Rightarrow> 'a list \<Rightarrow> nat" where
  "sift_to cmp i n d =
     (let nx1 = (if cmp (d ! i) (d ! left_idx i) < 0 then left_idx i else i)
      in if left_idx i + 1 < n \<and> cmp (d ! nx1) (d ! (left_idx i + 1)) < 0 then left_idx i + 1 else nx1)"

lemma down_heap_step:
  "down_heap cmp i n d =
     (if n \<le> left_idx i \<or> sift_to cmp i n d = i then d
      else down_heap cmp (sift_to cmp i n d) n (d[i := d ! sift_to cmp i n d, sift_to cmp i n d := d ! i]))"
  by (subst down_heap.simps) (auto simp: sift_to_def Let_def)

lemma sift_to_child:
  "\<not> (n \<le> left_idx i \<or> sift_to cmp i n d = i) \<Longrightarrow>
   sift_to cmp i n d < n \<and> (sift_to cmp i n d = 2 * i + 1 \<or> sift_to cmp i n d = 2 * i + 2)"
  by (auto simp: sift_to_def left_idx_def Let_def split: if_splits)

lemma down_heap_props:
  "i < n \<Longrightarrow> n \<le> length d \<Longrightarrow>
   length (down_heap cmp i n d) = length d \<and> mset (down_heap cmp i n d) = mset d \<and>
   (\<forall>j. n \<le> j \<longrightarrow> down_heap cmp i n d ! j = d ! j)"
proof (induction "n - i" arbitrary: i d rule: less_induct)
  case (less i d)
  define nx where "nx = sift_to cmp i n d"
  show ?case
  proof (cases "n \<le> left_idx i \<or> nx = i")
    case True
    then have "down_heap cmp i n d = d" by (subst down_heap_step) (simp add: nx_def)
    then show ?thesis by simp
  next
    case False
    let ?d = "d[i := d ! nx, nx := d ! i]"
    from False have n: "nx < n" "n - nx < n - i" using sift_to_child [of n i cmp d] by (auto simp: nx_def)
    have e: "down_heap cmp i n d = down_heap cmp nx n ?d" using False by (subst down_heap_step) (simp add: nx_def)
    have "mset ?d = mset d" using mset_swap [of nx d i] less.prems n by simp
    with less.hyps [OF n(2) n(1), of ?d] less.prems e n show ?thesis by simp
  qed
qed

lemmas down_heap_length = down_heap_props [THEN conjunct1]
lemmas down_heap_mset = down_heap_props [THEN conjunct2, THEN conjunct1]
lemmas down_heap_above = down_heap_props [THEN conjunct2, THEN conjunct2, rule_format]

context comparator begin

lemma sift_to_greater:
  assumes "i < n" "n \<le> length d" "set d \<subseteq> A" and m: "\<not> (n \<le> left_idx i \<or> sift_to cmp i n d = i)"
  shows "0 < cmp (d ! sift_to cmp i n d) (d ! i)"
proof -
  have inA: "d ! m \<in> A" if "m < n" for m using assms(2,3) that by (meson nth_mem order_less_le_trans subset_iff)
  have "cmp (d ! i) (d ! sift_to cmp i n d) < 0"
  proof (cases "cmp (d ! i) (d ! left_idx i) < 0")
    case True
    then show ?thesis
      using m inA assms(1) less_le_trans [of "d ! i" "d ! left_idx i" "d ! (left_idx i + 1)"]
      by (auto simp: sift_to_def Let_def)
  next
    case False
    then show ?thesis using m by (auto simp: sift_to_def Let_def split: if_splits)
  qed
  then show ?thesis using anti inA assms(1) sift_to_child [OF m] by blast
qed

lemma sift_to_max:
  assumes "i < n" "n \<le> length d" "set d \<subseteq> A" and m: "\<not> (n \<le> left_idx i \<or> sift_to cmp i n d = i)"
    and c: "c = 2 * i + 1 \<or> c = 2 * i + 2" "c < n"
  shows "0 \<le> cmp (d ! sift_to cmp i n d) (d ! c)"
proof -
  have inA: "d ! m \<in> A" if "m < n" for m using assms(2,3) that by (meson nth_mem order_less_le_trans subset_iff)
  have l: "left_idx i = 2 * i + 1" by (simp add: left_idx_def)
  have gt: "0 < cmp (d ! sift_to cmp i n d) (d ! i)" by (rule sift_to_greater [OF assms(1,2,3) m])
  note ch = sift_to_child [OF m]
  consider "c = sift_to cmp i n d" | "c = left_idx i" "sift_to cmp i n d = left_idx i + 1"
    | "c = left_idx i + 1" "sift_to cmp i n d = left_idx i" using c ch l by auto
  then show ?thesis
  proof cases
    case 1
    then show ?thesis using inA ch by simp
  next
    case 2
    have "cmp (d ! c) (d ! sift_to cmp i n d) \<le> 0"
    proof (cases "cmp (d ! i) (d ! left_idx i) < 0")
      case True
      then show ?thesis using 2 by (auto simp: sift_to_def Let_def split: if_splits)
    next
      case False
      then have "cmp (d ! c) (d ! i) \<le> 0" using 2 flip [of "d ! i" "d ! c"] inA c assms(1) by simp
      moreover have "cmp (d ! i) (d ! sift_to cmp i n d) \<le> 0"
        using gt flip [of "d ! sift_to cmp i n d" "d ! i"] inA ch assms(1) by simp
      ultimately show ?thesis using trans inA c ch assms(1) by blast
    qed
    then show ?thesis using flip inA c ch by blast
  next
    case 3
    then show ?thesis using c(2) by (auto simp: sift_to_def Let_def split: if_splits)
  qed
qed

text \<open>Sifting down from \<open>i\<close> repairs a heap that is broken at most at \<open>i\<close>.\<close>

lemma down_heap_heap:
  assumes "i < n" and "n \<le> length d" and "set d \<subseteq> A" and "k \<le> i"
    and "\<And>j. k \<le> j \<Longrightarrow> j \<noteq> i \<Longrightarrow> heap_at cmp n d j"
    and "\<And>p c. k \<le> p \<Longrightarrow> i = 2 * p + 1 \<or> i = 2 * p + 2 \<Longrightarrow> c = 2 * i + 1 \<or> c = 2 * i + 2 \<Longrightarrow> c < n \<Longrightarrow>
      0 \<le> cmp (d ! p) (d ! c)"
    and "k \<le> j"
  shows "heap_at cmp n (down_heap cmp i n d) j"
  using assms
proof (induction "n - i" arbitrary: i d j rule: less_induct)
  case (less i d j)
  define nx where "nx = sift_to cmp i n d"
  have inA: "d ! m \<in> A" if "m < n" for m using less.prems(2,3) that by (meson nth_mem order_less_le_trans subset_iff)
  show ?case
  proof (cases "n \<le> left_idx i \<or> nx = i")
    case True
    then have e: "down_heap cmp i n d = d" by (subst down_heap_step) (simp add: nx_def)
    have "heap_at cmp n d i"
      using True by (auto simp: heap_at_def nx_def sift_to_def left_idx_def Let_def split: if_splits)
    then show ?thesis using e less.prems(5,7) by (cases "j = i") auto
  next
    case False
    let ?d = "d[i := d ! nx, nx := d ! i]"
    have n: "nx < n" "nx = 2 * i + 1 \<or> nx = 2 * i + 2"
      using sift_to_child [of n i cmp d] False by (auto simp: nx_def)
    have gt: "0 < cmp (d ! nx) (d ! i)" using sift_to_greater [OF less.prems(1,2,3)] False by (simp add: nx_def)
    have max: "0 \<le> cmp (d ! nx) (d ! c)" if "c = 2 * i + 1 \<or> c = 2 * i + 2" "c < n" for c
      using sift_to_max [OF less.prems(1,2,3) _ that] False by (simp add: nx_def)
    have len: "i < length d" "nx < length d" "i \<noteq> nx" using less.prems(1,2) n by auto
    have at: "?d ! i = d ! nx" "?d ! nx = d ! i" "m \<noteq> i \<Longrightarrow> m \<noteq> nx \<Longrightarrow> ?d ! m = d ! m" for m using len by auto
    have e: "down_heap cmp i n d = down_heap cmp nx n ?d"
      using False by (subst down_heap_step) (simp add: nx_def)
    have sub: "set ?d \<subseteq> A" using less.prems(1,2,3) n inA
      by (meson order_less_le_trans set_update_subsetI)
    show ?thesis unfolding e
    proof (rule less.hyps)
      show "n - nx < n - i" using n by auto
      show "nx < n" "n \<le> length ?d" "set ?d \<subseteq> A" "k \<le> nx" "k \<le> j" using n less.prems sub by auto
    next
      fix m assume m: "k \<le> m" "m \<noteq> nx"
      show "heap_at cmp n ?d m" unfolding heap_at_def
      proof (intro allI impI)
        fix c assume c: "c = 2 * m + 1 \<or> c = 2 * m + 2" "c < n"
        show "0 \<le> cmp (?d ! m) (?d ! c)"
        proof (cases "m = i")
          case True
          show ?thesis
          proof (cases "c = nx")
            case True
            then show ?thesis using \<open>m = i\<close> at gt by simp
          next
            case False
            have "c \<noteq> i" using c(1) \<open>m = i\<close> by auto
            then show ?thesis using \<open>m = i\<close> False at(1) at(3) [of c] max c by simp
          qed
        next
          case False
          have cn: "c \<noteq> nx" using c(1) n(2) False by auto
          show ?thesis
          proof (cases "c = i")
            case True
            then show ?thesis using less.prems(6) [of m nx] c n m at(1) at(3) [OF False m(2)] by simp
          next
            case ci: False
            have "0 \<le> cmp (d ! m) (d ! c)" using less.prems(5) [OF m(1) False] c unfolding heap_at_def by blast
            then show ?thesis using at(3) [OF False m(2)] at(3) [OF ci cn] by simp
          qed
        qed
      qed
    next
      fix p c assume p: "k \<le> p" "nx = 2 * p + 1 \<or> nx = 2 * p + 2" "c = 2 * nx + 1 \<or> c = 2 * nx + 2" "c < n"
      then have pi: "p = i" using n(2) by auto
      have "c \<noteq> i" "c \<noteq> nx" using p(3) n(2) by auto
      then have "?d ! c = d ! c" by (rule at(3))
      moreover have "heap_at cmp n d nx" using less.prems(5) [of nx] n less.prems(4) by auto
      moreover from this have "0 \<le> cmp (d ! nx) (d ! c)" using p(3,4) unfolding heap_at_def by blast
      ultimately show "0 \<le> cmp (?d ! p) (?d ! c)" using pi at(1) by simp
    qed
  qed
qed

end

context comparator begin

lemma build_heap_props:
  "i < n \<Longrightarrow> n \<le> length d \<Longrightarrow> set d \<subseteq> A \<Longrightarrow> (\<And>j. i < j \<Longrightarrow> heap_at cmp n d j) \<Longrightarrow>
   length (build_heap cmp i n d) = length d \<and> mset (build_heap cmp i n d) = mset d \<and>
   (\<forall>j. n \<le> j \<longrightarrow> build_heap cmp i n d ! j = d ! j) \<and> (\<forall>j. heap_at cmp n (build_heap cmp i n d) j)"
proof (induction i arbitrary: d)
  case (0 d)
  have "heap_at cmp n (down_heap cmp 0 n d) j" for j
    by (rule down_heap_heap [where k = 0]) (use 0 in auto)
  then show ?case using 0 by (simp add: down_heap_length down_heap_mset down_heap_above)
next
  case (Suc i d)
  let ?d = "down_heap cmp (Suc i) n d"
  have h: "heap_at cmp n ?d j" if "i < j" for j
    by (rule down_heap_heap [where k = "Suc i"]) (use Suc.prems that in auto)
  have "set ?d \<subseteq> A" using Suc.prems by (metis down_heap_mset mset_eq_setD)
  with Suc.IH [of ?d] h Suc.prems show ?case by (simp add: down_heap_length down_heap_mset down_heap_above)
qed

lemma heap_root_max:
  assumes h: "\<And>j. heap_at cmp n d j" and "n \<le> length d" "set d \<subseteq> A"
  shows "j < n \<Longrightarrow> 0 \<le> cmp (d ! 0) (d ! j)"
proof (induction j rule: less_induct)
  case (less j)
  have inA: "d ! m \<in> A" if "m < n" for m using assms(2,3) that by (meson nth_mem order_less_le_trans subset_iff)
  show ?case
  proof (cases "j = 0")
    case True
    then show ?thesis using inA less.prems by simp
  next
    case False
    let ?p = "parent_idx j"
    have p: "?p < j" "j = 2 * ?p + 1 \<or> j = 2 * ?p + 2" using False by (auto simp: parent_idx_def)
    have "0 \<le> cmp (d ! ?p) (d ! j)" using h [of ?p] p(2) less.prems unfolding heap_at_def by blast
    moreover have "0 \<le> cmp (d ! 0) (d ! ?p)" using less p(1) by simp
    moreover have "d ! 0 \<in> A" "d ! ?p \<in> A" "d ! j \<in> A" using inA less.prems p(1) by auto
    ultimately show ?thesis using ge_trans by blast
  qed
qed

text \<open>After \<open>n - 1 - i\<close> rounds the pointers above \<open>i\<close> are in order and none below is greater.\<close>

lemma extract_loop_props:
  "i < n \<Longrightarrow> n \<le> length d \<Longrightarrow> set d \<subseteq> A \<Longrightarrow> (\<And>j. heap_at cmp (Suc i) d j) \<Longrightarrow>
   (\<And>j k. i < j \<Longrightarrow> j < k \<Longrightarrow> k < n \<Longrightarrow> cmp (d ! j) (d ! k) \<le> 0) \<Longrightarrow>
   (\<And>j k. j \<le> i \<Longrightarrow> i < k \<Longrightarrow> k < n \<Longrightarrow> cmp (d ! j) (d ! k) \<le> 0) \<Longrightarrow>
   length (extract_loop cmp i d) = length d \<and> mset (extract_loop cmp i d) = mset d \<and>
   (\<forall>j. n \<le> j \<longrightarrow> extract_loop cmp i d ! j = d ! j) \<and>
   (\<forall>j k. j < k \<longrightarrow> k < n \<longrightarrow> cmp (extract_loop cmp i d ! j) (extract_loop cmp i d ! k) \<le> 0)"
proof (induction i arbitrary: d)
  case (0 d)
  have "cmp (d ! j) (d ! k) \<le> 0" if "j < k" "k < n" for j k
    using 0(5) [of j k] 0(6) [of j k] that by (cases j) auto
  then show ?case by simp
next
  case (Suc i d)
  let ?s = "d[0 := d ! Suc i, Suc i := d ! 0]"
  let ?d = "down_heap cmp 0 (Suc i) ?s"
  have len: "0 < Suc i" "Suc i \<le> length ?s" using Suc.prems by auto
  have ms: "mset ?s = mset d" by (rule mset_swap) (use Suc.prems(1,2) in auto)
  have sA: "set ?s \<subseteq> A" using ms Suc.prems(3) by (metis mset_eq_setD)
  have "d \<noteq> []" using Suc.prems(1,2) by auto
  then have s_at: "?s ! 0 = d ! Suc i" "?s ! Suc i = d ! 0" "m \<noteq> 0 \<Longrightarrow> m \<noteq> Suc i \<Longrightarrow> ?s ! m = d ! m" for m
    using Suc.prems(1,2) by auto
  have heap: "heap_at cmp (Suc i) ?d j" for j
  proof (rule down_heap_heap [OF len sA, where k = 0])
    fix m :: nat assume "m \<noteq> 0"
    then show "heap_at cmp (Suc i) ?s m" using Suc.prems(4) [of m] by (auto simp: heap_at_def s_at(3))
  qed auto
  note dp = down_heap_props [OF len, of cmp]
  have above: "?d ! m = ?s ! m" if "Suc i \<le> m" for m using dp that by blast
  have top: "?d ! Suc i = d ! 0" using above [of "Suc i"] s_at(2) by simp
  have rest: "?d ! m = d ! m" if "Suc i < m" for m using above [of m] s_at(3) [of m] that by simp
  have low: "\<exists>k \<le> Suc i. ?d ! j = d ! k" if "j \<le> i" for j
  proof -
    have split: "mset (take k xs) + mset (drop k xs) = mset xs" for k and xs :: "'a list"
      by (simp flip: mset_append)
    have "mset (take (Suc i) ?d) + mset (drop (Suc i) ?d) = mset (take (Suc i) ?s) + mset (drop (Suc i) ?s)"
      unfolding split using dp by blast
    moreover have "drop (Suc i) ?d = drop (Suc i) ?s" using dp by (auto intro: nth_equalityI)
    ultimately have "set (take (Suc i) ?d) = set (take (Suc i) ?s)" by (metis add_right_cancel mset_eq_setD)
    moreover have "?d ! j \<in> set (take (Suc i) ?d)"
      using that dp len nth_mem [of j "take (Suc i) ?d"] by simp
    ultimately have "?d ! j \<in> set (take (Suc i) ?s)" by simp
    then obtain m where m: "m < Suc i" "?d ! j = ?s ! m" using len by (auto simp: in_set_conv_nth)
    show ?thesis
    proof (cases "m = 0")
      case True
      then show ?thesis using m s_at(1) by (intro exI [of _ "Suc i"]) simp
    next
      case False
      then show ?thesis using m s_at(3) [of m] by (intro exI [of _ m]) auto
    qed
  qed
  have root: "cmp (d ! m) (d ! 0) \<le> 0" if "m \<le> Suc i" for m
  proof -
    have inA: "d ! m \<in> A" "d ! 0 \<in> A" using Suc.prems(1,2,3) that \<open>d \<noteq> []\<close> nth_mem [of m d] nth_mem [of 0 d] by auto
    have "0 \<le> cmp (d ! 0) (d ! m)"
      by (rule heap_root_max [of "Suc (Suc i)"]) (use Suc.prems that in auto)
    then show ?thesis using flip inA by blast
  qed
  have "length (extract_loop cmp i ?d) = length ?d \<and> mset (extract_loop cmp i ?d) = mset ?d \<and>
      (\<forall>j. n \<le> j \<longrightarrow> extract_loop cmp i ?d ! j = ?d ! j) \<and>
      (\<forall>j k. j < k \<longrightarrow> k < n \<longrightarrow> cmp (extract_loop cmp i ?d ! j) (extract_loop cmp i ?d ! k) \<le> 0)"
  proof (rule Suc.IH)
    show "i < n" "n \<le> length ?d" using Suc.prems(1,2) dp by auto
    show "set ?d \<subseteq> A" using sA dp by (metis mset_eq_setD)
    show "heap_at cmp (Suc i) ?d j" for j by (rule heap)
  next
    fix j k assume jk: "i < j" "j < k" "k < n"
    show "cmp (?d ! j) (?d ! k) \<le> 0"
    proof (cases "j = Suc i")
      case True
      then show ?thesis using Suc.prems(6) [of 0 k] jk top rest [of k] by simp
    next
      case False
      then show ?thesis using Suc.prems(5) [of j k] jk rest [of j] rest [of k] by simp
    qed
  next
    fix j k assume jk: "j \<le> i" "i < k" "k < n"
    from low [OF jk(1)] obtain m where m: "m \<le> Suc i" "?d ! j = d ! m" by blast
    show "cmp (?d ! j) (?d ! k) \<le> 0"
    proof (cases "k = Suc i")
      case True
      then show ?thesis using m root [of m] top by simp
    next
      case False
      then show ?thesis using m Suc.prems(6) [of m k] jk rest [of k] by simp
    qed
  qed
  then show ?case using dp ms rest Suc.prems(1) by simp
qed

end

subsection \<open>Sorting and searching a stack\<close>

text \<open>The valid pointers.\<close>

definition elems :: "'c stack \<Rightarrow> ptr list" where
  "elems sk = take (num sk) (data sk)"

context comparator begin

lemma heap_sort:
  assumes "2 \<le> n" "n \<le> length d" "set d \<subseteq> A"
  defines "r \<equiv> extract_loop cmp (n - 1) (build_heap cmp (parent_idx (n - 1)) n d)"
  shows "length r = length d \<and> mset (take n r) = mset (take n d) \<and> drop n r = drop n d \<and> ascending cmp (take n r)"
proof -
  let ?p = "parent_idx (n - 1)"
  let ?h = "build_heap cmp ?p n d"
  have p: "?p < n" using assms(1) by (simp add: parent_idx_def)
  have leaf: "heap_at cmp n d j" if "?p < j" for j
  proof -
    have "n \<le> 2 * j + 1" using that assms(1) unfolding parent_idx_def by linarith
    then show ?thesis by (auto simp: heap_at_def)
  qed
  note b = build_heap_props [OF p assms(2,3) leaf]
  have "set ?h \<subseteq> A" using b assms(3) by (metis mset_eq_setD)
  moreover have "heap_at cmp (Suc (n - 1)) ?h j" for j using b assms(1) by simp
  ultimately have e: "length r = length ?h \<and> mset r = mset ?h \<and> (\<forall>j. n \<le> j \<longrightarrow> r ! j = ?h ! j) \<and>
      (\<forall>j k. j < k \<longrightarrow> k < n \<longrightarrow> cmp (r ! j) (r ! k) \<le> 0)"
    unfolding r_def by (intro extract_loop_props [of "n - 1" n]) (use assms(1,2) b in auto)
  have l: "length r = length d" and m: "mset r = mset d" using e b by simp_all
  have dr: "drop n r = drop n d" using e b by (auto intro!: nth_equalityI)
  have split: "mset (take n xs) + mset (drop n xs) = mset xs" for xs :: "'a list" by (simp flip: mset_append)
  have "mset (take n r) = mset (take n d)" using split [of r] split [of d] m dr by (metis add_right_cancel)
  moreover have "ascending cmp (take n r)"
    using e by (simp add: ascending_def sorted_wrt_iff_nth_less)
  ultimately show ?thesis using l dr by simp
qed

end

lemma first_index_find:
  "first_index P sk i = find (\<lambda>j. P (data sk ! j)) [i..<num sk]"
proof (induction P sk i rule: first_index.induct)
  case (1 P sk i)
  then show ?case by (subst first_index.simps) (simp add: upt_conv_Cons)
qed

lemma find_append:
  "find P (xs @ ys) = (case find P xs of None \<Rightarrow> find P ys | Some x \<Rightarrow> Some x)"
  by (induction xs) auto

lemma find_upt_split: "m \<le> k \<Longrightarrow> k \<le> n \<Longrightarrow>
  find P [m..<n] = (case find P [m..<k] of None \<Rightarrow> find P [k..<n] | Some x \<Rightarrow> Some x)"
  by (metis find_append le_add_diff_inverse upt_add_eq_append)

context comparator begin

text \<open>The binary search finds what a scan of the interval finds: the first match.\<close>

lemma search_loop_find:
  assumes asc: "ascending cmp (take n d)" and A: "set (take n d) \<subseteq> A" "p \<in> A" and n: "n \<le> length d" "hi \<le> n"
  shows "search_loop cmp p d lo hi = find (\<lambda>j. cmp p (d ! j) = 0) [lo..<hi]"
  using n(2)
proof (induction "hi - lo" arbitrary: lo hi rule: less_induct)
  case (less lo hi)
  let ?P = "\<lambda>j. cmp p (d ! j) = 0"
  have inA: "d ! j \<in> A" if "j < n" for j using A(1) n(1) that nth_mem [of j "take n d"] by auto
  have le: "cmp (d ! i) (d ! j) \<le> 0" if "i \<le> j" "j < n" for i j
    using ascending_nth [OF asc, of i j] that n(1) inA [OF that(2)] by (cases "i = j") auto
  define mid where "mid = lo + (hi - lo - 1) div 2"
  show ?case
  proof (cases "lo < hi")
    case False
    then show ?thesis by (subst search_loop.simps) simp
  next
    case True
    have mid: "lo \<le> mid" "mid < hi" "mid < n" using True less.prems unfolding mid_def by linarith+
    consider (low) "0 < cmp p (d ! mid)" | (high) "cmp p (d ! mid) < 0" | (eq) "cmp p (d ! mid) = 0" by linarith
    then show ?thesis
    proof cases
      case low
      have "0 < cmp p (d ! j)" if "j < mid + 1" for j
      proof -
        have "cmp (d ! mid) p < 0" using low anti inA [OF mid(3)] A(2) by blast
        then have "cmp (d ! j) p < 0" using le_less_trans [OF inA inA A(2) le, of j mid] that mid(3) by simp
        then show ?thesis using anti inA that mid(3) A(2) by simp
      qed
      then have "find ?P [lo..<mid + 1] = None" unfolding find_None_iff
        by (metis atLeastLessThan_iff less_irrefl set_upt)
      then have "find ?P [lo..<hi] = find ?P [mid + 1..<hi]" using find_upt_split [of lo "mid + 1" hi ?P] mid by simp
      moreover have "search_loop cmp p d lo hi = search_loop cmp p d (mid + 1) hi"
        using True low by (subst search_loop.simps) (simp add: Let_def mid_def)
      moreover have "search_loop cmp p d (mid + 1) hi = find ?P [mid + 1..<hi]"
        by (rule less.hyps) (use mid less.prems in auto)
      ultimately show ?thesis by simp
    next
      case high
      have "cmp p (d ! j) < 0" if "mid \<le> j" "j < n" for j
        using less_le_trans [OF A(2) inA inA high le] that mid(3) by simp
      then have "find ?P [mid..<hi] = None" unfolding find_None_iff using less.prems
        by (metis atLeastLessThan_iff less_irrefl order_less_le_trans set_upt)
      then have "find ?P [lo..<hi] = find ?P [lo..<mid]"
        using find_upt_split [of lo mid hi ?P] mid by (simp split: option.splits)
      moreover have "search_loop cmp p d lo hi = search_loop cmp p d lo mid"
        using True high by (subst search_loop.simps) (simp add: Let_def mid_def)
      moreover have "search_loop cmp p d lo mid = find ?P [lo..<mid]"
        by (rule less.hyps) (use mid less.prems in auto)
      ultimately show ?thesis by simp
    next
      case eq
      show ?thesis
      proof (cases "hi - lo = 1")
        case True
        then have "mid = lo" "hi = Suc lo" using \<open>lo < hi\<close> by (simp_all add: mid_def)
        then show ?thesis using eq by (subst search_loop.simps) (simp add: Let_def)
      next
        case False
        then have m: "mid + 1 < hi" using True unfolding mid_def by linarith
        have "find ?P [lo..<mid + 1] \<noteq> None" using eq mid by (auto simp: find_None_iff)
        then have "find ?P [lo..<hi] = find ?P [lo..<mid + 1]"
          using find_upt_split [of lo "mid + 1" hi ?P] mid by (auto split: option.splits)
        moreover have "search_loop cmp p d lo hi = search_loop cmp p d lo (mid + 1)"
          using True False eq by (subst search_loop.simps) (simp add: Let_def mid_def)
        moreover have "search_loop cmp p d lo (mid + 1) = find ?P [lo..<mid + 1]"
          by (rule less.hyps) (use m mid less.prems in auto)
        ultimately show ?thesis by simp
      qed
    qed
  qed
qed

end

subsection \<open>The invariant of a stack\<close>

definition stack_ok :: "'c stack \<Rightarrow> bool" where
  "stack_ok sk \<longleftrightarrow> num sk < num_alloc sk \<and> length (data sk) = num_alloc sk \<and> kMinSize \<le> num_alloc sk \<and>
     num sk \<le> INT_MAX \<and> num_alloc sk \<le> 2 * INT_MAX"

definition sorted_ok :: "('c \<Rightarrow> ptr \<Rightarrow> ptr \<Rightarrow> int) \<Rightarrow> 'c stack \<Rightarrow> bool" where
  "sorted_ok call_cmp sk \<longleftrightarrow>
     (is_sorted_flag sk \<longrightarrow> (\<exists>c. comp sk = Some c \<and> ascending (call_cmp c) (elems sk)))"

lemma length_elems [simp]: "stack_ok sk \<Longrightarrow> length (elems sk) = num sk"
  by (simp add: stack_ok_def elems_def)

lemma elems_nth: "i < num sk \<Longrightarrow> elems sk ! i = data sk ! i"
  by (simp add: elems_def)

lemma length_ptr_bytes [simp]: "length (ptr_bytes ps) = 8 * length ps"
  by (induction ps) (simp_all add: ptr_bytes_def)

lemma length_bytes_ptrs [simp]: "length (bytes_ptrs n bs) = n"
  by (induction n arbitrary: bs) simp_all

lemma bytes_ptrs_append:
  "length ps \<le> n \<Longrightarrow> bytes_ptrs n (ptr_bytes ps @ rest) = ps @ bytes_ptrs (n - length ps) rest"
proof (induction ps arbitrary: n)
  case Nil
  then show ?case by (simp add: ptr_bytes_def)
next
  case (Cons p ps)
  then obtain m where n: "n = Suc m" by (cases n) auto
  have e: "ptr_bytes (p # ps) @ rest = fixed64_bytes p @ ptr_bytes ps @ rest" by (simp add: ptr_bytes_def)
  show ?case unfolding e n using Cons by (simp add: word64_of_bytes n)
qed

lemma bytes_ptrs_bytes: "bytes_ptrs (length ps) (ptr_bytes ps) = ps"
  using bytes_ptrs_append [of ps "length ps" "[]"] by simp

text \<open>The overflow checks of the growth never fire: the array has fewer than \<open>2 * INT_MAX\<close> pointers.\<close>

lemma grown_alloc_small: "kMinSize \<le> n \<Longrightarrow> n \<le> INT_MAX \<Longrightarrow> grown_alloc n = Some (2 * n, 16 * n)"
  by (simp add: grown_alloc_def Let_def sizeof_voidp_def kMinSize_def mult.commute)

lemma grow_props:
  assumes ok: "stack_ok sk" "num sk < INT_MAX" and g: "grow E sk = Some sk'"
  shows "num sk' = num sk \<and> elems sk' = elems sk \<and> is_sorted_flag sk' = is_sorted_flag sk \<and> comp sk' = comp sk \<and>
    num sk + 1 < num_alloc sk' \<and> length (data sk') = num_alloc sk' \<and> kMinSize \<le> num_alloc sk' \<and>
    num_alloc sk' \<le> 2 * INT_MAX"
proof (cases "num_alloc sk \<le> num sk + 1")
  case True
  have n: "num_alloc sk = num sk + 1" using True ok by (simp add: stack_ok_def)
  have a: "grown_alloc (num_alloc sk) = Some (2 * num_alloc sk, 16 * num_alloc sk)"
    by (rule grown_alloc_small) (use ok n in \<open>simp_all add: stack_ok_def\<close>)
  from g True a obtain blk where b: "OPENSSL_realloc E (Some (ptr_bytes (data sk))) (16 * num_alloc sk) = Some blk"
    and s: "sk' = sk\<lparr>data := bytes_ptrs (2 * num_alloc sk) blk, num_alloc := 2 * num_alloc sk\<rparr>"
    by (auto simp: grow_def split: option.splits)
  have l: "length (ptr_bytes (data sk)) = 8 * num_alloc sk" "0 < num_alloc sk" using ok by (simp_all add: stack_ok_def)
  then obtain rest where "blk = ptr_bytes (data sk) @ rest"
    using b by (auto simp: OPENSSL_realloc_def Let_def split: option.splits)
  then have "bytes_ptrs (2 * num_alloc sk) blk = data sk @ bytes_ptrs (num_alloc sk) rest"
    using bytes_ptrs_append [of "data sk" "2 * num_alloc sk" rest] ok by (simp add: stack_ok_def)
  then show ?thesis using s ok n by (auto simp: stack_ok_def elems_def)
next
  case False
  then show ?thesis using g ok by (auto simp: grow_def stack_ok_def)
qed

text \<open>Insertion: on failure the stack is as it was.\<close>

lemma sk_insert_elems:
  assumes ok: "stack_ok sk" and r: "OPENSSL_sk_insert E (Some sk) p w = (n, sk')"
  shows "n = 0 \<and> sk' = Some sk \<and> (num sk = INT_MAX \<or> grow E sk = None) \<or>
    (\<exists>s. sk' = Some s \<and> stack_ok s \<and> elems s = take w (elems sk) @ p # drop w (elems sk) \<and>
       n = num sk + 1 \<and> num s = n \<and> \<not> is_sorted_flag s \<and> comp s = comp sk)"
proof (cases "INT_MAX \<le> num sk \<or> grow E sk = None")
  case True
  then show ?thesis using r ok by (auto simp: OPENSSL_sk_insert_def stack_ok_def split: if_splits option.splits)
next
  case False
  then obtain g where g: "grow E sk = Some g" and lt: "num sk < INT_MAX" by auto
  note gp = grow_props [OF ok lt g]
  define d where "d = (if num g \<le> w then (data g)[num g := p]
      else (take (w + 1) (data g) @ take (num g - w) (drop w (data g)) @ drop (num g + 1) (data g))[w := p])"
  have s: "n = num sk + 1" "sk' = Some (g\<lparr>data := d, num := num sk + 1, is_sorted_flag := False\<rparr>)"
    using r lt g gp by (auto simp: OPENSSL_sk_insert_def Let_def d_def)
  have ld: "length d = num_alloc g" using gp by (auto simp: d_def)
  have "take (num sk + 1) d = take w (elems sk) @ p # drop w (elems sk)"
  proof (cases "num sk \<le> w")
    case True
    have "take (Suc (num sk)) ((data g)[num sk := p]) = take (num sk) (data g) @ [p]"
      using gp by (simp add: take_Suc_conv_app_nth)
    moreover have "take (num sk) (data g) = elems sk" "length (elems sk) = num sk"
      using gp length_elems [OF ok] by (auto simp: elems_def)
    ultimately show ?thesis using True gp by (simp add: d_def)
  next
    case False
    let ?xs = "elems sk"
    have xs: "take (num sk) (data g) = ?xs" "length ?xs = num sk"
      using gp length_elems [OF ok] by (auto simp: elems_def)
    have "take (w + 1) (data g) = take (w + 1) ?xs" using False unfolding xs(1) [symmetric] by (simp add: min_def)
    then have t1: "take (w + 1) (data g) = take w ?xs @ [?xs ! w]"
      using take_Suc_conv_app_nth [of w ?xs] xs(2) False by simp
    have t2: "take (num sk - w) (drop w (data g)) = drop w ?xs"
      unfolding xs(1) [symmetric] by (simp add: drop_take)
    have "d = ((take w ?xs @ [?xs ! w]) @ drop w ?xs @ drop (num sk + 1) (data g))[w := p]"
      using False conjunct1 [OF gp] unfolding d_def t1 by (simp only: t2 if_False)
    also have "\<dots> = take w ?xs @ p # drop w ?xs @ drop (num sk + 1) (data g)"
      using False xs(2) by (simp add: list_update_append)
    finally have "d = (take w ?xs @ p # drop w ?xs) @ drop (num sk + 1) (data g)" by simp
    moreover have "length (take w ?xs @ p # drop w ?xs) = num sk + 1" using xs(2) False by simp
    ultimately show ?thesis by (metis append_eq_conv_conj)
  qed
  then have "elems (g\<lparr>data := d, num := num sk + 1, is_sorted_flag := False\<rparr>) =
      take w (elems sk) @ p # drop w (elems sk)" by (simp add: elems_def)
  moreover have "stack_ok (g\<lparr>data := d, num := num sk + 1, is_sorted_flag := False\<rparr>)"
    using gp lt ld by (simp add: stack_ok_def)
  ultimately show ?thesis using s gp by auto
qed

lemma sk_delete_elems:
  assumes ok: "stack_ok sk" and r: "OPENSSL_sk_delete (Some sk) w = (p, sk')"
  shows "\<exists>s. sk' = Some s \<and> stack_ok s \<and> is_sorted_flag s = is_sorted_flag sk \<and> comp s = comp sk \<and>
    elems s = take w (elems sk) @ drop (Suc w) (elems sk) \<and>
    (w < num sk \<longrightarrow> p = elems sk ! w \<and> num s = num sk - 1) \<and> (num sk \<le> w \<longrightarrow> p = 0 \<and> s = sk)"
proof (cases "num sk \<le> w")
  case True
  then show ?thesis using r ok by (auto simp: OPENSSL_sk_delete_def)
next
  case False
  define d where "d = (if w \<noteq> num sk - 1
      then take w (data sk) @ take (num sk - w - 1) (drop (w + 1) (data sk)) @ drop (num sk - 1) (data sk) else data sk)"
  have s: "p = data sk ! w" "sk' = Some (sk\<lparr>data := d, num := num sk - 1\<rparr>)"
    using r False by (auto simp: OPENSSL_sk_delete_def Let_def d_def)
  have len: "num sk < length (data sk)" using ok by (simp add: stack_ok_def)
  have "take (num sk - 1) d = take w (elems sk) @ drop (Suc w) (elems sk)"
    using False len by (auto simp: d_def elems_def take_drop min_def)
  moreover have "length d = length (data sk)" using False len by (auto simp: d_def)
  ultimately show ?thesis using s ok False by (auto simp: stack_ok_def elems_def)
qed

text \<open>What \<open>OPENSSL_sk_delete_if\<close> keeps.\<close>

fun kept :: "(ptr \<Rightarrow> 's \<Rightarrow> bool \<times> 's) \<Rightarrow> ptr list \<Rightarrow> 's \<Rightarrow> ptr list \<times> 's" where
  "kept f [] st = ([], st)"
| "kept f (p # ps) st =
     (case f p st of (del, st) \<Rightarrow> (case kept f ps st of (qs, st) \<Rightarrow> (if del then qs else p # qs, st)))"

lemma delete_if_loop_kept:
  "new_num \<le> i \<Longrightarrow> i \<le> n \<Longrightarrow> n \<le> length d \<Longrightarrow> delete_if_loop f n i new_num d st = (m, d', st') \<Longrightarrow>
   m \<le> n \<and> length d' = length d \<and> take m d' = take new_num d @ fst (kept f (drop i (take n d)) st) \<and>
   st' = snd (kept f (drop i (take n d)) st)"
proof (induction f n i new_num d st arbitrary: m d' st' rule: delete_if_loop.induct)
  case (1 f n i new_num d st)
  show ?case
  proof (cases "i < n")
    case False
    then show ?thesis using 1(3-6) by (subst (asm) delete_if_loop.simps) auto
  next
    case True
    obtain del st1 where f: "f (d ! i) st = (del, st1)" by fastforce
    have dr: "drop i (take n d) = d ! i # drop (i + 1) (take n d)"
      using True 1(5) by (simp add: Cons_nth_drop_Suc [symmetric])
    show ?thesis
    proof (cases del)
      case d: True
      have "delete_if_loop f n (i + 1) new_num d st1 = (m, d', st')"
        using 1(6) True f d by (subst (asm) delete_if_loop.simps) simp
      with 1(2) [OF True f [symmetric]] d 1(3-5) True show ?thesis unfolding dr
        by (simp add: f split: prod.splits)
    next
      case d: False
      let ?d = "d[new_num := d ! i]"
      have "delete_if_loop f n (i + 1) (new_num + 1) ?d st1 = (m, d', st')"
        using 1(6) True f d by (subst (asm) delete_if_loop.simps) simp
      with 1(1) [OF True f [symmetric]] d 1(3-5) True have
        "m \<le> n \<and> length d' = length ?d \<and>
         take m d' = take (new_num + 1) ?d @ fst (kept f (drop (i + 1) (take n ?d)) st1) \<and>
         st' = snd (kept f (drop (i + 1) (take n ?d)) st1)" by simp
      moreover have "take (new_num + 1) ?d = take new_num d @ [d ! i]"
        using 1(3-5) True by (simp add: take_Suc_conv_app_nth)
      moreover have "drop (i + 1) (take n ?d) = drop (i + 1) (take n d)"
        using 1(3) by (simp add: take_update_swap)
      ultimately show ?thesis unfolding dr using d by (simp add: f split: prod.splits)
    qed
  qed
qed

lemma kept_sub: "set (fst (kept f ps st)) \<subseteq> set ps"
proof (induction ps arbitrary: st)
  case (Cons p ps)
  obtain del st1 where f: "f p st = (del, st1)" by fastforce
  show ?case using Cons [of st1] by (auto simp: f split: prod.splits)
qed simp

lemma ascending_kept: "ascending cmp ps \<Longrightarrow> ascending cmp (fst (kept f ps st))"
proof (induction ps arbitrary: st)
  case (Cons p ps)
  obtain del st1 where f: "f p st = (del, st1)" by fastforce
  have "ascending cmp (fst (kept f ps st1))" using Cons by (simp add: ascending_def)
  with Cons.prems kept_sub [of f ps st1] show ?case by (auto simp: f ascending_def split: prod.splits)
qed simp

lemma kept_filter: "kept (\<lambda>p st. (P p, st)) ps st = (filter (\<lambda>p. \<not> P p) ps, st)"
  by (induction ps) auto

lemma sk_delete_if_elems:
  assumes ok: "stack_ok sk" and r: "OPENSSL_sk_delete_if (Some sk) f st = (sk', st')"
  shows "\<exists>s. sk' = Some s \<and> stack_ok s \<and> is_sorted_flag s = is_sorted_flag sk \<and> comp s = comp sk \<and>
    (elems s, st') = kept f (elems sk) st"
proof -
  obtain m d where l: "delete_if_loop f (num sk) 0 0 (data sk) st = (m, d, st')" and
    s: "sk' = Some (sk\<lparr>data := d, num := m\<rparr>)" using r by (auto simp: OPENSSL_sk_delete_if_def split: prod.splits)
  from delete_if_loop_kept [OF _ _ _ l] ok show ?thesis unfolding s
    by (auto simp: stack_ok_def elems_def prod_eq_iff)
qed

lemma ascending_delete: "ascending cmp xs \<Longrightarrow> ascending cmp (take w xs @ drop (Suc w) xs)"
proof -
  assume "ascending cmp xs"
  then have "ascending cmp (take w xs @ drop w xs)" by simp
  moreover have "drop (Suc w) xs = tl (drop w xs)" by (simp add: drop_Suc tl_drop)
  ultimately show ?thesis by (cases "drop w xs") (auto simp: ascending_def sorted_wrt_append)
qed

lemma ascending_remove1: "ascending cmp xs \<Longrightarrow> ascending cmp (remove1 p xs)"
proof (induction xs)
  case (Cons x xs)
  then show ?case using set_remove1_subset [of p xs] by (auto simp: ascending_def)
qed simp

lemma remove1_index: "find (\<lambda>j. xs ! j = p) [0..<length xs] = Some i \<Longrightarrow> take i xs @ drop (Suc i) xs = remove1 p xs"
proof -
  assume "find (\<lambda>j. xs ! j = p) [0..<length xs] = Some i"
  then have i: "i < length xs" "xs ! i = p" "\<forall>j < i. xs ! j \<noteq> p" by (auto simp: find_Some_iff)
  then have xs: "xs = take i xs @ p # drop (Suc i) xs" by (metis id_take_nth_drop)
  have "p \<notin> set (take i xs)" using i by (auto simp: in_set_conv_nth)
  then have "remove1 p (take i xs @ p # drop (Suc i) xs) = take i xs @ drop (Suc i) xs" by (simp add: remove1_append)
  then show ?thesis using xs by simp
qed

lemma sk_delete_ptr_elems:
  assumes ok: "stack_ok sk" and r: "OPENSSL_sk_delete_ptr (Some sk) p = (q, sk')"
  shows "\<exists>s. sk' = Some s \<and> stack_ok s \<and> is_sorted_flag s = is_sorted_flag sk \<and> comp s = comp sk \<and>
    elems s = remove1 p (elems sk) \<and>
    q = (if p \<in> set (elems sk) then p else 0)"
proof -
  let ?f = "find (\<lambda>j. elems sk ! j = p) [0..<length (elems sk)]"
  have ff: "first_index (\<lambda>q. q = p) sk 0 = ?f"
    using ok by (auto simp: first_index_find elems_nth intro: find_cong)
  show ?thesis
  proof (cases ?f)
    case None
    then have "p \<notin> set (elems sk)" by (auto simp: find_None_iff in_set_conv_nth)
    then show ?thesis using r None ff ok
      by (auto simp: OPENSSL_sk_delete_ptr_def remove1_idem)
  next
    case (Some i)
    then have i: "i < num sk" "elems sk ! i = p" using ok by (auto simp: find_Some_iff)
    then have m: "p \<in> set (elems sk)" using ok by (metis length_elems nth_mem)
    have "OPENSSL_sk_delete (Some sk) i = (q, sk')" using r Some ff by (simp add: OPENSSL_sk_delete_ptr_def)
    from sk_delete_elems [OF ok this] remove1_index [OF Some] m i show ?thesis by auto
  qed
qed

lemma sk_dup_elems:
  assumes ok: "stack_ok sk" and d: "OPENSSL_sk_dup E (Some sk) = Some s"
  shows "s = sk"
proof -
  have sz: "size_wrap (sizeof_voidp * num_alloc sk) = length (ptr_bytes (data sk))"
    using ok by (simp add: stack_ok_def sizeof_voidp_def)
  from d obtain blk where b: "OPENSSL_memdup E (ptr_bytes (data sk)) (length (ptr_bytes (data sk))) = Some blk"
    and s: "s = \<lparr>num = num sk, data = bytes_ptrs (num_alloc sk) blk, is_sorted_flag = is_sorted_flag sk,
      num_alloc = num_alloc sk, comp = comp sk\<rparr>" by (auto simp: OPENSSL_sk_dup_def sz split: option.splits)
  have "blk = ptr_bytes (data sk)" using OPENSSL_memdup_Some [OF b] by simp
  then have "bytes_ptrs (num_alloc sk) blk = data sk" using bytes_ptrs_bytes [of "data sk"] ok by (simp add: stack_ok_def)
  then show ?thesis using s by simp
qed

text \<open>A copy that compares like the original.\<close>

definition same_cmp :: "('c \<Rightarrow> ptr \<Rightarrow> ptr \<Rightarrow> int) \<Rightarrow> ptr \<Rightarrow> ptr \<Rightarrow> bool" where
  "same_cmp call_cmp p p' \<longleftrightarrow> (\<forall>c q. call_cmp c p' q = call_cmp c p q \<and> call_cmp c q p' = call_cmp c q p)"

lemma copy_loop_length:
  "n \<le> length d \<Longrightarrow> copy_loop copyf freef n i d st = (Some d', st') \<Longrightarrow> length d' = length d"
proof (induction copyf freef n i d st rule: copy_loop.induct)
  case (1 copyf freef n i d st)
  obtain p st1 where c: "copyf (d ! i) st = (p, st1)" by fastforce
  consider (stop) "\<not> i < n" | (null) "i < n" "d ! i = 0" | (copy) "i < n" "d ! i \<noteq> 0" by blast
  then show ?case
  proof cases
    case stop
    then show ?thesis using 1(4) by (subst (asm) copy_loop.simps) simp
  next
    case null
    then have "copy_loop copyf freef n (i + 1) d st = (Some d', st')"
      using 1(4) by (subst (asm) copy_loop.simps) simp
    then show ?thesis using 1(1) [OF null 1(3)] by blast
  next
    case copy
    then have p: "p \<noteq> 0" "copy_loop copyf freef n (i + 1) (d[i := p]) st1 = (Some d', st')"
      using 1(4) c by (subst (asm) copy_loop.simps, auto split: if_splits)+
    show ?thesis using 1(2) [OF copy c [symmetric] p(1) _ p(2)] 1(3) by simp
  qed
qed

lemma copy_loop_same:
  "\<forall>p st p' st'. copyf p st = (p', st') \<longrightarrow> p' \<noteq> 0 \<longrightarrow> same_cmp call_cmp p p' \<Longrightarrow> n \<le> length d \<Longrightarrow>
   copy_loop copyf freef n i d st = (Some d', st') \<Longrightarrow>
   length d' = length d \<and> (\<forall>j. same_cmp call_cmp (d ! j) (d' ! j))"
proof (induction copyf freef n i d st rule: copy_loop.induct)
  case (1 copyf freef n i d st)
  have self: "same_cmp call_cmp p p" for p by (simp add: same_cmp_def)
  consider (stop) "\<not> i < n" | (null) "i < n" "d ! i = 0" | (copy) "i < n" "d ! i \<noteq> 0" by blast
  then show ?case
  proof cases
    case stop
    then show ?thesis using 1(5) self by (subst (asm) copy_loop.simps) simp
  next
    case null
    then have "copy_loop copyf freef n (i + 1) d st = (Some d', st')"
      using 1(5) by (subst (asm) copy_loop.simps) simp
    then show ?thesis using 1(1) [OF null 1(3,4)] by blast
  next
    case copy
    obtain p st1 where c: "copyf (d ! i) st = (p, st1)" by fastforce
    then have p: "p \<noteq> 0" "copy_loop copyf freef n (i + 1) (d[i := p]) st1 = (Some d', st')"
      using 1(5) copy by (subst (asm) copy_loop.simps, auto split: if_splits)+
    have "length d' = length (d[i := p]) \<and> (\<forall>j. same_cmp call_cmp (d[i := p] ! j) (d' ! j))"
      using 1(2) [OF copy c [symmetric] p(1) 1(3) _ p(2)] 1(4) by simp
    moreover have "same_cmp call_cmp (d ! i) p" using 1(3) c p(1) by blast
    ultimately show ?thesis using copy(1) 1(4) unfolding same_cmp_def
      by (metis length_list_update nth_list_update_eq nth_list_update_neq order_less_le_trans)
  qed
qed

lemma ascending_same:
  "ascending (call_cmp c) (take n d) \<Longrightarrow> length d' = length d \<Longrightarrow> (\<And>j. same_cmp call_cmp (d ! j) (d' ! j)) \<Longrightarrow>
   ascending (call_cmp c) (take n d')"
  by (simp add: ascending_def sorted_wrt_iff_nth_less same_cmp_def)

text \<open>The sort does not look at the array behind the valid pointers.\<close>

lemma down_heap_append:
  "i < n \<Longrightarrow> n \<le> length d \<Longrightarrow> down_heap cmp i n (d @ r) = down_heap cmp i n d @ r"
proof (induction "n - i" arbitrary: i d rule: less_induct)
  case (less i d)
  have e: "sift_to cmp i n (d @ r) = sift_to cmp i n d" if "\<not> n \<le> left_idx i"
    using less.prems that by (simp add: sift_to_def Let_def nth_append)
  show ?case
  proof (cases "n \<le> left_idx i \<or> sift_to cmp i n d = i")
    case True
    then show ?thesis using e by (subst (1 2) down_heap_step) auto
  next
    case False
    let ?m = "sift_to cmp i n d"
    have m: "?m < n" "n - ?m < n - i" using sift_to_child [OF False] by auto
    have u: "(d @ r)[i := (d @ r) ! ?m, ?m := (d @ r) ! i] = d[i := d ! ?m, ?m := d ! i] @ r"
      using less.prems m by (simp add: nth_append list_update_append)
    have "down_heap cmp i n (d @ r) = down_heap cmp ?m n (d[i := d ! ?m, ?m := d ! i] @ r)"
      using False e by (subst down_heap_step) (simp add: u)
    also have "\<dots> = down_heap cmp ?m n (d[i := d ! ?m, ?m := d ! i]) @ r"
      using less.hyps [OF m(2) m(1)] less.prems by simp
    also have "down_heap cmp ?m n (d[i := d ! ?m, ?m := d ! i]) = down_heap cmp i n d"
      using False by (subst (2) down_heap_step) simp
    finally show ?thesis .
  qed
qed

lemma build_heap_append: "i < n \<Longrightarrow> n \<le> length d \<Longrightarrow> build_heap cmp i n (d @ r) = build_heap cmp i n d @ r"
proof (induction i arbitrary: d)
  case 0
  then show ?case by (simp add: down_heap_append)
next
  case (Suc i)
  then show ?case by (simp add: down_heap_append down_heap_length)
qed

lemma build_heap_length: "i < n \<Longrightarrow> n \<le> length d \<Longrightarrow> length (build_heap cmp i n d) = length d"
proof (induction i arbitrary: d)
  case 0
  then show ?case by (simp add: down_heap_length)
next
  case (Suc i)
  then show ?case by (simp add: down_heap_length)
qed

lemma extract_loop_append: "i < length d \<Longrightarrow> extract_loop cmp i (d @ r) = extract_loop cmp i d @ r"
proof (induction i arbitrary: d)
  case (Suc i d)
  have "d \<noteq> []" using Suc.prems by auto
  then have u: "(d @ r)[0 := (d @ r) ! Suc i, Suc i := (d @ r) ! 0] = d[0 := d ! Suc i, Suc i := d ! 0] @ r"
    using Suc.prems by (simp add: nth_append list_update_append)
  show ?case unfolding extract_loop.simps u using Suc by (simp add: down_heap_append down_heap_length)
qed simp

lemma sk_sort_elems:
  assumes ok: "stack_ok sk" and cm: "comp sk = Some c" and srt: "sorted_ok call_cmp sk"
    and cp: "comparator (call_cmp c) (set (elems sk))"
  shows "\<exists>s. OPENSSL_sk_sort call_cmp (Some sk) = Some s \<and> stack_ok s \<and> mset (elems s) = mset (elems sk) \<and>
    ascending (call_cmp c) (elems s) \<and> is_sorted_flag s \<and> num s = num sk \<and> comp s = Some c"
proof (cases "is_sorted_flag sk")
  case True
  then show ?thesis using assms by (simp add: OPENSSL_sk_sort_def sorted_ok_def)
next
  case False
  define d where "d = (if 2 \<le> num sk then extract_loop (call_cmp c) (num sk - 1)
      (build_heap (call_cmp c) (parent_idx (num sk - 1)) (num sk) (data sk)) else data sk)"
  have s: "OPENSSL_sk_sort call_cmp (Some sk) = Some (sk\<lparr>data := d, is_sorted_flag := True\<rparr>)"
    using False cm by (simp add: OPENSSL_sk_sort_def d_def Let_def)
  have "length d = length (data sk) \<and> mset (take (num sk) d) = mset (take (num sk) (data sk)) \<and>
      ascending (call_cmp c) (take (num sk) d)"
  proof (cases "2 \<le> num sk")
    case True
    let ?n = "num sk" and ?p = "parent_idx (num sk - 1)" and ?xs = "elems sk"
    have xs: "data sk = ?xs @ drop ?n (data sk)" "length ?xs = ?n" using length_elems [OF ok] by (simp_all add: elems_def)
    have p: "?p < ?n" using True by (simp add: parent_idx_def)
    have "d = extract_loop (call_cmp c) (?n - 1) (build_heap (call_cmp c) ?p ?n (?xs @ drop ?n (data sk)))"
      using True xs(1) by (simp add: d_def)
    also have "\<dots> = extract_loop (call_cmp c) (?n - 1) (build_heap (call_cmp c) ?p ?n ?xs) @ drop ?n (data sk)"
      using p xs(2) True by (simp add: build_heap_append extract_loop_append build_heap_length)
    finally have d: "d = extract_loop (call_cmp c) (?n - 1) (build_heap (call_cmp c) ?p ?n ?xs) @ drop ?n (data sk)" .
    define r where "r = extract_loop (call_cmp c) (?n - 1) (build_heap (call_cmp c) ?p ?n ?xs)"
    have "length r = length ?xs \<and> mset (take ?n r) = mset (take ?n ?xs) \<and> drop ?n r = drop ?n ?xs \<and>
        ascending (call_cmp c) (take ?n r)"
      unfolding r_def by (rule comparator.heap_sort [OF cp True]) (simp_all add: xs(2))
    moreover have "take ?n ?xs = ?xs" using xs(2) by simp
    ultimately have r: "length r = ?n" "mset (take ?n r) = mset ?xs" "ascending (call_cmp c) (take ?n r)"
      unfolding xs(2) by metis+
    have "length d = length (data sk)" using d r(1) ok unfolding r_def [symmetric] by (simp add: stack_ok_def)
    moreover have "take ?n d = r" using d r(1) unfolding r_def [symmetric] by simp
    ultimately show ?thesis using r by (simp add: elems_def)
  next
    case False
    then show ?thesis by (auto simp: d_def intro: ascending_short)
  qed
  then show ?thesis using s ok cm by (auto simp: stack_ok_def elems_def)
qed

text \<open>
  The stacks a caller can make, by any sequence of operations on any arguments. The boolean says
  whether the sorted flag can be relied on: \<open>OPENSSL_sk_set\<close> on a stack whose flag is set, a sort by
  a comparison function that is no total preorder on the elements, and copies that compare unlike
  their originals end that, and whatever clears the flag restores it.
\<close>

inductive sk_reach :: "heap_env \<Rightarrow> ('c \<Rightarrow> ptr \<Rightarrow> ptr \<Rightarrow> int) \<Rightarrow> bool \<Rightarrow> 'c stack \<Rightarrow> bool" for E call_cmp where
  reach_new: "OPENSSL_sk_new E c = Some s \<Longrightarrow> sk_reach E call_cmp True s"
| reach_clear: "sk_reach E call_cmp b sk \<Longrightarrow> \<not> is_sorted_flag sk \<Longrightarrow> sk_reach E call_cmp True sk"
| reach_zero: "sk_reach E call_cmp b sk \<Longrightarrow> OPENSSL_sk_zero (Some sk) = Some s \<Longrightarrow> sk_reach E call_cmp b s"
| reach_set: "sk_reach E call_cmp b sk \<Longrightarrow> OPENSSL_sk_set (Some sk) i p = (q, Some s) \<Longrightarrow>
    sk_reach E call_cmp (b \<and> \<not> is_sorted_flag sk) s"
| reach_insert: "sk_reach E call_cmp b sk \<Longrightarrow> OPENSSL_sk_insert E (Some sk) p w = (n, Some s) \<Longrightarrow> sk_reach E call_cmp b s"
| reach_delete: "sk_reach E call_cmp b sk \<Longrightarrow> OPENSSL_sk_delete (Some sk) w = (q, Some s) \<Longrightarrow> sk_reach E call_cmp b s"
| reach_delete_ptr: "sk_reach E call_cmp b sk \<Longrightarrow> OPENSSL_sk_delete_ptr (Some sk) p = (q, Some s) \<Longrightarrow>
    sk_reach E call_cmp b s"
| reach_delete_if: "sk_reach E call_cmp b sk \<Longrightarrow> OPENSSL_sk_delete_if (Some sk) f (st :: nat) = (Some s, st') \<Longrightarrow>
    sk_reach E call_cmp b s"
| reach_shift: "sk_reach E call_cmp b sk \<Longrightarrow> OPENSSL_sk_shift (Some sk) = (q, Some s) \<Longrightarrow> sk_reach E call_cmp b s"
| reach_pop: "sk_reach E call_cmp b sk \<Longrightarrow> OPENSSL_sk_pop (Some sk) = (q, Some s) \<Longrightarrow> sk_reach E call_cmp b s"
| reach_dup: "sk_reach E call_cmp b sk \<Longrightarrow> OPENSSL_sk_dup E (Some sk) = Some s \<Longrightarrow> sk_reach E call_cmp b s"
| reach_sort: "sk_reach E call_cmp b sk \<Longrightarrow> OPENSSL_sk_sort call_cmp (Some sk) = Some s \<Longrightarrow>
    sk_reach E call_cmp
      (b \<and> (is_sorted_flag sk \<or> (\<forall>c. comp sk = Some c \<longrightarrow> comparator (call_cmp c) (set (elems sk))))) s"
| reach_set_cmp: "sk_reach E call_cmp b sk \<Longrightarrow> OPENSSL_sk_set_cmp_func sk c = (old, s) \<Longrightarrow> sk_reach E call_cmp b s"
| reach_deep_copy: "sk_reach E call_cmp b sk \<Longrightarrow> OPENSSL_sk_deep_copy E (Some sk) copyf freef st = (Some s, st') \<Longrightarrow>
    sk_reach E call_cmp
      (b \<and> (\<forall>p (st :: nat) p' st'. copyf p st = (p', st') \<longrightarrow> p' \<noteq> 0 \<longrightarrow> same_cmp call_cmp p p')) s"

text \<open>The part of the invariant that every operation keeps.\<close>

definition flag_ok :: "'c stack \<Rightarrow> bool" where
  "flag_ok sk \<longleftrightarrow> (is_sorted_flag sk \<longrightarrow> comp sk \<noteq> None)"

lemma sk_delete_inv:
  assumes "stack_ok sk" "flag_ok sk" "OPENSSL_sk_delete (Some sk) w = (q, Some s)"
  shows "stack_ok s \<and> flag_ok s \<and> (sorted_ok call_cmp sk \<longrightarrow> sorted_ok call_cmp s)"
proof -
  from sk_delete_elems [OF assms(1,3)] have d: "stack_ok s" "is_sorted_flag s = is_sorted_flag sk" "comp s = comp sk"
    "elems s = take w (elems sk) @ drop (Suc w) (elems sk)" by auto
  with assms(2) show ?thesis by (auto simp: sorted_ok_def flag_ok_def ascending_delete)
qed

lemma extract_loop_length: "i < length d \<Longrightarrow> length (extract_loop cmp i d) = length d"
proof (induction i arbitrary: d)
  case (Suc i)
  then show ?case by (simp add: down_heap_length)
qed simp

text \<open>Whatever the comparison function answers, a sort stays inside the array.\<close>

lemma sk_sort_inv:
  assumes ok: "stack_ok sk" "flag_ok sk" and s: "OPENSSL_sk_sort call_cmp (Some sk) = Some s"
  shows "stack_ok s \<and> flag_ok s \<and>
    (sorted_ok call_cmp sk \<longrightarrow>
     is_sorted_flag sk \<or> (\<forall>c. comp sk = Some c \<longrightarrow> comparator (call_cmp c) (set (elems sk))) \<longrightarrow>
     sorted_ok call_cmp s)"
proof (cases "comp sk")
  case None
  then show ?thesis using assms by (simp add: OPENSSL_sk_sort_def)
next
  case (Some c)
  show ?thesis
  proof (cases "is_sorted_flag sk")
    case True
    then show ?thesis using assms Some by (simp add: OPENSSL_sk_sort_def)
  next
    case False
    have n: "num sk \<le> length (data sk)" using ok by (simp add: stack_ok_def)
    have p: "parent_idx (num sk - 1) < num sk" if "2 \<le> num sk" using that by (simp add: parent_idx_def)
    have "length (extract_loop (call_cmp c) (num sk - 1)
        (build_heap (call_cmp c) (parent_idx (num sk - 1)) (num sk) (data sk))) = length (data sk)" if "2 \<le> num sk"
      using that n build_heap_length [OF p [OF that] n] by (simp add: extract_loop_length)
    then have "stack_ok s \<and> flag_ok s"
      using s ok Some False by (auto simp: OPENSSL_sk_sort_def Let_def stack_ok_def flag_ok_def)
    moreover have "sorted_ok call_cmp s" if "sorted_ok call_cmp sk" "comparator (call_cmp c) (set (elems sk))"
      using sk_sort_elems [OF ok(1) Some that] s by (auto simp: sorted_ok_def)
    ultimately show ?thesis using Some False by blast
  qed
qed

lemma sk_deep_copy_inv:
  assumes ok: "stack_ok sk" "flag_ok sk"
    and s: "OPENSSL_sk_deep_copy E (Some sk) copyf freef st = (Some s, st')"
  shows "stack_ok s \<and> flag_ok s \<and>
    (sorted_ok call_cmp sk \<longrightarrow>
     (\<forall>p st p' st'. copyf p st = (p', st') \<longrightarrow> p' \<noteq> 0 \<longrightarrow> same_cmp call_cmp p p') \<longrightarrow> sorted_ok call_cmp s)"
proof -
  from s obtain ret d where r: "OPENSSL_sk_dup E (Some sk) = Some ret"
    "copy_loop copyf freef (num ret) 0 (data ret) st = (Some d, st')" "s = ret\<lparr>data := d\<rparr>"
    by (auto simp: OPENSSL_sk_deep_copy_def split: option.splits prod.splits)
  have ret: "ret = sk" using sk_dup_elems [OF ok(1) r(1)] .
  have n: "num sk \<le> length (data sk)" using ok by (simp add: stack_ok_def)
  have "length d = length (data sk)" using copy_loop_length [OF n r(2) [unfolded ret]] .
  then have "stack_ok s \<and> flag_ok s" using r(3) ok unfolding ret by (auto simp: stack_ok_def flag_ok_def)
  moreover have "sorted_ok call_cmp s" if srt: "sorted_ok call_cmp sk"
    and same: "\<forall>p st p' st'. copyf p st = (p', st') \<longrightarrow> p' \<noteq> 0 \<longrightarrow> same_cmp call_cmp p p'"
  proof -
    from copy_loop_same [OF same n r(2) [unfolded ret]]
    have c: "length d = length (data sk)" "\<And>j. same_cmp call_cmp (data sk ! j) (d ! j)" by auto
    have "ascending (call_cmp c) (take (num sk) d)" if "ascending (call_cmp c) (take (num sk) (data sk))" for c
      using ascending_same [of call_cmp c "num sk" "data sk" d] that c by blast
    then show ?thesis using r(3) srt unfolding ret by (auto simp: sorted_ok_def elems_def)
  qed
  ultimately show ?thesis by blast
qed

lemma sk_reach_ok:
  "sk_reach E call_cmp b sk \<Longrightarrow> stack_ok sk \<and> flag_ok sk \<and> (b \<longrightarrow> sorted_ok call_cmp sk)"
proof (induction rule: sk_reach.induct)
  case (reach_new c s)
  then show ?case
    by (auto simp: OPENSSL_sk_new_def stack_ok_def sorted_ok_def flag_ok_def kMinSize_def split: option.splits)
next
  case (reach_clear b sk)
  then show ?case by (simp add: sorted_ok_def)
next
  case (reach_zero b sk s)
  then show ?case
    by (auto simp: OPENSSL_sk_zero_def stack_ok_def sorted_ok_def flag_ok_def split: if_splits)
next
  case (reach_set b sk i p q s)
  then show ?case
    by (auto simp: OPENSSL_sk_set_def stack_ok_def sorted_ok_def flag_ok_def split: if_splits)
next
  case (reach_insert b sk p w n s)
  then show ?case using sk_insert_elems [of sk E p w n "Some s"] by (auto simp: sorted_ok_def flag_ok_def)
next
  case (reach_delete b sk w q s)
  have ok: "stack_ok sk" "flag_ok sk" using reach_delete.IH by blast+
  from sk_delete_inv [OF ok reach_delete.hyps(2), of call_cmp] reach_delete.IH show ?case by simp
next
  case (reach_delete_ptr b sk p q s)
  from sk_delete_ptr_elems [OF conjunct1 [OF reach_delete_ptr.IH] reach_delete_ptr.hyps(2)]
    reach_delete_ptr.IH show ?case by (auto simp: sorted_ok_def flag_ok_def ascending_remove1)
next
  case (reach_delete_if b sk f st s st')
  from sk_delete_if_elems [OF conjunct1 [OF reach_delete_if.IH] reach_delete_if.hyps(2)]
  have d: "stack_ok s" "is_sorted_flag s = is_sorted_flag sk" "comp s = comp sk"
    "elems s = fst (kept f (elems sk) st)" by (auto simp: prod_eq_iff)
  with reach_delete_if.IH show ?case by (auto simp: sorted_ok_def flag_ok_def ascending_kept)
next
  case (reach_shift b sk q s)
  then show ?case using sk_delete_inv [of sk 0 q s call_cmp]
    by (auto simp: OPENSSL_sk_shift_def split: if_splits)
next
  case (reach_pop b sk q s)
  then show ?case using sk_delete_inv [of sk "num sk - 1" q s call_cmp]
    by (auto simp: OPENSSL_sk_pop_def split: if_splits)
next
  case (reach_dup b sk s)
  then show ?case using sk_dup_elems by blast
next
  case (reach_sort b sk s)
  have ok: "stack_ok sk" "flag_ok sk" using reach_sort.IH by blast+
  from sk_sort_inv [OF ok reach_sort.hyps(2)] reach_sort.IH show ?case by iprover
next
  case (reach_set_cmp b sk c old s)
  then show ?case
    by (auto simp: OPENSSL_sk_set_cmp_func_def Let_def stack_ok_def sorted_ok_def flag_ok_def elems_def split: if_splits)
next
  case (reach_deep_copy b sk copyf freef st s st')
  have ok: "stack_ok sk" "flag_ok sk" using reach_deep_copy.IH by blast+
  from sk_deep_copy_inv [OF ok reach_deep_copy.hyps(2), of call_cmp] reach_deep_copy.IH show ?case by iprover
qed

text \<open>Pointers compared by their address: a comparison function for concrete runs.\<close>

definition by_address :: "unit \<Rightarrow> ptr \<Rightarrow> ptr \<Rightarrow> int" where
  "by_address _ p q = uint p - uint q"

interpretation by_address: comparator "by_address c" A for c A
  by unfold_locales (auto simp: by_address_def)

definition demo_stack :: "unit stack" where
  "demo_stack = \<lparr>num = 3, data = [7, 2, 9, 0, 0, 0], is_sorted_flag = False, num_alloc = 6, comp = Some ()\<rparr>"

lemma demo_stack_ok: "stack_ok demo_stack \<and> sorted_ok f demo_stack"
  by (simp add: demo_stack_def stack_ok_def sorted_ok_def kMinSize_def)

lemma new_calm: "\<exists>s. OPENSSL_sk_new calm_heap c = Some s"
  by (simp add: OPENSSL_sk_new_def OPENSSL_zalloc_def OPENSSL_calloc_def OPENSSL_malloc_def calm_heap_def
      sizeof_stack_def sizeof_voidp_def kMinSize_def OPENSSL_MALLOC_PREFIX_def)


text \<open>A stack made by two insertions and a sort, and the same with a pointer replaced.\<close>

definition empty_stack :: "unit stack" where
  "empty_stack = \<lparr>num = 0, data = [0, 0, 0, 0], is_sorted_flag = False, num_alloc = 4, comp = Some ()\<rparr>"

definition sorted_stack :: "unit stack" where
  "sorted_stack = \<lparr>num = 2, data = [2, 7, 0, 0], is_sorted_flag = True, num_alloc = 4, comp = Some ()\<rparr>"

lemma new_empty_stack: "OPENSSL_sk_new calm_heap (Some ()) = Some empty_stack"
proof -
  have z: "replicate 32 0 = ptr_bytes [0, 0, 0, 0]"
    by (simp add: ptr_bytes_def fixed64_bytes_def numeral_eq_Suc)
  have "bytes_ptrs 4 (replicate 32 0) = [0, 0, 0, 0]"
    using bytes_ptrs_bytes [of "[0, 0, 0, 0]"] unfolding z by (simp add: numeral_eq_Suc)
  then show ?thesis
    by (simp add: OPENSSL_sk_new_def OPENSSL_zalloc_def OPENSSL_calloc_def OPENSSL_malloc_def calm_heap_def
        sizeof_stack_def sizeof_voidp_def kMinSize_def OPENSSL_MALLOC_PREFIX_def empty_stack_def)
qed

lemma reach_sorted_stack: "sk_reach calm_heap by_address True sorted_stack"
proof -
  have "sk_reach calm_heap by_address True empty_stack" by (rule reach_new [OF new_empty_stack])
  then have "sk_reach calm_heap by_address True (empty_stack\<lparr>data := [7, 0, 0, 0], num := 1\<rparr>)"
    by (rule reach_insert [where p = 7 and w = 0 and n = 1])
      (simp add: OPENSSL_sk_insert_def grow_def empty_stack_def)
  then have "sk_reach calm_heap by_address True (empty_stack\<lparr>data := [7, 2, 0, 0], num := 2\<rparr>)"
    by (rule reach_insert [where p = 2 and w = 1 and n = 2])
      (simp add: OPENSSL_sk_insert_def grow_def empty_stack_def)
  moreover have "OPENSSL_sk_sort by_address (Some (empty_stack\<lparr>data := [7, 2, 0, 0], num := 2\<rparr>)) = Some sorted_stack"
    by (simp add: OPENSSL_sk_sort_def empty_stack_def sorted_stack_def parent_idx_def down_heap.simps left_idx_def
        by_address_def)
  ultimately have "sk_reach calm_heap by_address
    (True \<and> (is_sorted_flag (empty_stack\<lparr>data := [7, 2, 0, 0], num := 2\<rparr>) \<or>
      (\<forall>c. comp (empty_stack\<lparr>data := [7, 2, 0, 0], num := 2\<rparr>) = Some c \<longrightarrow>
        comparator (by_address c) (set (elems (empty_stack\<lparr>data := [7, 2, 0, 0], num := 2\<rparr>)))))) sorted_stack"
    by (rule reach_sort)
  then show ?thesis by (simp add: by_address.comparator_axioms)
qed


text \<open>C18: sorting. With a comparison function that is a total preorder on the elements,
  \<open>OPENSSL_sk_sort\<close> ends, permutes the valid pointers into ascending order and sets the flag; a stack
  already marked as sorted is left alone.\<close>

theorem sk_sort_sorts:
  assumes "stack_ok sk" "comp sk = Some c" "sorted_ok call_cmp sk" "comparator (call_cmp c) (set (elems sk))"
  shows "\<exists>s. OPENSSL_sk_sort call_cmp (Some sk) = Some s \<and> mset (elems s) = mset (elems sk) \<and>
    sorted_wrt (\<lambda>p q. call_cmp c p q \<le> 0) (elems s) \<and> OPENSSL_sk_is_sorted (Some s) \<and> stack_ok s \<and>
    (if is_sorted_flag sk then s = sk else True)"
proof -
  from sk_sort_elems [OF assms] obtain s where
    s: "OPENSSL_sk_sort call_cmp (Some sk) = Some s" "stack_ok s" "mset (elems s) = mset (elems sk)"
    "ascending (call_cmp c) (elems s)" "is_sorted_flag s" by blast
  moreover have "s = sk" if "is_sorted_flag sk" using s(1) that assms(2) by (simp add: OPENSSL_sk_sort_def)
  ultimately show ?thesis by (simp add: OPENSSL_sk_is_sorted_def ascending_def)
qed

theorem sk_sort_sorts_witness:
  "\<exists>s. OPENSSL_sk_sort by_address (Some demo_stack) = Some s \<and> mset (elems s) = mset (elems demo_stack) \<and>
    sorted_wrt (\<lambda>p q. by_address () p q \<le> 0) (elems s) \<and> OPENSSL_sk_is_sorted (Some s) \<and> stack_ok s \<and>
    (if is_sorted_flag demo_stack then s = demo_stack else True)"
  by (rule sk_sort_sorts [OF conjunct1 [OF demo_stack_ok] _ conjunct2 [OF demo_stack_ok]])
    (simp_all add: demo_stack_def by_address.comparator_axioms)

text \<open>C32: searching. On every stack a caller can make whose sorted flag can be relied on, \<open>OPENSSL_sk_find\<close> returns the first element
  equal to the key, and nothing when there is none: by pointer equality without a comparison
  function, by a comparison otherwise. The binary search of a sorted stack agrees with the scan.\<close>

theorem sk_find_first:
  assumes r: "sk_reach E call_cmp True sk"
    and c: "\<And>c. comp sk = Some c \<Longrightarrow> comparator (call_cmp c) (insert p (set (elems sk)))"
  shows "OPENSSL_sk_find call_cmp (Some sk) p =
    (case comp sk of
       None \<Rightarrow> find (\<lambda>i. elems sk ! i = p) [0..<num sk]
     | Some c \<Rightarrow> if p = 0 then None else find (\<lambda>i. call_cmp c p (elems sk ! i) = 0) [0..<num sk])"
proof -
  have inv: "stack_ok sk" "sorted_ok call_cmp sk" using sk_reach_ok [OF r] by blast+
  have cong: "find (\<lambda>i. Q (elems sk ! i)) [0..<num sk] = find (\<lambda>i. Q (data sk ! i)) [0..<num sk]" for Q
    by (rule find_cong) (simp_all add: elems_nth)
  show ?thesis
  proof (cases "comp sk")
    case None
    then show ?thesis using cong [of "\<lambda>q. q = p"] by (simp add: OPENSSL_sk_find_def first_index_find)
  next
    case (Some cf)
    show ?thesis
    proof (cases "p \<noteq> 0 \<and> OPENSSL_sk_is_sorted (Some sk)")
      case True
      have "ascending (call_cmp cf) (take (num sk) (data sk))"
        using True inv Some ascending_short [of "elems sk"]
        by (auto simp: OPENSSL_sk_is_sorted_def sorted_ok_def elems_def)
      then have "search_loop (call_cmp cf) p (data sk) 0 (num sk) =
          find (\<lambda>j. call_cmp cf p (data sk ! j) = 0) [0..<num sk]"
        by (rule comparator.search_loop_find [OF c [OF Some]])
          (use inv in \<open>auto simp: elems_def stack_ok_def\<close>)
      then show ?thesis using True Some cong [of "\<lambda>q. call_cmp cf p q = 0"] by (simp add: OPENSSL_sk_find_def)
    next
      case False
      then show ?thesis using Some cong [of "\<lambda>q. call_cmp cf p q = 0"]
        by (auto simp: OPENSSL_sk_find_def first_index_find)
    qed
  qed
qed

theorem sk_find_first_witness:
  "OPENSSL_sk_find by_address (Some sorted_stack) 7 =
    (case comp sorted_stack of
       None \<Rightarrow> find (\<lambda>i. elems sorted_stack ! i = 7) [0..<num sorted_stack]
     | Some c \<Rightarrow>
         if (7 :: ptr) = 0 then None
         else find (\<lambda>i. by_address c 7 (elems sorted_stack ! i) = 0) [0..<num sorted_stack])"
  by (rule sk_find_first [OF reach_sorted_stack by_address.comparator_axioms])

text \<open>C34: the stale flag. \<open>OPENSSL_sk_set\<close> leaves the sorted flag of a sorted stack set; a search may
  then miss an element that is there: after sorting 7, 2, 9 and setting the first pointer to 11, a
  search for 11 finds nothing.\<close>

theorem sk_set_stale_flag:
  "\<exists>s s'. OPENSSL_sk_sort by_address (Some demo_stack) = Some s \<and> OPENSSL_sk_set (Some s) 0 11 = (11, Some s') \<and>
    OPENSSL_sk_value (Some s') 0 = 11 \<and> OPENSSL_sk_is_sorted (Some s') \<and>
    OPENSSL_sk_find by_address (Some s') 11 = None"
proof -
  let ?s = "demo_stack\<lparr>data := [2, 7, 9, 0, 0, 0], is_sorted_flag := True\<rparr>"
  have c: "by_address () 7 2 = 5" "by_address () 7 9 = - 2" "by_address () 2 9 = - 7" "by_address () 11 7 = 4"
    "by_address () 11 9 = 2" by (simp_all add: by_address_def)
  have u: "[a, b, c, d, e, f][2 := x] = [a, b, x, d, e, f]" for a b c d e f x :: ptr by (simp add: numeral_2_eq_2)
  have "down_heap (by_address ()) 0 3 [7, 2, 9, 0, 0, 0] = [9, 2, 7, 0, 0, 0]"
    by (simp add: down_heap.simps left_idx_def Let_def c u)
  moreover have "down_heap (by_address ()) 0 2 [7, 2, 9, 0, 0, 0] = [7, 2, 9, 0, 0, 0]"
    by (simp add: down_heap.simps left_idx_def Let_def c)
  moreover have "down_heap (by_address ()) 0 1 [2, 7, 9, 0, 0, 0] = [2, 7, 9, 0, 0, 0]"
    by (simp add: down_heap.simps left_idx_def Let_def)
  ultimately have "OPENSSL_sk_sort by_address (Some demo_stack) = Some ?s"
    by (simp add: OPENSSL_sk_sort_def demo_stack_def Let_def parent_idx_def numeral_2_eq_2)
  moreover have "OPENSSL_sk_find by_address (Some (?s\<lparr>data := [11, 7, 9, 0, 0, 0]\<rparr>)) 11 = None"
    by (simp add: OPENSSL_sk_find_def OPENSSL_sk_is_sorted_def demo_stack_def search_loop.simps Let_def c)
  ultimately show ?thesis
    by (intro exI [of _ ?s] exI [of _ "?s\<lparr>data := [11, 7, 9, 0, 0, 0]\<rparr>"])
      (simp add: OPENSSL_sk_set_def OPENSSL_sk_value_def OPENSSL_sk_is_sorted_def demo_stack_def)
qed

text \<open>C33: a stack is a list. Adding at the end, removing at either end, removing a pointer and
  removing by a predicate are the list operations on the valid pointers, the queries read the list,
  and nothing outside the list is returned.\<close>

theorem sk_refines_list:
  assumes ok: "stack_ok sk"
  shows "OPENSSL_sk_num (Some sk) = length (elems sk) \<and>
    OPENSSL_sk_value (Some sk) i = (if i < length (elems sk) then elems sk ! i else 0) \<and>
    map_option elems (snd (OPENSSL_sk_push E sk p)) =
      Some (if fst (OPENSSL_sk_push E sk p) = 0 then elems sk else elems sk @ [p]) \<and>
    fst (OPENSSL_sk_pop (Some sk)) = (if elems sk = [] then 0 else last (elems sk)) \<and>
    map_option elems (snd (OPENSSL_sk_pop (Some sk))) = Some (butlast (elems sk)) \<and>
    fst (OPENSSL_sk_shift (Some sk)) = (if elems sk = [] then 0 else hd (elems sk)) \<and>
    map_option elems (snd (OPENSSL_sk_shift (Some sk))) = Some (tl (elems sk)) \<and>
    map_option elems (snd (OPENSSL_sk_delete_ptr (Some sk) p)) = Some (remove1 p (elems sk)) \<and>
    map_option elems (fst (OPENSSL_sk_delete_if (Some sk) (\<lambda>p st. (P p, st)) (0 :: nat))) =
      Some (filter (\<lambda>p. \<not> P p) (elems sk))"
proof -
  note len = length_elems [OF ok]
  have val: "OPENSSL_sk_value (Some sk) i = (if i < length (elems sk) then elems sk ! i else 0)"
    using len by (auto simp: OPENSSL_sk_value_def elems_nth)
  have push: "map_option elems (snd (OPENSSL_sk_push E sk p)) =
      Some (if fst (OPENSSL_sk_push E sk p) = 0 then elems sk else elems sk @ [p])"
    using sk_insert_elems [OF ok, of E p "num sk"] len
    by (cases "OPENSSL_sk_insert E (Some sk) p (num sk)") (auto simp: OPENSSL_sk_push_def)
  have pop: "fst (OPENSSL_sk_pop (Some sk)) = (if elems sk = [] then 0 else last (elems sk)) \<and>
      map_option elems (snd (OPENSSL_sk_pop (Some sk))) = Some (butlast (elems sk))"
  proof (cases "num sk = 0")
    case False
    obtain q s where d: "OPENSSL_sk_delete (Some sk) (num sk - 1) = (q, s)" by fastforce
    have "elems sk \<noteq> []" "Suc (num sk - 1) = num sk" using False len by auto
    with sk_delete_elems [OF ok d] d False len show ?thesis
      by (auto simp: OPENSSL_sk_pop_def last_conv_nth butlast_conv_take)
  qed (use len in \<open>simp add: OPENSSL_sk_pop_def\<close>)
  have shift: "fst (OPENSSL_sk_shift (Some sk)) = (if elems sk = [] then 0 else hd (elems sk)) \<and>
      map_option elems (snd (OPENSSL_sk_shift (Some sk))) = Some (tl (elems sk))"
  proof (cases "num sk = 0")
    case False
    obtain q s where d: "OPENSSL_sk_delete (Some sk) 0 = (q, s)" by fastforce
    have "elems sk \<noteq> []" using False len by auto
    with sk_delete_elems [OF ok d] d False show ?thesis
      by (auto simp: OPENSSL_sk_shift_def hd_conv_nth drop_Suc)
  qed (use len in \<open>simp add: OPENSSL_sk_shift_def\<close>)
  have del: "map_option elems (snd (OPENSSL_sk_delete_ptr (Some sk) p)) = Some (remove1 p (elems sk))"
    using sk_delete_ptr_elems [OF ok, of p] by (cases "OPENSSL_sk_delete_ptr (Some sk) p") auto
  have keep: "map_option elems (fst (OPENSSL_sk_delete_if (Some sk) (\<lambda>p st. (P p, st)) (0 :: nat))) =
      Some (filter (\<lambda>p. \<not> P p) (elems sk))"
    using sk_delete_if_elems [OF ok, of "\<lambda>p st. (P p, st)" "0 :: nat"]
    by (cases "OPENSSL_sk_delete_if (Some sk) (\<lambda>p st. (P p, st)) (0 :: nat)") (auto simp: kept_filter)
  show ?thesis using len val push pop shift del keep by (simp add: OPENSSL_sk_num_def)
qed

theorem sk_refines_list_witness:
  "OPENSSL_sk_num (Some demo_stack) = length (elems demo_stack) \<and>
    OPENSSL_sk_value (Some demo_stack) 1 = (if 1 < length (elems demo_stack) then elems demo_stack ! 1 else 0) \<and>
    map_option elems (snd (OPENSSL_sk_push calm_heap demo_stack 5)) =
      Some (if fst (OPENSSL_sk_push calm_heap demo_stack 5) = 0 then elems demo_stack else elems demo_stack @ [5]) \<and>
    fst (OPENSSL_sk_pop (Some demo_stack)) = (if elems demo_stack = [] then 0 else last (elems demo_stack)) \<and>
    map_option elems (snd (OPENSSL_sk_pop (Some demo_stack))) = Some (butlast (elems demo_stack)) \<and>
    fst (OPENSSL_sk_shift (Some demo_stack)) = (if elems demo_stack = [] then 0 else hd (elems demo_stack)) \<and>
    map_option elems (snd (OPENSSL_sk_shift (Some demo_stack))) = Some (tl (elems demo_stack)) \<and>
    map_option elems (snd (OPENSSL_sk_delete_ptr (Some demo_stack) 5)) = Some (remove1 5 (elems demo_stack)) \<and>
    map_option elems (fst (OPENSSL_sk_delete_if (Some demo_stack) (\<lambda>p st. (p = 2, st)) (0 :: nat))) =
      Some (filter (\<lambda>p. \<not> p = 2) (elems demo_stack))"
  by (rule sk_refines_list [OF conjunct1 [OF demo_stack_ok]])

text \<open>Insertion is bounded. It fails only when the stack holds \<open>INT_MAX\<close> pointers or the array is
  full and \<open>realloc\<close> cannot serve twice its size, and then changes nothing; otherwise it puts the
  pointer before the one at the index, or at the end, keeps the order of the others, and returns the
  new length.\<close>

theorem sk_insert_exact:
  assumes ok: "stack_ok sk"
  shows "OPENSSL_sk_insert E (Some sk) p w = (0, Some sk) \<and>
      (num sk = INT_MAX \<or>
       num_alloc sk = num sk + 1 \<and> OPENSSL_realloc E (Some (ptr_bytes (data sk))) (16 * num_alloc sk) = None) \<or>
    (\<exists>s. OPENSSL_sk_insert E (Some sk) p w = (num sk + 1, Some s) \<and> stack_ok s \<and> num sk < INT_MAX \<and>
      elems s = take w (elems sk) @ [p] @ drop w (elems sk) \<and> \<not> is_sorted_flag s)"
proof -
  have full: "num_alloc sk = num sk + 1 \<and> OPENSSL_realloc E (Some (ptr_bytes (data sk))) (16 * num_alloc sk) = None"
    if "grow E sk = None" "num sk \<noteq> INT_MAX"
  proof (cases "num_alloc sk \<le> num sk + 1")
    case True
    have n: "num_alloc sk = num sk + 1" using True ok by (simp add: stack_ok_def)
    have "grown_alloc (num_alloc sk) = Some (2 * num_alloc sk, 16 * num_alloc sk)"
      by (rule grown_alloc_small) (use ok n that(2) in \<open>simp_all add: stack_ok_def\<close>)
    with that(1) n show ?thesis by (auto simp: grow_def split: option.splits)
  next
    case False
    then show ?thesis using that(1) by (simp add: grow_def)
  qed
  obtain n s where i: "OPENSSL_sk_insert E (Some sk) p w = (n, s)" by fastforce
  from sk_insert_elems [OF ok i] show ?thesis
  proof (elim disjE conjE exE)
    assume "n = 0" "s = Some sk" "num sk = INT_MAX"
    then show ?thesis using i by simp
  next
    assume "n = 0" "s = Some sk" "grow E sk = None"
    then show ?thesis using i full by blast
  next
    fix s' assume s': "s = Some s'" "stack_ok s'" "elems s' = take w (elems sk) @ p # drop w (elems sk)"
      "n = num sk + 1" "num s' = n" "\<not> is_sorted_flag s'"
    then have "num sk < INT_MAX" by (simp add: stack_ok_def)
    with s' i show ?thesis by (intro disjI2 exI [of _ s']) simp
  qed
qed

theorem sk_insert_exact_witness:
  "OPENSSL_sk_insert calm_heap (Some demo_stack) 5 1 = (0, Some demo_stack) \<and>
      (num demo_stack = INT_MAX \<or>
       num_alloc demo_stack = num demo_stack + 1 \<and>
         OPENSSL_realloc calm_heap (Some (ptr_bytes (data demo_stack))) (16 * num_alloc demo_stack) = None) \<or>
    (\<exists>s. OPENSSL_sk_insert calm_heap (Some demo_stack) 5 1 = (num demo_stack + 1, Some s) \<and> stack_ok s \<and>
      num demo_stack < INT_MAX \<and> elems s = take 1 (elems demo_stack) @ [5] @ drop 1 (elems demo_stack) \<and>
      \<not> is_sorted_flag s)"
  by (rule sk_insert_exact [OF conjunct1 [OF demo_stack_ok]])

end
