(* ===== verification/Const_Time.thy ===== *)
theory Const_Time
  imports Prelude
begin

text \<open>
  The constant-time selections of crypto/internal.h: masks of all ones or all zeros computed
  without branches. \<open>crypto_word_t\<close> is a 64-bit word; the value barriers are the identity.
\<close>

definition constant_time_msb_w :: "u64 \<Rightarrow> u64" where
  "constant_time_msb_w a = 0 - drop_bit 63 a"

definition constant_time_lt_w :: "u64 \<Rightarrow> u64 \<Rightarrow> u64" where
  "constant_time_lt_w a b = constant_time_msb_w (a XOR ((a XOR b) OR ((a - b) XOR a)))"

definition constant_time_lt_8 :: "u64 \<Rightarrow> u64 \<Rightarrow> u8" where
  "constant_time_lt_8 a b = ucast (constant_time_lt_w a b)"

definition constant_time_ge_w :: "u64 \<Rightarrow> u64 \<Rightarrow> u64" where
  "constant_time_ge_w a b = NOT (constant_time_lt_w a b)"

definition constant_time_ge_8 :: "u64 \<Rightarrow> u64 \<Rightarrow> u8" where
  "constant_time_ge_8 a b = ucast (constant_time_ge_w a b)"

definition constant_time_is_zero_w :: "u64 \<Rightarrow> u64" where
  "constant_time_is_zero_w a = constant_time_msb_w (NOT a AND (a - 1))"

definition constant_time_is_zero_8 :: "u64 \<Rightarrow> u8" where
  "constant_time_is_zero_8 a = ucast (constant_time_is_zero_w a)"

definition constant_time_eq_w :: "u64 \<Rightarrow> u64 \<Rightarrow> u64" where
  "constant_time_eq_w a b = constant_time_is_zero_w (a XOR b)"

definition constant_time_eq_8 :: "u64 \<Rightarrow> u64 \<Rightarrow> u8" where
  "constant_time_eq_8 a b = ucast (constant_time_eq_w a b)"

text \<open>A C \<open>int\<close> is a 32-bit word, converted with its sign.\<close>

definition constant_time_eq_int :: "32 word \<Rightarrow> 32 word \<Rightarrow> u64" where
  "constant_time_eq_int a b = constant_time_eq_w (scast a) (scast b)"

definition constant_time_eq_int_8 :: "32 word \<Rightarrow> 32 word \<Rightarrow> u8" where
  "constant_time_eq_int_8 a b = constant_time_eq_8 (scast a) (scast b)"

definition constant_time_select_w :: "u64 \<Rightarrow> u64 \<Rightarrow> u64 \<Rightarrow> u64" where
  "constant_time_select_w m a b = (m AND a) OR (NOT m AND b)"

definition constant_time_select_8 :: "u64 \<Rightarrow> u8 \<Rightarrow> u8 \<Rightarrow> u8" where
  "constant_time_select_8 w a b = (let m = ucast w in (m AND a) OR (NOT m AND b))"

definition constant_time_select_int :: "u64 \<Rightarrow> 32 word \<Rightarrow> 32 word \<Rightarrow> 32 word" where
  "constant_time_select_int m a b = ucast (constant_time_select_w m (scast a) (scast b))"

text \<open>The conditional copies, on buffers of at least \<open>n\<close> bytes: a byte of \<open>dst\<close> at a time.\<close>

fun constant_time_conditional_memcpy :: "u8 list \<Rightarrow> u8 list \<Rightarrow> nat \<Rightarrow> u64 \<Rightarrow> u8 list" where
  "constant_time_conditional_memcpy (d # dst) (s # src) (Suc n) m =
     constant_time_select_8 m s d # constant_time_conditional_memcpy dst src n m"
| "constant_time_conditional_memcpy dst src n m = dst"

fun constant_time_conditional_memxor :: "u8 list \<Rightarrow> u8 list \<Rightarrow> nat \<Rightarrow> u64 \<Rightarrow> u8 list" where
  "constant_time_conditional_memxor (d # dst) (s # src) (Suc n) m =
     (d XOR (ucast m AND s)) # constant_time_conditional_memxor dst src n m"
| "constant_time_conditional_memxor dst src n m = dst"

subsection \<open>What the masks are\<close>

text \<open>The mask of a condition.\<close>

definition mask_of :: "bool \<Rightarrow> 'a :: len word" where
  "mask_of c = (if c then -1 else 0)"

named_theorems ct_masks \<comment> \<open>the operations as masks of conditions\<close>

lemma msb_iff: "bit (w :: u64) 63 \<longleftrightarrow> 2 ^ 63 \<le> unat w"
proof -
  have "unat w < 2 ^ LENGTH(64)" by (rule unsigned_less)
  then have "unat w < 2 ^ 64" by simp
  then have "unat w div 2 ^ 63 = (if 2 ^ 63 \<le> unat w then 1 else 0)" by (auto simp: div_nat_eqI)
  moreover have "bit w 63 \<longleftrightarrow> bit (unat w) 63" by (simp add: bit_simps)
  ultimately show ?thesis by (simp add: bit_iff_odd)
qed

lemma msb_mask [ct_masks]: "constant_time_msb_w a = mask_of (bit a 63)"
proof -
  have "unat a < 2 ^ LENGTH(64)" by (rule unsigned_less)
  then have "unat a div 2 ^ 63 = (if 2 ^ 63 \<le> unat a then 1 else 0)" by (auto simp: div_nat_eqI)
  then have "drop_bit 63 a = of_bool (bit a 63)" by (simp add: msb_iff word_unat_eq_iff unat_drop_bit)
  then show ?thesis by (simp add: constant_time_msb_w_def mask_of_def)
qed

lemma sub_msb:
  fixes a b :: u64
  assumes "bit a 63 = bit b 63"
  shows "bit (a - b) 63 \<longleftrightarrow> a < b"
proof -
  have "unat w < 2 ^ LENGTH(64)" for w :: u64 by (rule unsigned_less)
  then have la: "unat a < 2 ^ 64" and lb: "unat b < 2 ^ 64" by simp_all
  show ?thesis
  proof (cases "b \<le> a")
    case True
    then have "unat (a - b) = unat a - unat b" by (rule unat_sub)
    then show ?thesis using assms True la lb by (auto simp: msb_iff word_le_nat_alt word_less_nat_alt)
  next
    case False
    then have ab: "unat a < unat b" by (simp add: word_le_nat_alt)
    moreover have "unat (a - b) = unat a + 2 ^ 64 - unat b"
      using ab lb by (simp add: unat_sub_if' not_le)
    ultimately show ?thesis using assms la lb by (simp add: msb_iff word_less_nat_alt) linarith
  qed
qed

lemma lt_mask [ct_masks]: "constant_time_lt_w a b = mask_of (a < b)"
proof -
  have "bit (a XOR ((a XOR b) OR ((a - b) XOR a))) 63 \<longleftrightarrow> a < b"
  proof (cases "bit a 63 = bit b 63")
    case True
    then show ?thesis using sub_msb [OF True] by (auto simp: bit_simps)
  next
    case False
    then have "a < b \<longleftrightarrow> bit b 63" using msb_iff [of a] msb_iff [of b] by (auto simp: word_less_nat_alt)
    then show ?thesis using False by (auto simp: bit_simps)
  qed
  then show ?thesis by (simp add: constant_time_lt_w_def msb_mask)
qed

lemma not_mask_of: "NOT (mask_of c) = mask_of (\<not> c)"
  by (simp add: mask_of_def)

lemma ucast_minus_one [simp]: "ucast (- 1 :: u64) = (- 1 :: u8)" "ucast (- 1 :: u8) = (- 1 :: u8)"
  by (rule bit_word_eqI, simp add: bit_simps)+

lemma ucast_mask_of [simp]: "ucast (mask_of c :: u64) = (mask_of c :: u8)"
  by (simp add: mask_of_def)

lemma ge_mask [ct_masks]: "constant_time_ge_w a b = mask_of (b \<le> a)"
  by (simp add: constant_time_ge_w_def lt_mask not_mask_of not_less)

lemma is_zero_mask [ct_masks]: "constant_time_is_zero_w a = mask_of (a = 0)"
proof -
  have "bit (NOT a AND (a - 1)) 63 \<longleftrightarrow> a = 0"
  proof (cases "a = 0")
    case False
    then have "0 < unat a" by (simp add: unat_gt_0)
    then have "unat (a - 1) = unat a - 1" by (simp add: unat_minus_one [OF False])
    then have "bit a 63 \<or> \<not> bit (a - 1) 63" using msb_iff [of a] msb_iff [of "a - 1"] by auto
    then show ?thesis using False by (auto simp: bit_simps)
  qed (simp add: bit_simps)
  then show ?thesis by (simp add: constant_time_is_zero_w_def msb_mask)
qed

lemma eq_mask [ct_masks]: "constant_time_eq_w a b = mask_of (a = b)"
proof -
  have "a XOR b = 0 \<longleftrightarrow> a = b" by (simp add: bit_eq_iff bit_simps)
  then show ?thesis by (simp add: constant_time_eq_w_def is_zero_mask)
qed

lemma byte_masks [ct_masks]:
  "constant_time_lt_8 a b = mask_of (a < b)" "constant_time_ge_8 a b = mask_of (b \<le> a)"
  "constant_time_is_zero_8 a = mask_of (a = 0)" "constant_time_eq_8 a b = mask_of (a = b)"
  by (simp_all add: constant_time_lt_8_def constant_time_ge_8_def constant_time_is_zero_8_def
      constant_time_eq_8_def lt_mask ge_mask is_zero_mask eq_mask)

lemma scast_eq_iff: "(scast (a :: u32) :: u64) = scast b \<longleftrightarrow> a = b"
proof
  assume "(scast a :: u64) = scast b"
  then have "sint (scast a :: u64) = sint (scast b :: u64)" by simp
  then have "sint a = sint b" by (simp add: sint_up_scast is_up)
  then show "a = b" by (rule signed_word_eqI)
qed simp

lemma eq_int_masks [ct_masks]:
  "constant_time_eq_int a b = mask_of (a = b)" "constant_time_eq_int_8 a b = mask_of (a = b)"
  by (simp_all add: constant_time_eq_int_def constant_time_eq_int_8_def ct_masks scast_eq_iff)

lemma select_mask [ct_masks]:
  "constant_time_select_w (mask_of c) a b = (if c then a else b)"
  "constant_time_select_8 (mask_of c) x y = (if c then x else y)"
  by (simp_all add: constant_time_select_w_def constant_time_select_8_def mask_of_def Let_def)

text \<open>A mask that was computed as a byte.\<close>

lemma select_8_byte [ct_masks]: "constant_time_select_8 (ucast (mask_of c :: u8)) x y = (if c then x else y)"
proof -
  have "ucast (ucast (- 1 :: u8) :: u64) = (- 1 :: u8)" by (rule bit_word_eqI) (simp add: bit_simps)
  then show ?thesis by (simp add: constant_time_select_8_def mask_of_def Let_def)
qed

lemma select_int_mask [ct_masks]: "constant_time_select_int (mask_of c) a b = (if c then a else b)"
proof -
  have "ucast (scast x :: u64) = x" for x :: u32 by (rule bit_word_eqI) (simp add: bit_simps)
  then show ?thesis by (simp add: constant_time_select_int_def select_mask)
qed

lemma memcpy_mask:
  "constant_time_conditional_memcpy dst src n (mask_of c) =
     (if c then take n src @ drop n dst else dst)" if "n \<le> length src" "n \<le> length dst"
  using that
proof (induction dst src n "mask_of c :: u64" rule: constant_time_conditional_memcpy.induct)
  case (1 d dst s src n)
  then show ?case by (simp add: select_mask)
qed auto

lemma memxor_mask:
  "constant_time_conditional_memxor dst src n (mask_of c) =
     (if c then map2 (XOR) (take n dst) (take n src) @ drop n dst else dst)" if "n \<le> length src" "n \<le> length dst"
  using that
proof (induction dst src n "mask_of c :: u64" rule: constant_time_conditional_memxor.induct)
  case (1 d dst s src n)
  then show ?case by (simp add: mask_of_def)
qed auto

text \<open>The constant-time operations compute what their names say, on every pair of words: a
  selection by the mask of a comparison, an equality or a test for zero chooses the operand that a
  branch on that condition would choose, for words, bytes and integers.\<close>

theorem constant_time_ops_select:
  "constant_time_select_w (constant_time_lt_w a b) x y = (if a < b then x else y) \<and>
   constant_time_select_w (constant_time_ge_w a b) x y = (if b \<le> a then x else y) \<and>
   constant_time_select_w (constant_time_eq_w a b) x y = (if a = b then x else y) \<and>
   constant_time_select_w (constant_time_is_zero_w a) x y = (if a = 0 then x else y) \<and>
   constant_time_select_8 (ucast (constant_time_lt_8 a b)) p q = (if a < b then p else q) \<and>
   constant_time_select_8 (ucast (constant_time_eq_8 a b)) p q = (if a = b then p else q) \<and>
   constant_time_select_int (constant_time_eq_int i j) m n = (if i = j then m else n)"
  by (simp add: ct_masks)

end
