(* ===== verification/Base64_Codec.thy ===== *)
theory Base64_Codec
  imports Const_Time Mem
begin

text \<open>
  crypto/base64/base64.c: the constant-time base64 codec, one-shot and streaming. A function that
  writes to \<open>out\<close> returns the bytes it wrote, in order.
\<close>

subsection \<open>Characters\<close>

definition constant_time_lt_args_8 :: "u8 \<Rightarrow> u8 \<Rightarrow> u8" where
  "constant_time_lt_args_8 a b = (let aw = ucast a; bw = ucast b in ucast (constant_time_msb_w (aw - bw)))"

definition constant_time_in_range_8 :: "u8 \<Rightarrow> u8 \<Rightarrow> u8 \<Rightarrow> u8" where
  "constant_time_in_range_8 a mn mx = constant_time_lt_args_8 (a - mn) (mx - mn + 1)"

definition conv_bin2ascii :: "u8 \<Rightarrow> u8" where
  "conv_bin2ascii a =
     (let a = a AND 0x3f;
          ret = constant_time_select_8 (ucast (constant_time_eq_8 (ucast a) 62)) 43 47;
          ret = constant_time_select_8 (ucast (constant_time_lt_args_8 a 62)) (a - 52 + 48) ret;
          ret = constant_time_select_8 (ucast (constant_time_lt_args_8 a 52)) (a - 26 + 97) ret;
          ret = constant_time_select_8 (ucast (constant_time_lt_args_8 a 26)) (a + 65) ret
      in ret)"

definition base64_ascii_to_bin :: "u8 \<Rightarrow> u8" where
  "base64_ascii_to_bin a =
     (let is_upper = constant_time_in_range_8 a 65 90;
          is_lower = constant_time_in_range_8 a 97 122;
          is_digit = constant_time_in_range_8 a 48 57;
          is_plus = constant_time_eq_8 (ucast a) 43;
          is_slash = constant_time_eq_8 (ucast a) 47;
          is_equals = constant_time_eq_8 (ucast a) 61;
          ret = 0;
          ret = ret OR (is_upper AND (a - 65));
          ret = ret OR (is_lower AND (a - 97 + 26));
          ret = ret OR (is_digit AND (a - 48 + 52));
          ret = ret OR (is_plus AND 62);
          ret = ret OR (is_slash AND 63);
          is_valid = is_upper OR is_lower OR is_digit OR is_plus OR is_slash OR is_equals
      in ret OR NOT is_valid)"

subsection \<open>Encoding\<close>

definition EVP_EncodedLength :: "nat \<Rightarrow> nat option" where
  "EVP_EncodedLength len =
     (if size_wrap (len + 2) < len then None
      else
        let len = size_wrap (len + 2) div 3 in
        if size_wrap (len * 4) div 4 \<noteq> len then None
        else
          let len = size_wrap (len * 4) in
          if size_wrap (len + 1) < len then None else Some (size_wrap (len + 1)))"

text \<open>The characters of a block; a shift of the 32-bit \<open>l\<close> is cut to a byte in the call.\<close>

fun encode_loop :: "u8 list \<Rightarrow> u8 list" where
  "encode_loop (a # b # c # src) =
     (let l = push_bit 16 (ucast a) OR push_bit 8 (ucast b) OR ucast c :: u32
      in conv_bin2ascii (ucast (drop_bit 18 l)) # conv_bin2ascii (ucast (drop_bit 12 l)) #
         conv_bin2ascii (ucast (drop_bit 6 l)) # conv_bin2ascii (ucast l) # encode_loop src)"
| "encode_loop [a, b] =
     (let l = push_bit 16 (ucast a) OR push_bit 8 (ucast b) :: u32
      in [conv_bin2ascii (ucast (drop_bit 18 l)), conv_bin2ascii (ucast (drop_bit 12 l)),
          conv_bin2ascii (ucast (drop_bit 6 l)), 61])"
| "encode_loop [a] =
     (let l = push_bit 16 (ucast a) :: u32
      in [conv_bin2ascii (ucast (drop_bit 18 l)), conv_bin2ascii (ucast (drop_bit 12 l)), 61, 61])"
| "encode_loop [] = []"

text \<open>The bytes written, with the final NUL, and the result.\<close>

definition EVP_EncodeBlock :: "u8 list \<Rightarrow> u8 list \<times> nat" where
  "EVP_EncodeBlock src = (encode_loop src @ [0], size_wrap (length (encode_loop src)))"

record evp_encode_ctx =
  data_used :: nat
  ctx_data :: "u8 list"
  eof_seen :: bool
  error_encountered :: bool

definition EVP_EncodeInit :: evp_encode_ctx where
  "EVP_EncodeInit = \<lparr>data_used = 0, ctx_data = replicate 48 0, eof_seen = False, error_encountered = False\<rparr>"

definition EVP_DecodeInit :: evp_encode_ctx where
  "EVP_DecodeInit = \<lparr>data_used = 0, ctx_data = replicate 48 0, eof_seen = False, error_encountered = False\<rparr>"

text \<open>The loop over whole lines: \<open>None\<close> when the total overflows, else what was written (each line
  and its newline), what is left of the input, and the total.\<close>

function lines_loop :: "nat \<Rightarrow> u8 list \<Rightarrow> (u8 list \<times> u8 list \<times> nat) option" where
  "lines_loop tot in' =
     (if 48 \<le> length in' then
        (case EVP_EncodeBlock (take 48 in') of (bs, encoded) \<Rightarrow>
           if size_wrap (tot + encoded + 1) < tot then None
           else
             (case lines_loop (size_wrap (tot + encoded + 1)) (drop 48 in') of
                None \<Rightarrow> None
              | Some (out, rest, t) \<Rightarrow> Some (take encoded bs @ [10] @ out, rest, t)))
      else Some ([], in', tot))"
  by auto
termination by (relation "measure (\<lambda>(tot, in'). length in')") auto

declare lines_loop.simps [simp del]

text \<open>The characters written before the last NUL, \<open>out_len\<close>, and the context. When the tot
  overflows, the output is not described by \<open>out_len\<close>, which is 0.\<close>

definition EVP_EncodeUpdate :: "evp_encode_ctx \<Rightarrow> u8 list \<Rightarrow> u8 list \<times> nat \<times> evp_encode_ctx" where
  "EVP_EncodeUpdate ctx in' =
     (if in' = [] then ([], 0, ctx)
      else if length in' < 48 - data_used ctx then
        ([], 0, ctx\<lparr>ctx_data := take (data_used ctx) (ctx_data ctx) @ in' @ drop (data_used ctx + length in') (ctx_data ctx),
           data_used := data_used ctx + length in'\<rparr>)
      else
        (case (if data_used ctx \<noteq> 0
               then
                 let todo = 48 - data_used ctx;
                     full = take (data_used ctx) (ctx_data ctx) @ take todo in';
                     (bs, encoded) = EVP_EncodeBlock full
                 in (take encoded bs @ [10], drop todo in', encoded + 1, ctx\<lparr>ctx_data := full, data_used := 0\<rparr>)
               else ([], in', 0, ctx)) of
           (out1, in1, tot, ctx) \<Rightarrow>
             (case lines_loop tot in1 of
                None \<Rightarrow> (out1, 0, ctx)
              | Some (out2, in2, tot) \<Rightarrow>
                  let ctx = (if in2 \<noteq> [] then ctx\<lparr>ctx_data := in2 @ drop (length in2) (ctx_data ctx)\<rparr> else ctx);
                      tot = (if INT_MAX < tot then 0 else tot)
                  in (out1 @ out2, tot, ctx\<lparr>data_used := length in2\<rparr>))))"

definition EVP_EncodeFinal :: "evp_encode_ctx \<Rightarrow> u8 list \<times> nat \<times> evp_encode_ctx" where
  "EVP_EncodeFinal ctx =
     (if data_used ctx = 0 then ([], 0, ctx)
      else
        (case EVP_EncodeBlock (take (data_used ctx) (ctx_data ctx)) of (bs, encoded) \<Rightarrow>
           (take encoded bs @ [10], encoded + 1, ctx\<lparr>data_used := 0\<rparr>)))"

subsection \<open>Decoding\<close>

definition EVP_DecodedLength :: "nat \<Rightarrow> nat option" where
  "EVP_DecodedLength len = (if len mod 4 \<noteq> 0 then None else Some (size_wrap (len div 4 * 3)))"

text \<open>The bytes written for a quad; their number is \<open>out_num_bytes\<close>.\<close>

definition base64_decode_quad :: "u8 list \<Rightarrow> u8 list option" where
  "base64_decode_quad in' =
     (let a = base64_ascii_to_bin (in' ! 0);
          b = base64_ascii_to_bin (in' ! 1);
          c = base64_ascii_to_bin (in' ! 2);
          d = base64_ascii_to_bin (in' ! 3)
      in if a = 0xff \<or> b = 0xff \<or> c = 0xff \<or> d = 0xff then None
         else
           let v = push_bit 18 (ucast a) OR push_bit 12 (ucast b) OR push_bit 6 (ucast c) OR ucast d :: u32;
               padding_pattern = of_bool (in' ! 0 = 61) * 8 + of_bool (in' ! 1 = 61) * 4 +
                 of_bool (in' ! 2 = 61) * 2 + of_bool (in' ! 3 = 61) :: nat
           in if padding_pattern = 0 then Some [ucast (drop_bit 16 v), ucast (drop_bit 8 v), ucast v]
              else if padding_pattern = 1 then Some [ucast (drop_bit 16 v), ucast (drop_bit 8 v)]
              else if padding_pattern = 3 then Some [ucast (drop_bit 16 v)]
              else None)"

definition is_space :: "u8 \<Rightarrow> bool" where
  "is_space c \<longleftrightarrow> c = 32 \<or> c = 9 \<or> c = 13 \<or> c = 10"

text \<open>The loop of \<open>EVP_DecodeUpdate\<close>: whether it got to the end, the bytes written, the context.\<close>

fun decode_chars :: "evp_encode_ctx \<Rightarrow> u8 list \<Rightarrow> bool \<times> u8 list \<times> evp_encode_ctx" where
  "decode_chars ctx [] = (True, [], ctx)"
| "decode_chars ctx (c # in') =
     (if is_space c then decode_chars ctx in'
      else if eof_seen ctx then (False, [], ctx\<lparr>error_encountered := True\<rparr>)
      else
        let ctx = ctx\<lparr>ctx_data := (ctx_data ctx)[data_used ctx := c], data_used := data_used ctx + 1\<rparr> in
        if data_used ctx = 4 then
          (case base64_decode_quad (ctx_data ctx) of
             None \<Rightarrow> (False, [], ctx\<lparr>error_encountered := True\<rparr>)
           | Some bs \<Rightarrow>
               let ctx = ctx\<lparr>data_used := 0, eof_seen := eof_seen ctx \<or> length bs < 3\<rparr> in
               (case decode_chars ctx in' of (ok, out, ctx) \<Rightarrow> (ok, bs @ out, ctx)))
        else decode_chars ctx in')"

text \<open>The result, the bytes written, \<open>out_len\<close> and the context.\<close>

definition EVP_DecodeUpdate :: "evp_encode_ctx \<Rightarrow> u8 list \<Rightarrow> int \<times> u8 list \<times> nat \<times> evp_encode_ctx" where
  "EVP_DecodeUpdate ctx in' =
     (if error_encountered ctx then (-1, [], 0, ctx)
      else
        (case decode_chars ctx in' of (ok, out, ctx) \<Rightarrow>
           if \<not> ok then (-1, out, 0, ctx)
           else if INT_MAX < length out then (-1, out, 0, ctx\<lparr>error_encountered := True\<rparr>)
           else (if eof_seen ctx then 0 else 1, out, length out, ctx)))"

definition EVP_DecodeFinal :: "evp_encode_ctx \<Rightarrow> int" where
  "EVP_DecodeFinal ctx = (if error_encountered ctx \<or> data_used ctx \<noteq> 0 then -1 else 1)"

text \<open>The loop of \<open>EVP_DecodeBase64\<close> on whole quads.\<close>

function quads_loop :: "u8 list \<Rightarrow> u8 list option" where
  "quads_loop in' =
     (if in' = [] then Some []
      else
        (case base64_decode_quad (take 4 in') of
           None \<Rightarrow> None
         | Some bs \<Rightarrow>
             if length bs \<noteq> 3 \<and> length in' \<noteq> 4 then None
             else (case quads_loop (drop 4 in') of None \<Rightarrow> None | Some out \<Rightarrow> Some (bs @ out))))"
  by auto
termination by (relation "measure length") auto

declare quads_loop.simps [simp del]

definition EVP_DecodeBase64 :: "nat \<Rightarrow> u8 list \<Rightarrow> u8 list option" where
  "EVP_DecodeBase64 max_out in' =
     (if length in' mod 4 \<noteq> 0 then None
      else
        (case EVP_DecodedLength (length in') of
           None \<Rightarrow> None
         | Some max_len \<Rightarrow> if max_out < max_len then None else quads_loop in'))"

fun trim_start :: "u8 list \<Rightarrow> u8 list" where
  "trim_start (c # src) = (if c \<noteq> 32 \<and> c \<noteq> 9 then c # src else trim_start src)"
| "trim_start [] = []"

function trim_end :: "u8 list \<Rightarrow> u8 list" where
  "trim_end src = (if src \<noteq> [] \<and> is_space (last src) then trim_end (butlast src) else src)"
  by auto
termination by (relation "measure length") auto

declare trim_end.simps [simp del]

text \<open>The bytes in the output, padded with NULs to a multiple of three, or failure.\<close>

definition EVP_DecodeBlock :: "u8 list \<Rightarrow> u8 list option" where
  "EVP_DecodeBlock src =
     (let src = trim_end (trim_start src) in
      case EVP_DecodedLength (length src) of
        None \<Rightarrow> None
      | Some dst_len \<Rightarrow>
          if INT_MAX < dst_len then None
          else
            (case EVP_DecodeBase64 dst_len src of
               None \<Rightarrow> None
             | Some dst \<Rightarrow> Some (dst @ replicate ((3 - length dst mod 3) mod 3) 0)))"

subsection \<open>Characters: the tables\<close>

lemma lt_args_mask [ct_masks]: "constant_time_lt_args_8 a b = mask_of (a < b)"
proof -
  have "\<not> bit (w :: u8) 63" for w using bit_imp_le_length [of w 63] by auto
  then have "\<not> bit (ucast w :: u64) 63" for w :: u8 by (simp add: bit_simps)
  then have "bit (ucast a - ucast b :: u64) 63 \<longleftrightarrow> (ucast a :: u64) < ucast b" by (intro sub_msb) simp
  also have "\<dots> \<longleftrightarrow> a < b" by (simp add: word_less_nat_alt)
  finally show ?thesis by (simp add: constant_time_lt_args_8_def Let_def msb_mask)
qed

lemma in_range_mask [ct_masks]: "constant_time_in_range_8 a mn mx = mask_of (a - mn < mx - mn + 1)"
  by (simp add: constant_time_in_range_8_def lt_args_mask)

lemma ucast_eq_byte: "(ucast (a :: u8) :: u64) = numeral n \<longleftrightarrow> unat a = unat (numeral n :: u64)"
  by (simp add: word_unat_eq_iff)

definition char_of_sextet :: "u8 \<Rightarrow> u8" where
  "char_of_sextet x =
     (if x < 26 then x + 65 else if x < 52 then x - 26 + 97 else if x < 62 then x - 52 + 48 else if x = 62 then 43 else 47)"

lemma conv_bin2ascii_eq: "conv_bin2ascii a = char_of_sextet (a AND 0x3f)"
  by (auto simp: conv_bin2ascii_def char_of_sextet_def Let_def ct_masks ucast_eq_byte word_unat_eq_iff)

lemma byte_range:
  "unat mn + unat k \<le> 256 \<Longrightarrow> (a :: u8) - mn < k \<longleftrightarrow> unat mn \<le> unat a \<and> unat a < unat mn + unat k"
proof -
  assume k: "unat mn + unat k \<le> 256"
  have l: "unat a < 256" "unat mn < 256" by (rule byte_lt)+
  show ?thesis
  proof (cases "unat mn \<le> unat a")
    case True
    then have "unat (a - mn) = unat a - unat mn" by (simp add: unat_sub word_le_nat_alt)
    then show ?thesis using True by (auto simp: word_less_nat_alt)
  next
    case False
    then have "unat (a - mn) = unat a + 256 - unat mn" using l by (simp add: unat_sub_if')
    then show ?thesis using False k by (auto simp: word_less_nat_alt)
  qed
qed

definition sextet_of_char :: "u8 \<Rightarrow> u8" where
  "sextet_of_char a =
     (if 65 \<le> unat a \<and> unat a < 91 then a - 65 else if 97 \<le> unat a \<and> unat a < 123 then a - 97 + 26
      else if 48 \<le> unat a \<and> unat a < 58 then a - 48 + 52
      else if unat a = 43 then 62 else if unat a = 47 then 63 else if unat a = 61 then 0 else 0xff)"

lemma ascii_to_bin_eq: "base64_ascii_to_bin a = sextet_of_char a"
proof -
  have u: "unat a = unat b \<longleftrightarrow> a = b" for b by (simp add: word_unat_eq_iff)
  have r: "a - 65 < 26 \<longleftrightarrow> 65 \<le> unat a \<and> unat a < 91" "a - 97 < 26 \<longleftrightarrow> 97 \<le> unat a \<and> unat a < 123"
    "a - 48 < 10 \<longleftrightarrow> 48 \<le> unat a \<and> unat a < 58"
    using byte_range [of 65 26 a] byte_range [of 97 26 a] byte_range [of 48 10 a] by simp_all
  have m: "mask_of c AND w = (if c then w else 0)" "mask_of c OR mask_of d = mask_of (c \<or> d)"
    "NOT (mask_of c) = mask_of (\<not> c)" for c d and w :: u8 by (simp_all add: mask_of_def)
  show ?thesis unfolding base64_ascii_to_bin_def Let_def ct_masks
    by (simp add: r m ucast_eq_byte) (auto simp: sextet_of_char_def mask_of_def)
qed

lemma sextet_roundtrip: "x < 64 \<Longrightarrow> sextet_of_char (char_of_sextet x) = x"
proof -
  assume x: "x < 64"
  then have u: "unat x < 64" by (simp add: word_less_nat_alt)
  consider "x < 26" | "26 \<le> x" "x < 52" | "52 \<le> x" "x < 62" | "x = 62" | "x = 63"
    using x by (auto simp: word_less_nat_alt word_le_nat_alt word_unat_eq_iff not_less) linarith
  then show ?thesis
  proof cases
    case 1
    then have "unat (x + 65) = unat x + 65" by (simp add: unat_word_ariths word_less_nat_alt)
    with 1 show ?thesis by (simp add: char_of_sextet_def sextet_of_char_def word_less_nat_alt)
  next
    case 2
    then have "unat (x - 26 + 97) = unat x + 71"
      by (simp add: unat_word_ariths word_less_nat_alt word_le_nat_alt)
    with 2 show ?thesis by (simp add: char_of_sextet_def sextet_of_char_def word_less_nat_alt word_le_nat_alt)
  next
    case 3
    then have "unat (x - 52 + 48) = unat x - 4"
      by (simp add: unat_sub_if' unat_word_ariths word_less_nat_alt word_le_nat_alt)
    with 3 show ?thesis
      by (auto simp: char_of_sextet_def sextet_of_char_def word_less_nat_alt word_le_nat_alt)
  qed (simp_all add: char_of_sextet_def sextet_of_char_def)
qed

lemma char_props: "x < 64 \<Longrightarrow> char_of_sextet x \<noteq> 61 \<and> \<not> is_space (char_of_sextet x) \<and> x \<noteq> 0xff"
proof -
  assume x: "x < 64"
  have s: "sextet_of_char c = 0xff" if "is_space c" for c
    using that unfolding is_space_def by (elim disjE) (simp_all add: sextet_of_char_def)
  have "char_of_sextet x \<noteq> 61"
  proof
    assume e: "char_of_sextet x = 61"
    then have "x = 0" using sextet_roundtrip [OF x] by (simp add: sextet_of_char_def)
    with e show False by (simp add: char_of_sextet_def)
  qed
  moreover have "x \<noteq> 0xff" using x by (auto simp: word_less_nat_alt)
  ultimately show ?thesis using s [of "char_of_sextet x"] sextet_roundtrip [OF x] by auto
qed

lemma sextet_lt: "(x :: u8) AND 63 < 64"
proof -
  have "unat (x AND 63) = unat x mod 64" using unat_and_mask [of x 6] by (simp add: mask_eq_exp_minus_1)
  then show ?thesis by (simp add: word_less_nat_alt)
qed

lemma conv_props [simp]:
  "conv_bin2ascii a \<noteq> 61" "\<not> is_space (conv_bin2ascii a)"
  "base64_ascii_to_bin (conv_bin2ascii a) = a AND 63" "a AND 63 \<noteq> (255 :: u8)"
  using char_props [OF sextet_lt, of a] sextet_roundtrip [OF sextet_lt, of a]
  by (simp_all add: conv_bin2ascii_eq ascii_to_bin_eq)

lemma pad_props [simp]: "base64_ascii_to_bin 61 = 0" "\<not> is_space 61"
  by (simp_all add: ascii_to_bin_eq sextet_of_char_def is_space_def)

subsection \<open>Quads\<close>

lemma next_sextet:
  "push_bit k (take_bit 6 (drop_bit k v)) OR push_bit (k + 6) (drop_bit (k + 6) v) =
     push_bit k (drop_bit k (v :: 'a :: len word))"
proof (rule bit_word_eqI)
  fix n
  assume "n < LENGTH('a)"
  then show "bit (push_bit k (take_bit 6 (drop_bit k v)) OR push_bit (k + 6) (drop_bit (k + 6) v)) n =
      bit (push_bit k (drop_bit k v)) n"
    by (cases "n < k"; cases "n - k < 6") (auto simp: bit_simps)
qed

lemma ucast_sextet: "ucast (ucast v AND 63 :: u8) = (take_bit 6 (v :: u32))"
proof -
  have m: "(63 :: u8) = mask 6" by (simp add: mask_eq_exp_minus_1)
  show ?thesis unfolding m by (intro bit_word_eqI) (auto simp: bit_simps)
qed

lemma sextets_join:
  assumes "unat (l :: u32) < 2 ^ 24"
  shows "push_bit 18 (ucast (ucast (drop_bit 18 l) AND 63 :: u8)) OR push_bit 12 (ucast (ucast (drop_bit 12 l) AND 63 :: u8)) OR
    push_bit 6 (ucast (ucast (drop_bit 6 l) AND 63 :: u8)) OR ucast (ucast l AND 63 :: u8) = l"
proof -
  have "unat (drop_bit 18 l) < 2 ^ 6" using assms by (simp add: unat_drop_bit)
  then have top: "take_bit 6 (drop_bit 18 l) = drop_bit 18 l" by (rule take_bit_small)
  have "take_bit 6 l OR push_bit 6 (take_bit 6 (drop_bit 6 l)) OR push_bit 12 (take_bit 6 (drop_bit 12 l)) OR
      push_bit 18 (drop_bit 18 l) = l"
    using next_sextet [of 0 l] next_sextet [of 6 l] next_sextet [of 12 l] by (simp add: or.assoc)
  then show ?thesis unfolding ucast_sextet top by (simp only: ac_simps)
qed

definition triple :: "u8 \<Rightarrow> u8 \<Rightarrow> u8 \<Rightarrow> u32" where
  "triple a b c = push_bit 16 (ucast a) OR push_bit 8 (ucast b) OR ucast c"

lemma triple_bytes:
  "ucast (drop_bit 16 (triple a b c)) = a" "ucast (drop_bit 8 (triple a b c)) = b" "ucast (triple a b c) = c"
  unfolding triple_def by (rule bit_word_eqI; auto simp: bit_simps dest: bit_imp_le_length)+

lemma triple_small: "unat (triple a b c) < 2 ^ 24"
proof -
  have "unat (triple a b c) = unat a * 65536 + unat (push_bit 8 (ucast b) OR ucast c :: u32)"
    using byte_lt [of a] byte_lt [of b] byte_lt [of c] unat_push_or [of "ucast c :: u32" 8 "ucast b"]
    unfolding triple_def by (subst unat_push_or) simp_all
  also have "unat (push_bit 8 (ucast b) OR ucast c :: u32) = unat b * 256 + unat c"
    using byte_lt [of b] byte_lt [of c] by (subst unat_push_or) simp_all
  finally show ?thesis using byte_lt [of a] byte_lt [of b] byte_lt [of c] by simp
qed

lemma triple_short: "triple a b 0 = push_bit 16 (ucast a) OR push_bit 8 (ucast b)" "triple a 0 0 = push_bit 16 (ucast a)"
  by (simp_all add: triple_def)

lemma triple_low: "ucast (triple a b 0) AND (63 :: u8) = 0" "ucast (drop_bit 6 (triple a 0 0)) AND (63 :: u8) = 0"
proof -
  have m: "(63 :: u8) = mask 6" by (simp add: mask_eq_exp_minus_1)
  show "ucast (triple a b 0) AND (63 :: u8) = 0" by (simp only: triple_bytes) simp
  show "ucast (drop_bit 6 (triple a 0 0)) AND (63 :: u8) = 0"
    unfolding m triple_def by (rule bit_word_eqI) (auto simp: bit_simps)
qed

text \<open>A quad that the encoder wrote.\<close>

definition quad3 :: "u32 \<Rightarrow> u8 list" where
  "quad3 l = [conv_bin2ascii (ucast (drop_bit 18 l)), conv_bin2ascii (ucast (drop_bit 12 l)),
     conv_bin2ascii (ucast (drop_bit 6 l)), conv_bin2ascii (ucast l)]"

definition quad2 :: "u32 \<Rightarrow> u8 list" where
  "quad2 l = [conv_bin2ascii (ucast (drop_bit 18 l)), conv_bin2ascii (ucast (drop_bit 12 l)),
     conv_bin2ascii (ucast (drop_bit 6 l)), 61]"

definition quad1 :: "u32 \<Rightarrow> u8 list" where
  "quad1 l = [conv_bin2ascii (ucast (drop_bit 18 l)), conv_bin2ascii (ucast (drop_bit 12 l)), 61, 61]"

lemma length_quads [simp]: "length (quad3 l) = 4" "length (quad2 l) = 4" "length (quad1 l) = 4"
  by (simp_all add: quad3_def quad2_def quad1_def)

lemma encode_loop_quads:
  "encode_loop (a # b # c # src) = quad3 (triple a b c) @ encode_loop src"
  "encode_loop [a, b] = quad2 (triple a b 0)" "encode_loop [a] = quad1 (triple a 0 0)"
  unfolding triple_short by (simp_all add: quad3_def quad2_def quad1_def triple_def Let_def)

lemma decode_quad3: "base64_decode_quad (quad3 (triple a b c) @ r) = Some [a, b, c]"
  using sextets_join [OF triple_small, of a b c]
  by (simp add: base64_decode_quad_def quad3_def Let_def triple_bytes)

lemma decode_quad2: "base64_decode_quad (quad2 (triple a b 0) @ r) = Some [a, b]"
  using sextets_join [OF triple_small, of a b 0] unfolding triple_low
  by (simp add: base64_decode_quad_def quad2_def Let_def triple_bytes)

lemma decode_quad1: "base64_decode_quad (quad1 (triple a 0 0) @ r) = Some [a]"
  using sextets_join [OF triple_small, of a 0 0] unfolding triple_low
  by (simp add: base64_decode_quad_def quad1_def Let_def triple_bytes)

subsection \<open>One block\<close>

lemma length_encode_loop: "length (encode_loop xs) = 4 * ((length xs + 2) div 3)"
proof (induction xs rule: encode_loop.induct)
  case (1 a b c src)
  have "(length (a # b # c # src) + 2) div 3 = Suc ((length src + 2) div 3)" by simp
  then show ?case using 1 by (simp add: Let_def)
qed (simp_all add: Let_def)

lemma quads_loop_encode: "quads_loop (encode_loop xs) = Some xs"
proof (induction xs rule: encode_loop.induct)
  case (1 a b c src)
  have "quads_loop (quad3 (triple a b c) @ encode_loop src) = Some (a # b # c # src)"
    using 1 decode_quad3 [of a b c "[]"] by (subst quads_loop.simps) (simp add: quad3_def)
  then show ?case by (simp only: encode_loop_quads)
next
  case (2 a b)
  have "quads_loop (quad2 (triple a b 0)) = Some [a, b]"
    using decode_quad2 [of a b "[]"] quads_loop.simps [of "[]"]
    by (subst quads_loop.simps) (simp add: quad2_def)
  then show ?case by (simp only: encode_loop_quads)
next
  case (3 a)
  have "quads_loop (quad1 (triple a 0 0)) = Some [a]"
    using decode_quad1 [of a "[]"] quads_loop.simps [of "[]"]
    by (subst quads_loop.simps) (simp add: quad1_def)
  then show ?case by (simp only: encode_loop_quads)
next
  case 4
  then show ?case by (simp add: quads_loop.simps)
qed

lemma decode_quad_length: "base64_decode_quad q = Some bs \<Longrightarrow> length bs \<le> 3 \<and> bs \<noteq> []"
  by (auto simp: base64_decode_quad_def Let_def split: if_splits)

lemma quads_loop_length: "quads_loop in' = Some out \<Longrightarrow> 4 * length out \<le> 3 * length in' \<or> length in' mod 4 \<noteq> 0"
proof (induction in' arbitrary: out rule: quads_loop.induct)
  case (1 in')
  show ?case
  proof (cases "in' = []")
    case True
    then show ?thesis using 1 by (simp add: quads_loop.simps)
  next
    case False
    obtain bs o2 where b: "base64_decode_quad (take 4 in') = Some bs" "\<not> (length bs \<noteq> 3 \<and> length in' \<noteq> 4)"
      "quads_loop (drop 4 in') = Some o2" "out = bs @ o2"
      using 1(2) False by (subst (asm) quads_loop.simps) (auto split: option.splits if_splits)
    from 1(1) [OF False b(1-3)] have IH: "4 * length o2 \<le> 3 * length (drop 4 in') \<or> length (drop 4 in') mod 4 \<noteq> 0" .
    show ?thesis
    proof (cases "length in' mod 4 = 0")
      case True
      then have l: "4 \<le> length in'" using False by (metis dvd_imp_le length_greater_0_conv mod_0_imp_dvd)
      then have "length (drop 4 in') mod 4 = 0" using True by (simp add: mod_if [of "length in'"] le_mod_geq)
      with IH have "4 * length o2 \<le> 3 * (length in' - 4)" by simp
      moreover have "length bs \<le> 3" using decode_quad_length b(1) by blast
      moreover obtain k where "length in' = k + 4" using l by (metis le_add_diff_inverse2)
      ultimately have "4 * length out \<le> 3 * length in'" unfolding b(4) length_append by simp
      then show ?thesis by blast
    qed simp
  qed
qed

text \<open>A block round trips, and the sizes are right: for data of up to \<open>2 ^ 61\<close> bytes
  \<open>EVP_EncodedLength\<close> is exactly what \<open>EVP_EncodeBlock\<close> writes with its final NUL, the result of
  \<open>EVP_EncodeBlock\<close> is the length of the text, and \<open>EVP_DecodeBase64\<close> returns the data from the
  text, in a buffer of the size that \<open>EVP_DecodedLength\<close> gives.\<close>

theorem base64_block_roundtrip:
  assumes "length xs < 2 ^ 61"
  shows "EVP_EncodedLength (length xs) = Some (length (fst (EVP_EncodeBlock xs))) \<and>
    snd (EVP_EncodeBlock xs) + 1 = length (fst (EVP_EncodeBlock xs)) \<and>
    (\<exists>n. EVP_DecodedLength (snd (EVP_EncodeBlock xs)) = Some n \<and>
       EVP_DecodeBase64 n (butlast (fst (EVP_EncodeBlock xs))) = Some xs)"
proof -
  have b: "4 * ((length xs + 2) div 3) + 1 < 2 ^ 64" using assms by simp
  show ?thesis using assms b
    by (simp add: EVP_EncodedLength_def EVP_EncodeBlock_def EVP_DecodedLength_def EVP_DecodeBase64_def
        length_encode_loop Let_def quads_loop_encode mult.commute)
qed

theorem base64_block_roundtrip_witness:
  "EVP_EncodedLength (length [77, 97 :: u8]) = Some (length (fst (EVP_EncodeBlock [77, 97]))) \<and>
    snd (EVP_EncodeBlock [77, 97]) + 1 = length (fst (EVP_EncodeBlock [77, 97])) \<and>
    (\<exists>n. EVP_DecodedLength (snd (EVP_EncodeBlock [77, 97])) = Some n \<and>
       EVP_DecodeBase64 n (butlast (fst (EVP_EncodeBlock [77, 97]))) = Some [77, 97])"
  by (rule base64_block_roundtrip) simp

lemma trim_start_length: "length (trim_start t) \<le> length t"
  by (induction t rule: trim_start.induct) auto

lemma trim_end_length: "length (trim_end t) \<le> length t"
proof (induction t rule: trim_end.induct)
  case (1 src)
  then show ?case by (subst trim_end.simps) auto
qed

lemma pad3: "(n :: nat) + (3 - n mod 3) mod 3 = 3 * ((n + 2) div 3)"
proof -
  obtain q r where n: "n = 3 * q + r" "r < 3" by (metis div_mult_mod_eq mod_less_divisor mult.commute zero_less_numeral)
  then have "r = 0 \<or> r = 1 \<or> r = 2" by auto
  then show ?thesis using n by auto
qed

text \<open>Decoding stays in its buffer: whatever the input, \<open>EVP_DecodeBase64\<close> returns at most
  \<open>max_out\<close> bytes, and \<open>EVP_DecodeBlock\<close> at most \<open>INT_MAX\<close>, padded to a multiple of three.\<close>

theorem base64_decode_bounds:
  assumes "length in' < 2 ^ 64"
  shows "(case EVP_DecodeBase64 max_out in' of None \<Rightarrow> True | Some out \<Rightarrow> length out \<le> max_out) \<and>
    (case EVP_DecodeBlock in' of None \<Rightarrow> True | Some out \<Rightarrow> length out \<le> INT_MAX \<and> length out mod 3 = 0)"
proof -
  have base: "length out \<le> m \<and> length out \<le> length t div 4 * 3"
    if "EVP_DecodeBase64 m t = Some out" "length t < 2 ^ 64" for m t and out :: "u8 list"
  proof -
    have r: "length t mod 4 = 0" "quads_loop t = Some out" "size_wrap (length t div 4 * 3) \<le> m"
      using that(1) by (auto simp: EVP_DecodeBase64_def EVP_DecodedLength_def split: if_splits option.splits)
    have "length t div 4 * 3 < 2 ^ 64" using that(2) by linarith
    moreover have "length t = 4 * (length t div 4)" using r(1) by presburger
    then have "length out \<le> length t div 4 * 3" using quads_loop_length [OF r(2)] r(1) by linarith
    ultimately show ?thesis using r(3) by simp
  qed
  have trim: "length (trim_end (trim_start t)) \<le> length t" for t
    using trim_end_length [of "trim_start t"] trim_start_length [of t] by simp
  have block: "length out \<le> INT_MAX \<and> length out mod 3 = 0" if h: "EVP_DecodeBlock in' = Some out" for out
  proof -
    define t where "t = trim_end (trim_start in')"
    obtain dst where d: "EVP_DecodeBase64 (size_wrap (length t div 4 * 3)) t = Some dst"
      "size_wrap (length t div 4 * 3) \<le> INT_MAX" "out = dst @ replicate ((3 - length dst mod 3) mod 3) 0"
      using h unfolding EVP_DecodeBlock_def EVP_DecodedLength_def Let_def t_def [symmetric]
      by (force simp: not_less split: if_splits option.splits)
    have t: "length t < 2 ^ 64" using trim [of in'] assms by (simp add: t_def)
    then have "length t div 4 * 3 \<le> INT_MAX" using d(2) by simp
    moreover have "length dst \<le> length t div 4 * 3" using base [OF d(1) t] by simp
    moreover have "length out = 3 * ((length dst + 2) div 3)" using d(3) pad3 [of "length dst"] by simp
    moreover have "(length dst + 2) div 3 \<le> length t div 4" using \<open>length dst \<le> length t div 4 * 3\<close> by linarith
    ultimately show ?thesis by (simp del: add_2_eq_Suc')
  qed
  show ?thesis using base [OF _ assms, of max_out] block by (auto split: option.splits)
qed

theorem base64_decode_bounds_witness:
  "(case EVP_DecodeBase64 3 [81, 85, 74, 68] of None \<Rightarrow> True | Some out \<Rightarrow> length out \<le> 3) \<and>
    (case EVP_DecodeBlock [81, 85, 74, 68] of None \<Rightarrow> True | Some out \<Rightarrow> length out \<le> INT_MAX \<and> length out mod 3 = 0)"
  by (rule base64_decode_bounds) simp

subsection \<open>Streams\<close>

text \<open>The text of PEM: lines of 48 bytes of data, 64 characters each.\<close>

function full_lines :: "u8 list \<Rightarrow> u8 list" where
  "full_lines xs = (if 48 \<le> length xs then encode_loop (take 48 xs) @ [10] @ full_lines (drop 48 xs) else [])"
  by auto
termination by (relation "measure length") auto

function line_rest :: "u8 list \<Rightarrow> u8 list" where
  "line_rest xs = (if 48 \<le> length xs then line_rest (drop 48 xs) else xs)"
  by auto
termination by (relation "measure length") auto

declare full_lines.simps [simp del] line_rest.simps [simp del]

definition pem_text :: "u8 list \<Rightarrow> u8 list" where
  "pem_text xs = full_lines xs @ (if line_rest xs = [] then [] else encode_loop (line_rest xs) @ [10])"

lemma length_line_rest: "length (line_rest xs) < 48"
proof (induction xs rule: line_rest.induct)
  case (1 xs)
  then show ?case by (subst line_rest.simps) auto
qed

lemma line_rest_short: "length xs < 48 \<Longrightarrow> line_rest xs = xs \<and> full_lines xs = []"
  by (simp add: line_rest.simps [of xs] full_lines.simps [of xs])

lemma lines_append:
  "full_lines (xs @ ys) = full_lines xs @ full_lines (line_rest xs @ ys) \<and>
   line_rest (xs @ ys) = line_rest (line_rest xs @ ys)"
proof (induction xs rule: line_rest.induct)
  case (1 xs)
  show ?case
  proof (cases "48 \<le> length xs")
    case True
    then have "line_rest xs = line_rest (drop 48 xs)" "full_lines xs = encode_loop (take 48 xs) @ [10] @ full_lines (drop 48 xs)"
      by (simp_all add: line_rest.simps [of xs] full_lines.simps [of xs])
    moreover have "full_lines (xs @ ys) = encode_loop (take 48 xs) @ [10] @ full_lines (drop 48 xs @ ys)"
      "line_rest (xs @ ys) = line_rest (drop 48 xs @ ys)"
      using True by (simp_all add: line_rest.simps [of "xs @ ys"] full_lines.simps [of "xs @ ys"])
    ultimately show ?thesis using 1 [OF True] by simp
  next
    case False
    then show ?thesis by (simp add: line_rest_short)
  qed
qed

lemma length_full_lines: "length (full_lines xs) = 65 * (length xs div 48)"
proof (induction xs rule: full_lines.induct)
  case (1 xs)
  show ?case
  proof (cases "48 \<le> length xs")
    case True
    then have "length xs div 48 = Suc ((length xs - 48) div 48)" by (simp add: le_div_geq)
    then show ?thesis using 1 [OF True] True by (simp add: full_lines.simps [of xs] length_encode_loop)
  next
    case False
    then show ?thesis by (simp add: full_lines.simps [of xs])
  qed
qed

lemma lines_loop_lines:
  "tot + length (full_lines xs) < 2 ^ 64 \<Longrightarrow>
   lines_loop tot xs = Some (full_lines xs, line_rest xs, tot + length (full_lines xs))"
proof (induction tot xs rule: lines_loop.induct)
  case (1 tot xs)
  show ?case
  proof (cases "48 \<le> length xs")
    case True
    have b: "EVP_EncodeBlock (take 48 xs) = (encode_loop (take 48 xs) @ [0], 64)"
      using True by (simp add: EVP_EncodeBlock_def length_encode_loop)
    have f: "full_lines xs = encode_loop (take 48 xs) @ [10] @ full_lines (drop 48 xs)" "line_rest xs = line_rest (drop 48 xs)"
      using True by (simp_all add: full_lines.simps [of xs] line_rest.simps [of xs])
    have l: "length (encode_loop (take 48 xs)) = 64" using True by (simp add: length_encode_loop)
    have t: "tot + 65 + length (full_lines (drop 48 xs)) < 2 ^ 64" using 1(2) f l by simp
    then have w: "size_wrap (tot + 64 + 1) = tot + 65" by simp
    have nw: "\<not> size_wrap (tot + 64 + 1) < tot" using w by simp
    have "lines_loop (tot + 65) (drop 48 xs) =
        Some (full_lines (drop 48 xs), line_rest (drop 48 xs), tot + 65 + length (full_lines (drop 48 xs)))"
      using 1(1) [OF True b [symmetric] nw] t unfolding w by blast
    then show ?thesis using True b w f l by (subst lines_loop.simps) simp
  next
    case False
    then show ?thesis by (subst lines_loop.simps) (simp add: line_rest_short)
  qed
qed

text \<open>The data that the context holds back.\<close>

definition pending :: "evp_encode_ctx \<Rightarrow> u8 list" where
  "pending ctx = take (data_used ctx) (ctx_data ctx)"

definition ectx_ok :: "evp_encode_ctx \<Rightarrow> bool" where
  "ectx_ok ctx \<longleftrightarrow> data_used ctx < 48 \<and> length (ctx_data ctx) = 48"

lemma EVP_EncodeUpdate_lines:
  assumes ok: "ectx_ok ctx" and len: "length (full_lines (pending ctx @ xs)) \<le> INT_MAX"
    and u: "EVP_EncodeUpdate ctx xs = (out, n, ctx')"
  shows "out = full_lines (pending ctx @ xs) \<and> n = length out \<and> ectx_ok ctx' \<and>
    pending ctx' = line_rest (pending ctx @ xs)"
proof -
  have lp: "length (pending ctx) = data_used ctx" "data_used ctx < 48" using ok by (simp_all add: ectx_ok_def pending_def)
  consider (empty) "xs = []" | (fits) "xs \<noteq> []" "length xs < 48 - data_used ctx" | (lines) "xs \<noteq> []" "48 - data_used ctx \<le> length xs"
    by linarith
  then show ?thesis
  proof cases
    case empty
    then show ?thesis using u ok lp by (simp add: EVP_EncodeUpdate_def line_rest_short)
  next
    case fits
    then show ?thesis using u ok lp
      by (auto simp: EVP_EncodeUpdate_def line_rest_short ectx_ok_def pending_def)
  next
    case lines
    define full where "full = take (data_used ctx) (ctx_data ctx) @ take (48 - data_used ctx) xs"
    have lf: "length full = 48" using lines lp ok by (simp add: full_def ectx_ok_def)
    have b: "EVP_EncodeBlock full = (encode_loop full @ [0], 64)" using lf by (simp add: EVP_EncodeBlock_def length_encode_loop)
    have le: "length (encode_loop full) = 64" using lf by (simp add: length_encode_loop)
    define out1 where "out1 = (if data_used ctx \<noteq> 0 then encode_loop full @ [10] else [])"
    define in1 where "in1 = (if data_used ctx \<noteq> 0 then drop (48 - data_used ctx) xs else xs)"
    define c1 where "c1 = (if data_used ctx \<noteq> 0 then ctx\<lparr>ctx_data := full, data_used := 0\<rparr> else ctx)"
    have c1: "length (ctx_data c1) = 48" "data_used c1 = 0" using lf ok by (auto simp: c1_def ectx_ok_def)
    have s: "full_lines (pending ctx @ xs) = out1 @ full_lines in1" "line_rest (pending ctx @ xs) = line_rest in1"
    proof -
      have e: "pending ctx @ xs = full @ drop (48 - data_used ctx) xs" by (simp add: full_def pending_def)
      have fl: "full_lines (full @ r) = encode_loop full @ [10] @ full_lines r" "line_rest (full @ r) = line_rest r" for r
        using lf by (simp_all add: full_lines.simps [of "full @ r"] line_rest.simps [of "full @ r"])
      have "full_lines (pending ctx @ xs) = out1 @ full_lines in1 \<and> line_rest (pending ctx @ xs) = line_rest in1"
      proof (cases "data_used ctx = 0")
        case True
        then show ?thesis by (simp add: out1_def in1_def pending_def)
      next
        case False
        then show ?thesis unfolding e by (simp add: out1_def in1_def fl)
      qed
      then show "full_lines (pending ctx @ xs) = out1 @ full_lines in1" "line_rest (pending ctx @ xs) = line_rest in1"
        by simp_all
    qed
    have lo: "length out1 \<le> 65" "length out1 = (if data_used ctx \<noteq> 0 then 65 else 0)" using le by (auto simp: out1_def)
    have ll: "lines_loop (length out1) in1 = Some (full_lines in1, line_rest in1, length out1 + length (full_lines in1))"
      by (rule lines_loop_lines) (use len s in simp)
    have pre: "(if data_used ctx \<noteq> 0
        then let todo = 48 - data_used ctx; full' = take (data_used ctx) (ctx_data ctx) @ take todo xs;
                 (bs, encoded) = EVP_EncodeBlock full'
             in (take encoded bs @ [10], drop todo xs, encoded + 1, ctx\<lparr>ctx_data := full', data_used := 0\<rparr>)
        else ([], xs, 0, ctx)) = (out1, in1, length out1, c1)"
      using b le by (simp add: full_def [symmetric] Let_def out1_def in1_def c1_def)
    have "EVP_EncodeUpdate ctx xs =
      (let c2 = (if line_rest in1 \<noteq> [] then c1\<lparr>ctx_data := line_rest in1 @ drop (length (line_rest in1)) (ctx_data c1)\<rparr> else c1)
       in (out1 @ full_lines in1, length out1 + length (full_lines in1), c2\<lparr>data_used := length (line_rest in1)\<rparr>))"
      using lines len s unfolding EVP_EncodeUpdate_def pre by (simp add: ll Let_def)
    then have "out = out1 @ full_lines in1" "n = length out" "data_used ctx' = length (line_rest in1)"
      "ctx_data ctx' = (if line_rest in1 \<noteq> [] then line_rest in1 @ drop (length (line_rest in1)) (ctx_data c1) else ctx_data c1)"
      using u by (auto simp: Let_def split: if_splits)
    then show ?thesis using s c1 length_line_rest [of in1] by (auto simp: ectx_ok_def pending_def)
  qed
qed

text \<open>A run of the encoder over the pieces of the data, and of the decoder over those of a text.\<close>

fun encode_stream :: "evp_encode_ctx \<Rightarrow> u8 list list \<Rightarrow> u8 list" where
  "encode_stream ctx [] = (case EVP_EncodeFinal ctx of (out, n, _) \<Rightarrow> take n out)"
| "encode_stream ctx (xs # xss) = (case EVP_EncodeUpdate ctx xs of (out, n, ctx) \<Rightarrow> take n out @ encode_stream ctx xss)"

fun decode_stream :: "evp_encode_ctx \<Rightarrow> u8 list list \<Rightarrow> (u8 list \<times> evp_encode_ctx) option" where
  "decode_stream ctx [] = Some ([], ctx)"
| "decode_stream ctx (t # ts) =
     (case EVP_DecodeUpdate ctx t of (r, out, n, ctx) \<Rightarrow>
        if r = -1 then None
        else (case decode_stream ctx ts of None \<Rightarrow> None | Some (out2, ctx) \<Rightarrow> Some (take n out @ out2, ctx)))"

lemma length_line_rest_le: "length (line_rest xs) \<le> length xs"
proof (induction xs rule: line_rest.induct)
  case (1 xs)
  then show ?case by (subst line_rest.simps) auto
qed

lemma encode_stream_pem:
  "ectx_ok ctx \<Longrightarrow> 65 * ((length (pending ctx) + length (concat xss)) div 48) \<le> INT_MAX \<Longrightarrow>
   encode_stream ctx xss = pem_text (pending ctx @ concat xss)"
proof (induction xss arbitrary: ctx)
  case Nil
  then have p: "length (pending ctx) = data_used ctx" "data_used ctx < 48" by (simp_all add: ectx_ok_def pending_def)
  have b: "EVP_EncodeBlock (pending ctx) = (encode_loop (pending ctx) @ [0], length (encode_loop (pending ctx)))"
    using p by (simp add: EVP_EncodeBlock_def length_encode_loop)
  show ?case
  proof (cases "data_used ctx = 0")
    case True
    then have "pending ctx = []" by (simp add: pending_def)
    then show ?thesis using True by (simp add: EVP_EncodeFinal_def pem_text_def line_rest_short)
  next
    case False
    then have "pending ctx \<noteq> []" using p by auto
    then show ?thesis using False p b
      by (simp add: EVP_EncodeFinal_def pem_text_def line_rest_short flip: pending_def)
  qed
next
  case (Cons xs xss)
  obtain out n c where u: "EVP_EncodeUpdate ctx xs = (out, n, c)" using prod_cases3 by blast
  let ?p = "pending ctx @ xs"
  have "length ?p div 48 \<le> (length (pending ctx) + length (concat (xs # xss))) div 48" by (rule div_le_mono) simp
  then have "length (full_lines ?p) \<le> INT_MAX" using Cons.prems(2) unfolding length_full_lines by linarith
  note e = EVP_EncodeUpdate_lines [OF Cons.prems(1) this u]
  have "(length (line_rest ?p) + length (concat xss)) div 48 \<le> (length (pending ctx) + length (concat (xs # xss))) div 48"
    using length_line_rest_le [of ?p] by (intro div_le_mono) simp
  then have "65 * ((length (pending c) + length (concat xss)) div 48) \<le> INT_MAX"
    using Cons.prems(2) e by simp
  with Cons.IH [of c] e have "encode_stream c xss = pem_text (line_rest ?p @ concat xss)" by simp
  moreover have "pem_text (?p @ concat xss) = full_lines ?p @ pem_text (line_rest ?p @ concat xss)"
    using lines_append [of ?p "concat xss"] by (simp add: pem_text_def)
  ultimately show ?case using u e by simp
qed

lemma decode_chars_append:
  "decode_chars ctx (xs @ ys) =
     (case decode_chars ctx xs of (ok, o1, ctx) \<Rightarrow>
        if ok then (case decode_chars ctx ys of (ok, o2, ctx) \<Rightarrow> (ok, o1 @ o2, ctx)) else (False, o1, ctx))"
  by (induction ctx xs rule: decode_chars.induct)
    (auto simp: Let_def split: prod.splits option.splits if_splits)

lemma decode_chars_error: "decode_chars ctx xs = (True, out, c) \<Longrightarrow> error_encountered c = error_encountered ctx"
proof (induction xs arbitrary: ctx out)
  case (Cons x xs)
  define c1 where "c1 = ctx\<lparr>ctx_data := (ctx_data ctx)[data_used ctx := x], data_used := data_used ctx + 1\<rparr>"
  have e1: "error_encountered c1 = error_encountered ctx" by (simp add: c1_def)
  consider (space) "is_space x" | (eof) "\<not> is_space x" "eof_seen ctx"
    | (more) "\<not> is_space x" "\<not> eof_seen ctx" "data_used c1 \<noteq> 4"
    | (quad) "\<not> is_space x" "\<not> eof_seen ctx" "data_used c1 = 4" by blast
  then show ?case
  proof cases
    case space
    then show ?thesis using Cons by simp
  next
    case eof
    then show ?thesis using Cons.prems by simp
  next
    case more
    then have "decode_chars c1 xs = (True, out, c)" using Cons.prems by (simp add: Let_def c1_def)
    then show ?thesis using Cons.IH e1 by simp
  next
    case quad
    then obtain bs where b: "base64_decode_quad (ctx_data c1) = Some bs"
      using Cons.prems by (auto simp: Let_def c1_def split: option.splits)
    define c2 where "c2 = c1\<lparr>data_used := 0, eof_seen := eof_seen c1 \<or> length bs < 3\<rparr>"
    obtain ok o2 c3 where d: "decode_chars c2 xs = (ok, o2, c3)" using prod_cases3 by blast
    have "decode_chars ctx (x # xs) = (case decode_chars c2 xs of (ok, o2, c3) \<Rightarrow> (ok, bs @ o2, c3))"
      by (simp only: decode_chars.simps quad(1,2) if_False Let_def c1_def [symmetric] quad(3) if_True b
          option.case c2_def [symmetric] refl)
    then have "decode_chars ctx (x # xs) = (ok, bs @ o2, c3)" using d by simp
    then have "decode_chars c2 xs = (True, o2, c)" using Cons.prems d by simp
    then have "error_encountered c = error_encountered c2" by (rule Cons.IH)
    then show ?thesis using e1 by (simp add: c2_def)
  qed
qed simp

lemma decode_stream_chars:
  "\<not> error_encountered ctx \<Longrightarrow> decode_chars ctx (concat ts) = (True, out, c) \<Longrightarrow> length out \<le> INT_MAX \<Longrightarrow>
   decode_stream ctx ts = Some (out, c)"
proof (induction ts arbitrary: ctx out)
  case (Cons t ts)
  obtain ok o1 c1 where t: "decode_chars ctx t = (ok, o1, c1)" using prod_cases3 by blast
  with Cons.prems(2) obtain o2 where o: "ok" "decode_chars c1 (concat ts) = (True, o2, c)" "out = o1 @ o2"
    by (auto simp: decode_chars_append split: prod.splits if_splits)
  have ne: "\<not> error_encountered c1" using decode_chars_error [of ctx t o1 c1] t o(1) Cons.prems(1) by simp
  have "decode_stream c1 ts = Some (o2, c)" using Cons.IH [OF ne o(2)] Cons.prems(3) o(3) by simp
  then show ?case using t o Cons.prems(1,3) by (simp add: EVP_DecodeUpdate_def)
qed simp

text \<open>The decoder on what the encoder writes.\<close>

lemma decode_chars_quad:
  assumes c: "data_used ctx = 0" "\<not> eof_seen ctx" "4 \<le> length (ctx_data ctx)"
    and q: "q = [c0, c1, c2, c3]" "\<not> is_space c0" "\<not> is_space c1" "\<not> is_space c2" "\<not> is_space c3"
    and d: "\<And>r. base64_decode_quad (q @ r) = Some bs"
  shows "\<exists>d. length d = length (ctx_data ctx) \<and>
    decode_chars ctx (q @ r) =
      (case decode_chars (ctx\<lparr>ctx_data := d, data_used := 0, eof_seen := length bs < 3\<rparr>) r of
         (ok, out, c) \<Rightarrow> (ok, bs @ out, c))"
proof -
  obtain d0 d1 d2 d3 ds where cd: "ctx_data ctx = d0 # d1 # d2 # d3 # ds"
    using c(3) by (auto simp: numeral_eq_Suc Suc_le_length_iff)
  have "base64_decode_quad (c0 # c1 # c2 # c3 # ds) = Some bs" using d [of ds] q(1) by simp
  then have "decode_chars ctx (q @ r) =
      (case decode_chars (ctx\<lparr>ctx_data := q @ ds, data_used := 0, eof_seen := length bs < 3\<rparr>) r of
         (ok, out, c) \<Rightarrow> (ok, bs @ out, c))"
    using c(1,2) q cd by (simp add: Let_def numeral_2_eq_2 numeral_3_eq_3)
  then show ?thesis using q(1) cd by (intro exI [of _ "q @ ds"]) simp
qed

lemma decode_chars_block:
  assumes "data_used ctx = 0" "\<not> eof_seen ctx" "4 \<le> length (ctx_data ctx)"
  shows "\<exists>d. length d = length (ctx_data ctx) \<and>
    decode_chars ctx (encode_loop xs @ r) =
      (case decode_chars (ctx\<lparr>ctx_data := d, data_used := 0, eof_seen := length xs mod 3 \<noteq> 0\<rparr>) r of
         (ok, out, c) \<Rightarrow> (ok, xs @ out, c))"
  using assms
proof (induction xs arbitrary: ctx rule: encode_loop.induct)
  case (1 a b c src)
  let ?r = "encode_loop src @ r"
  obtain d where d: "length d = length (ctx_data ctx)" "decode_chars ctx (quad3 (triple a b c) @ ?r) =
      (case decode_chars (ctx\<lparr>ctx_data := d, data_used := 0, eof_seen := length [a, b, c] < 3\<rparr>) ?r of
         (ok, out, c') \<Rightarrow> (ok, [a, b, c] @ out, c'))"
    using decode_chars_quad [OF 1(2-4) quad3_def [of "triple a b c"] _ _ _ _ decode_quad3, of ?r] by auto
  let ?c = "ctx\<lparr>ctx_data := d, data_used := 0, eof_seen := False\<rparr>"
  have "data_used ?c = 0" "\<not> eof_seen ?c" "4 \<le> length (ctx_data ?c)" using d(1) 1(4) by simp_all
  from 1(1) [OF refl this] obtain d2 where d2: "length d2 = length (ctx_data ?c)" "decode_chars ?c ?r =
      (case decode_chars (?c\<lparr>ctx_data := d2, data_used := 0, eof_seen := length src mod 3 \<noteq> 0\<rparr>) r of
         (ok, out, c) \<Rightarrow> (ok, src @ out, c))" by blast
  have l: "length (a # b # c # src) mod 3 = length src mod 3" by simp
  have "decode_chars ctx (encode_loop (a # b # c # src) @ r) =
      (case decode_chars (ctx\<lparr>ctx_data := d2, data_used := 0, eof_seen := length src mod 3 \<noteq> 0\<rparr>) r of
         (ok, out, c') \<Rightarrow> (ok, (a # b # c # src) @ out, c'))"
    unfolding encode_loop_quads append.assoc d(2) using d2(2) by (simp split: prod.splits)
  then show ?case using d(1) d2(1) unfolding l by auto
next
  case (2 a b)
  from decode_chars_quad [OF 2 quad2_def [of "triple a b 0"] _ _ _ _ decode_quad2, of r]
  show ?case unfolding encode_loop_quads by simp
next
  case (3 a)
  from decode_chars_quad [OF 3 quad1_def [of "triple a 0 0"] _ _ _ _ decode_quad1, of r]
  show ?case unfolding encode_loop_quads by simp
next
  case 4
  then have "ctx\<lparr>ctx_data := ctx_data ctx, data_used := 0, eof_seen := length ([] :: u8 list) mod 3 \<noteq> 0\<rparr> = ctx" by simp
  then show ?case by (intro exI [of _ "ctx_data ctx"]) (simp split: prod.splits)
qed

lemma decode_chars_newline: "decode_chars ctx (10 # r) = decode_chars ctx r"
  by (simp add: is_space_def)

lemma decode_chars_pem:
  assumes "data_used ctx = 0" "\<not> eof_seen ctx" "4 \<le> length (ctx_data ctx)"
  shows "\<exists>c. decode_chars ctx (pem_text xs) = (True, xs, c) \<and> data_used c = 0"
  using assms
proof (induction xs arbitrary: ctx rule: full_lines.induct)
  case (1 xs)
  show ?case
  proof (cases "48 \<le> length xs")
    case True
    have p: "pem_text xs = encode_loop (take 48 xs) @ (10 # pem_text (drop 48 xs))"
      using True by (simp add: pem_text_def full_lines.simps [of xs] line_rest.simps [of xs])
    obtain d where d: "length d = length (ctx_data ctx)" "decode_chars ctx (pem_text xs) =
      (case decode_chars (ctx\<lparr>ctx_data := d, data_used := 0, eof_seen := length (take 48 xs) mod 3 \<noteq> 0\<rparr>)
          (10 # pem_text (drop 48 xs)) of (ok, out, c) \<Rightarrow> (ok, take 48 xs @ out, c))"
      unfolding p using decode_chars_block [OF 1(2-4)] by blast
    have e: "(length (take 48 xs) mod 3 \<noteq> 0) = False" using True by simp
    let ?c = "ctx\<lparr>ctx_data := d, data_used := 0, eof_seen := False\<rparr>"
    have "data_used ?c = 0" "\<not> eof_seen ?c" "4 \<le> length (ctx_data ?c)" using d(1) 1(4) by simp_all
    from 1(1) [OF True this] obtain c where
      "decode_chars ?c (pem_text (drop 48 xs)) = (True, drop 48 xs, c)" "data_used c = 0" by blast
    with d(2) show ?thesis unfolding e decode_chars_newline by (intro exI [of _ c]) simp
  next
    case False
    show ?thesis
    proof (cases "xs = []")
      case True
      then show ?thesis using 1(2) by (simp add: pem_text_def line_rest_short)
    next
      case ne: False
      then have p: "pem_text xs = encode_loop xs @ [10]" using False by (simp add: pem_text_def line_rest_short)
      from decode_chars_block [OF 1(2-4), of xs "[10]"] show ?thesis
        unfolding p decode_chars_newline by auto
    qed
  qed
qed

text \<open>The streaming encoder does not depend on how its input is cut: whatever the pieces, the
  concatenated outputs and the final flush are the lines of the whole input, 48 bytes to a line.
  The bound keeps every output length in an \<open>int\<close>.\<close>

theorem EVP_Encode_stream_lines:
  assumes "65 * (length (concat xss) div 48) \<le> INT_MAX"
  shows "encode_stream EVP_EncodeInit xss = pem_text (concat xss)"
proof -
  have "ectx_ok EVP_EncodeInit" "pending EVP_EncodeInit = []" by (simp_all add: ectx_ok_def EVP_EncodeInit_def pending_def)
  with encode_stream_pem [of EVP_EncodeInit xss] assms show ?thesis by simp
qed

theorem EVP_Encode_stream_lines_witness:
  "encode_stream EVP_EncodeInit [[1, 2], [], [3, 4]] = pem_text (concat [[1, 2], [], [3, 4]])"
  by (rule EVP_Encode_stream_lines) simp

text \<open>C19: the streaming codec round trips: the text that the encoder makes of the pieces of some data,
  given to the decoder in any other pieces, decodes to the data without an error, and
  \<open>EVP_DecodeFinal\<close> accepts.\<close>

theorem base64_stream_roundtrip:
  assumes len: "65 * (length (concat xss) div 48) \<le> INT_MAX"
    and t: "concat ts = encode_stream EVP_EncodeInit xss"
  shows "\<exists>ctx. decode_stream EVP_DecodeInit ts = Some (concat xss, ctx) \<and> EVP_DecodeFinal ctx = 1"
proof -
  have "ectx_ok EVP_EncodeInit" "pending EVP_EncodeInit = []" by (simp_all add: ectx_ok_def EVP_EncodeInit_def pending_def)
  with encode_stream_pem [of EVP_EncodeInit xss] len t have c: "concat ts = pem_text (concat xss)" by simp
  have i: "data_used EVP_DecodeInit = 0" "\<not> eof_seen EVP_DecodeInit" "4 \<le> length (ctx_data EVP_DecodeInit)"
    "\<not> error_encountered EVP_DecodeInit" by (simp_all add: EVP_DecodeInit_def)
  obtain ctx where d: "decode_chars EVP_DecodeInit (concat ts) = (True, concat xss, ctx)" "data_used ctx = 0"
    unfolding c using decode_chars_pem [OF i(1-3)] by blast
  have "length (concat xss) < 48 * (length (concat xss) div 48) + 48" by presburger
  moreover have "(INT_MAX :: nat) = 2147483647" by simp
  ultimately have "length (concat xss) \<le> INT_MAX" using len by linarith
  with decode_stream_chars [OF i(4) d(1)] have "decode_stream EVP_DecodeInit ts = Some (concat xss, ctx)" by simp
  moreover have "EVP_DecodeFinal ctx = 1"
    using decode_chars_error [OF d(1)] d(2) i(4) by (simp add: EVP_DecodeFinal_def)
  ultimately show ?thesis by blast
qed

theorem base64_stream_roundtrip_witness:
  "\<exists>ctx. decode_stream EVP_DecodeInit [take 1 (encode_stream EVP_EncodeInit [[1, 2], [3]]),
      drop 1 (encode_stream EVP_EncodeInit [[1, 2], [3]])] = Some (concat [[1, 2], [3]], ctx) \<and> EVP_DecodeFinal ctx = 1"
  by (rule base64_stream_roundtrip) simp_all

end
