(* ===== verification/Lhash.thy ===== *)
theory Lhash
  imports Mem "HOL-Library.Multiset"
begin

text \<open>
  crypto/lhash/lhash.c: the chained hash table. The table holds pointers to objects; the hash and
  comparison functions are values \<open>'h\<close> and \<open>'c\<close> of types of function pointers, and the helpers that
  call them are parameters. The buckets are lists of items, a pointer to a link is a position in a
  chain. The callback of \<open>OPENSSL_lh_doall_arg\<close> runs on a state of its own and does not change the
  table.
\<close>

record lhash_item =
  item_data :: ptr
  item_hash :: u32

record ('h, 'c) lhash =
  num_items :: nat
  buckets :: "lhash_item list list"
  num_buckets :: nat
  callback_depth :: u32
  lh_comp :: 'c
  lh_hash :: 'h

definition kMinNumBuckets :: nat where "kMinNumBuckets = 16"
definition kMaxAverageChainLength :: nat where "kMaxAverageChainLength = 2"
definition kMinAverageChainLength :: nat where "kMinAverageChainLength = 1"

definition sizeof_lhash :: nat where "sizeof_lhash = 48"
definition sizeof_item :: nat where "sizeof_item = 24"
definition sizeof_item_ptr :: nat where "sizeof_item_ptr = 8"

definition OPENSSL_lh_new :: "heap_env \<Rightarrow> 'h \<Rightarrow> 'c \<Rightarrow> ('h, 'c) lhash option" where
  "OPENSSL_lh_new E hash cmpf =
     (case OPENSSL_zalloc E sizeof_lhash of
        None \<Rightarrow> None
      | Some _ \<Rightarrow>
          (case OPENSSL_calloc E kMinNumBuckets sizeof_item_ptr of
             None \<Rightarrow> None
           | Some _ \<Rightarrow>
               Some \<lparr>num_items = 0, buckets = replicate kMinNumBuckets [], num_buckets = kMinNumBuckets,
                 callback_depth = 0, lh_comp = cmpf, lh_hash = hash\<rparr>))"

definition OPENSSL_lh_num_items :: "('h, 'c) lhash \<Rightarrow> nat" where
  "OPENSSL_lh_num_items lh = num_items lh"

text \<open>The position in a chain of the first item that satisfies a test; the end of the chain if none.\<close>

fun chain_pos :: "(ptr \<Rightarrow> bool) \<Rightarrow> lhash_item list \<Rightarrow> nat" where
  "chain_pos P [] = 0"
| "chain_pos P (cur # next') = (if P (item_data cur) then 0 else Suc (chain_pos P next'))"

text \<open>The hash value, the bucket and the position.\<close>

definition get_next_ptr_and_hash ::
  "('h \<Rightarrow> ptr \<Rightarrow> u32) \<Rightarrow> ('c \<Rightarrow> ptr \<Rightarrow> ptr \<Rightarrow> int) \<Rightarrow> ('h, 'c) lhash \<Rightarrow> ptr \<Rightarrow> u32 \<times> nat \<times> nat" where
  "get_next_ptr_and_hash call_hash call_cmp lh data =
     (let hash = call_hash (lh_hash lh) data;
          b = unat hash mod num_buckets lh
      in (hash, b, chain_pos (\<lambda>d. call_cmp (lh_comp lh) d data = 0) (buckets lh ! b)))"

definition get_next_ptr_by_key :: "('k \<Rightarrow> ptr \<Rightarrow> int) \<Rightarrow> ('h, 'c) lhash \<Rightarrow> 'k \<Rightarrow> u32 \<Rightarrow> nat \<times> nat" where
  "get_next_ptr_by_key cmp_key lh key key_hash =
     (let b = unat key_hash mod num_buckets lh in (b, chain_pos (\<lambda>d. cmp_key key d = 0) (buckets lh ! b)))"

text \<open>\<open>*next_ptr == NULL ? NULL : (*next_ptr)->data\<close>.\<close>

definition data_at :: "('h, 'c) lhash \<Rightarrow> nat \<Rightarrow> nat \<Rightarrow> ptr" where
  "data_at lh b i = (if length (buckets lh ! b) \<le> i then 0 else item_data (buckets lh ! b ! i))"

definition OPENSSL_lh_retrieve ::
  "('h \<Rightarrow> ptr \<Rightarrow> u32) \<Rightarrow> ('c \<Rightarrow> ptr \<Rightarrow> ptr \<Rightarrow> int) \<Rightarrow> ('h, 'c) lhash \<Rightarrow> ptr \<Rightarrow> ptr" where
  "OPENSSL_lh_retrieve call_hash call_cmp lh data =
     (case get_next_ptr_and_hash call_hash call_cmp lh data of (_, b, i) \<Rightarrow> data_at lh b i)"

definition OPENSSL_lh_retrieve_key :: "('k \<Rightarrow> ptr \<Rightarrow> int) \<Rightarrow> ('h, 'c) lhash \<Rightarrow> 'k \<Rightarrow> u32 \<Rightarrow> ptr" where
  "OPENSSL_lh_retrieve_key cmp_key lh key key_hash =
     (case get_next_ptr_by_key cmp_key lh key key_hash of (b, i) \<Rightarrow> data_at lh b i)"

text \<open>The items of a chain, each moved to the front of its new chain.\<close>

fun move_chain :: "nat \<Rightarrow> lhash_item list \<Rightarrow> lhash_item list list \<Rightarrow> lhash_item list list" where
  "move_chain n [] new_buckets = new_buckets"
| "move_chain n (cur # next') new_buckets =
     (let new_bucket = unat (item_hash cur) mod n
      in move_chain n next' (new_buckets[new_bucket := cur # new_buckets ! new_bucket]))"

fun move_chains :: "nat \<Rightarrow> lhash_item list list \<Rightarrow> lhash_item list list \<Rightarrow> lhash_item list list" where
  "move_chains n [] new_buckets = new_buckets"
| "move_chains n (c # cs) new_buckets = move_chains n cs (move_chain n c new_buckets)"

definition lh_rebucket :: "heap_env \<Rightarrow> ('h, 'c) lhash \<Rightarrow> nat \<Rightarrow> ('h, 'c) lhash" where
  "lh_rebucket E lh new_num_buckets =
     (let alloc_size = size_wrap (sizeof_item_ptr * new_num_buckets) in
      if alloc_size div sizeof_item_ptr \<noteq> new_num_buckets then lh
      else
        (case OPENSSL_zalloc E alloc_size of
           None \<Rightarrow> lh
         | Some _ \<Rightarrow>
             lh\<lparr>buckets := move_chains new_num_buckets (buckets lh) (replicate new_num_buckets []),
                num_buckets := new_num_buckets\<rparr>))"

definition lh_maybe_resize :: "heap_env \<Rightarrow> ('h, 'c) lhash \<Rightarrow> ('h, 'c) lhash" where
  "lh_maybe_resize E lh =
     (if 0 < callback_depth lh then lh
      else
        let avg_chain_length = num_items lh div num_buckets lh in
        if kMaxAverageChainLength < avg_chain_length then
          let new_num_buckets = size_wrap (num_buckets lh * 2)
          in if num_buckets lh < new_num_buckets then lh_rebucket E lh new_num_buckets else lh
        else if avg_chain_length < kMinAverageChainLength \<and> kMinNumBuckets < num_buckets lh then
          let new_num_buckets = num_buckets lh div 2;
              new_num_buckets = (if new_num_buckets < kMinNumBuckets then kMinNumBuckets else new_num_buckets)
          in lh_rebucket E lh new_num_buckets
        else lh)"

text \<open>The result, the old pointer (NULL when there was none) and the table.\<close>

definition OPENSSL_lh_insert ::
  "heap_env \<Rightarrow> ('h \<Rightarrow> ptr \<Rightarrow> u32) \<Rightarrow> ('c \<Rightarrow> ptr \<Rightarrow> ptr \<Rightarrow> int) \<Rightarrow> ('h, 'c) lhash \<Rightarrow> ptr \<Rightarrow> bool \<times> ptr \<times> ('h, 'c) lhash" where
  "OPENSSL_lh_insert E call_hash call_cmp lh data =
     (case get_next_ptr_and_hash call_hash call_cmp lh data of
        (hash, b, i) \<Rightarrow>
          let c = buckets lh ! b in
          if i < length c
          then (True, item_data (c ! i), lh\<lparr>buckets := (buckets lh)[b := c[i := (c ! i)\<lparr>item_data := data\<rparr>]]\<rparr>)
          else
            (case OPENSSL_malloc E sizeof_item of
               None \<Rightarrow> (False, 0, lh)
             | Some _ \<Rightarrow>
                 (True, 0, lh_maybe_resize E
                    (lh\<lparr>buckets := (buckets lh)[b := c @ [\<lparr>item_data = data, item_hash = hash\<rparr>]],
                        num_items := size_wrap (num_items lh + 1)\<rparr>))))"

definition OPENSSL_lh_delete ::
  "heap_env \<Rightarrow> ('h \<Rightarrow> ptr \<Rightarrow> u32) \<Rightarrow> ('c \<Rightarrow> ptr \<Rightarrow> ptr \<Rightarrow> int) \<Rightarrow> ('h, 'c) lhash \<Rightarrow> ptr \<Rightarrow> ptr \<times> ('h, 'c) lhash" where
  "OPENSSL_lh_delete E call_hash call_cmp lh data =
     (case get_next_ptr_and_hash call_hash call_cmp lh data of
        (_, b, i) \<Rightarrow>
          let c = buckets lh ! b in
          if length c \<le> i then (0, lh)
          else
            (item_data (c ! i),
             lh_maybe_resize E
               (lh\<lparr>buckets := (buckets lh)[b := take i c @ drop (Suc i) c], num_items := num_items lh - 1\<rparr>)))"

text \<open>The depth saturates at UINT\_MAX.\<close>

definition enter_callbacks :: "('h, 'c) lhash \<Rightarrow> ('h, 'c) lhash" where
  "enter_callbacks lh = (if callback_depth lh < -1 then lh\<lparr>callback_depth := callback_depth lh + 1\<rparr> else lh)"

definition leave_callbacks :: "('h, 'c) lhash \<Rightarrow> ('h, 'c) lhash" where
  "leave_callbacks lh = (if callback_depth lh < -1 then lh\<lparr>callback_depth := callback_depth lh - 1\<rparr> else lh)"

fun call_chain :: "(ptr \<Rightarrow> 's \<Rightarrow> 's) \<Rightarrow> lhash_item list \<Rightarrow> 's \<Rightarrow> 's" where
  "call_chain f [] st = st"
| "call_chain f (cur # next') st = call_chain f next' (f (item_data cur) st)"

fun call_chains :: "(ptr \<Rightarrow> 's \<Rightarrow> 's) \<Rightarrow> lhash_item list list \<Rightarrow> 's \<Rightarrow> 's" where
  "call_chains f [] st = st"
| "call_chains f (c # cs) st = call_chains f cs (call_chain f c st)"

definition OPENSSL_lh_doall_arg :: "heap_env \<Rightarrow> ('h, 'c) lhash \<Rightarrow> (ptr \<Rightarrow> 's \<Rightarrow> 's) \<Rightarrow> 's \<Rightarrow> ('h, 'c) lhash \<times> 's" where
  "OPENSSL_lh_doall_arg E lh f st =
     (let lh = enter_callbacks lh;
          st = call_chains f (buckets lh) st
      in (lh_maybe_resize E (leave_callbacks lh), st))"

subsection \<open>The invariant of a table\<close>

definition lh_items :: "('h, 'c) lhash \<Rightarrow> lhash_item list" where
  "lh_items lh = concat (buckets lh)"

definition stored :: "('h, 'c) lhash \<Rightarrow> ptr set" where
  "stored lh = item_data ` set (lh_items lh)"

text \<open>Every item is in the bucket of its hash value, which is that of its object.\<close>

definition buckets_ok :: "(ptr \<Rightarrow> u32) \<Rightarrow> nat \<Rightarrow> lhash_item list list \<Rightarrow> bool" where
  "buckets_ok H n bs \<longleftrightarrow> length bs = n \<and>
     (\<forall>b < n. \<forall>it \<in> set (bs ! b). item_hash it = H (item_data it) \<and> unat (item_hash it) mod n = b)"

text \<open>The objects in the table: one of each class of equal objects, once.\<close>

definition data_ok :: "(ptr \<Rightarrow> ptr \<Rightarrow> int) \<Rightarrow> ptr set \<Rightarrow> ptr multiset \<Rightarrow> bool" where
  "data_ok cmp A D \<longleftrightarrow> (\<forall>d. count D d \<le> 1) \<and> set_mset D \<subseteq> A \<and> (\<forall>x \<in># D. \<forall>y \<in># D. cmp x y = 0 \<longrightarrow> x = y)"

definition lh_data :: "('h, 'c) lhash \<Rightarrow> ptr multiset" where
  "lh_data lh = image_mset item_data (mset (lh_items lh))"

definition lh_ok ::
  "('h \<Rightarrow> ptr \<Rightarrow> u32) \<Rightarrow> ('c \<Rightarrow> ptr \<Rightarrow> ptr \<Rightarrow> int) \<Rightarrow> ptr set \<Rightarrow> ('h, 'c) lhash \<Rightarrow> bool" where
  "lh_ok call_hash call_cmp A lh \<longleftrightarrow>
     buckets_ok (call_hash (lh_hash lh)) (num_buckets lh) (buckets lh) \<and>
     data_ok (call_cmp (lh_comp lh)) A (lh_data lh) \<and>
     num_items lh = length (lh_items lh) \<and> kMinNumBuckets \<le> num_buckets lh \<and> num_buckets lh < 2 ^ 64"

text \<open>The contract of the hash and comparison functions on the objects of \<open>A\<close>.\<close>

locale hashed_keys =
  fixes hash :: "ptr \<Rightarrow> u32" and cmp :: "ptr \<Rightarrow> ptr \<Rightarrow> int" and A :: "ptr set"
  assumes not_null: "0 \<notin> A"
    and cmp_refl: "x \<in> A \<Longrightarrow> cmp x x = 0"
    and cmp_sym: "x \<in> A \<Longrightarrow> y \<in> A \<Longrightarrow> cmp x y = 0 \<Longrightarrow> cmp y x = 0"
    and cmp_trans: "x \<in> A \<Longrightarrow> y \<in> A \<Longrightarrow> z \<in> A \<Longrightarrow> cmp x y = 0 \<Longrightarrow> cmp y z = 0 \<Longrightarrow> cmp x z = 0"
    and hash_eq: "x \<in> A \<Longrightarrow> y \<in> A \<Longrightarrow> cmp x y = 0 \<Longrightarrow> hash x = hash y"

lemma chain_pos_spec:
  "(chain_pos P c < length c \<and> P (item_data (c ! chain_pos P c))) \<or>
   (chain_pos P c = length c \<and> (\<forall>it \<in> set c. \<not> P (item_data it)))"
  by (induction c) auto

lemma chain_pos_le: "chain_pos P c \<le> length c"
  using chain_pos_spec [of P c] by auto

text \<open>Moving items keeps them all and puts each in its bucket.\<close>

lemma mset_concat_update:
  "k < length bs \<Longrightarrow> mset (concat (bs[k := c])) + mset (bs ! k) = mset (concat bs) + mset c"
proof (induction bs arbitrary: k)
  case (Cons b bs)
  then show ?case by (cases k) (auto simp: ac_simps)
qed simp

lemma move_chain_props:
  "0 < n \<Longrightarrow> buckets_ok H n nb \<Longrightarrow> (\<And>it. it \<in> set c \<Longrightarrow> item_hash it = H (item_data it)) \<Longrightarrow>
   buckets_ok H n (move_chain n c nb) \<and> mset (concat (move_chain n c nb)) = mset c + mset (concat nb)"
proof (induction c arbitrary: nb)
  case (Cons it c)
  let ?k = "unat (item_hash it) mod n"
  let ?nb = "nb[?k := it # nb ! ?k]"
  have k: "?k < length nb" "?k < n" using Cons.prems(1,2) by (simp_all add: buckets_ok_def)
  have ok: "buckets_ok H n ?nb"
    unfolding buckets_ok_def
  proof (intro conjI allI impI ballI)
    show "length ?nb = n" using Cons.prems(2) by (simp add: buckets_ok_def)
  next
    fix b it' assume b: "b < n" "it' \<in> set (?nb ! b)"
    then have "it' = it \<and> b = ?k \<or> it' \<in> set (nb ! b)" using k by (cases "b = ?k") auto
    then show "item_hash it' = H (item_data it')" "unat (item_hash it') mod n = b"
      using Cons.prems(2,3) b(1) unfolding buckets_ok_def by auto
  qed
  have "mset (concat ?nb) + mset (nb ! ?k) = add_mset it (mset (concat nb)) + mset (nb ! ?k)"
    using mset_concat_update [OF k(1), of "it # nb ! ?k"] by simp
  then have "mset (concat ?nb) = add_mset it (mset (concat nb))" by simp
  with Cons.IH [OF Cons.prems(1) ok] Cons.prems(3) show ?case by (simp add: Let_def)
qed simp

lemma move_chains_props:
  "0 < n \<Longrightarrow> buckets_ok H n nb \<Longrightarrow> (\<And>it. it \<in> set (concat cs) \<Longrightarrow> item_hash it = H (item_data it)) \<Longrightarrow>
   buckets_ok H n (move_chains n cs nb) \<and> mset (concat (move_chains n cs nb)) = mset (concat cs) + mset (concat nb)"
proof (induction cs arbitrary: nb)
  case (Cons c cs)
  from move_chain_props [OF Cons.prems(1,2), of c] Cons.prems(3)
  have "buckets_ok H n (move_chain n c nb)" "mset (concat (move_chain n c nb)) = mset c + mset (concat nb)" by auto
  with Cons.IH [OF Cons.prems(1)] Cons.prems(3) show ?case by (simp add: ac_simps)
qed simp

lemma buckets_ok_empty: "buckets_ok H n (replicate n [])"
  by (simp add: buckets_ok_def)

lemma stored_data: "stored lh = set_mset (lh_data lh)"
  by (simp add: stored_def lh_data_def)

lemma lh_data_cong: "mset (lh_items lh) = mset (lh_items lh') \<Longrightarrow> lh_data lh = lh_data lh'"
  by (simp add: lh_data_def)

lemma buckets_ok_items:
  assumes ok: "buckets_ok H n bs" and it: "it \<in> set (concat bs)"
  shows "item_hash it = H (item_data it) \<and> it \<in> set (bs ! (unat (H (item_data it)) mod n))"
proof -
  from it obtain b where b: "b < length bs" "it \<in> set (bs ! b)" by (auto simp: in_set_conv_nth [of _ bs])
  from ok have "length bs = n" "\<forall>b < n. \<forall>it \<in> set (bs ! b). item_hash it = H (item_data it) \<and> unat (item_hash it) mod n = b"
    unfolding buckets_ok_def by blast+
  with b have "item_hash it = H (item_data it)" "unat (item_hash it) mod n = b" by blast+
  with b(2) show ?thesis by auto
qed

lemma lh_rebucket_props:
  assumes ok: "lh_ok call_hash call_cmp A lh" and n: "kMinNumBuckets \<le> n" "n < 2 ^ 64"
  shows "lh_ok call_hash call_cmp A (lh_rebucket E lh n) \<and> mset (lh_items (lh_rebucket E lh n)) = mset (lh_items lh) \<and>
    lh_hash (lh_rebucket E lh n) = lh_hash lh \<and> lh_comp (lh_rebucket E lh n) = lh_comp lh \<and>
    num_items (lh_rebucket E lh n) = num_items lh \<and> callback_depth (lh_rebucket E lh n) = callback_depth lh"
proof -
  let ?H = "call_hash (lh_hash lh)"
  let ?bs = "move_chains n (buckets lh) (replicate n [])"
  have b: "buckets_ok ?H (num_buckets lh) (buckets lh)" using ok by (simp add: lh_ok_def)
  have "item_hash it = ?H (item_data it)" if "it \<in> set (concat (buckets lh))" for it
    using buckets_ok_items [OF b that] by simp
  moreover have "0 < n" using n(1) by (simp add: kMinNumBuckets_def)
  ultimately have m: "buckets_ok ?H n ?bs" "mset (concat ?bs) = mset (concat (buckets lh))"
    using move_chains_props [OF _ buckets_ok_empty, of n "buckets lh" ?H] by simp_all
  then have "length (concat ?bs) = length (concat (buckets lh))" by (metis size_mset)
  with m ok n show ?thesis
    by (auto simp: lh_rebucket_def Let_def lh_ok_def lh_items_def lh_data_def split: option.splits)
qed

lemma lh_maybe_resize_props:
  assumes ok: "lh_ok call_hash call_cmp A lh"
  shows "lh_ok call_hash call_cmp A (lh_maybe_resize E lh) \<and> mset (lh_items (lh_maybe_resize E lh)) = mset (lh_items lh) \<and>
    lh_hash (lh_maybe_resize E lh) = lh_hash lh \<and> lh_comp (lh_maybe_resize E lh) = lh_comp lh \<and>
    num_items (lh_maybe_resize E lh) = num_items lh \<and> callback_depth (lh_maybe_resize E lh) = callback_depth lh"
proof -
  have n: "kMinNumBuckets \<le> num_buckets lh" "num_buckets lh < 2 ^ 64" using ok by (simp_all add: lh_ok_def)
  have up: "lh_ok call_hash call_cmp A (lh_rebucket E lh m) \<and> mset (lh_items (lh_rebucket E lh m)) = mset (lh_items lh) \<and>
      lh_hash (lh_rebucket E lh m) = lh_hash lh \<and> lh_comp (lh_rebucket E lh m) = lh_comp lh \<and>
      num_items (lh_rebucket E lh m) = num_items lh \<and> callback_depth (lh_rebucket E lh m) = callback_depth lh"
    if "kMinNumBuckets \<le> m" "m < 2 ^ 64" for m
    by (rule lh_rebucket_props [OF ok that])
  have w: "size_wrap k < 2 ^ 64" for k by (simp add: size_wrap_def)
  have half: "num_buckets lh div 2 < 2 ^ 64" "(kMinNumBuckets :: nat) < 2 ^ 64"
    using n(2) by (simp_all add: kMinNumBuckets_def)
  show ?thesis unfolding lh_maybe_resize_def Let_def
    using up [of "size_wrap (num_buckets lh * 2)"] up [of "num_buckets lh div 2"] up [of kMinNumBuckets] n w half ok
    by (auto simp: not_less)
qed

subsection \<open>Lookup\<close>

lemma set_items_nth: "set (lh_items lh) = (\<Union>b < length (buckets lh). set (buckets lh ! b))"
  unfolding lh_items_def by (auto simp: in_set_conv_nth [of _ "buckets lh"] intro!: bexI [OF _ nth_mem])

context hashed_keys begin

text \<open>An object equal to \<open>x\<close> can only be in the bucket of \<open>x\<close>; the chain search finds it.\<close>

lemma search:
  assumes ok: "lh_ok call_hash call_cmp A lh" and f: "call_hash (lh_hash lh) = hash" "call_cmp (lh_comp lh) = cmp"
    and x: "x \<in> A" and g: "get_next_ptr_and_hash call_hash call_cmp lh x = (h, b, i)"
  shows "h = hash x \<and> b < length (buckets lh) \<and> b = unat (hash x) mod num_buckets lh \<and>
    (i < length (buckets lh ! b) \<and> item_data (buckets lh ! b ! i) \<in> stored lh \<and> cmp (item_data (buckets lh ! b ! i)) x = 0 \<or>
     i = length (buckets lh ! b) \<and> (\<forall>d \<in> stored lh. cmp d x \<noteq> 0))"
proof -
  have bk: "buckets_ok hash (num_buckets lh) (buckets lh)" "stored lh \<subseteq> A" "0 < num_buckets lh"
    using ok f by (auto simp: lh_ok_def data_ok_def stored_data kMinNumBuckets_def)
  have gb: "h = hash x" "b = unat (hash x) mod num_buckets lh" "i = chain_pos (\<lambda>d. cmp d x = 0) (buckets lh ! b)"
    using g f by (auto simp: get_next_ptr_and_hash_def Let_def)
  have b: "b < length (buckets lh)" using gb(2) bk(1,3) by (simp add: buckets_ok_def)
  have sub: "item_data it \<in> stored lh" if "it \<in> set (buckets lh ! b)" for it
    using that b by (auto simp: stored_def set_items_nth)
  have here: "\<exists>it \<in> set (buckets lh ! b). item_data it = d" if "d \<in> stored lh" "cmp d x = 0" for d
  proof -
    obtain it where it: "it \<in> set (concat (buckets lh))" "item_data it = d"
      using \<open>d \<in> stored lh\<close> by (auto simp: stored_def lh_items_def)
    have "hash d = hash x" using that bk(2) x hash_eq by blast
    with buckets_ok_items [OF bk(1) it(1)] it(2) gb(2) show ?thesis by auto
  qed
  from chain_pos_spec [of "\<lambda>d. cmp d x = 0" "buckets lh ! b"] show ?thesis
  proof
    assume l: "chain_pos (\<lambda>d. cmp d x = 0) (buckets lh ! b) < length (buckets lh ! b) \<and>
      cmp (item_data (buckets lh ! b ! chain_pos (\<lambda>d. cmp d x = 0) (buckets lh ! b))) x = 0"
    then show ?thesis using gb b sub nth_mem by simp
  next
    assume "chain_pos (\<lambda>d. cmp d x = 0) (buckets lh ! b) = length (buckets lh ! b) \<and>
      (\<forall>it \<in> set (buckets lh ! b). cmp (item_data it) x \<noteq> 0)"
    then show ?thesis using gb b here by blast
  qed
qed

lemma retrieve:
  assumes ok: "lh_ok call_hash call_cmp A lh" and f: "call_hash (lh_hash lh) = hash" "call_cmp (lh_comp lh) = cmp"
    and x: "x \<in> A"
  shows "OPENSSL_lh_retrieve call_hash call_cmp lh x \<in> stored lh \<and> cmp (OPENSSL_lh_retrieve call_hash call_cmp lh x) x = 0 \<or>
    OPENSSL_lh_retrieve call_hash call_cmp lh x = 0 \<and> (\<forall>d \<in> stored lh. cmp d x \<noteq> 0)"
proof -
  obtain h b i where g: "get_next_ptr_and_hash call_hash call_cmp lh x = (h, b, i)" using prod_cases3 by blast
  from search [OF ok f x g] show ?thesis
    by (auto simp: OPENSSL_lh_retrieve_def g data_at_def)
qed

text \<open>What is found is unique.\<close>

lemma stored_unique:
  assumes ok: "lh_ok call_hash call_cmp A lh" and f: "call_cmp (lh_comp lh) = cmp"
    and "x \<in> A" "d \<in> stored lh" "cmp d x = 0" "d' \<in> stored lh" "cmp d' x = 0"
  shows "d = d'"
proof -
  have s: "stored lh \<subseteq> A" "\<forall>x \<in> stored lh. \<forall>y \<in> stored lh. cmp x y = 0 \<longrightarrow> x = y"
    using ok f by (simp_all add: lh_ok_def data_ok_def stored_data)
  have "d \<in> A" "d' \<in> A" using s(1) assms(4,6) by blast+
  then have "cmp d d' = 0" using cmp_trans [of d x d'] cmp_sym [of d' x] assms(3,5,7) by simp
  then show ?thesis using s(2) assms(4,6) by blast
qed

lemma retrieve_eq:
  assumes ok: "lh_ok call_hash call_cmp A lh" and f: "call_hash (lh_hash lh) = hash" "call_cmp (lh_comp lh) = cmp"
    and x: "x \<in> A" "d \<in> stored lh" "cmp d x = 0"
  shows "OPENSSL_lh_retrieve call_hash call_cmp lh x = d"
  using retrieve [OF ok f x(1)]
proof
  assume "OPENSSL_lh_retrieve call_hash call_cmp lh x \<in> stored lh \<and> cmp (OPENSSL_lh_retrieve call_hash call_cmp lh x) x = 0"
  then show ?thesis using stored_unique [OF ok f(2) x(1) _ _ x(2,3)] by blast
next
  assume "OPENSSL_lh_retrieve call_hash call_cmp lh x = 0 \<and> (\<forall>d \<in> stored lh. cmp d x \<noteq> 0)"
  then show ?thesis using x(2,3) by blast
qed

end

subsection \<open>Insertion and deletion\<close>

text \<open>Replacing a chain: the items outside it stay.\<close>

lemma items_update:
  assumes "b < length (buckets lh)"
  shows "mset (lh_items (lh\<lparr>buckets := (buckets lh)[b := c]\<rparr>)) + mset (buckets lh ! b) = mset (lh_items lh) + mset c"
  using mset_concat_update [OF assms, of c] by (simp add: lh_items_def)

lemma buckets_ok_update:
  "buckets_ok H n bs \<Longrightarrow> b < n \<Longrightarrow>
   (\<And>it. it \<in> set c \<Longrightarrow> item_hash it = H (item_data it) \<and> unat (item_hash it) mod n = b) \<Longrightarrow>
   buckets_ok H n (bs[b := c])"
  unfolding buckets_ok_def by (metis length_list_update nth_list_update_eq nth_list_update_neq)

lemma distinct_ptrs: "distinct (ps :: ptr list) \<Longrightarrow> 0 \<notin> set ps \<Longrightarrow> length ps < 2 ^ 64"
proof -
  assume d: "distinct ps" "0 \<notin> set ps"
  then have "length ps = card (set ps)" by (simp add: distinct_card)
  also have "\<dots> < card (UNIV :: ptr set)" using d(2) by (intro psubset_card_mono) auto
  also have "\<dots> = 2 ^ 64" by (simp add: card_word)
  finally show ?thesis .
qed

lemma data_ok_remove: "data_ok cmp A (add_mset d R) \<Longrightarrow> data_ok cmp A R \<and> d \<notin># R"
proof -
  assume ok: "data_ok cmp A (add_mset d R)"
  then have c: "count (add_mset d R) e \<le> 1" for e by (simp only: data_ok_def)
  then have "count R d = 0" using c [of d] by simp
  moreover have "count R e \<le> 1" for e using c [of e] by (simp split: if_splits)
  ultimately show ?thesis using ok by (simp add: data_ok_def count_eq_zero_iff)
qed

lemma data_ok_length: "data_ok cmp A D \<Longrightarrow> 0 \<notin> A \<Longrightarrow> size D < 2 ^ 64"
proof -
  assume ok: "data_ok cmp A D" "0 \<notin> A"
  have "size D = (\<Sum>d \<in> set_mset D. count D d)" by (simp add: size_multiset_overloaded_eq)
  also have "\<dots> \<le> (\<Sum>d \<in> set_mset D. 1)" using ok by (intro sum_mono) (simp add: data_ok_def)
  also have "\<dots> = card (set_mset D)" by simp
  also have "\<dots> < card (UNIV :: ptr set)" using ok by (intro psubset_card_mono) (auto simp: data_ok_def)
  also have "\<dots> = 2 ^ 64" by (simp add: card_word)
  finally show ?thesis .
qed

context hashed_keys begin

lemma data_ok_add:
  assumes "data_ok cmp A D" "x \<in> A" "\<And>d. d \<in># D \<Longrightarrow> cmp d x \<noteq> 0"
  shows "data_ok cmp A (add_mset x D)"
proof -
  have "x \<notin># D" using assms(2,3) cmp_refl by blast
  then have "count (add_mset x D) d \<le> 1" for d using assms(1) by (auto simp: data_ok_def count_eq_zero_iff)
  moreover have "cmp x d \<noteq> 0" if "d \<in># D" for d
    using assms that cmp_sym [of x d] by (auto simp: data_ok_def)
  ultimately show ?thesis using assms unfolding data_ok_def by auto
qed

lemma data_ok_replace:
  assumes ok: "data_ok cmp A (add_mset old R)" and x: "x \<in> A" "cmp old x = 0"
  shows "data_ok cmp A (add_mset x R)"
proof (rule data_ok_add)
  show "data_ok cmp A R" using data_ok_remove [OF ok] by blast
  fix d assume d: "d \<in># R"
  show "cmp d x \<noteq> 0"
  proof
    assume "cmp d x = 0"
    moreover have "d \<in> A" "old \<in> A" using ok d by (auto simp: data_ok_def)
    ultimately have "cmp d old = 0" using cmp_trans [of d x old] cmp_sym [of old x] x by simp
    then have "d = old" using ok d by (auto simp: data_ok_def)
    then show False using data_ok_remove [OF ok] d by blast
  qed
qed (rule x)

lemma insert_replace:
  assumes ok: "lh_ok call_hash call_cmp A lh" and f: "call_hash (lh_hash lh) = hash" "call_cmp (lh_comp lh) = cmp"
    and x: "x \<in> A" and g: "get_next_ptr_and_hash call_hash call_cmp lh x = (h, b, i)" and i: "i < length (buckets lh ! b)"
  defines "old \<equiv> item_data (buckets lh ! b ! i)"
    and "lh' \<equiv> lh\<lparr>buckets := (buckets lh)[b := (buckets lh ! b)[i := (buckets lh ! b ! i)\<lparr>item_data := x\<rparr>]]\<rparr>"
  shows "lh_ok call_hash call_cmp A lh' \<and> stored lh' = insert x (stored lh - {old}) \<and> old \<in> stored lh \<and> cmp old x = 0"
proof -
  let ?c = "buckets lh ! b" and ?it = "buckets lh ! b ! i"
  let ?it' = "?it\<lparr>item_data := x\<rparr>"
  from search [OF ok f x g] i have s: "b < length (buckets lh)" "b = unat (hash x) mod num_buckets lh"
    "old \<in> stored lh" "cmp old x = 0" by (auto simp: old_def)
  have bk: "buckets_ok hash (num_buckets lh) (buckets lh)" "data_ok cmp A (lh_data lh)" "num_items lh = length (lh_items lh)"
    using ok f by (simp_all add: lh_ok_def)
  have n: "b < num_buckets lh" using s(1) bk(1) by (simp add: buckets_ok_def)
  have old: "hash old = hash x" using bk(2) s(3,4) hash_eq x by (auto simp: data_ok_def stored_data)
  have inb: "item_hash it = hash (item_data it) \<and> unat (item_hash it) mod num_buckets lh = b" if "it \<in> set ?c" for it
    using bk(1) n that unfolding buckets_ok_def by blast
  have "?it \<in># mset ?c" using i by simp
  then obtain C where C: "mset ?c = add_mset ?it C" by (metis insert_DiffM)
  have "mset (lh_items lh') + mset ?c = mset (lh_items lh) + mset (?c[i := ?it'])"
    unfolding lh'_def by (rule items_update [OF s(1)])
  then have e: "add_mset ?it (mset (lh_items lh')) = add_mset ?it' (mset (lh_items lh))"
    using mset_update [OF i, of ?it'] C by (simp add: ac_simps)
  have "?it \<in> set (lh_items lh)" using s(1) nth_mem [OF i] unfolding set_items_nth by blast
  then obtain rest where r: "mset (lh_items lh) = add_mset ?it rest" by (metis insert_DiffM set_mset_mset)
  then have r': "mset (lh_items lh') = add_mset ?it' rest" using e by (simp add: add_mset_commute)
  have dat: "lh_data lh = add_mset old (image_mset item_data rest)" "lh_data lh' = add_mset x (image_mset item_data rest)"
    using r r' by (simp_all add: lh_data_def old_def)
  have ok': "data_ok cmp A (lh_data lh')" using data_ok_replace [OF _ x s(4)] bk(2) unfolding dat by blast
  have "item_hash ?it' = hash (item_data ?it') \<and> unat (item_hash ?it') mod num_buckets lh = b"
    using s(2) inb [OF nth_mem [OF i]] old by (simp add: old_def)
  then have "item_hash it = hash (item_data it) \<and> unat (item_hash it) mod num_buckets lh = b" if "it \<in> set (?c[i := ?it'])" for it
    using inb subsetD [OF set_update_subset_insert that] by blast
  from buckets_ok_update [OF bk(1) n this] have "buckets_ok hash (num_buckets lh) (buckets lh')" by (simp add: lh'_def)
  moreover have "length (lh_items lh') = length (lh_items lh)" using r r' by (metis size_add_mset size_mset)
  moreover have "stored lh' = insert x (stored lh - {old})"
    using data_ok_remove [of cmp A old "image_mset item_data rest"] bk(2) unfolding stored_data dat by auto
  ultimately show ?thesis using ok ok' f s bk(3) by (simp add: lh_ok_def lh'_def)
qed

lemma insert_new:
  assumes ok: "lh_ok call_hash call_cmp A lh" and f: "call_hash (lh_hash lh) = hash" "call_cmp (lh_comp lh) = cmp"
    and x: "x \<in> A" and g: "get_next_ptr_and_hash call_hash call_cmp lh x = (h, b, i)" and i: "\<not> i < length (buckets lh ! b)"
  defines "lh' \<equiv> lh\<lparr>buckets := (buckets lh)[b := buckets lh ! b @ [\<lparr>item_data = x, item_hash = h\<rparr>]],
      num_items := size_wrap (num_items lh + 1)\<rparr>"
  shows "lh_ok call_hash call_cmp A lh' \<and> stored lh' = insert x (stored lh) \<and> num_items lh' = num_items lh + 1"
proof -
  let ?it = "\<lparr>item_data = x, item_hash = h\<rparr>"
  from search [OF ok f x g] i have s: "b < length (buckets lh)" "b = unat (hash x) mod num_buckets lh" "h = hash x"
    "\<forall>d \<in> stored lh. cmp d x \<noteq> 0" by auto
  have bk: "buckets_ok hash (num_buckets lh) (buckets lh)" "data_ok cmp A (lh_data lh)" "num_items lh = length (lh_items lh)"
    using ok f by (simp_all add: lh_ok_def)
  have n: "b < num_buckets lh" using s(1) bk(1) by (simp add: buckets_ok_def)
  have "mset (lh_items lh') + mset (buckets lh ! b) = mset (lh_items lh) + mset (buckets lh ! b @ [?it])"
    using items_update [OF s(1), of "buckets lh ! b @ [?it]"] by (simp add: lh'_def lh_items_def)
  then have m: "mset (lh_items lh') = add_mset ?it (mset (lh_items lh))" by simp
  then have dat: "lh_data lh' = add_mset x (lh_data lh)" by (simp add: lh_data_def)
  have ok': "data_ok cmp A (lh_data lh')" unfolding dat
    by (rule data_ok_add [OF bk(2) x]) (use s(4) in \<open>simp add: stored_data\<close>)
  have "size (lh_data lh') = length (lh_items lh) + 1" using dat by (simp add: lh_data_def)
  then have small: "length (lh_items lh) + 1 < 2 ^ 64" using data_ok_length [OF ok' not_null] by simp
  have inb: "item_hash it = hash (item_data it) \<and> unat (item_hash it) mod num_buckets lh = b" if "it \<in> set (buckets lh ! b)" for it
    using bk(1) n that unfolding buckets_ok_def by blast
  have "buckets_ok hash (num_buckets lh) ((buckets lh)[b := buckets lh ! b @ [?it]])"
  proof (rule buckets_ok_update [OF bk(1) n])
    fix it assume "it \<in> set (buckets lh ! b @ [?it])"
    then have "it \<in> set (buckets lh ! b) \<or> it = ?it" by auto
    then show "item_hash it = hash (item_data it) \<and> unat (item_hash it) mod num_buckets lh = b"
    proof
      assume "it \<in> set (buckets lh ! b)"
      then show ?thesis by (rule inb)
    next
      assume "it = ?it"
      then show ?thesis using s(2,3) by simp
    qed
  qed
  then have "buckets_ok hash (num_buckets lh) (buckets lh')" by (simp add: lh'_def)
  moreover have "length (lh_items lh') = length (lh_items lh) + 1" using m by (metis Suc_eq_plus1 size_add_mset size_mset)
  ultimately show ?thesis using ok ok' f bk(3) small dat by (simp add: lh_ok_def lh'_def stored_data)
qed

lemma delete_found:
  assumes ok: "lh_ok call_hash call_cmp A lh" and f: "call_hash (lh_hash lh) = hash" "call_cmp (lh_comp lh) = cmp"
    and x: "x \<in> A" and g: "get_next_ptr_and_hash call_hash call_cmp lh x = (h, b, i)" and i: "i < length (buckets lh ! b)"
  defines "old \<equiv> item_data (buckets lh ! b ! i)"
    and "lh' \<equiv> lh\<lparr>buckets := (buckets lh)[b := take i (buckets lh ! b) @ drop (Suc i) (buckets lh ! b)],
      num_items := num_items lh - 1\<rparr>"
  shows "lh_ok call_hash call_cmp A lh' \<and> stored lh' = stored lh - {old} \<and> old \<in> stored lh \<and> cmp old x = 0 \<and>
    num_items lh' + 1 = num_items lh"
proof -
  let ?c = "buckets lh ! b" and ?it = "buckets lh ! b ! i"
  let ?c' = "take i ?c @ drop (Suc i) ?c"
  from search [OF ok f x g] i have s: "b < length (buckets lh)" "old \<in> stored lh" "cmp old x = 0" by (auto simp: old_def)
  have bk: "buckets_ok hash (num_buckets lh) (buckets lh)" "data_ok cmp A (lh_data lh)" "num_items lh = length (lh_items lh)"
    using ok f by (simp_all add: lh_ok_def)
  have n: "b < num_buckets lh" using s(1) bk(1) by (simp add: buckets_ok_def)
  have "?c = take i ?c @ ?it # drop (Suc i) ?c" using i by (rule id_take_nth_drop)
  then have C: "mset ?c = add_mset ?it (mset ?c')" by (metis mset_append mset.simps(2) union_mset_add_mset_right)
  have "mset (lh_items lh') + mset ?c = mset (lh_items lh) + mset ?c'"
    using items_update [OF s(1), of ?c'] by (simp add: lh'_def lh_items_def)
  then have m: "mset (lh_items lh) = add_mset ?it (mset (lh_items lh'))" using C by simp
  then have dat: "lh_data lh = add_mset old (lh_data lh')" by (simp add: lh_data_def old_def)
  have rm: "data_ok cmp A (lh_data lh')" "old \<notin># lh_data lh'"
    using data_ok_remove [of cmp A old "lh_data lh'"] bk(2) unfolding dat by blast+
  have "set ?c' \<subseteq> set ?c" using set_take_subset set_drop_subset by fastforce
  moreover have inb: "item_hash it = hash (item_data it) \<and> unat (item_hash it) mod num_buckets lh = b" if "it \<in> set ?c" for it
    using bk(1) n that unfolding buckets_ok_def by blast
  ultimately have "buckets_ok hash (num_buckets lh) ((buckets lh)[b := ?c'])"
    by (intro buckets_ok_update [OF bk(1) n] inb) (rule subsetD)
  then have "buckets_ok hash (num_buckets lh) (buckets lh')" by (simp add: lh'_def)
  moreover have l: "length (lh_items lh) = length (lh_items lh') + 1" using m by (metis Suc_eq_plus1 size_add_mset size_mset)
  then have nn: "num_items lh' = length (lh_items lh')" "num_items lh' + 1 = num_items lh" using bk(3) by (simp_all add: lh'_def)
  moreover have f': "lh_hash lh' = lh_hash lh" "lh_comp lh' = lh_comp lh" "num_buckets lh' = num_buckets lh"
    by (simp_all add: lh'_def)
  moreover have "kMinNumBuckets \<le> num_buckets lh" "num_buckets lh < 2 ^ 64" using ok by (simp_all add: lh_ok_def)
  ultimately have "lh_ok call_hash call_cmp A lh'" unfolding lh_ok_def f' f using rm(1) by blast
  moreover have "stored lh' = stored lh - {old}" using rm(2) unfolding stored_data dat by auto
  ultimately show ?thesis using s(2,3) nn(2) by blast
qed

end

subsection \<open>The contract of the table\<close>

context hashed_keys begin

text \<open>The table behaves as the map that takes an object to the stored object that is equal to it.\<close>

lemma retrieve_change:
  assumes ok: "lh_ok call_hash call_cmp A lh" and ok': "lh_ok call_hash call_cmp A lh'"
    and f: "call_hash (lh_hash lh) = hash" "call_cmp (lh_comp lh) = cmp"
    and f': "lh_hash lh' = lh_hash lh" "lh_comp lh' = lh_comp lh"
    and y: "y \<in> A" and same: "\<And>d. cmp d y = 0 \<Longrightarrow> d \<in> stored lh' \<longleftrightarrow> d \<in> stored lh"
  shows "OPENSSL_lh_retrieve call_hash call_cmp lh' y = OPENSSL_lh_retrieve call_hash call_cmp lh y"
  using retrieve [OF ok f y]
proof
  assume "OPENSSL_lh_retrieve call_hash call_cmp lh y \<in> stored lh \<and> cmp (OPENSSL_lh_retrieve call_hash call_cmp lh y) y = 0"
  then show ?thesis using retrieve_eq [OF ok' _ _ y, unfolded f', OF f] same by blast
next
  assume none: "OPENSSL_lh_retrieve call_hash call_cmp lh y = 0 \<and> (\<forall>d \<in> stored lh. cmp d y \<noteq> 0)"
  then have "\<forall>d \<in> stored lh'. cmp d y \<noteq> 0" using same by blast
  then show ?thesis using retrieve [OF ok' _ _ y, unfolded f', OF f] none by auto
qed

lemma stored_in: "lh_ok call_hash call_cmp A lh \<Longrightarrow> stored lh \<subseteq> A"
  by (simp add: lh_ok_def data_ok_def stored_data)

text \<open>Insertion: the equal object, if there is one, is replaced and returned.\<close>

lemma insert_spec:
  assumes ok: "lh_ok call_hash call_cmp A lh" and f: "call_hash (lh_hash lh) = hash" "call_cmp (lh_comp lh) = cmp"
    and x: "x \<in> A" and r: "OPENSSL_lh_insert E call_hash call_cmp lh x = (r, old, lh')"
  shows "lh_ok call_hash call_cmp A lh' \<and> lh_hash lh' = lh_hash lh \<and> lh_comp lh' = lh_comp lh \<and>
    callback_depth lh' = callback_depth lh \<and> old = OPENSSL_lh_retrieve call_hash call_cmp lh x \<and>
    (if r then stored lh' = insert x (stored lh - {old}) else lh' = lh \<and> old = 0 \<and> OPENSSL_malloc E sizeof_item = None) \<and>
    (old = 0 \<and> OPENSSL_malloc E sizeof_item = None \<longrightarrow> \<not> r)"
proof -
  obtain h b i where g: "get_next_ptr_and_hash call_hash call_cmp lh x = (h, b, i)" using prod_cases3 by blast
  note s = search [OF ok f x g]
  show ?thesis
  proof (cases "i < length (buckets lh ! b)")
    case True
    from insert_replace [OF ok f x g True] r True g s not_null stored_in [OF ok] show ?thesis
      by (auto simp: OPENSSL_lh_insert_def Let_def OPENSSL_lh_retrieve_def data_at_def)
  next
    case False
    have z: "0 \<notin> stored lh" using not_null stored_in [OF ok] by blast
    have none: "OPENSSL_lh_retrieve call_hash call_cmp lh x = 0"
      using False by (simp add: OPENSSL_lh_retrieve_def g data_at_def)
    show ?thesis
    proof (cases "OPENSSL_malloc E sizeof_item")
      case None
      with r g False ok none show ?thesis by (auto simp: OPENSSL_lh_insert_def Let_def)
    next
      case (Some blk)
      define l1 where "l1 = lh\<lparr>buckets := (buckets lh)[b := buckets lh ! b @ [\<lparr>item_data = x, item_hash = h\<rparr>]],
        num_items := size_wrap (num_items lh + 1)\<rparr>"
      from insert_new [OF ok f x g False, folded l1_def]
      have l1: "lh_ok call_hash call_cmp A l1" "stored l1 = insert x (stored lh)" by blast+
      have e: "r" "old = 0" "lh' = lh_maybe_resize E l1"
        using r g False Some by (simp_all add: OPENSSL_lh_insert_def Let_def l1_def)
      note m = lh_maybe_resize_props [OF l1(1), of E]
      then have "stored lh' = insert x (stored lh)" using l1(2) e(3) by (simp add: stored_data lh_data_def)
      then show ?thesis using m e none z Some by (simp add: l1_def)
    qed
  qed
qed

lemma insert_retrieve:
  assumes ok: "lh_ok call_hash call_cmp A lh" and f: "call_hash (lh_hash lh) = hash" "call_cmp (lh_comp lh) = cmp"
    and x: "x \<in> A" and r: "OPENSSL_lh_insert E call_hash call_cmp lh x = (True, old, lh')" and y: "y \<in> A"
  shows "OPENSSL_lh_retrieve call_hash call_cmp lh' y = (if cmp x y = 0 then x else OPENSSL_lh_retrieve call_hash call_cmp lh y)"
proof -
  from insert_spec [OF ok f x r] have ok': "lh_ok call_hash call_cmp A lh'"
    and f': "lh_hash lh' = lh_hash lh" "lh_comp lh' = lh_comp lh"
    and st: "stored lh' = insert x (stored lh - {old})" and old: "old = OPENSSL_lh_retrieve call_hash call_cmp lh x" by simp_all
  show ?thesis
  proof (cases "cmp x y = 0")
    case True
    then show ?thesis using retrieve_eq [OF ok' _ _ y, unfolded f', OF f, of x] st by simp
  next
    case False
    have "d \<in> stored lh' \<longleftrightarrow> d \<in> stored lh" if d: "cmp d y = 0" for d
    proof -
      have "d \<noteq> old" if "d \<in> stored lh"
      proof
        assume o: "d = old"
        with that have i: "d \<in> A" using stored_in [OF ok] by blast
        have "d \<noteq> 0" using i not_null by blast
        then have "cmp d x = 0" using retrieve [OF ok f x] o old by auto
        then have "cmp x y = 0" using cmp_trans [of x d y] cmp_sym [of d x] i x y d by simp
        with False show False ..
      qed
      moreover have "d \<noteq> x" using d False by blast
      ultimately show ?thesis unfolding st by blast
    qed
    with False show ?thesis using retrieve_change [OF ok ok' f f' y] by simp
  qed
qed

lemma delete_spec:
  assumes ok: "lh_ok call_hash call_cmp A lh" and f: "call_hash (lh_hash lh) = hash" "call_cmp (lh_comp lh) = cmp"
    and x: "x \<in> A" and r: "OPENSSL_lh_delete E call_hash call_cmp lh x = (old, lh')"
  shows "lh_ok call_hash call_cmp A lh' \<and> lh_hash lh' = lh_hash lh \<and> lh_comp lh' = lh_comp lh \<and>
    callback_depth lh' = callback_depth lh \<and> old = OPENSSL_lh_retrieve call_hash call_cmp lh x \<and> stored lh' = stored lh - {old}"
proof -
  obtain h b i where g: "get_next_ptr_and_hash call_hash call_cmp lh x = (h, b, i)" using prod_cases3 by blast
  note s = search [OF ok f x g]
  show ?thesis
  proof (cases "i < length (buckets lh ! b)")
    case True
    define l1 where "l1 = lh\<lparr>buckets := (buckets lh)[b := take i (buckets lh ! b) @ drop (Suc i) (buckets lh ! b)],
      num_items := num_items lh - 1\<rparr>"
    from delete_found [OF ok f x g True, folded l1_def] have l1: "lh_ok call_hash call_cmp A l1"
      "stored l1 = stored lh - {item_data (buckets lh ! b ! i)}" by blast+
    have e: "old = item_data (buckets lh ! b ! i)" "lh' = lh_maybe_resize E l1"
      using r g True by (simp_all add: OPENSSL_lh_delete_def Let_def l1_def)
    note m = lh_maybe_resize_props [OF l1(1), of E]
    then have "stored lh' = stored lh - {old}" using l1(2) e by (simp add: stored_data lh_data_def)
    then show ?thesis using m e True by (simp add: l1_def OPENSSL_lh_retrieve_def g data_at_def)
  next
    case False
    have "0 \<notin> stored lh" using not_null stored_in [OF ok] by blast
    with False r g ok show ?thesis by (auto simp: OPENSSL_lh_delete_def Let_def OPENSSL_lh_retrieve_def data_at_def)
  qed
qed

lemma delete_retrieve:
  assumes ok: "lh_ok call_hash call_cmp A lh" and f: "call_hash (lh_hash lh) = hash" "call_cmp (lh_comp lh) = cmp"
    and x: "x \<in> A" and r: "OPENSSL_lh_delete E call_hash call_cmp lh x = (old, lh')" and y: "y \<in> A"
  shows "OPENSSL_lh_retrieve call_hash call_cmp lh' y = (if cmp x y = 0 then 0 else OPENSSL_lh_retrieve call_hash call_cmp lh y)"
proof -
  from delete_spec [OF ok f x r] have ok': "lh_ok call_hash call_cmp A lh'"
    and f': "lh_hash lh' = lh_hash lh" "lh_comp lh' = lh_comp lh"
    and st: "stored lh' = stored lh - {old}" and old: "old = OPENSSL_lh_retrieve call_hash call_cmp lh x" by simp_all
  show ?thesis
  proof (cases "cmp x y = 0")
    case True
    have "cmp d y \<noteq> 0" if d: "d \<in> stored lh'" for d
    proof
      assume "cmp d y = 0"
      moreover have i: "d \<in> A" "d \<in> stored lh" using d st stored_in [OF ok] by blast+
      ultimately have "cmp d x = 0" using cmp_trans [of d y x] cmp_sym [of x y] True x y by simp
      then have "d = old" using retrieve_eq [OF ok f x i(2)] old by simp
      then show False using d st by blast
    qed
    then show ?thesis using retrieve [OF ok' _ _ y, unfolded f', OF f] True by auto
  next
    case False
    have "d \<noteq> old" if d: "cmp d y = 0" "d \<in> stored lh" for d
    proof
      assume o: "d = old"
      have i: "d \<in> A" "d \<noteq> 0" using d(2) stored_in [OF ok] not_null by blast+
      then have "cmp d x = 0" using retrieve [OF ok f x] o old by auto
      then have "cmp x y = 0" using cmp_trans [of x d y] cmp_sym [of d x] i x y d by simp
      with False show False ..
    qed
    then show ?thesis using retrieve_change [OF ok ok' f f' y] st False by auto
  qed
qed

end

lemma lh_new_props:
  assumes "OPENSSL_lh_new E hf cf = Some lh"
  shows "lh_ok call_hash call_cmp A lh \<and> lh_hash lh = hf \<and> lh_comp lh = cf \<and> stored lh = {} \<and> num_items lh = 0 \<and>
    num_buckets lh = kMinNumBuckets \<and> callback_depth lh = 0"
  using assms
  by (auto simp: OPENSSL_lh_new_def lh_ok_def buckets_ok_empty lh_items_def lh_data_def data_ok_def stored_def
      kMinNumBuckets_def split: option.splits)

text \<open>Only the hash values and comparisons of the stored objects matter.\<close>

lemma lh_ok_cong:
  assumes ok: "lh_ok ch cc A lh" and h: "\<And>x. x \<in> stored lh \<Longrightarrow> ch' (lh_hash lh) x = ch (lh_hash lh) x"
    and c: "\<And>x y. x \<in> stored lh \<Longrightarrow> y \<in> stored lh \<Longrightarrow> cc' (lh_comp lh) x y = cc (lh_comp lh) x y"
    and A: "stored lh \<subseteq> A'"
  shows "lh_ok ch' cc' A' lh"
proof -
  have b: "buckets_ok (ch (lh_hash lh)) (num_buckets lh) (buckets lh)" using ok by (simp add: lh_ok_def)
  have i: "item_data it \<in> stored lh" if "b < num_buckets lh" "it \<in> set (buckets lh ! b)" for b it
  proof -
    have "b < length (buckets lh)" using that(1) b by (simp add: buckets_ok_def)
    then show ?thesis using that(2) by (auto simp: stored_def set_items_nth)
  qed
  have "buckets_ok (ch' (lh_hash lh)) (num_buckets lh) (buckets lh)"
    using b h i unfolding buckets_ok_def by metis
  moreover have "data_ok (cc' (lh_comp lh)) A' (lh_data lh)"
    using ok c A unfolding lh_ok_def data_ok_def stored_data by metis
  ultimately show ?thesis using ok by (simp add: lh_ok_def)
qed

subsection \<open>Visiting the objects\<close>

lemma call_chain_Cons: "call_chain (#) c st = rev (map item_data c) @ st"
  by (induction c arbitrary: st) auto

lemma call_chains_Cons: "mset (call_chains (#) cs st) = image_mset item_data (mset (concat cs)) + mset st"
  by (induction cs arbitrary: st) (auto simp: call_chain_Cons)

lemma callbacks_frame:
  "buckets (leave_callbacks (enter_callbacks lh)) = buckets lh \<and> num_items (leave_callbacks (enter_callbacks lh)) = num_items lh \<and>
   num_buckets (leave_callbacks (enter_callbacks lh)) = num_buckets lh \<and> lh_hash (leave_callbacks (enter_callbacks lh)) = lh_hash lh \<and>
   lh_comp (leave_callbacks (enter_callbacks lh)) = lh_comp lh"
  by (simp add: enter_callbacks_def leave_callbacks_def)

lemma callbacks_depth: "callback_depth lh = 0 \<Longrightarrow> callback_depth (leave_callbacks (enter_callbacks lh)) = 0"
proof -
  have "(0 :: u32) < -1" "(1 :: u32) < -1" by (simp_all add: word_less_def unsigned_minus_1_eq_mask mask_eq_exp_minus_1)
  then show "callback_depth lh = 0 \<Longrightarrow> callback_depth (leave_callbacks (enter_callbacks lh)) = 0"
    by (simp add: enter_callbacks_def leave_callbacks_def)
qed

lemma doall_props:
  assumes ok: "lh_ok call_hash call_cmp A lh" and r: "OPENSSL_lh_doall_arg E lh (#) [] = (lh', ds)"
  shows "lh_ok call_hash call_cmp A lh' \<and> lh_hash lh' = lh_hash lh \<and> lh_comp lh' = lh_comp lh \<and> stored lh' = stored lh \<and>
    mset ds = mset_set (stored lh)"
proof -
  let ?l = "leave_callbacks (enter_callbacks lh)"
  note fr = callbacks_frame [of lh]
  have i: "lh_items ?l = lh_items lh" "lh_data ?l = lh_data lh" using fr by (simp_all add: lh_items_def lh_data_def)
  have ok1: "lh_ok call_hash call_cmp A ?l" using ok fr i by (simp add: lh_ok_def)
  have ds: "mset ds = lh_data lh" "lh' = lh_maybe_resize E ?l"
    using r call_chains_Cons [of "buckets lh" "[]"]
    by (auto simp: OPENSSL_lh_doall_arg_def Let_def lh_data_def lh_items_def enter_callbacks_def split: if_splits)
  have "count (lh_data lh) d = (if d \<in> stored lh then 1 else 0)" for d
  proof -
    have "count (lh_data lh) d \<le> 1" using ok by (simp add: lh_ok_def data_ok_def)
    then show ?thesis
      by (cases "d \<in># lh_data lh") (auto simp: stored_data not_in_iff intro: le_antisym Suc_leI)
  qed
  moreover have "finite (stored lh)" by (simp add: stored_data)
  ultimately have "lh_data lh = mset_set (stored lh)" by (intro multiset_eqI) (simp add: count_mset_set')
  then show ?thesis using lh_maybe_resize_props [OF ok1, of E] ds fr i by (simp add: stored_data lh_data_def)
qed

subsection \<open>Runs of a table and of the map it stands for\<close>

datatype lh_op = Lh_Insert ptr | Lh_Delete ptr | Lh_Retrieve ptr | Lh_Visit

datatype lh_out = Replaced bool ptr | Found ptr | Visited "ptr multiset"

text \<open>Every operation has a heap of its own.\<close>

fun lh_step ::
  "('h \<Rightarrow> ptr \<Rightarrow> u32) \<Rightarrow> ('c \<Rightarrow> ptr \<Rightarrow> ptr \<Rightarrow> int) \<Rightarrow> heap_env \<times> lh_op \<Rightarrow> ('h, 'c) lhash \<Rightarrow> lh_out \<times> ('h, 'c) lhash" where
  "lh_step call_hash call_cmp (E, Lh_Insert x) lh =
     (case OPENSSL_lh_insert E call_hash call_cmp lh x of (r, old, lh') \<Rightarrow> (Replaced r old, lh'))"
| "lh_step call_hash call_cmp (E, Lh_Delete x) lh =
     (case OPENSSL_lh_delete E call_hash call_cmp lh x of (old, lh') \<Rightarrow> (Found old, lh'))"
| "lh_step call_hash call_cmp (E, Lh_Retrieve x) lh = (Found (OPENSSL_lh_retrieve call_hash call_cmp lh x), lh)"
| "lh_step call_hash call_cmp (E, Lh_Visit) lh =
     (case OPENSSL_lh_doall_arg E lh (#) [] of (lh', ds) \<Rightarrow> (Visited (mset ds), lh'))"

fun lh_run ::
  "('h \<Rightarrow> ptr \<Rightarrow> u32) \<Rightarrow> ('c \<Rightarrow> ptr \<Rightarrow> ptr \<Rightarrow> int) \<Rightarrow> (heap_env \<times> lh_op) list \<Rightarrow> ('h, 'c) lhash \<Rightarrow> lh_out list \<times> ('h, 'c) lhash" where
  "lh_run call_hash call_cmp [] lh = ([], lh)"
| "lh_run call_hash call_cmp (op # ops) lh =
     (case lh_step call_hash call_cmp op lh of
        (out, lh') \<Rightarrow> (case lh_run call_hash call_cmp ops lh' of (outs, lh'') \<Rightarrow> (out # outs, lh'')))"

text \<open>The map takes an object to the stored object that is equal to it, or to NULL.\<close>

fun map_step :: "(ptr \<Rightarrow> ptr \<Rightarrow> int) \<Rightarrow> ptr set \<Rightarrow> heap_env \<times> lh_op \<Rightarrow> (ptr \<Rightarrow> ptr) \<Rightarrow> lh_out \<times> (ptr \<Rightarrow> ptr)" where
  "map_step cmp A (E, Lh_Insert x) m =
     (if m x = 0 \<and> OPENSSL_malloc E sizeof_item = None then (Replaced False 0, m)
      else (Replaced True (m x), \<lambda>y. if cmp x y = 0 then x else m y))"
| "map_step cmp A (E, Lh_Delete x) m = (Found (m x), \<lambda>y. if cmp x y = 0 then 0 else m y)"
| "map_step cmp A (E, Lh_Retrieve x) m = (Found (m x), m)"
| "map_step cmp A (E, Lh_Visit) m = (Visited (mset_set (m ` A - {0})), m)"

fun map_run :: "(ptr \<Rightarrow> ptr \<Rightarrow> int) \<Rightarrow> ptr set \<Rightarrow> (heap_env \<times> lh_op) list \<Rightarrow> (ptr \<Rightarrow> ptr) \<Rightarrow> lh_out list" where
  "map_run cmp A [] m = []"
| "map_run cmp A (op # ops) m = (case map_step cmp A op m of (out, m') \<Rightarrow> out # map_run cmp A ops m')"

fun op_object :: "lh_op \<Rightarrow> ptr set" where
  "op_object (Lh_Insert x) = {x}"
| "op_object (Lh_Delete x) = {x}"
| "op_object (Lh_Retrieve x) = {x}"
| "op_object Lh_Visit = {}"

definition ops_objects :: "(heap_env \<times> lh_op) list \<Rightarrow> ptr set" where
  "ops_objects ops = (\<Union>op \<in> set ops. op_object (snd op))"

text \<open>The table stands for the map.\<close>

definition lh_represents ::
  "('h \<Rightarrow> ptr \<Rightarrow> u32) \<Rightarrow> ('c \<Rightarrow> ptr \<Rightarrow> ptr \<Rightarrow> int) \<Rightarrow> ptr set \<Rightarrow> ('h, 'c) lhash \<Rightarrow> (ptr \<Rightarrow> ptr) \<Rightarrow> bool" where
  "lh_represents call_hash call_cmp A lh m \<longleftrightarrow>
     lh_ok call_hash call_cmp A lh \<and> (\<forall>y \<in> A. m y = OPENSSL_lh_retrieve call_hash call_cmp lh y)"

context hashed_keys begin

lemma retrieve_range:
  assumes ok: "lh_ok call_hash call_cmp A lh" and f: "call_hash (lh_hash lh) = hash" "call_cmp (lh_comp lh) = cmp"
  shows "OPENSSL_lh_retrieve call_hash call_cmp lh ` A - {0} = stored lh"
proof
  show "OPENSSL_lh_retrieve call_hash call_cmp lh ` A - {0} \<subseteq> stored lh" using retrieve [OF ok f] by auto
  show "stored lh \<subseteq> OPENSSL_lh_retrieve call_hash call_cmp lh ` A - {0}"
  proof
    fix d assume d: "d \<in> stored lh"
    then have i: "d \<in> A" using stored_in [OF ok] by blast
    then have "OPENSSL_lh_retrieve call_hash call_cmp lh d = d" using retrieve_eq [OF ok f i d] cmp_refl by blast
    moreover have "d \<noteq> 0" using i not_null by blast
    ultimately show "d \<in> OPENSSL_lh_retrieve call_hash call_cmp lh ` A - {0}" using i by (metis Diff_iff image_eqI singletonD)
  qed
qed

lemma step_represents:
  assumes rep: "lh_represents call_hash call_cmp A lh m" and f: "call_hash (lh_hash lh) = hash" "call_cmp (lh_comp lh) = cmp"
    and x: "op_object (snd op) \<subseteq> A" and s: "lh_step call_hash call_cmp op lh = (out, lh')" and t: "map_step cmp A op m = (out', m')"
  shows "out = out' \<and> lh_represents call_hash call_cmp A lh' m' \<and> lh_hash lh' = lh_hash lh \<and> lh_comp lh' = lh_comp lh"
proof -
  have ok: "lh_ok call_hash call_cmp A lh" and m: "\<And>y. y \<in> A \<Longrightarrow> m y = OPENSSL_lh_retrieve call_hash call_cmp lh y"
    using rep by (simp_all add: lh_represents_def)
  obtain E o' where op: "op = (E, o')" by (cases op)
  show ?thesis
  proof (cases o')
    case (Lh_Insert x)
    then have x: "x \<in> A" using x op by simp
    obtain r old l where r: "OPENSSL_lh_insert E call_hash call_cmp lh x = (r, old, l)" using prod_cases3 by blast
    have l: "l = lh'" "out = Replaced r old" using s op Lh_Insert r by simp_all
    note spec = insert_spec [OF ok f x r] m [OF x]
    show ?thesis
    proof (cases r)
      case True
      then have rT: "OPENSSL_lh_insert E call_hash call_cmp lh x = (True, old, l)" using r by simp
      note upd = insert_retrieve [OF ok f x rT]
      have "\<not> (m x = 0 \<and> OPENSSL_malloc E sizeof_item = None)" using spec True by auto
      then have "out' = Replaced True (m x)" "m' = (\<lambda>y. if cmp x y = 0 then x else m y)"
        using t op Lh_Insert by auto
      then show ?thesis using spec upd m l True by (auto simp: lh_represents_def)
    next
      case False
      then have "old = 0 \<and> m x = old \<and> OPENSSL_malloc E sizeof_item = None" using spec by auto
      then have "m x = 0 \<and> OPENSSL_malloc E sizeof_item = None" by simp
      then have "out' = Replaced False 0" "m' = m" using t op Lh_Insert by auto
      then show ?thesis using spec l rep False by auto
    qed
  next
    case (Lh_Delete x)
    then have x: "x \<in> A" using x op by simp
    obtain old l where r: "OPENSSL_lh_delete E call_hash call_cmp lh x = (old, l)" using prod.exhaust by blast
    show ?thesis using delete_spec [OF ok f x r] delete_retrieve [OF ok f x r] m s t op Lh_Delete r x
      by (auto simp: lh_represents_def)
  next
    case (Lh_Retrieve x)
    then show ?thesis using rep m x s t op by auto
  next
    case Lh_Visit
    obtain l ds where r: "OPENSSL_lh_doall_arg E lh (#) [] = (l, ds)" using prod.exhaust by blast
    have l: "l = lh'" "out = Visited (mset ds)" using s op Lh_Visit r by simp_all
    note d = doall_props [OF ok r]
    have "m ` A = OPENSSL_lh_retrieve call_hash call_cmp lh ` A" using m by (rule image_cong [OF refl])
    then have "out' = Visited (mset_set (stored lh))" "m' = m" using t op Lh_Visit retrieve_range [OF ok f] by auto
    moreover have "m y = OPENSSL_lh_retrieve call_hash call_cmp lh' y" if "y \<in> A" for y
      using m [OF that] retrieve_change [OF ok _ f _ _ that, of lh'] d l by simp
    ultimately show ?thesis using d l by (simp add: lh_represents_def)
  qed
qed

lemma run_represents:
  assumes "lh_represents call_hash call_cmp A lh m" "call_hash (lh_hash lh) = hash" "call_cmp (lh_comp lh) = cmp"
    and "ops_objects ops \<subseteq> A"
  shows "fst (lh_run call_hash call_cmp ops lh) = map_run cmp A ops m \<and>
    lh_ok call_hash call_cmp A (snd (lh_run call_hash call_cmp ops lh))"
  using assms
proof (induction ops arbitrary: lh m)
  case Nil
  then show ?case by (simp add: lh_represents_def)
next
  case (Cons op ops)
  obtain out l where s: "lh_step call_hash call_cmp op lh = (out, l)" using prod.exhaust by blast
  obtain out' m' where t: "map_step cmp A op m = (out', m')" using prod.exhaust by blast
  have x: "op_object (snd op) \<subseteq> A" "ops_objects ops \<subseteq> A" using Cons.prems(4) by (auto simp: ops_objects_def)
  note st = step_represents [OF Cons.prems(1-3) x(1) s t]
  from Cons.IH [of l m'] st x(2) Cons.prems(2,3) s t show ?case by (auto split: prod.split)
qed

end

subsection \<open>The load of a table\<close>

definition heap_serves :: "heap_env \<Rightarrow> bool" where
  "heap_serves E \<longleftrightarrow> malloc_serves E = (\<lambda>_. True)"

definition load_ok :: "('h, 'c) lhash \<Rightarrow> bool" where
  "load_ok lh \<longleftrightarrow> callback_depth lh = 0 \<and> kMinNumBuckets \<le> num_buckets lh \<and> num_items lh < 3 * num_buckets lh \<and>
     num_buckets lh \<le> max kMinNumBuckets (num_items lh)"

lemma rebucket_served:
  assumes "malloc_serves E = (\<lambda>_. True)" "n < 2 ^ 60"
  shows "num_buckets (lh_rebucket E lh n) = n \<and> num_items (lh_rebucket E lh n) = num_items lh \<and>
    callback_depth (lh_rebucket E lh n) = callback_depth lh"
proof -
  have "size_wrap (8 * n) = 8 * n" "size_wrap (8 * n + 8) = 8 * n + 8" using assms(2) by (simp_all add: size_wrap_def)
  then show ?thesis using assms(1)
    by (simp add: lh_rebucket_def Let_def sizeof_item_ptr_def OPENSSL_zalloc_def OPENSSL_malloc_def OPENSSL_MALLOC_PREFIX_def)
qed

text \<open>One item more than the bounds allow is made good.\<close>

lemma resize_load:
  assumes E: "malloc_serves E = (\<lambda>_. True)" and d: "callback_depth lh = 0"
    and nb: "kMinNumBuckets \<le> num_buckets lh" "num_buckets lh < 2 ^ 59"
    and n: "num_items lh \<le> 3 * num_buckets lh" "num_buckets lh \<le> max kMinNumBuckets (num_items lh + 1)"
  shows "load_ok (lh_maybe_resize E lh)"
proof -
  define n b where nb_def: "n = num_items lh" "b = num_buckets lh"
  have h: "16 \<le> b" "b < 2 ^ 59" "n \<le> 3 * b" "b \<le> 16 \<or> b \<le> n + 1"
    using nb n by (auto simp: nb_def kMinNumBuckets_def)
  have w: "size_wrap (b * 2) = b * 2" using h(2) by (simp add: size_wrap_def)
  consider (up) "2 < n div b" | (down) "n div b < 1" "16 < b" | (stay) "n div b \<le> 2" "1 \<le> n div b \<or> b \<le> 16" by linarith
  then show ?thesis
  proof cases
    case up
    then have "3 * b \<le> n" using h(1) by (metis One_nat_def Suc_leI eval_nat_numeral(3) less_eq_div_iff_mult_less_eq less_le_trans zero_less_one one_le_numeral numeral_2_eq_2)
    then have "n = 3 * b" using h(3) by simp
    moreover have "lh_maybe_resize E lh = lh_rebucket E lh (b * 2)"
      using up h(1) d by (simp add: lh_maybe_resize_def Let_def kMaxAverageChainLength_def w flip: nb_def)
    ultimately show ?thesis using rebucket_served [OF E, of "b * 2" lh] h d
      by (simp add: load_ok_def kMinNumBuckets_def flip: nb_def)
  next
    case down
    let ?b = "if b div 2 < 16 then 16 else b div 2"
    have "n < b" using down(1) h(1) by (simp add: div_eq_0_iff)
    moreover have "lh_maybe_resize E lh = lh_rebucket E lh ?b"
      using down d by (simp add: lh_maybe_resize_def Let_def kMaxAverageChainLength_def kMinAverageChainLength_def
          kMinNumBuckets_def flip: nb_def)
    moreover have "?b < 2 ^ 60" using h(2) le_less_trans [OF div_le_dividend [of b 2] h(2)] by simp
    ultimately show ?thesis using rebucket_served [OF E, of ?b lh] h d down(2)
      by (auto simp: load_ok_def kMinNumBuckets_def simp flip: nb_def)
  next
    case stay
    have "lh_maybe_resize E lh = lh"
      using stay by (auto simp: lh_maybe_resize_def Let_def kMaxAverageChainLength_def kMinAverageChainLength_def
          kMinNumBuckets_def simp flip: nb_def)
    moreover have "n < 3 * b" using stay(1) h(1) using div_less_iff_less_mult [of b n 3] by simp
    moreover have "b \<le> n \<or> b \<le> 16" using stay(2) h(1) by (auto simp: less_eq_div_iff_mult_less_eq)
    ultimately show ?thesis using h d by (auto simp: load_ok_def kMinNumBuckets_def simp flip: nb_def)
  qed
qed

lemma resize_items: "num_items (lh_maybe_resize E lh) = num_items lh"
proof -
  have "num_items (lh_rebucket E lh n) = num_items lh" for n
    by (simp add: lh_rebucket_def Let_def split: option.split)
  then show ?thesis by (simp add: lh_maybe_resize_def Let_def)
qed

lemma load_bounds:
  "load_ok lh \<Longrightarrow> num_items lh < 2 ^ 58 \<Longrightarrow>
   callback_depth lh = 0 \<and> kMinNumBuckets \<le> num_buckets lh \<and> num_buckets lh < 2 ^ 59 \<and> num_items lh + 1 \<le> 3 * num_buckets lh \<and>
   num_buckets lh \<le> max kMinNumBuckets (num_items lh)"
  by (auto simp: load_ok_def kMinNumBuckets_def)

lemma resize_load':
  assumes E: "malloc_serves E = (\<lambda>_. True)" and ok: "load_ok lh" "num_items lh < 2 ^ 58"
    and "callback_depth l = callback_depth lh" "num_buckets l = num_buckets lh" "num_items l \<le> num_items lh + 1"
      "num_items lh \<le> num_items l + 1"
  shows "load_ok (lh_maybe_resize E l)"
proof (rule resize_load [OF E])
  note b = load_bounds [OF ok]
  show "num_buckets l \<le> max kMinNumBuckets (num_items l + 1)" using b assms(5,7) by linarith
qed (use load_bounds [OF ok] assms(4-7) in auto)

lemma insert_load:
  assumes E: "malloc_serves E = (\<lambda>_. True)" and ok: "load_ok lh" "num_items lh < 2 ^ 58"
    and r: "OPENSSL_lh_insert E call_hash call_cmp lh x = (r, old, lh')"
  shows "load_ok lh' \<and> num_items lh' \<le> num_items lh + 1"
proof -
  obtain h b i where g: "get_next_ptr_and_hash call_hash call_cmp lh x = (h, b, i)" using prod_cases3 by blast
  let ?bs = "(buckets lh)[b := buckets lh ! b @ [\<lparr>item_data = x, item_hash = h\<rparr>]]"
  define l1 where "l1 = lh\<lparr>buckets := ?bs, num_items := size_wrap (num_items lh + 1)\<rparr>"
  have "num_items l1 = num_items lh + 1" using ok(2) by (simp add: l1_def size_wrap_def)
  moreover have "callback_depth l1 = callback_depth lh" "num_buckets l1 = num_buckets lh" by (simp_all add: l1_def)
  ultimately have l1: "load_ok (lh_maybe_resize E l1)" "num_items (lh_maybe_resize E l1) \<le> num_items lh + 1"
    using resize_load' [OF E ok, of l1] resize_items [of E l1] load_bounds [OF ok] by simp_all
  show ?thesis
  proof (cases "i < length (buckets lh ! b)")
    case True
    then show ?thesis using r g ok(1) by (auto simp: OPENSSL_lh_insert_def Let_def load_ok_def)
  next
    case False
    then have "lh' = lh \<or> lh' = lh_maybe_resize E l1"
      using r g by (auto simp: OPENSSL_lh_insert_def Let_def l1_def split: option.splits)
    then show ?thesis using ok(1) l1 by auto
  qed
qed

lemma delete_load:
  assumes E: "malloc_serves E = (\<lambda>_. True)" and ok: "load_ok lh" "num_items lh < 2 ^ 58"
    and r: "OPENSSL_lh_delete E call_hash call_cmp lh x = (old, lh')"
  shows "load_ok lh' \<and> num_items lh' \<le> num_items lh"
proof -
  obtain h b i where g: "get_next_ptr_and_hash call_hash call_cmp lh x = (h, b, i)" using prod_cases3 by blast
  define l1 where "l1 = lh\<lparr>buckets := (buckets lh)[b := take i (buckets lh ! b) @ drop (Suc i) (buckets lh ! b)],
    num_items := num_items lh - 1\<rparr>"
  have "callback_depth l1 = callback_depth lh" "num_buckets l1 = num_buckets lh" "num_items l1 = num_items lh - 1"
    by (simp_all add: l1_def)
  then have l1: "load_ok (lh_maybe_resize E l1)" "num_items (lh_maybe_resize E l1) \<le> num_items lh"
    using resize_load' [OF E ok, of l1] resize_items [of E l1] load_bounds [OF ok] by simp_all
  have "lh' = lh \<or> lh' = lh_maybe_resize E l1"
    using r g by (auto simp: OPENSSL_lh_delete_def Let_def l1_def split: if_splits)
  then show ?thesis using ok(1) l1 by auto
qed

lemma doall_load:
  assumes E: "malloc_serves E = (\<lambda>_. True)" and ok: "load_ok lh" "num_items lh < 2 ^ 58"
    and r: "OPENSSL_lh_doall_arg E lh f st = (lh', st')"
  shows "load_ok lh' \<and> num_items lh' \<le> num_items lh"
proof -
  let ?l = "leave_callbacks (enter_callbacks lh)"
  have "load_ok (lh_maybe_resize E ?l)"
    using resize_load' [OF E ok, of ?l] load_bounds [OF ok] callbacks_frame [of lh] callbacks_depth [of lh] by simp
  moreover have "num_items (lh_maybe_resize E ?l) \<le> num_items lh"
    using callbacks_frame [of lh] resize_items [of E ?l] by simp
  ultimately show ?thesis using r by (auto simp: OPENSSL_lh_doall_arg_def Let_def)
qed

lemma step_load:
  assumes E: "heap_serves (fst op)" and ok: "load_ok lh" "num_items lh < 2 ^ 58"
    and s: "lh_step call_hash call_cmp op lh = (out, lh')"
  shows "load_ok lh' \<and> num_items lh' \<le> num_items lh + 1"
proof -
  obtain E o' where op: "op = (E, o')" by (cases op)
  then have E: "malloc_serves E = (\<lambda>_. True)" using E by (simp add: heap_serves_def)
  show ?thesis
  proof (cases o')
    case (Lh_Insert x)
    then show ?thesis using insert_load [OF E ok] s op by (auto split: prod.splits)
  next
    case (Lh_Delete x)
    then show ?thesis using delete_load [OF E ok] s op by (fastforce split: prod.splits)
  next
    case (Lh_Retrieve x)
    then show ?thesis using ok s op by simp
  next
    case Lh_Visit
    then show ?thesis using doall_load [OF E ok] s op by (fastforce split: prod.splits)
  qed
qed

lemma run_load:
  "list_all (\<lambda>op. heap_serves (fst op)) ops \<Longrightarrow> load_ok lh \<Longrightarrow> num_items lh + length ops < 2 ^ 58 \<Longrightarrow>
   load_ok (snd (lh_run call_hash call_cmp ops lh))"
proof (induction ops arbitrary: lh)
  case (Cons op ops)
  obtain out l where s: "lh_step call_hash call_cmp op lh = (out, l)" using prod.exhaust by blast
  from step_load [OF _ Cons.prems(2) _ s] Cons.prems(1,3) have "load_ok l" "num_items l \<le> num_items lh + 1" by simp_all
  with Cons.IH [of l] Cons.prems(1,3) s show ?case by (auto split: prod.split)
qed simp

text \<open>C16: On a table just made, every sequence of insertions, deletions, lookups and visits, each on
  a heap of its own, gives what the map from objects to equal stored objects gives: the old object
  of an insertion or deletion, the equal object of a lookup, each stored object once in a visit.
  The hash function, the resizing and the reallocation failures change nothing; an insertion fails
  only for a new object when the item cannot be allocated.
\<close>

theorem lhash_refines_map:
  assumes "hashed_keys (call_hash hf) (call_cmp cf) A" and "OPENSSL_lh_new E hf cf = Some lh" and "ops_objects ops \<subseteq> A"
  shows "fst (lh_run call_hash call_cmp ops lh) = map_run (call_cmp cf) A ops (\<lambda>_. 0)"
proof -
  note new = lh_new_props [OF assms(2), of call_hash call_cmp A]
  then have "lh_represents call_hash call_cmp A lh (\<lambda>_. 0)"
    using hashed_keys.retrieve [OF assms(1), of call_hash call_cmp lh] by (auto simp: lh_represents_def)
  with hashed_keys.run_represents [OF assms(1) this _ _ assms(3)] new show ?thesis by simp
qed

text \<open>Two objects with one value: the second insertion hands the first one back.\<close>

lemma lhash_refines_map_witness:
  "fst (lh_run (\<lambda>_ p. ucast p AND 1) (\<lambda>_ a b. if a AND 3 = b AND 3 then 0 else 1)
      [(calm_heap, Lh_Insert 5), (calm_heap, Lh_Insert 9), (calm_heap, Lh_Retrieve 5), (calm_heap, Lh_Delete 5),
       (calm_heap, Lh_Retrieve 9)]
      (the (OPENSSL_lh_new calm_heap () ()))) =
   [Replaced True 0, Replaced True 5, Found 9, Found 9, Found 0]"
proof -
  let ?cmp = "\<lambda>a b :: ptr. if a AND 3 = b AND 3 then 0 else 1 :: int"
  have k: "hashed_keys (\<lambda>p. ucast p AND 1) ?cmp {5, 9}" by unfold_locales (auto split: if_splits)
  have n: "OPENSSL_lh_new calm_heap () () = Some (the (OPENSSL_lh_new calm_heap () ()))"
    by (simp add: OPENSSL_lh_new_def OPENSSL_calloc_def OPENSSL_zalloc_def OPENSSL_malloc_def calm_heap_def OPENSSL_MALLOC_PREFIX_def size_wrap_def
        kMinNumBuckets_def sizeof_item_ptr_def sizeof_lhash_def)
  show ?thesis
    by (subst lhash_refines_map [where call_hash = "\<lambda>_. \<lambda>p. ucast p AND 1" and call_cmp = "\<lambda>_. ?cmp" and A = "{5, 9}", OF k n])
      (simp_all add: ops_objects_def OPENSSL_malloc_def calm_heap_def OPENSSL_MALLOC_PREFIX_def size_wrap_def sizeof_item_def)
qed

text \<open>When memory is never short and a table sees fewer than 2^58 operations, it has fewer than
  three items for each bucket, and no more buckets than items beyond the sixteen it starts with.
\<close>

theorem lhash_load_bounded:
  assumes "OPENSSL_lh_new E hf cf = Some lh" and "list_all (\<lambda>op. heap_serves (fst op)) ops" and "length ops < 2 ^ 58"
  shows "load_ok (snd (lh_run call_hash call_cmp ops lh))"
proof (rule run_load [OF assms(2)])
  show "load_ok lh" "num_items lh + length ops < 2 ^ 58"
    using lh_new_props [OF assms(1)] assms(3) by (auto simp: load_ok_def kMinNumBuckets_def)
qed

lemma lhash_load_bounded_witness:
  "load_ok (snd (lh_run (\<lambda>_ p. ucast p) (\<lambda>_ a b. if a = b then 0 else 1)
     [(calm_heap, Lh_Insert 5), (calm_heap, Lh_Insert 9), (calm_heap, Lh_Visit)]
     (the (OPENSSL_lh_new calm_heap () ()))))"
  by (rule lhash_load_bounded [of calm_heap "()" "()"])
    (simp_all add: OPENSSL_lh_new_def OPENSSL_calloc_def OPENSSL_zalloc_def OPENSSL_malloc_def calm_heap_def OPENSSL_MALLOC_PREFIX_def size_wrap_def
        kMinNumBuckets_def sizeof_item_ptr_def sizeof_lhash_def heap_serves_def)

end
