(* ===== verification/Siphash.thy ===== *)
theory Siphash
  imports Prelude
begin

text \<open>
  crypto/siphash/siphash.c: SipHash-2-4. The array \<open>v\<close> of the code is a tuple of four words; the
  input is the list of the \<open>input_len\<close> bytes at \<open>input\<close>. The host is little-endian, as the code
  assumes when it loads words with \<open>memcpy\<close>.
\<close>

unbundle bit_operations_syntax

type_synonym sip_state = "u64 \<times> u64 \<times> u64 \<times> u64"

text \<open>The shift \<open>(-shift) & 63\<close> of the code is taken on the \<open>int\<close>.\<close>

definition CRYPTO_rotl_u64 :: "u64 \<Rightarrow> nat \<Rightarrow> u64" where
  "CRYPTO_rotl_u64 v shift = push_bit shift v OR drop_bit (nat (- int shift mod 64)) v"

definition CRYPTO_load_u64_le :: "u8 list \<Rightarrow> u64" where
  "CRYPTO_load_u64_le p = word64_of (take 8 p)"

definition siphash_round :: "sip_state \<Rightarrow> sip_state" where
  "siphash_round v =
     (case v of
        (v0, v1, v2, v3) \<Rightarrow>
          let v0 = v0 + v1; v2 = v2 + v3;
              v1 = CRYPTO_rotl_u64 v1 13; v3 = CRYPTO_rotl_u64 v3 16;
              v1 = v1 XOR v0; v3 = v3 XOR v2;
              v0 = CRYPTO_rotl_u64 v0 32;
              v2 = v2 + v1; v0 = v0 + v3;
              v1 = CRYPTO_rotl_u64 v1 17; v3 = CRYPTO_rotl_u64 v3 21;
              v1 = v1 XOR v2; v3 = v3 XOR v0;
              v2 = CRYPTO_rotl_u64 v2 32
          in (v0, v1, v2, v3))"

text \<open>One word of the message: \<open>v[3] ^= m\<close>, two rounds, \<open>v[0] ^= m\<close>.\<close>

definition sip_absorb :: "sip_state \<Rightarrow> u64 \<Rightarrow> sip_state" where
  "sip_absorb v m =
     (case v of
        (v0, v1, v2, v3) \<Rightarrow>
          (case siphash_round (siphash_round (v0, v1, v2, v3 XOR m)) of
             (v0, v1, v2, v3) \<Rightarrow> (v0 XOR m, v1, v2, v3)))"

text \<open>The loop over whole words: the state and the bytes left.\<close>

function sip_loop :: "sip_state \<Rightarrow> u8 list \<Rightarrow> sip_state \<times> u8 list" where
  "sip_loop v input =
     (if 8 \<le> length input then sip_loop (sip_absorb v (CRYPTO_load_u64_le input)) (drop 8 input) else (v, input))"
  by pat_completeness auto
termination by (relation "measure (\<lambda>(v, input). length input)") auto

declare sip_loop.simps [simp del]

definition SIPHASH_24 :: "u64 \<times> u64 \<Rightarrow> u8 list \<Rightarrow> u64" where
  "SIPHASH_24 key input =
     (let orig_input_len = length input;
          v = (fst key XOR 0x736f6d6570736575, snd key XOR 0x646f72616e646f6d,
               fst key XOR 0x6c7967656e657261, snd key XOR 0x7465646279746573);
          (v, input) = sip_loop v input;
          last_block = replicate 8 0;
          last_block = input @ drop (length input) last_block;
          last_block = last_block[7 := word_of_nat orig_input_len AND 0xff];
          (v0, v1, v2, v3) = sip_absorb v (CRYPTO_load_u64_le last_block);
          (v0, v1, v2, v3) = siphash_round (siphash_round (siphash_round (siphash_round (v0, v1, v2 XOR 0xff, v3))))
      in v0 XOR v1 XOR v2 XOR v3)"

subsection \<open>SipHash-2-4 as its authors define it\<close>

text \<open>
  The padded message, cut into words, is folded into the state with two rounds for each word; four
  rounds finish. A round is two half rounds on the pairs of words.
\<close>

definition half_round :: "nat \<Rightarrow> nat \<Rightarrow> sip_state \<Rightarrow> sip_state" where
  "half_round s t v =
     (case v of
        (a, b, c, d) \<Rightarrow>
          (word_rotl 32 (a + b), word_rotl s b XOR (a + b), c + d, word_rotl t d XOR (c + d)))"

text \<open>The second half round takes the words in the order 2, 1, 0, 3.\<close>

definition sip_round :: "sip_state \<Rightarrow> sip_state" where
  "sip_round v =
     (case half_round 13 16 v of
        (v0, v1, v2, v3) \<Rightarrow> (case half_round 17 21 (v2, v1, v0, v3) of (v2, v1, v0, v3) \<Rightarrow> (v0, v1, v2, v3)))"

fun le_words :: "u8 list \<Rightarrow> u64 list" where
  "le_words (a # b # c # d # e # f # g # h # rest) = word_rcat [h, g, f, e, d, c, b, a] # le_words rest"
| "le_words _ = []"

definition sip_padding :: "u8 list \<Rightarrow> u8 list" where
  "sip_padding msg = msg @ replicate (7 - length msg mod 8) 0 @ [word_of_nat (length msg mod 256)]"

definition sip_compress :: "u64 \<Rightarrow> sip_state \<Rightarrow> sip_state" where
  "sip_compress m v =
     (case v of (v0, v1, v2, v3) \<Rightarrow>
        (case (sip_round ^^ 2) (v0, v1, v2, v3 XOR m) of (v0, v1, v2, v3) \<Rightarrow> (v0 XOR m, v1, v2, v3)))"

definition siphash_2_4 :: "u64 \<times> u64 \<Rightarrow> u8 list \<Rightarrow> u64" where
  "siphash_2_4 key msg =
     (case fold sip_compress (le_words (sip_padding msg))
          (fst key XOR 0x736f6d6570736575, snd key XOR 0x646f72616e646f6d,
           fst key XOR 0x6c7967656e657261, snd key XOR 0x7465646279746573) of
        (v0, v1, v2, v3) \<Rightarrow>
          (case (sip_round ^^ 4) (v0, v1, v2 XOR 0xff, v3) of (v0, v1, v2, v3) \<Rightarrow> v0 XOR v1 XOR v2 XOR v3))"

lemma CRYPTO_rotl_u64_rotl: "0 < k \<Longrightarrow> k < 64 \<Longrightarrow> CRYPTO_rotl_u64 v k = word_rotl k v"
proof (rule bit_eqI)
  fix n assume k: "0 < k" "k < 64" and "possible_bit TYPE(u64) n"
  then have n: "n < 64" by simp
  have m: "nat (- int k mod 64) = 64 - k" using k by (simp add: zmod_zminus1_eq_if nat_diff_distrib)
  have e: "(n + (64 - k)) mod 64 = (if n < k then n + (64 - k) else n - k)"
  proof (cases "n < k")
    case False
    then have "n + (64 - k) = (n - k) + 64" using k by simp
    then have "(n + (64 - k)) mod 64 = (n - k) mod 64" by simp
    then show ?thesis using False n by simp
  qed (use k in simp)
  have "bit (word_rotl k v) n \<longleftrightarrow> bit v ((n + (64 - k)) mod 64)" using k n by (simp add: bit_word_rotl_iff)
  moreover have "bit (CRYPTO_rotl_u64 v k) n \<longleftrightarrow> k \<le> n \<and> bit v (n - k) \<or> bit v (n + (64 - k))"
    using n by (simp add: CRYPTO_rotl_u64_def m bit_or_iff bit_push_bit_iff bit_drop_bit_eq add.commute)
  moreover have "\<not> bit v (n + (64 - k))" if "k \<le> n" using k that bit_imp_le_length [of v "n + (64 - k)"] by auto
  ultimately show "bit (CRYPTO_rotl_u64 v k) n = bit (word_rotl k v) n" unfolding e by (simp add: not_less)
qed

lemma siphash_round_eq: "siphash_round v = sip_round v"
  by (cases v) (simp add: siphash_round_def sip_round_def half_round_def CRYPTO_rotl_u64_rotl Let_def)

lemma funpow_4: "(f ^^ 4) x = f (f (f (f x)))"
  by (simp add: numeral_eq_Suc)

lemma sip_absorb_eq: "sip_absorb v m = sip_compress m v"
  by (simp add: sip_absorb_def sip_compress_def siphash_round_eq numeral_2_eq_2)

lemma byte_plus: "ucast (a :: u8) + 256 * X = (ucast a OR push_bit 8 X :: u64)"
proof -
  have "ucast a + push_bit 8 X = (ucast a OR push_bit 8 X :: u64)"
  proof (rule disjunctive_add)
    fix n show "\<not> bit (ucast a :: u64) n \<or> \<not> bit (push_bit 8 X) n"
      using bit_imp_le_length [of a n] by (auto simp: bit_ucast_iff bit_push_bit_iff)
  qed
  then show ?thesis by (simp add: push_bit_eq_mult mult.commute)
qed

lemma word_rcat_word64: "word_rcat [h, g, f, e, d, c, b, a :: u8] = word64_of [a, b, c, d, e, f, g, h]"
proof -
  have u: "word_of_int (uint x) = (ucast x :: u64)" for x :: u8 by simp
  have "word_rcat [h, g, f, e, d, c, b, a] =
    (ucast a + 256 * (ucast b + 256 * (ucast c + 256 * (ucast d + 256 * (ucast e + 256 * (ucast f + 256 * (ucast g +
      256 * (ucast h + 256 * 0))))))) :: u64)"
    by (simp add: word_rcat_def)
  also have "\<dots> = word64_of [a, b, c, d, e, f, g, h]"
    unfolding byte_plus by (simp add: word64_of_def push_bit_or push_bit_push_bit or.assoc)
  finally show ?thesis .
qed

lemma le_words_step:
  "8 \<le> length p \<Longrightarrow> le_words p = CRYPTO_load_u64_le p # le_words (drop 8 p)"
proof -
  assume l: "8 \<le> length p"
  then obtain a b c d e f g h rest where "p = a # b # c # d # e # f # g # h # rest"
    by (auto simp: numeral_eq_Suc Suc_le_length_iff)
  then show ?thesis by (simp add: CRYPTO_load_u64_le_def word_rcat_word64)
qed

text \<open>The loop absorbs the whole words of the message; the bytes left and the padding make one more word.\<close>

lemma sip_loop_words:
  "sip_loop v input = (v', rest) \<Longrightarrow>
   length rest = length input mod 8 \<and>
   (length rest + length t = 8 \<longrightarrow>
    fold sip_compress (le_words (input @ t)) v = sip_compress (CRYPTO_load_u64_le (rest @ t)) v')"
proof (induction v input rule: sip_loop.induct)
  case (1 v input)
  show ?case
  proof (cases "8 \<le> length input")
    case True
    then have "sip_loop (sip_absorb v (CRYPTO_load_u64_le input)) (drop 8 input) = (v', rest)"
      using "1.prems" by (subst (asm) sip_loop.simps) simp
    from "1.IH" [OF True this] True show ?thesis
      by (auto simp: le_words_step [of "input @ t"] sip_absorb_eq CRYPTO_load_u64_le_def le_mod_geq)
  next
    case False
    then have "v' = v" "rest = input" using "1.prems" by (simp_all add: sip_loop.simps [of v input])
    then show ?thesis using False by (auto simp: le_words_step [of "input @ t"])
  qed
qed

text \<open>C35: SIPHASH_24, with its loop over whole words and its last block, is SipHash-2-4 of the whole
  message as its authors define it: the words of the padded message folded into the state.
\<close>

theorem SIPHASH_24_is_siphash: "SIPHASH_24 key input = siphash_2_4 key input"
proof -
  let ?v = "(fst key XOR 0x736f6d6570736575, snd key XOR 0x646f72616e646f6d,
    fst key XOR 0x6c7967656e657261, snd key XOR 0x7465646279746573)"
  let ?n = "length input"
  let ?t = "replicate (7 - ?n mod 8) 0 @ [word_of_nat (?n mod 256)] :: u8 list"
  obtain v' rest where l: "sip_loop ?v input = (v', rest)" using prod.exhaust by blast
  have r: "length rest = ?n mod 8" using sip_loop_words [OF l] by blast
  have m: "?n mod 8 \<le> 7" by simp
  then have f: "fold sip_compress (le_words (sip_padding input)) ?v = sip_compress (CRYPTO_load_u64_le (rest @ ?t)) v'"
    using sip_loop_words [OF l, of ?t] r by (simp add: sip_padding_def)
  have "word_of_nat ?n AND 0xff = (word_of_nat (?n mod 256) :: u8)"
  proof -
    have "(0xff :: u8) = -1" by simp
    then show ?thesis by (simp only: and.right_neutral) (simp add: word_unat_eq_iff unat_of_nat)
  qed
  moreover have "(rest @ drop (length rest) (replicate 8 0))[7 := x] = rest @ replicate (7 - length rest) 0 @ [x]" for x :: u8
  proof -
    have "8 - length rest = Suc (7 - length rest)" using r m by simp
    then have "drop (length rest) (replicate 8 0) = (replicate (7 - length rest) 0 @ [0 :: u8])"
      by (simp add: replicate_append_same)
    then show ?thesis using r m by (simp add: list_update_append)
  qed
  ultimately show ?thesis
    by (simp add: SIPHASH_24_def siphash_2_4_def Let_def l f r sip_absorb_eq siphash_round_eq funpow_4 split: prod.split)
qed

end
