(* ===== verification/Refcount.thy ===== *)
theory Refcount
  imports Prelude
begin

text \<open>
  crypto/refcount.c: reference counts changed by compare-and-exchange loops. The other threads are a
  schedule: for every attempt of the loop the value that the shared count has at that moment, and
  whether the weak exchange fails spuriously. Every interference of other threads is such a schedule.
  A run that uses up its schedule is still in the loop.
\<close>

definition CRYPTO_REFCOUNT_MAX :: u32 where
  "CRYPTO_REFCOUNT_MAX = 0xffffffff"

type_synonym attempt = "u32 \<times> bool"

text \<open>The result, the value in \<open>expected\<close> afterwards, and the value written if any.\<close>

definition CRYPTO_atomic_compare_exchange_weak_u32 :: "attempt \<Rightarrow> u32 \<Rightarrow> u32 \<Rightarrow> bool \<times> u32 \<times> u32 option" where
  "CRYPTO_atomic_compare_exchange_weak_u32 a expected desired =
     (if fst a = expected \<and> \<not> snd a then (True, expected, Some desired) else (False, fst a, None))"

text \<open>
  How a call ends: it replaced one value by another and returned, it saw a value and returned
  without writing, it aborted the program, or it still tries.
\<close>

datatype 'r rc_outcome = Exchanged u32 u32 'r | Untouched u32 'r | Aborted | Trying

fun inc_loop :: "u32 \<Rightarrow> attempt list \<Rightarrow> unit rc_outcome" where
  "inc_loop expected sched =
     (if expected \<noteq> CRYPTO_REFCOUNT_MAX then
        let new_value = expected + 1
        in case sched of
             [] \<Rightarrow> Trying
           | a # sched' \<Rightarrow>
               (case CRYPTO_atomic_compare_exchange_weak_u32 a expected new_value of
                  (True, _, _) \<Rightarrow> Exchanged expected new_value ()
                | (False, expected', _) \<Rightarrow> inc_loop expected' sched')
      else Untouched expected ())"

definition CRYPTO_refcount_inc :: "u32 \<Rightarrow> attempt list \<Rightarrow> unit rc_outcome" where
  "CRYPTO_refcount_inc loaded sched = inc_loop loaded sched"

fun dec_loop :: "u32 \<Rightarrow> attempt list \<Rightarrow> bool rc_outcome" where
  "dec_loop expected sched =
     (if expected = 0 then Aborted
      else if expected = CRYPTO_REFCOUNT_MAX then Untouched expected False
      else
        let new_value = expected - 1
        in case sched of
             [] \<Rightarrow> Trying
           | a # sched' \<Rightarrow>
               (case CRYPTO_atomic_compare_exchange_weak_u32 a expected new_value of
                  (True, _, _) \<Rightarrow> Exchanged expected new_value (new_value = 0)
                | (False, expected', _) \<Rightarrow> dec_loop expected' sched'))"

definition CRYPTO_refcount_dec_and_test_zero :: "u32 \<Rightarrow> attempt list \<Rightarrow> bool rc_outcome" where
  "CRYPTO_refcount_dec_and_test_zero loaded sched = dec_loop loaded sched"

declare inc_loop.simps [simp del] dec_loop.simps [simp del]

subsection \<open>The counts as atomic operations\<close>

text \<open>What a call does to the count at one moment: the new count, and for a decrement the result.\<close>

definition refcount_inc :: "u32 \<Rightarrow> u32" where
  "refcount_inc n = (if n = CRYPTO_REFCOUNT_MAX then n else n + 1)"

definition refcount_dec :: "u32 \<Rightarrow> (u32 \<times> bool) option" where
  "refcount_dec n =
     (if n = 0 then None else if n = CRYPTO_REFCOUNT_MAX then Some (n, False) else Some (n - 1, n - 1 = 0))"

text \<open>The values that the count had while the call ran.\<close>

definition seen :: "u32 \<Rightarrow> attempt list \<Rightarrow> u32 set" where
  "seen loaded sched = insert loaded (fst ` set sched)"

lemma seen_Cons: "seen e (a # sched) = insert e (seen (fst a) sched)"
  by (auto simp: seen_def)

lemma seen_first: "e \<in> seen e sched"
  by (simp add: seen_def)

lemma inc_loop_atomic:
  "case inc_loop e sched of
     Exchanged n m _ \<Rightarrow> (n, False) \<in> set sched \<and> n \<noteq> CRYPTO_REFCOUNT_MAX \<and> m = refcount_inc n
   | Untouched n _ \<Rightarrow> n \<in> seen e sched \<and> n = refcount_inc n
   | Aborted \<Rightarrow> False
   | Trying \<Rightarrow> True"
proof (induction sched arbitrary: e)
  case (Cons a sched)
  from Cons.IH [of "fst a"] show ?case
    by (cases a) (auto simp: inc_loop.simps [of e] Let_def CRYPTO_atomic_compare_exchange_weak_u32_def refcount_inc_def
        seen_Cons seen_first split: rc_outcome.splits)
qed (simp add: inc_loop.simps seen_def refcount_inc_def)

lemma dec_loop_atomic:
  "case dec_loop e sched of
     Exchanged n m z \<Rightarrow> (n, False) \<in> set sched \<and> refcount_dec n = Some (m, z)
   | Untouched n z \<Rightarrow> n \<in> seen e sched \<and> refcount_dec n = Some (n, z)
   | Aborted \<Rightarrow> 0 \<in> seen e sched
   | Trying \<Rightarrow> True"
proof (induction sched arbitrary: e)
  case (Cons a sched)
  from Cons.IH [of "fst a"] show ?case
    by (cases a) (auto simp: dec_loop.simps [of e] Let_def CRYPTO_atomic_compare_exchange_weak_u32_def refcount_dec_def
        seen_Cons seen_first CRYPTO_REFCOUNT_MAX_def split: rc_outcome.splits)
qed (simp add: dec_loop.simps seen_def refcount_dec_def CRYPTO_REFCOUNT_MAX_def)

text \<open>Some attempt comes right after the count was read and before any other thread changes it.\<close>

fun undisturbed :: "u32 \<Rightarrow> attempt list \<Rightarrow> bool" where
  "undisturbed e [] = False"
| "undisturbed e (a # sched) = (a = (e, False) \<or> undisturbed (fst a) sched)"

lemma inc_loop_ends: "undisturbed e sched \<Longrightarrow> inc_loop e sched \<noteq> Trying"
proof (induction sched arbitrary: e)
  case (Cons a sched)
  then show ?case
    by (cases a) (auto simp: inc_loop.simps [of e] Let_def CRYPTO_atomic_compare_exchange_weak_u32_def)
qed simp

lemma dec_loop_ends: "undisturbed e sched \<Longrightarrow> dec_loop e sched \<noteq> Trying"
proof (induction sched arbitrary: e)
  case (Cons a sched)
  then show ?case
    by (cases a) (auto simp: dec_loop.simps [of e] Let_def CRYPTO_atomic_compare_exchange_weak_u32_def)
qed simp

text \<open>C36: Under every interference, increment and decrement return as soon as one attempt comes before
  another change, and then had the effect of one atomic step on a value the count really had: the
  increment stops at the maximum, the decrement keeps the maximum, tells whether it reached zero,
  and aborts only if the count was zero.
\<close>

theorem refcount_lock_free:
  assumes "undisturbed loaded sched"
  shows "(case CRYPTO_refcount_inc loaded sched of
      Exchanged n m _ \<Rightarrow> (n, False) \<in> set sched \<and> n \<noteq> CRYPTO_REFCOUNT_MAX \<and> m = refcount_inc n
    | Untouched n _ \<Rightarrow> n \<in> seen loaded sched \<and> n = refcount_inc n
    | Aborted \<Rightarrow> False
    | Trying \<Rightarrow> False) \<and>
    (case CRYPTO_refcount_dec_and_test_zero loaded sched of
      Exchanged n m z \<Rightarrow> (n, False) \<in> set sched \<and> refcount_dec n = Some (m, z)
    | Untouched n z \<Rightarrow> n \<in> seen loaded sched \<and> refcount_dec n = Some (n, z)
    | Aborted \<Rightarrow> 0 \<in> seen loaded sched
    | Trying \<Rightarrow> False)"
  using inc_loop_atomic [where e = loaded and sched = sched] dec_loop_atomic [where e = loaded and sched = sched]
    inc_loop_ends [OF assms] dec_loop_ends [OF assms]
  by (auto simp: CRYPTO_refcount_inc_def CRYPTO_refcount_dec_and_test_zero_def split: rc_outcome.splits)

text \<open>Another thread increments first, one exchange fails for no reason, the third succeeds.\<close>

lemma refcount_lock_free_witness:
  "(case CRYPTO_refcount_inc 1 [(2, False), (2, True), (2, False)] of
      Exchanged n m _ \<Rightarrow> n = 2 \<and> m = refcount_inc 2 | _ \<Rightarrow> False) \<and>
   (case CRYPTO_refcount_dec_and_test_zero 1 [(2, False), (2, True), (2, False)] of
      Exchanged n m z \<Rightarrow> n = 2 \<and> refcount_dec 2 = Some (m, z) | _ \<Rightarrow> False)"
  using refcount_lock_free [of 1 "[(2, False), (2, True), (2, False)]"]
  by (auto simp: seen_def refcount_inc_def refcount_dec_def CRYPTO_REFCOUNT_MAX_def split: rc_outcome.splits)

end
