(* ===== verification/Pool.thy ===== *)
theory Pool
  imports Cbs Lhash Siphash Refcount
begin

text \<open>
  crypto/pool/pool.c: reference-counted buffers, kept once for each content in a pool. The live
  buffers and pools are maps from addresses; an operation that touches an object that is not live,
  or that drops a count of zero, faults: its value is \<open>None\<close>. Addresses of new objects come from the
  allocator, so they are arguments; so is the random key of a pool. A section that holds the lock of
  a pool is one step, and between two sections other threads may do anything that their own
  references allow: the argument \<open>others\<close> of a call, and the steps of the system below. The
  assertions of the debugging build are off.
\<close>

record crypto_buffer =
  buf_pool :: ptr
  buf_data :: "u8 list option" \<comment> \<open>the bytes at \<open>data\<close>, or NULL\<close>
  buf_len :: nat
  references :: u32
  data_is_static :: bool

record crypto_buffer_pool =
  bufs :: "(unit, unit) lhash"
  hash_key :: "u64 \<times> u64"

record pool_heap =
  live_bufs :: "ptr \<Rightarrow> crypto_buffer option"
  live_pools :: "ptr \<Rightarrow> crypto_buffer_pool option"

definition sizeof_buffer :: nat where "sizeof_buffer = 32"
definition sizeof_pool :: nat where "sizeof_pool = 80"

definition buf_at :: "pool_heap \<Rightarrow> ptr \<Rightarrow> crypto_buffer" where
  "buf_at h p = the (live_bufs h p)"

definition buf_mem :: "crypto_buffer \<Rightarrow> u8 list" where
  "buf_mem b = (case buf_data b of None \<Rightarrow> [] | Some d \<Rightarrow> d)"

definition CRYPTO_BUFFER_data :: "crypto_buffer \<Rightarrow> u8 list option" where
  "CRYPTO_BUFFER_data b = buf_data b"

definition CRYPTO_BUFFER_len :: "crypto_buffer \<Rightarrow> nat" where
  "CRYPTO_BUFFER_len b = buf_len b"

definition CRYPTO_BUFFER_init_CBS :: "crypto_buffer \<Rightarrow> cbs" where
  "CRYPTO_BUFFER_init_CBS b = CBS_init (buf_mem b) (buf_len b)"

definition CRYPTO_BUFFER_hash :: "pool_heap \<Rightarrow> ptr \<Rightarrow> u32" where
  "CRYPTO_BUFFER_hash h p =
     (let b = buf_at h p
      in ucast (SIPHASH_24 (hash_key (the (live_pools h (buf_pool b)))) (take (buf_len b) (buf_mem b))))"

definition CRYPTO_BUFFER_cmp :: "pool_heap \<Rightarrow> ptr \<Rightarrow> ptr \<Rightarrow> int" where
  "CRYPTO_BUFFER_cmp h a b =
     (if buf_len (buf_at h a) \<noteq> buf_len (buf_at h b) then 1
      else OPENSSL_memcmp (buf_mem (buf_at h a)) (buf_mem (buf_at h b)) (buf_len (buf_at h a)))"

abbreviation hash_call :: "pool_heap \<Rightarrow> unit \<Rightarrow> ptr \<Rightarrow> u32" where
  "hash_call h \<equiv> (\<lambda>_. CRYPTO_BUFFER_hash h)"

abbreviation cmp_call :: "pool_heap \<Rightarrow> unit \<Rightarrow> ptr \<Rightarrow> ptr \<Rightarrow> int" where
  "cmp_call h \<equiv> (\<lambda>_. CRYPTO_BUFFER_cmp h)"

definition CRYPTO_BUFFER_POOL_new :: "heap_env \<Rightarrow> ptr \<Rightarrow> u64 \<times> u64 \<Rightarrow> pool_heap \<Rightarrow> ptr \<times> pool_heap" where
  "CRYPTO_BUFFER_POOL_new E q key h =
     (case OPENSSL_zalloc E sizeof_pool of
        None \<Rightarrow> (0, h)
      | Some _ \<Rightarrow>
          (case OPENSSL_lh_new E () () of
             None \<Rightarrow> (0, h)
           | Some lh \<Rightarrow> (q, h\<lparr>live_pools := (live_pools h)(q \<mapsto> \<lparr>bufs = lh, hash_key = key\<rparr>)\<rparr>)))"

definition CRYPTO_BUFFER_POOL_free :: "ptr \<Rightarrow> pool_heap \<Rightarrow> pool_heap option" where
  "CRYPTO_BUFFER_POOL_free q h =
     (if q = 0 then Some h
      else if live_pools h q = None then None
      else Some (h\<lparr>live_pools := (live_pools h)(q := None)\<rparr>))"

definition crypto_buffer_free_object :: "ptr \<Rightarrow> pool_heap \<Rightarrow> pool_heap" where
  "crypto_buffer_free_object p h = h\<lparr>live_bufs := (live_bufs h)(p := None)\<rparr>"

definition set_buf :: "ptr \<Rightarrow> crypto_buffer \<Rightarrow> pool_heap \<Rightarrow> pool_heap" where
  "set_buf p b h = h\<lparr>live_bufs := (live_bufs h)(p \<mapsto> b)\<rparr>"

definition set_table :: "ptr \<Rightarrow> (unit, unit) lhash \<Rightarrow> pool_heap \<Rightarrow> pool_heap" where
  "set_table q lh h = h\<lparr>live_pools := (live_pools h)(q := map_option (\<lambda>pl. pl\<lparr>bufs := lh\<rparr>) (live_pools h q))\<rparr>"

text \<open>
  \<open>CRYPTO_refcount_inc\<close> and \<open>CRYPTO_refcount_dec_and_test_zero\<close> on the count of a buffer, as the
  atomic steps that they are (theory Refcount).
\<close>

definition inc_references :: "ptr \<Rightarrow> pool_heap \<Rightarrow> pool_heap option" where
  "inc_references p h =
     (case live_bufs h p of
        None \<Rightarrow> None
      | Some b \<Rightarrow> Some (set_buf p (b\<lparr>references := refcount_inc (references b)\<rparr>) h))"

definition dec_references :: "ptr \<Rightarrow> pool_heap \<Rightarrow> (bool \<times> pool_heap) option" where
  "dec_references p h =
     (case live_bufs h p of
        None \<Rightarrow> None
      | Some b \<Rightarrow>
          (case refcount_dec (references b) of
             None \<Rightarrow> None
           | Some (n, z) \<Rightarrow> Some (z, set_buf p (b\<lparr>references := n\<rparr>) h)))"

text \<open>A table operation may read every object of the table.\<close>

definition table_live :: "pool_heap \<Rightarrow> crypto_buffer_pool \<Rightarrow> bool" where
  "table_live h pl \<longleftrightarrow> list_all (\<lambda>it. live_bufs h (item_data it) \<noteq> None) (lh_items (bufs pl))"

text \<open>The lookup of both sections: a buffer with copied data does not stand in for static data.\<close>

definition find_duplicate :: "pool_heap \<Rightarrow> crypto_buffer_pool \<Rightarrow> bool \<Rightarrow> ptr \<Rightarrow> ptr" where
  "find_duplicate h pl static_data p =
     (let duplicate = OPENSSL_lh_retrieve (hash_call h) (cmp_call h) (bufs pl) p
      in if static_data \<and> duplicate \<noteq> 0 \<and> \<not> data_is_static (buf_at h duplicate) then 0 else duplicate)"

text \<open>The section under the read lock. The buffer \<open>tmp\<close> is on the stack, at an address of its own.\<close>

definition lookup_section :: "u8 list \<Rightarrow> bool \<Rightarrow> ptr \<Rightarrow> ptr \<Rightarrow> pool_heap \<Rightarrow> (ptr \<times> pool_heap) option" where
  "lookup_section data static_data q tmp h =
     (case live_pools h q of
        None \<Rightarrow> None
      | Some pl \<Rightarrow>
          if \<not> table_live h pl then None
          else
            let b = \<lparr>buf_pool = q, buf_data = Some data, buf_len = length data, references = 0, data_is_static = False\<rparr>;
                duplicate = find_duplicate (set_buf tmp b h) pl static_data tmp
            in if duplicate = 0 then Some (0, h)
               else map_option (\<lambda>h'. (duplicate, h')) (inc_references duplicate h))"

text \<open>The new buffer, before the pool is known.\<close>

definition make_buffer :: "heap_env \<Rightarrow> u8 list \<Rightarrow> bool \<Rightarrow> ptr \<Rightarrow> crypto_buffer option" where
  "make_buffer E data static_data q =
     (case OPENSSL_zalloc E sizeof_buffer of
        None \<Rightarrow> None
      | Some _ \<Rightarrow>
          (let d = (if static_data then Some data else OPENSSL_memdup E data (length data))
           in if \<not> static_data \<and> length data \<noteq> 0 \<and> d = None then None
              else Some \<lparr>buf_pool = q, buf_data = d, buf_len = length data, references = 1, data_is_static = static_data\<rparr>))"

text \<open>The section under the write lock, for the buffer at \<open>p\<close>, and what follows it.\<close>

definition insert_section :: "heap_env \<Rightarrow> bool \<Rightarrow> ptr \<Rightarrow> pool_heap \<Rightarrow> (ptr \<times> pool_heap) option" where
  "insert_section E static_data p h =
     (case live_bufs h p of
        None \<Rightarrow> None
      | Some buf \<Rightarrow>
          (case live_pools h (buf_pool buf) of
             None \<Rightarrow> None
           | Some pl \<Rightarrow>
               if \<not> table_live h pl then None
               else
                 let duplicate = find_duplicate h pl static_data p
                 in if duplicate = 0 then
                      (case OPENSSL_lh_insert E (hash_call h) (cmp_call h) (bufs pl) p of
                         (inserted, old, lh) \<Rightarrow>
                           let h = set_table (buf_pool buf) lh h
                           in if \<not> inserted then Some (0, crypto_buffer_free_object p h) else Some (p, h))
                    else
                      map_option (\<lambda>h'. (duplicate, crypto_buffer_free_object p h')) (inc_references duplicate h)))"

definition crypto_buffer_new ::
  "heap_env \<Rightarrow> (pool_heap \<Rightarrow> pool_heap) \<Rightarrow> ptr \<Rightarrow> ptr \<Rightarrow> u8 list \<Rightarrow> bool \<Rightarrow> ptr \<Rightarrow> pool_heap \<Rightarrow> (ptr \<times> pool_heap) option" where
  "crypto_buffer_new E others tmp p data static_data q h =
     (case (if q \<noteq> 0 then lookup_section data static_data q tmp h else Some (0, h)) of
        None \<Rightarrow> None
      | Some (duplicate, h) \<Rightarrow>
          if duplicate \<noteq> 0 then Some (duplicate, h)
          else
            (case make_buffer E data static_data q of
               None \<Rightarrow> Some (0, h)
             | Some b \<Rightarrow>
                 if q = 0 then Some (p, set_buf p b h)
                 else insert_section E static_data p (others (set_buf p b h))))"

definition CRYPTO_BUFFER_new ::
  "heap_env \<Rightarrow> (pool_heap \<Rightarrow> pool_heap) \<Rightarrow> ptr \<Rightarrow> ptr \<Rightarrow> u8 list \<Rightarrow> ptr \<Rightarrow> pool_heap \<Rightarrow> (ptr \<times> pool_heap) option" where
  "CRYPTO_BUFFER_new E others tmp p data q h = crypto_buffer_new E others tmp p data False q h"

definition CRYPTO_BUFFER_new_from_static_data_unsafe ::
  "heap_env \<Rightarrow> (pool_heap \<Rightarrow> pool_heap) \<Rightarrow> ptr \<Rightarrow> ptr \<Rightarrow> u8 list \<Rightarrow> ptr \<Rightarrow> pool_heap \<Rightarrow> (ptr \<times> pool_heap) option" where
  "CRYPTO_BUFFER_new_from_static_data_unsafe E others tmp p data q h = crypto_buffer_new E others tmp p data True q h"

definition CRYPTO_BUFFER_new_from_CBS ::
  "heap_env \<Rightarrow> (pool_heap \<Rightarrow> pool_heap) \<Rightarrow> ptr \<Rightarrow> ptr \<Rightarrow> cbs \<Rightarrow> ptr \<Rightarrow> pool_heap \<Rightarrow> (ptr \<times> pool_heap) option" where
  "CRYPTO_BUFFER_new_from_CBS E others tmp p cbs q h = CRYPTO_BUFFER_new E others tmp p (take (CBS_len cbs) (CBS_data cbs)) q h"

definition CRYPTO_BUFFER_alloc :: "heap_env \<Rightarrow> nat \<Rightarrow> crypto_buffer option" where
  "CRYPTO_BUFFER_alloc E n =
     (case OPENSSL_zalloc E sizeof_buffer of
        None \<Rightarrow> None
      | Some _ \<Rightarrow>
          (let d = OPENSSL_malloc E n
           in if n \<noteq> 0 \<and> d = None then None
              else Some \<lparr>buf_pool = 0, buf_data = d, buf_len = n, references = 1, data_is_static = False\<rparr>))"

definition CRYPTO_BUFFER_free :: "heap_env \<Rightarrow> ptr \<Rightarrow> pool_heap \<Rightarrow> pool_heap option" where
  "CRYPTO_BUFFER_free E p h =
     (if p = 0 then Some h
      else
        (case live_bufs h p of
           None \<Rightarrow> None
         | Some buf \<Rightarrow>
             if buf_pool buf = 0 then
               (case dec_references p h of
                  None \<Rightarrow> None
                | Some (z, h) \<Rightarrow> Some (if z then crypto_buffer_free_object p h else h))
             else
               (case live_pools h (buf_pool buf) of
                  None \<Rightarrow> None
                | Some pl \<Rightarrow>
                    (case dec_references p h of
                       None \<Rightarrow> None
                     | Some (z, h) \<Rightarrow>
                         if \<not> z then Some h
                         else if \<not> table_live h pl then None
                         else
                           let found = OPENSSL_lh_retrieve (hash_call h) (cmp_call h) (bufs pl) p;
                               h = (if found = p
                                    then set_table (buf_pool buf)
                                           (snd (OPENSSL_lh_delete E (hash_call h) (cmp_call h) (bufs pl) p)) h
                                    else h)
                           in Some (crypto_buffer_free_object p h)))))"

definition CRYPTO_BUFFER_up_ref :: "ptr \<Rightarrow> pool_heap \<Rightarrow> pool_heap option" where
  "CRYPTO_BUFFER_up_ref p h = inc_references p h"

subsection \<open>Equal buffers\<close>

text \<open>The buffers of a pool, with as many bytes as they say.\<close>

definition pool_bufs :: "pool_heap \<Rightarrow> ptr \<Rightarrow> ptr set" where
  "pool_bufs h q = {p. p \<noteq> 0 \<and> (\<exists>b. live_bufs h p = Some b \<and> buf_pool b = q \<and> length (buf_mem b) = buf_len b)}"

lemma CRYPTO_BUFFER_cmp_zero:
  assumes "x \<in> pool_bufs h q" "y \<in> pool_bufs h q"
  shows "CRYPTO_BUFFER_cmp h x y = 0 \<longleftrightarrow> buf_mem (buf_at h x) = buf_mem (buf_at h y)"
  using assms memcmp_sgn_zero_iff [of "buf_mem (buf_at h x)" "buf_mem (buf_at h y)"]
  by (auto simp: CRYPTO_BUFFER_cmp_def pool_bufs_def buf_at_def OPENSSL_memcmp_def)

lemma CRYPTO_BUFFER_hash_eq:
  assumes "x \<in> pool_bufs h q" "y \<in> pool_bufs h q" "buf_mem (buf_at h x) = buf_mem (buf_at h y)"
  shows "CRYPTO_BUFFER_hash h x = CRYPTO_BUFFER_hash h y"
  using assms by (auto simp: CRYPTO_BUFFER_hash_def pool_bufs_def buf_at_def Let_def)

interpretation buffers: hashed_keys "CRYPTO_BUFFER_hash h" "CRYPTO_BUFFER_cmp h" "pool_bufs h q" for h q
  by unfold_locales
    (auto simp: CRYPTO_BUFFER_cmp_zero intro: CRYPTO_BUFFER_hash_eq, simp add: pool_bufs_def)

subsection \<open>The pools of a system of threads\<close>

text \<open>
  Beside the heap, a state records how many references the callers hold to each buffer, and the
  buffers that a call has made and not yet put into its pool.
\<close>

record pool_sys =
  heap :: pool_heap
  owners :: "ptr \<Rightarrow> nat"
  pending :: "ptr set"

text \<open>
  A call of \<open>crypto_buffer_new\<close> is up to three events: the first section, the making of the buffer,
  and the second section.
\<close>

datatype pool_event =
    Pool_New heap_env ptr "u64 \<times> u64"
  | Pool_Free ptr
  | New_Lookup "u8 list" bool ptr ptr
  | New_Make heap_env "u8 list" bool ptr ptr
  | New_Insert heap_env ptr
  | Buf_Alloc heap_env nat ptr
  | Up_Ref ptr
  | Buf_Free heap_env ptr

definition gain :: "ptr \<Rightarrow> (ptr \<Rightarrow> nat) \<Rightarrow> ptr \<Rightarrow> nat" where
  "gain p own = (if p = 0 then own else own(p := own p + 1))"

text \<open>The result of an event is the pointer that the caller gets, with a reference.\<close>

fun pool_exec :: "pool_event \<Rightarrow> pool_sys \<Rightarrow> (ptr \<times> pool_sys) option" where
  "pool_exec (Pool_New E q key) s =
     (case CRYPTO_BUFFER_POOL_new E q key (heap s) of (_, h) \<Rightarrow> Some (0, s\<lparr>heap := h\<rparr>))"
| "pool_exec (Pool_Free q) s = map_option (\<lambda>h. (0, s\<lparr>heap := h\<rparr>)) (CRYPTO_BUFFER_POOL_free q (heap s))"
| "pool_exec (New_Lookup data static_data q tmp) s =
     map_option (\<lambda>(p, h). (p, s\<lparr>heap := h, owners := gain p (owners s)\<rparr>)) (lookup_section data static_data q tmp (heap s))"
| "pool_exec (New_Make E data static_data q p) s =
     (case make_buffer E data static_data q of
        None \<Rightarrow> Some (0, s)
      | Some b \<Rightarrow>
          if q = 0 then Some (p, s\<lparr>heap := set_buf p b (heap s), owners := gain p (owners s)\<rparr>)
          else Some (0, s\<lparr>heap := set_buf p b (heap s), pending := insert p (pending s)\<rparr>))"
| "pool_exec (New_Insert E p) s =
     map_option (\<lambda>(r, h). (r, s\<lparr>heap := h, owners := gain r (owners s), pending := pending s - {p}\<rparr>))
       (insert_section E (data_is_static (buf_at (heap s) p)) p (heap s))"
| "pool_exec (Buf_Alloc E n p) s =
     (case CRYPTO_BUFFER_alloc E n of
        None \<Rightarrow> Some (0, s)
      | Some b \<Rightarrow> Some (p, s\<lparr>heap := set_buf p b (heap s), owners := gain p (owners s)\<rparr>))"
| "pool_exec (Up_Ref p) s =
     map_option (\<lambda>h. (p, s\<lparr>heap := h, owners := gain p (owners s)\<rparr>)) (CRYPTO_BUFFER_up_ref p (heap s))"
| "pool_exec (Buf_Free E p) s =
     map_option (\<lambda>h. (0, s\<lparr>heap := h, owners := (owners s)(p := owners s p - 1)\<rparr>)) (CRYPTO_BUFFER_free E p (heap s))"

definition fresh :: "pool_heap \<Rightarrow> ptr \<Rightarrow> bool" where
  "fresh h p \<longleftrightarrow> p \<noteq> 0 \<and> live_bufs h p = None"

text \<open>
  What a caller may do: use pools that are live and references that it holds, and free a pool when
  none of its buffers is left.
\<close>

fun pool_allowed :: "pool_event \<Rightarrow> pool_sys \<Rightarrow> bool" where
  "pool_allowed (Pool_New E q key) s = (q \<noteq> 0 \<and> live_pools (heap s) q = None)"
| "pool_allowed (Pool_Free q) s =
     (q = 0 \<or> live_pools (heap s) q \<noteq> None \<and> (\<forall>p. \<not> (\<exists>b. live_bufs (heap s) p = Some b \<and> buf_pool b = q)))"
| "pool_allowed (New_Lookup data static_data q tmp) s = (live_pools (heap s) q \<noteq> None \<and> fresh (heap s) tmp)"
| "pool_allowed (New_Make E data static_data q p) s = (fresh (heap s) p \<and> (q = 0 \<or> live_pools (heap s) q \<noteq> None))"
| "pool_allowed (New_Insert E p) s = (p \<in> pending s)"
| "pool_allowed (Buf_Alloc E n p) s = fresh (heap s) p"
| "pool_allowed (Up_Ref p) s = (0 < owners s p)"
| "pool_allowed (Buf_Free E p) s = (p = 0 \<or> 0 < owners s p)"

definition pool_start :: pool_sys where
  "pool_start = \<lparr>heap = \<lparr>live_bufs = \<lambda>_. None, live_pools = \<lambda>_. None\<rparr>, owners = \<lambda>_. 0, pending = {}\<rparr>"

inductive pool_reachable :: "pool_sys \<Rightarrow> bool" where
  start: "pool_reachable pool_start"
| event: "pool_reachable s \<Longrightarrow> pool_allowed ev s \<Longrightarrow> pool_exec ev s = Some (r, s') \<Longrightarrow> pool_reachable s'"

subsection \<open>The invariant\<close>

definition pools_ok :: "pool_heap \<Rightarrow> ptr set \<Rightarrow> bool" where
  "pools_ok h pend \<longleftrightarrow>
     (\<forall>q pl. live_pools h q = Some pl \<longrightarrow>
        q \<noteq> 0 \<and> lh_ok (hash_call h) (cmp_call h) (pool_bufs h q) (bufs pl) \<and> stored (bufs pl) \<inter> pend = {})"

text \<open>The count of a buffer is the number of references to it, or has reached the maximum.\<close>

definition buf_ok :: "pool_heap \<Rightarrow> (ptr \<Rightarrow> nat) \<Rightarrow> ptr set \<Rightarrow> ptr \<Rightarrow> crypto_buffer \<Rightarrow> bool" where
  "buf_ok h own pend p b \<longleftrightarrow>
     p \<noteq> 0 \<and> length (buf_mem b) = buf_len b \<and> (buf_pool b = 0 \<or> live_pools h (buf_pool b) \<noteq> None) \<and>
     (p \<in> pend \<longrightarrow> buf_pool b \<noteq> 0 \<and> own p = 0 \<and> references b = 1) \<and> references b \<noteq> 0 \<and>
     (references b = CRYPTO_REFCOUNT_MAX \<or> unat (references b) = own p + (if p \<in> pend then 1 else 0))"

definition bufs_ok :: "pool_heap \<Rightarrow> (ptr \<Rightarrow> nat) \<Rightarrow> ptr set \<Rightarrow> bool" where
  "bufs_ok h own pend \<longleftrightarrow>
     (\<forall>p b. live_bufs h p = Some b \<longrightarrow> buf_ok h own pend p b) \<and>
     (\<forall>p. 0 < own p \<or> p \<in> pend \<longrightarrow> live_bufs h p \<noteq> None)"

definition sys_ok :: "pool_sys \<Rightarrow> bool" where
  "sys_ok s \<longleftrightarrow> pools_ok (heap s) (pending s) \<and> bufs_ok (heap s) (owners s) (pending s)"

text \<open>Buffers that differ in their counts only.\<close>

definition same_buf :: "crypto_buffer \<Rightarrow> crypto_buffer \<Rightarrow> bool" where
  "same_buf b b' \<longleftrightarrow> buf_pool b' = buf_pool b \<and> buf_data b' = buf_data b \<and> buf_len b' = buf_len b"

lemma stored_live:
  "pools_ok h pend \<Longrightarrow> live_pools h q = Some pl \<Longrightarrow> stored (bufs pl) \<subseteq> pool_bufs h q"
  using buffers.stored_in [where call_hash = "hash_call h" and call_cmp = "cmp_call h"] by (auto simp: pools_ok_def)

lemma table_is_live: "pools_ok h pend \<Longrightarrow> live_pools h q = Some pl \<Longrightarrow> table_live h pl"
  using stored_live [of h pend q pl] by (auto simp: table_live_def list_all_iff stored_def pool_bufs_def)

text \<open>A change of the heap that keeps the stored buffers keeps the tables.\<close>

lemma pools_frame:
  assumes new: "\<And>q pl'. live_pools h' q = Some pl' \<Longrightarrow>
      \<exists>pl. live_pools h q = Some pl \<and> hash_key pl' = hash_key pl \<and> q \<noteq> 0 \<and>
        lh_ok (hash_call h) (cmp_call h) (pool_bufs h q) (bufs pl') \<and>
        (\<forall>x \<in> stored (bufs pl'). x \<notin> pend' \<and> (\<exists>b b'. live_bufs h x = Some b \<and> live_bufs h' x = Some b' \<and> same_buf b b'))"
  shows "pools_ok h' pend'"
  unfolding pools_ok_def
proof (intro allI impI conjI)
  fix q pl' assume q: "live_pools h' q = Some pl'"
  from new [OF q] obtain pl where pl: "live_pools h q = Some pl" "hash_key pl' = hash_key pl" "q \<noteq> 0"
    and ok: "lh_ok (hash_call h) (cmp_call h) (pool_bufs h q) (bufs pl')"
    and keep: "\<And>x. x \<in> stored (bufs pl') \<Longrightarrow>
      x \<notin> pend' \<and> (\<exists>b b'. live_bufs h x = Some b \<and> live_bufs h' x = Some b' \<and> same_buf b b')" by blast
  show "q \<noteq> 0" by (rule pl(3))
  show "stored (bufs pl') \<inter> pend' = {}" using keep by blast
  have sub: "stored (bufs pl') \<subseteq> pool_bufs h q" by (rule buffers.stored_in [OF ok])
  have at: "buf_pool (buf_at h x) = q \<and> buf_pool (buf_at h' x) = q \<and> buf_len (buf_at h' x) = buf_len (buf_at h x) \<and>
      buf_mem (buf_at h' x) = buf_mem (buf_at h x) \<and> x \<in> pool_bufs h' q" if x: "x \<in> stored (bufs pl')" for x
    using keep [OF x] sub x by (auto simp: same_buf_def pool_bufs_def buf_at_def buf_mem_def)
  show "lh_ok (hash_call h') (cmp_call h') (pool_bufs h' q) (bufs pl')"
  proof (rule lh_ok_cong [OF ok])
    show "CRYPTO_BUFFER_hash h' x = CRYPTO_BUFFER_hash h x" if "x \<in> stored (bufs pl')" for x
      using at [OF that] pl q by (simp add: CRYPTO_BUFFER_hash_def Let_def)
    show "CRYPTO_BUFFER_cmp h' x y = CRYPTO_BUFFER_cmp h x y" if "x \<in> stored (bufs pl')" "y \<in> stored (bufs pl')" for x y
      using at [OF that(1)] at [OF that(2)] by (simp add: CRYPTO_BUFFER_cmp_def)
    show "stored (bufs pl') \<subseteq> pool_bufs h' q" using at by blast
  qed
qed

lemma pools_ok_parts:
  assumes "pools_ok h pend" "live_pools h q = Some pl"
  shows "q \<noteq> 0" "lh_ok (hash_call h) (cmp_call h) (pool_bufs h q) (bufs pl)" "stored (bufs pl) \<inter> pend = {}"
    "\<And>x. x \<in> stored (bufs pl) \<Longrightarrow> \<exists>b. live_bufs h x = Some b \<and> buf_pool b = q"
  using assms stored_live [OF assms] by (auto simp: pools_ok_def pool_bufs_def)

lemma same_buf_refl [simp]: "same_buf b b" "same_buf b (b\<lparr>references := n\<rparr>)"
  by (simp_all add: same_buf_def)

lemma pools_ok_references:
  assumes ok: "pools_ok h pend" and p: "live_bufs h p = Some b"
  shows "pools_ok (set_buf p (b\<lparr>references := n\<rparr>) h) pend"
proof (rule pools_frame [where h = h])
  fix q pl assume "live_pools (set_buf p (b\<lparr>references := n\<rparr>) h) q = Some pl"
  then have q: "live_pools h q = Some pl" by (simp add: set_buf_def)
  from pools_ok_parts [OF ok q] q p
  show "\<exists>pl'. live_pools h q = Some pl' \<and> hash_key pl = hash_key pl' \<and> q \<noteq> 0 \<and>
      lh_ok (hash_call h) (cmp_call h) (pool_bufs h q) (bufs pl) \<and>
      (\<forall>x \<in> stored (bufs pl). x \<notin> pend \<and>
        (\<exists>b1 b2. live_bufs h x = Some b1 \<and> live_bufs (set_buf p (b\<lparr>references := n\<rparr>) h) x = Some b2 \<and> same_buf b1 b2))"
    by (fastforce simp: set_buf_def)
qed

lemma pools_ok_add:
  assumes ok: "pools_ok h pend" and p: "live_bufs h p = None" and "pend' \<subseteq> insert p pend"
  shows "pools_ok (set_buf p b h) pend'"
proof (rule pools_frame [where h = h])
  fix q pl assume "live_pools (set_buf p b h) q = Some pl"
  then have q: "live_pools h q = Some pl" by (simp add: set_buf_def)
  from pools_ok_parts [OF ok q] q p assms(3)
  show "\<exists>pl'. live_pools h q = Some pl' \<and> hash_key pl = hash_key pl' \<and> q \<noteq> 0 \<and>
      lh_ok (hash_call h) (cmp_call h) (pool_bufs h q) (bufs pl) \<and>
      (\<forall>x \<in> stored (bufs pl). x \<notin> pend' \<and>
        (\<exists>b1 b2. live_bufs h x = Some b1 \<and> live_bufs (set_buf p b h) x = Some b2 \<and> same_buf b1 b2))"
    by (fastforce simp: set_buf_def)
qed

lemma pools_ok_remove:
  assumes ok: "pools_ok h pend" and p: "\<And>q pl. live_pools h q = Some pl \<Longrightarrow> p \<notin> stored (bufs pl)" and "pend' \<subseteq> pend"
  shows "pools_ok (crypto_buffer_free_object p h) pend'"
proof (rule pools_frame [where h = h])
  fix q pl assume "live_pools (crypto_buffer_free_object p h) q = Some pl"
  then have q: "live_pools h q = Some pl" by (simp add: crypto_buffer_free_object_def)
  from pools_ok_parts [OF ok q] q p [OF q] assms(3)
  show "\<exists>pl'. live_pools h q = Some pl' \<and> hash_key pl = hash_key pl' \<and> q \<noteq> 0 \<and>
      lh_ok (hash_call h) (cmp_call h) (pool_bufs h q) (bufs pl) \<and>
      (\<forall>x \<in> stored (bufs pl). x \<notin> pend' \<and>
        (\<exists>b1 b2. live_bufs h x = Some b1 \<and> live_bufs (crypto_buffer_free_object p h) x = Some b2 \<and> same_buf b1 b2))"
    by (fastforce simp: crypto_buffer_free_object_def)
qed

lemma pools_ok_table:
  assumes ok: "pools_ok h pend" and q: "live_pools h q = Some pl"
    and lh: "lh_ok (hash_call h) (cmp_call h) (pool_bufs h q) lh" and st: "stored lh \<inter> pend' = {}" and "pend' \<subseteq> pend"
  shows "pools_ok (set_table q lh h) pend'"
proof (rule pools_frame [where h = h])
  fix q' pl' assume q': "live_pools (set_table q lh h) q' = Some pl'"
  have l: "\<And>x. x \<in> stored lh \<Longrightarrow> \<exists>b. live_bufs h x = Some b"
    using buffers.stored_in [OF lh] by (auto simp: pool_bufs_def)
  show "\<exists>pl. live_pools h q' = Some pl \<and> hash_key pl' = hash_key pl \<and> q' \<noteq> 0 \<and>
      lh_ok (hash_call h) (cmp_call h) (pool_bufs h q') (bufs pl') \<and>
      (\<forall>x \<in> stored (bufs pl'). x \<notin> pend' \<and>
        (\<exists>b b'. live_bufs h x = Some b \<and> live_bufs (set_table q lh h) x = Some b' \<and> same_buf b b'))"
  proof (cases "q' = q")
    case True
    with q' q have "pl' = pl\<lparr>bufs := lh\<rparr>" by (simp add: set_table_def)
    with True q lh st l pools_ok_parts(1) [OF ok q] show ?thesis by (fastforce simp: set_table_def)
  next
    case False
    with q' have q': "live_pools h q' = Some pl'" by (simp add: set_table_def)
    from pools_ok_parts [OF ok q'] q' assms(5) show ?thesis by (fastforce simp: set_table_def)
  qed
qed

subsection \<open>Counting references\<close>

lemma bufs_ok_at:
  assumes "bufs_ok h own pend" "live_bufs h p = Some b"
  shows "buf_ok h own pend p b"
  using assms by (simp add: bufs_ok_def)

lemma unat_succ: "(n :: u32) \<noteq> CRYPTO_REFCOUNT_MAX \<Longrightarrow> unat (n + 1) = unat n + 1 \<and> n + 1 \<noteq> 0"
proof -
  assume n: "n \<noteq> CRYPTO_REFCOUNT_MAX"
  have "unat n \<noteq> 4294967295" using n by (auto simp: CRYPTO_REFCOUNT_MAX_def word_unat_eq_iff)
  moreover have "unat n < 4294967296" using unsigned_less [of n] by simp
  ultimately have "unat n + 1 < 4294967296" by linarith
  then have "unat (n + 1) = unat n + 1" by (simp add: unat_word_ariths)
  then show ?thesis by (metis Suc_eq_plus1 nat.distinct(1) unsigned_0)
qed

lemma bufs_ok_inc:
  assumes ok: "bufs_ok h own pend" and p: "live_bufs h p = Some b" "p \<notin> pend"
  shows "bufs_ok (set_buf p (b\<lparr>references := refcount_inc (references b)\<rparr>) h) (gain p own) pend"
proof -
  note b = bufs_ok_at [OF ok p(1)]
  have "refcount_inc (references b) \<noteq> 0 \<and>
    (refcount_inc (references b) = CRYPTO_REFCOUNT_MAX \<or> unat (refcount_inc (references b)) = own p + 1)"
    using b p(2) unat_succ [of "references b"] by (auto simp: buf_ok_def refcount_inc_def)
  then show ?thesis using ok b p by (auto simp: bufs_ok_def buf_ok_def set_buf_def gain_def buf_mem_def)
qed

lemma refcount_dec_owned:
  assumes ok: "buf_ok h own pend p b" and own: "0 < own p"
  shows "\<exists>n z. refcount_dec (references b) = Some (n, z) \<and>
    (if z then own p = 1 else n \<noteq> 0 \<and> (n = CRYPTO_REFCOUNT_MAX \<or> unat n = own p - 1))"
proof (cases "references b = CRYPTO_REFCOUNT_MAX")
  case True
  then show ?thesis by (intro exI [of _ CRYPTO_REFCOUNT_MAX] exI [of _ False]) (simp add: refcount_dec_def CRYPTO_REFCOUNT_MAX_def)
next
  case False
  have r: "unat (references b) = own p" "references b \<noteq> 0" using ok own False by (auto simp: buf_ok_def)
  have "unat (references b - 1) = own p - 1" using r by (simp add: unat_minus_one)
  moreover from this have "references b - 1 = 0 \<longleftrightarrow> own p = 1" using own by (auto simp: word_unat_eq_iff)
  ultimately show ?thesis using r(2) False by (auto simp: refcount_dec_def)
qed

lemma bufs_ok_dec:
  assumes ok: "bufs_ok h own pend" and p: "live_bufs h p = Some b" "0 < own p" and n: "n \<noteq> 0"
    "n = CRYPTO_REFCOUNT_MAX \<or> unat n = own p - 1"
  shows "bufs_ok (set_buf p (b\<lparr>references := n\<rparr>) h) (own(p := own p - 1)) pend"
proof -
  have "p \<notin> pend" using bufs_ok_at [OF ok p(1)] p(2) by (auto simp: buf_ok_def)
  then show ?thesis using ok bufs_ok_at [OF ok p(1)] p n by (auto simp: bufs_ok_def buf_ok_def set_buf_def buf_mem_def)
qed

text \<open>A buffer without references goes; the pending buffer of a call goes too.\<close>

lemma bufs_ok_remove:
  assumes "bufs_ok h own pend" "own' p = 0" "\<And>x. x \<noteq> p \<Longrightarrow> own' x = own x" "pend' = pend - {p}"
  shows "bufs_ok (crypto_buffer_free_object p h) own' pend'"
  unfolding bufs_ok_def
proof (intro conjI allI impI)
  fix x b assume "live_bufs (crypto_buffer_free_object p h) x = Some b"
  then have x: "live_bufs h x = Some b" "x \<noteq> p" by (auto simp: crypto_buffer_free_object_def split: if_splits)
  show "buf_ok (crypto_buffer_free_object p h) own' pend' x b"
    using bufs_ok_at [OF assms(1) x(1)] assms(3) [OF x(2)] x(2) assms(4) by (simp add: buf_ok_def crypto_buffer_free_object_def)
next
  fix x assume "0 < own' x \<or> x \<in> pend'"
  then have "x \<noteq> p" using assms(2,4) by (cases "x = p") auto
  with \<open>0 < own' x \<or> x \<in> pend'\<close> have "0 < own x \<or> x \<in> pend" using assms(3,4) by auto
  then have "live_bufs h x \<noteq> None" using assms(1) unfolding bufs_ok_def by blast
  then show "live_bufs (crypto_buffer_free_object p h) x \<noteq> None" using \<open>x \<noteq> p\<close> by (simp add: crypto_buffer_free_object_def)
qed

lemma bufs_ok_add:
  assumes "bufs_ok h own pend" "fresh h p" "length (buf_mem b) = buf_len b" "references b = 1"
    "buf_pool b = 0 \<or> live_pools h (buf_pool b) \<noteq> None"
  shows "buf_pool b = 0 \<Longrightarrow> bufs_ok (set_buf p b h) (gain p own) pend"
    and "buf_pool b \<noteq> 0 \<Longrightarrow> bufs_ok (set_buf p b h) own (insert p pend)"
proof -
  have "own p = 0" "p \<notin> pend" "p \<noteq> 0" using assms(1,2) by (auto simp: bufs_ok_def fresh_def)
  with assms show "buf_pool b = 0 \<Longrightarrow> bufs_ok (set_buf p b h) (gain p own) pend"
    "buf_pool b \<noteq> 0 \<Longrightarrow> bufs_ok (set_buf p b h) own (insert p pend)"
    by (auto simp: bufs_ok_def buf_ok_def set_buf_def gain_def)
qed

lemma bufs_ok_table: "bufs_ok h own pend \<Longrightarrow> bufs_ok (set_table q lh h) own pend"
  by (auto simp: bufs_ok_def buf_ok_def set_table_def)

lemma inc_references_ok:
  assumes "pools_ok h pend" "bufs_ok h own pend" "live_bufs h p = Some b" "p \<notin> pend"
  shows "\<exists>h'. inc_references p h = Some h' \<and> pools_ok h' pend \<and> bufs_ok h' (gain p own) pend \<and>
    live_pools h' = live_pools h \<and> live_bufs h' = (live_bufs h)(p \<mapsto> b\<lparr>references := refcount_inc (references b)\<rparr>)"
  using assms pools_ok_references [OF assms(1,3)] bufs_ok_inc [OF assms(2-4)]
  by (auto simp: inc_references_def set_buf_def)

subsection \<open>The sections\<close>

lemma find_duplicate_props:
  assumes lh: "lh_ok (hash_call h) (cmp_call h) (pool_bufs h q) (bufs pl)" and p: "p \<in> pool_bufs h q"
    and d: "find_duplicate h pl static_data p = d" "d \<noteq> 0"
  shows "d \<in> stored (bufs pl) \<and> buf_mem (buf_at h d) = buf_mem (buf_at h p) \<and> (static_data \<longrightarrow> data_is_static (buf_at h d))"
proof -
  have e: "d = OPENSSL_lh_retrieve (hash_call h) (cmp_call h) (bufs pl) p" "static_data \<longrightarrow> data_is_static (buf_at h d)"
    using d by (auto simp: find_duplicate_def Let_def split: if_splits)
  have s: "d \<in> stored (bufs pl) \<and> CRYPTO_BUFFER_cmp h d p = 0"
    using buffers.retrieve [OF lh _ _ p] e(1) d(2) by blast
  moreover have "d \<in> pool_bufs h q" using s buffers.stored_in [OF lh] by blast
  ultimately show ?thesis using CRYPTO_BUFFER_cmp_zero [OF _ p] e(2) by blast
qed

lemma lookup_section_ok:
  assumes ok: "pools_ok h pend" "bufs_ok h own pend" and q: "live_pools h q = Some pl" and t: "fresh h tmp"
  shows "\<exists>r h'. lookup_section data static_data q tmp h = Some (r, h') \<and> pools_ok h' pend \<and> bufs_ok h' (gain r own) pend \<and>
    (r \<noteq> 0 \<longrightarrow> (\<exists>b. live_bufs h' r = Some b \<and> buf_pool b = q \<and> buf_mem b = data \<and> (static_data \<longrightarrow> data_is_static b)))"
proof -
  let ?b = "\<lparr>buf_pool = q, buf_data = Some data, buf_len = length data, references = 0, data_is_static = False\<rparr>"
  let ?h = "set_buf tmp ?b h"
  define d where "d = find_duplicate ?h pl static_data tmp"
  have t': "live_bufs h tmp = None" "tmp \<noteq> 0" using t by (simp_all add: fresh_def)
  have l: "lookup_section data static_data q tmp h =
    (if d = 0 then Some (0, h) else map_option (\<lambda>h'. (d, h')) (inc_references d h))"
    using q table_is_live [OF ok(1) q] by (simp add: lookup_section_def d_def Let_def)
  show ?thesis
  proof (cases "d = 0")
    case True
    then show ?thesis using l ok by (simp add: gain_def)
  next
    case False
    have ok1: "pools_ok ?h pend" by (rule pools_ok_add [OF ok(1) t'(1)]) blast
    have q1: "live_pools ?h q = Some pl" using q by (simp add: set_buf_def)
    have tb: "tmp \<in> pool_bufs ?h q" using t' by (simp add: pool_bufs_def set_buf_def buf_mem_def)
    from find_duplicate_props [OF pools_ok_parts(2) [OF ok1 q1] tb d_def [symmetric] False]
    have dd: "d \<in> stored (bufs pl)" "buf_mem (buf_at ?h d) = data" "static_data \<longrightarrow> data_is_static (buf_at ?h d)"
      by (simp_all add: buf_at_def set_buf_def buf_mem_def)
    obtain b where b: "live_bufs h d = Some b" "buf_pool b = q" using pools_ok_parts(4) [OF ok(1) q dd(1)] by blast
    have "d \<noteq> tmp" using b t' by auto
    with dd b have "buf_mem b = data" "static_data \<longrightarrow> data_is_static b" by (simp_all add: buf_at_def set_buf_def)
    moreover have "d \<notin> pend" using pools_ok_parts(3) [OF ok(1) q] dd(1) by blast
    ultimately show ?thesis using inc_references_ok [OF ok b(1)] l False b by (auto simp: buf_mem_def)
  qed
qed

lemma bufs_ok_settle:
  assumes "bufs_ok h own pend" "p \<in> pend"
  shows "bufs_ok h (gain p own) (pend - {p})"
proof -
  obtain b where "live_bufs h p = Some b" using assms by (auto simp: bufs_ok_def)
  with assms have p: "own p = 0" "p \<noteq> 0" by (auto simp: bufs_ok_def buf_ok_def)
  have "buf_ok h (gain p own) (pend - {p}) x c" if "buf_ok h own pend x c" for x c
    using that assms(2) p by (cases "x = p") (auto simp: buf_ok_def gain_def)
  then show ?thesis using assms p by (auto simp: bufs_ok_def gain_def)
qed

lemma pending_not_stored: "pools_ok h pend \<Longrightarrow> p \<in> pend \<Longrightarrow> live_pools h q = Some pl \<Longrightarrow> p \<notin> stored (bufs pl)"
  using pools_ok_parts(3) by blast

lemma insert_section_ok:
  assumes ok: "pools_ok h pend" "bufs_ok h own pend" and p: "p \<in> pend" and b: "live_bufs h p = Some b"
  shows "\<exists>r h'. insert_section E (data_is_static b) p h = Some (r, h') \<and> pools_ok h' (pend - {p}) \<and>
    bufs_ok h' (gain r own) (pend - {p}) \<and>
    (r \<noteq> 0 \<longrightarrow> (\<exists>b'. live_bufs h' r = Some b' \<and> buf_pool b' = buf_pool b \<and> buf_mem b' = buf_mem b \<and>
       (data_is_static b \<longrightarrow> data_is_static b')))"
proof -
  let ?q = "buf_pool b"
  have bp: "p \<noteq> 0" "length (buf_mem b) = buf_len b" "?q \<noteq> 0" "live_pools h ?q \<noteq> None" "own p = 0"
    using bufs_ok_at [OF ok(2) b] p by (auto simp: buf_ok_def)
  then obtain pl where q: "live_pools h ?q = Some pl" by blast
  note lh = pools_ok_parts(2) [OF ok(1) q]
  have pb: "p \<in> pool_bufs h ?q" using b bp by (simp add: pool_bufs_def)
  define d where "d = find_duplicate h pl (data_is_static b) p"
  have not_stored: "p \<notin> stored (bufs pl)" by (rule pending_not_stored [OF ok(1) p q])
  note live = table_is_live [OF ok(1) q]
  show ?thesis
  proof (cases "d = 0")
    case True
    obtain r old l where i: "OPENSSL_lh_insert E (hash_call h) (cmp_call h) (bufs pl) p = (r, old, l)" using prod_cases3 by blast
    from buffers.insert_spec [OF lh _ _ pb i]
    have l: "lh_ok (hash_call h) (cmp_call h) (pool_bufs h ?q) l"
      "if r then stored l = insert p (stored (bufs pl) - {old}) else l = bufs pl" by (auto split: if_splits)
    have e: "insert_section E (data_is_static b) p h =
      Some (if r then (p, set_table ?q l h) else (0, crypto_buffer_free_object p (set_table ?q l h)))"
      using b q live i True by (simp add: insert_section_def d_def)
    show ?thesis
    proof (cases r)
      case True
      have "stored l \<inter> (pend - {p}) = {}" using l(2) True pools_ok_parts(3) [OF ok(1) q] by auto
      then have "pools_ok (set_table ?q l h) (pend - {p})" by (intro pools_ok_table [OF ok(1) q l(1)]) auto
      moreover have "live_bufs (set_table ?q l h) p = Some b" using b by (simp add: set_table_def)
      ultimately show ?thesis using e True bufs_ok_table [OF bufs_ok_settle [OF ok(2) p]] by auto
    next
      case False
      then have l': "l = bufs pl" using l(2) by simp
      have t: "pools_ok (set_table ?q l h) pend"
        using pools_ok_parts(3) [OF ok(1) q] by (intro pools_ok_table [OF ok(1) q l(1)]) (auto simp: l')
      have "pools_ok (crypto_buffer_free_object p (set_table ?q l h)) (pend - {p})"
        by (rule pools_ok_remove [OF t pending_not_stored [OF t p]]) auto
      moreover have "bufs_ok (crypto_buffer_free_object p (set_table ?q l h)) own (pend - {p})"
        by (rule bufs_ok_remove [OF bufs_ok_table [OF ok(2)], where own' = own]) (use bp(5) in auto)
      ultimately show ?thesis using e False by (simp add: gain_def)
    qed
  next
    case False
    from find_duplicate_props [OF lh pb d_def [symmetric] False]
    have dd: "d \<in> stored (bufs pl)" "buf_mem (buf_at h d) = buf_mem b" "data_is_static b \<longrightarrow> data_is_static (buf_at h d)"
      using b by (simp_all add: buf_at_def)
    then obtain b' where b': "live_bufs h d = Some b'" "buf_pool b' = ?q" using pools_ok_parts(4) [OF ok(1) q] by blast
    have d: "d \<noteq> p" "d \<notin> pend" using dd(1) not_stored pools_ok_parts(3) [OF ok(1) q] by blast+
    from inc_references_ok [OF ok b'(1) d(2)] obtain h1 where h1: "inc_references d h = Some h1" "pools_ok h1 pend"
      "bufs_ok h1 (gain d own) pend" "live_pools h1 = live_pools h"
      "live_bufs h1 = (live_bufs h)(d \<mapsto> b'\<lparr>references := refcount_inc (references b')\<rparr>)" by blast
    have "pools_ok (crypto_buffer_free_object p h1) (pend - {p})"
      by (rule pools_ok_remove [OF h1(2) pending_not_stored [OF h1(2) p]]) auto
    moreover have "bufs_ok (crypto_buffer_free_object p h1) (gain d own) (pend - {p})"
      by (rule bufs_ok_remove [OF h1(3)]) (use bp(5) d(1) in \<open>auto simp: gain_def\<close>)
    moreover have "insert_section E (data_is_static b) p h = Some (d, crypto_buffer_free_object p h1)"
      using b q live False h1(1) by (simp add: insert_section_def Let_def flip: d_def)
    moreover have "live_bufs (crypto_buffer_free_object p h1) d = Some (b'\<lparr>references := refcount_inc (references b')\<rparr>)"
      using h1(5) d(1) by (simp add: crypto_buffer_free_object_def)
    moreover have "buf_mem b' = buf_mem b" "data_is_static b \<longrightarrow> data_is_static b'" using dd b' by (simp_all add: buf_at_def)
    ultimately show ?thesis using b'(2) by (auto simp: buf_mem_def)
  qed
qed

lemma buf_at_same:
  assumes "live_bufs h p = Some b"
  shows "pool_bufs (set_buf p (b\<lparr>references := n\<rparr>) h) q = pool_bufs h q"
  using assms by (auto simp: pool_bufs_def set_buf_def buf_mem_def)

lemma free_ok:
  assumes ok: "pools_ok h pend" "bufs_ok h own pend" and p: "0 < own p"
  shows "\<exists>h'. CRYPTO_BUFFER_free E p h = Some h' \<and> pools_ok h' pend \<and> bufs_ok h' (own(p := own p - 1)) pend"
proof -
  obtain b where b: "live_bufs h p = Some b" using ok(2) p unfolding bufs_ok_def by blast
  note bk = bufs_ok_at [OF ok(2) b]
  have p0: "p \<noteq> 0" "p \<notin> pend" "length (buf_mem b) = buf_len b" using bk p by (auto simp: buf_ok_def)
  from refcount_dec_owned [OF bk p] obtain n z where n: "refcount_dec (references b) = Some (n, z)"
    "if z then own p = 1 else n \<noteq> 0 \<and> (n = CRYPTO_REFCOUNT_MAX \<or> unat n = own p - 1)" by blast
  let ?h = "set_buf p (b\<lparr>references := n\<rparr>) h"
  have dec: "dec_references p h = Some (z, ?h)" using b n by (simp add: dec_references_def)
  have ok1: "pools_ok ?h pend" by (rule pools_ok_references [OF ok(1) b])
  let ?own = "own(p := own p - 1)"
  have gone: "bufs_ok (crypto_buffer_free_object p h2) ?own pend"
    if z and "\<And>x. x \<noteq> p \<Longrightarrow> live_bufs h2 x = live_bufs h x" "\<And>q. live_pools h2 q = None \<longleftrightarrow> live_pools h q = None" for h2
    using ok(2) that n(2) p0(2) by (auto simp: bufs_ok_def buf_ok_def crypto_buffer_free_object_def split: if_splits)
  have kept: "bufs_ok ?h ?own pend" if "\<not> z" using bufs_ok_dec [OF ok(2) b p] n(2) that by simp
  show ?thesis
  proof (cases "buf_pool b = 0")
    case True
    have "p \<notin> stored (bufs pl)" if "live_pools ?h q = Some pl" for q pl
    proof
      have q: "live_pools h q = Some pl" using that by (simp add: set_buf_def)
      assume "p \<in> stored (bufs pl)"
      then show False using pools_ok_parts(4) [OF ok(1) q, of p] pools_ok_parts(1) [OF ok(1) q] True b by auto
    qed
    then have "pools_ok (crypto_buffer_free_object p ?h) pend" by (intro pools_ok_remove [OF ok1]) auto
    moreover have "z \<Longrightarrow> bufs_ok (crypto_buffer_free_object p ?h) ?own pend" by (rule gone) (auto simp: set_buf_def)
    ultimately show ?thesis using b True dec ok1 kept p0(1) by (auto simp: CRYPTO_BUFFER_free_def)
  next
    case False
    then obtain pl where q: "live_pools h (buf_pool b) = Some pl" using bk by (auto simp: buf_ok_def)
    then have q1: "live_pools ?h (buf_pool b) = Some pl" by (simp add: set_buf_def)
    note lh = pools_ok_parts(2) [OF ok1 q1]
    have pb: "p \<in> pool_bufs ?h (buf_pool b)" using p0 by (simp add: pool_bufs_def set_buf_def buf_mem_def)
    let ?found = "OPENSSL_lh_retrieve (hash_call ?h) (cmp_call ?h) (bufs pl) p"
    obtain old l where d: "OPENSSL_lh_delete E (hash_call ?h) (cmp_call ?h) (bufs pl) p = (old, l)" using prod.exhaust by blast
    let ?h2 = "if ?found = p then set_table (buf_pool b) l ?h else ?h"
    note ds = buffers.delete_spec [OF lh _ _ pb d]
    have other: "p \<notin> stored (bufs pl')" if "live_pools h q' = Some pl'" "q' \<noteq> buf_pool b" for q' pl'
      using pools_ok_parts(4) [OF ok(1) that(1), of p] that(2) b by auto
    have found: "?found = p" if "p \<in> stored (bufs pl)"
      using buffers.retrieve_eq [OF lh _ _ pb that] CRYPTO_BUFFER_cmp_zero [OF pb pb] by simp
    have st: "stored l = stored (bufs pl) - {?found}" using ds by simp
    have out: "p \<notin> stored (bufs pl')" if q': "live_pools ?h2 q' = Some pl'" for q' pl'
    proof (cases "q' = buf_pool b")
      case True
      show ?thesis
      proof (cases "?found = p")
        case f: True
        then have "bufs pl' = l" using q' True q1 by (auto simp: set_table_def)
        then show ?thesis using st f by simp
      next
        case False
        then have "pl' = pl" using q' True q1 by simp
        then show ?thesis using False found by blast
      qed
    next
      case False
      then have "live_pools h q' = Some pl'" using q' by (cases "?found = p") (simp_all add: set_table_def set_buf_def)
      then show ?thesis using False by (rule other)
    qed
    have "stored l \<inter> pend = {}" using ds pools_ok_parts(3) [OF ok1 q1] by auto
    then have "pools_ok ?h2 pend" using ok1 pools_ok_table [OF ok1 q1, of l pend] ds by simp
    then have "pools_ok (crypto_buffer_free_object p ?h2) pend" by (rule pools_ok_remove [OF _ out]) auto
    moreover have "z \<Longrightarrow> bufs_ok (crypto_buffer_free_object p ?h2) ?own pend"
      by (rule gone) (auto simp: set_buf_def set_table_def)
    moreover have "CRYPTO_BUFFER_free E p h = Some (if z then crypto_buffer_free_object p ?h2 else ?h)"
      using b False q dec p0(1) d table_is_live [OF ok1 q1] by (simp add: CRYPTO_BUFFER_free_def Let_def)
    ultimately show ?thesis using kept ok1 by (cases z) auto
  qed
qed

subsection \<open>Every event\<close>

text \<open>What the caller gets: a live buffer of the right pool with the bytes asked for, or NULL.\<close>

fun pool_result :: "pool_event \<Rightarrow> pool_sys \<Rightarrow> ptr \<Rightarrow> pool_sys \<Rightarrow> bool" where
  "pool_result (New_Lookup data static_data q tmp) s r s' =
     (r = 0 \<or> (case live_bufs (heap s') r of None \<Rightarrow> False
                | Some b \<Rightarrow> buf_pool b = q \<and> buf_mem b = data \<and> (static_data \<longrightarrow> data_is_static b)))"
| "pool_result (New_Make E data static_data q p) s r s' =
     (case live_bufs (heap s') p of
        None \<Rightarrow> r = 0 \<and> s' = s
      | Some b \<Rightarrow> (r = p) = (q = 0) \<and> buf_pool b = q \<and> buf_mem b = data \<and> data_is_static b = static_data)"
| "pool_result (New_Insert E p) s r s' =
     (r = 0 \<or> (case live_bufs (heap s') r of None \<Rightarrow> False
                | Some b \<Rightarrow> buf_pool b = buf_pool (buf_at (heap s) p) \<and> buf_mem b = buf_mem (buf_at (heap s) p) \<and>
                    (data_is_static (buf_at (heap s) p) \<longrightarrow> data_is_static b)))"
| "pool_result (Buf_Alloc E n p) s r s' =
     (r = 0 \<or> r = p \<and> (case live_bufs (heap s') p of None \<Rightarrow> False | Some b \<Rightarrow> length (buf_mem b) = n))"
| "pool_result (Up_Ref p) s r s' = (r = p)"
| "pool_result _ s r s' = (r = 0)"

lemma make_buffer_props:
  "make_buffer E data static_data q = Some b \<Longrightarrow>
   buf_pool b = q \<and> buf_mem b = data \<and> buf_len b = length data \<and> references b = 1 \<and> data_is_static b = static_data"
  using OPENSSL_memdup_Some [of E data "length data"]
  by (auto simp: make_buffer_def buf_mem_def Let_def split: option.splits if_splits)

lemma alloc_props:
  "CRYPTO_BUFFER_alloc E n = Some b \<Longrightarrow> buf_pool b = 0 \<and> length (buf_mem b) = n \<and> buf_len b = n \<and> references b = 1"
  using OPENSSL_malloc_length [of E n]
  by (auto simp: CRYPTO_BUFFER_alloc_def buf_mem_def Let_def split: option.splits if_splits)

definition event_ok :: "pool_event \<Rightarrow> pool_sys \<Rightarrow> bool" where
  "event_ok ev s \<longleftrightarrow>
     (case pool_exec ev s of None \<Rightarrow> False | Some (r, s') \<Rightarrow> sys_ok s' \<and> pool_result ev s r s')"

lemma pool_new_ok:
  assumes ok: "sys_ok s" and q: "q \<noteq> 0" "live_pools (heap s) q = None"
  shows "event_ok (Pool_New E q key) s"
proof (cases "CRYPTO_BUFFER_POOL_new E q key (heap s) = (0, heap s)")
  case True
  then show ?thesis using ok by (simp add: event_ok_def)
next
  case False
  then obtain lh where lh: "OPENSSL_lh_new E () () = Some lh"
    and e: "CRYPTO_BUFFER_POOL_new E q key (heap s) =
      (q, heap s\<lparr>live_pools := (live_pools (heap s))(q \<mapsto> \<lparr>bufs = lh, hash_key = key\<rparr>)\<rparr>)"
    by (auto simp: CRYPTO_BUFFER_POOL_new_def split: option.splits)
  let ?h = "heap s\<lparr>live_pools := (live_pools (heap s))(q \<mapsto> \<lparr>bufs = lh, hash_key = key\<rparr>)\<rparr>"
  have b: "bufs_ok ?h (owners s) (pending s)" using ok by (auto simp: sys_ok_def bufs_ok_def buf_ok_def)
  have "pools_ok ?h (pending s)"
    unfolding pools_ok_def
  proof (intro allI impI)
    fix q' pl assume q': "live_pools ?h q' = Some pl"
    show "q' \<noteq> 0 \<and> lh_ok (hash_call ?h) (cmp_call ?h) (pool_bufs ?h q') (bufs pl) \<and> stored (bufs pl) \<inter> pending s = {}"
    proof (cases "q' = q")
      case True
      then have "bufs pl = lh" using q' by auto
      then show ?thesis using True q(1) lh_new_props [OF lh] by simp
    next
      case False
      then have q'': "live_pools (heap s) q' = Some pl" using q' by simp
      have ps: "pools_ok (heap s) (pending s)" using ok by (simp add: sys_ok_def)
      note p = pools_ok_parts [OF ps q'']
      have at: "buf_pool (buf_at (heap s) x) = q'" if "x \<in> stored (bufs pl)" for x
        using p(4) [OF that] by (auto simp: buf_at_def)
      have "lh_ok (hash_call ?h) (cmp_call ?h) (pool_bufs ?h q') (bufs pl)"
      proof (rule lh_ok_cong [OF p(2)])
        show "CRYPTO_BUFFER_hash ?h x = CRYPTO_BUFFER_hash (heap s) x" if "x \<in> stored (bufs pl)" for x
          using at [OF that] False by (simp add: CRYPTO_BUFFER_hash_def Let_def buf_at_def)
        show "CRYPTO_BUFFER_cmp ?h x y = CRYPTO_BUFFER_cmp (heap s) x y" for x y
          by (simp add: CRYPTO_BUFFER_cmp_def buf_at_def)
        show "stored (bufs pl) \<subseteq> pool_bufs ?h q'" using stored_live [OF ps q''] by (simp add: pool_bufs_def)
      qed
      then show ?thesis using p(1,3) by blast
    qed
  qed
  with b e show ?thesis by (simp add: event_ok_def sys_ok_def)
qed

lemma pool_free_ok:
  assumes ok: "sys_ok s" and q: "pool_allowed (Pool_Free q) s"
  shows "event_ok (Pool_Free q) s"
proof (cases "q = 0")
  case True
  then show ?thesis using ok by (simp add: event_ok_def CRYPTO_BUFFER_POOL_free_def)
next
  case False
  let ?h = "heap s\<lparr>live_pools := (live_pools (heap s))(q := None)\<rparr>"
  have e: "CRYPTO_BUFFER_POOL_free q (heap s) = Some ?h" using q False by (auto simp: CRYPTO_BUFFER_POOL_free_def)
  have ps: "pools_ok (heap s) (pending s)" using ok by (simp add: sys_ok_def)
  have "pools_ok ?h (pending s)"
  proof (rule pools_frame [where h = "heap s"])
    fix q' pl assume "live_pools ?h q' = Some pl"
    then have q': "live_pools (heap s) q' = Some pl" by (simp split: if_splits)
    from pools_ok_parts [OF ps q'] q'
    show "\<exists>pl'. live_pools (heap s) q' = Some pl' \<and> hash_key pl = hash_key pl' \<and> q' \<noteq> 0 \<and>
        lh_ok (hash_call (heap s)) (cmp_call (heap s)) (pool_bufs (heap s) q') (bufs pl) \<and>
        (\<forall>x \<in> stored (bufs pl). x \<notin> pending s \<and>
          (\<exists>b b'. live_bufs (heap s) x = Some b \<and> live_bufs ?h x = Some b' \<and> same_buf b b'))"
      by fastforce
  qed
  moreover have "bufs_ok ?h (owners s) (pending s)"
    using ok q False unfolding sys_ok_def bufs_ok_def buf_ok_def by auto
  ultimately show ?thesis using e by (simp add: event_ok_def sys_ok_def)
qed

lemma pool_make_ok:
  assumes ok: "sys_ok s" and a: "fresh (heap s) p" "q = 0 \<or> live_pools (heap s) q \<noteq> None"
  shows "event_ok (New_Make E data static_data q p) s"
proof (cases "make_buffer E data static_data q")
  case None
  then show ?thesis using ok a by (simp add: event_ok_def fresh_def)
next
  case (Some b)
  note m = make_buffer_props [OF Some]
  have f: "live_bufs (heap s) p = None" "p \<noteq> 0" using a(1) by (simp_all add: fresh_def)
  have ps: "pools_ok (heap s) (pending s)" and bs: "bufs_ok (heap s) (owners s) (pending s)"
    using ok by (simp_all add: sys_ok_def)
  have l: "length (buf_mem b) = buf_len b" "references b = 1" "buf_pool b = 0 \<or> live_pools (heap s) (buf_pool b) \<noteq> None"
    using m a(2) by simp_all
  note add = bufs_ok_add [OF bs a(1) l(1,2,3)]
  have "pools_ok (set_buf p b (heap s)) (pending s)" "pools_ok (set_buf p b (heap s)) (insert p (pending s))"
    by (rule pools_ok_add [OF ps f(1)], blast)+
  with add m Some f show ?thesis by (auto simp: event_ok_def sys_ok_def set_buf_def)
qed

lemma event_ok_allowed:
  assumes ok: "sys_ok s" and a: "pool_allowed ev s"
  shows "event_ok ev s"
proof -
  have ps: "pools_ok (heap s) (pending s)" and bs: "bufs_ok (heap s) (owners s) (pending s)"
    using ok by (simp_all add: sys_ok_def)
  show ?thesis
  proof (cases ev)
    case (Pool_New E q key)
    then show ?thesis using pool_new_ok [OF ok] a by simp
  next
    case (Pool_Free q)
    then show ?thesis using pool_free_ok [OF ok] a by simp
  next
    case (New_Lookup data static_data q tmp)
    then obtain pl where "live_pools (heap s) q = Some pl" "fresh (heap s) tmp" using a by auto
    from lookup_section_ok [OF ps bs this, of data static_data] New_Lookup show ?thesis
      by (fastforce simp: event_ok_def sys_ok_def)
  next
    case (New_Make E data static_data q p)
    then show ?thesis using pool_make_ok [OF ok] a by simp
  next
    case (New_Insert E p)
    then have p: "p \<in> pending s" using a by simp
    then obtain b where b: "live_bufs (heap s) p = Some b" using bs unfolding bufs_ok_def by blast
    from insert_section_ok [OF ps bs p b, of E] New_Insert b show ?thesis
      by (fastforce simp: event_ok_def sys_ok_def buf_at_def)
  next
    case (Buf_Alloc E n p)
    then have f: "fresh (heap s) p" using a by simp
    show ?thesis
    proof (cases "CRYPTO_BUFFER_alloc E n")
      case None
      then show ?thesis using ok Buf_Alloc by (simp add: event_ok_def)
    next
      case (Some b)
      note m = alloc_props [OF Some]
      have "pools_ok (set_buf p b (heap s)) (pending s)"
        using f by (intro pools_ok_add [OF ps]) (auto simp: fresh_def)
      moreover have "bufs_ok (set_buf p b (heap s)) (gain p (owners s)) (pending s)"
        using bufs_ok_add(1) [OF bs f] m by simp
      ultimately show ?thesis using Some m Buf_Alloc by (simp add: event_ok_def sys_ok_def set_buf_def)
    qed
  next
    case (Up_Ref p)
    then have p: "0 < owners s p" using a by simp
    then obtain b where b: "live_bufs (heap s) p = Some b" using bs unfolding bufs_ok_def by blast
    have "p \<notin> pending s" using bufs_ok_at [OF bs b] p by (auto simp: buf_ok_def)
    from inc_references_ok [OF ps bs b this] Up_Ref show ?thesis
      by (auto simp: event_ok_def sys_ok_def CRYPTO_BUFFER_up_ref_def)
  next
    case (Buf_Free E p)
    show ?thesis
    proof (cases "p = 0")
      case True
      have "live_bufs (heap s) 0 = None" using bufs_ok_at [OF bs, of 0] by (cases "live_bufs (heap s) 0") (auto simp: buf_ok_def)
      moreover have "0 < owners s 0 \<longrightarrow> live_bufs (heap s) 0 \<noteq> None" using bs by (simp add: bufs_ok_def)
      ultimately have "owners s 0 = 0" by simp
      then show ?thesis using ok True Buf_Free by (simp add: event_ok_def CRYPTO_BUFFER_free_def sys_ok_def fun_upd_idem)
    next
      case False
      then have "0 < owners s p" using a Buf_Free by simp
      from free_ok [OF ps bs this, of E] Buf_Free show ?thesis by (auto simp: event_ok_def sys_ok_def)
    qed
  qed
qed

lemma reachable_ok: "pool_reachable s \<Longrightarrow> sys_ok s"
proof (induction rule: pool_reachable.induct)
  case start
  then show ?case by (simp add: pool_start_def sys_ok_def pools_ok_def bufs_ok_def)
next
  case (event s ev r s')
  then show ?case using event_ok_allowed [of s ev] by (simp add: event_ok_def)
qed

text \<open>Equal bytes are kept once: two buffers of a pool's table with the same bytes are one buffer.\<close>

lemma stored_once:
  assumes "sys_ok s" "live_pools (heap s) q = Some pl" "x \<in> stored (bufs pl)" "y \<in> stored (bufs pl)"
    and "buf_mem (buf_at (heap s) x) = buf_mem (buf_at (heap s) y)"
  shows "x = y"
proof -
  have ps: "pools_ok (heap s) (pending s)" using assms(1) by (simp add: sys_ok_def)
  have i: "x \<in> pool_bufs (heap s) q" "y \<in> pool_bufs (heap s) q" using stored_live [OF ps assms(2)] assms(3,4) by blast+
  then have "CRYPTO_BUFFER_cmp (heap s) x y = 0" using CRYPTO_BUFFER_cmp_zero assms(5) by blast
  then show ?thesis using pools_ok_parts(2) [OF ps assms(2)] assms(3,4) by (auto simp: lh_ok_def data_ok_def stored_data)
qed

text \<open>C11: However the calls of many threads interleave, no call touches a freed buffer or pool, drops a
  count of zero, or leaves a freed buffer in a table, as long as callers only use references that they
  hold and free a pool when none of its buffers is left. A buffer that somebody holds is live, its
  count is the number of references or stays at the maximum, and crypto_buffer_new gives a live buffer
  of the pool with the bytes asked for, static when static data was given, or NULL.
\<close>

theorem pool_memory_safe:
  assumes "pool_reachable s" and "pool_allowed ev s"
  shows "case pool_exec ev s of None \<Rightarrow> False | Some (r, s') \<Rightarrow> sys_ok s' \<and> pool_result ev s r s'"
  using event_ok_allowed [OF reachable_ok [OF assms(1)] assms(2)] by (simp add: event_ok_def)

text \<open>A buffer is made for a pool that was made before.\<close>

lemma pool_memory_safe_witness:
  "case pool_exec (New_Make calm_heap [1, 2, 3] True 8 16) (snd (the (pool_exec (Pool_New calm_heap 8 (1, 2)) pool_start))) of
     None \<Rightarrow> False
   | Some (r, s') \<Rightarrow> sys_ok s' \<and> r = 0 \<and> 16 \<in> pending s'"
proof -
  let ?s = "snd (the (pool_exec (Pool_New calm_heap 8 (1, 2)) pool_start))"
  have new: "pool_exec (Pool_New calm_heap 8 (1, 2)) pool_start = Some (0, ?s)"
    by (simp split: prod.split)
  have "pool_allowed (Pool_New calm_heap 8 (1, 2)) pool_start" by (simp add: pool_start_def)
  with new have r: "pool_reachable ?s" by (meson pool_reachable.intros)
  have p: "live_pools (heap ?s) 8 \<noteq> None" "live_bufs (heap ?s) = (\<lambda>_. None)"
    by (simp_all add: CRYPTO_BUFFER_POOL_new_def OPENSSL_lh_new_def OPENSSL_calloc_def OPENSSL_zalloc_def OPENSSL_malloc_def
        calm_heap_def OPENSSL_MALLOC_PREFIX_def size_wrap_def kMinNumBuckets_def sizeof_item_ptr_def sizeof_lhash_def
        sizeof_pool_def pool_start_def)
  then have a: "pool_allowed (New_Make calm_heap [1, 2, 3] True 8 16) ?s" by (simp add: fresh_def)
  have m: "make_buffer calm_heap [1, 2, 3] True 8 \<noteq> None"
    by (simp add: make_buffer_def OPENSSL_zalloc_def OPENSSL_malloc_def calm_heap_def OPENSSL_MALLOC_PREFIX_def size_wrap_def
        sizeof_buffer_def)
  show ?thesis using pool_memory_safe [OF r a] m by auto
qed

end
