(* ===== verification/Ldb_Coding.thy ===== *)
theory Ldb_Coding
  imports Varint_Bytes
begin

text \<open>
  util/coding.h and util/coding.cc of leveldb: fixed-width numbers, varints and length-prefixed
  slices. A \<open>Slice\<close> is the list of its bytes; a \<open>Put...\<close> function returns the string it appended to, a
  \<open>Get...\<close> function is a call that consumes the front of its input. Of the pointer forms the
  pointers \<open>p\<close> and \<open>limit\<close> are the list between them.
\<close>

definition EncodeFixed32 :: "u32 \<Rightarrow> u8 list" where
  "EncodeFixed32 v = [ucast v, ucast (drop_bit 8 v), ucast (drop_bit 16 v), ucast (drop_bit 24 v)]"

definition EncodeFixed64 :: "u64 \<Rightarrow> u8 list" where
  "EncodeFixed64 v =
     [ucast v, ucast (drop_bit 8 v), ucast (drop_bit 16 v), ucast (drop_bit 24 v),
      ucast (drop_bit 32 v), ucast (drop_bit 40 v), ucast (drop_bit 48 v), ucast (drop_bit 56 v)]"

definition DecodeFixed32 :: "u8 list \<Rightarrow> u32" where
  "DecodeFixed32 p =
     ucast (p ! 0) OR push_bit 8 (ucast (p ! 1)) OR push_bit 16 (ucast (p ! 2)) OR push_bit 24 (ucast (p ! 3))"

definition DecodeFixed64 :: "u8 list \<Rightarrow> u64" where
  "DecodeFixed64 p =
     ucast (p ! 0) OR push_bit 8 (ucast (p ! 1)) OR push_bit 16 (ucast (p ! 2)) OR push_bit 24 (ucast (p ! 3)) OR
     push_bit 32 (ucast (p ! 4)) OR push_bit 40 (ucast (p ! 5)) OR push_bit 48 (ucast (p ! 6)) OR push_bit 56 (ucast (p ! 7))"

definition PutFixed32 :: "u8 list \<Rightarrow> u32 \<Rightarrow> u8 list" where
  "PutFixed32 dst v = dst @ EncodeFixed32 v"

definition PutFixed64 :: "u8 list \<Rightarrow> u64 \<Rightarrow> u8 list" where
  "PutFixed64 dst v = dst @ EncodeFixed64 v"

definition EncodeVarint32 :: "u32 \<Rightarrow> u8 list" where
  "EncodeVarint32 v =
     (let B = 128 in
      if v < 2 ^ 7 then [ucast v]
      else if v < 2 ^ 14 then [ucast (v OR B), ucast (drop_bit 7 v)]
      else if v < 2 ^ 21 then [ucast (v OR B), ucast (drop_bit 7 v OR B), ucast (drop_bit 14 v)]
      else if v < 2 ^ 28 then
        [ucast (v OR B), ucast (drop_bit 7 v OR B), ucast (drop_bit 14 v OR B), ucast (drop_bit 21 v)]
      else
        [ucast (v OR B), ucast (drop_bit 7 v OR B), ucast (drop_bit 14 v OR B), ucast (drop_bit 21 v OR B),
         ucast (drop_bit 28 v)])"

definition PutVarint32 :: "u8 list \<Rightarrow> u32 \<Rightarrow> u8 list" where
  "PutVarint32 dst v = dst @ EncodeVarint32 v"

lemma drop_bit_7_less: "\<not> (v :: u64) < 128 \<Longrightarrow> unat (drop_bit 7 v) < unat v"
  by (simp add: unat_drop_bit word_less_nat_alt)

function EncodeVarint64 :: "u64 \<Rightarrow> u8 list" where
  "EncodeVarint64 v =
     (let B = 128 in if B \<le> v then ucast (v OR B) # EncodeVarint64 (drop_bit 7 v) else [ucast v])"
  by pat_completeness auto
termination
  by (relation "measure unat") (use drop_bit_7_less in \<open>auto simp: not_less\<close>)

function VarintLength :: "u64 \<Rightarrow> nat" where
  "VarintLength v = (if 128 \<le> v then Suc (VarintLength (drop_bit 7 v)) else 1)"
  by pat_completeness auto
termination
  by (relation "measure unat") (use drop_bit_7_less in \<open>auto simp: not_less\<close>)

declare EncodeVarint64.simps [simp del] VarintLength.simps [simp del]

definition PutVarint64 :: "u8 list \<Rightarrow> u64 \<Rightarrow> u8 list" where
  "PutVarint64 dst v = dst @ EncodeVarint64 v"

text \<open>The size is cast to 32 bits.\<close>

definition PutLengthPrefixedSlice :: "u8 list \<Rightarrow> u8 list \<Rightarrow> u8 list" where
  "PutLengthPrefixedSlice dst v = PutVarint32 dst (word_of_nat (length v)) @ v"

text \<open>
  The loop of \<open>GetVarint32PtrFallback\<close> and of \<open>GetVarint64Ptr\<close>; the shift goes up to 28 in the one and
  to 63 in the other.
\<close>

fun get_varint_loop :: "nat \<Rightarrow> nat \<Rightarrow> 'a :: len word \<Rightarrow> u8 list \<Rightarrow> ('a word \<times> u8 list) option" where
  "get_varint_loop bound shift result [] = None"
| "get_varint_loop bound shift result (byte # p) =
     (if shift \<le> bound then
        if byte AND 128 \<noteq> 0
        then get_varint_loop bound (shift + 7) (result OR push_bit shift (ucast byte AND 127)) p
        else Some (result OR push_bit shift (ucast byte), p)
      else None)"

definition GetVarint32PtrFallback :: "u8 list \<Rightarrow> (u32 \<times> u8 list) option" where
  "GetVarint32PtrFallback p = get_varint_loop 28 0 0 p"

definition GetVarint32Ptr :: "u8 list \<Rightarrow> (u32 \<times> u8 list) option" where
  "GetVarint32Ptr p =
     (case p of
        [] \<Rightarrow> GetVarint32PtrFallback p
      | result # p' \<Rightarrow> if result AND 128 = 0 then Some (ucast result, p') else GetVarint32PtrFallback p)"

definition GetVarint64Ptr :: "u8 list \<Rightarrow> (u64 \<times> u8 list) option" where
  "GetVarint64Ptr p = get_varint_loop 63 0 0 p"

definition GetVarint32 :: "(u8 list, u32) call" where
  "GetVarint32 input = (case GetVarint32Ptr input of None \<Rightarrow> (None, input) | Some (v, q) \<Rightarrow> (Some v, q))"

definition GetVarint64 :: "(u8 list, u64) call" where
  "GetVarint64 input = (case GetVarint64Ptr input of None \<Rightarrow> (None, input) | Some (v, q) \<Rightarrow> (Some v, q))"

definition GetLengthPrefixedSlice_Ptr :: "u8 list \<Rightarrow> (u8 list \<times> u8 list) option" where
  "GetLengthPrefixedSlice_Ptr p =
     (case GetVarint32Ptr p of
        None \<Rightarrow> None
      | Some (len, p) \<Rightarrow> if length p < unat len then None else Some (take (unat len) p, drop (unat len) p))"

definition GetLengthPrefixedSlice :: "(u8 list, u8 list) call" where
  "GetLengthPrefixedSlice =
     bindC GetVarint32 (\<lambda>len input.
       if unat len \<le> length input then (Some (take (unat len) input), drop (unat len) input) else (None, input))"

subsection \<open>What is written is read\<close>

lemma Fixed32_roundtrip [simp]: "DecodeFixed32 (EncodeFixed32 v @ rest) = v" "length (EncodeFixed32 v) = 4"
proof -
  have u: "ucast (ucast w :: u8) = take_bit 8 w" for w :: u32
    by (rule bit_eqI) (simp add: bit_simps)
  show "DecodeFixed32 (EncodeFixed32 v @ rest) = v" using bytes32 [of v] by (simp add: DecodeFixed32_def EncodeFixed32_def u)
qed (simp add: EncodeFixed32_def)

lemma Fixed64_roundtrip [simp]: "DecodeFixed64 (EncodeFixed64 v @ rest) = v" "length (EncodeFixed64 v) = 8"
proof -
  have u: "ucast (ucast w :: u8) = take_bit 8 w" for w :: u64
    by (rule bit_eqI) (simp add: bit_simps)
  show "DecodeFixed64 (EncodeFixed64 v @ rest) = v" using bytes64 [of v] by (simp add: DecodeFixed64_def EncodeFixed64_def u)
qed (simp add: EncodeFixed64_def)

lemma unat_bound: "unat (w :: 'a :: len word) < 2 ^ LENGTH('a)"
  by (rule unsigned_less)

lemma bit_128: "bit (128 :: 'a :: len word) n \<longleftrightarrow> n = 7 \<and> 7 < LENGTH('a)"
proof -
  have "(128 :: 'a word) = 2 ^ 7" by simp
  then show ?thesis by (simp only: bit_exp_iff) auto
qed

lemma ucast_varint_byte:
  assumes "8 \<le> LENGTH('a)"
  shows "(ucast (w OR 128 :: 'a :: len word) :: u8) = of_nat (unat w mod 128 + 128)"
proof -
  have e: "(ucast (w OR 128) :: u8) = (ucast w AND 0x7f) OR 0x80"
  proof (rule bit_eqI)
    fix n assume "possible_bit TYPE(u8) n"
    then have n: "n < 8" by simp
    have m: "(0x7f :: u8) = mask 7" by (simp add: mask_eq_exp_minus_1)
    show "bit (ucast (w OR 128) :: u8) n \<longleftrightarrow> bit ((ucast w AND 0x7f :: u8) OR 0x80) n"
      unfolding m bit_or_iff bit_and_iff bit_ucast_iff bit_128 bit_mask_iff using n assms by auto
  qed
  have "unat (ucast w AND 0x7f :: u8) = unat w mod 128"
    using assms by (simp add: unat_and_7f unat_ucast mod_mod_cancel)
  then have "unat ((ucast w AND 0x7f :: u8) OR 0x80) = unat w mod 128 + 128"
    using unat_or_128 [of "ucast w AND 0x7f"] by simp
  then show ?thesis unfolding e by (metis of_nat_unat ucast_id)
qed

lemma ucast_small_byte: "(ucast w :: u8) = of_nat (unat w)"
  by (simp add: word_unat_eq_iff unat_ucast unat_of_nat)

text \<open>Both encoders write the shortest form.\<close>

lemma le128_step: "128 \<le> n \<Longrightarrow> le128 n = of_nat (n mod 128 + 128) # le128 (n div 128)"
  by (subst le128.simps) (simp del: of_nat_add)

lemma le128_last: "n < 128 \<Longrightarrow> le128 n = [of_nat n]"
  by (subst le128.simps) simp

lemma EncodeVarint64_le128: "EncodeVarint64 v = le128 (unat v)"
proof (induction v rule: EncodeVarint64.induct)
  case (1 v)
  show ?case
  proof (cases "128 \<le> v")
    case True
    then have e: "EncodeVarint64 v = ucast (v OR 128) # EncodeVarint64 (drop_bit 7 v)" by (subst EncodeVarint64.simps) simp
    have n: "128 \<le> unat v" using True by (simp add: word_le_nat_alt)
    have IH: "EncodeVarint64 (drop_bit 7 v) = le128 (unat v div 128)" unfolding 1 [OF refl True] unat_drop_bit by simp
    have "(ucast (v OR 128) :: u8) = of_nat (unat v mod 128 + 128)" by (rule ucast_varint_byte) simp
    then show ?thesis unfolding e IH le128_step [OF n] by (rule arg_cong)
  next
    case False
    then have e: "EncodeVarint64 v = [ucast v]" by (subst EncodeVarint64.simps) simp
    have n: "unat v < 128" using False by (simp add: word_le_nat_alt)
    show ?thesis unfolding e le128_last [OF n] ucast_small_byte [of v] ..
  qed
qed

lemma EncodeVarint32_le128: "EncodeVarint32 v = le128 (unat v)"
proof -
  define n where "n = unat v"
  have n: "n < 4294967296" using unat_bound [of v] by (simp add: n_def)
  have c: "v < 2 ^ 7 \<longleftrightarrow> n < 128" "v < 2 ^ 14 \<longleftrightarrow> n < 16384" "v < 2 ^ 21 \<longleftrightarrow> n < 2097152" "v < 2 ^ 28 \<longleftrightarrow> n < 268435456"
    by (simp_all add: n_def word_less_nat_alt)
  have z: "(ucast (v OR 128) :: u8) = of_nat (n mod 128 + 128)" "(ucast v :: u8) = of_nat n"
    unfolding n_def by (rule ucast_varint_byte, simp) (rule ucast_small_byte)
  have m: "(ucast (drop_bit k v OR 128) :: u8) = of_nat (n div 2 ^ k mod 128 + 128)"
    "(ucast (drop_bit k v) :: u8) = of_nat (n div 2 ^ k)" for k
    using ucast_varint_byte [of "drop_bit k v"] ucast_small_byte [of "drop_bit k v"]
    by (simp_all only: unat_drop_bit n_def) simp
  have p: "(2 :: nat) ^ 7 = 128" "(2 :: nat) ^ 14 = 16384" "(2 :: nat) ^ 21 = 2097152" "(2 :: nat) ^ 28 = 268435456" by simp_all
  have d: "n div 128 div 128 = n div 16384" "n div 16384 div 128 = n div 2097152" "n div 2097152 div 128 = n div 268435456"
    by (simp_all add: div_mult2_eq [symmetric])
  consider (1) "n < 128" | (2) "128 \<le> n" "n < 16384" | (3) "16384 \<le> n" "n < 2097152"
    | (4) "2097152 \<le> n" "n < 268435456" | (5) "268435456 \<le> n" by linarith
  then have "EncodeVarint32 v = le128 n"
  proof cases
    case 1
    then show ?thesis unfolding EncodeVarint32_def Let_def c m z p by (simp only: if_True le128_last)
  next
    case 2
    then have "n div 128 < 128" "\<not> n < 128" by auto
    with 2 show ?thesis unfolding EncodeVarint32_def Let_def c m z p
      by (simp only: if_True if_False le128_last le128_step)
  next
    case 3
    then have "128 \<le> n" "\<not> n < 128" "\<not> n < 16384" "128 \<le> n div 128" "n div 16384 < 128" by auto
    with 3 show ?thesis unfolding EncodeVarint32_def Let_def c m z p
      by (simp only: if_True if_False le128_last le128_step d)
  next
    case 4
    then have "128 \<le> n" "\<not> n < 128" "\<not> n < 16384" "\<not> n < 2097152" "128 \<le> n div 128" "128 \<le> n div 16384" "n div 2097152 < 128" by auto
    with 4 show ?thesis unfolding EncodeVarint32_def Let_def c m z p
      by (simp only: if_True if_False le128_last le128_step d)
  next
    case 5
    then have "128 \<le> n" "\<not> n < 128" "\<not> n < 16384" "\<not> n < 2097152" "\<not> n < 268435456" "128 \<le> n div 128" "128 \<le> n div 16384"
      "128 \<le> n div 2097152" "n div 268435456 < 128" using n by auto
    with 5 show ?thesis unfolding EncodeVarint32_def Let_def c m z p
      by (simp only: if_True if_False le128_last le128_step d)
  qed
  then show ?thesis by (simp add: n_def)
qed

lemma VarintLength_le128: "VarintLength v = length (le128 (unat v))"
proof (induction v rule: VarintLength.induct)
  case (1 v)
  then show ?case
    by (cases "128 \<le> v")
      (auto simp: VarintLength.simps [of v] le128.simps [of "unat v"] unat_drop_bit word_le_nat_alt)
qed

lemma get_varint_loop_spec:
  assumes K: "bound < 7 * K" "7 * K \<le> bound + 7" "7 * K < LENGTH('a) + 7" "8 \<le> LENGTH('a)"
    and "i \<le> K" "i < K \<Longrightarrow> unat r < 2 ^ (7 * i)"
  shows "get_varint_loop bound (7 * i) (r :: 'a :: len word) p =
    (case vlen p of
       None \<Rightarrow> None
     | Some n \<Rightarrow> if i + n \<le> K then Some (r + 2 ^ (7 * i) * of_nat (vval (take n p)), drop n p) else None)"
  using assms(5,6)
proof (induction p arbitrary: i r)
  case (Cons b p)
  show ?case
  proof (cases "i = K")
    case True
    then have "get_varint_loop bound (7 * i) r (b # p) = None" using K(1) by simp
    moreover have "\<not> i + n \<le> K" if "vlen (b # p) = Some n" for n using vlen_bounds [OF that] True by auto
    ultimately show ?thesis by (simp del: get_varint_loop.simps vlen.simps split: option.split)
  next
    case False
    then have i: "i < K" "7 * i \<le> bound" using Cons.prems(1) K(2) by auto
    have r: "unat r < 2 ^ (7 * i)" by (rule Cons.prems(2) [OF i(1)])
    have cb: "(ucast b AND 127 :: 'a word) = of_nat (unat b mod 128)"
    proof -
      have m: "(127 :: 'a word) = mask 7" by (simp add: mask_eq_exp_minus_1)
      have "unat (ucast b :: 'a word) = unat b" using K(4) by (simp add: unat_ucast_up)
      then have "unat (ucast b AND 127 :: 'a word) = unat b mod 128" unfolding m unat_and_mask by simp
      then show ?thesis by (metis of_nat_unat ucast_id)
    qed
    show ?thesis
    proof (cases "128 \<le> unat b")
      case False
      then have s: "b AND 128 = 0" using byte_high_bit [of b] by auto
      have u: "(ucast b :: 'a word) = of_nat (unat b)" by simp
      have "get_varint_loop bound (7 * i) r (b # p) = Some (r + 2 ^ (7 * i) * of_nat (unat b), p)"
        unfolding get_varint_loop.simps u or_shifted [OF r] using s i by (simp del: of_nat_unat)
      moreover have "vlen (b # p) = Some 1" "vval (take 1 (b # p)) = unat b" "drop 1 (b # p) = p" "i + 1 \<le> K" using False i by auto
      ultimately show ?thesis by (simp only: option.case if_True)
    next
      case True
      let ?r = "r OR push_bit (7 * i) (of_nat (unat b mod 128) :: 'a word)"
      have s: "b AND 128 \<noteq> 0" using True byte_high_bit [of b] by auto
      have "unat ?r < 2 ^ (7 * Suc i)" if "Suc i < K"
        using or_shifted_less [OF r, of "unat b mod 128"] that K(3) by (simp add: add.commute)
      then have IH: "get_varint_loop bound (7 * Suc i) ?r p =
        (case vlen p of None \<Rightarrow> None
         | Some n \<Rightarrow> if Suc i + n \<le> K then Some (?r + 2 ^ (7 * Suc i) * of_nat (vval (take n p)), drop n p) else None)"
        using i(1) by (intro Cons.IH) auto
      have sum: "?r + 2 ^ (7 * Suc i) * of_nat x = r + 2 ^ (7 * i) * of_nat (unat b mod 128 + 128 * x)" for x
        unfolding or_shifted [OF r] by (simp add: power_add algebra_simps)
      have l: "get_varint_loop bound (7 * i) r (b # p) = get_varint_loop bound (7 * Suc i) ?r p"
        using i s cb by (simp add: add.commute)
      show ?thesis
      proof (cases "vlen p")
        case None
        then show ?thesis unfolding l IH using True by simp
      next
        case (Some n)
        then have "vlen (b # p) = Some (Suc n)" "take (Suc n) (b # p) = b # take n p" "drop (Suc n) (b # p) = drop n p"
          "i + Suc n \<le> K \<longleftrightarrow> Suc i + n \<le> K" using True by auto
        then show ?thesis unfolding l IH by (simp only: Some option.case sum vval.simps)
      qed
    qed
  qed
qed simp

lemma GetVarint32Ptr_spec:
  "GetVarint32Ptr p =
    (case vlen p of None \<Rightarrow> None | Some n \<Rightarrow> if n \<le> 5 then Some (of_nat (vval (take n p)), drop n p) else None)"
proof -
  have f: "GetVarint32PtrFallback p =
      (case vlen p of None \<Rightarrow> None | Some n \<Rightarrow> if n \<le> 5 then Some (of_nat (vval (take n p)), drop n p) else None)" for p
    using get_varint_loop_spec [of 28 5 0 "0 :: u32" p] by (cases "vlen p") (simp_all add: GetVarint32PtrFallback_def)
  show ?thesis
  proof (cases p)
    case (Cons b p')
    show ?thesis
    proof (cases "b AND 128 = 0")
      case True
      then have "unat b < 128" using byte_high_bit [of b] by auto
      then show ?thesis using Cons True by (simp add: GetVarint32Ptr_def)
    next
      case False
      then have "GetVarint32Ptr p = GetVarint32PtrFallback p" using Cons by (simp add: GetVarint32Ptr_def)
      then show ?thesis by (simp only: f)
    qed
  qed (simp add: GetVarint32Ptr_def f)
qed

lemma GetVarint64Ptr_spec:
  "GetVarint64Ptr p =
    (case vlen p of None \<Rightarrow> None | Some n \<Rightarrow> if n \<le> 10 then Some (of_nat (vval (take n p)), drop n p) else None)"
  using get_varint_loop_spec [of 63 10 0 "0 :: u64" p] by (cases "vlen p") (simp_all add: GetVarint64Ptr_def)

lemma vlen_le128 [simp]: "vlen (le128 n @ rest) = Some (length (le128 n))"
  using vlen_append le128_varint by blast

lemma vval_le128 [simp]: "vval (le128 n) = n"
  using le128_varint by blast

lemma GetVarint32_roundtrip [simp]: "GetVarint32 (EncodeVarint32 v @ rest) = (Some v, rest)"
proof -
  have "unat v < 128 ^ 5" using unat_bound [of v] by simp
  then have "length (le128 (unat v)) \<le> 5" by (intro le128_length) auto
  then show ?thesis by (simp add: GetVarint32_def GetVarint32Ptr_spec EncodeVarint32_le128)
qed

lemma GetVarint64_roundtrip [simp]: "GetVarint64 (EncodeVarint64 v @ rest) = (Some v, rest)"
  using le128_length_64 [of "unat v"] unat_bound [of v]
  by (simp add: GetVarint64_def GetVarint64Ptr_spec EncodeVarint64_le128)

lemma GetLengthPrefixedSlice_roundtrip [simp]:
  "length v < 2 ^ 32 \<Longrightarrow> GetLengthPrefixedSlice (EncodeVarint32 (word_of_nat (length v)) @ v @ rest) = (Some v, rest)"
  by (simp add: GetLengthPrefixedSlice_def bindC_def unat_of_nat)

end
