(* ===== verification/Ldb_Log.thy ===== *)
theory Ldb_Log
  imports Ldb_Crc32c
begin

text \<open>
  db/log_format.h, db/log_writer.cc and db/log_reader.cc of leveldb: the write-ahead log. The files
  are lists of bytes; the operating system decides which operations fail (\<open>log_env\<close>), how many bytes
  a failed append leaves behind, and where data lies in memory. Offsets are 64-bit words, sizes are
  natural numbers. The scratch string that carries a fragmented record is part of the loop state.
\<close>

definition kZeroType :: u32 where "kZeroType = 0"
definition kFullType :: u32 where "kFullType = 1"
definition kFirstType :: u32 where "kFirstType = 2"
definition kMiddleType :: u32 where "kMiddleType = 3"
definition kLastType :: u32 where "kLastType = 4"
definition kMaxRecordType :: u32 where "kMaxRecordType = kLastType"
definition kEof :: u32 where "kEof = kMaxRecordType + 1"
definition kBadRecord :: u32 where "kBadRecord = kMaxRecordType + 2"

definition kBlockSize :: nat where "kBlockSize = 32768"
definition kHeaderSize :: nat where "kHeaderSize = 4 + 2 + 1"

datatype status = OK | Corruption string | IOError

text \<open>The \<open>n\<close>-th operation on a file succeeds or not; a failed append may write a part.\<close>

record log_env =
  op_ok :: "nat \<Rightarrow> bool"
  op_part :: "nat \<Rightarrow> nat"
  accel :: "u32 \<Rightarrow> u8 list \<Rightarrow> u32"
  addr_of :: "u8 list \<Rightarrow> nat"

subsection \<open>The writer\<close>

record writable_file =
  contents :: "u8 list"
  file_ops :: nat

record log_writer =
  dest :: writable_file
  block_offset :: nat

definition dest_Append :: "log_env \<Rightarrow> u8 list \<Rightarrow> log_writer \<Rightarrow> status \<times> log_writer" where
  "dest_Append E data w =
     (let f = dest w; n = file_ops f
      in if op_ok E n then (OK, w\<lparr>dest := f\<lparr>contents := contents f @ data, file_ops := Suc n\<rparr>\<rparr>)
         else (IOError, w\<lparr>dest := f\<lparr>contents := contents f @ take (op_part E n) data, file_ops := Suc n\<rparr>\<rparr>))"

definition dest_Flush :: "log_env \<Rightarrow> log_writer \<Rightarrow> status \<times> log_writer" where
  "dest_Flush E w =
     (let f = dest w; n = file_ops f
      in (if op_ok E n then OK else IOError, w\<lparr>dest := f\<lparr>file_ops := Suc n\<rparr>\<rparr>))"

definition Writer_new :: "u8 list \<Rightarrow> nat \<Rightarrow> log_writer" where
  "Writer_new file dest_length = \<lparr>dest = \<lparr>contents = file, file_ops = 0\<rparr>, block_offset = dest_length mod kBlockSize\<rparr>"

definition type_crc :: "log_env \<Rightarrow> u32 \<Rightarrow> u32" where
  "type_crc E t = crc32c_Value (accel E) (addr_of E [ucast t]) [ucast t]"

definition EmitPhysicalRecord :: "log_env \<Rightarrow> u32 \<Rightarrow> u8 list \<Rightarrow> log_writer \<Rightarrow> status \<times> log_writer" where
  "EmitPhysicalRecord E t ptr w =
     (let n = length ptr;
          crc = Extend (accel E) (addr_of E ptr) (type_crc E t) ptr;
          crc = Mask crc;
          buf = EncodeFixed32 crc @ [word_of_nat n AND 0xff, word_of_nat (n div 256), ucast t];
          (s, w) = dest_Append E buf w;
          (s, w) =
            (if s = OK then
               (case dest_Append E ptr w of (s, w) \<Rightarrow> if s = OK then dest_Flush E w else (s, w))
             else (s, w))
      in (s, w\<lparr>block_offset := block_offset w + (kHeaderSize + n)\<rparr>))"

text \<open>The trailer that ends a block; the result of the append is not looked at.\<close>

definition fill_trailer :: "log_env \<Rightarrow> log_writer \<Rightarrow> log_writer" where
  "fill_trailer E w =
     (let leftover = kBlockSize - block_offset w
      in if leftover < kHeaderSize
         then (if 0 < leftover then snd (dest_Append E (replicate leftover 0) w) else w)\<lparr>block_offset := 0\<rparr>
         else w)"

lemma fill_trailer_offset: "block_offset (fill_trailer E w) = (if kBlockSize - block_offset w < kHeaderSize then 0 else block_offset w)"
  by (simp add: fill_trailer_def Let_def)

lemma Emit_offset: "block_offset (snd (EmitPhysicalRecord E t ptr w)) = block_offset w + kHeaderSize + length ptr"
  by (simp add: EmitPhysicalRecord_def Let_def dest_Append_def dest_Flush_def split: prod.splits)

lemma add_loop_decreases:
  assumes "x = fill_trailer E w" "a = kBlockSize - block_offset x - kHeaderSize"
    "n = (if length ptr < a then length ptr else a)" "p = EmitPhysicalRecord E t (take n ptr) x" "(s, y) = p"
    "ptr' = drop n ptr" "s = OK \<and> 0 < length ptr'"
  shows "2 * length ptr' + (if kBlockSize - block_offset y = kHeaderSize then 1 else 0)
    < 2 * length ptr + (if kBlockSize - block_offset w = kHeaderSize then 1 else (0::nat))"
proof -
  have o: "block_offset x = (if kBlockSize - block_offset w < kHeaderSize then 0 else block_offset w)"
    unfolding assms(1) by (rule fill_trailer_offset)
  have p: "n = a" "a < length ptr" using assms(3,6,7) by (auto split: if_splits)
  have "y = snd (EmitPhysicalRecord E t (take n ptr) x)" using assms(4,5) by (metis snd_conv)
  then have y: "block_offset y = block_offset x + kHeaderSize + a" using p by (simp add: Emit_offset)
  show ?thesis
  proof (cases "a = 0")
    case True
    then have "kBlockSize - block_offset w = kHeaderSize" "kBlockSize - block_offset y \<noteq> kHeaderSize"
      using o assms(2) y by (auto simp: kBlockSize_def kHeaderSize_def split: if_splits)
    then show ?thesis using p True assms(6) by simp
  next
    case False
    then have "2 * length ptr' + 2 \<le> 2 * length ptr" using p assms(6) by simp
    then show ?thesis by (auto split: if_splits)
  qed
qed

function add_loop :: "log_env \<Rightarrow> bool \<Rightarrow> u8 list \<Rightarrow> log_writer \<Rightarrow> status \<times> log_writer" where
  "add_loop E begin' ptr w =
     (let w = fill_trailer E w;
          avail = kBlockSize - block_offset w - kHeaderSize;
          fragment_length = (if length ptr < avail then length ptr else avail);
          end' = (length ptr = fragment_length);
          t = (if begin' \<and> end' then kFullType else if begin' then kFirstType
               else if end' then kLastType else kMiddleType);
          (s, w) = EmitPhysicalRecord E t (take fragment_length ptr) w;
          ptr = drop fragment_length ptr
      in if s = OK \<and> 0 < length ptr then add_loop E False ptr w else (s, w))"
  by pat_completeness auto
termination
  apply (relation "measure (\<lambda>(E, b, ptr, w). 2 * length ptr + (if kBlockSize - block_offset w = kHeaderSize then 1 else 0))")
   apply simp
  apply (unfold in_measure prod.case)
  apply (rule add_loop_decreases)
  apply assumption+
  done

declare add_loop.simps [simp del]

definition AddRecord :: "log_env \<Rightarrow> u8 list \<Rightarrow> log_writer \<Rightarrow> status \<times> log_writer" where
  "AddRecord E data w = add_loop E True data w"

subsection \<open>The reader\<close>

record log_reader =
  file_rest :: "u8 list"
  read_ops :: nat
  has_reporter :: bool \<comment> \<open>\<open>reporter_\<close> is not null\<close>
  checksum :: bool
  buffer :: "u8 list"
  eof :: bool
  last_record_offset :: u64
  end_of_buffer_offset :: u64
  initial_offset :: u64
  resyncing :: bool
  reports :: "(u64 \<times> status) list" \<comment> \<open>the calls of the reporter\<close>

definition Reader_new :: "u8 list \<Rightarrow> bool \<Rightarrow> bool \<Rightarrow> u64 \<Rightarrow> log_reader" where
  "Reader_new file reporter checksum' initial =
     \<lparr>file_rest = file, read_ops = 0, has_reporter = reporter, checksum = checksum', buffer = [], eof = False, last_record_offset = 0,
      end_of_buffer_offset = 0, initial_offset = initial, resyncing = (0 < initial), reports = []\<rparr>"

definition ReportDrop :: "u64 \<Rightarrow> status \<Rightarrow> log_reader \<Rightarrow> log_reader" where
  "ReportDrop bytes reason r =
     (if has_reporter r \<and> initial_offset r \<le> end_of_buffer_offset r - word_of_nat (length (buffer r)) - bytes
      then r\<lparr>reports := reports r @ [(bytes, reason)]\<rparr> else r)"

definition ReportCorruption :: "nat \<Rightarrow> string \<Rightarrow> log_reader \<Rightarrow> log_reader" where
  "ReportCorruption bytes reason = ReportDrop (word_of_nat bytes) (Corruption reason)"

definition SkipToInitialBlock :: "log_env \<Rightarrow> log_reader \<Rightarrow> bool \<times> log_reader" where
  "SkipToInitialBlock E r =
     (let offset_in_block = unat (initial_offset r) mod kBlockSize;
          block_start_location = initial_offset r - word_of_nat offset_in_block;
          block_start_location =
            (if kBlockSize - 6 < offset_in_block then block_start_location + word_of_nat kBlockSize else block_start_location);
          r = r\<lparr>end_of_buffer_offset := block_start_location\<rparr>
      in if 0 < block_start_location then
           (let n = read_ops r; r = r\<lparr>read_ops := Suc n\<rparr>
            in if op_ok E n then (True, r\<lparr>file_rest := drop (unat block_start_location) (file_rest r)\<rparr>)
               else (False, ReportDrop block_start_location IOError r))
         else (True, r))"

text \<open>Filling the buffer with the next block: whether that worked.\<close>

definition read_block :: "log_env \<Rightarrow> log_reader \<Rightarrow> bool \<times> log_reader" where
  "read_block E r =
     (let r = r\<lparr>buffer := []\<rparr>; n = read_ops r; r = r\<lparr>read_ops := Suc n\<rparr>
      in if op_ok E n then
           (let r = r\<lparr>buffer := take kBlockSize (file_rest r), file_rest := drop kBlockSize (file_rest r)\<rparr>;
                r = r\<lparr>end_of_buffer_offset := end_of_buffer_offset r + word_of_nat (length (buffer r))\<rparr>
            in (True, if length (buffer r) < kBlockSize then r\<lparr>eof := True\<rparr> else r))
         else (False, (ReportDrop (word_of_nat kBlockSize) IOError r)\<lparr>eof := True\<rparr>))"

text \<open>
  Parsing the record at the front of a buffer of at least seven bytes: its type or one of the special
  values, and the fragment (as before where the code leaves the slice alone). The type is a \<open>char\<close>,
  which is signed.
\<close>

definition parse_physical :: "log_env \<Rightarrow> u8 list \<Rightarrow> log_reader \<Rightarrow> u32 \<times> u8 list \<times> log_reader" where
  "parse_physical E result r =
     (let header = buffer r;
          a = ucast (header ! 4) AND 0xff;
          b = ucast (header ! 5) AND 0xff;
          type' = (scast (header ! 6) :: u32);
          n = unat (a OR push_bit 8 b :: u32)
      in if length (buffer r) < kHeaderSize + n then
           (let drop_size = length (buffer r); r = r\<lparr>buffer := []\<rparr>
            in if \<not> eof r then (kBadRecord, result, ReportCorruption drop_size ''bad record length'' r)
               else (kEof, result, r))
         else if type' = kZeroType \<and> n = 0 then (kBadRecord, result, r\<lparr>buffer := []\<rparr>)
         else if checksum r \<and>
             crc32c_Value (accel E) (addr_of E (drop 6 header)) (take (1 + n) (drop 6 header)) \<noteq>
             Unmask (DecodeFixed32 header) then
           (let drop_size = length (buffer r); r = r\<lparr>buffer := []\<rparr>
            in (kBadRecord, result, ReportCorruption drop_size ''checksum mismatch'' r))
         else
           (let r = r\<lparr>buffer := drop (kHeaderSize + n) (buffer r)\<rparr>
            in if end_of_buffer_offset r - word_of_nat (length (buffer r)) - word_of_nat kHeaderSize - word_of_nat n
                  < initial_offset r
               then (kBadRecord, [], r)
               else (type', take n (drop kHeaderSize header), r)))"

function ReadPhysicalRecord :: "log_env \<Rightarrow> u8 list \<Rightarrow> log_reader \<Rightarrow> u32 \<times> u8 list \<times> log_reader" where
  "ReadPhysicalRecord E result r =
     (if length (buffer r) < kHeaderSize then
        if \<not> eof r then
          (case read_block E r of (ok, r) \<Rightarrow> if \<not> ok then (kEof, result, r) else ReadPhysicalRecord E result r)
        else (kEof, result, r\<lparr>buffer := []\<rparr>)
      else parse_physical E result r)"
  by pat_completeness auto
termination
  by (relation "measure (\<lambda>(E, result, r). (if eof r then 0 else 1) + (if length (buffer r) < kHeaderSize then 1 else 0))")
    (auto simp: read_block_def Let_def kBlockSize_def kHeaderSize_def split: if_splits)

declare ReadPhysicalRecord.simps [simp del]

subsection \<open>Logical records\<close>

text \<open>The number as \<open>%u\<close> prints it.\<close>

fun print_unsigned :: "nat \<Rightarrow> string" where
  "print_unsigned n =
     (if n < 10 then [char_of (48 + n)] else print_unsigned (n div 10) @ [char_of (48 + n mod 10)])"

declare print_unsigned.simps [simp del]

text \<open>
  What one turn of the loop of \<open>ReadRecord\<close> decides: to return the flag, the record and the scratch
  string, or to go on with the flag \<open>in_fragmented_record\<close>, the prospective offset and the scratch.
\<close>

datatype turn =
  Return bool "u8 list" "u8 list" log_reader
| Again bool u64 "u8 list" log_reader

definition record_turn :: "bool \<Rightarrow> u64 \<Rightarrow> u8 list \<Rightarrow> u32 \<Rightarrow> u8 list \<Rightarrow> log_reader \<Rightarrow> turn" where
  "record_turn in_fragmented prospective scratch t fragment r =
     (let here = end_of_buffer_offset r - word_of_nat (length (buffer r)) - word_of_nat kHeaderSize
            - word_of_nat (length fragment)
      in if resyncing r \<and> t = kMiddleType then Again in_fragmented prospective scratch r
         else if resyncing r \<and> t = kLastType then Again in_fragmented prospective scratch (r\<lparr>resyncing := False\<rparr>)
         else
           (let r = r\<lparr>resyncing := False\<rparr>
            in if t = kFullType then
                 (let r = (if in_fragmented \<and> scratch \<noteq> []
                    then ReportCorruption (length scratch) ''partial record without end(1)'' r else r)
                  in Return True fragment [] (r\<lparr>last_record_offset := here\<rparr>))
               else if t = kFirstType then
                 (let r = (if in_fragmented \<and> scratch \<noteq> []
                    then ReportCorruption (length scratch) ''partial record without end(2)'' r else r)
                  in Again True here fragment r)
               else if t = kMiddleType then
                 (if \<not> in_fragmented
                  then Again in_fragmented prospective scratch
                         (ReportCorruption (length fragment) ''missing start of fragmented record(1)'' r)
                  else Again in_fragmented prospective (scratch @ fragment) r)
               else if t = kLastType then
                 (if \<not> in_fragmented
                  then Again in_fragmented prospective scratch
                         (ReportCorruption (length fragment) ''missing start of fragmented record(2)'' r)
                  else Return True (scratch @ fragment) (scratch @ fragment) (r\<lparr>last_record_offset := prospective\<rparr>))
               else if t = kEof then Return False [] (if in_fragmented then [] else scratch) r
               else if t = kBadRecord then
                 (if in_fragmented
                  then Again False prospective [] (ReportCorruption (length scratch) ''error in middle of record'' r)
                  else Again in_fragmented prospective scratch r)
               else
                 Again False prospective []
                   (ReportCorruption (length fragment + (if in_fragmented then length scratch else 0))
                      (''unknown record type '' @ print_unsigned (unat t)) r)))"

lemma Report_rest [simp]:
  "file_rest (ReportCorruption n s r) = file_rest r" "buffer (ReportCorruption n s r) = buffer r"
  "file_rest (ReportDrop m st r) = file_rest r" "buffer (ReportDrop m st r) = buffer r"
  "eof (ReportDrop m st r) = eof r"
  by (simp_all add: ReportCorruption_def ReportDrop_def)

lemma read_block_length:
  "read_block E r = (ok, r') \<Longrightarrow> length (buffer r') + length (file_rest r') \<le> length (buffer r) + length (file_rest r)"
  by (auto simp: read_block_def Let_def split: if_splits)

lemma parse_physical_length:
  "parse_physical E f r = (t, f', r') \<Longrightarrow> kHeaderSize \<le> length (buffer r)
    \<Longrightarrow> length (buffer r') + length (file_rest r') < length (buffer r) + length (file_rest r)"
  by (auto simp: parse_physical_def Let_def kHeaderSize_def split: if_splits)

lemma ReadPhysicalRecord_length:
  "ReadPhysicalRecord E f r = (t, f', r') \<Longrightarrow> t \<noteq> kEof
    \<Longrightarrow> length (buffer r') + length (file_rest r') < length (buffer r) + length (file_rest r)"
proof (induction E f r arbitrary: t f' r' rule: ReadPhysicalRecord.induct)
  case (1 E f r)
  show ?case
  proof (cases "length (buffer r) < kHeaderSize")
    case True
    then have n: "\<not> eof r" using "1.prems" by (auto simp: ReadPhysicalRecord.simps [of E f r])
    obtain ok r1 where b: "read_block E r = (ok, r1)" by force
    then have ok: ok "ReadPhysicalRecord E f r1 = (t, f', r')"
      using "1.prems" True n by (auto simp: ReadPhysicalRecord.simps [of E f r] split: if_splits)
    then show ?thesis
      using "1.IH" [OF True n b [symmetric] _ ok(2) "1.prems"(2)] ok(1) read_block_length [OF b] by simp
  next
    case False
    then show ?thesis using "1.prems" parse_physical_length by (auto simp: ReadPhysicalRecord.simps [of E f r])
  qed
qed

lemma record_turn_Again:
  "record_turn i p s t f r = Again i' p' s' r' \<Longrightarrow> t \<noteq> kEof \<and> buffer r' = buffer r \<and> file_rest r' = file_rest r"
  by (auto simp: record_turn_def Let_def kFullType_def kFirstType_def kMiddleType_def kLastType_def kEof_def
      kMaxRecordType_def kBadRecord_def split: if_splits)

lemma record_turn_Return:
  "record_turn i p s t f r = Return ok f' s' r' \<Longrightarrow> buffer r' = buffer r \<and> file_rest r' = file_rest r \<and> (ok \<longrightarrow> t \<noteq> kEof)"
  by (auto simp: record_turn_def Let_def kFullType_def kFirstType_def kMiddleType_def kLastType_def kEof_def
      kMaxRecordType_def kBadRecord_def split: if_splits)

function record_loop :: "log_env \<Rightarrow> bool \<Rightarrow> u64 \<Rightarrow> u8 list \<Rightarrow> u8 list \<Rightarrow> log_reader \<Rightarrow> bool \<times> u8 list \<times> u8 list \<times> log_reader" where
  "record_loop E in_fragmented prospective fragment scratch r =
     (case ReadPhysicalRecord E fragment r of (t, fragment, r) \<Rightarrow>
        (case record_turn in_fragmented prospective scratch t fragment r of
           Return ok record scratch r \<Rightarrow> (ok, record, scratch, r)
         | Again in_fragmented prospective scratch r \<Rightarrow> record_loop E in_fragmented prospective fragment scratch r))"
  by pat_completeness auto
termination
  apply (relation "measure (\<lambda>(E, i, p, f, s, r). length (buffer r) + length (file_rest r))")
   apply simp
  apply (unfold in_measure prod.case)
  apply (metis ReadPhysicalRecord_length record_turn_Again)
  done

declare record_loop.simps [simp del]

definition ReadRecord :: "log_env \<Rightarrow> u8 list \<Rightarrow> u8 list \<Rightarrow> log_reader \<Rightarrow> bool \<times> u8 list \<times> u8 list \<times> log_reader" where
  "ReadRecord E record scratch r =
     (case (if last_record_offset r < initial_offset r then SkipToInitialBlock E r else (True, r)) of (ok, r) \<Rightarrow>
        if \<not> ok then (False, record, scratch, r) else record_loop E False 0 [] [] r)"

definition LastRecordOffset :: "log_reader \<Rightarrow> u64" where
  "LastRecordOffset r = last_record_offset r"

lemma record_loop_length:
  "record_loop E i p f s r = (True, f', s', r')
    \<Longrightarrow> length (buffer r') + length (file_rest r') < length (buffer r) + length (file_rest r)"
proof (induction E i p f s r arbitrary: f' s' r' rule: record_loop.induct)
  case (1 E i p f s r)
  obtain t f1 r1 where R: "ReadPhysicalRecord E f r = (t, f1, r1)" by (metis prod_cases3)
  show ?case
  proof (cases "record_turn i p s t f1 r1")
    case (Return ok f2 s2 r2)
    then show ?thesis
      using "1.prems" R record_turn_Return [OF Return] ReadPhysicalRecord_length [OF R]
      by (simp add: record_loop.simps [of E i p f s r])
  next
    case (Again i2 p2 s2 r2)
    then have "record_loop E i2 p2 f1 s2 r2 = (True, f', s', r')"
      using "1.prems" R by (simp add: record_loop.simps [of E i p f s r])
    then show ?thesis
      using "1.IH" [OF R [symmetric] refl Again] record_turn_Again [OF Again] ReadPhysicalRecord_length [OF R] by fastforce
  qed
qed

lemma SkipToInitialBlock_length:
  "SkipToInitialBlock E r = (ok, r') \<Longrightarrow> length (buffer r') + length (file_rest r') \<le> length (buffer r) + length (file_rest r)"
  by (auto simp: SkipToInitialBlock_def Let_def split: if_splits)

lemma ReadRecord_length:
  "ReadRecord E f s r = (True, f', s', r')
    \<Longrightarrow> length (buffer r') + length (file_rest r') < length (buffer r) + length (file_rest r)"
  using SkipToInitialBlock_length [of E r] record_loop_length
  by (fastforce simp: ReadRecord_def split: prod.splits if_splits)

text \<open>Recovery reads records until there is none.\<close>

function read_all :: "log_env \<Rightarrow> u8 list \<Rightarrow> u8 list \<Rightarrow> log_reader \<Rightarrow> u8 list list \<times> log_reader" where
  "read_all E record scratch r =
     (case ReadRecord E record scratch r of (ok, record, scratch, r) \<Rightarrow>
        if ok then (case read_all E record scratch r of (xs, r) \<Rightarrow> (record # xs, r)) else ([], r))"
  by pat_completeness auto
termination
  apply (relation "measure (\<lambda>(E, f, s, r). length (buffer r) + length (file_rest r))")
   apply simp
  apply (unfold in_measure prod.case)
  apply (metis ReadRecord_length)
  done

declare read_all.simps [simp del]

end
