(* ===== verification/Ldb_Recovery.thy ===== *)
theory Ldb_Recovery
  imports Ldb_Log
begin

text \<open>
  What the log promises: the layout of the file as a list of physical records with their padding, the
  lemma that the writer produces it, and the lemmas that the reader, on any prefix of such a file,
  gives back the logical records that lie in the prefix as a whole.
\<close>

definition phys :: "u32 \<Rightarrow> u8 list \<Rightarrow> u8 list" where
  "phys t d = EncodeFixed32 (Mask (crc32c 0 (ucast t # d)))
     @ [word_of_nat (length d) AND 0xff, word_of_nat (length d div 256), ucast t] @ d"

type_synonym piece = "nat \<times> u32 \<times> u8 list" \<comment> \<open>the padding before a physical record, its type and its data\<close>

definition piece_bytes :: "piece \<Rightarrow> u8 list" where
  "piece_bytes = (\<lambda>(pad, t, d). replicate pad 0 @ phys t d)"

definition log_layout :: "piece list \<Rightarrow> u8 list" where
  "log_layout ps = concat (map piece_bytes ps)"

definition padding :: "nat \<Rightarrow> nat" where
  "padding bo = (if kBlockSize - bo < kHeaderSize then kBlockSize - bo else 0)"

definition aligned :: "nat \<Rightarrow> nat" where
  "aligned bo = (if kBlockSize - bo < kHeaderSize then 0 else bo)"

fun placed :: "nat \<Rightarrow> piece list \<Rightarrow> bool" where
  "placed bo [] = (bo \<le> kBlockSize)"
| "placed bo ((pad, t, d) # ps) =
     (bo \<le> kBlockSize \<and> pad = padding bo \<and> aligned bo + kHeaderSize + length d \<le> kBlockSize \<and> t \<in> {1, 2, 3, 4} \<and>
      placed (aligned bo + kHeaderSize + length d) ps)"

fun end_offset :: "nat \<Rightarrow> piece list \<Rightarrow> nat" where
  "end_offset bo [] = bo"
| "end_offset bo ((pad, t, d) # ps) = end_offset (aligned bo + kHeaderSize + length d) ps"

text \<open>The pieces hold the data of one record, from its first piece on or from a later one.\<close>

fun pieces_of :: "bool \<Rightarrow> u8 list \<Rightarrow> piece list \<Rightarrow> bool" where
  "pieces_of first data [] = False"
| "pieces_of first data ((pad, t, d) # ps) =
     (if ps = [] then t = (if first then kFullType else kLastType) \<and> data = d
      else t = (if first then kFirstType else kMiddleType) \<and> take (length d) data = d \<and>
        pieces_of False (drop (length d) data) ps)"

lemmas type_defs = kZeroType_def kFullType_def kFirstType_def kMiddleType_def kLastType_def kMaxRecordType_def
  kEof_def kBadRecord_def

lemma phys_length [simp]: "length (phys t d) = kHeaderSize + length d"
  by (simp add: phys_def kHeaderSize_def)

lemma log_layout_simps [simp]:
  "log_layout [] = []" "log_layout (p # ps) = piece_bytes p @ log_layout ps" "log_layout (ps @ qs) = log_layout ps @ log_layout qs"
  by (simp_all add: log_layout_def)

lemma placed_append [simp]: "placed bo (ps @ qs) \<longleftrightarrow> placed bo ps \<and> placed (end_offset bo ps) qs"
proof (induction ps arbitrary: bo)
  case Nil
  then show ?case by (cases qs) auto
next
  case (Cons p ps)
  then show ?case by (cases p) auto
qed

lemma placed_le: "placed bo ps \<Longrightarrow> bo \<le> kBlockSize"
  by (cases "(bo, ps)" rule: placed.cases) auto

lemma placed_end_le: "placed bo ps \<Longrightarrow> end_offset bo ps \<le> kBlockSize"
  using placed_append [of bo ps "[]"] by simp

subsection \<open>The writer\<close>

text \<open>No operation fails, and the accelerated checksum keeps its promise.\<close>

definition reliable :: "log_env \<Rightarrow> bool" where
  "reliable E \<longleftrightarrow> (\<forall>n. op_ok E n) \<and> accel_correct (accel E)"

lemma crc32c_type: "Extend (accel E) a (type_crc E t) d = crc32c 0 (ucast t # d)" if "reliable E"
  using that crc32c_append [of 0 "[ucast t]" d] by (simp add: reliable_def type_crc_def crc32c_Value_def Extend_crc32c)

lemma Emit_reliable:
  assumes "reliable E"
  shows "EmitPhysicalRecord E t d w =
    (OK, w\<lparr>dest := \<lparr>contents = contents (dest w) @ phys t d, file_ops = file_ops (dest w) + 3\<rparr>,
       block_offset := block_offset w + (kHeaderSize + length d)\<rparr>)"
  using assms
  by (simp add: EmitPhysicalRecord_def Let_def dest_Append_def dest_Flush_def crc32c_type phys_def) (simp add: reliable_def)

lemma fill_trailer_reliable:
  assumes "reliable E"
  shows "contents (dest (fill_trailer E w)) = contents (dest w) @ replicate (padding (block_offset w)) 0"
    "block_offset (fill_trailer E w) = aligned (block_offset w)"
  using assms by (auto simp: fill_trailer_def Let_def dest_Append_def padding_def aligned_def reliable_def)

lemma add_loop_layout:
  assumes "reliable E" "block_offset w \<le> kBlockSize"
  shows "\<exists>w' ps. add_loop E first data w = (OK, w') \<and> contents (dest w') = contents (dest w) @ log_layout ps \<and>
    placed (block_offset w) ps \<and> block_offset w' = end_offset (block_offset w) ps \<and> pieces_of first data ps"
  using assms
proof (induction E first data w rule: add_loop.induct)
  case (1 E first data w)
  let ?bo = "aligned (block_offset w)"
  define x where "x = fill_trailer E w"
  define a where "a = kBlockSize - block_offset x - kHeaderSize"
  define n where "n = (if length data < a then length data else a)"
  define t where "t = (if first \<and> length data = n then kFullType else if first then kFirstType
    else if length data = n then kLastType else kMiddleType)"
  obtain s y where e: "EmitPhysicalRecord E t (take n data) x = (s, y)" by force
  have x: "contents (dest x) = contents (dest w) @ replicate (padding (block_offset w)) 0" "block_offset x = ?bo"
    unfolding x_def using fill_trailer_reliable [OF "1.prems"(1)] by auto
  have n: "n \<le> length data" "length (take n data) = n" by (auto simp: n_def)
  have bo: "?bo + kHeaderSize \<le> kBlockSize" by (auto simp: aligned_def kBlockSize_def kHeaderSize_def)
  then have fits: "?bo + kHeaderSize + n \<le> kBlockSize" using x(2) by (auto simp: n_def a_def)
  have y: "s = OK" "contents (dest y) = contents (dest x) @ phys t (take n data)" "block_offset y = ?bo + kHeaderSize + n"
    using e x(2) n unfolding Emit_reliable [OF "1.prems"(1)] by auto
  have t: "t \<in> {1, 2, 3, 4}" by (simp add: t_def type_defs)
  have step: "add_loop E first data w = (if 0 < length (drop n data) then add_loop E False (drop n data) y else (OK, y))"
    by (subst add_loop.simps)
      (simp only: Let_def x_def [symmetric] a_def [symmetric] n_def [symmetric] t_def [symmetric] e y(1) prod.case simp_thms)
  show ?case
  proof (cases "n < length data")
    case False
    then have "n = length data" using n by simp
    then have "add_loop E first data w = (OK, y)" "pieces_of first data [(padding (block_offset w), t, data)]"
      using step by (auto simp: t_def)
    then show ?thesis
      using y x fits t \<open>n = length data\<close> "1.prems"(2)
      by (intro exI [of _ y] exI [of _ "[(padding (block_offset w), t, data)]"]) (simp add: piece_bytes_def)
  next
    case True
    have "0 < length (drop n data)" using True by simp
    moreover have "block_offset y \<le> kBlockSize" using y fits by simp
    ultimately obtain w' ps where IH: "add_loop E False (drop n data) y = (OK, w')"
      "contents (dest w') = contents (dest y) @ log_layout ps" "placed (block_offset y) ps"
      "block_offset w' = end_offset (block_offset y) ps" "pieces_of False (drop n data) ps"
      using "1.IH" [OF x_def a_def n_def refl t_def refl e [symmetric] refl _ "1.prems"(1)] y(1) by blast
    have "ps \<noteq> []" using IH(5) by auto
    have "pieces_of first data ((padding (block_offset w), t, take n data) # ps)"
      using IH(5) \<open>ps \<noteq> []\<close> True n by (auto simp: t_def)
    then show ?thesis
      using IH True step y x fits t "1.prems"(2) n
      by (intro exI [of _ w'] exI [of _ "(padding (block_offset w), t, take n data) # ps"]) (simp add: piece_bytes_def)
  qed
qed

lemma AddRecord_layout:
  assumes "reliable E" "block_offset w \<le> kBlockSize"
  shows "\<exists>w' ps. AddRecord E data w = (OK, w') \<and> contents (dest w') = contents (dest w) @ log_layout ps \<and>
    placed (block_offset w) ps \<and> block_offset w' = end_offset (block_offset w) ps \<and> pieces_of True data ps"
  using add_loop_layout [OF assms, of True data] by (simp add: AddRecord_def)

subsection \<open>The physical reader\<close>

lemma byte_word:
  "ucast (word_of_nat m AND 0xff :: u8) AND (0xff :: u32) = word_of_nat (m mod 256)"
  "ucast (word_of_nat m :: u8) AND (0xff :: u32) = word_of_nat (m mod 256)"
proof -
  have "(0xff :: u8) = -1" by simp
  then have ff: "w AND 0xff = w" for w :: u8 by (metis and.right_neutral)
  have u: "ucast (word_of_nat m :: u8) = (word_of_nat (m mod 256) :: u32)"
    by (rule word_unat_eq_iff [THEN iffD2]) (simp add: unsigned_ucast_eq unsigned_of_nat take_bit_nat_def mod_less_eq_dividend)
  have t: "ucast w AND (0xff :: u32) = ucast w" for w :: u8
    unfolding and_ff by (rule bit_eqI) (use bit_imp_le_length [of w] in \<open>auto simp: bit_simps\<close>)
  show "ucast (word_of_nat m AND 0xff :: u8) AND (0xff :: u32) = word_of_nat (m mod 256)"
    "ucast (word_of_nat m :: u8) AND (0xff :: u32) = word_of_nat (m mod 256)" by (metis ff t u)+
qed

lemma header_length:
  assumes "n < 65536"
  shows "unat (ucast (word_of_nat n AND 0xff :: u8) AND 0xff OR push_bit 8 (ucast (word_of_nat (n div 256) :: u8) AND 0xff) :: u32) = n"
proof -
  have d: "n div 256 mod 256 = n div 256" using assms by simp
  have "unat (word_of_nat (n mod 256) :: u32) < 2 ^ 8" by (simp add: unat_of_nat)
  then have "word_of_nat (n mod 256) OR push_bit 8 (word_of_nat (n div 256)) = (word_of_nat (n mod 256 + 256 * (n div 256)) :: u32)"
    unfolding of_nat_add of_nat_mult by (simp add: or_shifted)
  then show ?thesis using assms unfolding byte_word d by (simp add: unat_of_nat)
qed

lemma type_signed: "t \<in> {1, 2, 3, 4, 5} \<Longrightarrow> scast (ucast (t :: u32) :: u8) = t"
  by auto

lemma nth_phys: "(phys t d @ rest) ! 4 = word_of_nat (length d) AND 0xff" "(phys t d @ rest) ! 5 = word_of_nat (length d div 256)"
    "(phys t d @ rest) ! 6 = ucast t"
  by (simp_all add: phys_def nth_append)

lemma take_phys: "take (1 + length d) (drop 6 (phys t d @ rest)) = ucast t # d"
    "take (length d) (drop kHeaderSize (phys t d @ rest)) = d" "drop (kHeaderSize + length d) (phys t d @ rest) = rest"
  by (simp add: phys_def, simp add: phys_def kHeaderSize_def, simp add: drop_append)

lemma crc_phys: "Unmask (DecodeFixed32 (phys t d @ rest)) = crc32c 0 (ucast t # d)"
  by (simp add: phys_def)

lemma parse_whole:
  assumes "reliable E" "buffer r = phys t d @ rest" "t \<in> {1, 2, 3, 4, 5}" "length d < 65536" "initial_offset r = 0"
  shows "parse_physical E f r = (t, d, r\<lparr>buffer := rest\<rparr>)"
proof -
  have "t \<noteq> kZeroType" using assms(3) by (auto simp: kZeroType_def)
  moreover have "crc32c_Value (accel E) (addr_of E (drop 6 (phys t d @ rest))) (ucast t # d) = crc32c 0 (ucast t # d)"
    using assms(1) by (simp add: crc32c_Value_def Extend_crc32c reliable_def)
  ultimately show ?thesis
    using header_length [OF assms(4)] type_signed [OF assms(3)]
    unfolding parse_physical_def Let_def assms(2) nth_phys
    by (simp only: take_phys crc_phys) (simp add: assms(2,5) take_phys)
qed

text \<open>
  The reader stands \<open>bo\<close> bytes into a block and has the bytes \<open>s\<close> ahead. Nothing was dropped, and the
  buffer is the rest of the block unless the file has ended.
\<close>

definition reading :: "nat \<Rightarrow> u8 list \<Rightarrow> log_reader \<Rightarrow> bool" where
  "reading bo s r \<longleftrightarrow> bo \<le> kBlockSize \<and> buffer r @ file_rest r = s \<and> length (buffer r) \<le> kBlockSize - bo \<and>
     (if eof r then file_rest r = [] else length (buffer r) = kBlockSize - bo) \<and>
     \<not> resyncing r \<and> initial_offset r = 0 \<and> reports r = []"

lemma read_block_reading:
  assumes "reliable E" "reading bo s r" "\<not> eof r" "length (buffer r) < kHeaderSize"
  shows "\<exists>r'. read_block E r = (True, r') \<and> reading 0 (drop (length (buffer r)) s) r' \<and>
    (eof r' \<or> kHeaderSize \<le> length (buffer r'))"
  using assms
  by (auto simp: read_block_def reading_def reliable_def Let_def kBlockSize_def kHeaderSize_def)

lemma placed_aligned: "placed (aligned bo) ((0, t, d) # ps) \<longleftrightarrow> placed bo ((padding bo, t, d) # ps)" if "bo \<le> kBlockSize"
proof -
  have "aligned (aligned bo) = aligned bo" "padding (aligned bo) = 0" "aligned bo \<le> kBlockSize"
    using that by (auto simp: aligned_def padding_def kBlockSize_def kHeaderSize_def)
  then show ?thesis using that by simp
qed

text \<open>The reader at the front of a piece that has no padding, with a header to parse.\<close>

lemma read_front:
  assumes "reliable E" "reading bo (take n (log_layout ((0, t, d) # ps))) r" "placed bo ((0, t, d) # ps)"
    "eof r \<or> kHeaderSize \<le> length (buffer r)" "kBlockSize - bo \<ge> kHeaderSize"
  shows "if kHeaderSize + length d \<le> n
    then \<exists>r'. ReadPhysicalRecord E f r = (t, d, r') \<and>
      reading (bo + kHeaderSize + length d) (take (n - (kHeaderSize + length d)) (log_layout ps)) r'
    else \<exists>r'. ReadPhysicalRecord E f r = (kEof, f, r') \<and> reports r' = []"
proof -
  let ?s = "take n (phys t d @ log_layout ps)"
  have s: "buffer r @ file_rest r = ?s" using assms(2) by (simp add: reading_def piece_bytes_def)
  have fits: "bo + kHeaderSize + length d \<le> kBlockSize" "t \<in> {1, 2, 3, 4}"
    using assms(3,5) by (auto simp: aligned_def)
  have d: "length d < 65536" "t \<in> {1, 2, 3, 4, 5}" using fits by (auto simp: kBlockSize_def)
  note t5 = d(2) and d = d(1)
  show ?thesis
  proof (cases "kHeaderSize + length d \<le> n")
    case True
    have st: "?s = phys t d @ take (n - (kHeaderSize + length d)) (log_layout ps)" using True by simp
    have "length (phys t d) \<le> length (buffer r)"
    proof (cases "eof r")
      case True
      then have "buffer r = ?s" using assms(2) s by (simp add: reading_def)
      then show ?thesis unfolding st by simp
    next
      case False
      then show ?thesis using assms(2) fits by (simp add: reading_def)
    qed
    moreover obtain us where us: "(buffer r = phys t d @ us \<and> us @ file_rest r = take (n - (kHeaderSize + length d)) (log_layout ps)) \<or>
        (buffer r @ us = phys t d \<and> file_rest r = us @ take (n - (kHeaderSize + length d)) (log_layout ps))"
      using s unfolding st append_eq_append_conv2 by auto
    moreover have "length (buffer r) + length us = length (phys t d) \<Longrightarrow> length (phys t d) \<le> length (buffer r) \<Longrightarrow> us = []" by (cases us) auto
    ultimately have "\<exists>rest. buffer r = phys t d @ rest \<and> rest @ file_rest r = take (n - (kHeaderSize + length d)) (log_layout ps)"
      by (metis append_Nil append_Nil2 length_append)
    then obtain rest where rest: "buffer r = phys t d @ rest" "rest @ file_rest r = take (n - (kHeaderSize + length d)) (log_layout ps)"
      by blast
    have "ReadPhysicalRecord E f r = (t, d, r\<lparr>buffer := rest\<rparr>)"
      using parse_whole [OF assms(1) rest(1) t5 d] assms(2)
      by (simp add: ReadPhysicalRecord.simps [of E f r] rest(1) reading_def)
    then show ?thesis using True assms(2) fits rest by (auto simp: reading_def)
  next
    case False
    have sl: "?s = take n (phys t d)" "length ?s = n" using False by simp_all
    have e: "eof r"
    proof (rule ccontr)
      assume "\<not> eof r"
      then have "kHeaderSize + length d \<le> length (buffer r)" using assms(2) fits by (simp add: reading_def)
      then show False using False sl(2) unfolding s [symmetric] by simp
    qed
    then have b: "buffer r = take n (phys t d)" using assms(2) s unfolding sl by (simp add: reading_def)
    have r: "reports r = []" using assms(2) by (simp add: reading_def)
    show ?thesis
    proof (cases "n < kHeaderSize")
      case True
      then show ?thesis using False e b r by (simp add: ReadPhysicalRecord.simps [of E f r])
    next
      case n: False
      have h: "buffer r ! 4 = word_of_nat (length d) AND 0xff" "buffer r ! 5 = word_of_nat (length d div 256)"
        unfolding b using n nth_phys(1,2) [of t d "[]"] by (simp_all add: kHeaderSize_def)
      have "parse_physical E f r = (kEof, f, r\<lparr>buffer := []\<rparr>)"
        using False e b unfolding parse_physical_def Let_def h header_length [OF d] by simp
      then show ?thesis using False n b r by (simp add: ReadPhysicalRecord.simps [of E f r])
    qed
  qed
qed

text \<open>The reader anywhere before a piece, and at the end of the file.\<close>

lemma read_piece:
  assumes "reliable E" "reading bo (take n (log_layout ((pad, t, d) # ps))) r" "placed bo ((pad, t, d) # ps)"
  shows "if pad + kHeaderSize + length d \<le> n
    then \<exists>r'. ReadPhysicalRecord E f r = (t, d, r') \<and>
      reading (aligned bo + kHeaderSize + length d) (take (n - (pad + kHeaderSize + length d)) (log_layout ps)) r'
    else \<exists>r'. ReadPhysicalRecord E f r = (kEof, f, r') \<and> reports r' = []"
proof -
  have bo: "bo \<le> kBlockSize" "pad = padding bo" using assms(3) by auto
  have al: "kBlockSize - aligned bo \<ge> kHeaderSize" by (auto simp: aligned_def kBlockSize_def kHeaderSize_def)
  have pl: "placed (aligned bo) ((0, t, d) # ps)" using assms(3) placed_aligned [OF bo(1), of t d ps] unfolding bo(2) by blast
  have r: "reports r = []" using assms(2) by (simp add: reading_def)
  consider "kHeaderSize \<le> kBlockSize - bo" "eof r \<or> kHeaderSize \<le> length (buffer r)"
    | "kBlockSize - bo < kHeaderSize" "eof r" | "\<not> eof r" "length (buffer r) < kHeaderSize"
    using assms(2) unfolding reading_def by (cases "eof r") (metis not_le, metis not_le)
  then show ?thesis
  proof cases
    case 1
    then have "pad = 0" "aligned bo = bo" using bo by (auto simp: padding_def aligned_def)
    then show ?thesis using read_front [OF assms(1) _ _ 1(2), of bo n t d ps f] assms(2,3) 1(1) by simp
  next
    case 2
    then have b: "length (buffer r) < kHeaderSize" "file_rest r = []" using assms(2) by (auto simp: reading_def)
    have "\<not> pad + kHeaderSize + length d \<le> n"
    proof
      assume "pad + kHeaderSize + length d \<le> n"
      moreover have "length (buffer r) = length (take n (log_layout ((pad, t, d) # ps)))"
        using assms(2) b(2) by (metis append_Nil2 reading_def)
      ultimately show False using b(1) by (simp add: piece_bytes_def)
    qed
    then show ?thesis using b 2 r by (simp add: ReadPhysicalRecord.simps [of E f r])
  next
    case 3
    obtain r1 where r1: "read_block E r = (True, r1)"
      "reading 0 (drop (length (buffer r)) (take n (log_layout ((pad, t, d) # ps)))) r1" "eof r1 \<or> kHeaderSize \<le> length (buffer r1)"
      using read_block_reading [OF assms(1,2) 3] by blast
    have lb: "length (buffer r) = kBlockSize - bo" using assms(2) 3(1) by (simp add: reading_def)
    then have p: "pad = length (buffer r)" "aligned bo = 0" using 3(2) bo by (auto simp: padding_def aligned_def)
    have "pad \<le> n"
      using assms(2) p(1) length_append [of "buffer r" "file_rest r"] by (auto simp: reading_def)
    have "drop (length (buffer r)) (take n (log_layout ((pad, t, d) # ps))) = take (n - pad) (log_layout ((0, t, d) # ps))"
      by (simp only: p(1) [symmetric] drop_take) (simp add: piece_bytes_def)
    then show ?thesis
      using read_front [OF assms(1) _ _ r1(3), of 0 "n - pad" t d ps f] r1 pl p(2) 3 \<open>pad \<le> n\<close> al
      by (simp add: ReadPhysicalRecord.simps [of E f r] le_diff_conv2 add.commute add.left_commute split: if_splits)
  qed
qed

lemma read_end:
  assumes "reliable E" "reading bo [] r"
  shows "\<exists>r'. ReadPhysicalRecord E f r = (kEof, f, r') \<and> reports r' = []"
proof -
  have b: "buffer r = []" "reports r = []" using assms(2) by (auto simp: reading_def)
  show ?thesis
  proof (cases "eof r")
    case True
    then show ?thesis using b by (simp add: ReadPhysicalRecord.simps [of E f r] kHeaderSize_def)
  next
    case False
    obtain r1 where r1: "read_block E r = (True, r1)" "reading 0 [] r1"
      using read_block_reading [OF assms False] b by (auto simp: kHeaderSize_def)
    then have "eof r1" "buffer r1 = []" "reports r1 = []" by (auto simp: reading_def kBlockSize_def split: if_splits)
    then show ?thesis using False b r1
      by (simp add: ReadPhysicalRecord.simps [of E f r] ReadPhysicalRecord.simps [of E f r1] kHeaderSize_def)
  qed
qed

subsection \<open>Logical records\<close>

lemma record_turn_pieces:
  assumes "\<not> resyncing r"
  shows
    "record_turn False p sc kFullType d r =
      Return True d [] (r\<lparr>resyncing := False, last_record_offset := end_of_buffer_offset r - word_of_nat (length (buffer r)) -
        word_of_nat kHeaderSize - word_of_nat (length d)\<rparr>)"
    "record_turn False p sc kFirstType d r =
      Again True (end_of_buffer_offset r - word_of_nat (length (buffer r)) - word_of_nat kHeaderSize - word_of_nat (length d)) d
        (r\<lparr>resyncing := False\<rparr>)"
    "record_turn True p sc kMiddleType d r = Again True p (sc @ d) (r\<lparr>resyncing := False\<rparr>)"
    "record_turn True p sc kLastType d r =
      Return True (sc @ d) (sc @ d) (r\<lparr>resyncing := False, last_record_offset := p\<rparr>)"
    "record_turn i p sc kEof d r = Return False [] (if i then [] else sc) (r\<lparr>resyncing := False\<rparr>)"
  using assms by (simp_all add: record_turn_def Let_def type_defs)

lemma reading_update:
  "reading bo s r \<Longrightarrow> reading bo s (r\<lparr>resyncing := False\<rparr>)"
  "reading bo s r \<Longrightarrow> reading bo s (r\<lparr>resyncing := False, last_record_offset := x\<rparr>)"
  by (simp_all add: reading_def)

text \<open>A record all of whose pieces lie in the file is read; one that is cut off is not.\<close>

lemma record_loop_pieces:
  assumes "reliable E" "reading bo (take n (log_layout (ps @ qs))) r" "placed bo (ps @ qs)" "pieces_of (\<not> i) data ps"
    "\<not> i \<longrightarrow> sc = []"
  shows "if length (log_layout ps) \<le> n
    then \<exists>sc' r'. record_loop E i p f sc r = (True, sc @ data, sc', r') \<and>
      reading (end_offset bo ps) (take (n - length (log_layout ps)) (log_layout qs)) r'
    else \<exists>x sc' r'. record_loop E i p f sc r = (False, x, sc', r') \<and> reports r' = []"
  using assms(2-)
proof (induction ps arbitrary: bo n i p f sc r data)
  case Nil
  then show ?case by simp
next
  case (Cons q ps)
  obtain pad t d where q: "q = (pad, t, d)" by (cases q)
  let ?m = "pad + kHeaderSize + length d" and ?bo = "aligned bo + kHeaderSize + length d"
  have pl: "placed bo ((pad, t, d) # ps @ qs)" "placed ?bo (ps @ qs)" using Cons.prems(2) by (simp_all add: q)
  have rp: "if ?m \<le> n
    then \<exists>r'. ReadPhysicalRecord E f r = (t, d, r') \<and> reading ?bo (take (n - ?m) (log_layout (ps @ qs))) r'
    else \<exists>r'. ReadPhysicalRecord E f r = (kEof, f, r') \<and> reports r' = []"
    using read_piece [OF assms(1) _ pl(1), of n r f] Cons.prems(1) by (simp add: q)
  have ll: "length (log_layout (q # ps)) = ?m + length (log_layout ps)" by (simp add: q piece_bytes_def)
  show ?case
  proof (cases "?m \<le> n")
    case False
    then obtain r' where r': "ReadPhysicalRecord E f r = (kEof, f, r')" "reports r' = []" using rp by auto
    have "record_turn i p sc kEof f r' = Return False [] (if i then [] else sc) (r'\<lparr>resyncing := False\<rparr>)"
      by (simp add: record_turn_def Let_def type_defs)
    then show ?thesis using False r' ll by (auto simp: record_loop.simps [of E _ p f _ r])
  next
    case True
    then obtain r1 where r1: "ReadPhysicalRecord E f r = (t, d, r1)" "reading ?bo (take (n - ?m) (log_layout (ps @ qs))) r1"
      using rp by auto
    then have nr: "\<not> resyncing r1" by (simp add: reading_def)
    show ?thesis
    proof (cases "ps = []")
      case e: True
      show ?thesis
      proof (cases i)
        case True
        then show ?thesis
          using e r1 Cons.prems(3) reading_update(2) [OF r1(2)] \<open>?m \<le> n\<close> ll
          by (simp add: q record_loop.simps [of E _ p f _ r] record_turn_pieces [OF nr])
      next
        case False
        then show ?thesis
          using e r1 Cons.prems(3,4) reading_update(2) [OF r1(2)] \<open>?m \<le> n\<close> ll
          by (simp add: q record_loop.simps [of E _ p f _ r] record_turn_pieces [OF nr])
      qed
    next
      case ne: False
      have data: "pieces_of False (drop (length d) data) ps" "take (length d) data = d" using Cons.prems(3) ne by (auto simp: q)
      obtain p' sc' where turn: "record_loop E i p f sc r = record_loop E True p' d sc' (r1\<lparr>resyncing := False\<rparr>)"
        "sc' @ drop (length d) data = sc @ data"
      proof (cases i)
        case True
        then have "t = kMiddleType" using Cons.prems(3) ne by (simp add: q)
        then have "record_loop E i p f sc r = record_loop E True p d (sc @ d) (r1\<lparr>resyncing := False\<rparr>)"
          using True r1(1) by (simp add: record_loop.simps [of E _ p f _ r] record_turn_pieces [OF nr])
        then show ?thesis using that data(2) by (metis append_assoc append_take_drop_id)
      next
        case False
        then have "t = kFirstType" using Cons.prems(3) ne by (simp add: q)
        then obtain p' where "record_loop E i p f sc r = record_loop E True p' d d (r1\<lparr>resyncing := False\<rparr>)"
          using False r1(1) by (simp add: record_loop.simps [of E _ p f _ r] record_turn_pieces [OF nr])
        then show ?thesis using that data(2) Cons.prems(4) False by (metis append_Nil append_take_drop_id)
      qed
      have "length (log_layout (q # ps)) \<le> n \<longleftrightarrow> length (log_layout ps) \<le> n - ?m" using True ll by auto
      then show ?thesis
        using Cons.IH [OF reading_update(1) [OF r1(2)] pl(2), of True "drop (length d) data" sc' p' d] data(1) turn ll
        by (simp add: q split: if_splits)
    qed
  qed
qed

definition write_all :: "log_env \<Rightarrow> u8 list list \<Rightarrow> log_writer \<Rightarrow> log_writer" where
  "write_all E rs w = foldl (\<lambda>w d. snd (AddRecord E d w)) w rs"

text \<open>The bytes of a new log file after the records.\<close>

definition log_file :: "log_env \<Rightarrow> u8 list list \<Rightarrow> u8 list" where
  "log_file E rs = contents (dest (write_all E rs (Writer_new [] 0)))"

lemma write_all_layout:
  assumes "reliable E" "block_offset w \<le> kBlockSize"
  shows "\<exists>pss. list_all2 (pieces_of True) rs pss \<and> placed (block_offset w) (concat pss) \<and>
    (\<forall>k. contents (dest (write_all E (take k rs) w)) = contents (dest w) @ log_layout (concat (take k pss)))"
  using assms(2)
proof (induction rs arbitrary: w)
  case Nil
  then show ?case by (intro exI [of _ "[]"]) (simp add: write_all_def)
next
  case (Cons d rs)
  obtain w' ps where w': "AddRecord E d w = (OK, w')" "contents (dest w') = contents (dest w) @ log_layout ps"
    "placed (block_offset w) ps" "block_offset w' = end_offset (block_offset w) ps" "pieces_of True d ps"
    using AddRecord_layout [OF assms(1) Cons.prems] by blast
  obtain pss where pss: "list_all2 (pieces_of True) rs pss" "placed (block_offset w') (concat pss)"
    "\<And>k. contents (dest (write_all E (take k rs) w')) = contents (dest w') @ log_layout (concat (take k pss))"
    using Cons.IH [of w'] placed_end_le [OF w'(3)] w'(4) by auto
  have "contents (dest (write_all E (take k (d # rs)) w)) = contents (dest w) @ log_layout (concat (take k (ps # pss)))" for k
    using w' pss(3) by (cases k) (simp_all add: write_all_def)
  then show ?case using w' pss by (intro exI [of _ "ps # pss"]) simp
qed

lemma read_all_pieces:
  assumes "reliable E" "list_all2 (pieces_of True) rs pss" "placed bo (concat pss)" "reading bo (take n (log_layout (concat pss))) r"
  shows "\<exists>k r'. read_all E rec sc r = (take k rs, r') \<and> reports r' = [] \<and> k \<le> length rs \<and>
    length (log_layout (concat (take k pss))) \<le> n \<and> (k = length rs \<or> n < length (log_layout (concat (take (Suc k) pss))))"
  using assms(2-)
proof (induction rs pss arbitrary: bo n r rec sc rule: list_all2_induct)
  case Nil
  then have rd: "reading bo [] r" and i: "initial_offset r = 0" by (auto simp: reading_def split: if_splits)
  obtain r' where r': "ReadPhysicalRecord E [] r = (kEof, [], r')" "reports r' = []" using read_end [OF assms(1) rd] by blast
  have "record_turn False 0 [] kEof [] r' = Return False [] [] (r'\<lparr>resyncing := False\<rparr>)"
    by (simp add: record_turn_def Let_def type_defs)
  then show ?case using r' i by (simp add: read_all.simps [of E rec] ReadRecord_def record_loop.simps [of E])
next
  case (Cons d rs ps pss)
  have i: "initial_offset r = 0" using Cons.prems by (simp add: reading_def)
  have "if length (log_layout ps) \<le> n
    then \<exists>sc' r'. record_loop E False 0 [] [] r = (True, [] @ d, sc', r') \<and>
      reading (end_offset bo ps) (take (n - length (log_layout ps)) (log_layout (concat pss))) r'
    else \<exists>x sc' r'. record_loop E False 0 [] [] r = (False, x, sc', r') \<and> reports r' = []"
    using Cons.prems Cons.hyps(1) by (intro record_loop_pieces [OF assms(1), of bo]) simp_all
  note rl = this
  show ?case
  proof (cases "length (log_layout ps) \<le> n")
    case True
    then obtain sc' r1 where r1: "record_loop E False 0 [] [] r = (True, d, sc', r1)"
      "reading (end_offset bo ps) (take (n - length (log_layout ps)) (log_layout (concat pss))) r1" using rl by auto
    have "placed (end_offset bo ps) (concat pss)" using Cons.prems by simp
    then obtain k r' where k: "read_all E d sc' r1 = (take k rs, r')" "reports r' = []" "k \<le> length rs"
      "length (log_layout (concat (take k pss))) \<le> n - length (log_layout ps)"
      "k = length rs \<or> n - length (log_layout ps) < length (log_layout (concat (take (Suc k) pss)))"
      using Cons.IH [OF _ r1(2), of d sc'] by blast
    have "read_all E rec sc r = (take (Suc k) (d # rs), r')"
      using r1(1) k(1) i by (simp add: read_all.simps [of E rec] ReadRecord_def)
    then show ?thesis using k True by (intro exI [of _ "Suc k"] exI [of _ r']) auto
  next
    case False
    then obtain x sc' r' where "record_loop E False 0 [] [] r = (False, x, sc', r')" "reports r' = []" using rl by auto
    then have "read_all E rec sc r = ([], r')" using i by (simp add: read_all.simps [of E rec] ReadRecord_def)
    then show ?thesis using False \<open>reports r' = []\<close> by (intro exI [of _ 0] exI [of _ r']) simp
  qed
qed

lemma reading_new: "reading kBlockSize s (Reader_new s rep c 0)"
  by (simp add: reading_def Reader_new_def)

lemma placed_start: "placed kBlockSize ps \<longleftrightarrow> placed 0 ps"
  by (cases "(0 :: nat, ps)" rule: placed.cases) (auto simp: padding_def aligned_def kBlockSize_def kHeaderSize_def)

lemma log_clean_prefix:
  assumes "reliable E"
  shows "\<exists>k r'. read_all E record scratch (Reader_new (take n (log_file E rs)) rep c 0) = (take k rs, r') \<and> reports r' = [] \<and>
    k \<le> length rs \<and> length (log_file E (take k rs)) \<le> n \<and> (k = length rs \<or> n < length (log_file E (take (Suc k) rs)))"
proof -
  let ?w = "Writer_new [] 0"
  obtain pss where pss: "list_all2 (pieces_of True) rs pss" "placed 0 (concat pss)"
    "\<And>k. log_file E (take k rs) = log_layout (concat (take k pss))"
    using write_all_layout [OF assms, of ?w rs] by (auto simp: Writer_new_def log_file_def)
  have "log_file E rs = log_layout (concat pss)"
    using pss(3) [of "length rs"] list_all2_lengthD [OF pss(1)] by simp
  moreover have "placed kBlockSize (concat pss)" using pss(2) placed_start by simp
  ultimately show ?thesis
    using read_all_pieces [where rec = "record" and sc = scratch and n = n and r = "Reader_new (take n (log_layout (concat pss))) rep c 0",
        OF assms pss(1) _ reading_new] pss(3) by simp
qed

text \<open>C12: A crash may cut the log file anywhere. Recovery then returns, in order and unchanged, exactly the
  records whose bytes had all reached the file, with no corruption reported, whether checksums are
  verified or not; a file that is whole gives back every record.\<close>

theorem log_crash_recovery:
  assumes "reliable E"
  shows "\<exists>k r'. read_all E record scratch (Reader_new (take n (log_file E rs)) rep c 0) = (take k rs, r') \<and> reports r' = [] \<and>
    k \<le> length rs \<and> length (log_file E (take k rs)) \<le> n \<and> (k = length rs \<or> n < length (log_file E (take (Suc k) rs)))"
  using assms by (rule log_clean_prefix)

text \<open>A cut in the middle of the second of three records.\<close>

definition plain_env :: log_env where
  "plain_env = \<lparr>op_ok = \<lambda>_. True, op_part = \<lambda>_. 0, accel = \<lambda>_ _. 0, addr_of = \<lambda>_. 0\<rparr>"

lemma plain_env_reliable: "reliable plain_env"
  by (simp add: reliable_def plain_env_def accel_correct_def)

lemma log_crash_recovery_witness:
  "\<exists>k r'. read_all plain_env [] [] (Reader_new (take 11 (log_file plain_env [[1], [2, 3], [4]])) True True 0) =
      (take k [[1], [2, 3], [4]], r') \<and> reports r' = [] \<and>
    k \<le> length [[1], [2, 3], [4 :: u8]] \<and> length (log_file plain_env (take k [[1], [2, 3], [4]])) \<le> 11 \<and>
    (k = length [[1], [2, 3], [4 :: u8]] \<or> 11 < length (log_file plain_env (take (Suc k) [[1], [2, 3], [4]])))"
  by (rule log_crash_recovery [OF plain_env_reliable])

subsection \<open>What the log does not notice\<close>

text \<open>C37: The special values that the physical reader returns share the range of the type byte: a record
  whose type byte is 5, with a checksum that is right, ends the log with all that follows it, and
  nothing is reported (a type byte 7 is reported as an unknown record).\<close>

theorem type_5_ends_log:
  assumes "reliable E" "length d \<le> 1000"
  shows "\<exists>r'. ReadRecord E record scratch (Reader_new (phys 5 d @ rest) rep c 0) = (False, [], [], r') \<and> reports r' = []"
proof -
  let ?r = "Reader_new (phys 5 d @ rest) rep c 0"
  obtain r1 where r1: "read_block E ?r = (True, r1)" "reading 0 (phys 5 d @ rest) r1"
    "eof r1 \<or> kHeaderSize \<le> length (buffer r1)"
    using read_block_reading [OF assms(1) reading_new, of "phys 5 d @ rest" rep c] by (auto simp: Reader_new_def kHeaderSize_def)
  have rd: "reading 0 (phys 5 d @ rest) r1" by (rule r1(2))
  have "length (phys 5 d) \<le> length (buffer r1)"
    using rd assms(2) by (auto simp: reading_def kBlockSize_def kHeaderSize_def split: if_splits dest: arg_cong [where f = length])
  then obtain rest' where b: "buffer r1 = phys 5 d @ rest'"
    using rd unfolding reading_def by (metis append_eq_append_conv_if append_take_drop_id)
  have "parse_physical E [] r1 = (kEof, d, r1\<lparr>buffer := rest'\<rparr>)"
    using parse_whole [OF assms(1) b, of "[]"] assms(2) rd by (simp add: reading_def type_defs)
  then have "ReadPhysicalRecord E [] ?r = (kEof, d, r1\<lparr>buffer := rest'\<rparr>)"
    using r1(1) b by (simp add: ReadPhysicalRecord.simps [of E "[]"] Reader_new_def kHeaderSize_def)
  then show ?thesis
    using rd by (simp add: ReadRecord_def Reader_new_def record_loop.simps [of E] record_turn_def Let_def type_defs reading_def)
qed

lemma type_5_ends_log_witness:
  "\<exists>r'. ReadRecord plain_env [] [] (Reader_new (phys 5 [1] @ phys kFullType [2]) True True 0) = (False, [], [], r') \<and> reports r' = []"
  using type_5_ends_log [OF plain_env_reliable, of "[1]"] by simp

text \<open>C38: The writer does not look at the result of appending the trailer: when it fails, the record is
  still acknowledged, and from there on the writer takes its place in the block to be up to six bytes
  further than it is.\<close>

theorem lost_trailer_acknowledged:
  assumes "accel_correct (accel E)" "op_ok E = (\<lambda>n. n \<noteq> file_ops (dest w))" "op_part E (file_ops (dest w)) = 0"
    "0 < kBlockSize - block_offset w" "kBlockSize - block_offset w < kHeaderSize" "length d \<le> 1000"
  shows "\<exists>w'. AddRecord E d w = (OK, w') \<and> contents (dest w') = contents (dest w) @ phys kFullType d \<and>
    block_offset w' = kHeaderSize + length d"
proof -
  let ?w = "fill_trailer E w" and ?n = "file_ops (dest w)"
  have f: "contents (dest ?w) = contents (dest w)" "file_ops (dest ?w) = Suc ?n" "block_offset ?w = 0"
    using assms(2-5) by (simp_all add: fill_trailer_def Let_def dest_Append_def)
  have crc: "Extend (accel E) a (type_crc E t) d = crc32c 0 (ucast t # d)" for a t
    using assms(1) crc32c_append [of 0 "[ucast t]" d] by (simp add: type_crc_def crc32c_Value_def Extend_crc32c)
  have e: "EmitPhysicalRecord E kFullType d ?w =
    (OK, ?w\<lparr>dest := \<lparr>contents = contents (dest w) @ phys kFullType d, file_ops = ?n + 4\<rparr>, block_offset := kHeaderSize + length d\<rparr>)"
    using f assms(2) by (simp add: EmitPhysicalRecord_def Let_def dest_Append_def dest_Flush_def crc phys_def)
  have "kBlockSize - block_offset ?w - kHeaderSize = 32761" using f(3) by (simp add: kBlockSize_def kHeaderSize_def)
  then show ?thesis using e assms(6) by (simp add: AddRecord_def add_loop.simps [of E True] Let_def)
qed

lemma lost_trailer_acknowledged_witness:
  "\<exists>w'. AddRecord (plain_env\<lparr>op_ok := \<lambda>n. n \<noteq> 0\<rparr>) [7] \<lparr>dest = \<lparr>contents = [], file_ops = 0\<rparr>, block_offset = 32765\<rparr> = (OK, w') \<and>
    contents (dest w') = phys kFullType [7] \<and> block_offset w' = 8"
  using lost_trailer_acknowledged [of "plain_env\<lparr>op_ok := \<lambda>n. n \<noteq> 0\<rparr>" "\<lparr>dest = \<lparr>contents = [], file_ops = 0\<rparr>, block_offset = 32765\<rparr>" "[7]"]
  by (simp add: plain_env_def accel_correct_def kBlockSize_def kHeaderSize_def)

end
