(* ===== verification/Ldb_Format.thy ===== *)
theory Ldb_Format
  imports Ldb_Coding Comparator Mem
begin

text \<open>
  include/leveldb/slice.h (\<open>compare\<close>), util/comparator.cc, db/dbformat.h and db/dbformat.cc of
  leveldb: user keys, the internal keys that append a sequence number and a type to them, and their
  orders. A comparator object is the record of its operations; \<open>memcmp\<close> is known by its sign.
\<close>

subsection \<open>Slices and the bytewise comparator\<close>

definition Slice_compare :: "u8 list \<Rightarrow> u8 list \<Rightarrow> int" where
  "Slice_compare a b =
     (let min_len = (if length a < length b then length a else length b);
          r = memcmp_sgn (take min_len a) (take min_len b)
      in if r = 0 then (if length a < length b then -1 else if length b < length a then 1 else r) else r)"

text \<open>The index of the first difference, at most \<open>min_length\<close>.\<close>

fun diff_index :: "u8 list \<Rightarrow> u8 list \<Rightarrow> nat" where
  "diff_index (x # a) (y # b) = (if x = y then Suc (diff_index a b) else 0)"
| "diff_index _ _ = 0"

definition Bytewise_FindShortestSeparator :: "u8 list \<Rightarrow> u8 list \<Rightarrow> u8 list" where
  "Bytewise_FindShortestSeparator start limit =
     (let min_length = min (length start) (length limit);
          i = diff_index start limit
      in if min_length \<le> i then start
         else
           (let diff_byte = start ! i
            in if diff_byte < 0xff \<and> unat diff_byte + 1 < unat (limit ! i)
               then take (i + 1) (start[i := start ! i + 1]) else start))"

fun Bytewise_FindShortSuccessor :: "u8 list \<Rightarrow> u8 list" where
  "Bytewise_FindShortSuccessor [] = []"
| "Bytewise_FindShortSuccessor (byte # key) =
     (if byte \<noteq> 0xff then [byte + 1] else byte # Bytewise_FindShortSuccessor key)"

record comparator_ops =
  compare_keys :: "u8 list \<Rightarrow> u8 list \<Rightarrow> int"
  shortest_separator :: "u8 list \<Rightarrow> u8 list \<Rightarrow> u8 list"
  short_successor :: "u8 list \<Rightarrow> u8 list"

definition BytewiseComparator :: comparator_ops where
  "BytewiseComparator = \<lparr>compare_keys = Slice_compare, shortest_separator = Bytewise_FindShortestSeparator,
     short_successor = Bytewise_FindShortSuccessor\<rparr>"

subsection \<open>Internal keys\<close>

definition kTypeDeletion :: u8 where "kTypeDeletion = 0"
definition kTypeValue :: u8 where "kTypeValue = 1"
definition kValueTypeForSeek :: u8 where "kValueTypeForSeek = kTypeValue"
definition kMaxSequenceNumber :: u64 where "kMaxSequenceNumber = push_bit 56 1 - 1"

record parsed_key =
  user_key :: "u8 list"
  sequence_number :: u64
  value_type :: u8

definition PackSequenceAndType :: "u64 \<Rightarrow> u8 \<Rightarrow> u64" where
  "PackSequenceAndType seq t = push_bit 8 seq OR ucast t"

definition AppendInternalKey :: "u8 list \<Rightarrow> parsed_key \<Rightarrow> u8 list" where
  "AppendInternalKey result key =
     PutFixed64 (result @ user_key key) (PackSequenceAndType (sequence_number key) (value_type key))"

definition InternalKeyEncodingLength :: "parsed_key \<Rightarrow> nat" where
  "InternalKeyEncodingLength key = length (user_key key) + 8"

definition ParseInternalKey :: "u8 list \<Rightarrow> parsed_key option" where
  "ParseInternalKey internal_key =
     (let n = length internal_key
      in if n < 8 then None
         else
           (let num = DecodeFixed64 (drop (n - 8) internal_key);
                c = (ucast (num AND 0xff) :: u8)
            in if c \<le> kTypeValue
               then Some \<lparr>user_key = take (n - 8) internal_key, sequence_number = drop_bit 8 num, value_type = c\<rparr>
               else None))"

definition ExtractUserKey :: "u8 list \<Rightarrow> u8 list" where
  "ExtractUserKey internal_key = take (length internal_key - 8) internal_key"

definition InternalKey :: "u8 list \<Rightarrow> u64 \<Rightarrow> u8 \<Rightarrow> u8 list" where
  "InternalKey user s t = AppendInternalKey [] \<lparr>user_key = user, sequence_number = s, value_type = t\<rparr>"

definition key_number :: "u8 list \<Rightarrow> u64" where
  "key_number akey = DecodeFixed64 (drop (length akey - 8) akey)"

definition InternalKey_Compare :: "comparator_ops \<Rightarrow> u8 list \<Rightarrow> u8 list \<Rightarrow> int" where
  "InternalKey_Compare C akey bkey =
     (let r = compare_keys C (ExtractUserKey akey) (ExtractUserKey bkey)
      in if r = 0 then
           (let anum = key_number akey; bnum = key_number bkey
            in if bnum < anum then -1 else if anum < bnum then 1 else r)
         else r)"

definition InternalKey_FindShortestSeparator :: "comparator_ops \<Rightarrow> u8 list \<Rightarrow> u8 list \<Rightarrow> u8 list" where
  "InternalKey_FindShortestSeparator C start limit =
     (let user_start = ExtractUserKey start;
          user_limit = ExtractUserKey limit;
          tmp = shortest_separator C user_start user_limit
      in if length tmp < length user_start \<and> compare_keys C user_start tmp < 0
         then PutFixed64 tmp (PackSequenceAndType kMaxSequenceNumber kValueTypeForSeek)
         else start)"

definition InternalKey_FindShortSuccessor :: "comparator_ops \<Rightarrow> u8 list \<Rightarrow> u8 list" where
  "InternalKey_FindShortSuccessor C key =
     (let user = ExtractUserKey key;
          tmp = short_successor C user
      in if length tmp < length user \<and> compare_keys C user tmp < 0
         then PutFixed64 tmp (PackSequenceAndType kMaxSequenceNumber kValueTypeForSeek)
         else key)"

text \<open>The key with which a memtable is searched: its bytes, and the start of the internal key in them.\<close>

record lookup_key =
  lookup_bytes :: "u8 list"
  kstart :: nat

definition LookupKey :: "u8 list \<Rightarrow> u64 \<Rightarrow> lookup_key" where
  "LookupKey user s =
     (let usize = length user;
          klength = EncodeVarint32 (word_of_nat usize + 8)
      in \<lparr>lookup_bytes = klength @ user @ EncodeFixed64 (PackSequenceAndType s kValueTypeForSeek), kstart = length klength\<rparr>)"

definition memtable_key :: "lookup_key \<Rightarrow> u8 list" where
  "memtable_key k = lookup_bytes k"

definition lookup_internal_key :: "lookup_key \<Rightarrow> u8 list" where
  "lookup_internal_key k = drop (kstart k) (lookup_bytes k)"

definition lookup_user_key :: "lookup_key \<Rightarrow> u8 list" where
  "lookup_user_key k = take (length (lookup_bytes k) - kstart k - 8) (drop (kstart k) (lookup_bytes k))"

subsection \<open>The bytewise order\<close>

lemma Slice_compare_simps [simp]:
  "Slice_compare [] [] = 0" "Slice_compare [] (y # b) = -1" "Slice_compare (x # a) [] = 1"
  "Slice_compare (x # a) (y # b) = (if x < y then -1 else if y < x then 1 else Slice_compare a b)"
  by (simp_all add: Slice_compare_def Let_def word_less_nat_alt)

lemma Slice_compare_zero [simp]: "Slice_compare a b = 0 \<longleftrightarrow> a = b"
  by (induction a b rule: list_induct2') auto

lemma Slice_compare_anti: "Slice_compare b a = - Slice_compare a b"
  by (induction a b rule: list_induct2') auto

lemma Slice_compare_trans: "Slice_compare a b \<le> 0 \<Longrightarrow> Slice_compare b c \<le> 0 \<Longrightarrow> Slice_compare a c \<le> 0"
proof (induction a b arbitrary: c rule: list_induct2')
  case (4 x a y b)
  then show ?case by (cases c) (auto split: if_splits)
next
  case (3 y b)
  then show ?case by (cases c) simp_all
qed simp_all

lemma Slice_compare_flip: "Slice_compare a b < 0 \<longleftrightarrow> 0 < Slice_compare b a"
  using Slice_compare_anti [of a b] by linarith

interpretation bytewise: comparator Slice_compare UNIV
proof unfold_locales
  show "(Slice_compare a b < 0) = (0 < Slice_compare b a)" for a b by (rule Slice_compare_flip)
  show "Slice_compare a c \<le> 0" if "Slice_compare a b \<le> 0" "Slice_compare b c \<le> 0" for a b c
    using Slice_compare_trans that by blast
qed

text \<open>What the shortened keys promise: they lie where the caller asked, and are no longer than the key.\<close>

lemma unat_byte_suc: "byte \<noteq> 0xff \<Longrightarrow> unat (byte + 1) = unat (byte :: u8) + 1"
  using unat_bound [of byte] by (auto simp: unat_word_ariths word_unat_eq_iff)

lemma separator_less:
  "diff_index a b < min (length a) (length b) \<Longrightarrow> a ! diff_index a b < 0xff \<Longrightarrow>
    unat (a ! diff_index a b) + 1 < unat (b ! diff_index a b) \<Longrightarrow>
    let s = take (diff_index a b + 1) (a[diff_index a b := a ! diff_index a b + 1])
    in Slice_compare a s < 0 \<and> Slice_compare s b < 0"
proof (induction a b rule: diff_index.induct)
  case (1 x a y b)
  show ?case
  proof (cases "x = y")
    case True
    then show ?thesis using 1 by (simp add: Let_def)
  next
    case False
    have "unat (x + 1) = unat x + 1" using 1(3) False by (intro unat_byte_suc) auto
    then show ?thesis using 1(2-) False by (simp add: Let_def word_less_nat_alt)
  qed
qed simp_all

lemma Bytewise_separator:
  assumes "Slice_compare start limit < 0"
  defines "s \<equiv> Bytewise_FindShortestSeparator start limit"
  shows "Slice_compare start s \<le> 0 \<and> Slice_compare s limit < 0 \<and> length s \<le> length start"
proof (cases "s = start")
  case True
  then show ?thesis using assms by simp
next
  case False
  let ?i = "diff_index start limit"
  have c: "?i < min (length start) (length limit)" "start ! ?i < 0xff" "unat (start ! ?i) + 1 < unat (limit ! ?i)"
    and s: "s = take (?i + 1) (start[?i := start ! ?i + 1])"
    using False unfolding s_def Bytewise_FindShortestSeparator_def Let_def by (auto split: if_splits)
  then show ?thesis using separator_less [OF c] by (simp add: Let_def)
qed

lemma Bytewise_successor:
  "Slice_compare key (Bytewise_FindShortSuccessor key) \<le> 0 \<and> length (Bytewise_FindShortSuccessor key) \<le> length key"
proof (induction key)
  case (Cons byte key)
  have "byte < byte + 1" if "byte \<noteq> 0xff"
    using unat_byte_suc [OF that] by (simp add: word_less_nat_alt)
  then show ?case using Cons by auto
qed simp

subsection \<open>Internal keys\<close>

lemma Decode_Encode64 [simp]: "DecodeFixed64 (EncodeFixed64 v) = v"
  using Fixed64_roundtrip(1) [of v "[]"] by simp

lemma InternalKey_bytes: "InternalKey u s t = u @ EncodeFixed64 (PackSequenceAndType s t)"
  by (simp add: InternalKey_def AppendInternalKey_def PutFixed64_def)

lemma internal_parts [simp]:
  "ExtractUserKey (u @ EncodeFixed64 v) = u" "key_number (u @ EncodeFixed64 v) = v"
  by (simp_all add: ExtractUserKey_def key_number_def)

lemma kMax_unat: "unat kMaxSequenceNumber = 2 ^ 56 - 1"
  by (simp add: kMaxSequenceNumber_def push_bit_eq_mult)

lemma Pack_unat: "s \<le> kMaxSequenceNumber \<Longrightarrow> unat (PackSequenceAndType s t) = unat s * 256 + unat t"
proof -
  assume s: "s \<le> kMaxSequenceNumber"
  have b: "unat s < 2 ^ 56" using s kMax_unat by (simp add: word_le_nat_alt)
  have "unat (ucast t :: u64) < 2 ^ 8" using unat_bound [of t] by simp
  then have "ucast t OR push_bit 8 (of_nat (unat s)) = (ucast t + 2 ^ 8 * of_nat (unat s) :: u64)" by (rule or_shifted)
  then have "PackSequenceAndType s t = ucast t + 256 * s" by (simp add: PackSequenceAndType_def or.commute)
  moreover have "unat t + 256 * unat s < 2 ^ 64" using b unat_bound [of t] by simp
  ultimately show ?thesis by (simp add: unat_word_ariths)
qed

lemma InternalKey_Compare_numbers:
  "InternalKey_Compare C (u @ EncodeFixed64 v) (u' @ EncodeFixed64 v') =
    (let r = compare_keys C u u' in if r = 0 then (if v' < v then -1 else if v < v' then 1 else 0) else r)"
  by (simp add: InternalKey_Compare_def Let_def)

lemma user_key_less:
  "compare_keys C (ExtractUserKey a) (ExtractUserKey b) < 0 \<Longrightarrow> InternalKey_Compare C a b < 0"
  by (simp add: InternalKey_Compare_def Let_def)

lemma internal_comparator:
  assumes "comparator (compare_keys C) UNIV"
  shows "comparator (InternalKey_Compare C) UNIV"
proof
  let ?u = "\<lambda>a b. compare_keys C (ExtractUserKey a) (ExtractUserKey b)"
  have u: "(?u a b < 0) = (0 < ?u b a)" "?u a b = 0 \<longleftrightarrow> ?u b a = 0" for a b
    using comparator.anti [OF assms] comparator.zero_sym [OF assms] by simp_all
  have le: "InternalKey_Compare C a b \<le> 0 \<longleftrightarrow> ?u a b < 0 \<or> (?u a b = 0 \<and> key_number b \<le> key_number a)"
    and ge: "0 < InternalKey_Compare C b a \<longleftrightarrow> \<not> InternalKey_Compare C b a \<le> 0"
    and less: "InternalKey_Compare C a b < 0 \<longleftrightarrow> ?u a b < 0 \<or> (?u a b = 0 \<and> key_number b < key_number a)" for a b
    by (auto simp: InternalKey_Compare_def Let_def)
  show "(InternalKey_Compare C a b < 0) = (0 < InternalKey_Compare C b a)" for a b
    unfolding ge le less using u [of a b] u [of b a] by auto
  show "InternalKey_Compare C a c \<le> 0" if "InternalKey_Compare C a b \<le> 0" "InternalKey_Compare C b c \<le> 0" for a b c
    using that comparator.less_le_trans [OF assms, of "ExtractUserKey a" "ExtractUserKey b" "ExtractUserKey c"]
      comparator.le_less_trans [OF assms, of "ExtractUserKey a" "ExtractUserKey b" "ExtractUserKey c"]
      comparator.trans [OF assms, of "ExtractUserKey a" "ExtractUserKey b" "ExtractUserKey c"]
      comparator.ge_trans [OF assms, of "ExtractUserKey a" "ExtractUserKey b" "ExtractUserKey c"]
    unfolding le by force
qed

interpretation internal: comparator "InternalKey_Compare BytewiseComparator" UNIV
  by (rule internal_comparator) (simp add: BytewiseComparator_def bytewise.comparator_axioms)

lemma ParseInternalKey_roundtrip:
  assumes "s \<le> kMaxSequenceNumber" "t \<le> kTypeValue"
  shows "ParseInternalKey (InternalKey u s t) = Some \<lparr>user_key = u, sequence_number = s, value_type = t\<rparr>"
proof -
  let ?p = "PackSequenceAndType s t"
  have p: "unat ?p = unat s * 256 + unat t" "unat t < 256" using Pack_unat [OF assms(1), of t] unat_bound [of t] by simp_all
  have "?p AND 0xff = take_bit 8 ?p" by (simp add: take_bit_eq_mask mask_eq_exp_minus_1)
  then have "unat (?p AND 0xff) = unat t" using p by (simp only: unsigned_take_bit_eq take_bit_nat_def) simp
  then have "unat (ucast (?p AND 0xff) :: u8) = unat t" using p(2) by (simp only: unat_ucast) simp
  moreover have "unat (drop_bit 8 ?p) = unat s" using p by (simp only: unat_drop_bit_eq drop_bit_nat_def) simp
  ultimately have c: "ucast (?p AND 0xff) = t" "drop_bit 8 ?p = s" by (metis word_unat_eq_iff)+
  show ?thesis using c assms(2) by (simp add: ParseInternalKey_def InternalKey_bytes Let_def)
qed

text \<open>Where a snapshot's search key stands: after the newer entries of the user key, before the others.\<close>

lemma seek_key_order:
  assumes "s \<le> kMaxSequenceNumber" "s' \<le> kMaxSequenceNumber" "t \<le> kTypeValue"
  shows "InternalKey_Compare BytewiseComparator (InternalKey u' s' t) (InternalKey u s kValueTypeForSeek) < 0 \<longleftrightarrow>
    Slice_compare u' u < 0 \<or> (u' = u \<and> s < s')"
  using Pack_unat [OF assms(1), of kValueTypeForSeek] Pack_unat [OF assms(2), of t] assms(3)
  by (simp add: InternalKey_bytes InternalKey_Compare_numbers BytewiseComparator_def Let_def word_less_nat_alt word_le_nat_alt
      kValueTypeForSeek_def kTypeValue_def)

text \<open>The separator that an index block stores between two internal keys lies between them, at or after
  the first and strictly before the second, and is no longer than the first: shortening the user key
  and putting the largest sequence number behind it never moves an entry to the wrong side.\<close>

theorem internal_separator_between:
  assumes "8 \<le> length start" "InternalKey_Compare BytewiseComparator start limit < 0"
  shows "InternalKey_Compare BytewiseComparator start (InternalKey_FindShortestSeparator BytewiseComparator start limit) \<le> 0 \<and>
    InternalKey_Compare BytewiseComparator (InternalKey_FindShortestSeparator BytewiseComparator start limit) limit < 0 \<and>
    length (InternalKey_FindShortestSeparator BytewiseComparator start limit) \<le> length start"
proof (cases "InternalKey_FindShortestSeparator BytewiseComparator start limit = start")
  case True
  then show ?thesis using assms(2) by simp
next
  case False
  define s where "s = InternalKey_FindShortestSeparator BytewiseComparator start limit"
  let ?us = "ExtractUserKey start" and ?ul = "ExtractUserKey limit"
  define tmp where "tmp = Bytewise_FindShortestSeparator ?us ?ul"
  have tmp: "length tmp < length ?us" "Slice_compare ?us tmp < 0"
    and s: "s = tmp @ EncodeFixed64 (PackSequenceAndType kMaxSequenceNumber kValueTypeForSeek)"
    using False unfolding s_def InternalKey_FindShortestSeparator_def Let_def BytewiseComparator_def tmp_def
    by (auto simp: PutFixed64_def split: if_splits)
  have "diff_index u u = length u" for u by (induction u) simp_all
  then have "tmp = ?us" if "?us = ?ul" using that by (simp add: tmp_def Bytewise_FindShortestSeparator_def Let_def)
  then have "?us \<noteq> ?ul" using tmp(1) by auto
  moreover have "Slice_compare ?us ?ul \<le> 0"
    using assms(2) by (auto simp: InternalKey_Compare_def Let_def BytewiseComparator_def split: if_splits)
  ultimately have "Slice_compare ?us ?ul < 0" using Slice_compare_zero [of ?us ?ul] by linarith
  then have "Slice_compare tmp ?ul < 0" using Bytewise_separator unfolding tmp_def by blast
  then have "InternalKey_Compare BytewiseComparator start s < 0" "InternalKey_Compare BytewiseComparator s limit < 0"
    using tmp(2) by (auto intro!: user_key_less simp: BytewiseComparator_def s)
  moreover have "length s \<le> length start" using tmp(1) assms(1) by (simp add: s ExtractUserKey_def)
  ultimately show ?thesis by (simp add: s_def)
qed

lemma internal_separator_between_witness:
  "InternalKey_FindShortestSeparator BytewiseComparator (InternalKey [1, 2, 3] 5 kTypeValue) (InternalKey [1, 7] 6 kTypeValue) =
      InternalKey [1, 3] kMaxSequenceNumber kValueTypeForSeek \<and>
    InternalKey_Compare BytewiseComparator (InternalKey [1, 3] kMaxSequenceNumber kValueTypeForSeek) (InternalKey [1, 7] 6 kTypeValue) < 0"
proof -
  let ?a = "InternalKey [1, 2, 3] 5 kTypeValue" and ?b = "InternalKey [1, 7] 6 kTypeValue"
  have "InternalKey_Compare BytewiseComparator ?a ?b < 0"
    unfolding InternalKey_bytes InternalKey_Compare_numbers by (simp add: BytewiseComparator_def Let_def)
  moreover have "8 \<le> length ?a" by (simp add: InternalKey_bytes)
  moreover have "InternalKey_FindShortestSeparator BytewiseComparator ?a ?b = InternalKey [1, 3] kMaxSequenceNumber kValueTypeForSeek"
    unfolding InternalKey_bytes InternalKey_FindShortestSeparator_def internal_parts
    by (simp add: BytewiseComparator_def Bytewise_FindShortestSeparator_def Let_def PutFixed64_def)
  ultimately show ?thesis using internal_separator_between [of ?a ?b] by simp
qed

lemma InternalKey_successor:
  assumes "8 \<le> length key"
  shows "InternalKey_Compare BytewiseComparator key (InternalKey_FindShortSuccessor BytewiseComparator key) \<le> 0 \<and>
    length (InternalKey_FindShortSuccessor BytewiseComparator key) \<le> length key"
proof (cases "InternalKey_FindShortSuccessor BytewiseComparator key = key")
  case False
  let ?tmp = "Bytewise_FindShortSuccessor (ExtractUserKey key)"
  have tmp: "length ?tmp < length (ExtractUserKey key)" "Slice_compare (ExtractUserKey key) ?tmp < 0"
    and s: "InternalKey_FindShortSuccessor BytewiseComparator key =
      ?tmp @ EncodeFixed64 (PackSequenceAndType kMaxSequenceNumber kValueTypeForSeek)"
    using False unfolding InternalKey_FindShortSuccessor_def Let_def BytewiseComparator_def
    by (auto simp: PutFixed64_def split: if_splits)
  have "InternalKey_Compare BytewiseComparator key (?tmp @ EncodeFixed64 v) < 0" for v
    using tmp(2) by (auto intro!: user_key_less simp: BytewiseComparator_def)
  moreover have "length ?tmp + 8 \<le> length key" using tmp(1) assms by (simp add: ExtractUserKey_def)
  ultimately show ?thesis unfolding s by (simp add: order.strict_implies_order)
qed simp

end
