(* ===== verification/Ldb_Skiplist.thy ===== *)
theory Ldb_Skiplist
  imports Comparator
begin

text \<open>
  db/skiplist.h and util/random.h of leveldb. The arena's nodes are a list, a \<open>Node*\<close> is an index into
  it, node 0 is \<open>head_\<close>. A link that was not set yet is \<open>None\<close>, the null pointer is \<open>Some None\<close>.
  A result \<open>None\<close> of an operation is undefined behaviour (a node or a link that does not exist is
  read, or one that was not set) or a search that does not end; the lemmas show that there is none.
\<close>

subsection \<open>Random numbers\<close>

definition Random_new :: "u32 \<Rightarrow> u32" where
  "Random_new s = (let seed = s AND 0x7fffffff in if seed = 0 \<or> seed = 2147483647 then 1 else seed)"

definition Random_Next :: "u32 \<Rightarrow> u32" where
  "Random_Next seed =
     (let M = 2147483647;
          product = ucast seed * 16807 :: u64;
          seed = ucast (drop_bit 31 product + (product AND 2147483647)) :: u32
      in if M < seed then seed - M else seed)"

definition Random_Uniform :: "nat \<Rightarrow> u32 \<Rightarrow> nat \<times> u32" where
  "Random_Uniform n seed = (let seed = Random_Next seed in (unat seed mod n, seed))"

definition Random_OneIn :: "nat \<Rightarrow> u32 \<Rightarrow> bool \<times> u32" where
  "Random_OneIn n seed = (let seed = Random_Next seed in (unat seed mod n = 0, seed))"

definition Random_Skewed :: "nat \<Rightarrow> u32 \<Rightarrow> nat \<times> u32" where
  "Random_Skewed max_log seed = (case Random_Uniform (max_log + 1) seed of (b, seed) \<Rightarrow> Random_Uniform (2 ^ b) seed)"

subsection \<open>The list\<close>

record 'k sl_node =
  node_key :: 'k
  next_links :: "nat option option list"

record 'k skiplist =
  nodes :: "'k sl_node list"
  max_height :: nat
  rnd :: u32

definition kMaxHeight :: nat where "kMaxHeight = 12"

definition Node_Next :: "'k skiplist \<Rightarrow> nat \<Rightarrow> nat \<Rightarrow> nat option option" where
  "Node_Next l x n =
     (if x < length (nodes l) \<and> n < length (next_links (nodes l ! x)) then next_links (nodes l ! x) ! n else None)"

definition Node_SetNext :: "nat \<Rightarrow> nat \<Rightarrow> nat option \<Rightarrow> 'k skiplist \<Rightarrow> 'k skiplist" where
  "Node_SetNext x n p l = l\<lparr>nodes := (nodes l)[x := (nodes l ! x)\<lparr>next_links := (next_links (nodes l ! x))[n := Some p]\<rparr>]\<rparr>"

definition NewNode :: "'k \<Rightarrow> nat \<Rightarrow> 'k skiplist \<Rightarrow> nat \<times> 'k skiplist" where
  "NewNode key height l = (length (nodes l), l\<lparr>nodes := nodes l @ [\<lparr>node_key = key, next_links = replicate height None\<rparr>]\<rparr>)"

definition SkipList_new :: "'k \<Rightarrow> 'k skiplist" where
  "SkipList_new any =
     (let (head, l) = NewNode any kMaxHeight \<lparr>nodes = [], max_height = 1, rnd = Random_new 0xdeadbeef\<rparr>
      in foldl (\<lambda>l i. Node_SetNext head i None l) l [0..<kMaxHeight])"

function random_height :: "nat \<Rightarrow> u32 \<Rightarrow> nat \<times> u32" where
  "random_height height seed =
     (if height < kMaxHeight
      then (let seed = Random_Next seed in if unat seed mod 4 = 0 then random_height (height + 1) seed else (height, seed))
      else (height, seed))"
  by pat_completeness auto
termination by (relation "measure (\<lambda>(height, seed). kMaxHeight - height)") auto

declare random_height.simps [simp del]

definition RandomHeight :: "u32 \<Rightarrow> nat \<times> u32" where
  "RandomHeight seed = random_height 1 seed"

text \<open>The key of a node that must exist.\<close>

definition key_of :: "'k skiplist \<Rightarrow> nat \<Rightarrow> 'k option" where
  "key_of l x = (if x < length (nodes l) then Some (node_key (nodes l ! x)) else None)"

definition KeyIsAfterNode :: "('k \<Rightarrow> 'k \<Rightarrow> int) \<Rightarrow> 'k skiplist \<Rightarrow> 'k \<Rightarrow> nat option \<Rightarrow> bool option" where
  "KeyIsAfterNode cmp l key n =
     (case n of None \<Rightarrow> Some False | Some n \<Rightarrow> map_option (\<lambda>k. cmp k key < 0) (key_of l n))"

partial_function (option) find_ge :: "('k \<Rightarrow> 'k \<Rightarrow> int) \<Rightarrow> 'k skiplist \<Rightarrow> 'k \<Rightarrow> nat \<Rightarrow> nat \<Rightarrow> nat option list option
    \<Rightarrow> (nat option \<times> nat option list option) option" where
  "find_ge cmp l key x level prev =
     (case Node_Next l x level of
        None \<Rightarrow> None
      | Some next \<Rightarrow>
          (case KeyIsAfterNode cmp l key next of
             None \<Rightarrow> None
           | Some after \<Rightarrow>
               if after then find_ge cmp l key (the next) level prev
               else if level = 0 then Some (next, map_option (\<lambda>p. p[level := Some x]) prev)
               else find_ge cmp l key x (level - 1) (map_option (\<lambda>p. p[level := Some x]) prev)))"

definition FindGreaterOrEqual :: "('k \<Rightarrow> 'k \<Rightarrow> int) \<Rightarrow> 'k skiplist \<Rightarrow> 'k \<Rightarrow> nat option list option
    \<Rightarrow> (nat option \<times> nat option list option) option" where
  "FindGreaterOrEqual cmp l key prev = find_ge cmp l key 0 (max_height l - 1) prev"

partial_function (option) find_lt :: "('k \<Rightarrow> 'k \<Rightarrow> int) \<Rightarrow> 'k skiplist \<Rightarrow> 'k \<Rightarrow> nat \<Rightarrow> nat \<Rightarrow> nat option" where
  "find_lt cmp l key x level =
     (case Node_Next l x level of
        None \<Rightarrow> None
      | Some None \<Rightarrow> if level = 0 then Some x else find_lt cmp l key x (level - 1)
      | Some (Some next) \<Rightarrow>
          (case key_of l next of
             None \<Rightarrow> None
           | Some k \<Rightarrow>
               if 0 \<le> cmp k key then (if level = 0 then Some x else find_lt cmp l key x (level - 1))
               else find_lt cmp l key next level))"

definition FindLessThan :: "('k \<Rightarrow> 'k \<Rightarrow> int) \<Rightarrow> 'k skiplist \<Rightarrow> 'k \<Rightarrow> nat option" where
  "FindLessThan cmp l key = find_lt cmp l key 0 (max_height l - 1)"

partial_function (option) find_last :: "'k skiplist \<Rightarrow> nat \<Rightarrow> nat \<Rightarrow> nat option" where
  "find_last l x level =
     (case Node_Next l x level of
        None \<Rightarrow> None
      | Some None \<Rightarrow> if level = 0 then Some x else find_last l x (level - 1)
      | Some (Some next) \<Rightarrow> find_last l next level)"

definition FindLast :: "'k skiplist \<Rightarrow> nat option" where
  "FindLast l = find_last l 0 (max_height l - 1)"

text \<open>Linking the new node \<open>x\<close> at one level: its own link first, then the one that publishes it.\<close>

definition link_level :: "nat option list \<Rightarrow> nat \<Rightarrow> 'k skiplist \<Rightarrow> nat \<Rightarrow> 'k skiplist option" where
  "link_level prev x l i =
     (case prev ! i of
        None \<Rightarrow> None
      | Some p \<Rightarrow>
          (case Node_Next l p i of
             None \<Rightarrow> None
           | Some n \<Rightarrow> Some (Node_SetNext p i (Some x) (Node_SetNext x i n l))))"

fun link_levels :: "nat option list \<Rightarrow> nat \<Rightarrow> nat list \<Rightarrow> 'k skiplist \<Rightarrow> 'k skiplist option" where
  "link_levels prev x [] l = Some l"
| "link_levels prev x (i # js) l = (case link_level prev x l i of None \<Rightarrow> None | Some l \<Rightarrow> link_levels prev x js l)"

definition Insert :: "('k \<Rightarrow> 'k \<Rightarrow> int) \<Rightarrow> 'k \<Rightarrow> 'k skiplist \<Rightarrow> 'k skiplist option" where
  "Insert cmp key l =
     (case FindGreaterOrEqual cmp l key (Some (replicate kMaxHeight None)) of
        Some (_, Some prev) \<Rightarrow>
          (let (height, seed) = RandomHeight (rnd l);
               l = l\<lparr>rnd := seed\<rparr>;
               (prev, l) =
                 (if max_height l < height
                  then (foldl (\<lambda>p i. p[i := Some 0]) prev [max_height l..<height], l\<lparr>max_height := height\<rparr>)
                  else (prev, l));
               (x, l) = NewNode key height l
           in link_levels prev x [0..<height] l)
      | _ \<Rightarrow> None)"

definition Contains :: "('k \<Rightarrow> 'k \<Rightarrow> int) \<Rightarrow> 'k skiplist \<Rightarrow> 'k \<Rightarrow> bool option" where
  "Contains cmp l key =
     (case FindGreaterOrEqual cmp l key None of
        None \<Rightarrow> None
      | Some (None, _) \<Rightarrow> Some False
      | Some (Some x, _) \<Rightarrow> map_option (\<lambda>k. cmp key k = 0) (key_of l x))"

subsection \<open>The iterator: its node\<close>

type_synonym sl_iter = "nat option"

definition Iter_new :: sl_iter where "Iter_new = None"

definition Iter_Valid :: "sl_iter \<Rightarrow> bool" where
  "Iter_Valid it \<longleftrightarrow> it \<noteq> None"

definition Iter_key :: "'k skiplist \<Rightarrow> sl_iter \<Rightarrow> 'k option" where
  "Iter_key l it = (case it of None \<Rightarrow> None | Some x \<Rightarrow> key_of l x)"

definition Iter_Next :: "'k skiplist \<Rightarrow> sl_iter \<Rightarrow> sl_iter option" where
  "Iter_Next l it = (case it of None \<Rightarrow> None | Some x \<Rightarrow> Node_Next l x 0)"

definition Iter_Prev :: "('k \<Rightarrow> 'k \<Rightarrow> int) \<Rightarrow> 'k skiplist \<Rightarrow> sl_iter \<Rightarrow> sl_iter option" where
  "Iter_Prev cmp l it =
     (case Iter_key l it of
        None \<Rightarrow> None
      | Some k \<Rightarrow> map_option (\<lambda>x. if x = 0 then None else Some x) (FindLessThan cmp l k))"

definition Iter_Seek :: "('k \<Rightarrow> 'k \<Rightarrow> int) \<Rightarrow> 'k skiplist \<Rightarrow> 'k \<Rightarrow> sl_iter option" where
  "Iter_Seek cmp l target = map_option fst (FindGreaterOrEqual cmp l target None)"

definition Iter_SeekToFirst :: "'k skiplist \<Rightarrow> sl_iter option" where
  "Iter_SeekToFirst l = Node_Next l 0 0"

definition Iter_SeekToLast :: "'k skiplist \<Rightarrow> sl_iter option" where
  "Iter_SeekToLast l = map_option (\<lambda>x. if x = 0 then None else Some x) (FindLast l)"

subsection \<open>The levels\<close>

text \<open>The nodes that follow \<open>x\<close> at a level, up to the null pointer, and a run of links without its end.\<close>

fun linked :: "'k skiplist \<Rightarrow> nat \<Rightarrow> nat \<Rightarrow> nat list \<Rightarrow> bool" where
  "linked l i x [] \<longleftrightarrow> Node_Next l x i = Some None"
| "linked l i x (y # ys) \<longleftrightarrow> Node_Next l x i = Some (Some y) \<and> linked l i y ys"

fun segment :: "'k skiplist \<Rightarrow> nat \<Rightarrow> nat \<Rightarrow> nat list \<Rightarrow> bool" where
  "segment l i x [] \<longleftrightarrow> True"
| "segment l i x (y # ys) \<longleftrightarrow> Node_Next l x i = Some (Some y) \<and> segment l i y ys"

lemma linked_append: "linked l i x (us @ vs) \<longleftrightarrow> segment l i x us \<and> linked l i (last (x # us)) vs"
  by (induction us arbitrary: x) auto

lemma linked_frame: "(\<And>b. b \<in> set (x # ys) \<Longrightarrow> Node_Next l' b i = Node_Next l b i) \<Longrightarrow> linked l' i x ys = linked l i x ys"
  by (induction ys arbitrary: x) auto

lemma segment_frame:
  "(\<And>b. b \<in> set (butlast (x # ys)) \<Longrightarrow> Node_Next l' b i = Node_Next l b i) \<Longrightarrow> segment l' i x ys = segment l i x ys"
  by (induction ys arbitrary: x) auto

abbreviation sl_key :: "'k skiplist \<Rightarrow> nat \<Rightarrow> 'k" where
  "sl_key l x \<equiv> node_key (nodes l ! x)"

text \<open>
  The invariant, which holds after every single store of \<open>Insert\<close>: \<open>ids\<close> are the nodes in the order of
  their keys, \<open>hh\<close> says at how many levels a node is linked, and the links of every level go through
  exactly the nodes that are linked there.
\<close>

definition skip_inv :: "('k \<Rightarrow> 'k \<Rightarrow> int) \<Rightarrow> 'k skiplist \<Rightarrow> nat list \<Rightarrow> (nat \<Rightarrow> nat) \<Rightarrow> bool" where
  "skip_inv cmp l ids hh \<longleftrightarrow>
     0 < length (nodes l) \<and> length (next_links (nodes l ! 0)) = kMaxHeight \<and> 0 < max_height l \<and> max_height l \<le> kMaxHeight \<and>
     sorted_wrt (\<lambda>a b. cmp (sl_key l a) (sl_key l b) < 0) ids \<and> distinct (0 # ids) \<and>
     (\<forall>a \<in> set ids. a < length (nodes l) \<and> hh a \<le> length (next_links (nodes l ! a)) \<and> hh a \<le> max_height l) \<and>
     (\<forall>i < kMaxHeight. linked l i 0 (filter (\<lambda>a. i < hh a) ids))"

lemma SetNext_simps [simp]:
  "length (nodes (Node_SetNext a i q l)) = length (nodes l)"
  "sl_key (Node_SetNext a i q l) b = sl_key l b"
  "length (next_links (nodes (Node_SetNext a i q l) ! b)) = length (next_links (nodes l ! b))"
  "max_height (Node_SetNext a i q l) = max_height l" "rnd (Node_SetNext a i q l) = rnd l"
  by (cases "a < length (nodes l)", auto simp: Node_SetNext_def nth_list_update list_update_beyond)+

lemma last_notin_butlast: "distinct xs \<Longrightarrow> xs \<noteq> [] \<Longrightarrow> last xs \<notin> set (butlast xs)"
  by (cases xs rule: rev_cases) auto

lemma Next_SetNext:
  "a < length (nodes l) \<Longrightarrow> i < length (next_links (nodes l ! a)) \<Longrightarrow>
    Node_Next (Node_SetNext a i q l) b j = (if b = a \<and> j = i then Some q else Node_Next l b j)"
  by (auto simp: Node_Next_def Node_SetNext_def nth_list_update)

definition node_nth :: "nat list \<Rightarrow> nat \<Rightarrow> sl_iter" where
  "node_nth ids j = (if j < length ids then Some (ids ! j) else None)"

text \<open>Between two operations every node is linked; \<open>ids\<close> are the nodes in the order of their keys.\<close>

definition lists_nodes :: "('k \<Rightarrow> 'k \<Rightarrow> int) \<Rightarrow> 'k skiplist \<Rightarrow> nat list \<Rightarrow> bool" where
  "lists_nodes cmp l ids \<longleftrightarrow> (\<exists>hh. skip_inv cmp l ids hh \<and> (\<forall>a \<in> set ids. 0 < hh a))"

definition represents :: "('k \<Rightarrow> 'k \<Rightarrow> int) \<Rightarrow> 'k skiplist \<Rightarrow> 'k list \<Rightarrow> bool" where
  "represents cmp l ks \<longleftrightarrow> (\<exists>ids. lists_nodes cmp l ids \<and> map (sl_key l) ids = ks)"

definition insert_key :: "('k \<Rightarrow> 'k \<Rightarrow> int) \<Rightarrow> 'k \<Rightarrow> 'k list \<Rightarrow> 'k list" where
  "insert_key cmp k ks = takeWhile (\<lambda>a. cmp a k < 0) ks @ k # dropWhile (\<lambda>a. cmp a k < 0) ks"

lemma random_height_bounds: "0 < n \<Longrightarrow> n \<le> kMaxHeight \<Longrightarrow> random_height n s = (h, s') \<Longrightarrow> 0 < h \<and> h \<le> kMaxHeight"
proof (induction n s arbitrary: h s' rule: random_height.induct)
  case (1 n s)
  then show ?case by (auto simp: random_height.simps [of n s] Let_def split: if_splits)
qed

lemma RandomHeight_bounds: "RandomHeight s = (h, s') \<Longrightarrow> 0 < h \<and> h \<le> kMaxHeight"
  using random_height_bounds [of 1 s h s'] by (simp add: RandomHeight_def kMaxHeight_def)

lemma foldl_head_length [simp]: "length (foldl (\<lambda>p i. p[i := Some (0 :: nat)]) p [m..<n]) = length p"
  by (induction n) auto

lemma foldl_head: "i < length p \<Longrightarrow> foldl (\<lambda>p i. p[i := Some 0]) p [m..<n] ! i = (if m \<le> i \<and> i < n then Some (0 :: nat) else p ! i)"
  by (induction n) (auto simp: nth_list_update not_le less_Suc_eq nth_append)

locale key_order = comparator cmp UNIV for cmp :: "'k \<Rightarrow> 'k \<Rightarrow> int"
begin

text \<open>The nodes before a key and the others.\<close>

definition before :: "'k skiplist \<Rightarrow> 'k \<Rightarrow> nat list \<Rightarrow> nat list" where
  "before l k ids = takeWhile (\<lambda>a. cmp (sl_key l a) k < 0) ids"

definition since :: "'k skiplist \<Rightarrow> 'k \<Rightarrow> nat list \<Rightarrow> nat list" where
  "since l k ids = dropWhile (\<lambda>a. cmp (sl_key l a) k < 0) ids"

lemma before_since: "before l k ids @ since l k ids = ids"
  by (simp add: before_def since_def)

lemma before_less: "a \<in> set (before l k ids) \<Longrightarrow> cmp (sl_key l a) k < 0"
  by (auto simp: before_def dest: set_takeWhileD)

lemma since_ge:
  assumes "sorted_wrt (\<lambda>a b. cmp (sl_key l a) (sl_key l b) < 0) ids" "a \<in> set (since l k ids)"
  shows "\<not> cmp (sl_key l a) k < 0"
  using assms
proof (induction ids)
  case (Cons b ids)
  show ?case
  proof (cases "cmp (sl_key l b) k < 0")
    case True
    then show ?thesis using Cons by (simp add: since_def)
  next
    case False
    then have "a = b \<or> cmp (sl_key l b) (sl_key l a) < 0" using Cons.prems by (auto simp: since_def)
    then show ?thesis using False less_le_trans [of "sl_key l b" "sl_key l a" k] by auto
  qed
qed (simp add: since_def)

text \<open>Everything the searches need: the list splits into the nodes before the key and the others.\<close>

definition split_at :: "'k skiplist \<Rightarrow> 'k \<Rightarrow> (nat \<Rightarrow> nat) \<Rightarrow> nat list \<Rightarrow> nat list \<Rightarrow> bool" where
  "split_at l k hh as bs \<longleftrightarrow>
     (\<forall>a \<in> set as. a < length (nodes l) \<and> cmp (sl_key l a) k < 0) \<and>
     (\<forall>b \<in> set bs. b < length (nodes l) \<and> \<not> cmp (sl_key l b) k < 0) \<and>
     (\<forall>i < max_height l. linked l i 0 (filter (\<lambda>a. i < hh a) as @ filter (\<lambda>a. i < hh a) bs))"

lemma split_at_inv: "skip_inv cmp l ids hh \<Longrightarrow> split_at l k hh (before l k ids) (since l k ids)"
  using before_since [of l k ids] since_ge [of l ids _ k] before_less [of _ l k ids]
  unfolding split_at_def skip_inv_def
  by (metis (no_types, lifting) Un_iff filter_append order.strict_trans2 set_append)

lemma split_at_linked: "split_at l k hh as bs \<Longrightarrow> i < max_height l \<Longrightarrow> linked l i 0 (filter (\<lambda>a. i < hh a) as @ filter (\<lambda>a. i < hh a) bs)"
  by (simp add: split_at_def)

text \<open>The last node before the key at a level.\<close>

definition pred_at :: "(nat \<Rightarrow> nat) \<Rightarrow> nat list \<Rightarrow> nat \<Rightarrow> nat" where
  "pred_at hh as i = last (0 # filter (\<lambda>a. i < hh a) as)"

text \<open>From a node of the level on, the level goes through the nodes before the key, then the others.\<close>

lemma level_from:
  assumes L: "linked l i 0 (filter (\<lambda>a. i < hh a) as @ filter (\<lambda>a. i < hh a) bs)" and x: "x \<in> set (0 # filter (\<lambda>a. i < hh a) as)"
  shows "\<exists>vs. linked l i x (vs @ filter (\<lambda>a. i < hh a) bs) \<and> last (x # vs) = pred_at hh as i \<and> set vs \<subseteq> set as"
proof -
  let ?f = "filter (\<lambda>a. i < hh a)"
  obtain us vs where uv: "0 # ?f as = us @ x # vs" using split_list [OF x] by blast
  show ?thesis
  proof (cases us)
    case Nil
    then show ?thesis using uv L by (intro exI [of _ vs]) (auto simp: pred_at_def)
  next
    case (Cons u us')
    then have f: "?f as = (us' @ [x]) @ vs" using uv by simp
    then have "linked l i (last (0 # us' @ [x])) (vs @ ?f bs)"
      using L linked_append [of l i 0 "us' @ [x]" "vs @ ?f bs"] by simp
    moreover have "set vs \<subseteq> set (?f as)" unfolding f by auto
    then have "set vs \<subseteq> set as" by auto
    ultimately show ?thesis using f by (intro exI [of _ vs]) (simp add: pred_at_def)
  qed
qed


lemma find_ge_level:
  assumes "split_at l k hh as bs" "linked l i x (vs @ filter (\<lambda>a. i < hh a) bs)" "set vs \<subseteq> set as"
  shows "find_ge cmp l k x i prev =
    (let prev = map_option (\<lambda>p. p[i := Some (last (x # vs))]) prev
     in if i = 0 then Some (case filter (\<lambda>a. 0 < hh a) bs of [] \<Rightarrow> None | b # _ \<Rightarrow> Some b, prev)
        else find_ge cmp l k (last (x # vs)) (i - 1) prev)"
  using assms(2,3)
proof (induction vs arbitrary: x)
  case Nil
  show ?case
  proof (cases "filter (\<lambda>a. i < hh a) bs")
    case Nil
    then show ?thesis
      using Nil.prems by (subst find_ge.simps) (auto simp: KeyIsAfterNode_def)
  next
    case (Cons b bs')
    then have "b \<in> set bs" by (metis filter_eq_ConsD in_set_conv_decomp)
    then have "key_of l b = Some (sl_key l b)" "\<not> cmp (sl_key l b) k < 0" using assms(1) by (auto simp: split_at_def key_of_def)
    then show ?thesis
      using Nil.prems Cons by (subst find_ge.simps) (auto simp: KeyIsAfterNode_def)
  qed
next
  case (Cons v vs)
  then have "key_of l v = Some (sl_key l v)" "cmp (sl_key l v) k < 0" using assms(1) by (auto simp: split_at_def key_of_def)
  then have "find_ge cmp l k x i prev = find_ge cmp l k v i prev"
    using Cons.prems by (subst find_ge.simps) (simp add: KeyIsAfterNode_def)
  moreover have "last (x # v # vs) = last (v # vs)" by simp
  ultimately show ?case using Cons.IH [of v] Cons.prems by (simp add: Let_def del: last.simps)
qed

lemma find_lt_level:
  assumes "split_at l k hh as bs" "linked l i x (vs @ filter (\<lambda>a. i < hh a) bs)" "set vs \<subseteq> set as"
  shows "find_lt cmp l k x i = (if i = 0 then Some (last (x # vs)) else find_lt cmp l k (last (x # vs)) (i - 1))"
  using assms(2,3)
proof (induction vs arbitrary: x)
  case Nil
  show ?case
  proof (cases "filter (\<lambda>a. i < hh a) bs")
    case Nil
    then show ?thesis using Nil.prems by (subst find_lt.simps) auto
  next
    case (Cons b bs')
    then have "b \<in> set bs" by (metis filter_eq_ConsD in_set_conv_decomp)
    then have "key_of l b = Some (sl_key l b)" "\<not> cmp (sl_key l b) k < 0" using assms(1) by (auto simp: split_at_def key_of_def)
    then show ?thesis using Nil.prems Cons by (subst find_lt.simps) auto
  qed
next
  case (Cons v vs)
  then have "key_of l v = Some (sl_key l v)" "cmp (sl_key l v) k < 0" using assms(1) by (auto simp: split_at_def key_of_def)
  then have "find_lt cmp l k x i = find_lt cmp l k v i"
    using Cons.prems by (subst find_lt.simps) simp
  moreover have "last (x # v # vs) = last (v # vs)" by simp
  ultimately show ?case using Cons.IH [of v] Cons.prems by (simp add: Let_def del: last.simps)
qed

text \<open>Down the levels: the links of \<open>prev\<close> are filled with the last nodes before the key.\<close>

fun fill_prev :: "(nat \<Rightarrow> nat) \<Rightarrow> nat \<Rightarrow> nat option list \<Rightarrow> nat option list" where
  "fill_prev f 0 p = p[0 := Some (f 0)]"
| "fill_prev f (Suc i) p = fill_prev f i (p[Suc i := Some (f (Suc i))])"

lemma fill_prev_nth: "n < length p \<Longrightarrow> fill_prev f i p ! n = (if n \<le> i then Some (f n) else p ! n)"
  by (induction f i p rule: fill_prev.induct) (auto simp: nth_list_update le_Suc_eq)

lemma fill_prev_length [simp]: "length (fill_prev f i p) = length p"
  by (induction f i p rule: fill_prev.induct) auto

lemma pred_lower: "i \<le> j \<Longrightarrow> pred_at hh as j \<in> set (0 # filter (\<lambda>a. i < hh a) as)"
  using last_in_set [of "filter (\<lambda>a. j < hh a) as"] by (auto simp: pred_at_def)

lemma find_ge_down:
  assumes "split_at l k hh as bs" "i < max_height l" "x \<in> set (0 # filter (\<lambda>a. i < hh a) as)"
  shows "find_ge cmp l k x i prev =
    Some (case filter (\<lambda>a. 0 < hh a) bs of [] \<Rightarrow> None | b # _ \<Rightarrow> Some b, map_option (fill_prev (pred_at hh as) i) prev)"
  using assms(2,3)
proof (induction i arbitrary: x prev)
  case 0
  obtain vs where vs: "linked l 0 x (vs @ filter (\<lambda>a. 0 < hh a) bs)" "last (x # vs) = pred_at hh as 0" "set vs \<subseteq> set as"
    using level_from [OF split_at_linked [OF assms(1) 0(1)] 0(2)] by blast
  show ?case unfolding find_ge_level [OF assms(1) vs(1,3)] vs(2) by (simp add: Let_def)
next
  case (Suc i)
  obtain vs where vs: "linked l (Suc i) x (vs @ filter (\<lambda>a. Suc i < hh a) bs)" "last (x # vs) = pred_at hh as (Suc i)" "set vs \<subseteq> set as"
    using level_from [OF split_at_linked [OF assms(1) Suc.prems(1)] Suc.prems(2)] by blast
  have "i < max_height l" using Suc.prems by simp
  note IH = Suc.IH [OF this pred_lower [of i "Suc i" hh as]]
  show ?case unfolding find_ge_level [OF assms(1) vs(1,3)] vs(2) by (simp add: Let_def IH option.map_comp comp_def)
qed

lemma find_lt_down:
  assumes "split_at l k hh as bs" "i < max_height l" "x \<in> set (0 # filter (\<lambda>a. i < hh a) as)"
  shows "find_lt cmp l k x i = Some (pred_at hh as 0)"
  using assms(2,3)
proof (induction i arbitrary: x)
  case 0
  obtain vs where vs: "linked l 0 x (vs @ filter (\<lambda>a. 0 < hh a) bs)" "last (x # vs) = pred_at hh as 0" "set vs \<subseteq> set as"
    using level_from [OF split_at_linked [OF assms(1) 0(1)] 0(2)] by blast
  show ?case unfolding find_lt_level [OF assms(1) vs(1,3)] vs(2) by simp
next
  case (Suc i)
  obtain vs where vs: "linked l (Suc i) x (vs @ filter (\<lambda>a. Suc i < hh a) bs)" "last (x # vs) = pred_at hh as (Suc i)" "set vs \<subseteq> set as"
    using level_from [OF split_at_linked [OF assms(1) Suc.prems(1)] Suc.prems(2)] by blast
  have "i < max_height l" using Suc.prems by simp
  then show ?case
    using Suc.IH [OF _ pred_lower [of i "Suc i" hh as]] unfolding find_lt_level [OF assms(1) vs(1,3)] vs(2) by simp
qed

subsection \<open>Insertion\<close>

lemma link_inv:
  assumes inv: "skip_inv cmp l ids hh" and ids: "ids = as @ x # bs" and x: "hh x = i" "i < length (next_links (nodes l ! x))"
    and i: "i < max_height l" and prev: "prev ! i = Some (pred_at hh as i)"
  shows "\<exists>l'. link_level prev x l i = Some l' \<and> skip_inv cmp l' ids (hh(x := Suc i)) \<and>
    length (nodes l') = length (nodes l) \<and> (\<forall>b. sl_key l' b = sl_key l b) \<and>
    (\<forall>b. length (next_links (nodes l' ! b)) = length (next_links (nodes l ! b))) \<and>
    max_height l' = max_height l \<and> rnd l' = rnd l"
proof -
  let ?p = "pred_at hh as i" and ?as = "filter (\<lambda>a. i < hh a) as" and ?bs = "filter (\<lambda>a. i < hh a) bs"
  have d: "distinct (0 # ids)" "x < length (nodes l)" and i12: "i < kMaxHeight"
    using inv ids i by (auto simp: skip_inv_def)
  have "linked l i 0 (filter (\<lambda>a. i < hh a) ids)" using inv i12 by (simp add: skip_inv_def)
  then have "linked l i 0 (?as @ ?bs)" using x(1) by (simp add: ids)
  then have seg: "segment l i 0 ?as" and rest: "linked l i ?p ?bs"
    by (simp_all only: linked_append pred_at_def)
  obtain n where n: "Node_Next l ?p i = Some n" using rest by (cases ?bs) auto
  then have p: "?p < length (nodes l)" "i < length (next_links (nodes l ! ?p))"
    by (auto simp: Node_Next_def split: if_splits)
  have "?p \<in> set (0 # as)" using last_in_set [of ?as] by (auto simp: pred_at_def)
  then have px: "?p \<noteq> x" using d(1) ids by auto
  define l' where "l' = Node_SetNext ?p i (Some x) (Node_SetNext x i n l)"
  have N: "Node_Next l' b j = (if b = ?p \<and> j = i then Some (Some x) else if b = x \<and> j = i then Some n else Node_Next l b j)" for b j
    unfolding l'_def using p d(2) x(2) by (simp add: Next_SetNext)
  have dist: "distinct (0 # ?as)" "x \<notin> set (0 # ?as)" "x \<notin> set ?bs" "?p \<notin> set ?bs"
    using d(1) ids \<open>?p \<in> set (0 # as)\<close> by auto
  have "?p \<notin> set (butlast (0 # ?as))"
    using last_notin_butlast [OF dist(1)] by (simp only: pred_at_def) simp
  then have seg': "segment l' i 0 ?as"
    using seg segment_frame [of 0 ?as l' i l] N dist(2) by (metis in_set_butlastD)
  have "linked l' i x ?bs"
  proof (cases ?bs)
    case Nil
    then show ?thesis using N n rest px by simp
  next
    case (Cons y ys)
    then have "linked l' i y ys = linked l i y ys" using dist N by (intro linked_frame) auto
    then show ?thesis using Cons N n rest px by simp
  qed
  then have lvl: "linked l' i 0 (?as @ x # ?bs)" using seg' N unfolding linked_append by (simp add: pred_at_def)
  have "linked l' j 0 (filter (\<lambda>a. j < (hh(x := Suc i)) a) ids)" if j: "j < kMaxHeight" for j
  proof (cases "j = i")
    case True
    have "filter (\<lambda>a. i < (hh(x := Suc i)) a) as = ?as" "filter (\<lambda>a. i < (hh(x := Suc i)) a) bs = ?bs"
      using d(1) ids by (auto intro!: filter_cong)
    then show ?thesis using lvl True by (simp add: ids)
  next
    case False
    then have "filter (\<lambda>a. j < (hh(x := Suc i)) a) ids = filter (\<lambda>a. j < hh a) ids"
      using x(1) by (intro filter_cong) auto
    moreover have "linked l j 0 (filter (\<lambda>a. j < hh a) ids)" using inv j by (simp add: skip_inv_def)
    ultimately show ?thesis using False N linked_frame [of 0 _ l' j l] by simp
  qed
  moreover have "link_level prev x l i = Some l'" by (simp add: link_level_def prev n l'_def)
  ultimately show ?thesis
    using inv x i by (intro exI [of _ l']) (auto simp: skip_inv_def l'_def)
qed

lemma link_levels_inv:
  assumes "ids = as @ x # bs" "j \<le> n" "skip_inv cmp l ids (hh(x := j))" "n \<le> length (next_links (nodes l ! x))" "n \<le> max_height l"
    "\<And>i. i < n \<Longrightarrow> prev ! i = Some (pred_at hh as i)"
  shows "\<exists>l'. link_levels prev x [j..<n] l = Some l' \<and> skip_inv cmp l' ids (hh(x := n)) \<and> (\<forall>b. sl_key l' b = sl_key l b)"
  using assms(2-5)
proof (induction "n - j" arbitrary: j l)
  case 0
  then show ?case by simp
next
  case (Suc m)
  then have j: "j < n" by simp
  have "x \<notin> set as" using Suc.prems(2) assms(1) by (simp add: skip_inv_def)
  then have "filter (\<lambda>a. j < (hh(x := j)) a) as = filter (\<lambda>a. j < hh a) as" by (intro filter_cong) auto
  then have "pred_at (hh(x := j)) as j = pred_at hh as j" by (simp add: pred_at_def)
  then have "prev ! j = Some (pred_at (hh(x := j)) as j)" using assms(6) [OF j] by simp
  then obtain l1 where l1: "link_level prev x l j = Some l1" "skip_inv cmp l1 ids (hh(x := Suc j))"
    "\<forall>b. sl_key l1 b = sl_key l b" "length (next_links (nodes l1 ! x)) = length (next_links (nodes l ! x))"
    "max_height l1 = max_height l"
    using link_inv [OF Suc.prems(2) assms(1), of j prev] j Suc.prems(3,4) by auto
  have "m = n - Suc j" "Suc j \<le> n" using Suc.hyps(2) j by auto
  moreover have "[j..<n] = j # [Suc j..<n]" using j by (rule upt_conv_Cons)
  ultimately show ?case using Suc.hyps(1) [of "Suc j" l1] l1 Suc.prems(3,4) by auto
qed

lemma NewNode_inv:
  assumes "skip_inv cmp l ids hh" "\<And>a. a \<in> set ids \<Longrightarrow> cmp (sl_key l a) k \<noteq> 0" "NewNode k n l = (x, l1)"
  shows "skip_inv cmp l1 (before l k ids @ x # since l k ids) (hh(x := 0))" "x \<notin> set ids" "length (next_links (nodes l1 ! x)) = n"
    "sl_key l1 x = k" "\<And>a. a \<in> set ids \<Longrightarrow> sl_key l1 a = sl_key l a"
proof -
  have l1: "x = length (nodes l)" "l1 = l\<lparr>nodes := nodes l @ [\<lparr>node_key = k, next_links = replicate n None\<rparr>]\<rparr>"
    using assms(3) by (auto simp: NewNode_def)
  have len: "a < length (nodes l)" if "a \<in> set ids" for a using assms(1) that by (simp add: skip_inv_def)
  show nx: "x \<notin> set ids" using len l1(1) by blast
  have N: "Node_Next l1 b j = Node_Next l b j" for b j by (auto simp: Node_Next_def l1 nth_append less_Suc_eq)
  show kx: "sl_key l1 x = k" "length (next_links (nodes l1 ! x)) = n" by (simp_all add: l1)
  show ka: "\<And>a. a \<in> set ids \<Longrightarrow> sl_key l1 a = sl_key l a" using len by (simp add: l1 nth_append)
  let ?as = "before l k ids" and ?bs = "since l k ids"
  have ids: "ids = ?as @ ?bs" by (simp add: before_since)
  have srt: "sorted_wrt (\<lambda>a b. cmp (sl_key l a) (sl_key l b) < 0) (?as @ ?bs)" using assms(1) ids by (simp add: skip_inv_def)
  have as: "cmp (sl_key l a) k < 0" if "a \<in> set ?as" for a using that by (rule before_less)
  have bs: "cmp k (sl_key l b) < 0" if "b \<in> set ?bs" for b
  proof -
    have "b \<in> set ids" using that ids by (metis Un_iff set_append)
    then show ?thesis
      using since_ge [OF srt [unfolded before_since] that] assms(2) anti [of k "sl_key l b"] by fastforce
  qed
  have "set ids = set ?as \<union> set ?bs" using ids by (metis set_append)
  then have K: "\<And>a. a \<in> set ?as \<union> set ?bs \<Longrightarrow> sl_key l1 a = sl_key l a" and nx2: "x \<notin> set ?as" "x \<notin> set ?bs" using ka nx by auto
  have srt1: "sorted_wrt (\<lambda>a b. cmp (sl_key l1 a) (sl_key l1 b) < 0) (?as @ x # ?bs)"
  proof -
    have "sorted_wrt (\<lambda>a b. cmp (sl_key l1 a) (sl_key l1 b) < 0) (?as @ ?bs)"
      using K by (intro sorted_wrt_mono_rel [OF _ srt]) auto
    moreover have "cmp (sl_key l1 a) (sl_key l1 x) < 0" if "a \<in> set ?as" for a using as [OF that] K that kx(1) by simp
    moreover have "cmp (sl_key l1 x) (sl_key l1 b) < 0" if "b \<in> set ?bs" for b using bs [OF that] K that kx(1) by simp
    ultimately show ?thesis by (auto simp: sorted_wrt_append)
  qed
  have lv: "linked l1 i 0 (filter (\<lambda>a. i < (hh(x := 0)) a) (?as @ x # ?bs))" if "i < kMaxHeight" for i
  proof -
    have "filter (\<lambda>a. i < (hh(x := 0)) a) xs = filter (\<lambda>a. i < hh a) xs" if "x \<notin> set xs" for xs
      using that by (intro filter_cong) auto
    then have "filter (\<lambda>a. i < (hh(x := 0)) a) (?as @ x # ?bs) = filter (\<lambda>a. i < hh a) (?as @ ?bs)"
      using nx2 by simp
    moreover have "linked l i 0 (filter (\<lambda>a. i < hh a) ids)" using assms(1) that by (simp add: skip_inv_def)
    ultimately show ?thesis using N linked_frame [of 0 _ l1 i l] ids by simp
  qed
  have di: "distinct (0 # ?as @ x # ?bs)"
  proof -
    have "distinct (0 # ?as @ ?bs)" "0 < length (nodes l)" using assms(1) ids by (auto simp: skip_inv_def)
    then show ?thesis using nx2 l1(1) by auto
  qed
  have el: "a < length (nodes l1) \<and> (hh(x := 0)) a \<le> length (next_links (nodes l1 ! a)) \<and> (hh(x := 0)) a \<le> max_height l1"
    if "a \<in> set (?as @ x # ?bs)" for a
  proof (cases "a = x")
    case False
    then have "a \<in> set ids" using that ids by (metis Un_iff set_append set_ConsD)
    then show ?thesis using assms(1) False len by (auto simp: skip_inv_def l1 nth_append intro: less_SucI)
  qed (simp add: l1)
  have h: "0 < length (nodes l1) \<and> length (next_links (nodes l1 ! 0)) = kMaxHeight \<and> 0 < max_height l1 \<and> max_height l1 \<le> kMaxHeight"
    using assms(1) by (auto simp: skip_inv_def l1 nth_append)
  show "skip_inv cmp l1 (?as @ x # ?bs) (hh(x := 0))"
    unfolding skip_inv_def using h srt1 di el lv by blast
qed

lemma find_ge_all:
  assumes "skip_inv cmp l ids hh"
  shows "FindGreaterOrEqual cmp l k prev =
    Some (case filter (\<lambda>a. 0 < hh a) (since l k ids) of [] \<Rightarrow> None | b # _ \<Rightarrow> Some b,
      map_option (fill_prev (pred_at hh (before l k ids)) (max_height l - 1)) prev)"
  using find_ge_down [OF split_at_inv [OF assms], of "max_height l - 1" 0 k prev] assms
  by (simp add: FindGreaterOrEqual_def skip_inv_def)

lemma before_map: "map (sl_key l) (before l k ids) = takeWhile (\<lambda>a. cmp a k < 0) (map (sl_key l) ids)"
    "map (sl_key l) (since l k ids) = dropWhile (\<lambda>a. cmp a k < 0) (map (sl_key l) ids)"
  by (simp_all add: before_def since_def takeWhile_map dropWhile_map comp_def)

lemma split_sets: "set (before l k ids) \<subseteq> set ids" "set (since l k ids) \<subseteq> set ids"
  using before_since [of l k ids] by (metis set_append Un_upper1, metis set_append Un_upper2)

text \<open>The links that \<open>Insert\<close> prepares, above the highest level from the head, and the store of the height.\<close>

lemma raise_inv:
  fixes k :: 'k
  assumes inv: "skip_inv cmp l ids hh" and rh: "RandomHeight (rnd l) = (h, seed)"
  defines "p0 \<equiv> fill_prev (pred_at hh (before l k ids)) (max_height l - 1) (replicate kMaxHeight None)"
  defines "prev \<equiv> (if max_height l < h then foldl (\<lambda>p i. p[i := Some 0]) p0 [max_height l..<h] else p0)"
    and "l0 \<equiv> (if max_height l < h then l\<lparr>rnd := seed, max_height := h\<rparr> else l\<lparr>rnd := seed\<rparr>)"
  shows "skip_inv cmp l0 ids hh" "nodes l0 = nodes l" "max_height l0 = max h (max_height l)" "0 < h" "h \<le> kMaxHeight"
    "\<And>i. i < h \<Longrightarrow> prev ! i = Some (pred_at hh (before l k ids) i)"
proof -
  show h: "0 < h" "h \<le> kMaxHeight" using RandomHeight_bounds [OF rh] by auto
  show l0: "nodes l0 = nodes l" "max_height l0 = max h (max_height l)" by (auto simp: l0_def)
  have N0: "Node_Next l0 b j = Node_Next l b j" for b j by (simp add: Node_Next_def l0(1))
  then have lk0: "linked l0 i y ys = linked l i y ys" for i y ys by (intro linked_frame) simp
  show "skip_inv cmp l0 ids hh" using inv h by (fastforce simp: skip_inv_def l0 lk0)
  fix i assume i: "i < h"
  then have i12: "i < kMaxHeight" using h by simp
  show "prev ! i = Some (pred_at hh (before l k ids) i)"
  proof (cases "i < max_height l")
    case True
    then show ?thesis using i12 by (simp add: prev_def foldl_head p0_def fill_prev_nth)
  next
    case False
    have "hh a \<le> i" if "a \<in> set (before l k ids)" for a
    proof -
      have "a \<in> set ids" using that split_sets(1) by blast
      then show ?thesis using inv False by (fastforce simp: skip_inv_def)
    qed
    then have "filter (\<lambda>a. i < hh a) (before l k ids) = []" by (auto simp: filter_empty_conv not_less)
    then show ?thesis using False i i12 by (simp add: prev_def foldl_head p0_def pred_at_def)
  qed
qed

lemma Insert_lists:
  assumes "lists_nodes cmp l ids" "\<And>a. a \<in> set ids \<Longrightarrow> cmp (sl_key l a) k \<noteq> 0"
  shows "\<exists>l' x. Insert cmp k l = Some l' \<and> lists_nodes cmp l' (before l k ids @ x # since l k ids) \<and>
    sl_key l' x = k \<and> (\<forall>a \<in> set ids. sl_key l' a = sl_key l a)"
proof -
  let ?as = "before l k ids" and ?bs = "since l k ids"
  obtain hh where inv: "skip_inv cmp l ids hh" and hh: "\<And>a. a \<in> set ids \<Longrightarrow> 0 < hh a"
    using assms(1) by (auto simp: lists_nodes_def)
  obtain h seed where rh: "RandomHeight (rnd l) = (h, seed)" by force
  define p0 where "p0 = fill_prev (pred_at hh ?as) (max_height l - 1) (replicate kMaxHeight None)"
  define prev where "prev = (if max_height l < h then foldl (\<lambda>p i. p[i := Some 0]) p0 [max_height l..<h] else p0)"
  define l0 where "l0 = (if max_height l < h then l\<lparr>rnd := seed, max_height := h\<rparr> else l\<lparr>rnd := seed\<rparr>)"
  note raised = raise_inv(1-5) [OF inv rh, folded l0_def] raise_inv(6) [OF inv rh, where k = k, folded p0_def, folded prev_def]
  note h = raised(4,5) and l0 = raised(2,3)
  obtain x l1 where nn: "NewNode k h l0 = (x, l1)" by force
  have bs0: "before l0 k ids = ?as" "since l0 k ids = ?bs" by (simp_all add: before_def since_def l0(1))
  note new = NewNode_inv [OF raised(1) _ nn, unfolded bs0 l0(1), OF assms(2)]
  have "max_height l1 = max_height l0" using nn by (auto simp: NewNode_def)
  then have "h \<le> max_height l1" using l0(2) by simp
  then obtain l' where l': "link_levels prev x [0..<h] l1 = Some l'" "skip_inv cmp l' (?as @ x # ?bs) (hh(x := h))"
    "\<forall>b. sl_key l' b = sl_key l1 b"
    using link_levels_inv [OF refl _ new(1), of h prev] new(3) raised(6) by auto
  have "Insert cmp k l = Some l'"
    using l'(1) nn by (simp add: Insert_def find_ge_all [OF inv] rh Let_def p0_def prev_def l0_def split: if_splits)
  moreover have "lists_nodes cmp l' (?as @ x # ?bs)"
    using l'(2) h(1) hh before_since [of l k ids] unfolding lists_nodes_def
    by (intro exI [of _ "hh(x := h)"]) (metis (no_types, lifting) Un_iff fun_upd_apply set_append set_ConsD)
  ultimately show ?thesis using l'(3) new(4,5) by auto
qed

lemma Insert_represents:
  assumes "represents cmp l ks" "\<And>a. a \<in> set ks \<Longrightarrow> cmp a k \<noteq> 0"
  shows "\<exists>l'. Insert cmp k l = Some l' \<and> represents cmp l' (insert_key cmp k ks)"
proof -
  obtain ids where ids: "lists_nodes cmp l ids" "map (sl_key l) ids = ks" using assms(1) by (auto simp: represents_def)
  have "\<And>a. a \<in> set ids \<Longrightarrow> cmp (sl_key l a) k \<noteq> 0" using ids(2) assms(2) by auto
  then obtain l' x where l': "Insert cmp k l = Some l'" "lists_nodes cmp l' (before l k ids @ x # since l k ids)"
    "sl_key l' x = k" "\<forall>a \<in> set ids. sl_key l' a = sl_key l a"
    using Insert_lists [OF ids(1)] by blast
  have "set (before l k ids) \<subseteq> set ids" "set (since l k ids) \<subseteq> set ids"
    using before_since [of l k ids] by (metis set_append Un_upper1, metis set_append Un_upper2)
  then have "map (sl_key l') (before l k ids) = map (sl_key l) (before l k ids)"
    "map (sl_key l') (since l k ids) = map (sl_key l) (since l k ids)"
    using l'(4) by (auto intro!: map_cong)
  then have "map (sl_key l') (before l k ids @ x # since l k ids) = insert_key cmp k ks"
    using l'(3) by (simp add: insert_key_def before_map ids(2))
  then show ?thesis using l' by (auto simp: represents_def)
qed

subsection \<open>The iterator\<close>

lemma lists_nodes_all: "lists_nodes cmp l ids \<Longrightarrow> \<exists>hh. skip_inv cmp l ids hh \<and> (\<forall>as. set as \<subseteq> set ids \<longrightarrow> filter (\<lambda>a. 0 < hh a) as = as)"
  unfolding lists_nodes_def by (auto simp: filter_id_conv subset_iff)

lemma Seek_first:
  assumes "lists_nodes cmp l ids"
  shows "Iter_Seek cmp l k = Some (find (\<lambda>a. 0 \<le> cmp (sl_key l a) k) ids)"
proof -
  obtain hh where hh: "skip_inv cmp l ids hh" "filter (\<lambda>a. 0 < hh a) (since l k ids) = since l k ids"
    using lists_nodes_all [OF assms] split_sets(2) [of l k ids] by auto
  have "find (\<lambda>a. 0 \<le> cmp (sl_key l a) k) ids = (case since l k ids of [] \<Rightarrow> None | b # _ \<Rightarrow> Some b)"
    by (induction ids) (auto simp: since_def)
  then show ?thesis by (simp add: Iter_Seek_def find_ge_all [OF hh(1)] hh(2))
qed

lemma represents_sorted: "represents cmp l ks \<Longrightarrow> sorted_wrt (\<lambda>a b. cmp a b < 0) ks"
  by (auto simp: represents_def lists_nodes_def skip_inv_def sorted_wrt_map)

lemma Seek_key:
  assumes "represents cmp l ks"
  shows "\<exists>it. Iter_Seek cmp l k = Some it \<and> Iter_key l it = find (\<lambda>a. 0 \<le> cmp a k) ks \<and>
    (Iter_Valid it \<longleftrightarrow> find (\<lambda>a. 0 \<le> cmp a k) ks \<noteq> None)"
proof -
  obtain ids where ids: "lists_nodes cmp l ids" "map (sl_key l) ids = ks" using assms by (auto simp: represents_def)
  let ?it = "find (\<lambda>a. 0 \<le> cmp (sl_key l a) k) ids"
  have m: "find (\<lambda>a. 0 \<le> cmp a k) (map f xs) = map_option f (find (\<lambda>a. 0 \<le> cmp (f a) k) xs)" for f :: "nat \<Rightarrow> 'k" and xs
    by (induction xs) auto
  have "a < length (nodes l)" if "a \<in> set ids" for a using ids(1) that by (auto simp: lists_nodes_def skip_inv_def)
  moreover have "?it = Some a \<Longrightarrow> a \<in> set ids" for a by (auto simp: find_Some_iff)
  ultimately have "Iter_key l ?it = map_option (sl_key l) ?it" by (cases ?it) (auto simp: Iter_key_def key_of_def)
  then show ?thesis using Seek_first [OF ids(1), of k] m [of "sl_key l" ids] ids(2) by (auto simp: Iter_Valid_def)
qed

lemma level0:
  assumes "lists_nodes cmp l ids"
  shows "linked l 0 0 ids"
proof -
  obtain hh where hh: "skip_inv cmp l ids hh" "filter (\<lambda>a. 0 < hh a) ids = ids"
    using lists_nodes_all [OF assms] by auto
  have "linked l 0 0 (filter (\<lambda>a. 0 < hh a) ids)" using hh(1) by (simp add: skip_inv_def kMaxHeight_def)
  then show ?thesis unfolding hh(2) .
qed

lemma Next_step:
  assumes "lists_nodes cmp l ids"
  shows "Iter_SeekToFirst l = Some (node_nth ids 0)"
    "j < length ids \<Longrightarrow> Iter_Next l (node_nth ids j) = Some (node_nth ids (Suc j))"
proof -
  have lk: "linked l i x ys \<Longrightarrow> Node_Next l x i = Some (node_nth ys 0)" for i x ys by (cases ys) (auto simp: node_nth_def)
  show "Iter_SeekToFirst l = Some (node_nth ids 0)" using lk [OF level0 [OF assms]] by (simp add: Iter_SeekToFirst_def)
  assume j: "j < length ids"
  have "linked l 0 0 (take (Suc j) ids @ drop (Suc j) ids)" using level0 [OF assms] by simp
  then have "linked l 0 (last (0 # take (Suc j) ids)) (drop (Suc j) ids)" unfolding linked_append by simp
  moreover have "last (0 # take (Suc j) ids) = ids ! j" using j by (simp add: take_Suc_conv_app_nth)
  ultimately show "Iter_Next l (node_nth ids j) = Some (node_nth ids (Suc j))"
    using lk [of 0 "ids ! j" "drop (Suc j) ids"] j by (auto simp: Iter_Next_def node_nth_def)
qed

lemma Prev_step:
  assumes "lists_nodes cmp l ids" "j < length ids"
  shows "Iter_Prev cmp l (node_nth ids j) = Some (if j = 0 then None else node_nth ids (j - 1))"
proof -
  let ?k = "sl_key l (ids ! j)"
  obtain hh where hh: "skip_inv cmp l ids hh" "filter (\<lambda>a. 0 < hh a) (before l ?k ids) = before l ?k ids"
    using lists_nodes_all [OF assms(1)] split_sets(1) by auto
  have srt: "sorted_wrt (\<lambda>a b. cmp (sl_key l a) (sl_key l b) < 0) ids" and d: "0 \<notin> set ids"
    and len: "ids ! j < length (nodes l)" and mh: "0 < max_height l"
    using hh(1) assms(2) by (auto simp: skip_inv_def)
  have "before l ?k ids = take j ids"
  proof -
    have "cmp (sl_key l (ids ! i)) ?k < 0" if "i < j" for i
      using srt that assms(2) by (simp add: sorted_wrt_iff_nth_less)
    then show ?thesis unfolding before_def using assms(2) by (intro takeWhile_eq_take_P_nth) auto
  qed
  then have "FindLessThan cmp l ?k = Some (last (0 # take j ids))"
    using find_lt_down [OF split_at_inv [OF hh(1)], of "max_height l - 1" 0 ?k] hh(2) mh
    by (simp add: FindLessThan_def pred_at_def)
  moreover have "last (0 # take j ids) = (if j = 0 then 0 else ids ! (j - 1))"
    using assms(2) by (cases j) (simp_all add: take_Suc_conv_app_nth)
  moreover have "ids ! i \<noteq> 0" if "i < length ids" for i using d that by (metis nth_mem)
  ultimately show ?thesis using assms(2) len by (cases j) (auto simp: Iter_Prev_def Iter_key_def node_nth_def key_of_def)
qed

lemma find_last_level:
  assumes "linked l i x vs"
  shows "find_last l x i = (if i = 0 then Some (last (x # vs)) else find_last l (last (x # vs)) (i - 1))"
  using assms
proof (induction vs arbitrary: x)
  case Nil
  then show ?case by (subst find_last.simps) simp
next
  case (Cons v vs)
  then have "find_last l x i = find_last l v i" by (subst find_last.simps) simp
  moreover have "last (x # v # vs) = last (v # vs)" by simp
  ultimately show ?case using Cons.IH [of v] Cons.prems by (simp del: last.simps)
qed

lemma find_last_down:
  assumes "\<And>j. j \<le> i \<Longrightarrow> linked l j 0 (filter (\<lambda>a. j < hh a) ids)" "x \<in> set (0 # filter (\<lambda>a. i < hh a) ids)"
  shows "find_last l x i = Some (pred_at hh ids 0)"
  using assms
proof (induction i arbitrary: x)
  case 0
  obtain vs where vs: "linked l 0 x vs" "last (x # vs) = pred_at hh ids 0"
    using level_from [of l 0 hh ids "[]" x] 0 by auto
  show ?case unfolding find_last_level [OF vs(1)] vs(2) by simp
next
  case (Suc i)
  obtain vs where vs: "linked l (Suc i) x vs" "last (x # vs) = pred_at hh ids (Suc i)"
    using level_from [of l "Suc i" hh ids "[]" x] Suc.prems by auto
  show ?case
    using Suc.IH [OF Suc.prems(1) pred_lower [of i "Suc i" hh ids]] unfolding find_last_level [OF vs(1)] vs(2) by simp
qed

lemma SeekToLast_last:
  assumes "lists_nodes cmp l ids"
  shows "Iter_SeekToLast l = Some (if ids = [] then None else Some (last ids))"
proof -
  obtain hh where hh: "skip_inv cmp l ids hh" "filter (\<lambda>a. 0 < hh a) ids = ids"
    using lists_nodes_all [OF assms] by auto
  have "find_last l 0 (max_height l - 1) = Some (pred_at hh ids 0)"
    using hh(1) by (intro find_last_down) (auto simp: skip_inv_def)
  moreover have "0 \<notin> set ids" using hh(1) by (simp add: skip_inv_def)
  then have "ids \<noteq> [] \<Longrightarrow> last ids \<noteq> 0" using last_in_set [of ids] by metis
  moreover have "last (0 # ids) = (if ids = [] then 0 else last ids)" by simp
  ultimately show ?thesis using hh(2) by (cases "ids = []") (simp_all add: Iter_SeekToLast_def FindLast_def pred_at_def)
qed

lemma Contains_represents:
  assumes "represents cmp l ks"
  shows "Contains cmp l k = Some (\<exists>a \<in> set ks. cmp k a = 0)"
proof -
  obtain ids where ids: "lists_nodes cmp l ids" "map (sl_key l) ids = ks" using assms by (auto simp: represents_def)
  obtain hh where hh: "skip_inv cmp l ids hh" "filter (\<lambda>a. 0 < hh a) (since l k ids) = since l k ids"
    using lists_nodes_all [OF ids(1)] split_sets(2) [of l k ids] by auto
  let ?as = "before l k ids" and ?bs = "since l k ids"
  have split: "set ks = sl_key l ` set ?as \<union> sl_key l ` set ?bs" using ids(2) before_since [of l k ids] by (metis image_Un set_append set_map)
  have as: "cmp k (sl_key l a) \<noteq> 0" if "a \<in> set ?as" for a using before_less [OF that] zero_sym [of k "sl_key l a"] by simp
  show ?thesis
  proof (cases ?bs)
    case Nil
    then show ?thesis using as split by (auto simp: Contains_def find_ge_all [OF hh(1)])
  next
    case (Cons b bs)
    have b: "b < length (nodes l)" "\<not> cmp (sl_key l b) k < 0" using hh(1) Cons split_sets(2) [of l k ids] since_ge [of l ids b k]
      by (auto simp: skip_inv_def)
    have "cmp k (sl_key l c) \<noteq> 0" if "c \<in> set bs" for c
    proof -
      have "sorted_wrt (\<lambda>a b. cmp (sl_key l a) (sl_key l b) < 0) (?as @ b # bs)"
        using hh(1) before_since [of l k ids] Cons by (simp add: skip_inv_def)
      then have "cmp (sl_key l b) (sl_key l c) < 0" using that by (simp add: sorted_wrt_append)
      moreover have "cmp k (sl_key l b) \<le> 0" using b(2) flip [of "sl_key l b" k] by simp
      ultimately show ?thesis using le_less_trans [of k "sl_key l b" "sl_key l c"] by simp
    qed
    then show ?thesis using as split Cons b(1) hh(2) by (auto simp: Contains_def find_ge_all [OF hh(1)] key_of_def)
  qed
qed

end

lemma head_links:
  assumes "nodes l = [\<lparr>node_key = any, next_links = replicate m None\<rparr>]" "n \<le> m"
  shows "nodes (foldl (\<lambda>l i. Node_SetNext 0 i None l) l [0..<n]) =
      [\<lparr>node_key = any, next_links = replicate n (Some None) @ replicate (m - n) None\<rparr>] \<and>
    max_height (foldl (\<lambda>l i. Node_SetNext 0 i None l) l [0..<n]) = max_height l"
  using assms(2)
proof (induction n)
  case (Suc n)
  have "m - n = Suc (m - Suc n)" using Suc.prems by simp
  then have "replicate (m - n) (None :: nat option option) = None # replicate (m - Suc n) None" by simp
  then show ?case using Suc by (simp add: Node_SetNext_def list_update_append replicate_app_Cons_same)
qed (simp add: assms(1))

lemma SkipList_new_nodes:
  "nodes (SkipList_new any) = [\<lparr>node_key = any, next_links = replicate 12 (Some None)\<rparr>]" "max_height (SkipList_new any) = 1"
  using head_links [of "snd (NewNode any 12 \<lparr>nodes = [], max_height = 1, rnd = Random_new 0xdeadbeef\<rparr>)" any 12 12]
  by (simp_all add: SkipList_new_def NewNode_def kMaxHeight_def Let_def)

lemma SkipList_new_empty: "lists_nodes cmp (SkipList_new any) []"
  by (auto simp: lists_nodes_def skip_inv_def SkipList_new_nodes kMaxHeight_def Node_Next_def)

subsection \<open>The random numbers\<close>

lemma unat_reduce: "unat (if c < w then w - c else w :: u32) = (if unat c < unat w then unat w - unat c else unat w)"
  by (cases "c < w") (simp_all add: word_less_nat_alt unat_sub word_le_nat_alt)

lemma mersenne_reduce:
  assumes "p = q * m + (q + r)" "\<not> m dvd p" "q + r < 2 * m"
  shows "(if m < q + r then q + r - m else q + r) = p mod (m :: nat)" "0 < (if m < q + r then q + r - m else q + r)"
proof -
  have e: "p mod m = (q + r) mod m" unfolding assms(1) by (rule mod_mult_self3)
  have "\<not> m dvd q + r" using assms(2) by (simp add: dvd_eq_mod_eq_0 e)
  then have n: "q + r \<noteq> m" "q + r \<noteq> 0" by (metis dvd_refl, metis dvd_0_right)
  show "(if m < q + r then q + r - m else q + r) = p mod m"
  proof (cases "m < q + r")
    case True
    then have "(q + r) mod m = q + r - m" using assms(3) le_mod_geq [of m "q + r"] by simp
    then show ?thesis using True e by simp
  next
    case False
    then have "q + r < m" using n(1) by simp
    then show ?thesis using False e by simp
  qed
  show "0 < (if m < q + r then q + r - m else q + r)" using n(2) by simp
qed

lemma Mersenne31: "(2 :: nat) ^ 31 - 1 = 2147483647"
  by simp

lemma unat_narrow_add: "unat x + unat y < 2 ^ 32 \<Longrightarrow> unat (ucast (x + y :: u64) :: u32) = unat x + unat y"
  by (simp add: unat_ucast unat_word_ariths)

lemma sum_bound:
  "(x :: nat) < 16807 \<Longrightarrow> y \<le> 2147483647 \<Longrightarrow> x + y < 2 ^ 32"
  "(x :: nat) < 16807 \<Longrightarrow> y \<le> 2147483647 \<Longrightarrow> x + y < 2 * 2147483647"
  by simp_all

lemma unat_numeral_M: "unat (2147483647 :: u32) = 2147483647"
  by simp

text \<open>The next random number is the seed times 16807 modulo the Mersenne prime 2 to the 31 less 1, computed
  with one shift and no division, and it is a seed again: it is never 0 or the modulus.\<close>

theorem Random_Next_is_lehmer:
  assumes "0 < unat seed" "unat seed < 2 ^ 31 - 1"
  shows "unat (Random_Next seed) = (unat seed * 16807) mod (2 ^ 31 - 1) \<and>
    0 < unat (Random_Next seed) \<and> unat (Random_Next seed) < 2 ^ 31 - 1"
proof -
  let ?M = "2147483647 :: nat" and ?p = "unat seed * 16807"
  have p: "unat (ucast seed * 16807 :: u64) = ?p" using assms(2) by (simp add: unat_word_ariths)
  have hi: "unat (drop_bit 31 (ucast seed * 16807 :: u64)) = ?p div 2 ^ 31" by (simp only: unat_drop_bit_eq drop_bit_nat_def p)
  have "(ucast seed * 16807 :: u64) AND 2147483647 = take_bit 31 (ucast seed * 16807)"
    by (simp add: take_bit_eq_mask mask_eq_exp_minus_1)
  then have lo: "unat ((ucast seed * 16807 :: u64) AND 2147483647) = ?p mod 2 ^ 31"
    by (simp only: unsigned_take_bit_eq take_bit_nat_def p)
  let ?s = "?p div 2 ^ 31 + ?p mod 2 ^ 31"
  have b: "?p div 2 ^ 31 < 16807" "?p mod 2 ^ 31 \<le> ?M" using assms(2) by (simp_all add: div_less_iff_less_mult)
  have "m = m div 2 ^ 31 * ?M + (m div 2 ^ 31 + m mod 2 ^ 31)" for m :: nat
    using div_mult_mod_eq [of m "2 ^ 31"] by simp
  then have pe: "?p = ?p div 2 ^ 31 * ?M + ?s" .
  have s: "unat (ucast (drop_bit 31 (ucast seed * 16807 :: u64) + (ucast seed * 16807 AND 2147483647)) :: u32) = ?s"
    using unat_narrow_add [of "drop_bit 31 (ucast seed * 16807)" "ucast seed * 16807 AND 2147483647"] sum_bound(1) [OF b]
    unfolding hi lo by blast
  have nd: "\<not> ?M dvd ?p"
  proof
    assume "?M dvd ?p"
    moreover have "coprime ?M 16807" by (simp add: coprime_iff_gcd_eq_1 gcd_non_0_nat)
    ultimately have "?M dvd unat seed" by (simp add: coprime_dvd_mult_left_iff)
    then show False using assms by (auto dest: dvd_imp_le)
  qed
  define w where "w = (ucast (drop_bit 31 (ucast seed * 16807 :: u64) + (ucast seed * 16807 AND 2147483647)) :: u32)"
  have w: "unat w = ?s" unfolding w_def by (rule s)
  have R: "Random_Next seed = (if 2147483647 < w then w - 2147483647 else w)"
    by (simp only: Random_Next_def Let_def w_def)
  have u: "unat (Random_Next seed) = (if ?M < ?s then ?s - ?M else ?s)"
    unfolding R unat_reduce w by (simp only: unat_numeral_M)
  have "?s < 2 * ?M" using b by (rule sum_bound(2))
  then have r: "unat (Random_Next seed) = ?p mod ?M" "0 < unat (Random_Next seed)"
    unfolding u using mersenne_reduce [OF pe nd] by blast+
  moreover have "?p mod ?M < ?M" by simp
  ultimately show ?thesis unfolding Mersenne31 by metis
qed

lemma Random_Next_is_lehmer_witness: "unat (Random_Next 3) = 50421 \<and> unat (Random_Next 3) < 2 ^ 31 - 1"
  using Random_Next_is_lehmer [of 3] by simp

subsection \<open>The contract of the list\<close>

text \<open>C14: A skip list is the ascending list of its keys: \<open>Contains\<close> answers whether a key compares equal to
  one of them, \<open>Seek\<close> stops at the first that is not below the target, and \<open>Insert\<close> of a key that is not
  there puts it in its place, whatever height the random numbers give its node; no operation reads a
  node or a link that does not exist or was never set, and every search ends.\<close>

theorem skiplist_refines_sorted_list:
  assumes "comparator cmp UNIV" "represents cmp l ks"
  shows "sorted_wrt (\<lambda>a b. cmp a b < 0) ks \<and>
    Contains cmp l k = Some (\<exists>a \<in> set ks. cmp k a = 0) \<and>
    (\<exists>it. Iter_Seek cmp l k = Some it \<and> Iter_key l it = find (\<lambda>a. 0 \<le> cmp a k) ks) \<and>
    ((\<exists>a \<in> set ks. cmp a k = 0) \<or> (\<exists>l'. Insert cmp k l = Some l' \<and> represents cmp l' (insert_key cmp k ks)))"
proof -
  note ko = key_order.intro [OF assms(1)]
  show ?thesis
    using key_order.represents_sorted [OF ko assms(2)] key_order.Contains_represents [OF ko assms(2), of k]
      key_order.Seek_key [OF ko assms(2), of k] key_order.Insert_represents [OF ko assms(2), of k]
    by blast
qed

text \<open>C22: The iterator visits the nodes in the order of their keys: from a node \<open>Next\<close> goes to the following
  one and \<open>Prev\<close>, which searches from the head as the nodes have no link back, to the one before, and
  both ends give the invalid iterator; \<open>SeekToFirst\<close> and \<open>SeekToLast\<close> give the ends.\<close>

theorem skiplist_iterator_walks:
  assumes "comparator cmp UNIV" "lists_nodes cmp l ids" "j < length ids"
  shows "Iter_Next l (node_nth ids j) = Some (node_nth ids (Suc j)) \<and>
    Iter_Prev cmp l (node_nth ids j) = Some (if j = 0 then None else node_nth ids (j - 1)) \<and>
    Iter_SeekToFirst l = Some (node_nth ids 0) \<and> Iter_SeekToLast l = Some (node_nth ids (length ids - 1))"
proof -
  note ko = key_order.intro [OF assms(1)]
  have "ids \<noteq> []" using assms(3) by auto
  then show ?thesis
    using key_order.Next_step [OF ko assms(2)] key_order.Prev_step [OF ko assms(2,3)] key_order.SeekToLast_last [OF ko assms(2)] assms(3)
    by (simp add: node_nth_def last_conv_nth)
qed

text \<open>Witnesses: a list of numbers.\<close>

definition int_compare :: "int \<Rightarrow> int \<Rightarrow> int" where
  "int_compare a b = a - b"

interpretation numbers: key_order int_compare
  by unfold_locales (simp_all add: int_compare_def)

lemma skiplist_refines_sorted_list_witness:
  "\<exists>l'. Insert int_compare 5 (SkipList_new 0) = Some l' \<and> represents int_compare l' [5]"
proof -
  have "represents int_compare (SkipList_new 0) []"
    unfolding represents_def using SkipList_new_empty by fastforce
  then show ?thesis
    using skiplist_refines_sorted_list [OF numbers.comparator_axioms, of "SkipList_new 0" "[]" 5] by (simp add: insert_key_def)
qed

lemma skiplist_iterator_walks_witness:
  "\<exists>l x. Insert int_compare 5 (SkipList_new 0) = Some l \<and>
    Iter_SeekToFirst l = Some (Some x) \<and> Iter_Next l (Some x) = Some None \<and> Iter_Prev int_compare l (Some x) = Some None"
proof -
  obtain l x where l: "Insert int_compare 5 (SkipList_new 0) = Some l" "lists_nodes int_compare l [x]"
    using numbers.Insert_lists [OF SkipList_new_empty, of 0 5] by (auto simp: numbers.before_def numbers.since_def)
  then show ?thesis
    using skiplist_iterator_walks [OF numbers.comparator_axioms l(2), of 0] by (auto simp: node_nth_def)
qed

end
