(* ===== verification/Ldb_Memtable.thy ===== *)
theory Ldb_Memtable
  imports Ldb_Format Ldb_Skiplist
begin

text \<open>
  db/memtable.h and db/memtable.cc of leveldb. An entry, which the code points to in its arena, is the
  list of its bytes; the null pointer that the skip list's head holds is the empty list. The result
  \<open>None\<close> of an operation is one the skip list does not define.
\<close>

text \<open>The slice behind a length of at most five bytes, which is not checked.\<close>

definition memtable_slice :: "u8 list \<Rightarrow> u8 list" where
  "memtable_slice data =
     (case GetVarint32Ptr (take 5 data) of
        None \<Rightarrow> []
      | Some (len, p) \<Rightarrow> take (unat len) (drop (length (take 5 data) - length p) data))"

definition MemTable_KeyComparator :: "comparator_ops \<Rightarrow> u8 list \<Rightarrow> u8 list \<Rightarrow> int" where
  "MemTable_KeyComparator C aptr bptr = InternalKey_Compare C (memtable_slice aptr) (memtable_slice bptr)"

definition EncodeKey :: "u8 list \<Rightarrow> u8 list" where
  "EncodeKey target = PutVarint32 [] (word_of_nat (length target)) @ target"

record memtable =
  user_comparator :: comparator_ops
  table :: "u8 list skiplist"
  refs :: int

definition MemTable_new :: "comparator_ops \<Rightarrow> memtable" where
  "MemTable_new C = \<lparr>user_comparator = C, table = SkipList_new [], refs = 0\<rparr>"

definition MemTable_Ref :: "memtable \<Rightarrow> memtable" where
  "MemTable_Ref m = m\<lparr>refs := refs m + 1\<rparr>"

text \<open>\<open>None\<close> when the table is deleted.\<close>

definition MemTable_Unref :: "memtable \<Rightarrow> memtable option" where
  "MemTable_Unref m = (let m = m\<lparr>refs := refs m - 1\<rparr> in if refs m \<le> 0 then None else Some m)"

definition memtable_entry :: "u64 \<Rightarrow> u8 \<Rightarrow> u8 list \<Rightarrow> u8 list \<Rightarrow> u8 list" where
  "memtable_entry s t key value =
     (let key_size = length key;
          val_size = length value;
          internal_key_size = key_size + 8
      in EncodeVarint32 (word_of_nat internal_key_size) @ key @ EncodeFixed64 (push_bit 8 s OR ucast t) @
         EncodeVarint32 (word_of_nat val_size) @ value)"

definition MemTable_Add :: "u64 \<Rightarrow> u8 \<Rightarrow> u8 list \<Rightarrow> u8 list \<Rightarrow> memtable \<Rightarrow> memtable option" where
  "MemTable_Add s t key value m =
     map_option (\<lambda>l. m\<lparr>table := l\<rparr>)
       (Insert (MemTable_KeyComparator (user_comparator m)) (memtable_entry s t key value) (table m))"

datatype get_result = Found "u8 list" | NotFound | Absent

text \<open>The entry at which the search stops: it counts only if it is of the same user key.\<close>

definition entry_result :: "comparator_ops \<Rightarrow> u8 list \<Rightarrow> u8 list \<Rightarrow> get_result option" where
  "entry_result C user entry =
     (case GetVarint32Ptr (take 5 entry) of
        None \<Rightarrow> None
      | Some (key_length, p) \<Rightarrow>
          (let key_ptr = drop (length (take 5 entry) - length p) entry
           in if compare_keys C (take (unat key_length - 8) key_ptr) user = 0 then
                (let tag = DecodeFixed64 (drop (unat key_length - 8) key_ptr)
                 in if (ucast (tag AND 0xff) :: u8) = kTypeValue
                    then Some (Found (memtable_slice (drop (unat key_length) key_ptr)))
                    else if (ucast (tag AND 0xff) :: u8) = kTypeDeletion then Some NotFound
                    else Some Absent)
              else Some Absent))"

text \<open>\<open>Get\<close>: a value, a deletion (\<open>NotFound\<close>, true in the code), or no entry (false in the code).\<close>

definition MemTable_Get :: "lookup_key \<Rightarrow> memtable \<Rightarrow> get_result option" where
  "MemTable_Get key m =
     (let memkey = memtable_key key
      in case Iter_Seek (MemTable_KeyComparator (user_comparator m)) (table m) memkey of
           None \<Rightarrow> None
         | Some it \<Rightarrow>
             if Iter_Valid it then
               (case Iter_key (table m) it of
                  None \<Rightarrow> None
                | Some entry \<Rightarrow> entry_result (user_comparator m) (lookup_user_key key) entry)
             else Some Absent)"

subsection \<open>The iterator of a memtable\<close>

definition MemIter_Seek :: "memtable \<Rightarrow> u8 list \<Rightarrow> sl_iter option" where
  "MemIter_Seek m k = Iter_Seek (MemTable_KeyComparator (user_comparator m)) (table m) (EncodeKey k)"

definition MemIter_Prev :: "memtable \<Rightarrow> sl_iter \<Rightarrow> sl_iter option" where
  "MemIter_Prev m it = Iter_Prev (MemTable_KeyComparator (user_comparator m)) (table m) it"

definition MemIter_Next :: "memtable \<Rightarrow> sl_iter \<Rightarrow> sl_iter option" where
  "MemIter_Next m it = Iter_Next (table m) it"

definition MemIter_SeekToFirst :: "memtable \<Rightarrow> sl_iter option" where
  "MemIter_SeekToFirst m = Iter_SeekToFirst (table m)"

definition MemIter_SeekToLast :: "memtable \<Rightarrow> sl_iter option" where
  "MemIter_SeekToLast m = Iter_SeekToLast (table m)"

definition MemIter_key :: "memtable \<Rightarrow> sl_iter \<Rightarrow> u8 list option" where
  "MemIter_key m it = map_option memtable_slice (Iter_key (table m) it)"

definition MemIter_value :: "memtable \<Rightarrow> sl_iter \<Rightarrow> u8 list option" where
  "MemIter_value m it =
     map_option (\<lambda>entry.
        case GetVarint32Ptr (take 5 entry) of
          None \<Rightarrow> []
        | Some (len, p) \<Rightarrow> memtable_slice (drop (unat len) (drop (length (take 5 entry) - length p) entry)))
      (Iter_key (table m) it)"

subsection \<open>Entries\<close>

lemma EncodeVarint32_length: "length (EncodeVarint32 w) \<le> 5"
proof -
  have "unat w < 128 ^ 5" using unat_bound [of w] by simp
  then show ?thesis unfolding EncodeVarint32_le128 by (intro le128_length) auto
qed

lemma varint_head:
  "GetVarint32Ptr (take 5 (EncodeVarint32 w @ rest)) = Some (w, take (5 - length (EncodeVarint32 w)) rest)"
  "length (take 5 (EncodeVarint32 w @ rest)) - length (take (5 - length (EncodeVarint32 w)) rest) = length (EncodeVarint32 w)"
proof -
  have t: "take 5 (EncodeVarint32 w @ rest) = EncodeVarint32 w @ take (5 - length (EncodeVarint32 w)) rest"
    using EncodeVarint32_length [of w] by simp
  show "GetVarint32Ptr (take 5 (EncodeVarint32 w @ rest)) = Some (w, take (5 - length (EncodeVarint32 w)) rest)"
    using GetVarint32_roundtrip [of w "take (5 - length (EncodeVarint32 w)) rest"]
    unfolding t by (auto simp: GetVarint32_def simp del: GetVarint32_roundtrip split: option.splits prod.splits)
  show "length (take 5 (EncodeVarint32 w @ rest)) - length (take (5 - length (EncodeVarint32 w)) rest) = length (EncodeVarint32 w)"
    unfolding t by simp
qed

lemma memtable_slice_prefixed:
  "length d < 2 ^ 32 \<Longrightarrow> memtable_slice (EncodeVarint32 (word_of_nat (length d)) @ d @ rest) = d"
  unfolding memtable_slice_def varint_head option.case prod.case by (simp add: unat_of_nat)

text \<open>An entry of the table: user key, sequence number, type and value.\<close>

type_synonym entry = "u8 list \<times> u64 \<times> u8 \<times> u8 list"

definition entry_bytes :: "entry \<Rightarrow> u8 list" where
  "entry_bytes = (\<lambda>(u, s, t, v). memtable_entry s t u v)"

definition good_entry :: "entry \<Rightarrow> bool" where
  "good_entry = (\<lambda>(u, s, t, v). length u + 8 < 2 ^ 32 \<and> s \<le> kMaxSequenceNumber \<and> t \<le> kTypeValue \<and> length v < 2 ^ 32)"

abbreviation (input) seq_of :: "entry \<Rightarrow> u64" where
  "seq_of e \<equiv> fst (snd e)"

lemma entry_bytes_eq:
  "entry_bytes (u, s, t, v) =
    EncodeVarint32 (word_of_nat (length (InternalKey u s t))) @ InternalKey u s t @ EncodeVarint32 (word_of_nat (length v)) @ v"
  by (simp add: entry_bytes_def memtable_entry_def Let_def InternalKey_bytes PackSequenceAndType_def)

lemma entry_slice: "good_entry (u, s, t, v) \<Longrightarrow> memtable_slice (entry_bytes (u, s, t, v)) = InternalKey u s t"
  unfolding entry_bytes_eq by (rule memtable_slice_prefixed) (simp add: good_entry_def InternalKey_bytes)

lemma lookup_slice:
  assumes "length k + 8 < 2 ^ 32"
  shows "memtable_slice (memtable_key (LookupKey k s)) = InternalKey k s kValueTypeForSeek" "lookup_user_key (LookupKey k s) = k"
proof -
  have "word_of_nat (length k) + 8 = (word_of_nat (length (InternalKey k s kValueTypeForSeek)) :: u32)" by (simp add: InternalKey_bytes)
  then have m: "memtable_key (LookupKey k s) =
      EncodeVarint32 (word_of_nat (length (InternalKey k s kValueTypeForSeek))) @ InternalKey k s kValueTypeForSeek"
    by (simp add: memtable_key_def LookupKey_def Let_def InternalKey_bytes)
  show "memtable_slice (memtable_key (LookupKey k s)) = InternalKey k s kValueTypeForSeek"
    using memtable_slice_prefixed [of "InternalKey k s kValueTypeForSeek" "[]"] assms by (simp add: m InternalKey_bytes)
  show "lookup_user_key (LookupKey k s) = k" by (simp add: lookup_user_key_def LookupKey_def Let_def)
qed

text \<open>The table's order is that of the internal keys: user keys ascending, sequence numbers descending.\<close>

abbreviation table_compare :: "u8 list \<Rightarrow> u8 list \<Rightarrow> int" where
  "table_compare \<equiv> MemTable_KeyComparator BytewiseComparator"

lemma table_comparator: "comparator table_compare UNIV"
  unfolding MemTable_KeyComparator_def [abs_def] by (rule comparator_key [OF internal.comparator_axioms]) simp

interpretation entries: key_order table_compare
  by (rule key_order.intro) (rule table_comparator)

lemma entry_seek:
  assumes "good_entry (u', s', t, v)" "length u + 8 < 2 ^ 32" "s \<le> kMaxSequenceNumber"
  shows "table_compare (entry_bytes (u', s', t, v)) (memtable_key (LookupKey u s)) < 0 \<longleftrightarrow>
    Slice_compare u' u < 0 \<or> (u' = u \<and> s < s')"
  using assms seek_key_order [OF assms(3), of s' t u' u]
  by (simp add: MemTable_KeyComparator_def entry_slice lookup_slice good_entry_def)

lemma entry_order:
  assumes "good_entry (u, s, t, v)" "good_entry (u', s', t', v')" "table_compare (entry_bytes (u, s, t, v)) (entry_bytes (u', s', t', v')) \<le> 0"
  shows "Slice_compare u u' < 0 \<or> (u = u' \<and> s' \<le> s)"
proof -
  have b: "s \<le> kMaxSequenceNumber" "s' \<le> kMaxSequenceNumber" using assms(1,2) by (auto simp: good_entry_def)
  have "InternalKey_Compare BytewiseComparator (InternalKey u s t) (InternalKey u' s' t') \<le> 0"
    using assms(3) by (simp add: MemTable_KeyComparator_def entry_slice assms(1,2))
  then have "Slice_compare u u' < 0 \<or> (u = u' \<and> PackSequenceAndType s' t' \<le> PackSequenceAndType s t)"
    by (auto simp: InternalKey_bytes InternalKey_Compare_numbers BytewiseComparator_def Let_def order.order_iff_strict split: if_splits)
  moreover have "s' \<le> s" if "PackSequenceAndType s' t' \<le> PackSequenceAndType s t"
  proof -
    have "unat s' * 256 + unat t' \<le> unat s * 256 + unat t"
      using that unfolding word_le_nat_alt Pack_unat [OF b(1)] Pack_unat [OF b(2)] .
    then show ?thesis using unat_bound [of t] by (simp add: word_le_nat_alt)
  qed
  ultimately show ?thesis by blast
qed

subsection \<open>What a lookup finds\<close>

lemma entry_result_good:
  assumes "good_entry (u, s, t, v)"
  shows "entry_result BytewiseComparator k (entry_bytes (u, s, t, v)) =
    Some (if u = k then (if t = kTypeValue then Found v else NotFound) else Absent)"
proof -
  let ?w = "word_of_nat (length (InternalKey u s t)) :: u32" and ?r = "EncodeVarint32 (word_of_nat (length v)) @ v"
  have w: "unat ?w = length u + 8" using assms unfolding unat_of_nat by (simp add: InternalKey_bytes good_entry_def)
  have kp: "drop (length (EncodeVarint32 ?w)) (EncodeVarint32 ?w @ InternalKey u s t @ ?r) = InternalKey u s t @ ?r" by simp
  have user: "take (length u + 8 - 8) (InternalKey u s t @ ?r) = u" by (simp add: InternalKey_bytes)
  have num: "DecodeFixed64 (drop (length u + 8 - 8) (InternalKey u s t @ ?r)) = PackSequenceAndType s t"
    by (simp add: InternalKey_bytes)
  have vp: "memtable_slice (drop (length u + 8) (InternalKey u s t @ ?r)) = v"
    using memtable_slice_prefixed [of v "[]"] assms by (simp add: InternalKey_bytes good_entry_def)
  have tag: "(ucast (PackSequenceAndType s t AND 0xff) :: u8) = t"
    using ParseInternalKey_roundtrip [of s t u] assms
    by (auto simp: good_entry_def ParseInternalKey_def InternalKey_bytes Let_def split: if_splits)
  have "t = kTypeValue \<or> t = kTypeDeletion"
    using assms by (auto simp: good_entry_def kTypeValue_def kTypeDeletion_def) (simp add: word_le_nat_alt word_unat_eq_iff)
  then show ?thesis
    unfolding entry_result_def entry_bytes_eq varint_head option.case prod.case Let_def w kp user num vp tag
    by (auto simp: BytewiseComparator_def kTypeValue_def kTypeDeletion_def)
qed

text \<open>A memtable holds the entries of a history, in the order of its table.\<close>

definition holds :: "memtable \<Rightarrow> entry list \<Rightarrow> bool" where
  "holds m hist \<longleftrightarrow> user_comparator m = BytewiseComparator \<and>
     (\<exists>es. represents table_compare (table m) (map entry_bytes es) \<and> set es = set hist)"

lemma holds_new: "holds (MemTable_new BytewiseComparator) []"
  unfolding holds_def represents_def MemTable_new_def using SkipList_new_empty by fastforce

lemma holds_Add:
  assumes "holds m hist" "good_entry (u, s, t, v)" "\<And>e. e \<in> set hist \<Longrightarrow> good_entry e \<and> seq_of e \<noteq> s"
  shows "\<exists>m'. MemTable_Add s t u v m = Some m' \<and> holds m' (hist @ [(u, s, t, v)])"
proof -
  obtain es where es: "represents table_compare (table m) (map entry_bytes es)" "set es = set hist"
    and C: "user_comparator m = BytewiseComparator" using assms(1) by (auto simp: holds_def)
  let ?k = "entry_bytes (u, s, t, v)"
  have ne: "table_compare a ?k \<noteq> 0" if a: "a \<in> set (map entry_bytes es)" for a
  proof
    assume z: "table_compare a ?k = 0"
    obtain u' s' t' v' where e: "a = entry_bytes (u', s', t', v')" "(u', s', t', v') \<in> set hist" using a es(2) by force
    have z': "table_compare ?k a = 0" using z comparator.zero_sym [OF table_comparator] by simp
    have "good_entry (u', s', t', v')" "s' \<noteq> s" using assms(3) [OF e(2)] by auto
    moreover have "s \<le> s'" "s' \<le> s"
      using entry_order [OF \<open>good_entry (u', s', t', v')\<close> assms(2)] entry_order [OF assms(2) \<open>good_entry (u', s', t', v')\<close>] z z' e(1)
        Slice_compare_flip [of u u'] by auto
    ultimately show False by simp
  qed
  obtain l' where l': "Insert table_compare ?k (table m) = Some l'"
    "represents table_compare l' (insert_key table_compare ?k (map entry_bytes es))"
    using entries.Insert_represents [OF es(1) ne] by blast
  define P where "P = (\<lambda>e. table_compare (entry_bytes e) ?k < 0)"
  have "insert_key table_compare ?k (map entry_bytes es) = map entry_bytes (takeWhile P es @ (u, s, t, v) # dropWhile P es)"
    by (simp add: insert_key_def takeWhile_map dropWhile_map comp_def P_def)
  moreover have "set (takeWhile P es @ (u, s, t, v) # dropWhile P es) = set (hist @ [(u, s, t, v)])"
    using es(2) by (metis (no_types, lifting) Un_insert_left Un_insert_right list.set(2) list.simps(15) set_append sup_bot.right_neutral takeWhile_dropWhile_id list.set(1))
  ultimately have "holds (m\<lparr>table := l'\<rparr>) (hist @ [(u, s, t, v)])"
    using l'(2) C unfolding holds_def
    by (intro conjI exI [of _ "takeWhile P es @ (u, s, t, v) # dropWhile P es"]) simp_all
  moreover have "MemTable_Add s t u v m = Some (m\<lparr>table := l'\<rparr>)"
    using l'(1) C by (simp add: MemTable_Add_def entry_bytes_def)
  ultimately show ?thesis by blast
qed

lemma find_of_map: "find P (map f xs) = map_option f (find (\<lambda>x. P (f x)) xs)"
  by (induction xs) auto

lemma find_first_SomeD:
  "find P xs = Some x \<Longrightarrow> \<exists>as bs. xs = as @ x # bs \<and> P x \<and> (\<forall>a \<in> set as. \<not> P a)"
  by (induction xs) (auto split: if_splits, (metis append_Cons append_Nil empty_iff list.set(1) set_ConsD)+)

text \<open>The last entry of the history for the key that the snapshot sees.\<close>

definition latest :: "entry list \<Rightarrow> u8 list \<Rightarrow> u64 \<Rightarrow> entry option" where
  "latest hist k q = find (\<lambda>(u, s, t, v). u = k \<and> s \<le> q) (rev hist)"

definition seen :: "entry option \<Rightarrow> get_result" where
  "seen e = (case e of None \<Rightarrow> Absent | Some (u, s, t, v) \<Rightarrow> if t = kTypeValue then Found v else NotFound)"

lemma latest_SomeI:
  assumes "sorted_wrt (\<lambda>a b. seq_of a < seq_of b) hist" "(k, s, t, v) \<in> set hist" "s \<le> q"
    "\<And>s' t' v'. (k, s', t', v') \<in> set hist \<Longrightarrow> s' \<le> q \<Longrightarrow> s' \<le> s"
  shows "latest hist k q = Some (k, s, t, v)"
proof -
  obtain as bs where h: "hist = as @ (k, s, t, v) # bs" using split_list [OF assms(2)] by blast
  have "\<not> (u = k \<and> s' \<le> q)" if b: "(u, s', t', v') \<in> set bs" for u s' t' v'
  proof -
    have "s < s'" using assms(1) b unfolding h by (auto simp: sorted_wrt_append)
    moreover have "u = k \<Longrightarrow> s' \<le> q \<Longrightarrow> s' \<le> s" using assms(4) [of s' t' v'] b unfolding h by auto
    ultimately show ?thesis by force
  qed
  then have "find (\<lambda>(u, s, t, v). u = k \<and> s \<le> q) (rev bs) = None" by (auto simp: find_None_iff)
  moreover have "find P (xs @ ys) = (case find P xs of None \<Rightarrow> find P ys | Some x \<Rightarrow> Some x)" for P and xs ys :: "entry list"
    by (induction xs) auto
  ultimately show ?thesis unfolding latest_def h using assms(3) by simp
qed

lemma holds_Get:
  assumes "holds m hist" "sorted_wrt (\<lambda>a b. seq_of a < seq_of b) hist" "\<And>e. e \<in> set hist \<Longrightarrow> good_entry e"
    "length k + 8 < 2 ^ 32" "q \<le> kMaxSequenceNumber"
  shows "MemTable_Get (LookupKey k q) m = Some (seen (latest hist k q))"
proof -
  obtain es where es: "represents table_compare (table m) (map entry_bytes es)" "set es = set hist"
    and C: "user_comparator m = BytewiseComparator" using assms(1) by (auto simp: holds_def)
  obtain ids where ids: "lists_nodes table_compare (table m) ids" "map (sl_key (table m)) ids = map entry_bytes es"
    using es(1) by (auto simp: represents_def)
  let ?mk = "memtable_key (LookupKey k q)"
  define P where "P = (\<lambda>e. 0 \<le> table_compare (entry_bytes e) ?mk)"
  have P: "P (u, s, t, v) \<longleftrightarrow> \<not> (Slice_compare u k < 0 \<or> (u = k \<and> q < s))" if "(u, s, t, v) \<in> set es" for u s t v
    using entry_seek [OF _ assms(4,5), of u s t v] assms(3) that es(2) unfolding P_def by fastforce
  have srt: "sorted_wrt (\<lambda>a b. table_compare (entry_bytes a) (entry_bytes b) < 0) es"
    using entries.represents_sorted [OF es(1)] by (simp add: sorted_wrt_map)
  obtain it where seek: "Iter_Seek table_compare (table m) ?mk = Some it" "Iter_key (table m) it = map_option entry_bytes (find P es)"
    "Iter_Valid it \<longleftrightarrow> find P es \<noteq> None"
    using entries.Seek_key [OF es(1), of ?mk] by (auto simp: find_of_map P_def)
  show ?thesis
  proof (cases "find P es")
    case None
    then have "\<not> P (k, s, t, v)" if "(k, s, t, v) \<in> set hist" for s t v using that es(2) by (auto simp: find_None_iff)
    then have "q < s" if "(k, s, t, v) \<in> set hist" for s t v using that P [of k s t v] es(2) by auto
    then have "latest hist k q = None" by (auto simp: latest_def find_None_iff not_le)
    moreover have "MemTable_Get (LookupKey k q) m = Some Absent"
      using seek None C by (simp add: MemTable_Get_def Let_def)
    ultimately show ?thesis by (simp add: seen_def)
  next
    case (Some e)
    obtain u s t v where e: "e = (u, s, t, v)" by (cases e)
    obtain as bs where ab: "es = as @ e # bs" "P e" "\<forall>a \<in> set as. \<not> P a" using find_first_SomeD [OF Some] by blast
    have g: "good_entry (u, s, t, v)" using assms(3) [of e] es(2) ab(1) e by auto
    have "MemTable_Get (LookupKey k q) m = entry_result BytewiseComparator k (entry_bytes e)"
      using seek Some C assms(4) by (simp add: MemTable_Get_def Let_def lookup_slice)
    then have get: "MemTable_Get (LookupKey k q) m =
        Some (if u = k then (if t = kTypeValue then Found v else NotFound) else Absent)"
      using entry_result_good [OF g] e by simp
    have later: "Slice_compare u k < 0 \<or> (u = k \<and> s' \<le> s)" if h: "(k, s', t', v') \<in> set hist" "s' \<le> q" for s' t' v'
    proof -
      have in_es: "(k, s', t', v') \<in> set es" using h(1) es(2) by simp
      have "P (k, s', t', v')" using P [OF in_es] h(2) by simp
      then have "(k, s', t', v') = e \<or> (k, s', t', v') \<in> set bs" using in_es ab(1,3) by auto
      then show ?thesis
      proof
        assume "(k, s', t', v') \<in> set bs"
        then have "table_compare (entry_bytes e) (entry_bytes (k, s', t', v')) < 0" using srt ab(1) by (simp add: sorted_wrt_append)
        then show ?thesis using entry_order [OF g, of k s' t' v'] assms(3) [OF h(1)] e by simp
      qed (simp add: e)
    qed
    have Pe: "\<not> (Slice_compare u k < 0 \<or> (u = k \<and> q < s))" using P [of u s t v] ab(1,2) e by simp
    show ?thesis
    proof (cases "u = k")
      case True
      then have "latest hist k q = Some (k, s, t, v)"
        using later Pe ab(1) e es(2) by (intro latest_SomeI [OF assms(2)]) auto
      then show ?thesis using get True by (simp add: seen_def)
    next
      case False
      then have "\<not> s' \<le> q" if "(k, s', t', v') \<in> set hist" for s' t' v' using later [OF that] Pe by blast
      then have "latest hist k q = None" by (auto simp: latest_def find_None_iff)
      then show ?thesis using get False by (simp add: seen_def)
    qed
  qed
qed

fun write_history :: "entry list \<Rightarrow> memtable \<Rightarrow> memtable option" where
  "write_history [] m = Some m"
| "write_history ((u, s, t, v) # es) m = (case MemTable_Add s t u v m of None \<Rightarrow> None | Some m \<Rightarrow> write_history es m)"

definition good_history :: "entry list \<Rightarrow> bool" where
  "good_history hist \<longleftrightarrow> sorted_wrt (\<lambda>a b. seq_of a < seq_of b) hist \<and> list_all good_entry hist"

lemma write_history_holds:
  assumes "holds m old" "good_history (old @ hist)"
  shows "\<exists>m'. write_history hist m = Some m' \<and> holds m' (old @ hist)"
  using assms
proof (induction hist arbitrary: old m)
  case (Cons e hist)
  obtain u s t v where e: "e = (u, s, t, v)" by (cases e)
  have "good_entry (u, s, t, v)" "\<And>e. e \<in> set old \<Longrightarrow> good_entry e \<and> seq_of e \<noteq> s"
    using Cons.prems(2) e by (auto simp: good_history_def sorted_wrt_append list_all_iff)
  then obtain m1 where m1: "MemTable_Add s t u v m = Some m1" "holds m1 (old @ [(u, s, t, v)])"
    using holds_Add [OF Cons.prems(1)] by blast
  then show ?case using Cons.IH [OF m1(2)] Cons.prems(2) e by simp
qed simp

text \<open>C13: Writing a history of values and deletions with increasing sequence numbers into a new memtable
  never fails, and a lookup at a snapshot returns what the last write of the key that the snapshot sees
  left there: its value, a deletion, or nothing when there is none; the skip list behind it finds the
  entry in whatever heights its random numbers gave the nodes.\<close>

theorem memtable_reads_latest:
  assumes "good_history hist" "length k + 8 < 2 ^ 32" "q \<le> kMaxSequenceNumber"
  shows "\<exists>m. write_history hist (MemTable_new BytewiseComparator) = Some m \<and>
    MemTable_Get (LookupKey k q) m = Some (seen (latest hist k q))"
proof -
  obtain m where m: "write_history hist (MemTable_new BytewiseComparator) = Some m" "holds m hist"
    using write_history_holds [OF holds_new, of hist] assms(1) by auto
  show ?thesis
    using holds_Get [OF m(2) _ _ assms(2,3)] assms(1) m(1) by (auto simp: good_history_def list_all_iff)
qed

lemma memtable_reads_latest_witness:
  "\<exists>m. write_history [([1], 5, kTypeValue, [7]), ([2], 6, kTypeValue, []), ([1], 7, kTypeDeletion, [])]
      (MemTable_new BytewiseComparator) = Some m \<and> MemTable_Get (LookupKey [1] 6) m = Some (Found [7])"
proof -
  let ?h = "[([1], 5, kTypeValue, [7]), ([2], 6, kTypeValue, []), ([1], 7, kTypeDeletion, [])] :: entry list"
  have "(7 :: u64) \<le> kMaxSequenceNumber" "(6 :: u64) \<le> kMaxSequenceNumber" "(5 :: u64) \<le> kMaxSequenceNumber"
    by (simp_all add: word_le_nat_alt kMax_unat)
  moreover have "good_history ?h"
    using calculation by (simp add: good_history_def good_entry_def kTypeDeletion_def kTypeValue_def)
  moreover have "seen (latest ?h [1] 6) = Found [7]"
    by (simp add: latest_def seen_def kTypeDeletion_def kTypeValue_def)
  ultimately show ?thesis using memtable_reads_latest [of ?h "[1]" 6] by simp
qed

end
