(* ===== verification/Ldb_Write_Batch.thy ===== *)
theory Ldb_Write_Batch
  imports Ldb_Memtable Ldb_Log
begin

text \<open>
  db/write_batch.cc and db/write_batch_internal.h of leveldb. A batch is its string \<open>rep_\<close>. The handler
  of \<open>Iterate\<close> is a function on a state of its own.
\<close>

definition batch_header :: nat where "batch_header = 12"

definition WriteBatch_Clear :: "u8 list" where
  "WriteBatch_Clear = replicate batch_header 0"

definition ApproximateSize :: "u8 list \<Rightarrow> nat" where
  "ApproximateSize rep = length rep"

definition Count :: "u8 list \<Rightarrow> int" where
  "Count rep = sint (DecodeFixed32 (drop 8 rep))"

definition SetCount :: "int \<Rightarrow> u8 list \<Rightarrow> u8 list" where
  "SetCount n rep = take 8 rep @ EncodeFixed32 (word_of_int n) @ drop 12 rep"

definition Sequence :: "u8 list \<Rightarrow> u64" where
  "Sequence rep = DecodeFixed64 rep"

definition SetSequence :: "u64 \<Rightarrow> u8 list \<Rightarrow> u8 list" where
  "SetSequence s rep = EncodeFixed64 s @ drop 8 rep"

definition SetContents :: "u8 list \<Rightarrow> u8 list" where
  "SetContents bytes = bytes"

definition WriteBatch_Put :: "u8 list \<Rightarrow> u8 list \<Rightarrow> u8 list \<Rightarrow> u8 list" where
  "WriteBatch_Put key value rep =
     (let rep = SetCount (Count rep + 1) rep;
          rep = rep @ [kTypeValue];
          rep = PutLengthPrefixedSlice rep key
      in PutLengthPrefixedSlice rep value)"

definition WriteBatch_Delete :: "u8 list \<Rightarrow> u8 list \<Rightarrow> u8 list" where
  "WriteBatch_Delete key rep =
     (let rep = SetCount (Count rep + 1) rep;
          rep = rep @ [kTypeDeletion]
      in PutLengthPrefixedSlice rep key)"

definition WriteBatch_Append :: "u8 list \<Rightarrow> u8 list \<Rightarrow> u8 list" where
  "WriteBatch_Append src dst = SetCount (Count dst + Count src) dst @ drop batch_header src"

datatype batch_op = Put_op "u8 list" "u8 list" | Delete_op "u8 list"

lemma GetVarint32_shrinks: "GetVarint32 p = (r, q) \<Longrightarrow> length q \<le> length p"
  by (auto simp: GetVarint32_def GetVarint32Ptr_spec split: option.splits if_splits)

lemma GetLengthPrefixedSlice_shrinks: "GetLengthPrefixedSlice p = (r, q) \<Longrightarrow> length q \<le> length p"
  using GetVarint32_shrinks [of p]
  by (fastforce simp: GetLengthPrefixedSlice_def bindC_def split: prod.splits option.splits if_splits)

text \<open>
  The loop of \<open>Iterate\<close>: the number of records found so far, the input, and the state of the handler.
\<close>

function iterate_loop :: "(batch_op \<Rightarrow> 's \<Rightarrow> 's) \<Rightarrow> nat \<Rightarrow> u8 list \<Rightarrow> 's \<Rightarrow> (status \<times> nat) \<times> 's" where
  "iterate_loop h found [] st = ((OK, found), st)"
| "iterate_loop h found (tag # input) st =
     (let found = found + 1
      in if tag = kTypeValue then
           (case GetLengthPrefixedSlice input of
              (None, input) \<Rightarrow> ((Corruption ''bad WriteBatch Put'', found), st)
            | (Some key, input) \<Rightarrow>
                (case GetLengthPrefixedSlice input of
                   (None, input) \<Rightarrow> ((Corruption ''bad WriteBatch Put'', found), st)
                 | (Some value, input) \<Rightarrow> iterate_loop h found input (h (Put_op key value) st)))
         else if tag = kTypeDeletion then
           (case GetLengthPrefixedSlice input of
              (None, input) \<Rightarrow> ((Corruption ''bad WriteBatch Delete'', found), st)
            | (Some key, input) \<Rightarrow> iterate_loop h found input (h (Delete_op key) st))
         else ((Corruption ''unknown WriteBatch tag'', found), st))"
  by pat_completeness auto
termination
  by (relation "measure (\<lambda>(h, found, input, st). length input)")
    (auto dest!: GetLengthPrefixedSlice_shrinks [OF sym])

declare iterate_loop.simps(2) [simp del]

definition Iterate :: "(batch_op \<Rightarrow> 's \<Rightarrow> 's) \<Rightarrow> u8 list \<Rightarrow> 's \<Rightarrow> status \<times> 's" where
  "Iterate h rep st =
     (if length rep < batch_header then (Corruption ''malformed WriteBatch (too small)'', st)
      else
        (case iterate_loop h 0 (drop batch_header rep) st of ((s, found), st) \<Rightarrow>
           if s \<noteq> OK then (s, st)
           else if int found \<noteq> Count rep then (Corruption ''WriteBatch has wrong count'', st)
           else (OK, st)))"

text \<open>The inserter's state is its sequence number and the memtable.\<close>

fun MemTableInserter :: "batch_op \<Rightarrow> u64 \<times> memtable option \<Rightarrow> u64 \<times> memtable option" where
  "MemTableInserter (Put_op key value) (s, m) = (s + 1, Option.bind m (MemTable_Add s kTypeValue key value))"
| "MemTableInserter (Delete_op key) (s, m) = (s + 1, Option.bind m (MemTable_Add s kTypeDeletion key []))"

definition InsertInto :: "u8 list \<Rightarrow> memtable \<Rightarrow> status \<times> memtable option" where
  "InsertInto rep m = (case Iterate MemTableInserter rep (Sequence rep, Some m) of (s, (_, m)) \<Rightarrow> (s, m))"

subsection \<open>What a batch holds\<close>

fun op_bytes :: "batch_op \<Rightarrow> u8 list" where
  "op_bytes (Put_op k v) =
     kTypeValue # EncodeVarint32 (word_of_nat (length k)) @ k @ EncodeVarint32 (word_of_nat (length v)) @ v"
| "op_bytes (Delete_op k) = kTypeDeletion # EncodeVarint32 (word_of_nat (length k)) @ k"

definition batch :: "u64 \<Rightarrow> batch_op list \<Rightarrow> u8 list" where
  "batch s ops = EncodeFixed64 s @ EncodeFixed32 (word_of_nat (length ops)) @ concat (map op_bytes ops)"

fun good_op :: "batch_op \<Rightarrow> bool" where
  "good_op (Put_op k v) \<longleftrightarrow> length k + 8 < 2 ^ 32 \<and> length v < 2 ^ 32"
| "good_op (Delete_op k) \<longleftrightarrow> length k + 8 < 2 ^ 32"

lemma Decode32_self [simp]: "DecodeFixed32 (EncodeFixed32 v @ xs) = v"
  by simp

lemma batch_parts [simp]:
  "Sequence (batch s ops) = s" "drop 12 (batch s ops) = concat (map op_bytes ops)" "take 8 (batch s ops) = EncodeFixed64 s"
  "DecodeFixed32 (drop 8 (batch s ops)) = word_of_nat (length ops)" "12 \<le> length (batch s ops)"
  by (simp_all add: batch_def Sequence_def)

lemma sint_count: "n < 2 ^ 31 \<Longrightarrow> sint (word_of_nat n :: u32) = int n"
  by (simp add: signed_of_nat signed_take_bit_int_eq_self)

lemma Count_batch [simp]: "length ops < 2 ^ 31 \<Longrightarrow> Count (batch s ops) = int (length ops)"
  by (simp add: Count_def sint_count)

lemma SetCount_batch: "SetCount (int n) (batch s ops) = EncodeFixed64 s @ EncodeFixed32 (word_of_nat n) @ concat (map op_bytes ops)"
  by (simp add: SetCount_def)

lemma Clear_batch: "WriteBatch_Clear = batch 0 []"
  by (simp add: WriteBatch_Clear_def batch_def batch_header_def EncodeFixed64_def EncodeFixed32_def eval_nat_numeral)

lemma SetSequence_batch: "SetSequence s' (batch s ops) = batch s' ops"
  by (simp add: SetSequence_def batch_def)

lemma Put_batch: "length ops < 2 ^ 31 - 1 \<Longrightarrow> WriteBatch_Put k v (batch s ops) = batch s (ops @ [Put_op k v])"
  using SetCount_batch [of "length ops + 1" s ops]
  by (simp add: WriteBatch_Put_def Let_def PutLengthPrefixedSlice_def PutVarint32_def batch_def [of s "ops @ _"] add.commute)

lemma Delete_batch: "length ops < 2 ^ 31 - 1 \<Longrightarrow> WriteBatch_Delete k (batch s ops) = batch s (ops @ [Delete_op k])"
  using SetCount_batch [of "length ops + 1" s ops]
  by (simp add: WriteBatch_Delete_def Let_def PutLengthPrefixedSlice_def PutVarint32_def batch_def [of s "ops @ _"] add.commute)

lemma Append_batch:
  "length ops + length ops' < 2 ^ 31 \<Longrightarrow> WriteBatch_Append (batch s' ops') (batch s ops) = batch s (ops @ ops')"
  using SetCount_batch [of "length ops + length ops'" s ops]
  by (simp add: WriteBatch_Append_def batch_header_def batch_def [of s "ops @ _"])

lemma iterate_loop_ops:
  "list_all good_op ops \<Longrightarrow> iterate_loop h n (concat (map op_bytes ops)) st = ((OK, n + length ops), fold h ops st)"
proof (induction ops arbitrary: n st)
  case (Cons x ops)
  then show ?case
    by (cases x) (simp_all add: iterate_loop.simps(2) Let_def GetLengthPrefixedSlice_roundtrip kTypeValue_def kTypeDeletion_def)
qed simp

lemma Iterate_batch:
  "list_all good_op ops \<Longrightarrow> length ops < 2 ^ 31 \<Longrightarrow> Iterate h (batch s ops) st = (OK, fold h ops st)"
  by (simp add: Iterate_def batch_header_def iterate_loop_ops not_less)

text \<open>A batch that the client builds.\<close>

fun add_op :: "u8 list \<Rightarrow> batch_op \<Rightarrow> u8 list" where
  "add_op rep (Put_op k v) = WriteBatch_Put k v rep"
| "add_op rep (Delete_op k) = WriteBatch_Delete k rep"

lemma add_ops_batch:
  "length ops + length ops' < 2 ^ 31 \<Longrightarrow> foldl add_op (batch s ops) ops' = batch s (ops @ ops')"
proof (induction ops' arbitrary: ops)
  case (Cons x ops')
  then have "length ops < 2 ^ 31 - 1" by simp
  then have "add_op (batch s ops) x = batch s (ops @ [x])" by (cases x) (simp_all only: add_op.simps Put_batch Delete_batch)
  then show ?case using Cons by simp
qed simp

text \<open>A batch to which the client adds values and deletions, or appends another such batch, gives them
  back to the handler of \<open>Iterate\<close> in the order in which they were added, unchanged, and ends well; its
  count is their number and its sequence number the one that was set.\<close>

theorem write_batch_roundtrip:
  assumes "list_all good_op (ops @ ops')" "length ops + length ops' < 2 ^ 31"
    and rep: "rep = SetSequence s (WriteBatch_Append (foldl add_op WriteBatch_Clear ops') (foldl add_op WriteBatch_Clear ops))"
  shows "Iterate h rep st = (OK, fold h (ops @ ops') st) \<and> Count rep = int (length ops + length ops') \<and> Sequence rep = s"
proof -
  have "rep = batch s (ops @ ops')"
    using assms(2) add_ops_batch [of "[]" ops 0] add_ops_batch [of "[]" ops' 0]
    by (simp add: rep Clear_batch Append_batch SetSequence_batch)
  then show ?thesis using assms(1,2) Iterate_batch [of "ops @ ops'" h s st] by simp
qed

lemma write_batch_roundtrip_witness:
  "Iterate (\<lambda>x xs. xs @ [x])
     (SetSequence 9 (WriteBatch_Append (foldl add_op WriteBatch_Clear [Delete_op [1]]) (foldl add_op WriteBatch_Clear [Put_op [1] [2, 3]])))
     [] = (OK, [Put_op [1] [2, 3], Delete_op [1]])"
  using write_batch_roundtrip [of "[Put_op [1] [2, 3]]" "[Delete_op [1]]" _ 9 "\<lambda>x xs. xs @ [x]" "[]", OF _ _ refl] by simp

subsection \<open>Into the memtable\<close>

fun entries_of :: "u64 \<Rightarrow> batch_op list \<Rightarrow> entry list" where
  "entries_of s [] = []"
| "entries_of s (Put_op k v # ops) = (k, s, kTypeValue, v) # entries_of (s + 1) ops"
| "entries_of s (Delete_op k # ops) = (k, s, kTypeDeletion, []) # entries_of (s + 1) ops"

lemma inserter_none: "\<exists>s'. fold MemTableInserter ops (s, None) = (s', None)"
  by (induction ops arbitrary: s) (auto, metis MemTableInserter.simps batch_op.exhaust bind.bind_lzero)

lemma inserter_history: "snd (fold MemTableInserter ops (s, Some m)) = write_history (entries_of s ops) m"
proof (induction ops arbitrary: s m)
  case (Cons x ops)
  then show ?case using inserter_none [of ops "s + 1"] by (cases x) (auto split: option.split)
qed simp

lemma InsertInto_batch:
  "list_all good_op ops \<Longrightarrow> length ops < 2 ^ 31 \<Longrightarrow> InsertInto (batch s ops) m = (OK, write_history (entries_of s ops) m)"
  using inserter_history [of ops s m] by (auto simp: InsertInto_def Iterate_batch split: prod.splits)

end
