(* ===== verification/Ldb_Db.thy ===== *)
theory Ldb_Db
  imports Ldb_Recovery Ldb_Write_Batch
begin

text \<open>
  The recovery of a log in db/db_impl.cc of leveldb: \<open>MaybeIgnoreError\<close> and \<open>RecoverLogFile\<close>, which
  reads the records, takes each for a batch, inserts it into a memtable, and hands a memtable that has
  grown too large, and the last one unless the log is reused, to \<open>WriteLevel0Table\<close>. What opening and
  reopening the log answers, when a memtable is too large (\<open>too_large\<close>) and whether building the
  \<open>i\<close>-th table succeeds (\<open>level0\<close>) are parameters; a table is the memtable it was built from.
\<close>

record recovery_env =
  log_io :: log_env
  open_status :: status \<comment> \<open>of \<open>NewSequentialFile\<close>\<close>
  append_ok :: bool \<comment> \<open>\<open>GetFileSize\<close> and \<open>NewAppendableFile\<close>\<close>
  paranoid_checks :: bool
  reuse_logs :: bool
  internal_comparator :: comparator_ops
  too_large :: "memtable \<Rightarrow> bool"
  level0 :: "nat \<Rightarrow> memtable \<Rightarrow> status"

record recovery =
  rec_status :: status
  mem :: "memtable option"
  max_sequence :: u64
  compactions :: nat
  save_manifest :: bool
  tables :: "memtable list" \<comment> \<open>the tables added to \<open>edit\<close>, oldest first\<close>
  db_mem :: "memtable option" \<comment> \<open>\<open>mem_\<close> of the database\<close>

definition MaybeIgnoreError :: "bool \<Rightarrow> status \<Rightarrow> status" where
  "MaybeIgnoreError paranoid s = (if s = OK \<or> paranoid then s else OK)"

text \<open>The reporter's \<open>Corruption\<close> keeps the first error, if the checks are paranoid.\<close>

definition reporter_Corruption :: "bool \<Rightarrow> status \<Rightarrow> status \<Rightarrow> status" where
  "reporter_Corruption paranoid s status = (if paranoid \<and> status = OK then s else status)"

text \<open>\<open>WriteLevel0Table\<close> without its statistics. An empty memtable gets no file in \<open>edit\<close>; here it is a table
  with no entry, in which no lookup finds anything.\<close>

definition WriteLevel0Table :: "recovery_env \<Rightarrow> memtable \<Rightarrow> recovery \<Rightarrow> recovery" where
  "WriteLevel0Table R m st =
     (let s = level0 R (length (tables st)) m
      in (if s = OK then st\<lparr>tables := tables st @ [m]\<rparr> else st)\<lparr>rec_status := s\<rparr>)"

function recover_loop :: "recovery_env \<Rightarrow> u8 list \<Rightarrow> u8 list \<Rightarrow> log_reader \<Rightarrow> recovery \<Rightarrow> (recovery \<times> log_reader) option" where
  "recover_loop R record scratch r st =
     (case ReadRecord (log_io R) record scratch r of (ok, record, scratch, r') \<Rightarrow>
        (let reported = map snd (drop (length (reports r)) (reports r'));
             st = st\<lparr>rec_status := fold (reporter_Corruption (paranoid_checks R)) reported (rec_status st)\<rparr>
         in if \<not> ok \<or> rec_status st \<noteq> OK then Some (st, r')
            else if length record < 12 then
              recover_loop R record scratch r'
                (st\<lparr>rec_status := reporter_Corruption (paranoid_checks R) (Corruption ''log record too small'') (rec_status st)\<rparr>)
            else
              (let rep = SetContents record;
                   m = (case mem st of None \<Rightarrow> MemTable_Ref (MemTable_new (internal_comparator R)) | Some m \<Rightarrow> m)
               in case InsertInto rep m of
                    (s, None) \<Rightarrow> None
                  | (s, Some m) \<Rightarrow>
                      (let st = st\<lparr>mem := Some m, rec_status := MaybeIgnoreError (paranoid_checks R) s\<rparr>
                       in if rec_status st \<noteq> OK then Some (st, r')
                          else
                            (let last_seq = Sequence rep + word_of_int (Count rep) - 1;
                                 st = (if max_sequence st < last_seq then st\<lparr>max_sequence := last_seq\<rparr> else st)
                             in if too_large R m then
                                  (let st = st\<lparr>compactions := compactions st + 1, save_manifest := True\<rparr>;
                                       st = (WriteLevel0Table R m st)\<lparr>mem := None\<rparr>
                                   in if rec_status st \<noteq> OK then Some (st, r')
                                      else recover_loop R record scratch r' st)
                                else recover_loop R record scratch r' st)))))"
  by pat_completeness auto
termination
  apply (relation "measure (\<lambda>(R, f, s, r, st). length (buffer r) + length (file_rest r))")
     apply simp
    apply (unfold in_measure prod.case)
    apply (metis ReadRecord_length)+
  done

declare recover_loop.simps [simp del]

text \<open>What happens to the last memtable: the log is reused with it, or it is written out.\<close>

definition finish_recovery :: "recovery_env \<Rightarrow> bool \<Rightarrow> recovery \<Rightarrow> recovery" where
  "finish_recovery R last_log st =
     (let st = (if rec_status st = OK \<and> reuse_logs R \<and> last_log \<and> compactions st = 0 \<and> append_ok R
                then (case mem st of
                        Some m \<Rightarrow> st\<lparr>db_mem := Some m, mem := None\<rparr>
                      | None \<Rightarrow> st\<lparr>db_mem := Some (MemTable_Ref (MemTable_new (internal_comparator R)))\<rparr>)
                else st)
      in case mem st of
           None \<Rightarrow> st
         | Some m \<Rightarrow>
             (if rec_status st = OK then WriteLevel0Table R m (st\<lparr>save_manifest := True\<rparr>) else st)\<lparr>mem := None\<rparr>)"

definition RecoverLogFile :: "recovery_env \<Rightarrow> bool \<Rightarrow> u8 list \<Rightarrow> recovery \<Rightarrow> recovery option" where
  "RecoverLogFile R last_log file st =
     (let st = st\<lparr>rec_status := open_status R\<rparr>
      in if rec_status st \<noteq> OK then Some (st\<lparr>rec_status := MaybeIgnoreError (paranoid_checks R) (rec_status st)\<rparr>)
         else
           (case recover_loop R [] [] (Reader_new file True True 0) (st\<lparr>compactions := 0, mem := None\<rparr>) of
              None \<Rightarrow> None
            | Some (st, r) \<Rightarrow> Some (finish_recovery R last_log st)))"

subsection \<open>A log without corruption\<close>

lemma Report_clean: "reports (ReportCorruption n s r) = [] \<Longrightarrow> reports r = []" "reports (ReportDrop m st r) = [] \<Longrightarrow> reports r = []"
  by (auto simp: ReportCorruption_def ReportDrop_def split: if_splits)

lemma read_block_clean: "read_block E r = (ok, r') \<Longrightarrow> reports r' = [] \<Longrightarrow> reports r = []"
  by (auto simp: read_block_def Let_def split: if_splits dest!: Report_clean)

lemma parse_physical_clean: "parse_physical E f r = (t, f', r') \<Longrightarrow> reports r' = [] \<Longrightarrow> reports r = []"
  by (auto simp: parse_physical_def Let_def split: if_splits dest!: Report_clean)

lemma ReadPhysicalRecord_clean: "ReadPhysicalRecord E f r = (t, f', r') \<Longrightarrow> reports r' = [] \<Longrightarrow> reports r = []"
proof (induction E f r arbitrary: t f' r' rule: ReadPhysicalRecord.induct)
  case (1 E f r)
  show ?case
  proof (cases "length (buffer r) < kHeaderSize \<and> \<not> eof r")
    case True
    obtain ok r1 where b: "read_block E r = (ok, r1)" by force
    have "reports r1 = []"
    proof (cases ok)
      case ok: True
      then have "ReadPhysicalRecord E f r1 = (t, f', r')" using "1.prems" True b by (simp add: ReadPhysicalRecord.simps [of E f r])
      then show ?thesis using "1.IH" [OF _ _ b [symmetric]] True ok "1.prems"(2) by simp
    next
      case False
      then show ?thesis using "1.prems" True b by (simp add: ReadPhysicalRecord.simps [of E f r])
    qed
    then show ?thesis by (rule read_block_clean [OF b])
  next
    case False
    then show ?thesis
      using "1.prems" parse_physical_clean [of E f r] by (auto simp: ReadPhysicalRecord.simps [of E f r] split: if_splits)
  qed
qed

lemma record_turn_clean:
  "record_turn i p s t f r = Return ok f' s' r' \<Longrightarrow> reports r' = [] \<Longrightarrow> reports r = []"
  "record_turn i p s t f r = Again i' p' s' r' \<Longrightarrow> reports r' = [] \<Longrightarrow> reports r = []"
  unfolding record_turn_def Let_def by (auto split: if_splits dest!: Report_clean)

lemma record_loop_clean: "record_loop E i p f s r = (ok, f', s', r') \<Longrightarrow> reports r' = [] \<Longrightarrow> reports r = []"
proof (induction E i p f s r arbitrary: f' s' r' rule: record_loop.induct)
  case (1 E i p f s r)
  obtain t f1 r1 where R: "ReadPhysicalRecord E f r = (t, f1, r1)" by (metis prod_cases3)
  have "reports r1 = []"
  proof (cases "record_turn i p s t f1 r1")
    case (Return ok f2 s2 r2)
    then show ?thesis using "1.prems" R record_turn_clean(1) [OF Return] by (simp add: record_loop.simps [of E i p f s r])
  next
    case (Again i2 p2 s2 r2)
    then have "record_loop E i2 p2 f1 s2 r2 = (ok, f', s', r')" using "1.prems" R by (simp add: record_loop.simps [of E i p f s r])
    then show ?thesis using "1.IH" [OF R [symmetric] refl Again] "1.prems"(2) record_turn_clean(2) [OF Again] by simp
  qed
  then show ?case by (rule ReadPhysicalRecord_clean [OF R])
qed

lemma ReadRecord_clean: "ReadRecord E f s r = (ok, f', s', r') \<Longrightarrow> reports r' = [] \<Longrightarrow> reports r = []"
proof -
  assume a: "ReadRecord E f s r = (ok, f', s', r')" "reports r' = []"
  have skip: "SkipToInitialBlock E r = (ok1, r1) \<Longrightarrow> reports r1 = [] \<Longrightarrow> reports r = []" for ok1 r1
    by (auto simp: SkipToInitialBlock_def Let_def split: if_splits dest!: Report_clean)
  obtain ok1 r1 where s: "(if last_record_offset r < initial_offset r then SkipToInitialBlock E r else (True, r)) = (ok1, r1)" by force
  have "reports r1 = []" using a record_loop_clean [of E False 0 "[]" "[]" r1] by (auto simp: ReadRecord_def s split: if_splits)
  then show ?thesis using s skip by (auto split: if_splits)
qed

lemma read_all_clean: "read_all E f s r = (xs, r') \<Longrightarrow> reports r' = [] \<Longrightarrow> reports r = []"
proof (induction E f s r arbitrary: xs r' rule: read_all.induct)
  case (1 E f s r)
  obtain ok f1 s1 r1 where R: "ReadRecord E f s r = (ok, f1, s1, r1)" by (metis prod_cases4)
  have "reports r1 = []"
  proof (cases ok)
    case True
    obtain ys r2 where "read_all E f1 s1 r1 = (ys, r2)" by force
    then show ?thesis using "1.IH" [OF R [symmetric] refl refl] True R "1.prems" by (simp add: read_all.simps [of E f s r])
  next
    case False
    then show ?thesis using R "1.prems" by (simp add: read_all.simps [of E f s r])
  qed
  then show ?case by (rule ReadRecord_clean [OF R])
qed

subsection \<open>Recovery of batches\<close>

type_synonym batch_write = "u64 \<times> batch_op list"

definition write_bytes :: "batch_write \<Rightarrow> u8 list" where
  "write_bytes = (\<lambda>(s, ops). batch s ops)"

definition good_write :: "batch_write \<Rightarrow> bool" where
  "good_write = (\<lambda>(s, ops). list_all good_op ops \<and> length ops < 2 ^ 31)"

definition history :: "batch_write list \<Rightarrow> entry list" where
  "history ws = concat (map (\<lambda>(s, ops). entries_of s ops) ws)"

text \<open>
  What the database reads after the recovery: the memtable it keeps, then the tables, the newest
  first; the first that has an answer for the key decides.
\<close>

fun db_get :: "u8 list \<Rightarrow> u64 \<Rightarrow> memtable list \<Rightarrow> get_result option" where
  "db_get k q [] = Some Absent"
| "db_get k q (m # ms) =
     (case MemTable_Get (LookupKey k q) m of
        None \<Rightarrow> None
      | Some g \<Rightarrow> if g = Absent then db_get k q ms else Some g)"

definition db_tables :: "recovery \<Rightarrow> memtable list" where
  "db_tables st = (case db_mem st of None \<Rightarrow> [] | Some m \<Rightarrow> [m]) @ rev (tables st)"

text \<open>Memtables, the oldest first, that hold the entries of a history one after the other.\<close>

definition tables_hold :: "memtable list \<Rightarrow> entry list \<Rightarrow> bool" where
  "tables_hold ms hist \<longleftrightarrow> (\<exists>hs. list_all2 holds ms hs \<and> concat hs = hist)"

definition mem_holds :: "memtable option \<Rightarrow> entry list \<Rightarrow> bool" where
  "mem_holds m hist = (case m of None \<Rightarrow> hist = [] | Some m \<Rightarrow> holds m hist)"

lemma tables_hold_Nil [simp]: "tables_hold [] []"
  by (simp add: tables_hold_def)

lemma tables_hold_snoc: "tables_hold ms h \<Longrightarrow> holds m h' \<Longrightarrow> tables_hold (ms @ [m]) (h @ h')"
  unfolding tables_hold_def by (elim exE conjE, rule_tac x = "hs @ [h']" in exI) (simp add: list_all2_appendI)

lemma tables_hold_snocE:
  assumes "tables_hold (ms @ [m]) hist"
  obtains h h' where "hist = h @ h'" "tables_hold ms h" "holds m h'"
proof -
  from assms obtain hs where hs: "list_all2 holds (ms @ [m]) hs" "concat hs = hist" by (auto simp: tables_hold_def)
  then obtain hs1 h' where "hs = hs1 @ [h']" "list_all2 holds ms hs1" "holds m h'"
    by (auto simp: list_all2_append1 list_all2_Cons1)
  with hs show thesis by (intro that [of "concat hs1" h']) (auto simp: tables_hold_def)
qed

lemma latest_append: "latest (h @ h') k q = (case latest h' k q of None \<Rightarrow> latest h k q | Some e \<Rightarrow> Some e)"
proof -
  have "find P (xs @ ys) = (case find P xs of None \<Rightarrow> find P ys | Some x \<Rightarrow> Some x)" for P :: "entry \<Rightarrow> bool" and xs ys
    by (induction xs) simp_all
  then show ?thesis unfolding latest_def rev_append by (rule meta_eq_to_obj_eq [OF eq_reflection])
qed

lemma seen_Absent: "seen e = Absent \<longleftrightarrow> e = None"
  by (auto simp: seen_def split: option.splits prod.splits if_splits)

lemma db_get_latest:
  assumes "length k + 8 < 2 ^ 32" "q \<le> kMaxSequenceNumber"
  shows "tables_hold ms hist \<Longrightarrow> good_history hist \<Longrightarrow> db_get k q (rev ms) = Some (seen (latest hist k q))"
proof (induction ms arbitrary: hist rule: rev_induct)
  case Nil
  then show ?case by (simp add: tables_hold_def latest_def seen_def)
next
  case (snoc m ms)
  obtain h h' where h: "hist = h @ h'" "tables_hold ms h" "holds m h'" by (rule tables_hold_snocE [OF snoc.prems(1)])
  have g: "good_history h" "good_history h'" using snoc.prems(2) h(1) by (auto simp: good_history_def sorted_wrt_append)
  have "MemTable_Get (LookupKey k q) m = Some (seen (latest h' k q))"
    using holds_Get [OF h(3) _ _ assms] g(2) by (auto simp: good_history_def list_all_iff)
  then show ?case
    using snoc.IH [OF h(2) g(1)] by (auto simp: h(1) latest_append seen_Absent split: option.splits)
qed

text \<open>
  A recovery that has taken in the batches \<open>ws\<close>: the tables hold the first \<open>i\<close> of them, after the entries
  of \<open>hist\<close>, and the memtable holds the rest.
\<close>

definition recovered_to :: "entry list \<Rightarrow> nat \<Rightarrow> batch_write list \<Rightarrow> recovery \<Rightarrow> bool" where
  "recovered_to hist i ws st \<longleftrightarrow> i \<le> length ws \<and> tables_hold (tables st) (hist @ history (take i ws)) \<and>
     mem_holds (mem st) (history (drop i ws))"

text \<open>A recovery that a failure to write a table has ended.\<close>

definition table_failed :: "recovery_env \<Rightarrow> entry list \<Rightarrow> batch_write list \<Rightarrow> recovery \<Rightarrow> bool" where
  "table_failed R hist ws st \<longleftrightarrow> rec_status st \<noteq> OK \<and> (\<exists>m. level0 R (length (tables st)) m = rec_status st) \<and>
     mem st = None \<and> (\<exists>j \<le> length ws. tables_hold (tables st) (hist @ history (take j ws)))"

lemma history_append: "history (ws @ ws') = history ws @ history ws'"
  by (simp add: history_def)

lemma history_Cons: "history ((s, ops) # ws) = entries_of s ops @ history ws"
  by (simp add: history_def)

lemma good_history_appendD: "good_history (h @ h') \<Longrightarrow> good_history h \<and> good_history h'"
  by (simp add: good_history_def sorted_wrt_append)

lemma history_split: "history ws = history (take i ws) @ history (drop i ws)"
  unfolding history_append [symmetric] by simp

lemma WriteLevel0Table_recovered:
  assumes "tables_hold (tables st) (hist @ history (take i ws))" "i \<le> length ws" "holds m (history (drop i ws))"
    and st': "st' = (WriteLevel0Table R m st)\<lparr>mem := None\<rparr>"
  shows "if rec_status st' = OK then recovered_to hist (length ws) ws st' else table_failed R hist ws st'"
proof (cases "level0 R (length (tables st)) m = OK")
  case True
  have "tables_hold (tables st @ [m]) (hist @ history ws)"
    using tables_hold_snoc [OF assms(1,3)] by (simp add: history_split [of ws i])
  then show ?thesis using True by (simp add: st' WriteLevel0Table_def recovered_to_def mem_holds_def history_def)
next
  case False
  then show ?thesis using assms(1,2) by (auto simp: st' WriteLevel0Table_def table_failed_def)
qed

lemma table_failed_mono: "table_failed R hist ws st \<Longrightarrow> table_failed R hist (ws @ ws') st"
  unfolding table_failed_def
proof (elim conjE exE)
  fix m j
  assume a: "rec_status st \<noteq> OK" "level0 R (length (tables st)) m = rec_status st" "mem st = None" "j \<le> length ws"
    "tables_hold (tables st) (hist @ history (take j ws))"
  then have "j \<le> length (ws @ ws')" "tables_hold (tables st) (hist @ history (take j (ws @ ws')))" by simp_all
  with a show "rec_status st \<noteq> OK \<and> (\<exists>m. level0 R (length (tables st)) m = rec_status st) \<and> mem st = None \<and>
      (\<exists>j \<le> length (ws @ ws'). tables_hold (tables st) (hist @ history (take j (ws @ ws'))))" by blast
qed

lemma recover_batches:
  assumes "read_all (log_io R) rec sc r = (map write_bytes ws, r')" "reports r' = []"
    "list_all good_write ws" "good_history (hist @ history (ws0 @ ws))" "recovered_to hist i ws0 st" "rec_status st = OK"
    "internal_comparator R = BytewiseComparator"
  shows "\<exists>st' r''. recover_loop R rec sc r st = Some (st', r'') \<and> db_mem st' = db_mem st \<and>
    (rec_status st' = OK \<and> (\<exists>j. recovered_to hist j (ws0 @ ws) st') \<or> table_failed R hist (ws0 @ ws) st')"
  using assms(1-6)
proof (induction ws arbitrary: rec sc r st ws0 i)
  case Nil
  obtain ok f1 s1 r1 where R: "ReadRecord (log_io R) rec sc r = (ok, f1, s1, r1)" by (metis prod_cases4)
  have "\<not> ok" "r1 = r'" using Nil.prems(1) R by (auto simp: read_all.simps [of _ rec] split: if_splits prod.splits)
  moreover have "recovered_to hist i ws0 (st\<lparr>rec_status := OK\<rparr>)" using Nil.prems(5) by (simp add: recovered_to_def)
  ultimately show ?case
    using R Nil.prems(2,5,6) ReadRecord_clean [OF R] by (auto simp: recover_loop.simps [of R rec] Let_def)
next
  case (Cons w ws)
  obtain s ops where w: "w = (s, ops)" by (cases w)
  obtain ok f1 s1 r1 where R: "ReadRecord (log_io R) rec sc r = (ok, f1, s1, r1)" by (metis prod_cases4)
  have ok: ok "f1 = batch s ops" "read_all (log_io R) f1 s1 r1 = (map write_bytes ws, r')"
    using Cons.prems(1) R by (auto simp: read_all.simps [of _ rec] w write_bytes_def split: if_splits prod.splits)
  have clean: "reports r1 = []" "reports r = []" using read_all_clean [OF ok(3) Cons.prems(2)] ReadRecord_clean [OF R] by auto
  have i: "i \<le> length ws0" "tables_hold (tables st) (hist @ history (take i ws0))" "mem_holds (mem st) (history (drop i ws0))"
    using Cons.prems(5) by (simp_all add: recovered_to_def)
  define m where "m = (case mem st of None \<Rightarrow> MemTable_Ref (MemTable_new (internal_comparator R)) | Some m \<Rightarrow> m)"
  have "holds m (history (drop i ws0))"
    using i(3) holds_new assms(7) by (auto simp: m_def mem_holds_def MemTable_Ref_def holds_def split: option.splits)
  moreover have "good_history (history (drop i ws0) @ entries_of s ops)"
  proof -
    have "hist @ history (ws0 @ w # ws) = (hist @ history (take i ws0)) @ (history (drop i ws0) @ entries_of s ops) @ history ws"
      unfolding history_append history_split [of ws0 i] w history_Cons by simp
    with Cons.prems(4) show ?thesis using good_history_appendD by metis
  qed
  ultimately obtain m' where m': "write_history (entries_of s ops) m = Some m'" "holds m' (history (drop i ws0) @ entries_of s ops)"
    using write_history_holds by blast
  have ins: "InsertInto (batch s ops) m = (OK, Some m')"
    using InsertInto_batch [of ops s m] Cons.prems(3) m'(1) by (simp add: w good_write_def)
  have dr: "drop i (ws0 @ [w]) = drop i ws0 @ [w]" "take i (ws0 @ [w]) = take i ws0" using i(1) by simp_all
  have hm: "holds m' (history (drop i (ws0 @ [w])))" using m'(2) unfolding dr(1) unfolding history_append w history_Cons by (simp add: history_def)
  define st1 where "st1 = (let st = st\<lparr>rec_status := OK, mem := Some m', rec_status := OK\<rparr>; last_seq = s + word_of_int (Count (batch s ops)) - 1
    in if max_sequence st < last_seq then st\<lparr>max_sequence := last_seq\<rparr> else st)"
  have st1: "mem st1 = Some m'" "rec_status st1 = OK" "tables st1 = tables st" "db_mem st1 = db_mem st" by (auto simp: st1_def Let_def)
  define st2 where "st2 = (WriteLevel0Table R m' (st1\<lparr>compactions := compactions st1 + 1, save_manifest := True\<rparr>))\<lparr>mem := None\<rparr>"
  define st3 where "st3 = (if too_large R m' then st2 else st1)"
  have long: "\<not> length (batch s ops) < 12" by (simp add: not_less)
  have step: "recover_loop R rec sc r st =
      (if too_large R m' \<and> rec_status st2 \<noteq> OK then Some (st2, r1) else recover_loop R f1 s1 r1 st3)"
    using R ok(1) clean Cons.prems(6)
    by (simp add: recover_loop.simps [of R rec] ok(2) long SetContents_def m_def [symmetric] ins MaybeIgnoreError_def st1_def st2_def
        st3_def Let_def)
  have st2: "if rec_status st2 = OK then recovered_to hist (length (ws0 @ [w])) (ws0 @ [w]) st2 else table_failed R hist (ws0 @ [w]) st2"
    by (rule WriteLevel0Table_recovered [OF _ _ hm st2_def]) (use i st1 in \<open>simp_all add: dr\<close>)
  have db2: "db_mem st2 = db_mem st" using st1(4) by (simp add: st2_def WriteLevel0Table_def Let_def)
  show ?case
  proof (cases "too_large R m' \<and> rec_status st2 \<noteq> OK")
    case True
    then show ?thesis using step st2 table_failed_mono [of R hist "ws0 @ [w]" st2 ws] db2 by simp
  next
    case False
    have "\<exists>j. recovered_to hist j (ws0 @ [w]) st3"
    proof (cases "too_large R m'")
      case True
      then show ?thesis using False st2 by (auto simp: st3_def)
    next
      case no: False
      have "recovered_to hist i (ws0 @ [w]) st1" using i(1,2) st1 hm unfolding recovered_to_def by (simp add: mem_holds_def)
      then show ?thesis using no by (auto simp: st3_def)
    qed
    then obtain j where "recovered_to hist j (ws0 @ [w]) st3" by blast
    moreover have "rec_status st3 = OK" "db_mem st3 = db_mem st" using False st1 db2 by (auto simp: st3_def)
    ultimately show ?thesis
      using Cons.IH [OF ok(3) Cons.prems(2), of "ws0 @ [w]" j st3] Cons.prems(3,4) step False by simp
  qed
qed

lemma finish_recovery_tables:
  assumes "recovered_to hist i ws st" "rec_status st = OK" "db_mem st = None" "internal_comparator R = BytewiseComparator"
    and st': "st' = finish_recovery R last_log st"
  shows "rec_status st' = OK \<and> tables_hold (rev (db_tables st')) (hist @ history ws) \<or>
    table_failed R hist ws st' \<and> db_mem st' = None"
proof (cases "reuse_logs R \<and> last_log \<and> compactions st = 0 \<and> append_ok R")
  case True
  define m where "m = (case mem st of None \<Rightarrow> MemTable_Ref (MemTable_new (internal_comparator R)) | Some m \<Rightarrow> m)"
  have o: "rec_status st' = OK" "db_mem st' = Some m" "tables st' = tables st"
    using True assms(2) by (auto simp: st' finish_recovery_def m_def Let_def split: option.splits)
  have "holds m (history (drop i ws))"
    using assms(1,4) holds_new by (auto simp: m_def recovered_to_def mem_holds_def MemTable_Ref_def holds_def split: option.splits)
  then have "tables_hold (tables st @ [m]) ((hist @ history (take i ws)) @ history (drop i ws))"
    by (intro tables_hold_snoc) (use assms(1) in \<open>simp_all add: recovered_to_def\<close>)
  then show ?thesis using o by (simp add: db_tables_def history_split [of ws i])
next
  case False
  show ?thesis
  proof (cases "mem st")
    case None
    then have "st' = st" using False assms(2) by (auto simp: st' finish_recovery_def)
    then show ?thesis using assms(1-3) None by (simp add: db_tables_def recovered_to_def mem_holds_def history_split [of ws i])
  next
    case (Some m)
    have w: "st' = (WriteLevel0Table R m (st\<lparr>save_manifest := True\<rparr>))\<lparr>mem := None\<rparr>"
      using False assms(2) Some by (auto simp: st' finish_recovery_def)
    have "if rec_status st' = OK then recovered_to hist (length ws) ws st' else table_failed R hist ws st'"
      by (rule WriteLevel0Table_recovered [OF _ _ _ w, where i = i]) (use assms(1) Some in \<open>simp_all add: recovered_to_def mem_holds_def\<close>)
    moreover have "db_mem st' = None" using assms(3) by (simp add: w WriteLevel0Table_def Let_def)
    ultimately show ?thesis by (auto simp: db_tables_def recovered_to_def split: if_splits)
  qed
qed

text \<open>C1: A database writes batches with increasing sequence numbers to its log and crashes at any byte.
  Its tables hold an earlier history \<open>hist\<close>, and the log that is left is recovered, with or without paranoid
  checks, whatever size a memtable may reach before it is written out as a table, and whether or not
  the log is reused. The recovery returns; when its status is OK, a lookup in the memtable it keeps and
  the tables it wrote, for any key and snapshot, sees exactly the earlier history and the batches whose
  log records had been written as a whole: of those the last write of the key that the snapshot sees, and
  nothing of a batch that was cut off. The only other status is that of a table that could not be written;
  the tables written before it then hold the earlier history and the first of those batches, none in part.\<close>

theorem crash_recovery_reads:
  assumes "reliable (log_io R)" "open_status R = OK" "internal_comparator R = BytewiseComparator"
    "list_all good_write ws" "good_history (hist @ history ws)" "tables_hold (tables st) hist" "db_mem st = None"
    "length key + 8 < 2 ^ 32" "q \<le> kMaxSequenceNumber"
  shows "\<exists>k st'. RecoverLogFile R last_log (take n (log_file (log_io R) (map write_bytes ws))) st = Some st' \<and>
      k \<le> length ws \<and> length (log_file (log_io R) (map write_bytes (take k ws))) \<le> n \<and>
      (k = length ws \<or> n < length (log_file (log_io R) (map write_bytes (take (Suc k) ws)))) \<and>
      (if rec_status st' = OK
       then db_get key q (db_tables st') = Some (seen (latest (hist @ history (take k ws)) key q))
       else (\<exists>m. level0 R (length (tables st')) m = rec_status st') \<and>
         (\<exists>j \<le> k. db_get key q (db_tables st') = Some (seen (latest (hist @ history (take j ws)) key q))))"
proof -
  let ?file = "take n (log_file (log_io R) (map write_bytes ws))"
  let ?st = "st\<lparr>rec_status := OK, compactions := 0, mem := None\<rparr>"
  obtain k r where k: "read_all (log_io R) [] [] (Reader_new ?file True True 0) = (map write_bytes (take k ws), r)" "reports r = []"
    "k \<le> length ws" "length (log_file (log_io R) (map write_bytes (take k ws))) \<le> n"
    "k = length ws \<or> n < length (log_file (log_io R) (map write_bytes (take (Suc k) ws)))"
    using log_clean_prefix [OF assms(1), of "[]" "[]" n "map write_bytes ws" True True] by (auto simp: take_map)
  have good: "good_history (hist @ history (take j ws))" for j
    using assms(5) unfolding history_split [of ws j] by (auto simp: good_history_def sorted_wrt_append)
  have "list_all good_write (take k ws)" using assms(4) by (auto simp: list_all_iff dest: in_set_takeD)
  moreover have "recovered_to hist 0 [] ?st" using assms(6) by (simp add: recovered_to_def history_def mem_holds_def)
  ultimately obtain st1 r1 where st1: "recover_loop R [] [] (Reader_new ?file True True 0) ?st = Some (st1, r1)" "db_mem st1 = None"
    "rec_status st1 = OK \<and> (\<exists>j. recovered_to hist j (take k ws) st1) \<or> table_failed R hist (take k ws) st1"
    using recover_batches [OF k(1,2), of hist "[]" 0 ?st] good [of k] assms(3,7) by auto
  define st' where "st' = finish_recovery R last_log st1"
  have run: "RecoverLogFile R last_log ?file st = Some st'" using st1(1) assms(2) by (simp add: RecoverLogFile_def st'_def)
  have "rec_status st' = OK \<and> tables_hold (rev (db_tables st')) (hist @ history (take k ws)) \<or>
    table_failed R hist (take k ws) st' \<and> db_mem st' = None"
  proof (cases "rec_status st1 = OK")
    case True
    then show ?thesis using st1(2,3) finish_recovery_tables [of hist _ "take k ws" st1 R _ last_log] assms(3)
      by (auto simp: st'_def table_failed_def)
  next
    case False
    then have "st' = st1" "table_failed R hist (take k ws) st1"
      using st1(3) by (auto simp: st'_def finish_recovery_def table_failed_def)
    then show ?thesis using st1(2) by simp
  qed
  then have "if rec_status st' = OK
       then db_get key q (db_tables st') = Some (seen (latest (hist @ history (take k ws)) key q))
       else (\<exists>m. level0 R (length (tables st')) m = rec_status st') \<and>
         (\<exists>j \<le> k. db_get key q (db_tables st') = Some (seen (latest (hist @ history (take j ws)) key q)))"
  proof (elim disjE conjE)
    assume "rec_status st' = OK" "tables_hold (rev (db_tables st')) (hist @ history (take k ws))"
    then show ?thesis using db_get_latest [OF assms(8,9) _ good] by fastforce
  next
    assume f: "table_failed R hist (take k ws) st'" "db_mem st' = None"
    then obtain j where j: "j \<le> k" "tables_hold (tables st') (hist @ history (take j ws))"
      using k(3) by (auto simp: table_failed_def)
    have "db_get key q (db_tables st') = Some (seen (latest (hist @ history (take j ws)) key q))"
      using db_get_latest [OF assms(8,9) j(2) good] f(2) by (simp add: db_tables_def)
    then show ?thesis using f(1) j(1) by (auto simp: table_failed_def)
  qed
  with run k(3-5) show ?thesis by blast
qed

text \<open>A recovery that writes every memtable out at once.\<close>

definition small_buffer :: recovery_env where
  "small_buffer = \<lparr>log_io = plain_env, open_status = OK, append_ok = True, paranoid_checks = True, reuse_logs = True,
     internal_comparator = BytewiseComparator, too_large = \<lambda>_. True, level0 = \<lambda>_ _. OK\<rparr>"

definition start_recovery :: recovery where
  "start_recovery = \<lparr>rec_status = OK, mem = None, max_sequence = 0, compactions = 0, save_manifest = False, tables = [],
     db_mem = None\<rparr>"

lemma crash_recovery_reads_witness:
  "\<exists>k st'. RecoverLogFile small_buffer True
        (take 30 (log_file plain_env (map write_bytes [(5, [Put_op [1] [7]]), (6, [Delete_op [1]])]))) start_recovery = Some st' \<and>
      rec_status st' = OK \<and> k \<le> 2 \<and>
      db_get [1] 9 (db_tables st') = Some (seen (latest (history (take k [(5, [Put_op [1] [7]]), (6, [Delete_op [1]])])) [1] 9))"
proof -
  let ?ws = "[(5, [Put_op [1] [7]]), (6, [Delete_op [1]])] :: batch_write list"
  have b: "(5 :: u64) \<le> kMaxSequenceNumber" "(6 :: u64) \<le> kMaxSequenceNumber" "(9 :: u64) \<le> kMaxSequenceNumber"
    by (simp_all add: word_le_nat_alt kMax_unat)
  have h: "good_history ([] @ history ?ws)" "list_all good_write ?ws"
    using b by (simp_all add: good_history_def history_def good_entry_def good_write_def kTypeDeletion_def kTypeValue_def)
  have R: "reliable (log_io small_buffer)" "open_status small_buffer = OK" "internal_comparator small_buffer = BytewiseComparator"
    by (simp_all add: small_buffer_def plain_env_reliable)
  have s: "tables_hold (tables start_recovery) []" "db_mem start_recovery = None" by (simp_all add: start_recovery_def)
  have l: "length [1 :: u8] + 8 < 2 ^ 32" by simp
  from crash_recovery_reads [OF R h(2,1) s l b(3), of True 30] obtain k st' where
    r: "RecoverLogFile small_buffer True (take 30 (log_file (log_io small_buffer) (map write_bytes ?ws))) start_recovery = Some st'"
    "k \<le> length ?ws" and
    d: "if rec_status st' = OK
      then db_get [1] 9 (db_tables st') = Some (seen (latest ([] @ history (take k ?ws)) [1] 9))
      else (\<exists>m. level0 small_buffer (length (tables st')) m = rec_status st') \<and>
        (\<exists>j \<le> k. db_get [1] 9 (db_tables st') = Some (seen (latest ([] @ history (take j ?ws)) [1] 9)))" by blast
  have ok: "rec_status st' = OK" using d by (auto simp: small_buffer_def split: if_splits)
  have "log_io small_buffer = plain_env" by (simp add: small_buffer_def)
  with r d ok show ?thesis by (intro exI [of _ k] exI [of _ st']) simp
qed

end
