(* ===== verification/Ldb_Skiplist_Readers.thy ===== *)
theory Ldb_Skiplist_Readers
  imports Ldb_Skiplist
begin

text \<open>
  Searches of db/skiplist.h while an insertion runs: the code lets one writer, which the caller
  synchronises, and any reader without a lock work on the list. The stores of \<open>Insert\<close> and the loads of
  \<open>FindGreaterOrEqual\<close> are the steps of a relation, in any interleaving; a load sees the last store (the
  acquire and release orders of the code are not modelled). Searches change nothing, so that one stands
  for any number of them.
\<close>

subsection \<open>The steps\<close>

text \<open>
  Where the writer stands: outside of \<open>Insert\<close>; after the store of \<open>max_height_\<close>; linking the node \<open>x\<close> of
  height \<open>h\<close> at level \<open>i\<close>, with its own link at that level stored or not.
\<close>

datatype 'k inserting =
  Idle
| Raised 'k "nat option list" nat
| Linking "nat option list" nat nat nat bool

inductive insert_step :: "('k \<Rightarrow> 'k \<Rightarrow> int) \<Rightarrow> 'k inserting \<times> 'k skiplist \<Rightarrow> 'k inserting \<times> 'k skiplist \<Rightarrow> bool"
  for cmp :: "'k \<Rightarrow> 'k \<Rightarrow> int" where
  store_height: "Contains cmp l key = Some False \<Longrightarrow>
    FindGreaterOrEqual cmp l key (Some (replicate kMaxHeight None)) = Some (y, Some prev) \<Longrightarrow> RandomHeight (rnd l) = (h, seed) \<Longrightarrow>
    insert_step cmp (Idle, l)
      (if max_height l < h
       then (Raised key (foldl (\<lambda>p i. p[i := Some 0]) prev [max_height l..<h]) h, l\<lparr>rnd := seed, max_height := h\<rparr>)
       else (Raised key prev h, l\<lparr>rnd := seed\<rparr>))"
| new_node: "NewNode key h l = (x, l') \<Longrightarrow> insert_step cmp (Raised key prev h, l) (Linking prev x h 0 False, l')"
| store_own: "i < h \<Longrightarrow> prev ! i = Some p \<Longrightarrow> Node_Next l p i = Some n \<Longrightarrow>
    insert_step cmp (Linking prev x h i False, l) (Linking prev x h i True, Node_SetNext x i n l)"
| store_prev: "i < h \<Longrightarrow> prev ! i = Some p \<Longrightarrow>
    insert_step cmp (Linking prev x h i True, l) (Linking prev x h (Suc i) False, Node_SetNext p i (Some x) l)"
| finish_insert: "insert_step cmp (Linking prev x h h False, l) (Idle, l)"

text \<open>A search: not begun, at a node and a level, or done with its result.\<close>

datatype searching = Ready | At nat nat | Result "nat option"

inductive search_step :: "('k \<Rightarrow> 'k \<Rightarrow> int) \<Rightarrow> 'k \<Rightarrow> 'k skiplist \<Rightarrow> searching \<Rightarrow> searching \<Rightarrow> bool"
  for cmp :: "'k \<Rightarrow> 'k \<Rightarrow> int" and k :: 'k and l :: "'k skiplist" where
  load_height: "search_step cmp k l Ready (At 0 (max_height l - 1))"
| go_on: "Node_Next l x level = Some next \<Longrightarrow> KeyIsAfterNode cmp l k next = Some True \<Longrightarrow>
    search_step cmp k l (At x level) (At (the next) level)"
| go_down: "Node_Next l x level = Some next \<Longrightarrow> KeyIsAfterNode cmp l k next = Some False \<Longrightarrow> level \<noteq> 0 \<Longrightarrow>
    search_step cmp k l (At x level) (At x (level - 1))"
| found: "Node_Next l x 0 = Some next \<Longrightarrow> KeyIsAfterNode cmp l k next = Some False \<Longrightarrow>
    search_step cmp k l (At x 0) (Result next)"

text \<open>A search for \<open>k\<close> beside the writer: either takes a step.\<close>

type_synonym 'k conf = "'k inserting \<times> 'k skiplist \<times> searching"

inductive conf_step :: "('k \<Rightarrow> 'k \<Rightarrow> int) \<Rightarrow> 'k \<Rightarrow> 'k conf \<Rightarrow> 'k conf \<Rightarrow> bool"
  for cmp :: "'k \<Rightarrow> 'k \<Rightarrow> int" and k :: 'k where
  writer: "insert_step cmp (w, l) (w', l') \<Longrightarrow> conf_step cmp k (w, l, s) (w', l', s)"
| reader: "search_step cmp k l s s' \<Longrightarrow> conf_step cmp k (w, l, s) (w, l, s')"

inductive reachable :: "('k \<Rightarrow> 'k \<Rightarrow> int) \<Rightarrow> 'k \<Rightarrow> 'k conf \<Rightarrow> bool"
  for cmp :: "'k \<Rightarrow> 'k \<Rightarrow> int" and k :: 'k where
  initial: "reachable cmp k (Idle, SkipList_new any, Ready)"
| step: "reachable cmp k c \<Longrightarrow> conf_step cmp k c c' \<Longrightarrow> reachable cmp k c'"

inductive_cases insert_stepE: "insert_step cmp (w, l) (w', l')"
lemmas insert_step_cases = insert_stepE [consumes 1, case_names store_height new_node store_own store_prev finish_insert]
inductive_cases search_stepE: "search_step cmp k l s s'"
inductive_cases conf_stepE: "conf_step cmp k (w, l, s) c'"

text \<open>The nodes of the lowest level, from a node on.\<close>

partial_function (option) walk :: "'k skiplist \<Rightarrow> nat \<Rightarrow> nat list option" where
  "walk l x =
     (case Node_Next l x 0 of
        None \<Rightarrow> None
      | Some None \<Rightarrow> Some []
      | Some (Some y) \<Rightarrow> Option.bind (walk l y) (\<lambda>ys. Some (y # ys)))"

lemma walk_linked: "linked l 0 x ids \<Longrightarrow> walk l x = Some ids"
  by (induction ids arbitrary: x) (subst walk.simps, simp)+

subsection \<open>The invariant\<close>

text \<open>A store that changes nothing, and one on a link that no level goes through.\<close>

lemma SetNext_same: "Node_Next l x i = Some n \<Longrightarrow> Node_SetNext x i n l = l"
proof -
  assume "Node_Next l x i = Some n"
  then have "i < length (next_links (nodes l ! x)) \<Longrightarrow> (next_links (nodes l ! x))[i := Some n] = next_links (nodes l ! x)"
    by (auto simp: Node_Next_def list_update_same_conv split: if_splits)
  then show ?thesis using \<open>Node_Next l x i = Some n\<close> by (simp add: Node_Next_def Node_SetNext_def split: if_splits)
qed

lemma linked_from: "linked l i y ys \<Longrightarrow> y # ys = us @ x # vs \<Longrightarrow> linked l i x vs"
proof (induction us arbitrary: y ys)
  case (Cons u us)
  then show ?case by (cases ys) (auto simp: Cons_eq_append_conv)
qed auto

lemma find_skip: "(\<And>a. a \<in> set as \<Longrightarrow> \<not> P a) \<Longrightarrow> find P (as @ bs) = find P bs"
  by (induction as) auto

context key_order
begin

fun writer_ok :: "'k skiplist \<Rightarrow> nat list \<Rightarrow> (nat \<Rightarrow> nat) \<Rightarrow> 'k inserting \<Rightarrow> bool" where
  "writer_ok l ids hh Idle \<longleftrightarrow> (\<forall>a \<in> set ids. 0 < hh a)"
| "writer_ok l ids hh (Raised key prev h) \<longleftrightarrow>
     (\<forall>a \<in> set ids. 0 < hh a \<and> cmp (sl_key l a) key \<noteq> 0) \<and> 0 < h \<and> h \<le> max_height l \<and>
     (\<forall>i < h. prev ! i = Some (pred_at hh (before l key ids) i))"
| "writer_ok l ids hh (Linking prev x h i own) \<longleftrightarrow>
     (\<exists>as bs. ids = as @ x # bs \<and> hh x = i \<and> i \<le> h \<and> 0 < h \<and> h \<le> max_height l \<and> h \<le> length (next_links (nodes l ! x)) \<and>
       (\<forall>a \<in> set as \<union> set bs. 0 < hh a) \<and>
       (\<forall>j < h. prev ! j = Some (pred_at hh as j)) \<and>
       (own \<longrightarrow> i < h \<and> Node_Next l x i = Node_Next l (pred_at hh as i) i))"

fun search_ok :: "'k \<Rightarrow> 'k skiplist \<Rightarrow> nat list \<Rightarrow> (nat \<Rightarrow> nat) \<Rightarrow> searching \<Rightarrow> bool" where
  "search_ok k l ids hh (At x level) \<longleftrightarrow>
     level < max_height l \<and> x \<in> set (0 # filter (\<lambda>a. level < hh a) ids) \<and> (x \<noteq> 0 \<longrightarrow> cmp (sl_key l x) k < 0)"
| "search_ok k l ids hh _ \<longleftrightarrow> True"

fun conf_inv :: "'k \<Rightarrow> nat list \<Rightarrow> (nat \<Rightarrow> nat) \<Rightarrow> 'k conf \<Rightarrow> bool" where
  "conf_inv k ids hh (w, l, s) \<longleftrightarrow> skip_inv cmp l ids hh \<and> writer_ok l ids hh w \<and> search_ok k l ids hh s"

text \<open>The writer only adds nodes, levels and height.\<close>

definition grows :: "'k skiplist \<Rightarrow> nat list \<Rightarrow> (nat \<Rightarrow> nat) \<Rightarrow> 'k skiplist \<Rightarrow> nat list \<Rightarrow> (nat \<Rightarrow> nat) \<Rightarrow> bool" where
  "grows l ids hh l' ids' hh' \<longleftrightarrow>
     (\<forall>a \<in> set ids. a \<in> set ids' \<and> hh a \<le> hh' a \<and> sl_key l' a = sl_key l a) \<and> max_height l \<le> max_height l'"

lemma search_ok_grows: "grows l ids hh l' ids' hh' \<Longrightarrow> search_ok k l ids hh s \<Longrightarrow> search_ok k l' ids' hh' s"
  by (cases s) (auto simp: grows_def)

lemma own_link_inv:
  fixes n :: "nat option"
  assumes inv: "skip_inv cmp l ids hh" and x: "x \<in> set ids" "hh x = i" "i < length (next_links (nodes l ! x))"
  defines "l' \<equiv> Node_SetNext x i n l"
  shows "skip_inv cmp l' ids hh" "Node_Next l' b j = (if b = x \<and> j = i then Some n else Node_Next l b j)"
proof -
  have "0 \<notin> set ids" "x < length (nodes l)" using inv x(1) by (auto simp: skip_inv_def)
  then have xl: "x < length (nodes l)" "x \<noteq> 0" using x(1) by (cases "x = 0", auto)+
  show N: "Node_Next l' b j = (if b = x \<and> j = i then Some n else Node_Next l b j)" for b j
    unfolding l'_def using xl x(3) by (simp add: Next_SetNext)
  have "linked l' j 0 (filter (\<lambda>a. j < hh a) ids)" if "j < kMaxHeight" for j
  proof -
    have "linked l' j 0 (filter (\<lambda>a. j < hh a) ids) = linked l j 0 (filter (\<lambda>a. j < hh a) ids)"
      using N xl(2) x(2) by (intro linked_frame) auto
    then show ?thesis using inv that by (simp add: skip_inv_def)
  qed
  then show "skip_inv cmp l' ids hh" using inv by (auto simp: skip_inv_def l'_def)
qed

lemma store_height_ok:
  assumes inv: "skip_inv cmp l ids hh" "\<forall>a \<in> set ids. 0 < hh a"
    and st: "Contains cmp l key = Some False" "FindGreaterOrEqual cmp l key (Some (replicate kMaxHeight None)) = Some (y, Some p)"
      "RandomHeight (rnd l) = (h, seed)"
  defines "c \<equiv> (if max_height l < h
       then (Raised key (foldl (\<lambda>p i. p[i := Some 0]) p [max_height l..<h]) h, l\<lparr>rnd := seed, max_height := h\<rparr>)
       else (Raised key p h, l\<lparr>rnd := seed\<rparr>))"
  shows "skip_inv cmp (snd c) ids hh \<and> writer_ok (snd c) ids hh (fst c) \<and> grows l ids hh (snd c) ids hh"
proof -
  note r = raise_inv [OF inv(1) st(3)]
  have p: "p = fill_prev (pred_at hh (before l key ids)) (max_height l - 1) (replicate kMaxHeight None)"
    using st(2) find_ge_all [OF inv(1), of key "Some (replicate kMaxHeight None)"] by simp
  have "lists_nodes cmp l ids" using inv by (auto simp: lists_nodes_def)
  then have "represents cmp l (map (sl_key l) ids)" unfolding represents_def by blast
  then have "cmp key (sl_key l a) \<noteq> 0" if "a \<in> set ids" for a
    using Contains_represents [of l _ key] st(1) that by auto
  then have neq: "cmp (sl_key l a) key \<noteq> 0" if "a \<in> set ids" for a using that zero_sym [of "sl_key l a" key] by simp
  have c: "snd c = (if max_height l < h then l\<lparr>rnd := seed, max_height := h\<rparr> else l\<lparr>rnd := seed\<rparr>)"
    "fst c = Raised key (if max_height l < h then foldl (\<lambda>p i. p[i := Some 0]) p [max_height l..<h] else p) h"
    by (simp_all add: c_def)
  have "before (snd c) key ids = before l key ids" by (simp add: before_def c r(2))
  then show ?thesis
    using r(1,3,4) r(6) [where k = key] r(2) neq inv(2) unfolding c p by (simp add: grows_def)
qed

lemma pred_at_other:
  assumes "x \<notin> set as"
  shows "pred_at (hh(x := n)) as j = pred_at hh as j"
proof -
  have "filter (\<lambda>a. j < (hh(x := n)) a) as = filter (\<lambda>a. j < hh a) as" using assms by (intro filter_cong) auto
  then show ?thesis by (simp add: pred_at_def)
qed

lemma insert_step_ok:
  assumes "insert_step cmp (w, l) (w', l')" "skip_inv cmp l ids hh" "writer_ok l ids hh w"
  shows "\<exists>ids' hh'. skip_inv cmp l' ids' hh' \<and> writer_ok l' ids' hh' w' \<and> grows l ids hh l' ids' hh'"
  using assms(1)
proof (cases rule: insert_step_cases)
  case (store_height key y p h seed)
  have pos: "\<forall>a \<in> set ids. 0 < hh a" using assms(3) store_height(1) by simp
  show ?thesis
    using store_height_ok [OF assms(2) pos store_height(3-5), folded store_height(2)] unfolding fst_conv snd_conv by blast
next
  case (new_node key h x prev)
  note w = assms(3) [unfolded new_node writer_ok.simps]
  let ?as = "before l key ids" and ?bs = "since l key ids"
  note n = NewNode_inv [OF assms(2) _ new_node(3)]
  have x: "x \<notin> set ids" using n(2) w by blast
  then have xs: "x \<notin> set ?as" "x \<notin> set ?bs" using split_sets by blast+
  have pr: "pred_at (hh(x := 0)) ?as j = pred_at hh ?as j" for j
    by (rule pred_at_other [OF xs(1)])
  have mh: "max_height l' = max_height l" using new_node(3) by (auto simp: NewNode_def)
  have "set ids = set ?as \<union> set ?bs" using before_since [of l key ids] by (metis set_append)
  then have pos: "\<forall>a \<in> set ?as \<union> set ?bs. 0 < (hh(x := 0)) a" using w x by auto
  have "writer_ok l' (?as @ x # ?bs) (hh(x := 0)) w'"
    unfolding new_node(2) writer_ok.simps using w pos n(3) pr mh by (intro exI [of _ ?as] exI [of _ ?bs]) auto
  moreover have "grows l ids hh l' (?as @ x # ?bs) (hh(x := 0))"
    using n(5) w x mh \<open>set ids = set ?as \<union> set ?bs\<close> by (auto simp: grows_def)
  ultimately show ?thesis using n(1) w by blast
next
  case (store_own i h prev p n x)
  obtain as bs where w: "ids = as @ x # bs" "hh x = i" "h \<le> max_height l" "h \<le> length (next_links (nodes l ! x))"
    "\<forall>a \<in> set as \<union> set bs. 0 < hh a" "\<forall>j < h. prev ! j = Some (pred_at hh as j)"
    using assms(3) unfolding store_own(1) writer_ok.simps by blast
  have x: "x \<in> set ids" "i < length (next_links (nodes l ! x))" using w store_own(2) by auto
  note o = own_link_inv [OF assms(2) x(1) w(2) x(2), of n, folded store_own(6)]
  have p: "p = pred_at hh as i" using store_own(2,3) w(6) by simp
  have "p \<in> set (0 # as)" unfolding p using last_in_set [of "filter (\<lambda>a. i < hh a) as"] by (auto simp: pred_at_def)
  then have "p \<noteq> x" using assms(2) w(1) by (auto simp: skip_inv_def)
  then have "Node_Next l' x i = Node_Next l' p i" using o(2) store_own(4) by simp
  then have "writer_ok l' ids hh w'"
    unfolding store_own(5) writer_ok.simps using w store_own(6,2) p by (intro exI [of _ as] exI [of _ bs]) auto
  moreover have "grows l ids hh l' ids hh" using store_own(6) by (simp add: grows_def)
  ultimately show ?thesis using o(1) by blast
next
  case (store_prev i h prev p x)
  obtain as bs where w: "ids = as @ x # bs" "hh x = i" "h \<le> max_height l" "h \<le> length (next_links (nodes l ! x))"
    "\<forall>a \<in> set as \<union> set bs. 0 < hh a" "\<forall>j < h. prev ! j = Some (pred_at hh as j)"
    "Node_Next l x i = Node_Next l (pred_at hh as i) i"
    using assms(3) unfolding store_prev(1) writer_ok.simps by blast
  have p: "prev ! i = Some (pred_at hh as i)" "p = pred_at hh as i" using store_prev(2,3) w(6) by auto
  have "i < length (next_links (nodes l ! x))" "i < max_height l" using w(3,4) store_prev(2) by auto
  then obtain l'' where l'': "link_level prev x l i = Some l''" "skip_inv cmp l'' ids (hh(x := Suc i))"
    using link_inv [OF assms(2) w(1,2) _ _ p(1)] by blast
  then obtain n where n: "Node_Next l p i = Some n" "l'' = Node_SetNext p i (Some x) (Node_SetNext x i n l)"
    unfolding link_level_def p(1) p(2) [symmetric] by (auto split: option.splits)
  have "Node_SetNext x i n l = l" using n(1) w(7) p(2) by (intro SetNext_same) simp
  then have inv: "skip_inv cmp l' ids (hh(x := Suc i))" using l''(2) n(2) store_prev(5) by simp
  have "distinct ids" using assms(2) by (simp add: skip_inv_def)
  then have nx: "x \<notin> set as" "x \<notin> set bs" using w(1) by auto
  have pr: "pred_at (hh(x := Suc i)) as j = pred_at hh as j" for j
    by (rule pred_at_other [OF nx(1)])
  have "writer_ok l' ids (hh(x := Suc i)) w'"
    unfolding store_prev(4) writer_ok.simps using w store_prev(5,2) pr nx by (intro exI [of _ as] exI [of _ bs]) auto
  moreover have "grows l ids hh l' ids (hh(x := Suc i))" using store_prev(5) w(2) by (auto simp: grows_def)
  ultimately show ?thesis using inv by blast
next
  case (finish_insert prev x h)
  then have "\<forall>a \<in> set ids. 0 < hh a" using assms(3) by auto
  then show ?thesis using assms(2) finish_insert by (intro exI [of _ ids] exI [of _ hh]) (auto simp: grows_def)
qed

text \<open>What a load of a search finds, and what the search ends with.\<close>

lemma search_load:
  assumes inv: "skip_inv cmp l ids hh" and s: "search_ok k l ids hh (At x level)"
  shows "\<exists>us vs. 0 # filter (\<lambda>a. level < hh a) ids = us @ x # vs \<and>
    Node_Next l x level = Some (case vs of [] \<Rightarrow> None | y # _ \<Rightarrow> Some y) \<and>
    KeyIsAfterNode cmp l k (case vs of [] \<Rightarrow> None | y # _ \<Rightarrow> Some y) =
      Some (case vs of [] \<Rightarrow> False | y # _ \<Rightarrow> cmp (sl_key l y) k < 0) \<and>
    set vs \<subseteq> set (filter (\<lambda>a. level < hh a) ids)"
proof -
  let ?F = "filter (\<lambda>a. level < hh a) ids"
  have lvl: "level < kMaxHeight" using inv s by (simp add: skip_inv_def)
  obtain us vs where uv: "0 # ?F = us @ x # vs" using s split_list [of x "0 # ?F"] by auto
  have L: "linked l level 0 ?F" using inv lvl by (simp add: skip_inv_def)
  have n: "linked l level x vs" by (rule linked_from [OF L uv])
  have sub: "set vs \<subseteq> set ?F" using uv by (cases us) auto
  show ?thesis
  proof (cases vs)
    case Nil
    then show ?thesis using n uv by (intro exI [of _ us] exI [of _ vs]) (simp add: KeyIsAfterNode_def)
  next
    case (Cons y ys)
    then have "y \<in> set ids" using sub by auto
    then have "y < length (nodes l)" using inv by (simp add: skip_inv_def)
    then show ?thesis
      using n uv sub Cons by (intro exI [of _ us] exI [of _ vs]) (simp add: KeyIsAfterNode_def key_of_def)
  qed
qed

lemma search_can_step:
  assumes "skip_inv cmp l ids hh" "search_ok k l ids hh (At x level)"
  shows "\<exists>s'. search_step cmp k l (At x level) s'"
proof -
  obtain n b where n: "Node_Next l x level = Some n" "KeyIsAfterNode cmp l k n = Some b"
    using search_load [OF assms] by blast
  show ?thesis
  proof (cases b)
    case True
    then have "KeyIsAfterNode cmp l k n = Some True" using n(2) by simp
    then show ?thesis using go_on [OF n(1)] by blast
  next
    case False
    then have "KeyIsAfterNode cmp l k n = Some False" using n(2) by simp
    then show ?thesis using found [of l x n] go_down [OF n(1)] n(1) by (cases "level = 0") blast+
  qed
qed

lemma search_step_ok:
  assumes "skip_inv cmp l ids hh" "search_ok k l ids hh s" "search_step cmp k l s s'"
  shows "search_ok k l ids hh s'"
  using assms(3)
proof cases
  case load_height
  then show ?thesis using assms(1) by (simp add: skip_inv_def)
next
  case (go_on x level n)
  obtain us vs where uv: "Node_Next l x level = Some (case vs of [] \<Rightarrow> None | y # _ \<Rightarrow> Some y)"
    "KeyIsAfterNode cmp l k (case vs of [] \<Rightarrow> None | y # _ \<Rightarrow> Some y) = Some (case vs of [] \<Rightarrow> False | y # _ \<Rightarrow> cmp (sl_key l y) k < 0)"
    "set vs \<subseteq> set (filter (\<lambda>a. level < hh a) ids)"
    using search_load [OF assms(1) assms(2) [unfolded go_on(1)]] by blast
  then obtain y ys where "vs = y # ys" "n = Some y" "cmp (sl_key l y) k < 0" using go_on(3,4) by (cases vs) auto
  then show ?thesis using assms(2) go_on(1,2) uv(3) by auto
next
  case (go_down x level n)
  then show ?thesis using assms(2) by auto
qed simp

lemma search_result:
  assumes inv: "skip_inv cmp l ids hh" and s: "search_ok k l ids hh s" "search_step cmp k l s (Result r)"
  shows "r = find (\<lambda>a. 0 \<le> cmp (sl_key l a) k) (filter (\<lambda>a. 0 < hh a) ids)"
  using s(2)
proof cases
  case (found x)
  let ?F = "filter (\<lambda>a. 0 < hh a) ids"
  obtain us vs where uv: "0 # ?F = us @ x # vs" "Node_Next l x 0 = Some (case vs of [] \<Rightarrow> None | y # _ \<Rightarrow> Some y)"
    "KeyIsAfterNode cmp l k (case vs of [] \<Rightarrow> None | y # _ \<Rightarrow> Some y) = Some (case vs of [] \<Rightarrow> False | y # _ \<Rightarrow> cmp (sl_key l y) k < 0)"
    using search_load [OF inv s(1) [unfolded found(1)]] by blast
  have r: "r = (case vs of [] \<Rightarrow> None | y # _ \<Rightarrow> Some y)" "\<not> (case vs of [] \<Rightarrow> False | y # _ \<Rightarrow> cmp (sl_key l y) k < 0)"
    using uv(2,3) found(2,3) by auto
  have F: "?F = tl (us @ [x]) @ vs" using uv(1) by (cases us) auto
  have "\<not> 0 \<le> cmp (sl_key l a) k" if a: "a \<in> set (tl (us @ [x]))" for a
  proof -
    have us: "us \<noteq> []" using a by auto
    then obtain us' where us': "us = 0 # us'" using uv(1) by (cases us) auto
    have "x \<in> set ids" using uv(1) us' by (metis append_Cons filter_is_subset in_set_conv_decomp list.inject subsetD)
    moreover have "0 \<notin> set ids" using inv by (simp add: skip_inv_def)
    ultimately have "x \<noteq> 0" by metis
    then have x: "cmp (sl_key l x) k < 0" using s(1) found(1) by simp
    have "sorted_wrt (\<lambda>a b. cmp (sl_key l a) (sl_key l b) < 0) ?F" using inv by (simp add: skip_inv_def sorted_wrt_filter)
    then have "sorted_wrt (\<lambda>a b. cmp (sl_key l a) (sl_key l b) < 0) (us' @ x # vs)" using uv(1) us' by simp
    then have "a = x \<or> cmp (sl_key l a) (sl_key l x) < 0" using a us' by (auto simp: sorted_wrt_append)
    then show ?thesis using x less_le_trans [of "sl_key l a" "sl_key l x" k] by auto
  qed
  then have "find (\<lambda>a. 0 \<le> cmp (sl_key l a) k) ?F = find (\<lambda>a. 0 \<le> cmp (sl_key l a) k) vs"
    unfolding F by (rule find_skip)
  then show ?thesis using r by (cases vs) auto
qed

lemma writer_can_step:
  assumes "skip_inv cmp l ids hh" "writer_ok l ids hh w" "w \<noteq> Idle"
  shows "\<exists>c. insert_step cmp (w, l) c"
proof (cases w)
  case (Raised key prev h)
  then show ?thesis using insert_step.new_node by (metis surj_pair)
next
  case (Linking prev x h i own)
  obtain as bs where w: "ids = as @ x # bs" "hh x = i" "i \<le> h" "h \<le> max_height l" "\<forall>j < h. prev ! j = Some (pred_at hh as j)"
    using assms(2) unfolding Linking writer_ok.simps by blast
  show ?thesis
  proof (cases "i < h")
    case True
    have i: "i < kMaxHeight" using True w(4) assms(1) by (simp add: skip_inv_def)
    have "linked l i 0 (filter (\<lambda>a. i < hh a) as @ filter (\<lambda>a. i < hh a) bs)"
      using assms(1) i w(1,2) by (fastforce simp: skip_inv_def)
    then obtain n where "Node_Next l (pred_at hh as i) i = Some n"
      unfolding linked_append pred_at_def by (cases "filter (\<lambda>a. i < hh a) bs") auto
    moreover have "prev ! i = Some (pred_at hh as i)" using w(5) True by blast
    ultimately show ?thesis
      using store_own [OF True] store_prev [OF True] unfolding Linking by (cases own) (simp only:, blast)+
  next
    case False
    then have "i = h" "\<not> own" using w(3) assms(2) Linking by auto
    then show ?thesis using finish_insert unfolding Linking by (simp only:) blast
  qed
qed (use assms(3) in simp)

lemma conf_step_ok:
  assumes "conf_step cmp k c c'" "conf_inv k ids hh c"
  shows "\<exists>ids' hh'. conf_inv k ids' hh' c' \<and> grows (fst (snd c)) ids hh (fst (snd c')) ids' hh'"
  using assms(1)
proof cases
  case (writer w l w' l' s)
  then obtain ids' hh' where "skip_inv cmp l' ids' hh'" "writer_ok l' ids' hh' w'" "grows l ids hh l' ids' hh'"
    using insert_step_ok [OF writer(3), of ids hh] assms(2) by auto
  then show ?thesis using writer(1,2) assms(2) search_ok_grows by fastforce
next
  case (reader l s s' w)
  then show ?thesis using search_step_ok [of l ids hh k s s'] assms(2)
    by (intro exI [of _ ids] exI [of _ hh]) (auto simp: grows_def)
qed

lemma reachable_inv: "reachable cmp k c \<Longrightarrow> \<exists>ids hh. conf_inv k ids hh c"
proof (induction rule: reachable.induct)
  case (initial any)
  obtain hh where "skip_inv cmp (SkipList_new any) [] hh" using SkipList_new_empty [of cmp any] by (auto simp: lists_nodes_def)
  then show ?case by (intro exI [of _ "[]"] exI [of _ hh]) simp
next
  case (step c c')
  then show ?case using conf_step_ok by blast
qed

end

subsection \<open>The steps are those of an insertion\<close>

lemma link_levels_steps:
  assumes "link_levels prev x [i..<h] l = Some l'" "i \<le> h"
  shows "(insert_step cmp)\<^sup>*\<^sup>* (Linking prev x h i False, l) (Linking prev x h h False, l')"
  using assms
proof (induction "h - i" arbitrary: i l)
  case (Suc m)
  then have i: "i < h" by simp
  then have "[i..<h] = i # [Suc i..<h]" by (rule upt_conv_Cons)
  then obtain l1 where l1: "link_level prev x l i = Some l1" "link_levels prev x [Suc i..<h] l1 = Some l'"
    using Suc.prems(1) by (auto split: option.splits)
  then obtain p n where p: "prev ! i = Some p" "Node_Next l p i = Some n" "l1 = Node_SetNext p i (Some x) (Node_SetNext x i n l)"
    by (auto simp: link_level_def split: option.splits)
  have "insert_step cmp (Linking prev x h i False, l) (Linking prev x h i True, Node_SetNext x i n l)"
    by (rule store_own [OF i p(1,2)])
  moreover have "insert_step cmp (Linking prev x h i True, Node_SetNext x i n l) (Linking prev x h (Suc i) False, l1)"
    unfolding p(3) by (rule store_prev [OF i p(1)])
  moreover have "(insert_step cmp)\<^sup>*\<^sup>* (Linking prev x h (Suc i) False, l1) (Linking prev x h h False, l')"
    using Suc.hyps i l1(2) by auto
  ultimately show ?case by (meson converse_rtranclp_into_rtranclp)
qed simp

text \<open>Run to its end without a reader, the writer's steps are the insertion of the sequential model: from
  outside of \<open>Insert\<close> they lead, for a key that is not in the list, to exactly the list that \<open>Insert\<close> gives.\<close>

lemma insert_steps_are_Insert:
  assumes "Contains cmp l key = Some False" "Insert cmp key l = Some l'"
  shows "(insert_step cmp)\<^sup>*\<^sup>* (Idle, l) (Idle, l')"
proof -
  obtain y p where f: "FindGreaterOrEqual cmp l key (Some (replicate kMaxHeight None)) = Some (y, Some p)"
    using assms(2) by (auto simp: Insert_def split: option.splits prod.splits)
  obtain h seed where rh: "RandomHeight (rnd l) = (h, seed)" by force
  define c where "c = (if max_height l < h
       then (foldl (\<lambda>p i. p[i := Some 0]) p [max_height l..<h], l\<lparr>rnd := seed, max_height := h\<rparr>)
       else (p, l\<lparr>rnd := seed\<rparr>))"
  obtain x l1 where nn: "NewNode key h (snd c) = (x, l1)" by force
  have ll: "link_levels (fst c) x [0..<h] l1 = Some l'"
    using assms(2) nn by (auto simp: Insert_def f rh Let_def c_def split: if_splits)
  have "insert_step cmp (Idle, l) (Raised key (fst c) h, snd c)"
    using store_height [OF assms(1) f rh] by (simp add: c_def split: if_splits)
  moreover have "insert_step cmp (Raised key (fst c) h, snd c) (Linking (fst c) x h 0 False, l1)"
    by (rule new_node [OF nn])
  moreover have "(insert_step cmp)\<^sup>*\<^sup>* (Linking (fst c) x h 0 False, l1) (Linking (fst c) x h h False, l')"
    by (rule link_levels_steps [OF ll]) simp
  moreover have "insert_step cmp (Linking (fst c) x h h False, l') (Idle, l')" by (rule finish_insert)
  ultimately show ?thesis by (meson converse_rtranclp_into_rtranclp rtranclp.rtrancl_into_rtrancl)
qed

subsection \<open>Readers beside the writer\<close>

text \<open>C5: Whatever the interleaving of a search with insertions, no load of the search meets a missing node or a
  link that was never set, so that it can always go on, and neither can the writer get stuck.\<close>

theorem search_never_stuck:
  assumes "comparator cmp UNIV" "reachable cmp k (w, l, s)"
  shows "((\<exists>r. s = Result r) \<or> (\<exists>s'. search_step cmp k l s s')) \<and> (w = Idle \<or> (\<exists>c. insert_step cmp (w, l) c))"
proof -
  note ko = key_order.intro [OF assms(1)]
  obtain ids hh where i: "key_order.conf_inv cmp k ids hh (w, l, s)" using key_order.reachable_inv [OF ko assms(2)] by blast
  note i = i [unfolded key_order.conf_inv.simps [OF ko]]
  have "(\<exists>r. s = Result r) \<or> (\<exists>s'. search_step cmp k l s s')"
  proof (cases s)
    case Ready
    then show ?thesis using load_height [of cmp k l] by auto
  next
    case (At x level)
    then show ?thesis using key_order.search_can_step [OF ko, of l ids hh k x level] i by simp
  qed simp
  moreover have "w = Idle \<or> (\<exists>c. insert_step cmp (w, l) c)"
    using key_order.writer_can_step [OF ko, of l ids hh w] i by blast
  ultimately show ?thesis by blast
qed

text \<open>C4: Searches are atomic at their last load: the list of the lowest level is in ascending order at every
  moment, a step of anybody only adds nodes to it and leaves their keys, and the step that ends a search
  returns the first node of that moment whose key is not below the target, or none if there is none.\<close>

theorem search_linearizable:
  assumes "comparator cmp UNIV" "reachable cmp k (w, l, s)" "conf_step cmp k (w, l, s) (w', l', s')"
  shows "\<exists>ids ids'. walk l 0 = Some ids \<and> walk l' 0 = Some ids' \<and>
    sorted_wrt (\<lambda>a b. cmp (sl_key l a) (sl_key l b) < 0) ids \<and> set ids \<subseteq> set ids' \<and> map (sl_key l') ids = map (sl_key l) ids \<and>
    (s = s' \<or> (\<forall>r. s' = Result r \<longrightarrow> r = find (\<lambda>a. 0 \<le> cmp (sl_key l a) k) ids))"
proof -
  note ko = key_order.intro [OF assms(1)]
  obtain ids hh where i: "key_order.conf_inv cmp k ids hh (w, l, s)" using key_order.reachable_inv [OF ko assms(2)] by blast
  obtain ids' hh' where i': "key_order.conf_inv cmp k ids' hh' (w', l', s')" "key_order.grows l ids hh l' ids' hh'"
    using key_order.conf_step_ok [OF ko assms(3) i] by auto
  note i = i [unfolded key_order.conf_inv.simps [OF ko]] and i1 = i'(1) [unfolded key_order.conf_inv.simps [OF ko]]
  let ?F = "filter (\<lambda>a. 0 < hh a) ids" and ?F' = "filter (\<lambda>a. 0 < hh' a) ids'"
  have walks: "walk l 0 = Some ?F" "walk l' 0 = Some ?F'"
    using i i1 by (auto intro!: walk_linked simp: skip_inv_def kMaxHeight_def)
  have g: "\<forall>a \<in> set ids. a \<in> set ids' \<and> hh a \<le> hh' a \<and> sl_key l' a = sl_key l a"
    using i'(2) by (simp add: key_order.grows_def [OF ko])
  have "s = s' \<or> search_step cmp k l s s'" using assms(3) by (cases rule: conf_step.cases) auto
  then have "r = find (\<lambda>a. 0 \<le> cmp (sl_key l a) k) ?F" if "s \<noteq> s'" "s' = Result r" for r
    using key_order.search_result [OF ko, of l ids hh k s r] i that by blast
  moreover have "sorted_wrt (\<lambda>a b. cmp (sl_key l a) (sl_key l b) < 0) ?F" using i by (simp add: skip_inv_def sorted_wrt_filter)
  moreover have "set ?F \<subseteq> set ?F'" "map (sl_key l') ?F = map (sl_key l) ?F" using g by fastforce+
  ultimately show ?thesis using walks by blast
qed

subsection \<open>Witnesses\<close>

text \<open>A search for 3 has begun in an empty list when the insertion of 5 begins.\<close>

lemma empty_numbers:
  "Contains int_compare (SkipList_new 0) 5 = Some False" "max_height (SkipList_new any) = 1"
  "Node_Next (SkipList_new any) 0 0 = Some None"
proof -
  have "represents int_compare (SkipList_new 0) []"
    unfolding represents_def using SkipList_new_empty by fastforce
  then show "Contains int_compare (SkipList_new 0) 5 = Some False" using numbers.Contains_represents by fastforce
qed (simp_all add: SkipList_new_nodes Node_Next_def)

lemma insert_steps_are_Insert_witness:
  "\<exists>l'. Insert int_compare 5 (SkipList_new 0) = Some l' \<and>
    (insert_step int_compare)\<^sup>*\<^sup>* (Idle, SkipList_new 0) (Idle, l')"
  using insert_steps_are_Insert [OF empty_numbers(1)] skiplist_refines_sorted_list_witness by blast

lemma begun_search:
  obtains w l where "w \<noteq> Idle" "reachable int_compare 3 (w, l, At 0 0)" "Node_Next l 0 0 = Some None" "walk l 0 = Some []"
proof -
  let ?l = "SkipList_new 0 :: int skiplist"
  obtain hh where inv: "skip_inv int_compare ?l [] hh" using SkipList_new_empty [of int_compare 0] by (auto simp: lists_nodes_def)
  obtain y p where f: "FindGreaterOrEqual int_compare ?l 5 (Some (replicate kMaxHeight None)) = Some (y, Some p)"
    using numbers.find_ge_all [OF inv] by auto
  obtain h seed where rh: "RandomHeight (rnd ?l) = (h, seed)" by force
  obtain w l where st: "insert_step int_compare (Idle, ?l) (w, l)" "w \<noteq> Idle" "nodes l = nodes ?l"
    using store_height [OF empty_numbers(1) f rh] by (force split: if_splits)
  have "reachable int_compare 3 (Idle, ?l, Ready)" by (rule initial)
  then have "reachable int_compare 3 (Idle, ?l, At 0 (max_height ?l - 1))" by (rule step) (rule reader, rule load_height)
  then have "reachable int_compare 3 (Idle, ?l, At 0 0)" by (simp add: empty_numbers(2))
  then have r: "reachable int_compare 3 (w, l, At 0 0)" by (rule step) (rule writer, rule st(1))
  have n: "Node_Next l 0 0 = Some None" using st(3) by (simp add: Node_Next_def SkipList_new_nodes)
  show ?thesis using that [OF st(2) r n] walk_linked [of l 0 "[]"] n by simp
qed

lemma search_never_stuck_witness:
  "\<exists>w l. w \<noteq> Idle \<and> (\<exists>s'. search_step int_compare 3 l (At 0 0) s') \<and> (\<exists>c. insert_step int_compare (w, l) c)"
proof -
  obtain w l where "w \<noteq> Idle" "reachable int_compare 3 (w, l, At 0 0)" by (rule begun_search)
  then show ?thesis using search_never_stuck [OF numbers.comparator_axioms, of 3 w l "At 0 0"] by blast
qed

lemma search_linearizable_witness:
  "\<exists>w l ids. w \<noteq> Idle \<and> conf_step int_compare 3 (w, l, At 0 0) (w, l, Result None) \<and> walk l 0 = Some ids \<and>
    find (\<lambda>a. 0 \<le> int_compare (sl_key l a) 3) ids = None"
proof -
  obtain w l where b: "w \<noteq> Idle" "reachable int_compare 3 (w, l, At 0 0)" "Node_Next l 0 0 = Some None" by (rule begun_search)
  have "search_step int_compare 3 l (At 0 0) (Result None)" using b(3) by (intro found) (simp_all add: KeyIsAfterNode_def)
  then have s: "conf_step int_compare 3 (w, l, At 0 0) (w, l, Result None)" by (rule reader)
  obtain ids where "walk l 0 = Some ids" "None = find (\<lambda>a. 0 \<le> int_compare (sl_key l a) 3) ids"
    using search_linearizable [OF numbers.comparator_axioms b(2) s] by auto
  then show ?thesis using b(1) s by metis
qed

end
