(* ===== verification/Ldb_Bloom.thy ===== *)
theory Ldb_Bloom
  imports Ldb_Coding
begin

text \<open>
  util/hash.cc and util/bloom.cc of leveldb: the hash of a key and the Bloom filter policy, whose filters
  never deny a key they were made from. The interface of db and table code to a policy is the locale
  \<open>filter_policy\<close>, with the Bloom filter as its instance.
\<close>

subsection \<open>The hash\<close>

text \<open>The loop over whole words returns the bytes that are left, fewer than four.\<close>

fun hash_words :: "u32 \<Rightarrow> u8 list \<Rightarrow> u32 \<times> u8 list" where
  "hash_words h (a # b # c # d # rest) =
     (let w = DecodeFixed32 [a, b, c, d];
          h = h + w;
          h = h * 0xc6a4a793;
          h = h XOR drop_bit 16 h
      in hash_words h rest)"
| "hash_words h data = (h, data)"

fun hash_rest :: "u32 \<Rightarrow> u8 list \<Rightarrow> u32" where
  "hash_rest h [] = h"
| "hash_rest h (c # rest) =
     (let h = (if 2 < length (c # rest) then h + push_bit 16 (ucast ((c # rest) ! 2)) else h);
          h = (if 1 < length (c # rest) then h + push_bit 8 (ucast ((c # rest) ! 1)) else h);
          h = (h + ucast c) * 0xc6a4a793
      in h XOR drop_bit 24 h)"

definition Hash :: "u8 list \<Rightarrow> u32 \<Rightarrow> u32" where
  "Hash data seed =
     (case hash_words (seed XOR (word_of_nat (length data) * 0xc6a4a793)) data of (h, rest) \<Rightarrow> hash_rest h rest)"

lemma hash_words_left: "length (snd (hash_words h data)) = length data mod 4"
proof (induction h data rule: hash_words.induct)
  case (1 h a b c d rest)
  have "length (a # b # c # d # rest) = length rest + 4" by simp
  with 1 show ?case unfolding hash_words.simps Let_def by (simp only: mod_add_self2)
qed simp_all

subsection \<open>The Bloom filter policy\<close>

record bloom_policy =
  bits_per_key :: u64
  probes :: nat

text \<open>
  The argument is an \<open>int\<close> that is not negative (the conversion of a negative product to \<open>size_t\<close> is
  undefined). The product with 0.69 is a \<open>double\<close>; up to 43 bits it is not near an integer, above the
  number of probes is 30, so that its integer part is exact.
\<close>

definition BloomFilterPolicy :: "nat \<Rightarrow> bloom_policy" where
  "BloomFilterPolicy n =
     (let k = n * 69 div 100;
          k = (if k < 1 then 1 else k);
          k = (if 30 < k then 30 else k)
      in \<lparr>bits_per_key = word_of_nat n, probes = k\<rparr>)"

definition BloomHash :: "u8 list \<Rightarrow> u32" where
  "BloomHash key = Hash key 0xbc9f1d34"

definition rotate_right_17 :: "u32 \<Rightarrow> u32" where
  "rotate_right_17 h = drop_bit 17 h OR push_bit 15 h"

text \<open>The loops over the probes: \<open>array\<close> is the filter without its last byte, \<open>j\<close> the probes left.\<close>

fun set_probes :: "nat \<Rightarrow> u64 \<Rightarrow> u32 \<Rightarrow> u32 \<Rightarrow> u8 list \<Rightarrow> u8 list" where
  "set_probes 0 bits delta h array = array"
| "set_probes (Suc j) bits delta h array =
     (let bitpos = ucast (ucast h mod bits) :: u32;
          i = unat (bitpos div 8)
      in set_probes j bits delta (h + delta) (array[i := array ! i OR push_bit (unat (bitpos mod 8)) 1]))"

fun probes_set :: "nat \<Rightarrow> u64 \<Rightarrow> u32 \<Rightarrow> u32 \<Rightarrow> u8 list \<Rightarrow> bool" where
  "probes_set 0 bits delta h array = True"
| "probes_set (Suc j) bits delta h array =
     (let bitpos = ucast (ucast h mod bits) :: u32
      in if array ! unat (bitpos div 8) AND push_bit (unat (bitpos mod 8)) 1 = 0 then False
         else probes_set j bits delta (h + delta) array)"

definition add_key_bits :: "nat \<Rightarrow> u64 \<Rightarrow> u8 list \<Rightarrow> u8 list \<Rightarrow> u8 list" where
  "add_key_bits k bits key array = (let h = BloomHash key in set_probes k bits (rotate_right_17 h) h array)"

text \<open>The keys are the first \<open>n\<close> of the array \<open>keys\<close>; \<open>size_t\<close> has 64 bits.\<close>

definition CreateFilter :: "bloom_policy \<Rightarrow> u8 list list \<Rightarrow> int \<Rightarrow> u8 list \<Rightarrow> u8 list" where
  "CreateFilter p keys n dst =
     (let bits = word_of_int n * bits_per_key p;
          bits = (if bits < 64 then 64 else bits);
          bytes = (bits + 7) div 8;
          bits = bytes * 8
      in dst @ fold (add_key_bits (probes p) bits) (take (nat n) keys) (replicate (unat bytes) 0) @ [word_of_nat (probes p)])"

definition KeyMayMatch :: "u8 list \<Rightarrow> u8 list \<Rightarrow> bool" where
  "KeyMayMatch key bloom_filter =
     (let len = length bloom_filter
      in if len < 2 then False
         else let bits = (word_of_nat len - 1) * 8;
                  k = unat (bloom_filter ! (len - 1))
              in if 30 < k then True
                 else let h = BloomHash key in probes_set k bits (rotate_right_17 h) h bloom_filter)"

subsection \<open>What is set stays set\<close>

text \<open>One array has every bit of another.\<close>

definition has_bits :: "u8 list \<Rightarrow> u8 list \<Rightarrow> bool" where
  "has_bits a b \<longleftrightarrow> length a \<le> length b \<and> (\<forall>i < length a. \<forall>m. bit (a ! i) m \<longrightarrow> bit (b ! i) m)"

lemma has_bits_refl [simp]: "has_bits a a"
  by (simp add: has_bits_def)

lemma has_bits_append [simp]: "has_bits a (a @ b)"
  by (simp add: has_bits_def nth_append)

lemma has_bits_trans [trans]: "has_bits a b \<Longrightarrow> has_bits b c \<Longrightarrow> has_bits a c"
  by (fastforce simp: has_bits_def)

lemma has_bits_or: "has_bits a (a[i := a ! i OR w])"
  by (cases "i < length a") (auto simp: has_bits_def nth_list_update bit_simps)

lemma set_probes_length [simp]: "length (set_probes j bits delta h a) = length a"
  by (induction j bits delta h a rule: set_probes.induct) (simp_all add: Let_def)

lemma set_probes_has_bits: "has_bits a (set_probes j bits delta h a)"
proof (induction j bits delta h a rule: set_probes.induct)
  case (2 j bits delta h array)
  show ?case unfolding set_probes.simps Let_def by (rule has_bits_trans [OF has_bits_or 2 [OF refl refl]])
qed simp

lemma bitpos_in_range:
  assumes "0 < (bits :: u64)" "unat bits \<le> 8 * n"
  shows "unat ((ucast (ucast (h :: u32) mod bits) :: u32) div 8) < n"
proof -
  have "unat (ucast h mod bits :: u64) \<le> unat h"
    by (simp add: unat_mod_distrib unat_ucast_up)
  then have "unat (ucast (ucast h mod bits) :: u32) = unat (ucast h mod bits :: u64)"
    using unat_bound [of h] by (simp add: unat_ucast)
  moreover have "unat (ucast h mod bits :: u64) < unat bits"
    using assms(1) by (simp add: unat_mod_distrib word_less_nat_alt)
  ultimately show ?thesis using assms(2) by (simp add: unat_div_distrib)
qed

lemma set_probes_set:
  assumes "0 < bits" "unat bits \<le> 8 * length a" "has_bits (set_probes j bits delta h a) b"
  shows "probes_set j bits delta h b"
  using assms
proof (induction j bits delta h a rule: set_probes.induct)
  case (2 j bits delta h a)
  let ?p = "ucast (ucast h mod bits) :: u32"
  let ?i = "unat (?p div 8)"
  let ?m = "unat (?p mod 8)"
  let ?a = "a[?i := a ! ?i OR push_bit ?m 1]"
  have i: "?i < length a" by (rule bitpos_in_range [OF 2(2,3)])
  have m: "?m < 8" by (simp add: unat_mod_distrib)
  have r: "has_bits (set_probes j bits delta (h + delta) ?a) b" using 2(4) by (simp add: Let_def)
  then have "has_bits ?a b" by (rule has_bits_trans [OF set_probes_has_bits])
  moreover have "bit (?a ! ?i) ?m" using i m by (simp add: bit_simps)
  ultimately have "bit (b ! ?i) ?m" using i by (simp add: has_bits_def)
  moreover have "probes_set j bits delta (h + delta) b" by (rule 2(1) [OF refl refl 2(2) _ r]) (use 2(3) in simp)
  ultimately show ?case by (simp add: Let_def and_exp_eq_0_iff_not_bit)
qed simp

lemma fold_add_key_bits_length [simp]: "length (fold (add_key_bits k bits) keys a) = length a"
  by (induction keys arbitrary: a) (simp_all add: add_key_bits_def Let_def)

lemma fold_add_key_bits:
  assumes "key \<in> set keys" "0 < bits" "unat bits \<le> 8 * length a"
  shows "probes_set k bits (rotate_right_17 (BloomHash key)) (BloomHash key) (fold (add_key_bits k bits) keys a @ rest)"
proof -
  have grow: "has_bits a (fold (add_key_bits k bits) ks a)" for ks a
  proof (induction ks arbitrary: a)
    case (Cons x ks)
    show ?case unfolding fold.simps o_apply
      by (rule has_bits_trans [OF _ Cons]) (simp add: add_key_bits_def Let_def set_probes_has_bits)
  qed simp
  obtain us vs where keys: "keys = us @ key # vs" using split_list [OF assms(1)] by blast
  let ?a = "fold (add_key_bits k bits) us a"
  have "has_bits (add_key_bits k bits key ?a) (fold (add_key_bits k bits) keys a @ rest)"
    unfolding keys by (simp, rule has_bits_trans [OF grow has_bits_append])
  then show ?thesis
    using assms by (intro set_probes_set [where a = ?a]) (simp_all add: add_key_bits_def [of k bits key ?a] Let_def)
qed

subsection \<open>No false negatives\<close>

lemma k_bounds: "1 \<le> probes (BloomFilterPolicy n)" "probes (BloomFilterPolicy n) \<le> 30"
  by (simp_all add: BloomFilterPolicy_def Let_def)

lemma filter_bits_bounds:
  assumes "n < 2 ^ 31" "b < 2 ^ 31"
  defines "bits \<equiv> (let bits = word_of_int (int n) * word_of_nat b :: u64 in if bits < 64 then 64 else bits)"
  defines "bytes \<equiv> (bits + 7) div 8"
  shows "unat bits = max 64 (n * b)" "unat bytes = (max 64 (n * b) + 7) div 8" "8 * unat bytes < 2 ^ 64"
proof -
  have nb: "n * b \<le> 2 ^ 62" using mult_mono [of n "2 ^ 31" b "2 ^ 31"] assms(1,2) by simp
  have p: "unat (word_of_int (int n) * word_of_nat b :: u64) = n * b"
    using nb by (simp add: unat_of_nat of_nat_mult [symmetric] del: of_nat_mult)
  show b: "unat bits = max 64 (n * b)"
    unfolding bits_def Let_def using p by (simp add: word_less_nat_alt max_def)
  have "unat (bits + 7) = max 64 (n * b) + 7"
    using b nb by (subst unat_add_lem [THEN iffD1]) auto
  then show "unat bytes = (max 64 (n * b) + 7) div 8" unfolding bytes_def by (simp add: unat_div_distrib)
  then show "8 * unat bytes < 2 ^ 64" using nb by simp
qed

lemma CreateFilter_may_match:
  assumes key: "key \<in> set keys" and n: "length keys < 2 ^ 31" and b: "b < 2 ^ 31"
  shows "\<exists>f. CreateFilter (BloomFilterPolicy b) keys (int (length keys)) dst = dst @ f \<and> KeyMayMatch key f"
proof -
  let ?p = "BloomFilterPolicy b"
  define bits where "bits = (let bits = word_of_int (int (length keys)) * word_of_nat b :: u64 in if bits < 64 then 64 else bits)"
  define bytes where "bytes = (bits + 7) div 8"
  note sz = filter_bits_bounds [OF n b, folded bits_def, folded bytes_def]
  define a where "a = fold (add_key_bits (probes ?p) (bytes * 8)) keys (replicate (unat bytes) 0)"
  have pb: "bits_per_key ?p = word_of_nat b" by (simp add: BloomFilterPolicy_def Let_def)
  have c: "CreateFilter ?p keys (int (length keys)) dst = dst @ a @ [word_of_nat (probes ?p)]"
    unfolding CreateFilter_def pb a_def bytes_def bits_def Let_def by simp
  have u8: "unat (bytes * 8) = unat bytes * 8" using sz(3) by (simp add: unat_mult_lem [THEN iffD1])
  have "(64 + 7) div 8 \<le> unat bytes" unfolding sz(2) by (rule div_le_mono) simp
  then have b8: "8 \<le> unat bytes" by simp
  then have pos: "0 < bytes * 8" using u8 b8 by (simp add: word_less_nat_alt)
  have la: "length a = unat bytes" by (simp add: a_def)
  have k: "unat (word_of_nat (probes ?p) :: u8) = probes ?p" using k_bounds [of b] by (simp add: unat_of_nat)
  have "probes_set (probes ?p) (bytes * 8) (rotate_right_17 (BloomHash key)) (BloomHash key) (a @ [word_of_nat (probes ?p)])"
    unfolding a_def by (rule fold_add_key_bits [OF key pos]) (use u8 in simp)
  then have "KeyMayMatch key (a @ [word_of_nat (probes ?p)])"
    unfolding KeyMayMatch_def Let_def using k k_bounds [of b] la b8 by (simp add: nth_append)
  with c show ?thesis by blast
qed

subsection \<open>The interface\<close>

text \<open>
  What a user of a policy relies on: the filter is appended to the string, and no key it was made from
  is denied. A policy only has to be right up to \<open>2 ^ 31 - 1\<close> keys, as their number is an \<open>int\<close>.
\<close>

locale filter_policy =
  fixes create :: "u8 list list \<Rightarrow> int \<Rightarrow> u8 list \<Rightarrow> u8 list"
    and may_match :: "u8 list \<Rightarrow> u8 list \<Rightarrow> bool"
  assumes appends: "length keys < 2 ^ 31 \<Longrightarrow> \<exists>f. create keys (int (length keys)) dst = dst @ f \<and> (\<forall>key \<in> set keys. may_match key f)"

lemma bloom_is_filter_policy:
  assumes "b < 2 ^ 31"
  shows "filter_policy (CreateFilter (BloomFilterPolicy b)) KeyMayMatch"
proof
  fix keys :: "u8 list list" and dst :: "u8 list"
  assume n: "length keys < 2 ^ 31"
  obtain f where f: "CreateFilter (BloomFilterPolicy b) keys (int (length keys)) dst = dst @ f"
    by (simp add: CreateFilter_def Let_def)
  have "KeyMayMatch key f" if "key \<in> set keys" for key
    using CreateFilter_may_match [OF that n assms, of dst] f by simp
  with f show "\<exists>f. CreateFilter (BloomFilterPolicy b) keys (int (length keys)) dst = dst @ f \<and> (\<forall>key \<in> set keys. KeyMayMatch key f)"
    by blast
qed

interpretation default_bloom: filter_policy "CreateFilter (BloomFilterPolicy 10)" KeyMayMatch
  by (rule bloom_is_filter_policy) simp

end
