(* ===== verification/Fixed_Array.thy ===== *)
theory Fixed_Array
  imports Ldb_Coding
begin

text \<open>
  What the block formats of leveldb share: the offsets at which the parts of a concatenation start, and
  arrays of fixed-width numbers at the end of a block.
\<close>

subsection \<open>Where the parts of a concatenation start\<close>

definition starts :: "'a list list \<Rightarrow> nat list" where
  "starts xs = map (\<lambda>i. length (concat (take i xs))) [0..<length xs]"

lemma starts_simps [simp]:
  "starts [] = []" "length (starts xs) = length xs" "starts xs = [] \<longleftrightarrow> xs = []"
  "starts (xs @ [x]) = starts xs @ [length (concat xs)]"
  by (simp_all add: starts_def)

lemma starts_nth: "i < length xs \<Longrightarrow> starts xs ! i = length (concat (take i xs))"
  by (simp add: starts_def)

lemma starts_end_nth: "i \<le> length xs \<Longrightarrow> (starts xs @ [length (concat xs)]) ! i = length (concat (take i xs))"
  by (auto simp: nth_append starts_nth)

lemma concat_slice:
  assumes "i < length xs"
  shows "take (length (concat (take (i + 1) xs)) - length (concat (take i xs))) (drop (length (concat (take i xs))) (concat xs @ rest)) = xs ! i"
proof -
  have x: "concat xs = concat (take i xs) @ xs ! i @ concat (drop (Suc i) xs)"
    using assms by (metis append_Cons append_Nil concat.simps(2) concat_append id_take_nth_drop)
  show ?thesis using assms unfolding x by (simp add: take_Suc_conv_app_nth)
qed

lemma concat_take_length: "length (concat (take i xs)) \<le> length (concat xs)"
  by (metis append_take_drop_id concat_append le_add1 length_append)

subsection \<open>Arrays of fixed-width numbers\<close>

lemma foldl_PutFixed32: "foldl PutFixed32 r vs = r @ concat (map EncodeFixed32 vs)"
  by (induction vs arbitrary: r) (simp_all add: PutFixed32_def)

lemma fixed32_array_length [simp]: "length (concat (map EncodeFixed32 vs)) = 4 * length vs"
  by (induction vs) simp_all

lemma fixed32_array_nth:
  assumes "i < length vs"
  shows "DecodeFixed32 (drop (i * 4) (concat (map EncodeFixed32 vs) @ rest)) = vs ! i"
proof -
  have v: "concat (map EncodeFixed32 vs) =
      concat (map EncodeFixed32 (take i vs)) @ EncodeFixed32 (vs ! i) @ concat (map EncodeFixed32 (drop (Suc i) vs))"
    using assms by (metis append_Cons append_Nil concat.simps(2) concat_append id_take_nth_drop list.simps(9) map_append)
  show ?thesis using assms unfolding v by simp
qed

end
