(* ===== verification/Ldb_Filter_Block.thy ===== *)
theory Ldb_Filter_Block
  imports Ldb_Bloom Fixed_Array
begin

text \<open>
  table/filter_block.cc of leveldb: the filters of a table, one for each two kilobytes of its data, as the
  builder collects them and the reader looks them up. The policy is a parameter, used through its interface
  only; what the reader answers for a key the builder was given is proved for every policy that keeps the
  interface, and holds for the Bloom filter.
\<close>

subsection \<open>The builder and the reader\<close>

record filter_block_builder =
  fb_keys :: "u8 list"
  fb_start :: "nat list"
  fb_result :: "u8 list"
  fb_tmp_keys :: "u8 list list"
  fb_offsets :: "u32 list"

definition kFilterBaseLg :: nat where
  "kFilterBaseLg = 11"

definition kFilterBase :: u64 where
  "kFilterBase = push_bit kFilterBaseLg 1"

definition FilterBlockBuilder :: filter_block_builder where
  "FilterBlockBuilder = \<lparr>fb_keys = [], fb_start = [], fb_result = [], fb_tmp_keys = [], fb_offsets = []\<rparr>"

text \<open>The number of the keys is cast to \<open>int\<close>.\<close>

definition GenerateFilter ::
  "(u8 list list \<Rightarrow> int \<Rightarrow> u8 list \<Rightarrow> u8 list) \<Rightarrow> filter_block_builder \<Rightarrow> filter_block_builder" where
  "GenerateFilter create b =
     (let num_keys = length (fb_start b)
      in if num_keys = 0 then b\<lparr>fb_offsets := fb_offsets b @ [word_of_nat (length (fb_result b))]\<rparr>
         else
           let start = fb_start b @ [length (fb_keys b)];
               tmp_keys = map (\<lambda>i. take (start ! (i + 1) - start ! i) (drop (start ! i) (fb_keys b))) [0..<num_keys];
               offsets = fb_offsets b @ [word_of_nat (length (fb_result b))];
               result = create tmp_keys (sint (word_of_nat num_keys :: u32)) (fb_result b)
           in \<lparr>fb_keys = [], fb_start = [], fb_result = result, fb_tmp_keys = [], fb_offsets = offsets\<rparr>)"

lemma GenerateFilter_offsets [simp]: "length (fb_offsets (GenerateFilter create b)) = Suc (length (fb_offsets b))"
  by (simp add: GenerateFilter_def Let_def)

function generate_until ::
  "(u8 list list \<Rightarrow> int \<Rightarrow> u8 list \<Rightarrow> u8 list) \<Rightarrow> nat \<Rightarrow> filter_block_builder \<Rightarrow> filter_block_builder" where
  "generate_until create filter_index b =
     (if length (fb_offsets b) < filter_index then generate_until create filter_index (GenerateFilter create b) else b)"
  by pat_completeness auto
termination
  by (relation "measure (\<lambda>(create, filter_index, b). filter_index - length (fb_offsets b))") auto

declare generate_until.simps [simp del]

definition StartBlock ::
  "(u8 list list \<Rightarrow> int \<Rightarrow> u8 list \<Rightarrow> u8 list) \<Rightarrow> u64 \<Rightarrow> filter_block_builder \<Rightarrow> filter_block_builder" where
  "StartBlock create block_offset b = generate_until create (unat (block_offset div kFilterBase)) b"

definition AddKey :: "u8 list \<Rightarrow> filter_block_builder \<Rightarrow> filter_block_builder" where
  "AddKey key b = b\<lparr>fb_start := fb_start b @ [length (fb_keys b)], fb_keys := fb_keys b @ key\<rparr>"

definition FilterBlock_Finish ::
  "(u8 list list \<Rightarrow> int \<Rightarrow> u8 list \<Rightarrow> u8 list) \<Rightarrow> filter_block_builder \<Rightarrow> filter_block_builder" where
  "FilterBlock_Finish create b =
     (let b = (if fb_start b \<noteq> [] then GenerateFilter create b else b);
          array_offset = word_of_nat (length (fb_result b));
          result = foldl PutFixed32 (fb_result b) (fb_offsets b);
          result = PutFixed32 result array_offset
      in b\<lparr>fb_result := result @ [word_of_nat kFilterBaseLg]\<rparr>)"

text \<open>
  The reader: the contents and the offset of the offset array in them. After an early return of the
  constructor the pointers are null and \<open>num_\<close> is 0, so that they are not followed.
\<close>

record filter_block_reader =
  fr_data :: "u8 list"
  fr_offset :: nat
  fr_num :: nat
  fr_base_lg :: nat

definition FilterBlockReader :: "u8 list \<Rightarrow> filter_block_reader" where
  "FilterBlockReader contents =
     (let n = length contents;
          r = \<lparr>fr_data = [], fr_offset = 0, fr_num = 0, fr_base_lg = 0\<rparr>
      in if n < 5 then r
         else
           let r = r\<lparr>fr_base_lg := unat (contents ! (n - 1))\<rparr>;
               last_word = unat (DecodeFixed32 (drop (n - 5) contents))
           in if n - 5 < last_word then r
              else r\<lparr>fr_data := contents, fr_offset := last_word, fr_num := (n - 5 - last_word) div 4\<rparr>)"

text \<open>
  A shift by 64 or more, which the last byte of a damaged block can ask for, is undefined: the result is
  \<open>None\<close> then.
\<close>

definition FilterBlock_KeyMayMatch :: "(u8 list \<Rightarrow> u8 list \<Rightarrow> bool) \<Rightarrow> filter_block_reader \<Rightarrow> u64 \<Rightarrow> u8 list \<Rightarrow> bool option" where
  "FilterBlock_KeyMayMatch may_match r block_offset key =
     (if 64 \<le> fr_base_lg r then None
      else
        let index = unat (drop_bit (fr_base_lg r) block_offset)
        in if index < fr_num r then
             let start = unat (DecodeFixed32 (drop (fr_offset r + index * 4) (fr_data r)));
                 limit = unat (DecodeFixed32 (drop (fr_offset r + index * 4 + 4) (fr_data r)))
             in if start \<le> limit \<and> limit \<le> fr_offset r
                then Some (may_match key (take (limit - start) (drop start (fr_data r))))
                else if start = limit then Some False
                else Some True
           else Some True)"

subsection \<open>The invariant of the builder\<close>

text \<open>
  \<open>done\<close> holds the keys of the filters made so far, \<open>pending\<close> those collected for the next one.
\<close>

definition filters_match :: "(u8 list \<Rightarrow> u8 list \<Rightarrow> bool) \<Rightarrow> u8 list list list \<Rightarrow> u8 list list \<Rightarrow> bool" where
  "filters_match may_match kss fs \<longleftrightarrow> list_all2 (\<lambda>ks f. \<forall>k \<in> set ks. may_match k f) kss fs"

definition builder_inv ::
  "(u8 list \<Rightarrow> u8 list \<Rightarrow> bool) \<Rightarrow> u8 list list list \<Rightarrow> u8 list list \<Rightarrow> filter_block_builder \<Rightarrow> bool" where
  "builder_inv may_match kss pending b \<longleftrightarrow>
     (\<exists>fs. filters_match may_match kss fs \<and> fb_result b = concat fs \<and> fb_offsets b = map word_of_nat (starts fs)) \<and>
     fb_keys b = concat pending \<and> fb_start b = starts pending"

lemma FilterBlockBuilder_inv [simp]: "builder_inv may_match [] [] FilterBlockBuilder"
  by (simp add: builder_inv_def filters_match_def FilterBlockBuilder_def)

lemma AddKey_inv: "builder_inv may_match kss pending b \<Longrightarrow> builder_inv may_match kss (pending @ [key]) (AddKey key b)"
  by (simp add: builder_inv_def AddKey_def)

lemma AddKeys_inv: "builder_inv may_match kss pending b \<Longrightarrow> builder_inv may_match kss (pending @ ks) (fold AddKey ks b)"
proof (induction ks arbitrary: pending b)
  case (Cons key ks)
  then show ?case using Cons.IH [OF AddKey_inv [OF Cons.prems]] by simp
qed simp

lemma builder_inv_offsets: "builder_inv may_match kss pending b \<Longrightarrow> length (fb_offsets b) = length kss"
  by (auto simp: builder_inv_def filters_match_def dest: list_all2_lengthD)

lemma int_of_count: "n < 2 ^ 31 \<Longrightarrow> sint (word_of_nat n :: u32) = int n"
  by (simp add: signed_of_nat signed_take_bit_int_eq_self)

context filter_policy
begin

lemma GenerateFilter_inv:
  assumes "builder_inv may_match kss pending b" "length pending < 2 ^ 31"
  shows "builder_inv may_match (kss @ [pending]) [] (GenerateFilter create b)"
proof -
  obtain fs where fs: "filters_match may_match kss fs" "fb_result b = concat fs" "fb_offsets b = map word_of_nat (starts fs)"
    and p: "fb_keys b = concat pending" "fb_start b = starts pending"
    using assms(1) by (auto simp: builder_inv_def)
  show ?thesis
  proof (cases "pending = []")
    case True
    then have "filters_match may_match (kss @ [pending]) (fs @ [[]])"
      using fs(1) by (simp add: filters_match_def list_all2_appendI)
    then show ?thesis using True fs p unfolding builder_inv_def
      by (intro conjI exI [of _ "fs @ [[]]"]) (simp_all add: GenerateFilter_def)
  next
    case False
    have tmp: "map (\<lambda>i. take ((starts pending @ [length (concat pending)]) ! (i + 1) - (starts pending @ [length (concat pending)]) ! i)
        (drop ((starts pending @ [length (concat pending)]) ! i) (concat pending))) [0..<length pending] = pending" (is "map ?f _ = _")
    proof (rule nth_equalityI)
      fix i assume "i < length (map ?f [0..<length pending])"
      then have i: "i < length pending" by simp
      then show "map ?f [0..<length pending] ! i = pending ! i"
        using concat_slice [OF i, of "[]"] unfolding append_Nil2 by (simp add: starts_end_nth)
    qed simp
    obtain f where f: "create pending (int (length pending)) (concat fs) = concat fs @ f" "\<forall>k \<in> set pending. may_match k f"
      using appends [OF assms(2)] by blast
    have "filters_match may_match (kss @ [pending]) (fs @ [f])"
      using fs(1) f(2) by (simp add: filters_match_def list_all2_appendI)
    moreover have "GenerateFilter create b =
      \<lparr>fb_keys = [], fb_start = [], fb_result = concat fs @ f, fb_tmp_keys = [],
       fb_offsets = map word_of_nat (starts fs) @ [word_of_nat (length (concat fs))]\<rparr>"
      unfolding GenerateFilter_def Let_def p fs(2,3) starts_simps(2) tmp int_of_count [OF assms(2)] f(1) using False by simp
    ultimately show ?thesis unfolding builder_inv_def by (intro conjI exI [of _ "fs @ [f]"]) simp_all
  qed
qed

lemma generate_until_inv:
  assumes "builder_inv may_match kss pending b" "length pending < 2 ^ 31" "length kss < n"
  shows "builder_inv may_match (kss @ pending # replicate (n - length kss - 1) []) [] (generate_until create n b)"
  using assms
proof (induction "n - length kss" arbitrary: kss pending b)
  case (Suc m)
  let ?b = "GenerateFilter create b"
  have g: "generate_until create n b = generate_until create n ?b"
    using Suc.prems(3) builder_inv_offsets [OF Suc.prems(1)] by (subst generate_until.simps) simp
  have inv: "builder_inv may_match (kss @ [pending]) [] ?b" by (rule GenerateFilter_inv [OF Suc.prems(1,2)])
  show ?case
  proof (cases "length (kss @ [pending]) < n")
    case True
    then have "builder_inv may_match ((kss @ [pending]) @ [] # replicate (n - length (kss @ [pending]) - 1) []) [] (generate_until create n ?b)"
      by (intro Suc.hyps(1) inv) (use Suc.hyps(2) in simp_all)
    moreover have "n - length kss - 1 = Suc (n - length (kss @ [pending]) - 1)" using True by simp
    ultimately show ?thesis unfolding g by simp
  next
    case False
    then have "generate_until create n ?b = ?b"
      using builder_inv_offsets [OF inv] by (subst generate_until.simps) simp
    moreover have "n - length kss - 1 = 0" using False by simp
    ultimately show ?thesis using inv unfolding g by simp
  qed
qed simp

end

text \<open>Every key is in a finished filter or pending for the next one, under the index it was added for.\<close>

definition covered :: "u8 list list list \<Rightarrow> u8 list list \<Rightarrow> (nat \<times> u8 list) set \<Rightarrow> bool" where
  "covered kss pending P \<longleftrightarrow>
     (\<forall>(j, k) \<in> P. j < length kss \<and> k \<in> set (kss ! j) \<or> j = length kss \<and> k \<in> set pending)"

definition block_keys :: "u64 \<times> u8 list list \<Rightarrow> (nat \<times> u8 list) set" where
  "block_keys block = (\<lambda>k. (unat (fst block div kFilterBase), k)) ` set (snd block)"

text \<open>What the builder of a table does: \<open>StartBlock\<close> with the offset of each block, then its keys.\<close>

definition add_blocks ::
  "(u8 list list \<Rightarrow> int \<Rightarrow> u8 list \<Rightarrow> u8 list) \<Rightarrow> (u64 \<times> u8 list list) list \<Rightarrow> filter_block_builder \<Rightarrow> filter_block_builder" where
  "add_blocks create blocks b = fold (\<lambda>(offset, ks) b. fold AddKey ks (StartBlock create offset b)) blocks b"

context filter_policy
begin

lemma StartBlock_inv:
  assumes "builder_inv may_match kss pending b" "length pending < 2 ^ 31" "covered kss pending P"
    and "length kss \<le> unat (offset div kFilterBase)"
  shows "\<exists>kss' pending'. builder_inv may_match kss' pending' (StartBlock create offset b) \<and> covered kss' pending' P \<and>
    length kss' = unat (offset div kFilterBase) \<and> length pending' \<le> length pending"
proof (cases "length kss = unat (offset div kFilterBase)")
  case True
  then have "StartBlock create offset b = b"
    using builder_inv_offsets [OF assms(1)] unfolding StartBlock_def by (subst generate_until.simps) simp
  then show ?thesis using assms True by auto
next
  case False
  let ?n = "unat (offset div kFilterBase)"
  let ?kss = "kss @ pending # replicate (?n - length kss - 1) []"
  have n: "length kss < ?n" using False assms(4) by simp
  have "builder_inv may_match ?kss [] (StartBlock create offset b)"
    unfolding StartBlock_def by (rule generate_until_inv [OF assms(1,2) n])
  moreover have "covered ?kss [] P" using assms(3) n by (fastforce simp: covered_def nth_append)
  ultimately show ?thesis using n by (intro exI [of _ ?kss] exI [of _ "[]"]) simp
qed

lemma add_blocks_inv:
  assumes "builder_inv may_match kss pending b" "covered kss pending P"
    and "sorted (map fst blocks)" "\<forall>block \<in> set blocks. length kss \<le> unat (fst block div kFilterBase)"
    and "length pending + sum_list (map (length \<circ> snd) blocks) < 2 ^ 31"
  shows "\<exists>kss' pending'. builder_inv may_match kss' pending' (add_blocks create blocks b) \<and>
    covered kss' pending' (P \<union> \<Union> (block_keys ` set blocks)) \<and> length pending' < 2 ^ 31"
  using assms
proof (induction blocks arbitrary: kss pending b P)
  case Nil
  then show ?case by (auto simp: add_blocks_def)
next
  case (Cons block blocks)
  obtain offset ks where block: "block = (offset, ks)" by (cases block)
  let ?n = "unat (offset div kFilterBase)"
  have "length pending < 2 ^ 31" "length kss \<le> ?n" using Cons.prems(4,5) block by simp_all
  then obtain kss' pending' where 1: "builder_inv may_match kss' pending' (StartBlock create offset b)"
      "covered kss' pending' P" "length kss' = ?n" "length pending' \<le> length pending"
    using StartBlock_inv [OF Cons.prems(1) _ Cons.prems(2), of offset] by blast
  let ?b = "fold AddKey ks (StartBlock create offset b)"
  have 2: "builder_inv may_match kss' (pending' @ ks) ?b" by (rule AddKeys_inv [OF 1(1)])
  have 3: "covered kss' (pending' @ ks) (P \<union> block_keys block)"
    using 1(2,3) by (fastforce simp: covered_def block_keys_def block)
  have 4: "\<forall>b \<in> set blocks. length kss' \<le> unat (fst b div kFilterBase)"
  proof
    fix b assume "b \<in> set blocks"
    then have "offset \<le> fst b" using Cons.prems(3) block by auto
    then show "length kss' \<le> unat (fst b div kFilterBase)"
      unfolding 1(3) by (simp add: unat_div_distrib word_le_nat_alt div_le_mono)
  qed
  have "length (pending' @ ks) + sum_list (map (length \<circ> snd) blocks) < 2 ^ 31"
    using Cons.prems(5) 1(4) by (simp add: block comp_def)
  then have "\<exists>kss pending. builder_inv may_match kss pending (add_blocks create blocks ?b) \<and>
    covered kss pending ((P \<union> block_keys block) \<union> \<Union> (block_keys ` set blocks)) \<and> length pending < 2 ^ 31"
    using Cons.prems(3) by (intro Cons.IH [OF 2 3 _ 4]) simp
  then show ?case unfolding add_blocks_def by (simp add: block Un_assoc)
qed

end

subsection \<open>What the reader finds\<close>

text \<open>The finished block: the filters, where each starts and where the last one ends, and the parameter.\<close>

definition filter_block :: "u8 list list \<Rightarrow> u8 list" where
  "filter_block fs = concat fs @ concat (map EncodeFixed32 (map word_of_nat (starts fs @ [length (concat fs)]))) @ [word_of_nat kFilterBaseLg]"

lemma kFilterBase_index: "unat (drop_bit kFilterBaseLg block_offset) = unat (block_offset div kFilterBase)"
  by (simp add: kFilterBase_def kFilterBaseLg_def unat_drop_bit unat_div_distrib push_bit_eq_mult)

lemma filter_block_reader_simps:
  assumes "length (filter_block fs) < 2 ^ 32"
  shows "FilterBlockReader (filter_block fs) =
    \<lparr>fr_data = filter_block fs, fr_offset = length (concat fs), fr_num = length fs, fr_base_lg = kFilterBaseLg\<rparr>"
proof -
  let ?offs = "map word_of_nat (starts fs @ [length (concat fs)]) :: u32 list"
  let ?n = "length (filter_block fs)"
  have n: "?n = length (concat fs) + 4 * length fs + 5" using fixed32_array_length [of ?offs] by (simp add: filter_block_def)
  let ?offs' = "map word_of_nat (starts fs) :: u32 list"
  have parts: "filter_block fs = (concat fs @ concat (map EncodeFixed32 ?offs')) @ EncodeFixed32 (word_of_nat (length (concat fs))) @ [word_of_nat kFilterBaseLg]"
    by (simp add: filter_block_def)
  have l: "length (concat fs @ concat (map EncodeFixed32 ?offs')) = ?n - 5"
    unfolding n length_append fixed32_array_length by simp
  have "drop (?n - 5) (filter_block fs) = EncodeFixed32 (word_of_nat (length (concat fs))) @ [word_of_nat kFilterBaseLg]"
    unfolding l [symmetric] by (subst parts) simp
  then have w: "unat (DecodeFixed32 (drop (?n - 5) (filter_block fs))) = length (concat fs)"
    using assms n by (simp add: unat_of_nat)
  have b: "filter_block fs ! (?n - 1) = word_of_nat kFilterBaseLg"
    using n by (simp add: parts nth_append l)
  show ?thesis unfolding FilterBlockReader_def Let_def w b using n by (simp add: kFilterBaseLg_def)
qed

lemma filter_block_offset:
  assumes "length (filter_block fs) < 2 ^ 32" "i \<le> length fs"
  shows "unat (DecodeFixed32 (drop (length (concat fs) + i * 4) (filter_block fs))) = length (concat (take i fs))"
proof -
  let ?offs = "map word_of_nat (starts fs @ [length (concat fs)]) :: u32 list"
  have "DecodeFixed32 (drop (length (concat fs) + i * 4) (filter_block fs)) = ?offs ! i"
    unfolding filter_block_def using fixed32_array_nth [of i ?offs] assms(2) by (simp del: map_append)
  also have "\<dots> = word_of_nat (length (concat (take i fs)))"
    using assms(2) starts_end_nth [of i fs] by (simp del: map_append)
  finally show ?thesis
    using assms(1) concat_take_length [of i fs] by (simp add: unat_of_nat filter_block_def)
qed

lemma filter_block_lookup:
  assumes "length (filter_block fs) < 2 ^ 32" "unat (block_offset div kFilterBase) = i" "i < length fs"
  shows "FilterBlock_KeyMayMatch may_match (FilterBlockReader (filter_block fs)) block_offset key = Some (may_match key (fs ! i))"
proof -
  have "take (length (concat (take (i + 1) fs)) - length (concat (take i fs)))
      (drop (length (concat (take i fs))) (filter_block fs)) = fs ! i"
    unfolding filter_block_def by (rule concat_slice [OF assms(3)])
  moreover have "length (concat (take i fs)) \<le> length (concat (take (i + 1) fs))"
    using assms(3) by (simp add: take_Suc_conv_app_nth)
  moreover have "unat (DecodeFixed32 (drop (length (concat fs) + i * 4 + 4) (filter_block fs))) = length (concat (take (i + 1) fs))"
    using filter_block_offset [OF assms(1), of "i + 1"] assms(3) by (simp add: add.commute add.left_commute)
  moreover have "\<not> 64 \<le> kFilterBaseLg" by (simp add: kFilterBaseLg_def)
  ultimately show ?thesis
    using assms(3) filter_block_offset [OF assms(1), of i] concat_take_length [of "i + 1" fs]
    unfolding FilterBlock_KeyMayMatch_def filter_block_reader_simps [OF assms(1)] Let_def filter_block_reader.simps kFilterBase_index assms(2)
    by simp
qed

context filter_policy
begin

theorem added_key_matches:
  assumes "sorted (map fst blocks)" "sum_list (map (length \<circ> snd) blocks) < 2 ^ 31"
    and block: "fb_result (FilterBlock_Finish create (add_blocks create blocks FilterBlockBuilder)) = contents"
    and "length contents < 2 ^ 32" "(block_offset, ks) \<in> set blocks" "key \<in> set ks"
  shows "FilterBlock_KeyMayMatch may_match (FilterBlockReader contents) block_offset key = Some True"
proof -
  let ?b = "add_blocks create blocks FilterBlockBuilder"
  have "\<exists>kss pending. builder_inv may_match kss pending ?b \<and> covered kss pending ({} \<union> \<Union> (block_keys ` set blocks)) \<and> length pending < 2 ^ 31"
    using assms(1,2) by (intro add_blocks_inv [where kss = "[]" and pending = "[]"]) (simp_all add: covered_def)
  then obtain kss pending where inv: "builder_inv may_match kss pending ?b"
    and cov: "covered kss pending (\<Union> (block_keys ` set blocks))" and p: "length pending < 2 ^ 31" by auto
  let ?j = "unat (block_offset div kFilterBase)"
  have "(?j, key) \<in> \<Union> (block_keys ` set blocks)" using assms(5,6) by (force simp: block_keys_def)
  then have key: "?j < length kss \<and> key \<in> set (kss ! ?j) \<or> ?j = length kss \<and> key \<in> set pending"
    using cov by (fastforce simp: covered_def)
  define kss' where "kss' = (if pending = [] then kss else kss @ [pending])"
  define b where "b = (if fb_start ?b \<noteq> [] then GenerateFilter create ?b else ?b)"
  have "fb_start ?b = [] \<longleftrightarrow> pending = []" using inv by (auto simp: builder_inv_def)
  then have "builder_inv may_match kss' [] b"
    using inv GenerateFilter_inv [OF inv p] by (cases "pending = []") (simp_all add: kss'_def b_def)
  then obtain fs where fs: "filters_match may_match kss' fs" "fb_result b = concat fs" "fb_offsets b = map word_of_nat (starts fs)"
    by (auto simp: builder_inv_def)
  have l: "length kss' = length fs" using fs(1) by (simp add: filters_match_def list_all2_lengthD)
  have c: "contents = filter_block fs"
    unfolding block [symmetric] FilterBlock_Finish_def Let_def b_def [symmetric]
    by (simp add: fs foldl_PutFixed32 PutFixed32_def filter_block_def)
  have "?j < length kss'" "key \<in> set (kss' ! ?j)"
    using key by (auto simp: kss'_def nth_append)
  then have "may_match key (fs ! ?j)" "?j < length fs"
    using fs(1) l by (auto simp: filters_match_def list_all2_conv_all_nth)
  then show ?thesis using filter_block_lookup [of fs block_offset ?j] assms(4) by (simp add: c)
qed

end

subsection \<open>With the Bloom filter\<close>

text \<open>C6: the filter block of a table never denies a key it was built from: after \<open>StartBlock\<close> and the
  keys of each block, in the order of the blocks' offsets, and \<open>Finish\<close>, the reader answers that a key may
  match at the offset of its block, with the Bloom filter of any number of bits per key.\<close>

theorem filter_block_no_false_negatives:
  assumes "n < 2 ^ 31" "sorted (map fst blocks)" "sum_list (map (length \<circ> snd) blocks) < 2 ^ 31"
    and "fb_result (FilterBlock_Finish (CreateFilter (BloomFilterPolicy n))
      (add_blocks (CreateFilter (BloomFilterPolicy n)) blocks FilterBlockBuilder)) = contents"
    and "length contents < 2 ^ 32" "(block_offset, ks) \<in> set blocks" "key \<in> set ks"
  shows "FilterBlock_KeyMayMatch KeyMayMatch (FilterBlockReader contents) block_offset key = Some True"
  by (rule filter_policy.added_key_matches [OF bloom_is_filter_policy [OF assms(1)] assms(2-)])

definition sample_blocks :: "(u64 \<times> u8 list list) list" where
  "sample_blocks = [(0, [[97]]), (1000, [[99]]), (3000, [[100]])]"

definition sample_contents :: "u8 list" where
  "sample_contents = fb_result (FilterBlock_Finish (CreateFilter (BloomFilterPolicy 10))
     (add_blocks (CreateFilter (BloomFilterPolicy 10)) sample_blocks FilterBlockBuilder))"

lemma sample_contents_eq:
  "sample_contents =
     [10, 24, 36, 80, 192, 0, 129, 0, 6, 0, 2, 8, 8, 32, 32, 128, 0, 6, 0, 0, 0, 0, 9, 0, 0, 0, 18, 0, 0, 0, 11]"
  by code_simp

theorem filter_block_no_false_negatives_witness:
  "FilterBlock_KeyMayMatch KeyMayMatch (FilterBlockReader sample_contents) 1000 [99] = Some True \<and>
   FilterBlock_KeyMayMatch KeyMayMatch (FilterBlockReader sample_contents) 3000 [99] = Some False"
proof
  have "length sample_contents = 31" by (simp add: sample_contents_eq)
  then show "FilterBlock_KeyMayMatch KeyMayMatch (FilterBlockReader sample_contents) 1000 [99] = Some True"
    by (intro filter_block_no_false_negatives [of 10 sample_blocks _ _ "[[99]]"])
      (simp_all add: sample_blocks_def sample_contents_def)
  show "FilterBlock_KeyMayMatch KeyMayMatch (FilterBlockReader sample_contents) 3000 [99] = Some False"
    unfolding sample_contents_eq by code_simp
qed

end
