(* ===== verification/Ldb_Block_Builder.thy ===== *)
theory Ldb_Block_Builder
  imports Fixed_Array Comparator
begin

text \<open>
  table/block_builder.cc of leveldb: the blocks of a table. A key is stored without the prefix it shares
  with the key before it, except at the restart points, whose offsets are stored at the end of the block.
  The theory fixes the format as a relation between entries, restart points and bytes, and shows that the
  builder writes it.
\<close>

subsection \<open>The builder\<close>

record block_builder =
  bb_buffer :: "u8 list"
  bb_restarts :: "u32 list"
  bb_counter :: nat
  bb_finished :: bool
  bb_last_key :: "u8 list"

definition BlockBuilder_new :: block_builder where
  "BlockBuilder_new = \<lparr>bb_buffer = [], bb_restarts = [0], bb_counter = 0, bb_finished = False, bb_last_key = []\<rparr>"

definition BlockBuilder_Reset :: "block_builder \<Rightarrow> block_builder" where
  "BlockBuilder_Reset b = \<lparr>bb_buffer = [], bb_restarts = [0], bb_counter = 0, bb_finished = False, bb_last_key = []\<rparr>"

definition CurrentSizeEstimate :: "block_builder \<Rightarrow> nat" where
  "CurrentSizeEstimate b = length (bb_buffer b) + length (bb_restarts b) * 4 + 4"

definition BlockBuilder_Finish :: "block_builder \<Rightarrow> u8 list \<times> block_builder" where
  "BlockBuilder_Finish b =
     (let buffer = foldl PutFixed32 (bb_buffer b) (bb_restarts b);
          buffer = PutFixed32 buffer (word_of_nat (length (bb_restarts b)))
      in (buffer, b\<lparr>bb_buffer := buffer, bb_finished := True\<rparr>))"

definition BlockBuilder_empty :: "block_builder \<Rightarrow> bool" where
  "BlockBuilder_empty b \<longleftrightarrow> bb_buffer b = []"

text \<open>The loop that counts the bytes shared by two keys; the count is a 32-bit number in the code.\<close>

fun shared_loop :: "u8 list \<Rightarrow> u8 list \<Rightarrow> nat" where
  "shared_loop (a # last_key) (b # key) = (if a = b then Suc (shared_loop last_key key) else 0)"
| "shared_loop _ _ = 0"

text \<open>\<open>interval\<close> is the option \<open>block_restart_interval\<close>; the assertions are conditions of the theorems.\<close>

definition BlockBuilder_Add :: "nat \<Rightarrow> u8 list \<Rightarrow> u8 list \<Rightarrow> block_builder \<Rightarrow> block_builder" where
  "BlockBuilder_Add interval key val b =
     (let (shared, b) =
        (if bb_counter b < interval then (shared_loop (bb_last_key b) key, b)
         else (0, b\<lparr>bb_restarts := bb_restarts b @ [word_of_nat (length (bb_buffer b))], bb_counter := 0\<rparr>));
          non_shared = length key - shared;
          buffer = PutVarint32 (bb_buffer b) (word_of_nat shared);
          buffer = PutVarint32 buffer (word_of_nat non_shared);
          buffer = PutVarint32 buffer (word_of_nat (length val));
          buffer = buffer @ take non_shared (drop shared key);
          buffer = buffer @ val;
          last_key = take shared (bb_last_key b) @ take non_shared (drop shared key)
      in b\<lparr>bb_buffer := buffer, bb_last_key := last_key, bb_counter := bb_counter b + 1\<rparr>)"

lemma shared_loop_bounds: "shared_loop a b \<le> length a" "shared_loop a b \<le> length b"
  by (induction a b rule: shared_loop.induct) auto

lemma shared_loop_take: "take (shared_loop a b) a = take (shared_loop a b) b"
  by (induction a b rule: shared_loop.induct) auto

subsection \<open>The format\<close>

text \<open>An entry: how much of its key is shared with the key before it, its key and its value.\<close>

type_synonym block_entry = "nat \<times> u8 list \<times> u8 list"

abbreviation shared_of :: "block_entry \<Rightarrow> nat" where "shared_of e \<equiv> fst e"
abbreviation key_of :: "block_entry \<Rightarrow> u8 list" where "key_of e \<equiv> fst (snd e)"
abbreviation value_of :: "block_entry \<Rightarrow> u8 list" where "value_of e \<equiv> snd (snd e)"

definition entry_header :: "block_entry \<Rightarrow> u8 list" where
  "entry_header e =
     EncodeVarint32 (word_of_nat (shared_of e)) @ EncodeVarint32 (word_of_nat (length (key_of e) - shared_of e)) @
     EncodeVarint32 (word_of_nat (length (value_of e)))"

definition entry_bytes :: "block_entry \<Rightarrow> u8 list" where
  "entry_bytes e = entry_header e @ drop (shared_of e) (key_of e) @ value_of e"

definition entries_bytes :: "block_entry list \<Rightarrow> u8 list" where
  "entries_bytes es = concat (map entry_bytes es)"

text \<open>Where an entry starts.\<close>

definition offset_of :: "block_entry list \<Rightarrow> nat \<Rightarrow> nat" where
  "offset_of es i = length (entries_bytes (take i es))"

definition key_before :: "block_entry list \<Rightarrow> nat \<Rightarrow> u8 list" where
  "key_before es i = (if i = 0 then [] else key_of (es ! (i - 1)))"

definition well_shared :: "block_entry list \<Rightarrow> bool" where
  "well_shared es \<longleftrightarrow>
     (\<forall>i < length es. shared_of (es ! i) \<le> length (key_of (es ! i)) \<and> shared_of (es ! i) \<le> length (key_before es i) \<and>
       take (shared_of (es ! i)) (key_of (es ! i)) = take (shared_of (es ! i)) (key_before es i))"

text \<open>The restart points are entries that share nothing, in order, the first entry among them.\<close>

definition restarts_ok :: "block_entry list \<Rightarrow> nat list \<Rightarrow> bool" where
  "restarts_ok es rs \<longleftrightarrow>
     rs \<noteq> [] \<and> rs ! 0 = 0 \<and> sorted_wrt (<) rs \<and> (\<forall>r \<in> set rs. r = 0 \<or> r < length es \<and> shared_of (es ! r) = 0)"

definition block_bytes :: "block_entry list \<Rightarrow> nat list \<Rightarrow> u8 list" where
  "block_bytes es rs =
     entries_bytes es @ concat (map EncodeFixed32 (map (\<lambda>r. word_of_nat (offset_of es r)) rs)) @ EncodeFixed32 (word_of_nat (length rs))"

lemma EncodeVarint32_nonempty [simp]: "EncodeVarint32 v \<noteq> []" "0 < length (EncodeVarint32 v)"
  by (simp_all add: EncodeVarint32_def Let_def)

lemma entry_bytes_length: "3 \<le> length (entry_bytes e)"
proof -
  have "1 \<le> length (EncodeVarint32 v)" for v by (simp add: EncodeVarint32_def Let_def)
  from this [of "word_of_nat (shared_of e)"] this [of "word_of_nat (length (key_of e) - shared_of e)"]
    this [of "word_of_nat (length (value_of e))"]
  show ?thesis by (simp add: entry_bytes_def entry_header_def)
qed

lemma offset_of_simps [simp]: "offset_of es 0 = 0" "offset_of (es @ fs) (length es) = length (entries_bytes es)"
  "i \<le> length es \<Longrightarrow> offset_of (es @ fs) i = offset_of es i"
  by (simp_all add: offset_of_def entries_bytes_def)

lemma offset_of_Suc: "i < length es \<Longrightarrow> offset_of es (Suc i) = offset_of es i + length (entry_bytes (es ! i))"
  by (simp add: offset_of_def entries_bytes_def take_Suc_conv_app_nth)

lemma offset_of_mono: "i \<le> j \<Longrightarrow> offset_of es i \<le> offset_of es j"
  unfolding offset_of_def entries_bytes_def take_map [symmetric]
  by (metis concat_take_length min.absorb1 take_take)

lemma offset_of_less: "i < j \<Longrightarrow> j \<le> length es \<Longrightarrow> offset_of es i < offset_of es j"
  using offset_of_Suc [of i es] offset_of_mono [of "Suc i" j es] entry_bytes_length [of "es ! i"] by simp

lemma offset_of_less_iff: "i \<le> length es \<Longrightarrow> j \<le> length es \<Longrightarrow> offset_of es i < offset_of es j \<longleftrightarrow> i < j"
  by (metis linorder_neqE_nat not_less_iff_gr_or_eq offset_of_less)

lemma offset_of_end: "length es \<le> i \<Longrightarrow> offset_of es i = length (entries_bytes es)"
  by (simp add: offset_of_def)

lemma offset_of_le: "offset_of es i \<le> length (entries_bytes es)"
  using offset_of_mono [of i "max i (length es)" es] offset_of_end [of es "max i (length es)"] by simp

lemma entries_at: "i < length es \<Longrightarrow> drop (offset_of es i) (entries_bytes es @ rest) = entry_bytes (es ! i) @ entries_bytes (drop (Suc i) es) @ rest"
proof -
  assume i: "i < length es"
  have "entries_bytes es = entries_bytes (take i es) @ entry_bytes (es ! i) @ entries_bytes (drop (Suc i) es)"
    unfolding entries_bytes_def using i by (metis concat.simps(2) concat_append id_take_nth_drop list.simps(9) map_append)
  then show ?thesis by (simp add: offset_of_def)
qed

subsection \<open>The builder writes the format\<close>

definition block_builder_ok :: "nat \<Rightarrow> block_entry list \<Rightarrow> nat list \<Rightarrow> block_builder \<Rightarrow> bool" where
  "block_builder_ok interval es rs b \<longleftrightarrow>
     bb_buffer b = entries_bytes es \<and> bb_restarts b = map (\<lambda>r. word_of_nat (offset_of es r)) rs \<and>
     bb_last_key b = key_before es (length es) \<and> last rs + bb_counter b = length es \<and>
     well_shared es \<and> restarts_ok es rs"

lemma BlockBuilder_new_ok: "block_builder_ok interval [] [0] BlockBuilder_new"
  by (simp add: block_builder_ok_def BlockBuilder_new_def entries_bytes_def key_before_def well_shared_def restarts_ok_def)

lemma estimate_exact: "length (fst (BlockBuilder_Finish b)) = CurrentSizeEstimate b"
  by (simp add: BlockBuilder_Finish_def CurrentSizeEstimate_def Let_def foldl_PutFixed32 PutFixed32_def)

lemma BlockBuilder_Reset_new: "BlockBuilder_Reset b = BlockBuilder_new"
  by (simp add: BlockBuilder_Reset_def BlockBuilder_new_def)

lemma well_shared_snoc:
  assumes "well_shared es" "s \<le> length key" "s \<le> length (key_before es (length es))" "take s key = take s (key_before es (length es))"
  shows "well_shared (es @ [(s, key, val)])"
proof -
  have "key_before (es @ [e]) i = key_before es i" if "i \<le> length es" for i e
    using that by (auto simp: key_before_def nth_append)
  then show ?thesis using assms by (auto simp: well_shared_def nth_append less_Suc_eq)
qed

lemma restarts_ok_snoc:
  assumes "restarts_ok es rs"
  shows "restarts_ok (es @ [e]) rs" "shared_of e = 0 \<Longrightarrow> last rs < length es \<Longrightarrow> restarts_ok (es @ [e]) (rs @ [length es])"
proof -
  show 1: "restarts_ok (es @ [e]) rs" using assms by (auto simp: restarts_ok_def nth_append)
  assume e: "shared_of e = 0" "last rs < length es"
  have "r < length es" if "r \<in> set rs" for r
  proof -
    obtain i where i: "i < length rs" "rs ! i = r" using \<open>r \<in> set rs\<close> by (metis in_set_conv_nth)
    have "rs ! i \<le> last rs"
      using assms i(1) sorted_wrt_nth_less [of "(<)" rs i "length rs - 1"]
      by (cases "i = length rs - 1") (auto simp: restarts_ok_def last_conv_nth intro: less_imp_le)
    then show ?thesis using i e by simp
  qed
  then show "restarts_ok (es @ [e]) (rs @ [length es])"
    using 1 e by (auto simp: restarts_ok_def nth_append sorted_wrt_append)
qed

lemma BlockBuilder_Add_ok:
  assumes "block_builder_ok interval es rs b" "0 < interval"
  shows "\<exists>s rs'. block_builder_ok interval (es @ [(s, key, val)]) rs' (BlockBuilder_Add interval key val b)"
proof -
  note inv = assms(1) [unfolded block_builder_ok_def]
  show ?thesis
  proof (cases "bb_counter b < interval")
    case True
    let ?s = "shared_loop (bb_last_key b) key"
    have s: "?s \<le> length key" "?s \<le> length (bb_last_key b)" by (rule shared_loop_bounds)+
    have "take ?s (bb_last_key b) @ drop ?s key = key"
      unfolding shared_loop_take by simp
    then have "block_builder_ok interval (es @ [(?s, key, val)]) rs (BlockBuilder_Add interval key val b)"
      using inv True s well_shared_snoc [of es ?s key val] shared_loop_take [of "bb_last_key b" key] restarts_ok_snoc(1) [of es rs]
      unfolding block_builder_ok_def BlockBuilder_Add_def Let_def
      by (auto simp: PutVarint32_def entries_bytes_def entry_bytes_def entry_header_def key_before_def restarts_ok_def)
    then show ?thesis by blast
  next
    case False
    then have "last rs < length es" using inv assms(2) by linarith
    then have "block_builder_ok interval (es @ [(0, key, val)]) (rs @ [length es]) (BlockBuilder_Add interval key val b)"
      using inv False well_shared_snoc [of es 0 key val] restarts_ok_snoc(2) [of es rs]
      unfolding block_builder_ok_def BlockBuilder_Add_def Let_def
      by (auto simp: PutVarint32_def entries_bytes_def entry_bytes_def entry_header_def key_before_def restarts_ok_def)
    then show ?thesis by blast
  qed
qed

end
