(* ===== verification/Ldb_Block.thy ===== *)
theory Ldb_Block
  imports Ldb_Block_Builder Ldb_Log Ldb_Format
begin

text \<open>
  table/block.cc of leveldb: the blocks of a table and their iterators. Positions are offsets into the
  block; a read past the end of the block's memory makes the result \<open>None\<close>.
\<close>

subsection \<open>Blocks\<close>

record block_contents =
  bk_data :: "u8 list"
  bk_size :: nat
  bk_restart_offset :: u32

definition NumRestarts :: "u8 list \<Rightarrow> nat \<Rightarrow> u32" where
  "NumRestarts data n = DecodeFixed32 (drop (n - 4) data)"

definition Block_new :: "u8 list \<Rightarrow> block_contents" where
  "Block_new data =
     (let n = length data
      in if n < 4 then \<lparr>bk_data = data, bk_size = 0, bk_restart_offset = 0\<rparr>
         else
           let max_restarts_allowed = (n - 4) div 4
           in if max_restarts_allowed < unat (NumRestarts data n) then \<lparr>bk_data = data, bk_size = 0, bk_restart_offset = 0\<rparr>
              else \<lparr>bk_data = data, bk_size = n,
                    bk_restart_offset = word_of_nat n - (1 + NumRestarts data n) * 4\<rparr>)"

text \<open>
  \<open>DecodeEntry\<close> on the bytes from \<open>p\<close> to \<open>limit\<close>. The sum of the two lengths wraps at 32 bits, as in the
  code, so that what follows can be shorter than the lengths say.
\<close>

definition DecodeEntry :: "u8 list \<Rightarrow> (u32 \<times> u32 \<times> u32 \<times> u8 list) option" where
  "DecodeEntry p =
     (if length p < 3 then None
      else
        let shared = ucast (p ! 0) :: u32;
            non_shared = ucast (p ! 1) :: u32;
            value_length = ucast (p ! 2) :: u32
        in case
            (if shared OR non_shared OR value_length < 128 then Some (shared, non_shared, value_length, drop 3 p)
             else case GetVarint32Ptr p of
                 None \<Rightarrow> None
               | Some (shared, p) \<Rightarrow>
                   (case GetVarint32Ptr p of
                      None \<Rightarrow> None
                    | Some (non_shared, p) \<Rightarrow>
                        (case GetVarint32Ptr p of
                           None \<Rightarrow> None
                         | Some (value_length, p) \<Rightarrow> Some (shared, non_shared, value_length, p))))
           of None \<Rightarrow> None
            | Some (shared, non_shared, value_length, p) \<Rightarrow>
                if (word_of_nat (length p) :: u32) < non_shared + value_length then None
                else Some (shared, non_shared, value_length, p))"

subsection \<open>The iterator\<close>

text \<open>What an iterator never changes, and its state; the value is its offset and its length.\<close>

record block_view =
  bv_data :: "u8 list"
  bv_restarts :: u32
  bv_num_restarts :: u32

record block_iter =
  bi_current :: nat
  bi_restart_index :: nat
  bi_key :: "u8 list"
  bi_value :: "nat \<times> nat"
  bi_status :: status

text \<open>A value outside of the block, as before the first seek, is \<open>(0, 0)\<close>.\<close>

definition NextEntryOffset :: "block_iter \<Rightarrow> nat" where
  "NextEntryOffset it = (fst (bi_value it) + snd (bi_value it)) mod 2 ^ 32"

definition GetRestartPoint :: "block_view \<Rightarrow> nat \<Rightarrow> nat" where
  "GetRestartPoint v index = unat (DecodeFixed32 (drop (unat (bv_restarts v) + index * 4) (bv_data v)))"

definition SeekToRestartPoint :: "block_view \<Rightarrow> nat \<Rightarrow> block_iter \<Rightarrow> block_iter" where
  "SeekToRestartPoint v index it =
     it\<lparr>bi_key := [], bi_restart_index := index, bi_value := (GetRestartPoint v index, 0)\<rparr>"

definition BlockIter_new :: "block_view \<Rightarrow> block_iter" where
  "BlockIter_new v =
     \<lparr>bi_current = unat (bv_restarts v), bi_restart_index = unat (bv_num_restarts v), bi_key = [], bi_value = (0, 0), bi_status = OK\<rparr>"

definition BlockIter_Valid :: "block_view \<Rightarrow> block_iter \<Rightarrow> bool" where
  "BlockIter_Valid v it \<longleftrightarrow> bi_current it < unat (bv_restarts v)"

definition BlockIter_key :: "block_iter \<Rightarrow> u8 list" where
  "BlockIter_key it = bi_key it"

definition BlockIter_value :: "block_view \<Rightarrow> block_iter \<Rightarrow> u8 list" where
  "BlockIter_value v it = take (snd (bi_value it)) (drop (fst (bi_value it)) (bv_data v))"

definition CorruptionError :: "block_view \<Rightarrow> block_iter \<Rightarrow> block_iter" where
  "CorruptionError v it =
     it\<lparr>bi_current := unat (bv_restarts v), bi_restart_index := unat (bv_num_restarts v),
        bi_status := Corruption ''bad entry in block'', bi_key := [], bi_value := (0, 0)\<rparr>"

function advance_restart :: "block_view \<Rightarrow> nat \<Rightarrow> nat \<Rightarrow> nat" where
  "advance_restart v current restart_index =
     (if restart_index + 1 < unat (bv_num_restarts v) \<and> GetRestartPoint v (restart_index + 1) < current
      then advance_restart v current (restart_index + 1) else restart_index)"
  by pat_completeness auto
termination
  by (relation "measure (\<lambda>(v, current, restart_index). unat (bv_num_restarts v) - restart_index)") auto

declare advance_restart.simps [simp del]

definition ParseNextKey :: "block_view \<Rightarrow> block_iter \<Rightarrow> (bool \<times> block_iter) option" where
  "ParseNextKey v it =
     (let it = it\<lparr>bi_current := NextEntryOffset it\<rparr>;
          limit = unat (bv_restarts v)
      in if limit \<le> bi_current it
         then Some (False, it\<lparr>bi_current := limit, bi_restart_index := unat (bv_num_restarts v)\<rparr>)
         else
           case DecodeEntry (take (limit - bi_current it) (drop (bi_current it) (bv_data v))) of
             None \<Rightarrow> Some (False, CorruptionError v it)
           | Some (shared, non_shared, value_length, p) \<Rightarrow>
               if length (bi_key it) < unat shared then Some (False, CorruptionError v it)
               else
                 let pos = limit - length p
                 in if length (bv_data v) < pos + unat non_shared then None
                    else
                      let it = it\<lparr>bi_key := take (unat shared) (bi_key it) @ take (unat non_shared) (drop pos (bv_data v)),
                                  bi_value := (pos + unat non_shared, unat value_length)\<rparr>;
                          it = it\<lparr>bi_restart_index := advance_restart v (bi_current it) (bi_restart_index it)\<rparr>
                      in Some (True, it))"

definition BlockIter_Next :: "block_view \<Rightarrow> block_iter \<Rightarrow> block_iter option" where
  "BlockIter_Next v it = map_option snd (ParseNextKey v it)"

definition BlockIter_SeekToFirst :: "block_view \<Rightarrow> block_iter \<Rightarrow> block_iter option" where
  "BlockIter_SeekToFirst v it = map_option snd (ParseNextKey v (SeekToRestartPoint v 0 it))"

text \<open>The entry that \<open>DecodeEntry\<close> accepts lies before the limit, if its lengths are added as it adds them.\<close>

lemma GetVarint32Ptr_shorter: "GetVarint32Ptr p = Some (x, q) \<Longrightarrow> length q < length p"
  by (auto simp: GetVarint32Ptr_spec split: option.splits if_splits dest!: vlen_bounds)

lemma DecodeEntry_bounds:
  assumes "DecodeEntry p = Some (shared, non_shared, value_length, q)"
  shows "length q < length p" "unat (non_shared + value_length) \<le> length q mod 2 ^ 32"
  using assms
  by (auto simp: DecodeEntry_def Let_def word_less_nat_alt unat_of_nat not_less
      split: option.splits if_splits dest!: GetVarint32Ptr_shorter)

lemma ParseNextKey_advances:
  assumes "ParseNextKey v it = Some (True, it')"
  shows "NextEntryOffset it < NextEntryOffset it' \<and> NextEntryOffset it' \<le> unat (bv_restarts v)"
proof -
  let ?limit = "unat (bv_restarts v)"
  let ?p = "take (?limit - NextEntryOffset it) (drop (NextEntryOffset it) (bv_data v))"
  obtain shared non_shared value_length q where d: "DecodeEntry ?p = Some (shared, non_shared, value_length, q)"
    and lim: "NextEntryOffset it < ?limit"
    and val: "bi_value it' = (?limit - length q + unat non_shared, unat value_length)"
    using assms unfolding ParseNextKey_def Let_def
    by (auto split: if_splits option.splits prod.splits)
  note b = DecodeEntry_bounds [OF d]
  have q: "length q < ?limit - NextEntryOffset it" using b(1) by simp
  have l: "?limit < 2 ^ 32" using unat_bound [of "bv_restarts v"] by simp
  let ?s = "unat (non_shared + value_length)"
  have s: "?s = (unat non_shared + unat value_length) mod 2 ^ 32" by (simp add: unat_word_ariths)
  have "?s \<le> length q" using b(2) q l by simp
  then have "(?limit - length q + ?s) mod 2 ^ 32 = ?limit - length q + ?s" using q l by simp
  moreover have "NextEntryOffset it' = (?limit - length q + ?s) mod 2 ^ 32"
    unfolding NextEntryOffset_def val s by (simp add: mod_add_right_eq add.assoc)
  ultimately show ?thesis using q \<open>?s \<le> length q\<close> by (intro conjI) linarith+
qed

text \<open>The loops that skip entries: up to an offset, and up to a key that is not before the target.\<close>

function skip_until :: "nat \<Rightarrow> block_view \<Rightarrow> block_iter \<Rightarrow> block_iter option" where
  "skip_until bound v it =
     (case ParseNextKey v it of
        None \<Rightarrow> None
      | Some (ok, it') \<Rightarrow> if ok \<and> NextEntryOffset it' < bound then skip_until bound v it' else Some it')"
  by pat_completeness auto
termination
proof (relation "measure (\<lambda>(bound, v, it). unat (bv_restarts v) - NextEntryOffset it)")
  fix bound v it x ok it'
  assume "ParseNextKey v it = Some x" "(ok, it') = x" "ok \<and> NextEntryOffset it' < bound"
  then have "ParseNextKey v it = Some (True, it')" by auto
  then have "NextEntryOffset it < NextEntryOffset it' \<and> NextEntryOffset it' \<le> unat (bv_restarts v)"
    by (rule ParseNextKey_advances)
  then show "((bound, v, it'), bound, v, it) \<in> measure (\<lambda>(bound, v, it). unat (bv_restarts v) - NextEntryOffset it)" by auto
qed simp

function seek_linear :: "(u8 list \<Rightarrow> u8 list \<Rightarrow> int) \<Rightarrow> u8 list \<Rightarrow> block_view \<Rightarrow> block_iter \<Rightarrow> block_iter option" where
  "seek_linear cmp target v it =
     (case ParseNextKey v it of
        None \<Rightarrow> None
      | Some (ok, it') \<Rightarrow>
          if \<not> ok then Some it' else if 0 \<le> cmp (bi_key it') target then Some it' else seek_linear cmp target v it')"
  by pat_completeness auto
termination
proof (relation "measure (\<lambda>(cmp, target, v, it). unat (bv_restarts v) - NextEntryOffset it)")
  fix cmp target v it x ok it'
  assume "ParseNextKey v it = Some x" "(ok, it') = x" "\<not> \<not> ok"
  then have "ParseNextKey v it = Some (True, it')" by auto
  then have "NextEntryOffset it < NextEntryOffset it' \<and> NextEntryOffset it' \<le> unat (bv_restarts v)"
    by (rule ParseNextKey_advances)
  then show "((cmp, target, v, it'), cmp, target, v, it) \<in> measure (\<lambda>(cmp, target, v, it). unat (bv_restarts v) - NextEntryOffset it)" by auto
qed simp

declare skip_until.simps [simp del] seek_linear.simps [simp del]

definition BlockIter_SeekToLast :: "block_view \<Rightarrow> block_iter \<Rightarrow> block_iter option" where
  "BlockIter_SeekToLast v it =
     skip_until (unat (bv_restarts v)) v (SeekToRestartPoint v (unat (bv_num_restarts v) - 1) it)"

text \<open>The backward scan for a restart point before an offset; \<open>None\<close> when there is none.\<close>

fun restart_before :: "block_view \<Rightarrow> nat \<Rightarrow> nat \<Rightarrow> nat option" where
  "restart_before v original 0 = (if original \<le> GetRestartPoint v 0 then None else Some 0)"
| "restart_before v original (Suc index) =
     (if original \<le> GetRestartPoint v (Suc index) then restart_before v original index else Some (Suc index))"

definition BlockIter_Prev :: "block_view \<Rightarrow> block_iter \<Rightarrow> block_iter option" where
  "BlockIter_Prev v it =
     (let original = bi_current it
      in case restart_before v original (bi_restart_index it) of
           None \<Rightarrow> Some (it\<lparr>bi_current := unat (bv_restarts v), bi_restart_index := unat (bv_num_restarts v)\<rparr>)
         | Some index \<Rightarrow> skip_until original v (SeekToRestartPoint v index it))"

text \<open>
  The binary search of \<open>Seek\<close> over the restart points: \<open>None\<close> for a read past the block, otherwise the
  restart point to begin with, or \<open>Some None\<close> when an entry is corrupt.
\<close>

function seek_restart ::
  "(u8 list \<Rightarrow> u8 list \<Rightarrow> int) \<Rightarrow> u8 list \<Rightarrow> block_view \<Rightarrow> nat \<Rightarrow> nat \<Rightarrow> nat option option" where
  "seek_restart cmp target v left right =
     (if left < right then
        let mid = (left + right + 1) div 2;
            region_offset = GetRestartPoint v mid
        in case DecodeEntry (take (unat (bv_restarts v) - region_offset) (drop region_offset (bv_data v))) of
             None \<Rightarrow> Some None
           | Some (shared, non_shared, value_length, p) \<Rightarrow>
               if shared \<noteq> 0 then Some None
               else
                 let pos = unat (bv_restarts v) - length p
                 in if length (bv_data v) < pos + unat non_shared then None
                    else if cmp (take (unat non_shared) (drop pos (bv_data v))) target < 0
                    then seek_restart cmp target v mid right
                    else seek_restart cmp target v left (mid - 1)
      else Some (Some left))"
  by pat_completeness auto
termination
  by (relation "measure (\<lambda>(cmp, target, v, left, right). right - left)") auto

declare seek_restart.simps [simp del]

definition BlockIter_Seek ::
  "(u8 list \<Rightarrow> u8 list \<Rightarrow> int) \<Rightarrow> u8 list \<Rightarrow> block_view \<Rightarrow> block_iter \<Rightarrow> block_iter option" where
  "BlockIter_Seek cmp target v it =
     (case seek_restart cmp target v 0 (unat (bv_num_restarts v) - 1) of
        None \<Rightarrow> None
      | Some None \<Rightarrow> Some (CorruptionError v it)
      | Some (Some left) \<Rightarrow> seek_linear cmp target v (SeekToRestartPoint v left it))"

text \<open>The iterator of a block: one that only holds an error, an empty one, or one over the block.\<close>

datatype block_iterator = Error_Iterator status | Empty_Iterator | Over_Block block_view block_iter

definition NewIterator :: "block_contents \<Rightarrow> block_iterator" where
  "NewIterator b =
     (if bk_size b < 4 then Error_Iterator (Corruption ''bad block contents'')
      else
        let num_restarts = NumRestarts (bk_data b) (bk_size b)
        in if num_restarts = 0 then Empty_Iterator
           else
             let v = \<lparr>bv_data = bk_data b, bv_restarts = bk_restart_offset b, bv_num_restarts = num_restarts\<rparr>
             in Over_Block v (BlockIter_new v))"

subsection \<open>Reading what the builder wrote\<close>

definition block_ok :: "block_entry list \<Rightarrow> nat list \<Rightarrow> bool" where
  "block_ok es rs \<longleftrightarrow> well_shared es \<and> restarts_ok es rs \<and> length (block_bytes es rs) < 2 ^ 32"

definition view_of :: "block_entry list \<Rightarrow> nat list \<Rightarrow> block_view" where
  "view_of es rs =
     \<lparr>bv_data = block_bytes es rs, bv_restarts = word_of_nat (length (entries_bytes es)), bv_num_restarts = word_of_nat (length rs)\<rparr>"

lemma block_bytes_length: "length (block_bytes es rs) = length (entries_bytes es) + 4 * length rs + 4"
  using fixed32_array_length [of "map (\<lambda>r. word_of_nat (offset_of es r)) rs"] by (simp add: block_bytes_def)

lemma view_of_simps [simp]:
  assumes "block_ok es rs"
  shows "unat (bv_restarts (view_of es rs)) = length (entries_bytes es)" "unat (bv_num_restarts (view_of es rs)) = length rs"
    "bv_data (view_of es rs) = block_bytes es rs"
  using assms by (simp_all add: view_of_def block_ok_def block_bytes_length unat_of_nat)

lemma GetRestartPoint_view [simp]:
  assumes "block_ok es rs" "j < length rs"
  shows "GetRestartPoint (view_of es rs) j = offset_of es (rs ! j)"
proof -
  let ?rs = "map (\<lambda>r. word_of_nat (offset_of es r)) rs :: u32 list"
  have "offset_of es (rs ! j) < 2 ^ 32"
    using assms(1) offset_of_le [of es "rs ! j"] by (simp add: block_ok_def block_bytes_length)
  then show ?thesis
    using assms fixed32_array_nth [of j ?rs]
    by (simp add: GetRestartPoint_def block_bytes_def unat_of_nat)
qed

lemma NewIterator_view:
  assumes "block_ok es rs"
  shows "NewIterator (Block_new (block_bytes es rs)) = Over_Block (view_of es rs) (BlockIter_new (view_of es rs))"
proof -
  let ?d = "block_bytes es rs"
  let ?front = "entries_bytes es @ concat (map EncodeFixed32 (map (\<lambda>r. word_of_nat (offset_of es r)) rs))"
  have d: "?d = ?front @ EncodeFixed32 (word_of_nat (length rs))" by (simp add: block_bytes_def)
  have l: "length ?front = length ?d - 4"
    unfolding block_bytes_length length_append fixed32_array_length by simp
  have "drop (length ?d - 4) ?d = EncodeFixed32 (word_of_nat (length rs))"
    unfolding l [symmetric] by (subst d) simp
  then have n: "NumRestarts ?d (length ?d) = word_of_nat (length rs)"
    using Fixed32_roundtrip(1) [of _ "[]"] by (simp add: NumRestarts_def)
  have s: "length rs < 2 ^ 32" "0 < length rs" "length ?d = length (entries_bytes es) + 4 * length rs + 4"
    using assms block_bytes_length [of es rs] by (auto simp: block_ok_def restarts_ok_def)
  have r: "word_of_nat (length ?d) - (1 + word_of_nat (length rs)) * 4 = (word_of_nat (length (entries_bytes es)) :: u32)"
    unfolding s(3) by (simp add: algebra_simps)
  have u: "unat (word_of_nat (length rs) :: u32) = length rs" using s(1) by (simp add: unat_of_nat)
  then have z: "(word_of_nat (length rs) :: u32) \<noteq> 0" using s(2) by (metis not_less_zero unat_0)
  have b: "\<not> length ?d < 4" "\<not> (length ?d - 4) div 4 < length rs" unfolding s(3) by simp_all
  show ?thesis
    unfolding Block_new_def NewIterator_def Let_def n u r using b z by (simp add: n view_of_def)
qed

text \<open>A key is no longer than the bytes up to the end of its entry.\<close>

lemma key_length:
  assumes "well_shared es" "i < length es"
  shows "length (key_of (es ! i)) \<le> offset_of es (Suc i)"
  using assms(2)
proof (induction i)
  case 0
  then show ?case using assms(1) by (auto simp: well_shared_def key_before_def offset_of_Suc entry_bytes_def)
next
  case (Suc i)
  have "shared_of (es ! Suc i) \<le> length (key_of (es ! i))"
    using assms(1) Suc.prems by (auto simp: well_shared_def key_before_def)
  then show ?case using Suc by (auto simp: offset_of_Suc [of "Suc i"] entry_bytes_def)
qed

lemma GetVarint32Ptr_roundtrip: "GetVarint32Ptr (EncodeVarint32 v @ rest) = Some (v, rest)"
  using GetVarint32_roundtrip [of v rest] by (simp add: GetVarint32_def split: option.splits prod.splits)

lemma EncodeVarint32_first:
  "128 \<le> unat v \<Longrightarrow> 128 \<le> unat (hd (EncodeVarint32 v))"
  "unat v < 128 \<Longrightarrow> EncodeVarint32 v = [ucast v]"
proof -
  assume "128 \<le> unat v"
  then show "128 \<le> unat (hd (EncodeVarint32 v))"
    unfolding EncodeVarint32_le128 le128_step [OF \<open>128 \<le> unat v\<close>] by (simp add: unat_of_nat del: of_nat_add)
qed (simp add: EncodeVarint32_def word_less_nat_alt)

lemma or_less_128: "(a :: u32) OR b < 128 \<longleftrightarrow> a < 128 \<and> b < 128"
proof -
  have "w < 128 \<longleftrightarrow> drop_bit 7 w = 0" for w :: u32
    by (simp add: word_less_nat_alt word_unat_eq_iff unat_drop_bit div_eq_0_iff)
  then show ?thesis by (simp add: drop_bit_or or_eq_0_iff)
qed

lemma entry_header_length: "3 \<le> length (entry_header e)"
proof -
  have "1 \<le> length (EncodeVarint32 v)" for v by (simp add: EncodeVarint32_def Let_def)
  from this [of "word_of_nat (shared_of e)"] this [of "word_of_nat (length (key_of e) - shared_of e)"]
    this [of "word_of_nat (length (value_of e))"]
  show ?thesis by (simp add: entry_header_def)
qed

lemma DecodeEntry_header:
  assumes "e = (s, k, v)" "s < 2 ^ 32" "length k < 2 ^ 32" "length k - s + length v \<le> length rest" "length rest < 2 ^ 32"
  shows "DecodeEntry (entry_header e @ rest) = Some (word_of_nat s, word_of_nat (length k - s), word_of_nat (length v), rest)"
proof -
  let ?a = "word_of_nat s :: u32" and ?b = "word_of_nat (length k - s) :: u32" and ?c = "word_of_nat (length v) :: u32"
  let ?p = "EncodeVarint32 ?a @ EncodeVarint32 ?b @ EncodeVarint32 ?c @ rest"
  have p: "entry_header e @ rest = ?p" by (simp add: entry_header_def assms(1))
  have l: "\<not> length ?p < 3" using entry_header_length [of e] unfolding p [symmetric] by simp
  have u: "unat ?b = length k - s" "unat ?c = length v" using assms by (simp_all add: unat_of_nat)
  have "unat (?b + ?c) \<le> unat ?b + unat ?c" by (simp add: unat_word_ariths)
  then have fits: "\<not> (word_of_nat (length rest) :: u32) < ?b + ?c"
    using assms(4,5) u by (simp add: word_less_nat_alt unat_of_nat not_less)
  show ?thesis
  proof (cases "?a < 128 \<and> ?b < 128 \<and> ?c < 128")
    case True
    then have q: "?p = ucast ?a # ucast ?b # ucast ?c # rest"
      using EncodeVarint32_first(2) by (simp add: word_less_nat_alt)
    have m: "ucast (ucast w :: u8) = w" if "w < 128" for w :: u32
      using that by (simp add: word_unat_eq_iff unat_ucast word_less_nat_alt)
    then show ?thesis unfolding p q DecodeEntry_def Let_def
      using True fits by (simp add: or_less_128 m)
  next
    case False
    have hd: "128 \<le> unat (hd (EncodeVarint32 w))" if "\<not> w < 128" for w :: u32
      using that by (intro EncodeVarint32_first(1)) (simp add: word_less_nat_alt not_less)
    have n0: "EncodeVarint32 w ! 0 = hd (EncodeVarint32 w)" for w by (simp add: hd_conv_nth)
    have big: "\<not> (ucast (b :: u8) :: u32) < 128 \<longleftrightarrow> 128 \<le> unat b" for b
      by (simp add: word_less_nat_alt not_less unat_ucast_up)
    consider "\<not> ?a < 128" | "?a < 128" "\<not> ?b < 128" | "?a < 128" "?b < 128" "\<not> ?c < 128" using False by blast
    then have "\<not> (ucast (?p ! 0) OR ucast (?p ! 1) OR ucast (?p ! 2) :: u32) < 128"
    proof cases
      case 1
      then have "\<not> (ucast (?p ! 0) :: u32) < 128" unfolding big using hd [OF 1] by (simp add: nth_append n0)
      then show ?thesis by (simp add: or_less_128)
    next
      case 2
      then have "EncodeVarint32 ?a = [ucast ?a]" using EncodeVarint32_first(2) by (simp add: word_less_nat_alt)
      then have "\<not> (ucast (?p ! 1) :: u32) < 128" unfolding big using hd [OF 2(2)] by (simp add: nth_append n0)
      then show ?thesis by (simp add: or_less_128)
    next
      case 3
      then have "EncodeVarint32 ?a = [ucast ?a]" "EncodeVarint32 ?b = [ucast ?b]"
        using EncodeVarint32_first(2) by (simp_all add: word_less_nat_alt)
      then have "\<not> (ucast (?p ! 2) :: u32) < 128" unfolding big using hd [OF 3(3)] by (simp add: nth_append n0)
      then show ?thesis by (simp add: or_less_128)
    qed
    then show ?thesis unfolding p DecodeEntry_def Let_def
      using l fits by (simp add: GetVarint32Ptr_roundtrip)
  qed
qed

lemma entries_split:
  assumes "i < length es"
  shows "entries_bytes es = entries_bytes (take i es) @ entry_bytes (es ! i) @ entries_bytes (drop (Suc i) es)"
  unfolding entries_bytes_def using assms by (metis concat.simps(2) concat_append id_take_nth_drop list.simps(9) map_append)

lemma entry_position:
  assumes "block_ok es rs" "i < length es"
  defines "k \<equiv> key_of (es ! i)" and "s \<equiv> shared_of (es ! i)"
    and "pos \<equiv> offset_of es i + length (entry_header (es ! i))"
    and "p \<equiv> drop (shared_of (es ! i)) (key_of (es ! i)) @ value_of (es ! i) @ entries_bytes (drop (Suc i) es)"
  shows "DecodeEntry (take (length (entries_bytes es) - offset_of es i) (drop (offset_of es i) (block_bytes es rs))) =
      Some (word_of_nat s, word_of_nat (length k - s), word_of_nat (length (value_of (es ! i))), p)"
    "length (entries_bytes es) - length p = pos"
    "drop pos (block_bytes es rs) = p @ drop (length (entries_bytes es)) (block_bytes es rs)"
    "s \<le> length k" "length k < 2 ^ 32" "s < 2 ^ 32" "length (value_of (es ! i)) < 2 ^ 32"
    "pos + (length k - s) + length (value_of (es ! i)) = offset_of es (Suc i)" "offset_of es (Suc i) \<le> length (entries_bytes es)"
    "length (entries_bytes es) < 2 ^ 32"
proof -
  let ?e = "es ! i"
  let ?tr = "drop (length (entries_bytes es)) (block_bytes es rs)"
  have tr: "block_bytes es rs = entries_bytes es @ ?tr" by (simp add: block_bytes_def)
  have split: "entries_bytes es = entries_bytes (take i es) @ entry_header ?e @ p"
    using entries_split [OF assms(2)] by (simp add: entry_bytes_def p_def)
  have off: "offset_of es i = length (entries_bytes (take i es))" by (simp add: offset_of_def)
  show len: "length (entries_bytes es) < 2 ^ 32" using assms(1) by (simp add: block_ok_def block_bytes_length)
  have d: "drop (offset_of es i) (block_bytes es rs) = entry_header ?e @ p @ ?tr"
    by (subst tr, subst split) (simp add: off)
  have t: "take (length (entries_bytes es) - offset_of es i) (drop (offset_of es i) (block_bytes es rs)) = entry_header ?e @ p"
    unfolding d using arg_cong [OF split, of length] by (simp add: off)
  show sk: "s \<le> length k" using assms(1,2) by (simp add: block_ok_def well_shared_def s_def k_def)
  show p1: "length (entries_bytes es) - length p = pos" using arg_cong [OF split, of length] by (simp add: off pos_def)
  show "drop pos (block_bytes es rs) = p @ ?tr" using d by (simp add: pos_def add.commute [of "offset_of es i"] flip: drop_drop)
  show e: "pos + (length k - s) + length (value_of ?e) = offset_of es (Suc i)"
    by (simp add: offset_of_Suc [OF assms(2)] entry_bytes_def pos_def k_def s_def)
  show o: "offset_of es (Suc i) \<le> length (entries_bytes es)" by (rule offset_of_le)
  have "length k \<le> offset_of es (Suc i)" using key_length [of es i] assms(1,2) by (simp add: block_ok_def k_def)
  then show k: "length k < 2 ^ 32" using o len by simp
  then show s: "s < 2 ^ 32" using sk by simp
  show "length (value_of ?e) < 2 ^ 32" using e o len by simp
  have e': "?e = (s, k, value_of ?e)" by (simp add: s_def k_def)
  have "length k - s + length (value_of ?e) \<le> length p" "length p < 2 ^ 32"
    using len arg_cong [OF split, of length] by (simp_all add: p_def k_def s_def)
  then show "DecodeEntry (take (length (entries_bytes es) - offset_of es i) (drop (offset_of es i) (block_bytes es rs))) =
      Some (word_of_nat s, word_of_nat (length k - s), word_of_nat (length (value_of (es ! i))), p)"
    unfolding t by (rule DecodeEntry_header [OF e' s k])
qed

text \<open>The iterator stands at an entry; or it is about to read one.\<close>

definition standing :: "block_entry list \<Rightarrow> nat list \<Rightarrow> nat \<Rightarrow> block_iter \<Rightarrow> bool" where
  "standing es rs i it \<longleftrightarrow>
     i < length es \<and> bi_current it = offset_of es i \<and> bi_key it = key_of (es ! i) \<and>
     BlockIter_value (view_of es rs) it = value_of (es ! i) \<and> NextEntryOffset it = offset_of es (Suc i) \<and>
     bi_restart_index it < length rs \<and> rs ! bi_restart_index it \<le> i \<and> (\<forall>j. bi_restart_index it < j \<and> j < length rs \<longrightarrow> i \<le> rs ! j)"

definition about_to_read :: "block_entry list \<Rightarrow> nat list \<Rightarrow> nat \<Rightarrow> block_iter \<Rightarrow> bool" where
  "about_to_read es rs i it \<longleftrightarrow>
     i \<le> length es \<and> NextEntryOffset it = offset_of es i \<and>
     (i < length es \<longrightarrow> shared_of (es ! i) \<le> length (bi_key it) \<and>
        take (shared_of (es ! i)) (bi_key it) = take (shared_of (es ! i)) (key_of (es ! i))) \<and>
     bi_restart_index it < length rs \<and> rs ! bi_restart_index it \<le> i"

lemma restart_point:
  assumes "restarts_ok es rs" "j < length rs"
  shows "rs ! j = 0 \<or> rs ! j < length es \<and> shared_of (es ! (rs ! j)) = 0"
  using assms by (metis nth_mem restarts_ok_def)

lemma restart_le: "restarts_ok es rs \<Longrightarrow> j < length rs \<Longrightarrow> rs ! j \<le> length es"
  using restart_point by fastforce

lemma restart_shares_nothing:
  "well_shared es \<Longrightarrow> restarts_ok es rs \<Longrightarrow> j < length rs \<Longrightarrow> rs ! j < length es \<Longrightarrow> shared_of (es ! (rs ! j)) = 0"
  using restart_point [of es rs j] by (auto simp: well_shared_def key_before_def)

lemma restart_mono: "restarts_ok es rs \<Longrightarrow> j \<le> j' \<Longrightarrow> j' < length rs \<Longrightarrow> rs ! j \<le> rs ! j'"
  by (cases "j = j'") (auto simp: restarts_ok_def sorted_wrt_iff_nth_less less_imp_le)

lemma advance_restart_view:
  assumes "block_ok es rs" "i \<le> length es" "ri < length rs" "rs ! ri \<le> i"
  defines "r \<equiv> advance_restart (view_of es rs) (offset_of es i) ri"
  shows "r < length rs" "rs ! r \<le> i" "r < j \<Longrightarrow> j < length rs \<Longrightarrow> i \<le> rs ! j"
proof -
  have ok: "restarts_ok es rs" using assms(1) by (simp add: block_ok_def)
  have "r < length rs \<and> rs ! r \<le> i \<and> (\<forall>j. r < j \<and> j < length rs \<longrightarrow> i \<le> rs ! j)"
    unfolding r_def using assms(3,4)
  proof (induction "length rs - ri" arbitrary: ri rule: less_induct)
    case less
    show ?case
    proof (cases "ri + 1 < length rs \<and> rs ! (ri + 1) < i")
      case True
      then have "advance_restart (view_of es rs) (offset_of es i) ri = advance_restart (view_of es rs) (offset_of es i) (ri + 1)"
        using assms(1,2) offset_of_less [of "rs ! (ri + 1)" i es] by (subst advance_restart.simps) simp
      moreover have "length rs - (ri + 1) < length rs - ri" using True by linarith
      ultimately show ?thesis using less.hyps [of "ri + 1"] True by simp
    next
      case False
      have "\<not> offset_of es (rs ! (ri + 1)) < offset_of es i" if "ri + 1 < length rs"
        using False that offset_of_mono [of i "rs ! (ri + 1)" es] by simp
      then have "advance_restart (view_of es rs) (offset_of es i) ri = ri"
        using assms(1) by (subst advance_restart.simps) auto
      moreover have "i \<le> rs ! j" if "ri < j" "j < length rs" for j
        using False that restart_mono [OF ok, of "ri + 1" j] by simp
      ultimately show ?thesis using less.prems by simp
    qed
  qed
  then show "r < length rs" "rs ! r \<le> i" "r < j \<Longrightarrow> j < length rs \<Longrightarrow> i \<le> rs ! j" by auto
qed

lemma ParseNextKey_entry:
  assumes "block_ok es rs" "about_to_read es rs i it" "i < length es"
  shows "\<exists>it'. ParseNextKey (view_of es rs) it = Some (True, it') \<and> standing es rs i it' \<and> bi_status it' = bi_status it"
proof -
  let ?v = "view_of es rs" and ?e = "es ! i"
  let ?k = "key_of ?e" and ?s = "shared_of ?e"
  let ?pos = "offset_of es i + length (entry_header ?e)"
  define p where "p = drop ?s ?k @ value_of ?e @ entries_bytes (drop (Suc i) es)"
  note ep = entry_position [OF assms(1,3), folded p_def]
  note r = assms(2) [unfolded about_to_read_def]
  define ri where "ri = advance_restart ?v (offset_of es i) (bi_restart_index it)"
  define it' where "it' = it\<lparr>bi_current := offset_of es i, bi_key := ?k,
      bi_value := (?pos + (length ?k - ?s), length (value_of ?e)), bi_restart_index := ri\<rparr>"
  have lt: "\<not> length (entries_bytes es) \<le> offset_of es i"
    using offset_of_less [of i "length es" es] assms(3) by (simp add: offset_of_end)
  have u: "unat (word_of_nat ?s :: u32) = ?s" "unat (word_of_nat (length ?k - ?s) :: u32) = length ?k - ?s"
    "unat (word_of_nat (length (value_of ?e)) :: u32) = length (value_of ?e)"
    using ep(5-7) by (simp_all add: unat_of_nat)
  have key: "take ?s ?k @ take (length ?k - ?s) (drop ?pos (block_bytes es rs)) = ?k"
    unfolding ep(3) p_def using r assms(3) by (simp add: append_take_drop_id [of ?s ?k])
  have room: "\<not> length (block_bytes es rs) < ?pos + (length ?k - ?s)"
    using ep(8,9) by (simp add: block_bytes_length)
  have "ParseNextKey ?v it = Some (True, it')"
    using r assms(1,3) lt room
    by (simp add: ParseNextKey_def Let_def ep(1) ep(2) u key it'_def ri_def)
  moreover have "standing es rs i it'"
  proof -
    have "drop (?pos + (length ?k - ?s)) (block_bytes es rs) =
        value_of ?e @ entries_bytes (drop (Suc i) es) @ drop (length (entries_bytes es)) (block_bytes es rs)"
      using arg_cong [OF ep(3), of "drop (length ?k - ?s)"] by (simp add: p_def add.commute [of ?pos])
    then have "BlockIter_value ?v it' = value_of ?e" using assms(1) by (simp add: BlockIter_value_def it'_def)
    moreover have "NextEntryOffset it' = offset_of es (Suc i)"
      using ep(8-10) by (simp add: NextEntryOffset_def it'_def)
    moreover have "ri < length rs" "rs ! ri \<le> i" "\<forall>j. ri < j \<and> j < length rs \<longrightarrow> i \<le> rs ! j"
      using advance_restart_view [OF assms(1), of i "bi_restart_index it"] r by (auto simp: ri_def)
    ultimately show ?thesis using assms(3) by (simp add: standing_def it'_def)
  qed
  ultimately show ?thesis by (auto simp: it'_def)
qed

lemma ParseNextKey_end:
  assumes "block_ok es rs" "about_to_read es rs (length es) it"
  shows "ParseNextKey (view_of es rs) it =
    Some (False, it\<lparr>bi_current := length (entries_bytes es), bi_restart_index := length rs\<rparr>)"
  using assms by (simp add: ParseNextKey_def Let_def about_to_read_def offset_of_end)

lemma standing_reads_next:
  assumes "block_ok es rs" "standing es rs i it"
  shows "about_to_read es rs (Suc i) it"
proof -
  have "shared_of (es ! Suc i) \<le> length (key_of (es ! i)) \<and>
      take (shared_of (es ! Suc i)) (key_of (es ! Suc i)) = take (shared_of (es ! Suc i)) (key_of (es ! i))" if "Suc i < length es"
    using assms(1) that by (auto simp: block_ok_def well_shared_def key_before_def)
  then show ?thesis using assms(2) by (auto simp: standing_def about_to_read_def)
qed

lemma SeekToRestartPoint_reads:
  assumes "block_ok es rs" "j < length rs"
  shows "about_to_read es rs (rs ! j) (SeekToRestartPoint (view_of es rs) j it)"
proof -
  have ok: "restarts_ok es rs" "well_shared es" and len: "length (entries_bytes es) < 2 ^ 32"
    using assms(1) by (auto simp: block_ok_def block_bytes_length)
  have le: "rs ! j \<le> length es" by (rule restart_le [OF ok(1) assms(2)])
  have "shared_of (es ! (rs ! j)) = 0" if "rs ! j < length es"
    by (rule restart_shares_nothing [OF ok(2,1) assms(2) that])
  moreover have "offset_of es (rs ! j) < 2 ^ 32" using offset_of_le [of es "rs ! j"] len by simp
  ultimately show ?thesis
    using assms le by (simp add: about_to_read_def SeekToRestartPoint_def NextEntryOffset_def)
qed

subsection \<open>The operations of the iterator\<close>

text \<open>Past the last entry, and before the first one, an iterator is not valid; that is not an error.\<close>

definition exhausted :: "block_entry list \<Rightarrow> nat list \<Rightarrow> block_iter \<Rightarrow> bool" where
  "exhausted es rs it \<longleftrightarrow> \<not> BlockIter_Valid (view_of es rs) it"

definition at_entry :: "block_entry list \<Rightarrow> nat list \<Rightarrow> nat \<Rightarrow> block_iter \<Rightarrow> bool" where
  "at_entry es rs i it \<longleftrightarrow> (if i < length es then standing es rs i it else exhausted es rs it)"

lemma ParseNextKey_view:
  assumes "block_ok es rs" "about_to_read es rs i it"
  shows "\<exists>it'. ParseNextKey (view_of es rs) it = Some (i < length es, it') \<and> at_entry es rs i it' \<and> bi_status it' = bi_status it"
proof (cases "i < length es")
  case True
  then show ?thesis using ParseNextKey_entry [OF assms True] by (simp add: at_entry_def)
next
  case False
  then have "i = length es" using assms(2) by (simp add: about_to_read_def)
  then show ?thesis using ParseNextKey_end [of es rs it] assms
    by (simp add: at_entry_def exhausted_def BlockIter_Valid_def)
qed

lemma standing_valid:
  assumes "block_ok es rs" "standing es rs i it"
  shows "BlockIter_Valid (view_of es rs) it"
  using assms offset_of_less [of i "length es" es] by (simp add: BlockIter_Valid_def standing_def offset_of_end)

lemma at_entry_valid: "block_ok es rs \<Longrightarrow> at_entry es rs i it \<Longrightarrow> BlockIter_Valid (view_of es rs) it \<longleftrightarrow> i < length es"
  using standing_valid by (auto simp: at_entry_def exhausted_def split: if_splits)

lemma Next_view:
  assumes "block_ok es rs" "standing es rs i it"
  shows "\<exists>it'. BlockIter_Next (view_of es rs) it = Some it' \<and> at_entry es rs (Suc i) it' \<and> bi_status it' = bi_status it"
  using ParseNextKey_view [OF assms(1) standing_reads_next [OF assms]] by (auto simp: BlockIter_Next_def)

lemma restart_0: "block_ok es rs \<Longrightarrow> 0 < length rs \<and> rs ! 0 = 0"
  by (auto simp: block_ok_def restarts_ok_def)

lemma SeekToFirst_view:
  assumes "block_ok es rs"
  shows "\<exists>it'. BlockIter_SeekToFirst (view_of es rs) it = Some it' \<and> at_entry es rs 0 it' \<and> bi_status it' = bi_status it"
proof -
  have "about_to_read es rs 0 (SeekToRestartPoint (view_of es rs) 0 it)"
    using SeekToRestartPoint_reads [OF assms, of 0] restart_0 [OF assms] by simp
  from ParseNextKey_view [OF assms this] show ?thesis
    by (auto simp: BlockIter_SeekToFirst_def) (simp add: SeekToRestartPoint_def)
qed

lemma skip_until_view:
  assumes "block_ok es rs" "about_to_read es rs i it" "i \<le> m" "m < length es"
  shows "\<exists>it'. skip_until (offset_of es (Suc m)) (view_of es rs) it = Some it' \<and> standing es rs m it' \<and> bi_status it' = bi_status it"
  using assms(2,3)
proof (induction "m - i" arbitrary: i it)
  case 0
  then have "i = m" by simp
  obtain it' where it': "ParseNextKey (view_of es rs) it = Some (True, it')" "standing es rs m it'" "bi_status it' = bi_status it"
    using ParseNextKey_entry [OF assms(1) 0(2)] assms(4) \<open>i = m\<close> by auto
  then show ?case by (subst skip_until.simps) (simp add: standing_def)
next
  case (Suc d)
  obtain it' where it': "ParseNextKey (view_of es rs) it = Some (True, it')" "standing es rs i it'" "bi_status it' = bi_status it"
    using ParseNextKey_entry [OF assms(1) Suc(3)] assms(4) Suc(2) by fastforce
  have "NextEntryOffset it' < offset_of es (Suc m)"
    using it'(2) offset_of_less [of "Suc i" "Suc m" es] Suc(2) assms(4) by (simp add: standing_def)
  then have "skip_until (offset_of es (Suc m)) (view_of es rs) it = skip_until (offset_of es (Suc m)) (view_of es rs) it'"
    using it'(1) by (subst skip_until.simps) simp
  moreover have "\<exists>it''. skip_until (offset_of es (Suc m)) (view_of es rs) it' = Some it'' \<and> standing es rs m it'' \<and> bi_status it'' = bi_status it'"
    by (rule Suc(1) [OF _ standing_reads_next [OF assms(1) it'(2)]]) (use Suc(2) in simp_all)
  ultimately show ?case using it'(3) by simp
qed

lemma SeekToLast_view:
  assumes "block_ok es rs"
  shows "\<exists>it'. BlockIter_SeekToLast (view_of es rs) it = Some it' \<and> bi_status it' = bi_status it \<and>
    (if es = [] then exhausted es rs it' else standing es rs (length es - 1) it')"
proof -
  let ?j = "length rs - 1"
  have j: "?j < length rs" using restart_0 [OF assms] by simp
  let ?it = "SeekToRestartPoint (view_of es rs) ?j it"
  have r: "about_to_read es rs (rs ! ?j) ?it" by (rule SeekToRestartPoint_reads [OF assms j])
  have s: "bi_status ?it = bi_status it" by (simp add: SeekToRestartPoint_def)
  show ?thesis
  proof (cases "es = []")
    case True
    then have "rs ! ?j = length es" using restart_le [of es rs ?j] j assms by (simp add: block_ok_def)
    then have "ParseNextKey (view_of es rs) ?it = Some (False, ?it\<lparr>bi_current := length (entries_bytes es), bi_restart_index := length rs\<rparr>)"
      using ParseNextKey_end [OF assms] r by simp
    then show ?thesis using True s assms unfolding BlockIter_SeekToLast_def
      by (subst skip_until.simps) (simp add: exhausted_def BlockIter_Valid_def)
  next
    case False
    then have "rs ! ?j \<le> length es - 1" using restart_point [of es rs ?j] j assms by (auto simp: block_ok_def)
    then show ?thesis
      using skip_until_view [OF assms r, of "length es - 1"] False s assms
      by (auto simp: BlockIter_SeekToLast_def offset_of_end)
  qed
qed

lemma restart_before_view:
  assumes "block_ok es rs" "i < length es" "r < length rs"
  shows "case restart_before (view_of es rs) (offset_of es i) r of
      None \<Rightarrow> i = 0 \<or> (\<forall>j \<le> r. i \<le> rs ! j)
    | Some j \<Rightarrow> j \<le> r \<and> rs ! j < i"
  using assms(3)
proof (induction r)
  case 0
  then show ?case using assms(1,2) restart_0 [OF assms(1)] offset_of_less_iff [of 0 es i] by auto
next
  case (Suc r)
  have le: "rs ! Suc r \<le> length es" using restart_le [of es rs "Suc r"] Suc.prems assms(1) by (simp add: block_ok_def)
  show ?case
  proof (cases "rs ! Suc r < i")
    case True
    then show ?thesis using assms Suc.prems offset_of_less [of "rs ! Suc r" i es] by simp
  next
    case False
    then have "offset_of es i \<le> offset_of es (rs ! Suc r)" by (intro offset_of_mono) simp
    then show ?thesis using Suc assms(1) False by (auto simp: le_Suc_eq split: option.splits)
  qed
qed

lemma Prev_view:
  assumes "block_ok es rs" "standing es rs i it"
  shows "\<exists>it'. BlockIter_Prev (view_of es rs) it = Some it' \<and> bi_status it' = bi_status it \<and>
    (if i = 0 then exhausted es rs it' else standing es rs (i - 1) it')"
proof -
  let ?v = "view_of es rs"
  let ?r = "bi_restart_index it"
  note st = assms(2) [unfolded standing_def]
  have ri: "?r < length rs" using st by simp
  note rb = restart_before_view [OF assms(1) _ ri, of i]
  show ?thesis
  proof (cases "restart_before ?v (offset_of es i) ?r")
    case None
    then have "i = 0" using rb st restart_0 [OF assms(1)] by auto
    then show ?thesis using None st assms(1)
      by (simp add: BlockIter_Prev_def exhausted_def BlockIter_Valid_def)
  next
    case (Some j)
    then have j: "j < length rs" "rs ! j < i" using rb st by auto
    let ?it = "SeekToRestartPoint ?v j it"
    have "rs ! j \<le> i - 1" "i - 1 < length es" "Suc (i - 1) = i" using j(2) st by auto
    then show ?thesis
      using skip_until_view [OF assms(1) SeekToRestartPoint_reads [OF assms(1) j(1), of it], of "i - 1"] Some st j(2)
      by (auto simp: BlockIter_Prev_def SeekToRestartPoint_def)
  qed
qed

subsection \<open>Searching a block\<close>

text \<open>The keys ascend strictly, as the builder asserts; the first entry whose key is not before a target.\<close>

definition keys_ascend :: "(u8 list \<Rightarrow> u8 list \<Rightarrow> int) \<Rightarrow> block_entry list \<Rightarrow> bool" where
  "keys_ascend cmp es \<longleftrightarrow> sorted_wrt (\<lambda>a b. cmp (key_of a) (key_of b) < 0) es"

definition first_from :: "(u8 list \<Rightarrow> u8 list \<Rightarrow> int) \<Rightarrow> u8 list \<Rightarrow> block_entry list \<Rightarrow> nat" where
  "first_from cmp target es = length (takeWhile (\<lambda>e. cmp (key_of e) target < 0) es)"

lemma first_from_bounds:
  "first_from cmp target es \<le> length es"
  "j < first_from cmp target es \<Longrightarrow> cmp (key_of (es ! j)) target < 0"
  "first_from cmp target es < length es \<Longrightarrow> 0 \<le> cmp (key_of (es ! first_from cmp target es)) target"
proof -
  show "first_from cmp target es \<le> length es" by (simp add: first_from_def length_takeWhile_le)
  show "cmp (key_of (es ! j)) target < 0" if "j < first_from cmp target es"
    using that set_takeWhileD nth_mem takeWhile_nth unfolding first_from_def by metis
  show "0 \<le> cmp (key_of (es ! first_from cmp target es)) target" if "first_from cmp target es < length es"
    using that nth_length_takeWhile unfolding first_from_def by (metis not_le)
qed

lemma seek_linear_view:
  assumes "block_ok es rs" "about_to_read es rs i it" "i \<le> first_from cmp target es"
  shows "\<exists>it'. seek_linear cmp target (view_of es rs) it = Some it' \<and> at_entry es rs (first_from cmp target es) it' \<and> bi_status it' = bi_status it"
  using assms(2,3)
proof (induction "length es - i" arbitrary: i it rule: less_induct)
  case less
  let ?m = "first_from cmp target es"
  obtain it' where it': "ParseNextKey (view_of es rs) it = Some (i < length es, it')" "at_entry es rs i it'" "bi_status it' = bi_status it"
    using ParseNextKey_view [OF assms(1) less.prems(1)] by blast
  show ?case
  proof (cases "i < ?m")
    case True
    then have i: "i < length es" "cmp (key_of (es ! i)) target < 0" using first_from_bounds(1) [of cmp target es] first_from_bounds(2) [of i cmp target es] by simp_all
    then have s: "standing es rs i it'" using it'(2) by (simp add: at_entry_def)
    then have "seek_linear cmp target (view_of es rs) it = seek_linear cmp target (view_of es rs) it'"
      using i it'(1) by (subst seek_linear.simps) (simp add: standing_def)
    moreover have "\<exists>it''. seek_linear cmp target (view_of es rs) it' = Some it'' \<and> at_entry es rs ?m it'' \<and> bi_status it'' = bi_status it'"
      by (rule less.hyps [OF _ standing_reads_next [OF assms(1) s]]) (use i True in linarith, use True in simp)
    ultimately show ?thesis using it'(3) by simp
  next
    case False
    then have "i = ?m" using less.prems(2) by simp
    then have "seek_linear cmp target (view_of es rs) it = Some it'"
      using it' first_from_bounds(3) [of cmp target es] by (subst seek_linear.simps) (auto simp: at_entry_def standing_def)
    then show ?thesis using it' \<open>i = ?m\<close> by simp
  qed
qed

lemma seek_restart_view:
  assumes "block_ok es rs" "left \<le> right" "right < length rs"
    and "left = 0 \<or> rs ! left < length es \<and> cmp (key_of (es ! (rs ! left))) target < 0"
  shows "\<exists>l < length rs. seek_restart cmp target (view_of es rs) left right = Some (Some l) \<and>
    (l = 0 \<or> rs ! l < length es \<and> cmp (key_of (es ! (rs ! l))) target < 0)"
  using assms(2-4)
proof (induction "right - left" arbitrary: left right rule: less_induct)
  case less
  show ?case
  proof (cases "left < right")
    case False
    then show ?thesis using less.prems by (subst seek_restart.simps) auto
  next
    case True
    let ?mid = "(left + right + 1) div 2"
    have mid: "left < ?mid" "?mid \<le> right" using True by auto
    then have ml: "?mid < length rs" using less.prems(2) by simp
    have ok: "restarts_ok es rs" "well_shared es" using assms(1) by (simp_all add: block_ok_def)
    have "rs ! 0 < rs ! ?mid" using ok(1) ml mid(1) sorted_wrt_nth_less [of "(<)" rs 0 ?mid] by (simp add: restarts_ok_def)
    then have i: "rs ! ?mid < length es" "shared_of (es ! (rs ! ?mid)) = 0"
      using restart_point [OF ok(1) ml] by auto
    let ?e = "es ! (rs ! ?mid)"
    let ?k = "key_of ?e"
    define p where "p = drop (shared_of ?e) ?k @ value_of ?e @ entries_bytes (drop (Suc (rs ! ?mid)) es)"
    note ep = entry_position [OF assms(1) i(1), folded p_def]
    have k: "take (length ?k) (drop (offset_of es (rs ! ?mid) + length (entry_header ?e)) (block_bytes es rs)) = ?k"
      unfolding ep(3) p_def i(2) by simp
    have u: "unat (word_of_nat (length ?k) :: u32) = length ?k" using ep(5) by (simp add: unat_of_nat)
    have room: "\<not> length (block_bytes es rs) < offset_of es (rs ! ?mid) + length (entry_header ?e) + length ?k"
      using ep(8,9) i(2) by (simp add: block_bytes_length)
    have step: "seek_restart cmp target (view_of es rs) left right =
      (if cmp ?k target < 0 then seek_restart cmp target (view_of es rs) ?mid right
       else seek_restart cmp target (view_of es rs) left (?mid - 1))"
      using assms(1) ml True room
      by (subst seek_restart.simps) (simp add: Let_def ep(1) ep(2) i(2) u k del: One_nat_def)
    show ?thesis
    proof (cases "cmp ?k target < 0")
      case True
      then have "seek_restart cmp target (view_of es rs) left right = seek_restart cmp target (view_of es rs) ?mid right"
        unfolding step by simp
      then show ?thesis using less.hyps [of right ?mid] mid less.prems(2) i(1) True by (simp add: diff_less_mono2)
    next
      case False
      then have "seek_restart cmp target (view_of es rs) left right = seek_restart cmp target (view_of es rs) left (?mid - 1)"
        unfolding step by simp
      moreover have "?mid - 1 - left < right - left" "left \<le> ?mid - 1" "?mid - 1 < length rs" using mid ml by linarith+
      ultimately show ?thesis using less.hyps [of "?mid - 1" left] less.prems(3) by simp
    qed
  qed
qed

text \<open>The contract of the comparator that a table is sorted by: it orders all slices.\<close>

locale slice_order = comparator cmp UNIV for cmp :: "u8 list \<Rightarrow> u8 list \<Rightarrow> int"
begin

lemma restart_before_first:
  assumes "keys_ascend cmp es" "r < length es" "cmp (key_of (es ! r)) target < 0"
  shows "r \<le> first_from cmp target es"
proof (rule ccontr)
  let ?m = "first_from cmp target es"
  assume "\<not> r \<le> ?m"
  then have m: "?m < r" "?m < length es" using assms(2) by simp_all
  have "cmp (key_of (es ! ?m)) (key_of (es ! r)) < 0"
    using assms(1,2) m(1) by (simp add: keys_ascend_def sorted_wrt_iff_nth_less)
  then have "cmp (key_of (es ! ?m)) target < 0"
    using less_le_trans [of "key_of (es ! ?m)" "key_of (es ! r)" target] assms(3) by simp
  then show False using first_from_bounds(3) [of cmp target es] m(2) by simp
qed

lemma Seek_view:
  assumes "block_ok es rs" "keys_ascend cmp es"
  shows "\<exists>it'. BlockIter_Seek cmp target (view_of es rs) it = Some it' \<and>
    at_entry es rs (first_from cmp target es) it' \<and> bi_status it' = bi_status it"
proof -
  obtain l where l: "l < length rs" "seek_restart cmp target (view_of es rs) 0 (length rs - 1) = Some (Some l)"
    "l = 0 \<or> rs ! l < length es \<and> cmp (key_of (es ! (rs ! l))) target < 0"
    using seek_restart_view [OF assms(1), of 0 "length rs - 1"] restart_0 [OF assms(1)] by auto
  have "rs ! l \<le> first_from cmp target es"
    using l(3) restart_before_first [OF assms(2), of "rs ! l"] restart_0 [OF assms(1)] by auto
  from seek_linear_view [OF assms(1) SeekToRestartPoint_reads [OF assms(1) l(1)] this]
  show ?thesis using l(2) assms(1) by (simp add: BlockIter_Seek_def) (simp add: SeekToRestartPoint_def)
qed

end

interpretation bytewise_slices: slice_order Slice_compare
  by (rule slice_order.intro) (rule bytewise.comparator_axioms)

subsection \<open>From the builder to the reader\<close>

definition built_block :: "nat \<Rightarrow> (u8 list \<times> u8 list) list \<Rightarrow> u8 list" where
  "built_block interval kvs = fst (BlockBuilder_Finish (fold (\<lambda>(k, v). BlockBuilder_Add interval k v) kvs BlockBuilder_new))"

lemma builder_adds:
  assumes "0 < interval" "block_builder_ok interval es rs b"
  shows "\<exists>es' rs'. block_builder_ok interval (es @ es') rs' (fold (\<lambda>(k, v). BlockBuilder_Add interval k v) kvs b) \<and> map snd es' = kvs"
  using assms(2)
proof (induction kvs arbitrary: es rs b)
  case Nil
  then show ?case by (intro exI [of _ "[]"] exI [of _ rs]) simp
next
  case (Cons kv kvs)
  obtain k v where kv: "kv = (k, v)" by (cases kv)
  obtain s rs1 where 1: "block_builder_ok interval (es @ [(s, k, v)]) rs1 (BlockBuilder_Add interval k v b)"
    using BlockBuilder_Add_ok [OF Cons.prems assms(1)] by blast
  from Cons.IH [OF 1] obtain es' rs' where
    "block_builder_ok interval ((es @ [(s, k, v)]) @ es') rs' (fold (\<lambda>(k, v). BlockBuilder_Add interval k v) kvs (BlockBuilder_Add interval k v b))"
    "map snd es' = kvs" by blast
  then show ?case by (intro exI [of _ "(s, k, v) # es'"] exI [of _ rs']) (simp add: kv)
qed

lemma built_block_ok:
  assumes "0 < interval" "length (built_block interval kvs) < 2 ^ 32"
  obtains es rs where "built_block interval kvs = block_bytes es rs" "block_ok es rs" "map snd es = kvs"
proof -
  let ?b = "fold (\<lambda>(k, v). BlockBuilder_Add interval k v) kvs BlockBuilder_new"
  obtain es rs where b: "block_builder_ok interval es rs ?b" "map snd es = kvs"
    using builder_adds [OF assms(1) BlockBuilder_new_ok, of kvs] by auto
  then have "built_block interval kvs = block_bytes es rs"
    by (simp add: built_block_def BlockBuilder_Finish_def Let_def foldl_PutFixed32 PutFixed32_def block_bytes_def block_builder_ok_def)
  with b that [of es rs] assms(2) show ?thesis by (simp add: block_ok_def block_builder_ok_def)
qed

text \<open>What a caller does with an iterator: it reads while it is valid, forwards or backwards.\<close>

partial_function (option) read_forward :: "block_view \<Rightarrow> block_iter \<Rightarrow> ((u8 list \<times> u8 list) list \<times> status) option" where
  "read_forward v it =
     (if BlockIter_Valid v it then
        case BlockIter_Next v it of
          None \<Rightarrow> None
        | Some it' \<Rightarrow>
            Option.bind (read_forward v it') (\<lambda>(kvs, st). Some ((BlockIter_key it, BlockIter_value v it) # kvs, st))
      else Some ([], bi_status it))"

partial_function (option) read_backward :: "block_view \<Rightarrow> block_iter \<Rightarrow> ((u8 list \<times> u8 list) list \<times> status) option" where
  "read_backward v it =
     (if BlockIter_Valid v it then
        case BlockIter_Prev v it of
          None \<Rightarrow> None
        | Some it' \<Rightarrow>
            Option.bind (read_backward v it') (\<lambda>(kvs, st). Some ((BlockIter_key it, BlockIter_value v it) # kvs, st))
      else Some ([], bi_status it))"

lemma read_forward_view:
  assumes "block_ok es rs" "at_entry es rs i it"
  shows "read_forward (view_of es rs) it = Some (drop i (map snd es), bi_status it)"
  using assms(2)
proof (induction "length es - i" arbitrary: i it rule: less_induct)
  case less
  show ?case
  proof (cases "i < length es")
    case True
    then have s: "standing es rs i it" using less.prems by (simp add: at_entry_def)
    obtain it' where it': "BlockIter_Next (view_of es rs) it = Some it'" "at_entry es rs (Suc i) it'" "bi_status it' = bi_status it"
      using Next_view [OF assms(1) s] by blast
    have "read_forward (view_of es rs) it' = Some (drop (Suc i) (map snd es), bi_status it)"
      using less.hyps [of "Suc i" it'] it' True by simp
    moreover have "drop i (map snd es) = (key_of (es ! i), value_of (es ! i)) # drop (Suc i) (map snd es)"
      using True by (simp add: Cons_nth_drop_Suc [symmetric])
    ultimately show ?thesis
      using it'(1) s standing_valid [OF assms(1) s] by (subst read_forward.simps) (simp add: standing_def BlockIter_key_def)
  next
    case False
    then show ?thesis using less.prems by (subst read_forward.simps) (simp add: at_entry_def exhausted_def)
  qed
qed

lemma read_backward_view:
  assumes "block_ok es rs" "standing es rs i it"
  shows "read_backward (view_of es rs) it = Some (rev (take (Suc i) (map snd es)), bi_status it)"
  using assms(2)
proof (induction i arbitrary: it)
  case 0
  obtain it' where it': "BlockIter_Prev (view_of es rs) it = Some it'" "exhausted es rs it'" "bi_status it' = bi_status it"
    using Prev_view [OF assms(1) 0] by auto
  then have "read_backward (view_of es rs) it' = Some ([], bi_status it)"
    by (subst read_backward.simps) (simp add: exhausted_def)
  moreover have "take (Suc 0) (map snd es) = [(key_of (es ! 0), value_of (es ! 0))]"
    using 0 by (cases es) (auto simp: standing_def)
  ultimately show ?case
    using it'(1) 0 standing_valid [OF assms(1) 0] by (subst read_backward.simps) (simp add: standing_def BlockIter_key_def)
next
  case (Suc i)
  obtain it' where it': "BlockIter_Prev (view_of es rs) it = Some it'" "standing es rs i it'" "bi_status it' = bi_status it"
    using Prev_view [OF assms(1) Suc.prems] by auto
  have "rev (take (Suc (Suc i)) (map snd es)) = (key_of (es ! Suc i), value_of (es ! Suc i)) # rev (take (Suc i) (map snd es))"
    using Suc.prems by (simp add: standing_def take_Suc_conv_app_nth)
  then show ?case
    using it' Suc.IH [OF it'(2)] Suc.prems standing_valid [OF assms(1) Suc.prems]
    by (subst read_backward.simps) (simp add: standing_def BlockIter_key_def)
qed

lemma dropWhile_first: "drop (first_from cmp target es) (map snd es) = dropWhile (\<lambda>(k, v). cmp k target < 0) (map snd es)"
proof -
  have "dropWhile (\<lambda>(k, v). cmp k target < 0) (map snd es) = map snd (dropWhile (\<lambda>e. cmp (key_of e) target < 0) es)"
    by (simp add: dropWhile_map case_prod_beta comp_def)
  then show ?thesis by (simp add: first_from_def dropWhile_eq_drop drop_map)
qed

text \<open>C3: a block read back is what was added: the iterator over the bytes of \<open>Finish\<close> gives the keys and
  values that were added, in order from \<open>SeekToFirst\<close> by \<open>Next\<close> and in reverse from \<open>SeekToLast\<close> by \<open>Prev\<close>,
  whatever the restart interval, and ends without an error.\<close>

theorem block_roundtrip:
  assumes "0 < interval" "length (built_block interval kvs) < 2 ^ 32"
  shows "\<exists>v it first last. NewIterator (Block_new (built_block interval kvs)) = Over_Block v it \<and>
    BlockIter_SeekToFirst v it = Some first \<and> read_forward v first = Some (kvs, OK) \<and>
    BlockIter_SeekToLast v it = Some last \<and> read_backward v last = Some (rev kvs, OK)"
proof -
  obtain es rs where b: "built_block interval kvs = block_bytes es rs" "block_ok es rs" "map snd es = kvs"
    by (rule built_block_ok [OF assms])
  let ?v = "view_of es rs"
  let ?it = "BlockIter_new ?v"
  have st: "bi_status ?it = OK" by (simp add: BlockIter_new_def)
  obtain first where f: "BlockIter_SeekToFirst ?v ?it = Some first" "at_entry es rs 0 first" "bi_status first = OK"
    using SeekToFirst_view [OF b(2)] st by metis
  obtain last where l: "BlockIter_SeekToLast ?v ?it = Some last" "bi_status last = OK"
      "if es = [] then exhausted es rs last else standing es rs (length es - 1) last"
    using SeekToLast_view [OF b(2)] st by metis
  have "read_backward ?v last = Some (rev kvs, OK)"
  proof (cases "es = []")
    case True
    then show ?thesis using l(2,3) b(3) by (subst read_backward.simps) (simp add: exhausted_def)
  next
    case False
    then show ?thesis using read_backward_view [OF b(2), of "length es - 1" last] l(2,3) unfolding b(3) [symmetric] by simp
  qed
  moreover have "read_forward ?v first = Some (kvs, OK)" using read_forward_view [OF b(2) f(2)] b(3) f(3) by simp
  ultimately show ?thesis using f l NewIterator_view [OF b(2)] by (auto simp: b(1))
qed

lemma small_block: "built_block 2 [([97], [1]), ([97, 98], []), ([97, 99], [2, 3])] =
    [0, 1, 1, 97, 1, 1, 1, 0, 98, 0, 2, 2, 97, 99, 2, 3, 0, 0, 0, 0, 9, 0, 0, 0, 2, 0, 0, 0]"
  by code_simp

theorem block_roundtrip_witness:
  "\<exists>v it first last. NewIterator (Block_new (built_block 2 [([97], [1]), ([97, 98], []), ([97, 99], [2, 3])])) = Over_Block v it \<and>
    BlockIter_SeekToFirst v it = Some first \<and> read_forward v first = Some ([([97], [1]), ([97, 98], []), ([97, 99], [2, 3])], OK) \<and>
    BlockIter_SeekToLast v it = Some last \<and> read_backward v last = Some (rev [([97], [1]), ([97, 98], []), ([97, 99], [2, 3])], OK)"
  by (rule block_roundtrip) (simp_all add: small_block)

text \<open>C9: \<open>Seek\<close> finds the first key at or after a target: in a block of ascending keys, from any state of the
  iterator without an error, what follows is exactly the entries whose keys are not before the target.\<close>

theorem block_seek:
  assumes "comparator cmp UNIV" "0 < interval" "length (built_block interval kvs) < 2 ^ 32"
    and "sorted_wrt (\<lambda>a b. cmp (fst a) (fst b) < 0) kvs"
  shows "\<exists>v it. NewIterator (Block_new (built_block interval kvs)) = Over_Block v it \<and> (\<forall>it. bi_status it = OK \<longrightarrow>
    (\<exists>it'. BlockIter_Seek cmp target v it = Some it' \<and>
      read_forward v it' = Some (dropWhile (\<lambda>(k, v). cmp k target < 0) kvs, OK)))"
proof -
  obtain es rs where b: "built_block interval kvs = block_bytes es rs" "block_ok es rs" "map snd es = kvs"
    by (rule built_block_ok [OF assms(2,3)])
  have "keys_ascend cmp es" using assms(4) unfolding keys_ascend_def b(3) [symmetric] by (simp add: sorted_wrt_map)
  note seek = slice_order.Seek_view [OF slice_order.intro [OF assms(1)] b(2) this, of target]
  have "\<exists>it'. BlockIter_Seek cmp target (view_of es rs) it = Some it' \<and>
      read_forward (view_of es rs) it' = Some (dropWhile (\<lambda>(k, v). cmp k target < 0) kvs, OK)" if "bi_status it = OK" for it
    using seek [of it] read_forward_view [OF b(2)] that dropWhile_first [of cmp target es] unfolding b(3) by metis
  then show ?thesis using NewIterator_view [OF b(2)] by (auto simp: b(1))
qed

theorem block_seek_witness:
  "\<exists>v it. NewIterator (Block_new (built_block 2 [([97], [1]), ([97, 98], []), ([97, 99], [2, 3])])) = Over_Block v it \<and> (\<forall>it. bi_status it = OK \<longrightarrow>
    (\<exists>it'. BlockIter_Seek Slice_compare [97, 98, 0] v it = Some it' \<and> read_forward v it' = Some ([([97, 99], [2, 3])], OK)))"
  using block_seek [OF bytewise.comparator_axioms, of 2 "[([97], [1]), ([97, 98], []), ([97, 99], [2, 3])]" "[97, 98, 0]"]
  by (simp add: small_block)

subsection \<open>A block that is damaged\<close>

text \<open>One entry of an empty shared part, whose two lengths add up to \<open>2 ^ 32\<close>, and one restart point.\<close>

definition wrapping_block :: "u8 list" where
  "wrapping_block = [0, 0xff, 0xff, 0xff, 0xff, 0x0f, 1, 0, 0, 0, 0, 1, 0, 0, 0]"

text \<open>C39: the lengths of an entry are added in 32 bits, so that a damaged entry passes the bounds check of
  \<open>DecodeEntry\<close>: the iterator then copies a key of \<open>2 ^ 32 - 1\<close> bytes from a block of 15 bytes, from both ends.\<close>

theorem wrapping_lengths_read_outside:
  "\<exists>v it. NewIterator (Block_new wrapping_block) = Over_Block v it \<and>
    BlockIter_SeekToFirst v it = None \<and> BlockIter_SeekToLast v it = None"
proof -
  let ?v = "\<lparr>bv_data = wrapping_block, bv_restarts = 7, bv_num_restarts = 1\<rparr>"
  have "EncodeVarint32 0 = [0]" "EncodeVarint32 0xFFFFFFFF = [0xff, 0xff, 0xff, 0xff, 0x0f]" "EncodeVarint32 1 = [1]"
    by (simp_all add: EncodeVarint32_def Let_def)
  note g = GetVarint32Ptr_roundtrip [of 0, unfolded this] GetVarint32Ptr_roundtrip [of "0xFFFFFFFF", unfolded this]
    GetVarint32Ptr_roundtrip [of 1 "[]", unfolded this]
  have d: "DecodeEntry [0, 0xff, 0xff, 0xff, 0xff, 0x0f, 1] = Some (0, 0xFFFFFFFF, 1, [])"
    unfolding DecodeEntry_def Let_def using g by simp
  have n: "NumRestarts wrapping_block 15 = 1" "GetRestartPoint ?v 0 = 0"
    by (simp_all add: NumRestarts_def GetRestartPoint_def wrapping_block_def DecodeFixed32_def)
  moreover have "length wrapping_block = 15" by (simp add: wrapping_block_def)
  ultimately have new: "NewIterator (Block_new wrapping_block) = Over_Block ?v (BlockIter_new ?v)"
    by (simp add: NewIterator_def Block_new_def Let_def)
  have parse: "ParseNextKey ?v (SeekToRestartPoint ?v 0 (BlockIter_new ?v)) = None"
    using d n(2) by (simp add: ParseNextKey_def SeekToRestartPoint_def NextEntryOffset_def Let_def wrapping_block_def)
  have "BlockIter_SeekToFirst ?v (BlockIter_new ?v) = None" by (simp add: BlockIter_SeekToFirst_def parse)
  moreover have "BlockIter_SeekToLast ?v (BlockIter_new ?v) = None"
    using parse by (simp add: BlockIter_SeekToLast_def) (subst skip_until.simps, simp)
  ultimately show ?thesis using new by blast
qed

end
