(* ===== verification/Ldb_Handle_Table.thy ===== *)
theory Ldb_Handle_Table
  imports Prelude
begin

text \<open>
  The hash table of util/cache.cc of leveldb: buckets of cache entries chained through their field
  \<open>next_hash\<close>. An entry is known by its address; a chain is the list of the addresses on it. Reading an
  entry that was freed makes the result \<open>None\<close>. The table is smaller than \<open>2 ^ 32\<close> buckets, so that its
  two counters are natural numbers.
\<close>

subsection \<open>Entries and the table\<close>

record lru_handle =
  lh_value :: nat
  lh_deleter :: nat \<comment> \<open>the function that a call of it is recorded with\<close>
  lh_charge :: u64
  lh_in_cache :: bool
  lh_refs :: u32
  lh_hash :: u32
  lh_key :: "u8 list"

type_synonym handles = "nat \<Rightarrow> lru_handle option"

record handle_table =
  ht_elems :: nat
  ht_list :: "nat list list"

definition ht_bucket :: "nat \<Rightarrow> u32 \<Rightarrow> nat" where
  "ht_bucket n hash = unat (hash AND (word_of_nat n - 1))"

text \<open>The slot of a key in its chain: the position of the entry, or of the end of the chain.\<close>

fun find_slot :: "handles \<Rightarrow> u8 list \<Rightarrow> u32 \<Rightarrow> nat list \<Rightarrow> nat option" where
  "find_slot hs key hash [] = Some 0"
| "find_slot hs key hash (e # es) =
     (case hs e of
        None \<Rightarrow> None
      | Some h \<Rightarrow> if lh_hash h \<noteq> hash \<or> key \<noteq> lh_key h then map_option Suc (find_slot hs key hash es) else Some 0)"

definition FindPointer :: "handles \<Rightarrow> handle_table \<Rightarrow> u8 list \<Rightarrow> u32 \<Rightarrow> (nat \<times> nat) option" where
  "FindPointer hs t key hash =
     (let b = ht_bucket (length (ht_list t)) hash in map_option (Pair b) (find_slot hs key hash (ht_list t ! b)))"

text \<open>What a slot points to.\<close>

definition slot_entry :: "handle_table \<Rightarrow> nat \<times> nat \<Rightarrow> nat option" where
  "slot_entry t p = (if snd p < length (ht_list t ! fst p) then Some (ht_list t ! fst p ! snd p) else None)"

definition HandleTable_Lookup :: "handles \<Rightarrow> handle_table \<Rightarrow> u8 list \<Rightarrow> u32 \<Rightarrow> nat option option" where
  "HandleTable_Lookup hs t key hash = map_option (slot_entry t) (FindPointer hs t key hash)"

function grow_length :: "nat \<Rightarrow> nat \<Rightarrow> nat" where
  "grow_length elems new_length = (if 0 < new_length \<and> new_length < elems then grow_length elems (new_length * 2) else new_length)"
  by pat_completeness auto
termination
  by (relation "measure (\<lambda>(elems, new_length). elems - new_length)") auto

declare grow_length.simps [simp del]

text \<open>Every entry of the old chains, in order, is put at the front of its new chain.\<close>

fun rehash :: "handles \<Rightarrow> nat list \<Rightarrow> nat list list \<Rightarrow> nat list list option" where
  "rehash hs [] new_list = Some new_list"
| "rehash hs (e # es) new_list =
     (case hs e of
        None \<Rightarrow> None
      | Some h \<Rightarrow>
          let b = ht_bucket (length new_list) (lh_hash h) in rehash hs es (new_list[b := e # new_list ! b]))"

definition HandleTable_Resize :: "handles \<Rightarrow> handle_table \<Rightarrow> handle_table option" where
  "HandleTable_Resize hs t =
     (let new_length = grow_length (ht_elems t) 4
      in case rehash hs (concat (ht_list t)) (replicate new_length []) of
           None \<Rightarrow> None
         | Some new_list \<Rightarrow>
             let count = length (concat (ht_list t))
             in if ht_elems t \<noteq> count then None else Some (t\<lparr>ht_list := new_list\<rparr>))"

definition HandleTable_new :: "handle_table option" where
  "HandleTable_new = HandleTable_Resize (\<lambda>_. None) \<lparr>ht_elems = 0, ht_list = []\<rparr>"

definition HandleTable_Insert :: "handles \<Rightarrow> nat \<Rightarrow> handle_table \<Rightarrow> (nat option \<times> handle_table) option" where
  "HandleTable_Insert hs e t =
     (case hs e of
        None \<Rightarrow> None
      | Some h \<Rightarrow>
          (case FindPointer hs t (lh_key h) (lh_hash h) of
             None \<Rightarrow> None
           | Some (b, i) \<Rightarrow>
               (case slot_entry t (b, i) of
                  Some old \<Rightarrow> Some (Some old, t\<lparr>ht_list := (ht_list t)[b := (ht_list t ! b)[i := e]]\<rparr>)
                | None \<Rightarrow>
                    let t = t\<lparr>ht_list := (ht_list t)[b := ht_list t ! b @ [e]], ht_elems := ht_elems t + 1\<rparr>
                    in if length (ht_list t) < ht_elems t then map_option (Pair None) (HandleTable_Resize hs t)
                       else Some (None, t))))"

definition HandleTable_Remove :: "handles \<Rightarrow> u8 list \<Rightarrow> u32 \<Rightarrow> handle_table \<Rightarrow> (nat option \<times> handle_table) option" where
  "HandleTable_Remove hs key hash t =
     (case FindPointer hs t key hash of
        None \<Rightarrow> None
      | Some (b, i) \<Rightarrow>
          (case slot_entry t (b, i) of
             None \<Rightarrow> Some (None, t)
           | Some result \<Rightarrow>
               let chain = ht_list t ! b
               in Some (Some result,
                    t\<lparr>ht_list := (ht_list t)[b := take i chain @ drop (Suc i) chain], ht_elems := ht_elems t - 1\<rparr>)))"

subsection \<open>The entries of a table\<close>

text \<open>A table holds a set of entries, no two with the same key, each on the chain of its hash.\<close>

definition table_of :: "handles \<Rightarrow> handle_table \<Rightarrow> nat set \<Rightarrow> bool" where
  "table_of hs t S \<longleftrightarrow>
     (\<exists>m. 2 \<le> m \<and> m \<le> 31 \<and> length (ht_list t) = 2 ^ m) \<and>
     distinct (concat (ht_list t)) \<and> set (concat (ht_list t)) = S \<and> ht_elems t = length (concat (ht_list t)) \<and>
     (\<forall>e \<in> S. hs e \<noteq> None) \<and>
     (\<forall>b < length (ht_list t). \<forall>e \<in> set (ht_list t ! b). ht_bucket (length (ht_list t)) (lh_hash (the (hs e))) = b) \<and>
     (\<forall>e \<in> S. \<forall>e' \<in> S. lh_key (the (hs e)) = lh_key (the (hs e')) \<and> lh_hash (the (hs e)) = lh_hash (the (hs e')) \<longrightarrow> e = e')"

lemma ht_bucket_less: "m \<le> 31 \<Longrightarrow> ht_bucket (2 ^ m) hash < 2 ^ m"
proof -
  assume m: "m \<le> 31"
  have "(word_of_nat (2 ^ m) :: u32) - 1 = mask m" by (simp add: mask_eq_exp_minus_1)
  then have "ht_bucket (2 ^ m) hash = unat hash mod 2 ^ m" by (simp add: ht_bucket_def unat_and_mask)
  then show ?thesis by simp
qed

text \<open>The entry of a key and a hash in a set.\<close>

definition entry_of :: "handles \<Rightarrow> nat set \<Rightarrow> u8 list \<Rightarrow> u32 \<Rightarrow> nat option \<Rightarrow> bool" where
  "entry_of hs S key hash r \<longleftrightarrow>
     (case r of
        None \<Rightarrow> \<forall>e \<in> S. \<not> (lh_key (the (hs e)) = key \<and> lh_hash (the (hs e)) = hash)
      | Some e \<Rightarrow> e \<in> S \<and> lh_key (the (hs e)) = key \<and> lh_hash (the (hs e)) = hash)"

lemma find_slot_spec:
  "\<forall>e \<in> set es. hs e \<noteq> None \<Longrightarrow> \<exists>i \<le> length es. find_slot hs key hash es = Some i \<and>
    (\<forall>e \<in> set (take i es). \<not> (lh_key (the (hs e)) = key \<and> lh_hash (the (hs e)) = hash)) \<and>
    (i < length es \<longrightarrow> lh_key (the (hs (es ! i))) = key \<and> lh_hash (the (hs (es ! i))) = hash)"
proof (induction es)
  case (Cons e es)
  then obtain h i where h: "hs e = Some h" and i: "i \<le> length es" "find_slot hs key hash es = Some i"
    "\<forall>e \<in> set (take i es). \<not> (lh_key (the (hs e)) = key \<and> lh_hash (the (hs e)) = hash)"
    "i < length es \<longrightarrow> lh_key (the (hs (es ! i))) = key \<and> lh_hash (the (hs (es ! i))) = hash"
    by auto
  show ?case
  proof (cases "lh_key h = key \<and> lh_hash h = hash")
    case True
    then show ?thesis using h by (intro exI [of _ 0]) simp
  next
    case False
    then show ?thesis using h i by (intro exI [of _ "Suc i"]) auto
  qed
qed simp

lemma concat_member: "e \<in> set (concat xs) \<Longrightarrow> \<exists>b < length xs. e \<in> set (xs ! b)"
  by (metis UN_E in_set_conv_nth set_concat)

lemma member_concat: "b < length xs \<Longrightarrow> e \<in> set (xs ! b) \<Longrightarrow> e \<in> set (concat xs)"
  using nth_mem by fastforce

lemma FindPointer_spec:
  assumes t: "table_of hs t S"
  obtains b i where "FindPointer hs t key hash = Some (b, i)" "b < length (ht_list t)" "i \<le> length (ht_list t ! b)"
    "b = ht_bucket (length (ht_list t)) hash" "entry_of hs S key hash (slot_entry t (b, i))"
proof -
  let ?b = "ht_bucket (length (ht_list t)) hash"
  have b: "?b < length (ht_list t)" using t ht_bucket_less by (auto simp: table_of_def)
  then have "\<forall>e \<in> set (ht_list t ! ?b). e \<in> S" using t member_concat [OF b] by (auto simp: table_of_def)
  then have "\<forall>e \<in> set (ht_list t ! ?b). hs e \<noteq> None" using t by (auto simp: table_of_def)
  then obtain i where i: "i \<le> length (ht_list t ! ?b)" "find_slot hs key hash (ht_list t ! ?b) = Some i"
    "\<forall>e \<in> set (take i (ht_list t ! ?b)). \<not> (lh_key (the (hs e)) = key \<and> lh_hash (the (hs e)) = hash)"
    "i < length (ht_list t ! ?b) \<longrightarrow> lh_key (the (hs (ht_list t ! ?b ! i))) = key \<and> lh_hash (the (hs (ht_list t ! ?b ! i))) = hash"
    using find_slot_spec by blast
  have "entry_of hs S key hash (slot_entry t (?b, i))"
  proof (cases "i < length (ht_list t ! ?b)")
    case True
    then show ?thesis using i(4) \<open>\<forall>e \<in> set (ht_list t ! ?b). e \<in> S\<close> nth_mem [OF True] by (auto simp: entry_of_def slot_entry_def)
  next
    case False
    have "\<not> (lh_key (the (hs e)) = key \<and> lh_hash (the (hs e)) = hash)" if e: "e \<in> S" for e
    proof
      assume k: "lh_key (the (hs e)) = key \<and> lh_hash (the (hs e)) = hash"
      obtain b' where "b' < length (ht_list t)" "e \<in> set (ht_list t ! b')"
        using e t concat_member [of e "ht_list t"] by (auto simp: table_of_def)
      then have "e \<in> set (ht_list t ! ?b)" using t k by (auto simp: table_of_def)
      then show False using i(1,3) False k by auto
    qed
    then show ?thesis using False by (simp add: entry_of_def slot_entry_def)
  qed
  then show ?thesis using that [of ?b i] i b by (simp add: FindPointer_def Let_def)
qed

lemma Lookup_spec:
  assumes "table_of hs t S"
  shows "\<exists>r. HandleTable_Lookup hs t key hash = Some r \<and> entry_of hs S key hash r"
  by (rule FindPointer_spec [OF assms, of key hash]) (auto simp: HandleTable_Lookup_def)

subsection \<open>Insertion and removal\<close>

text \<open>One chain of a table apart from the others.\<close>

lemma concat_at:
  assumes "b < length xs"
  shows "concat xs = concat (take b xs) @ xs ! b @ concat (drop (Suc b) xs)"
    "concat (xs[b := ys]) = concat (take b xs) @ ys @ concat (drop (Suc b) xs)"
proof -
  show "concat xs = concat (take b xs) @ xs ! b @ concat (drop (Suc b) xs)"
    using assms by (metis concat.simps(2) concat_append id_take_nth_drop)
  show "concat (xs[b := ys]) = concat (take b xs) @ ys @ concat (drop (Suc b) xs)"
    using assms by (simp add: upd_conv_take_nth_drop)
qed

lemma concat_split_at:
  assumes "b < length xs" "i < length (xs ! b)"
  obtains P Q where "concat xs = P @ xs ! b ! i # Q" "\<And>e. concat (xs[b := (xs ! b)[i := e]]) = P @ e # Q"
    "concat (xs[b := take i (xs ! b) @ drop (Suc i) (xs ! b)]) = P @ Q"
proof -
  let ?P = "concat (take b xs) @ take i (xs ! b)" and ?Q = "drop (Suc i) (xs ! b) @ concat (drop (Suc b) xs)"
  have "xs ! b = take i (xs ! b) @ xs ! b ! i # drop (Suc i) (xs ! b)" by (rule id_take_nth_drop [OF assms(2)])
  from arg_cong [OF this, of "\<lambda>z. concat (take b xs) @ z @ concat (drop (Suc b) xs)"]
  have "concat xs = ?P @ xs ! b ! i # ?Q" unfolding concat_at(1) [OF assms(1)] by simp
  then show ?thesis
    using that [of ?P ?Q] assms(2) by (simp add: concat_at(2) [OF assms(1)] upd_conv_take_nth_drop)
qed

definition bucketed :: "handles \<Rightarrow> nat list list \<Rightarrow> bool" where
  "bucketed hs xs \<longleftrightarrow> (\<forall>b < length xs. \<forall>e \<in> set (xs ! b). ht_bucket (length xs) (lh_hash (the (hs e))) = b)"

lemma bucketed_update:
  assumes "bucketed hs xs" "\<And>e. e \<in> set ys \<Longrightarrow> e \<in> set (xs ! b) \<or> ht_bucket (length xs) (lh_hash (the (hs e))) = b"
  shows "bucketed hs (xs[b := ys])"
  using assms by (cases "b < length xs") (auto simp: bucketed_def nth_list_update)

lemma grow_length_spec:
  assumes "elems \<le> 2 ^ 31" "new_length = 2 ^ m" "2 \<le> m" "m \<le> 31"
  shows "\<exists>m. 2 \<le> m \<and> m \<le> 31 \<and> grow_length elems new_length = 2 ^ m"
  using assms
proof (induction elems new_length arbitrary: m rule: grow_length.induct)
  case (1 elems new_length)
  show ?case
  proof (cases "new_length < elems")
    case True
    then have "(2 :: nat) ^ m < 2 ^ 31" using 1(2,3) by simp
    then have "m < 31" by (simp only: power_strict_increasing_iff)
    then have "\<exists>m. 2 \<le> m \<and> m \<le> 31 \<and> grow_length elems (new_length * 2) = 2 ^ m"
      using 1(2-4) True by (intro 1(1) [of "Suc m"]) simp_all
    then show ?thesis using True 1(3) by (subst grow_length.simps) simp
  next
    case False
    then show ?thesis using 1(3-5) by (subst grow_length.simps) auto
  qed
qed

lemma rehash_spec:
  assumes "\<forall>e \<in> set es. hs e \<noteq> None" "distinct (es @ concat xs)" "length xs = 2 ^ m" "m \<le> 31" "bucketed hs xs"
  shows "\<exists>ys. rehash hs es xs = Some ys \<and> length ys = length xs \<and> distinct (concat ys) \<and>
    set (concat ys) = set es \<union> set (concat xs) \<and> length (concat ys) = length es + length (concat xs) \<and> bucketed hs ys"
  using assms
proof (induction es arbitrary: xs)
  case (Cons e es)
  obtain h where h: "hs e = Some h" using Cons.prems(1) by auto
  let ?b = "ht_bucket (length xs) (lh_hash h)"
  let ?xs = "xs[?b := e # xs ! ?b]"
  have b: "?b < length xs" using ht_bucket_less Cons.prems(3,4) by simp
  note c = concat_at [OF b]
  have "distinct (es @ concat ?xs)" using Cons.prems(2) unfolding c(1) c(2) by auto
  moreover have "bucketed hs ?xs" by (rule bucketed_update [OF Cons.prems(5)]) (auto simp: h)
  ultimately obtain ys where ys: "rehash hs es ?xs = Some ys" "length ys = length xs" "distinct (concat ys)"
    "set (concat ys) = set es \<union> set (concat ?xs)" "length (concat ys) = length es + length (concat ?xs)" "bucketed hs ys"
    using Cons.IH [of ?xs] Cons.prems(1,3,4) by auto
  have "set (concat ?xs) = insert e (set (concat xs))" "length (concat ?xs) = Suc (length (concat xs))"
    unfolding c(2) by (simp_all add: c(1))
  then show ?case using ys h by (simp add: Let_def)
qed simp

lemma Resize_spec:
  assumes "\<forall>e \<in> set (concat (ht_list t)). hs e \<noteq> None" "distinct (concat (ht_list t))" "ht_elems t \<le> 2 ^ 31"
    "ht_elems t = length (concat (ht_list t))"
  shows "\<exists>t'. HandleTable_Resize hs t = Some t' \<and> (\<exists>m. 2 \<le> m \<and> m \<le> 31 \<and> length (ht_list t') = 2 ^ m) \<and>
    distinct (concat (ht_list t')) \<and> set (concat (ht_list t')) = set (concat (ht_list t)) \<and>
    length (concat (ht_list t')) = length (concat (ht_list t)) \<and> ht_elems t' = ht_elems t \<and> bucketed hs (ht_list t')"
proof -
  obtain m where m: "2 \<le> m" "m \<le> 31" "grow_length (ht_elems t) 4 = 2 ^ m"
    using grow_length_spec [OF assms(3), of 4 2] by auto
  have "concat (replicate n []) = ([] :: nat list)" for n by (induction n) auto
  moreover have "bucketed hs (replicate (2 ^ m) [])" by (simp add: bucketed_def)
  ultimately obtain ys where "rehash hs (concat (ht_list t)) (replicate (2 ^ m) []) = Some ys" "length ys = 2 ^ m"
    "distinct (concat ys)" "set (concat ys) = set (concat (ht_list t))" "length (concat ys) = length (concat (ht_list t))" "bucketed hs ys"
    using rehash_spec [OF assms(1), of "replicate (2 ^ m) []" m] assms(2) m by auto
  then show ?thesis using m assms(4) by (auto simp: HandleTable_Resize_def Let_def)
qed

lemma table_of_bucketed: "table_of hs t S \<longleftrightarrow>
     (\<exists>m. 2 \<le> m \<and> m \<le> 31 \<and> length (ht_list t) = 2 ^ m) \<and>
     distinct (concat (ht_list t)) \<and> set (concat (ht_list t)) = S \<and> ht_elems t = length (concat (ht_list t)) \<and>
     (\<forall>e \<in> S. hs e \<noteq> None) \<and> bucketed hs (ht_list t) \<and>
     (\<forall>e \<in> S. \<forall>e' \<in> S. lh_key (the (hs e)) = lh_key (the (hs e')) \<and> lh_hash (the (hs e)) = lh_hash (the (hs e')) \<longrightarrow> e = e')"
  by (simp add: table_of_def bucketed_def)

lemma HandleTable_new_spec: "\<exists>t. HandleTable_new = Some t \<and> table_of hs t {}"
proof -
  obtain t where t: "HandleTable_new = Some t" "\<exists>m. 2 \<le> m \<and> m \<le> 31 \<and> length (ht_list t) = 2 ^ m"
      "set (concat (ht_list t)) = {}" "ht_elems t = 0"
    unfolding HandleTable_new_def using Resize_spec [of "\<lparr>ht_elems = 0, ht_list = []\<rparr>" "\<lambda>_. None"] by auto
  then have em: "concat (ht_list t) = []" by (metis set_empty)
  moreover from this have "ht_list t ! b = []" if "b < length (ht_list t)" for b using nth_mem [OF that] by simp
  then have "bucketed hs (ht_list t)" by (simp add: bucketed_def)
  ultimately have "table_of hs t {}" unfolding table_of_bucketed em using t(2,4) by simp
  then show ?thesis using t(1) by blast
qed

lemma Insert_spec:
  assumes t: "table_of hs t S" and e: "hs e = Some h" "e \<notin> S" and few: "card S < 2 ^ 31"
  shows "\<exists>r t'. HandleTable_Insert hs e t = Some (r, t') \<and> entry_of hs S (lh_key h) (lh_hash h) r \<and>
    table_of hs t' (insert e (S - set_option r))"
proof -
  obtain b i where p: "FindPointer hs t (lh_key h) (lh_hash h) = Some (b, i)" "b < length (ht_list t)" "i \<le> length (ht_list t ! b)"
      "b = ht_bucket (length (ht_list t)) (lh_hash h)" "entry_of hs S (lh_key h) (lh_hash h) (slot_entry t (b, i))"
    by (rule FindPointer_spec [OF t])
  note tb = t [unfolded table_of_bucketed]
  note c = concat_at [OF p(2)]
  have fin: "finite S" using tb by auto
  show ?thesis
  proof (cases "slot_entry t (b, i)")
    case (Some old)
    then have i: "i < length (ht_list t ! b)" "ht_list t ! b ! i = old" by (auto simp: slot_entry_def split: if_splits)
    let ?ys = "(ht_list t ! b)[i := e]"
    let ?t = "t\<lparr>ht_list := (ht_list t)[b := ?ys]\<rparr>"
    have d: "distinct (concat (ht_list t))" "set (concat (ht_list t)) = S" using tb by auto
    obtain P Q where PQ: "concat (ht_list t) = P @ old # Q" "concat (ht_list ?t) = P @ e # Q"
    proof (rule concat_split_at [OF p(2) i(1)])
      fix P Q assume "concat (ht_list t) = P @ ht_list t ! b ! i # Q" "\<And>e. concat ((ht_list t)[b := (ht_list t ! b)[i := e]]) = P @ e # Q"
      then show thesis using that [of P Q] i(2) by simp
    qed
    have S: "S = insert old (set P \<union> set Q)" "old \<notin> set P \<union> set Q" "distinct (P @ Q)" using d unfolding PQ by auto
    have "distinct (concat (ht_list ?t))" "set (concat (ht_list ?t)) = insert e (S - {old})"
      unfolding PQ(2) using S e(2) by auto
    moreover have "length (concat (ht_list ?t)) = length (concat (ht_list t))" unfolding PQ by simp
    moreover have "bucketed hs (ht_list ?t)"
      using tb e(1) p(4) by (auto intro!: bucketed_update dest: subsetD [OF set_update_subset_insert])
    moreover have u: "lh_key (the (hs x)) \<noteq> lh_key h \<or> lh_hash (the (hs x)) \<noteq> lh_hash h" if "x \<in> S" "x \<noteq> old" for x
      using tb p(5) Some that by (auto simp: entry_of_def)
    moreover have "x = y" if "x \<in> insert e (S - {old})" "y \<in> insert e (S - {old})"
      "lh_key (the (hs x)) = lh_key (the (hs y)) \<and> lh_hash (the (hs x)) = lh_hash (the (hs y))" for x y
    proof -
      have "\<forall>e \<in> S. \<forall>e' \<in> S. lh_key (the (hs e)) = lh_key (the (hs e')) \<and> lh_hash (the (hs e)) = lh_hash (the (hs e')) \<longrightarrow> e = e'"
        using tb by blast
      then show ?thesis using that u [of x] u [of y] e(1) by (cases "x = e"; cases "y = e") auto
    qed
    moreover have "ht_elems ?t = ht_elems t" "length (ht_list ?t) = length (ht_list t)" by simp_all
    moreover have "\<forall>x \<in> insert e (S - {old}). hs x \<noteq> None" using tb e(1) by auto
    ultimately have "table_of hs ?t (insert e (S - {old}))"
      using tb unfolding table_of_bucketed by metis
    then show ?thesis using p Some e(1) by (simp add: HandleTable_Insert_def)
  next
    case None
    then have i: "i = length (ht_list t ! b)" using p(3) by (auto simp: slot_entry_def split: if_splits)
    let ?t = "t\<lparr>ht_list := (ht_list t)[b := ht_list t ! b @ [e]], ht_elems := ht_elems t + 1\<rparr>"
    have d: "distinct (concat (ht_list t))" "set (concat (ht_list t)) = S" using tb by auto
    have cn: "concat (ht_list ?t) = concat (take b (ht_list t)) @ (ht_list t ! b @ [e]) @ concat (drop (Suc b) (ht_list t))"
      using c(2) by simp
    have 1: "distinct (concat (ht_list ?t))" "set (concat (ht_list ?t)) = insert e S" "length (concat (ht_list ?t)) = Suc (length (concat (ht_list t)))"
      using d e(2) unfolding cn by (auto simp: c(1))
    have 2: "bucketed hs (ht_list ?t)" using tb e(1) p(4) by (auto intro!: bucketed_update)
    have 3: "\<forall>x \<in> insert e S. hs x \<noteq> None" using tb e(1) by auto
    have 4: "\<forall>x \<in> insert e S. \<forall>y \<in> insert e S. lh_key (the (hs x)) = lh_key (the (hs y)) \<and> lh_hash (the (hs x)) = lh_hash (the (hs y)) \<longrightarrow> x = y"
      using tb p(5) None e(1) by (auto simp: entry_of_def)
    have el: "ht_elems ?t = Suc (card S)" using tb distinct_card [OF d(1)] by auto
    have a1: "\<forall>x \<in> set (concat (ht_list ?t)). hs x \<noteq> None" unfolding 1(2) by (rule 3)
    have le: "ht_elems ?t \<le> 2 ^ 31" using el few by simp
    have cnt: "ht_elems ?t = length (concat (ht_list ?t))" using 1(3) tb by simp
    show ?thesis
    proof (cases "length (ht_list ?t) < ht_elems ?t")
      case True
      obtain t' where "HandleTable_Resize hs ?t = Some t'" "\<exists>m. 2 \<le> m \<and> m \<le> 31 \<and> length (ht_list t') = 2 ^ m"
        "distinct (concat (ht_list t'))" "set (concat (ht_list t')) = insert e S"
        "length (concat (ht_list t')) = length (concat (ht_list ?t))" "ht_elems t' = ht_elems ?t" "bucketed hs (ht_list t')"
        using Resize_spec [OF a1 1(1) le cnt] unfolding 1(2) by blast
      note r = this
      have "table_of hs t' (insert e S)"
        unfolding table_of_bucketed using r 1(3) 3 4 tb by simp
      then show ?thesis using True p None e(1) r(1) by (simp add: HandleTable_Insert_def Let_def)
    next
      case False
      have "table_of hs ?t (insert e S)"
        unfolding table_of_bucketed using 1 2 3 4 tb by simp
      then show ?thesis using False p None e(1) by (simp add: HandleTable_Insert_def Let_def)
    qed
  qed
qed

lemma Remove_spec:
  assumes t: "table_of hs t S"
  shows "\<exists>r t'. HandleTable_Remove hs key hash t = Some (r, t') \<and> entry_of hs S key hash r \<and> table_of hs t' (S - set_option r)"
proof -
  obtain b i where p: "FindPointer hs t key hash = Some (b, i)" "b < length (ht_list t)" "i \<le> length (ht_list t ! b)"
      "b = ht_bucket (length (ht_list t)) hash" "entry_of hs S key hash (slot_entry t (b, i))"
    by (rule FindPointer_spec [OF t])
  note tb = t [unfolded table_of_bucketed]
  note c = concat_at [OF p(2)]
  show ?thesis
  proof (cases "slot_entry t (b, i)")
    case (Some old)
    then have i: "i < length (ht_list t ! b)" "ht_list t ! b ! i = old" by (auto simp: slot_entry_def split: if_splits)
    let ?ys = "take i (ht_list t ! b) @ drop (Suc i) (ht_list t ! b)"
    let ?t = "t\<lparr>ht_list := (ht_list t)[b := ?ys], ht_elems := ht_elems t - 1\<rparr>"
    obtain P Q where PQ: "concat (ht_list t) = P @ old # Q" "concat (ht_list ?t) = P @ Q"
    proof (rule concat_split_at [OF p(2) i(1)])
      fix P Q assume "concat (ht_list t) = P @ ht_list t ! b ! i # Q" "concat ((ht_list t)[b := ?ys]) = P @ Q"
      then show thesis using that [of P Q] i(2) by simp
    qed
    have S: "S = insert old (set P \<union> set Q)" "old \<notin> set P \<union> set Q" "distinct (P @ Q)" using tb unfolding PQ by auto
    have "distinct (concat (ht_list ?t))" "set (concat (ht_list ?t)) = S - {old}" unfolding PQ(2) using S by auto
    moreover have "ht_elems ?t = length (concat (ht_list ?t))" using tb unfolding PQ by simp
    moreover have "bucketed hs (ht_list ?t)"
      using tb by (auto intro!: bucketed_update dest: in_set_takeD in_set_dropD)
    ultimately have "table_of hs ?t (S - {old})" using tb unfolding table_of_bucketed by auto
    then show ?thesis using p Some by (simp add: HandleTable_Remove_def Let_def)
  next
    case None
    then show ?thesis using p t by (simp add: HandleTable_Remove_def)
  qed
qed

end
