(* ===== verification/Ldb_Cache.thy ===== *)
theory Ldb_Cache
  imports Ldb_Handle_Table "HOL-Library.Multiset"
begin

text \<open>
  The cache of leveldb, util/cache.cc: one shard. Its entries live on a heap and are counted by
  reference; those in the cache are on the hash table and on one of two circular doubly linked lists,
  whose heads are the addresses 0 (\<open>lru_\<close>) and 1 (\<open>in_use_\<close>); the address 2 is the null pointer. Every
  method holds the mutex, so that it is one step. Addresses are never used again, so that a use after free
  is seen: touching a freed entry makes the result \<open>None\<close>, and so does an assertion that does not hold.
\<close>

subsection \<open>The cache\<close>

record lru_cache =
  lc_capacity :: u64
  lc_usage :: u64
  lc_nxt :: "nat \<Rightarrow> nat"
  lc_prv :: "nat \<Rightarrow> nat"
  lc_handles :: handles
  lc_table :: handle_table
  lc_fresh :: nat
  lc_deleted :: "(nat \<times> u8 list \<times> nat) list" \<comment> \<open>the calls of deleters, each with its key and value\<close>

definition LRUCache_new :: "lru_cache option" where
  "LRUCache_new =
     (case HandleTable_new of
        None \<Rightarrow> None
      | Some t \<Rightarrow>
          Some \<lparr>lc_capacity = 0, lc_usage = 0, lc_nxt = (\<lambda>a. a), lc_prv = (\<lambda>a. a), lc_handles = (\<lambda>_. None),
                lc_table = t, lc_fresh = 3, lc_deleted = []\<rparr>)"

definition SetCapacity :: "u64 \<Rightarrow> lru_cache \<Rightarrow> lru_cache" where
  "SetCapacity capacity c = c\<lparr>lc_capacity := capacity\<rparr>"

definition lc_live :: "lru_cache \<Rightarrow> nat \<Rightarrow> bool" where
  "lc_live c a \<longleftrightarrow> a < 2 \<or> lc_handles c a \<noteq> None"

definition LRU_Remove :: "nat \<Rightarrow> lru_cache \<Rightarrow> lru_cache option" where
  "LRU_Remove e c =
     (if lc_live c e \<and> lc_live c (lc_nxt c e) \<and> lc_live c (lc_prv c e) then
        let c = c\<lparr>lc_prv := (lc_prv c)(lc_nxt c e := lc_prv c e)\<rparr>
        in Some (c\<lparr>lc_nxt := (lc_nxt c)(lc_prv c e := lc_nxt c e)\<rparr>)
      else None)"

definition LRU_Append :: "nat \<Rightarrow> nat \<Rightarrow> lru_cache \<Rightarrow> lru_cache option" where
  "LRU_Append head e c =
     (if lc_live c e \<and> lc_live c head \<and> lc_live c (lc_prv c head) then
        let c = c\<lparr>lc_nxt := (lc_nxt c)(e := head)\<rparr>;
            c = c\<lparr>lc_prv := (lc_prv c)(e := lc_prv c head)\<rparr>;
            c = c\<lparr>lc_nxt := (lc_nxt c)(lc_prv c e := e)\<rparr>
        in Some (c\<lparr>lc_prv := (lc_prv c)(lc_nxt c e := e)\<rparr>)
      else None)"

definition lc_Ref :: "nat \<Rightarrow> lru_cache \<Rightarrow> lru_cache option" where
  "lc_Ref e c =
     (case lc_handles c e of
        None \<Rightarrow> None
      | Some h \<Rightarrow>
          (case (if lh_refs h = 1 \<and> lh_in_cache h then Option.bind (LRU_Remove e c) (LRU_Append 1 e) else Some c) of
             None \<Rightarrow> None
           | Some c \<Rightarrow> Some (c\<lparr>lc_handles := (lc_handles c)(e \<mapsto> h\<lparr>lh_refs := lh_refs h + 1\<rparr>)\<rparr>)))"

definition lc_Unref :: "nat \<Rightarrow> lru_cache \<Rightarrow> lru_cache option" where
  "lc_Unref e c =
     (case lc_handles c e of
        None \<Rightarrow> None
      | Some h \<Rightarrow>
          if lh_refs h = 0 then None else
          let h = h\<lparr>lh_refs := lh_refs h - 1\<rparr>;
              c = c\<lparr>lc_handles := (lc_handles c)(e \<mapsto> h)\<rparr>
          in if lh_refs h = 0 then
               if lh_in_cache h then None else
               Some (c\<lparr>lc_deleted := lc_deleted c @ [(lh_deleter h, lh_key h, lh_value h)], lc_handles := (lc_handles c)(e := None)\<rparr>)
             else if lh_in_cache h \<and> lh_refs h = 1 then Option.bind (LRU_Remove e c) (LRU_Append 0 e)
             else Some c)"

definition FinishErase :: "nat option \<Rightarrow> lru_cache \<Rightarrow> (bool \<times> lru_cache) option" where
  "FinishErase e c =
     (case e of
        None \<Rightarrow> Some (False, c)
      | Some e \<Rightarrow>
          (case lc_handles c e of
             None \<Rightarrow> None
           | Some h \<Rightarrow>
               if \<not> lh_in_cache h then None else
               (case LRU_Remove e c of
                  None \<Rightarrow> None
                | Some c \<Rightarrow>
                    let c = c\<lparr>lc_handles := (lc_handles c)(e \<mapsto> h\<lparr>lh_in_cache := False\<rparr>), lc_usage := lc_usage c - lh_charge h\<rparr>
                    in map_option (Pair True) (lc_Unref e c))))"

definition LRUCache_Lookup :: "u8 list \<Rightarrow> u32 \<Rightarrow> lru_cache \<Rightarrow> (nat option \<times> lru_cache) option" where
  "LRUCache_Lookup key hash c =
     (case HandleTable_Lookup (lc_handles c) (lc_table c) key hash of
        None \<Rightarrow> None
      | Some None \<Rightarrow> Some (None, c)
      | Some (Some e) \<Rightarrow> map_option (Pair (Some e)) (lc_Ref e c))"

definition LRUCache_Release :: "nat \<Rightarrow> lru_cache \<Rightarrow> lru_cache option" where
  "LRUCache_Release handle c = lc_Unref handle c"

text \<open>The entry at the front of the LRU list is removed from the table and from the cache.\<close>

definition erase_oldest :: "lru_cache \<Rightarrow> lru_cache option" where
  "erase_oldest c =
     (case lc_handles c (lc_nxt c 0) of
        None \<Rightarrow> None
      | Some old \<Rightarrow>
          if lh_refs old \<noteq> 1 then None else
          (case HandleTable_Remove (lc_handles c) (lh_key old) (lh_hash old) (lc_table c) of
             None \<Rightarrow> None
           | Some (r, t) \<Rightarrow>
               (case FinishErase r (c\<lparr>lc_table := t\<rparr>) of
                  None \<Rightarrow> None
                | Some (erased, c) \<Rightarrow> if erased then Some c else None)))"

partial_function (option) evict :: "lru_cache \<Rightarrow> lru_cache option" where
  "evict c = (if lc_capacity c < lc_usage c \<and> lc_nxt c 0 \<noteq> 0 then Option.bind (erase_oldest c) (\<lambda>c. evict c) else Some c)"

definition LRUCache_Insert :: "u8 list \<Rightarrow> u32 \<Rightarrow> nat \<Rightarrow> u64 \<Rightarrow> nat \<Rightarrow> lru_cache \<Rightarrow> (nat \<times> lru_cache) option" where
  "LRUCache_Insert key hash val charge deleter c =
     (let e = lc_fresh c;
          h = \<lparr>lh_value = val, lh_deleter = deleter, lh_charge = charge, lh_in_cache = False, lh_refs = 1, lh_hash = hash, lh_key = key\<rparr>;
          c = c\<lparr>lc_fresh := e + 1, lc_handles := (lc_handles c)(e \<mapsto> h)\<rparr>
      in case
          (if 0 < lc_capacity c then
             let h = h\<lparr>lh_refs := lh_refs h + 1, lh_in_cache := True\<rparr>;
                 c = c\<lparr>lc_handles := (lc_handles c)(e \<mapsto> h)\<rparr>
             in case LRU_Append 1 e c of
                  None \<Rightarrow> None
                | Some c \<Rightarrow>
                    let c = c\<lparr>lc_usage := lc_usage c + charge\<rparr>
                    in (case HandleTable_Insert (lc_handles c) e (lc_table c) of
                          None \<Rightarrow> None
                        | Some (old, t) \<Rightarrow> map_option snd (FinishErase old (c\<lparr>lc_table := t\<rparr>)))
           else Some (c\<lparr>lc_nxt := (lc_nxt c)(e := 2)\<rparr>))
         of None \<Rightarrow> None | Some c \<Rightarrow> map_option (Pair e) (evict c))"

definition LRUCache_Erase :: "u8 list \<Rightarrow> u32 \<Rightarrow> lru_cache \<Rightarrow> lru_cache option" where
  "LRUCache_Erase key hash c =
     (case HandleTable_Remove (lc_handles c) key hash (lc_table c) of
        None \<Rightarrow> None
      | Some (r, t) \<Rightarrow> map_option snd (FinishErase r (c\<lparr>lc_table := t\<rparr>)))"

partial_function (option) LRUCache_Prune :: "lru_cache \<Rightarrow> lru_cache option" where
  "LRUCache_Prune c = (if lc_nxt c 0 \<noteq> 0 then Option.bind (erase_oldest c) (\<lambda>c. LRUCache_Prune c) else Some c)"

text \<open>The destructor: the loop from \<open>e\<close> on.\<close>

partial_function (option) destroy_from :: "nat \<Rightarrow> lru_cache \<Rightarrow> lru_cache option" where
  "destroy_from e c =
     (if e \<noteq> 0 then
        (case lc_handles c e of
           None \<Rightarrow> None
         | Some h \<Rightarrow>
             let next = lc_nxt c e in
             if \<not> lh_in_cache h \<or> lh_refs h \<noteq> 1 then None else
             let c = c\<lparr>lc_handles := (lc_handles c)(e \<mapsto> h\<lparr>lh_in_cache := False\<rparr>)\<rparr>
             in Option.bind (lc_Unref e c) (\<lambda>c. destroy_from next c))
      else Some c)"

definition LRUCache_destroy :: "lru_cache \<Rightarrow> lru_cache option" where
  "LRUCache_destroy c = (if lc_nxt c 1 \<noteq> 1 then None else destroy_from (lc_nxt c 0) c)"

subsection \<open>Circular lists\<close>

text \<open>Consecutive addresses are linked both ways; a ring goes from its head through its entries and back.\<close>

fun links :: "(nat \<Rightarrow> nat) \<Rightarrow> (nat \<Rightarrow> nat) \<Rightarrow> nat list \<Rightarrow> bool" where
  "links n p (a # b # r) \<longleftrightarrow> n a = b \<and> p b = a \<and> links n p (b # r)"
| "links n p _ \<longleftrightarrow> True"

definition ring :: "(nat \<Rightarrow> nat) \<Rightarrow> (nat \<Rightarrow> nat) \<Rightarrow> nat \<Rightarrow> nat list \<Rightarrow> bool" where
  "ring n p a xs \<longleftrightarrow> distinct (a # xs) \<and> links n p (a # xs @ [a])"

lemma links_append:
  "as \<noteq> [] \<Longrightarrow> bs \<noteq> [] \<Longrightarrow>
    links n p (as @ bs) \<longleftrightarrow> links n p as \<and> n (last as) = hd bs \<and> p (hd bs) = last as \<and> links n p bs"
proof (induction as rule: induct_list012)
  case (2 a)
  then show ?case by (cases bs) auto
qed auto

lemma links_frame:
  "(\<And>b. b \<in> set (butlast xs) \<Longrightarrow> n' b = n b) \<Longrightarrow> (\<And>b. b \<in> set (tl xs) \<Longrightarrow> p' b = p b) \<Longrightarrow> links n' p' xs = links n p xs"
  by (induction xs rule: induct_list012) auto

lemma ring_frame:
  assumes "\<And>b. b \<in> set (a # xs) \<Longrightarrow> n' b = n b" "\<And>b. b \<in> set (a # xs) \<Longrightarrow> p' b = p b"
  shows "ring n' p' a xs = ring n p a xs"
proof -
  have "links n' p' (a # xs @ [a]) = links n p (a # xs @ [a])"
    using assms by (intro links_frame) (auto dest: in_set_butlastD)
  then show ?thesis by (simp add: ring_def)
qed

lemma ring_next: "ring n p a xs \<Longrightarrow> n a = hd (xs @ [a])" "ring n p a xs \<Longrightarrow> p a = last (a # xs)"
proof -
  assume r: "ring n p a xs"
  show "n a = hd (xs @ [a])" using r by (cases xs) (auto simp: ring_def)
  have "links n p ((a # xs) @ [a])" using r by (simp add: ring_def)
  then show "p a = last (a # xs)" by (subst (asm) links_append) auto
qed

lemma last_once: "distinct (a # us) \<Longrightarrow> last (a # us) \<notin> set (butlast (a # us))"
proof -
  assume "distinct (a # us)"
  then have "distinct (butlast (a # us) @ [last (a # us)])" by (subst append_butlast_last_id) auto
  then show ?thesis by simp
qed

lemma ring_remove:
  assumes r: "ring n p a xs" and x: "x \<in> set xs"
  shows "ring (n(p x := n x)) (p(n x := p x)) a (removeAll x xs)" "n x \<in> set (a # xs)" "p x \<in> set (a # xs)" "n x \<noteq> x" "p x \<noteq> x"
proof -
  obtain us vs where xs: "xs = us @ x # vs" using split_list [OF x] by blast
  define l where "l = last (a # us)"
  define h where "h = hd (vs @ [a])"
  have d: "distinct (a # us @ x # vs)" using r xs by (simp add: ring_def)
  have "links n p ((a # us) @ (x # vs @ [a]))" using r xs by (simp add: ring_def)
  then have "links n p (a # us) \<and> n l = x \<and> p x = l \<and> links n p (x # vs @ [a])"
    unfolding l_def by (subst (asm) links_append) auto
  then have L: "links n p (a # us)" "p x = l" "links n p ([x] @ (vs @ [a]))" by auto
  have "n x = h \<and> links n p (vs @ [a])" using L(3) unfolding h_def by (subst (asm) links_append) auto
  then have R: "n x = h" "links n p (vs @ [a])" by auto
  have l: "l \<in> set (a # us)" unfolding l_def by (rule last_in_set) simp
  have h: "h \<in> set (vs @ [a])" unfolding h_def by (rule hd_in_set) simp
  show "n x \<in> set (a # xs)" using h R(1) xs by auto
  show "p x \<in> set (a # xs)" using l L(2) xs by auto
  show "n x \<noteq> x" using h R(1) d by auto
  show "p x \<noteq> x" using l L(2) d by auto
  have rm: "removeAll x xs = us @ vs" using d xs by (simp add: removeAll_id)
  have "l \<notin> set (butlast (a # us))" unfolding l_def using d by (intro last_once) simp
  moreover have "h \<notin> set us" using h d by auto
  ultimately have "links (n(l := h)) (p(h := l)) (a # us) = links n p (a # us)" by (intro links_frame) auto
  then have 1: "links (n(l := h)) (p(h := l)) (a # us)" using L(1) by simp
  have "b \<noteq> l" if "b \<in> set (butlast (vs @ [a]))" for b using that l d by auto
  moreover have "b \<noteq> h" if "b \<in> set (tl (vs @ [a]))" for b using that d unfolding h_def by (cases vs) auto
  ultimately have "links (n(l := h)) (p(h := l)) (vs @ [a]) = links n p (vs @ [a])" by (intro links_frame) auto
  then have "links (n(l := h)) (p(h := l)) ((a # us) @ (vs @ [a]))"
    using 1 R(2) by (subst links_append) (auto simp: l_def [symmetric] h_def [symmetric] simp del: last.simps)
  then show "ring (n(p x := n x)) (p(n x := p x)) a (removeAll x xs)"
    unfolding L(2) R(1) rm using d by (simp add: ring_def)
qed

lemma ring_append:
  assumes r: "ring n p a xs" and e: "e \<notin> set (a # xs)"
  shows "ring (n(e := a, p a := e)) (p(e := p a, a := e)) a (xs @ [e])"
proof -
  define l where "l = last (a # xs)"
  have l: "p a = l" unfolding l_def by (rule ring_next(2) [OF r])
  have d: "distinct (a # xs)" using r by (simp add: ring_def)
  have "links n p ((a # xs) @ [a])" using r by (simp add: ring_def)
  then have L: "links n p (a # xs)" by (subst (asm) links_append) auto
  have "l \<in> set (a # xs)" unfolding l_def by (rule last_in_set) simp
  then have le: "l \<noteq> e" using e by auto
  have lb: "l \<notin> set (butlast (a # xs))" unfolding l_def by (rule last_once [OF d])
  have "b \<noteq> e \<and> b \<noteq> l" if "b \<in> set (butlast (a # xs))" for b
    using that lb e in_set_butlastD [OF that] by auto
  then have "links (n(e := a, l := e)) (p(e := l, a := e)) (a # xs) = links n p (a # xs)"
    using d e by (intro links_frame) auto
  then have "links (n(e := a, l := e)) (p(e := l, a := e)) ((a # xs) @ [e, a])"
    using L le e by (subst links_append) (auto simp: l_def [symmetric] simp del: last.simps)
  then show ?thesis unfolding l using d e by (simp add: ring_def)
qed

text \<open>Both rings of a cache, apart from each other.\<close>

definition rings_ok :: "lru_cache \<Rightarrow> nat list \<Rightarrow> nat list \<Rightarrow> bool" where
  "rings_ok c lru inuse \<longleftrightarrow>
     ring (lc_nxt c) (lc_prv c) 0 lru \<and> ring (lc_nxt c) (lc_prv c) 1 inuse \<and> set lru \<inter> set inuse = {} \<and>
     (\<forall>e \<in> set lru \<union> set inuse. 2 \<le> e \<and> lc_handles c e \<noteq> None)"

lemma rings_cong:
  "lc_nxt c' = lc_nxt c \<Longrightarrow> lc_prv c' = lc_prv c \<Longrightarrow> (\<And>e. e \<in> set lru \<union> set inuse \<Longrightarrow> lc_handles c' e \<noteq> None) \<Longrightarrow>
    rings_ok c lru inuse \<Longrightarrow> rings_ok c' lru inuse"
  by (auto simp: rings_ok_def)

lemma Remove_rings:
  assumes ok: "rings_ok c lru inuse" and e: "e \<in> set lru \<union> set inuse"
  shows "\<exists>n p. LRU_Remove e c = Some (c\<lparr>lc_prv := p, lc_nxt := n\<rparr>) \<and>
    rings_ok (c\<lparr>lc_prv := p, lc_nxt := n\<rparr>) (removeAll e lru) (removeAll e inuse)"
proof -
  let ?n = "lc_nxt c" and ?p = "lc_prv c"
  let ?n' = "?n(?p e := ?n e)" and ?p' = "?p(?n e := ?p e)"
  note r = ok [unfolded rings_ok_def]
  have two: "\<And>x. x \<in> set lru \<union> set inuse \<Longrightarrow> 2 \<le> x" and dj: "\<And>x. x \<in> set lru \<Longrightarrow> x \<notin> set inuse" using r by blast+
  note h = two [of 0] two [of "Suc 0"] dj
  have all: "ring ?n' ?p' 0 (removeAll e lru) \<and> ring ?n' ?p' 1 (removeAll e inuse) \<and>
    {?n e, ?p e} \<subseteq> {0, 1} \<union> set lru \<union> set inuse \<and> ?n e \<noteq> e"
  proof (cases "e \<in> set lru")
    case True
    have a: "ring ?n ?p 0 lru" using r by blast
    note m = ring_remove [OF a True]
    have "ring ?n' ?p' 1 inuse = ring ?n ?p 1 inuse" using m(2,3) r h by (intro ring_frame) auto
    moreover have "e \<notin> set inuse" using r True by auto
    ultimately show ?thesis using m r by auto
  next
    case False
    then have i: "e \<in> set inuse" using e by simp
    have a: "ring ?n ?p 1 inuse" using r by blast
    note m = ring_remove [OF a i]
    have "ring ?n' ?p' 0 lru = ring ?n ?p 0 lru" using m(2,3) r h by (intro ring_frame) auto
    then show ?thesis using m r False by auto
  qed
  note R = all [THEN conjunct1] all [THEN conjunct2, THEN conjunct1]
    and S = all [THEN conjunct2, THEN conjunct2, THEN conjunct1] all [THEN conjunct2, THEN conjunct2, THEN conjunct2]
  have "lc_live c a" if "a \<in> {0, 1} \<union> set lru \<union> set inuse" for a using that r by (auto simp: lc_live_def)
  then have L: "lc_live c e \<and> lc_live c (?n e) \<and> lc_live c (?p e)" using S(1) e by blast
  have "?p' e = ?p e" using S(2) by simp
  then have "LRU_Remove e c = Some (c\<lparr>lc_prv := ?p', lc_nxt := ?n'\<rparr>)"
    unfolding LRU_Remove_def Let_def using L by simp
  moreover have "rings_ok (c\<lparr>lc_prv := ?p', lc_nxt := ?n'\<rparr>) (removeAll e lru) (removeAll e inuse)"
    using R r by (auto simp: rings_ok_def)
  ultimately show ?thesis by blast
qed

lemma Append_rings:
  assumes ok: "rings_ok c lru inuse" and e: "e \<notin> set lru \<union> set inuse" "2 \<le> e" "lc_handles c e \<noteq> None" and a: "a < 2"
  shows "\<exists>n p. LRU_Append a e c = Some (c\<lparr>lc_nxt := n, lc_prv := p\<rparr>) \<and>
    rings_ok (c\<lparr>lc_nxt := n, lc_prv := p\<rparr>) (if a = 0 then lru @ [e] else lru) (if a = 0 then inuse else inuse @ [e])"
proof -
  let ?n = "lc_nxt c" and ?p = "lc_prv c"
  let ?n' = "?n(e := a, ?p a := e)" and ?p' = "?p(e := ?p a, a := e)"
  note r = ok [unfolded rings_ok_def]
  have two: "\<And>x. x \<in> set lru \<union> set inuse \<Longrightarrow> 2 \<le> x" and dj: "\<And>x. x \<in> set lru \<Longrightarrow> x \<notin> set inuse" using r by blast+
  note h = two [of 0] two [of "Suc 0"] dj
  have all: "ring ?n' ?p' 0 (if a = 0 then lru @ [e] else lru) \<and> ring ?n' ?p' 1 (if a = 0 then inuse else inuse @ [e]) \<and>
    ?p a \<in> {0, 1} \<union> set lru \<union> set inuse"
  proof (cases "a = 0")
    case True
    have b: "ring ?n ?p 0 lru" using r by blast
    have l: "?p 0 \<in> set (0 # lru)" unfolding ring_next(2) [OF b] by (rule last_in_set) simp
    have "ring (?n(e := 0, ?p 0 := e)) (?p(e := ?p 0, 0 := e)) 0 (lru @ [e])" using e by (intro ring_append b) auto
    moreover have "ring ?n' ?p' 1 inuse = ring ?n ?p 1 inuse" using l e r True h by (intro ring_frame) auto
    ultimately show ?thesis using l r True by auto
  next
    case False
    then have a1: "a = 1" using a by simp
    have b: "ring ?n ?p 1 inuse" using r by blast
    have l: "?p 1 \<in> set (1 # inuse)" unfolding ring_next(2) [OF b] by (rule last_in_set) simp
    have "ring (?n(e := 1, ?p 1 := e)) (?p(e := ?p 1, 1 := e)) 1 (inuse @ [e])" using e by (intro ring_append b) auto
    moreover have "ring ?n' ?p' 0 lru = ring ?n ?p 0 lru" using l e r a1 h by (intro ring_frame) auto
    ultimately show ?thesis using l r a1 by auto
  qed
  note R = all [THEN conjunct1] all [THEN conjunct2, THEN conjunct1] and S = all [THEN conjunct2, THEN conjunct2]
  have "lc_live c b" if "b \<in> {0, 1} \<union> set lru \<union> set inuse" for b using that r by (auto simp: lc_live_def)
  then have "lc_live c e \<and> lc_live c a \<and> lc_live c (?p a)" using S e(3) a by (auto simp: lc_live_def)
  moreover have "?p a \<noteq> e" "a \<noteq> e" using S e(1,2) a by auto
  ultimately have "LRU_Append a e c = Some (c\<lparr>lc_nxt := ?n', lc_prv := ?p'\<rparr>)"
    by (simp add: LRU_Append_def Let_def fun_upd_twist)
  moreover have "rings_ok (c\<lparr>lc_nxt := ?n', lc_prv := ?p'\<rparr>) (if a = 0 then lru @ [e] else lru) (if a = 0 then inuse else inuse @ [e])"
    using R r e by (auto simp: rings_ok_def)
  ultimately show ?thesis by blast
qed

subsection \<open>The invariant\<close>

text \<open>
  What the entries of a cache say, given how many handles its clients hold of each: an entry has one
  reference for every handle and one for the cache when it is in \<open>S\<close>, and one at least.
\<close>

definition refs_ok :: "lru_cache \<Rightarrow> (nat \<Rightarrow> nat) \<Rightarrow> nat set \<Rightarrow> bool" where
  "refs_ok c held S \<longleftrightarrow>
     (\<forall>e. lc_handles c e = None \<longrightarrow> held e = 0) \<and>
     (\<forall>e h. lc_handles c e = Some h \<longrightarrow>
        3 \<le> e \<and> e < lc_fresh c \<and> lh_in_cache h = (e \<in> S) \<and> unat (lh_refs h) = held e + (if e \<in> S then 1 else 0) \<and> lh_refs h \<noteq> 0) \<and>
     lc_usage c = (\<Sum>e \<in> S. lh_charge (the (lc_handles c e)))"

definition cache_base :: "lru_cache \<Rightarrow> (nat \<Rightarrow> nat) \<Rightarrow> nat list \<Rightarrow> nat list \<Rightarrow> nat set \<Rightarrow> bool" where
  "cache_base c held lru inuse T \<longleftrightarrow>
     rings_ok c lru inuse \<and> refs_ok c held (set lru \<union> set inuse) \<and> T \<subseteq> set lru \<union> set inuse \<and>
     table_of (lc_handles c) (lc_table c) T \<and> 3 \<le> lc_fresh c"

text \<open>The entries no client holds are on the LRU list, the others that are in the cache on the in-use list.\<close>

definition cache_ok :: "lru_cache \<Rightarrow> (nat \<Rightarrow> nat) \<Rightarrow> nat list \<Rightarrow> nat list \<Rightarrow> nat set \<Rightarrow> bool" where
  "cache_ok c held lru inuse T \<longleftrightarrow>
     cache_base c held lru inuse T \<and> (\<forall>e \<in> set lru. held e = 0) \<and> (\<forall>e \<in> set inuse. 0 < held e)"

abbreviation cache_inv :: "lru_cache \<Rightarrow> (nat \<Rightarrow> nat) \<Rightarrow> nat list \<Rightarrow> nat list \<Rightarrow> bool" where
  "cache_inv c held lru inuse \<equiv> cache_ok c held lru inuse (set lru \<union> set inuse)"

text \<open>What no operation changes: the contents of an entry, and the pairs of key and value that are on the heap or were deleted.\<close>

definition same_data :: "lru_handle \<Rightarrow> lru_handle \<Rightarrow> bool" where
  "same_data h h' \<longleftrightarrow> lh_value h' = lh_value h \<and> lh_deleter h' = lh_deleter h \<and> lh_charge h' = lh_charge h \<and> lh_hash h' = lh_hash h \<and> lh_key h' = lh_key h"

definition pair_at :: "lru_cache \<Rightarrow> nat \<Rightarrow> nat \<times> u8 list \<times> nat" where
  "pair_at c e = (lh_deleter (the (lc_handles c e)), lh_key (the (lc_handles c e)), lh_value (the (lc_handles c e)))"

definition all_pairs :: "lru_cache \<Rightarrow> (nat \<times> u8 list \<times> nat) multiset" where
  "all_pairs c = mset (lc_deleted c) + image_mset (pair_at c) (mset_set (dom (lc_handles c)))"

definition keeps :: "lru_cache \<Rightarrow> lru_cache \<Rightarrow> bool" where
  "keeps c c' \<longleftrightarrow>
     (\<forall>e h'. lc_handles c' e = Some h' \<longrightarrow> (\<exists>h. lc_handles c e = Some h \<and> same_data h h')) \<and>
     all_pairs c' = all_pairs c \<and> lc_capacity c' = lc_capacity c \<and> lc_fresh c' = lc_fresh c"

lemma keeps_trans: "keeps a b \<Longrightarrow> keeps b c \<Longrightarrow> keeps a c"
  unfolding keeps_def same_data_def by metis

lemma keeps_refl: "keeps c c"
  by (simp add: keeps_def same_data_def)

lemma keepsD: "keeps c c' \<Longrightarrow> lc_handles c' e = Some h' \<Longrightarrow> \<exists>h. lc_handles c e = Some h \<and> same_data h h'"
  by (simp add: keeps_def)

lemma table_cong:
  assumes t: "table_of hs t T" and s: "\<And>e. e \<in> T \<Longrightarrow> \<exists>h h'. hs e = Some h \<and> hs' e = Some h' \<and> same_data h h'"
  shows "table_of hs' t T"
proof -
  have k: "hs' e \<noteq> None \<and> lh_key (the (hs' e)) = lh_key (the (hs e)) \<and> lh_hash (the (hs' e)) = lh_hash (the (hs e))" if "e \<in> T" for e
    using s [OF that] by (auto simp: same_data_def)
  have T: "set (concat (ht_list t)) = T" using t by (simp add: table_of_def)
  have "e \<in> T" if "b < length (ht_list t)" "e \<in> set (ht_list t ! b)" for b e using member_concat [OF that] unfolding T .
  then show ?thesis using t k by (simp add: table_of_def)
qed

lemma refs_finite: "refs_ok c held S \<Longrightarrow> finite (dom (lc_handles c))"
  by (rule finite_subset [of _ "{..<lc_fresh c}"]) (auto simp: refs_ok_def)

text \<open>An entry whose references change, and one that is freed.\<close>

lemma update_pairs:
  assumes "lc_handles c e = Some h" "same_data h h'" "lc_handles c' = (lc_handles c)(e \<mapsto> h')" "lc_deleted c' = lc_deleted c"
    "lc_capacity c' = lc_capacity c" "lc_fresh c' = lc_fresh c"
  shows "keeps c c'"
proof -
  have "dom (lc_handles c') = dom (lc_handles c)" using assms by auto
  moreover have "pair_at c' a = pair_at c a" for a using assms by (simp add: pair_at_def same_data_def)
  then have "pair_at c' = pair_at c" ..
  ultimately show ?thesis using assms by (auto simp: keeps_def all_pairs_def same_data_def)
qed

lemma free_pairs:
  assumes "lc_handles c e = Some h" "finite (dom (lc_handles c))" "lc_handles c' = (lc_handles c)(e := None)"
    "lc_deleted c' = lc_deleted c @ [(lh_deleter h, lh_key h, lh_value h)]" "lc_capacity c' = lc_capacity c" "lc_fresh c' = lc_fresh c"
  shows "keeps c c'"
proof -
  let ?D = "dom (lc_handles c)"
  have D: "dom (lc_handles c') = ?D - {e}" "e \<in> ?D" using assms by auto
  have m: "mset_set ?D = add_mset e (mset_set (?D - {e}))" using D(2) assms(2) by (simp add: mset_set.remove)
  have "image_mset (pair_at c') (mset_set (?D - {e})) = image_mset (pair_at c) (mset_set (?D - {e}))"
    using assms by (intro image_mset_cong) (auto simp: pair_at_def)
  then have "all_pairs c' = all_pairs c" using assms by (simp add: all_pairs_def D(1) m pair_at_def)
  then show ?thesis using assms by (auto simp: keeps_def same_data_def)
qed

lemma base_handles:
  assumes b: "cache_base c held lru inuse T" and h: "lc_handles c e = Some h"
    and r: "unat r = n + (if e \<in> set lru \<union> set inuse then 1 else 0)" "r \<noteq> 0"
  shows "cache_base (c\<lparr>lc_handles := (lc_handles c)(e \<mapsto> h\<lparr>lh_refs := r\<rparr>)\<rparr>) (held(e := n)) lru inuse T"
proof -
  let ?hs = "(lc_handles c)(e \<mapsto> h\<lparr>lh_refs := r\<rparr>)"
  note c = b [unfolded cache_base_def]
  have ro: "refs_ok c held (set lru \<union> set inuse)" and t: "table_of (lc_handles c) (lc_table c) T" using c by blast+
  have "rings_ok (c\<lparr>lc_handles := ?hs\<rparr>) lru inuse" by (rule rings_cong [of _ c]) (use c in \<open>auto simp: rings_ok_def\<close>)
  moreover have "lh_charge (the (?hs a)) = lh_charge (the (lc_handles c a))" for a using h by simp
  then have "refs_ok (c\<lparr>lc_handles := ?hs\<rparr>) (held(e := n)) (set lru \<union> set inuse)"
    using ro r h unfolding refs_ok_def by simp
  moreover have "\<exists>h h'. lc_handles c a = Some h \<and> ?hs a = Some h' \<and> same_data h h'" if "a \<in> T" for a
  proof -
    have "\<exists>h'. lc_handles c a = Some h'" using t that unfolding table_of_def by blast
    then show ?thesis using h by (auto simp: same_data_def)
  qed
  then have "table_of ?hs (lc_table c) T" by (rule table_cong [OF t])
  ultimately show ?thesis using c by (simp add: cache_base_def)
qed

lemma base_rings:
  assumes "cache_base c held lru inuse T" "rings_ok c' lru' inuse'" "set lru' \<union> set inuse' = set lru \<union> set inuse"
    "c' = c\<lparr>lc_nxt := n, lc_prv := p\<rparr>"
  shows "cache_base c' held lru' inuse' T"
  using assms by (simp add: cache_base_def refs_ok_def)

text \<open>An entry that is moved to the end of a list.\<close>

lemma move_base:
  assumes b: "cache_base c held lru inuse T" and e: "e \<in> set lru \<union> set inuse" and a: "a < 2"
  shows "\<exists>n p. Option.bind (LRU_Remove e c) (LRU_Append a e) = Some (c\<lparr>lc_nxt := n, lc_prv := p\<rparr>) \<and>
    cache_base (c\<lparr>lc_nxt := n, lc_prv := p\<rparr>) held
      (if a = 0 then removeAll e lru @ [e] else removeAll e lru) (if a = 0 then removeAll e inuse else removeAll e inuse @ [e]) T"
proof -
  have r: "rings_ok c lru inuse" using b by (simp add: cache_base_def)
  obtain n p where 1: "LRU_Remove e c = Some (c\<lparr>lc_prv := p, lc_nxt := n\<rparr>)"
    "rings_ok (c\<lparr>lc_prv := p, lc_nxt := n\<rparr>) (removeAll e lru) (removeAll e inuse)" using Remove_rings [OF r e] by blast
  have "2 \<le> e" "lc_handles c e \<noteq> None" using r e by (auto simp: rings_ok_def)
  then obtain n' p' where 2: "LRU_Append a e (c\<lparr>lc_prv := p, lc_nxt := n\<rparr>) = Some (c\<lparr>lc_prv := p, lc_nxt := n\<rparr>\<lparr>lc_nxt := n', lc_prv := p'\<rparr>)"
    "rings_ok (c\<lparr>lc_prv := p, lc_nxt := n\<rparr>\<lparr>lc_nxt := n', lc_prv := p'\<rparr>)
      (if a = 0 then removeAll e lru @ [e] else removeAll e lru) (if a = 0 then removeAll e inuse else removeAll e inuse @ [e])"
    using Append_rings [OF 1(2) _ _ _ a, of e] by auto
  have "c\<lparr>lc_prv := p, lc_nxt := n\<rparr>\<lparr>lc_nxt := n', lc_prv := p'\<rparr> = c\<lparr>lc_nxt := n', lc_prv := p'\<rparr>" by simp
  note 2 = 2 [unfolded this]
  have s: "set (if a = 0 then removeAll e lru @ [e] else removeAll e lru) \<union> set (if a = 0 then removeAll e inuse else removeAll e inuse @ [e]) =
    set lru \<union> set inuse" using e by auto
  have "Option.bind (LRU_Remove e c) (LRU_Append a e) = Some (c\<lparr>lc_nxt := n', lc_prv := p'\<rparr>)" using 1(1) 2(1) by simp
  then show ?thesis using base_rings [OF b 2(2) s refl] by blast
qed

subsection \<open>References\<close>

lemma base_disjoint: "cache_base c held lru inuse T \<Longrightarrow> e \<in> set lru \<Longrightarrow> e \<notin> set inuse"
  by (auto simp: cache_base_def rings_ok_def)

lemma base_entry:
  assumes "cache_base c held lru inuse T" "lc_handles c e = Some h"
  shows "lh_in_cache h = (e \<in> set lru \<union> set inuse)" "unat (lh_refs h) = held e + (if e \<in> set lru \<union> set inuse then 1 else 0)" "lh_refs h \<noteq> 0"
    "3 \<le> e" "e < lc_fresh c"
  using assms by (auto simp: cache_base_def refs_ok_def)

lemma base_member: "cache_base c held lru inuse T \<Longrightarrow> e \<in> set lru \<union> set inuse \<Longrightarrow> \<exists>h. lc_handles c e = Some h"
  by (auto simp: cache_base_def rings_ok_def)

lemma base_held: "cache_base c held lru inuse T \<Longrightarrow> 0 < held e \<Longrightarrow> \<exists>h. lc_handles c e = Some h"
  by (cases "lc_handles c e") (auto simp: cache_base_def refs_ok_def)

lemma one_word: "unat (r :: u32) = Suc 0 \<longleftrightarrow> r = 1"
  using word_unat_eq_iff [of r 1] by simp

lemma Ref_ok:
  assumes ok: "cache_ok c held lru inuse T" and e: "e \<in> set lru \<union> set inuse" and few: "held e < 2 ^ 32 - 2"
  shows "\<exists>c'. lc_Ref e c = Some c' \<and> keeps c c' \<and>
    cache_ok c' (held(e := held e + 1)) (removeAll e lru) (if e \<in> set lru then inuse @ [e] else inuse) T"
proof -
  have b: "cache_base c held lru inuse T" and z: "\<forall>e \<in> set lru. held e = 0" "\<forall>e \<in> set inuse. 0 < held e"
    using ok by (auto simp: cache_ok_def)
  obtain h where h: "lc_handles c e = Some h" using base_member [OF b e] by blast
  note E = base_entry [OF b h]
  have r: "unat (lh_refs h + 1) = Suc (unat (lh_refs h))" "lh_refs h + 1 \<noteq> 0"
  proof -
    show "unat (lh_refs h + 1) = Suc (unat (lh_refs h))" using few E(2) by (simp add: unat_word_ariths)
    then show "lh_refs h + 1 \<noteq> 0" by auto
  qed
  have u: "lh_refs h = 1 \<longleftrightarrow> held e = 0" using E(2) e one_word [of "lh_refs h"] by simp
  let ?lru = "removeAll e lru" and ?inuse = "if e \<in> set lru then inuse @ [e] else inuse"
  obtain n p where m: "(if lh_refs h = 1 \<and> lh_in_cache h then Option.bind (LRU_Remove e c) (LRU_Append 1 e) else Some c) =
      Some (c\<lparr>lc_nxt := n, lc_prv := p\<rparr>)" "cache_base (c\<lparr>lc_nxt := n, lc_prv := p\<rparr>) held ?lru ?inuse T"
  proof (cases "e \<in> set lru")
    case True
    then have "e \<notin> set inuse" by (rule base_disjoint [OF b])
    then show ?thesis using that move_base [OF b e, of 1] True z(1) u E(1) e by (auto simp: removeAll_id)
  next
    case False
    then have same: "c\<lparr>lc_nxt := lc_nxt c, lc_prv := lc_prv c\<rparr> = c" and "lh_refs h \<noteq> 1" using e z u by auto
    then show ?thesis using that [of "lc_prv c" "lc_nxt c"] same b False by (simp add: removeAll_id)
  qed
  let ?c = "c\<lparr>lc_nxt := n, lc_prv := p\<rparr>"
  have "set ?lru \<union> set ?inuse = set lru \<union> set inuse" using e by auto
  then have "cache_base (?c\<lparr>lc_handles := (lc_handles ?c)(e \<mapsto> h\<lparr>lh_refs := lh_refs h + 1\<rparr>)\<rparr>) (held(e := held e + 1)) ?lru ?inuse T"
    using r E(2) h by (intro base_handles [OF m(2)]) (auto simp del: fun_upd_apply)
  then have "cache_ok (?c\<lparr>lc_handles := (lc_handles ?c)(e \<mapsto> h\<lparr>lh_refs := lh_refs h + 1\<rparr>)\<rparr>) (held(e := held e + 1)) ?lru ?inuse T"
    using z by (auto simp: cache_ok_def)
  moreover have "keeps c (?c\<lparr>lc_handles := (lc_handles ?c)(e \<mapsto> h\<lparr>lh_refs := lh_refs h + 1\<rparr>)\<rparr>)"
    by (rule update_pairs [OF h]) (auto simp: same_data_def)
  ultimately show ?thesis using h m(1) unfolding lc_Ref_def by auto
qed

lemma base_free:
  assumes b: "cache_base c held lru inuse T" and e: "e \<notin> set lru \<union> set inuse"
  shows "cache_base (c\<lparr>lc_deleted := d, lc_handles := (lc_handles c)(e := None)\<rparr>) (held(e := 0)) lru inuse T"
proof -
  note c = b [unfolded cache_base_def]
  let ?c = "c\<lparr>lc_deleted := d, lc_handles := (lc_handles c)(e := None)\<rparr>"
  have ro: "refs_ok c held (set lru \<union> set inuse)" and t: "table_of (lc_handles c) (lc_table c) T" using c by blast+
  have T: "e \<notin> T" using c e by auto
  have "rings_ok ?c lru inuse" by (rule rings_cong [of _ c]) (use c e in \<open>auto simp: rings_ok_def\<close>)
  moreover have "(\<Sum>a \<in> set lru \<union> set inuse. lh_charge (the (lc_handles ?c a))) = (\<Sum>a \<in> set lru \<union> set inuse. lh_charge (the (lc_handles c a)))"
    using e by (intro sum.cong) auto
  then have "refs_ok ?c (held(e := 0)) (set lru \<union> set inuse)" using ro unfolding refs_ok_def by auto
  moreover have "\<exists>h h'. lc_handles c a = Some h \<and> lc_handles ?c a = Some h' \<and> same_data h h'" if "a \<in> T" for a
  proof -
    have "\<exists>h'. lc_handles c a = Some h'" using t that unfolding table_of_def by blast
    then show ?thesis using that T by (auto simp: same_data_def)
  qed
  then have "table_of (lc_handles ?c) (lc_table c) T" by (rule table_cong [OF t])
  ultimately show ?thesis using c by (simp add: cache_base_def)
qed

text \<open>A client that gives up a handle: the entry is freed, goes to the end of the LRU list, or stays.\<close>

lemma Unref_ok:
  assumes ok: "cache_ok c held lru inuse T" and e: "0 < held e"
  shows "\<exists>c'. lc_Unref e c = Some c' \<and> keeps c c' \<and>
    (if e \<in> set inuse \<and> held e = 1 then cache_ok c' (held(e := 0)) (lru @ [e]) (removeAll e inuse) T
     else cache_ok c' (held(e := held e - 1)) lru inuse T) \<and>
    lc_handles c' e = (if e \<in> set inuse \<or> held e \<noteq> 1 then map_option (\<lambda>h. h\<lparr>lh_refs := lh_refs h - 1\<rparr>) (lc_handles c e) else None) \<and>
    (\<forall>a. a \<noteq> e \<longrightarrow> lc_handles c' a = lc_handles c a) \<and>
    lc_deleted c' = lc_deleted c @ (if e \<in> set inuse \<or> held e \<noteq> 1 then [] else [pair_at c e])"
proof -
  have b: "cache_base c held lru inuse T" and z: "\<forall>e \<in> set lru. held e = 0" "\<forall>e \<in> set inuse. 0 < held e"
    using ok by (auto simp: cache_ok_def)
  obtain h where h: "lc_handles c e = Some h" using base_held [OF b e] by blast
  note E = base_entry [OF b h]
  have l: "e \<notin> set lru" using z e by auto
  let ?h = "h\<lparr>lh_refs := lh_refs h - 1\<rparr>"
  let ?c = "c\<lparr>lc_handles := (lc_handles c)(e \<mapsto> ?h)\<rparr>"
  have r: "unat (lh_refs h - 1) = held e - 1 + (if e \<in> set lru \<union> set inuse then 1 else 0)" using E(2,3) e by (simp add: unat_minus_one)
  have k: "keeps c ?c" by (rule update_pairs [OF h]) (auto simp: same_data_def)
  show ?thesis
  proof (cases "e \<in> set inuse \<or> held e \<noteq> 1")
    case False
    then have 0: "lh_refs h - 1 = 0" "\<not> lh_in_cache h" using r E(1) l by (auto simp: unat_eq_zero)
    let ?c' = "c\<lparr>lc_deleted := lc_deleted c @ [(lh_deleter h, lh_key h, lh_value h)], lc_handles := (lc_handles c)(e := None)\<rparr>"
    have "cache_ok ?c' (held(e := 0)) lru inuse T" using base_free [OF b] l False z by (auto simp: cache_ok_def)
    moreover have "finite (dom (lc_handles c))" using b by (auto simp: cache_base_def intro: refs_finite)
    then have "keeps c ?c'" by (intro free_pairs [OF h]) auto
    moreover have "lc_Unref e c = Some ?c'" using h 0 E(3) by (simp add: lc_Unref_def Let_def fun_upd_upd)
    ultimately show ?thesis using False h by (auto simp: pair_at_def)
  next
    case True
    then have "0 < unat (lh_refs h - 1)" using r e by auto
    then have n: "lh_refs h - 1 \<noteq> 0" by auto
    have base: "cache_base ?c (held(e := held e - 1)) lru inuse T" using base_handles [OF b h r n] .
    show ?thesis
    proof (cases "e \<in> set inuse \<and> held e = 1")
      case move: True
      then have 1: "lh_refs h - 1 = 1" using r l one_word by simp
      have "removeAll e lru = lru" using l by (simp add: removeAll_id)
      then obtain n p where "Option.bind (LRU_Remove e ?c) (LRU_Append 0 e) = Some (?c\<lparr>lc_nxt := n, lc_prv := p\<rparr>)"
        "cache_base (?c\<lparr>lc_nxt := n, lc_prv := p\<rparr>) (held(e := held e - 1)) (lru @ [e]) (removeAll e inuse) T"
        using move_base [OF base, of e 0] move by auto
      note m = this
      have "lc_Unref e c = Some (?c\<lparr>lc_nxt := n, lc_prv := p\<rparr>)"
        using h n E(1,3) 1 m(1) move by (simp add: lc_Unref_def Let_def)
      moreover have "cache_ok (?c\<lparr>lc_nxt := n, lc_prv := p\<rparr>) (held(e := 0)) (lru @ [e]) (removeAll e inuse) T"
        using m(2) z move l by (auto simp: cache_ok_def)
      moreover have "keeps c (?c\<lparr>lc_nxt := n, lc_prv := p\<rparr>)" by (rule update_pairs [OF h]) (auto simp: same_data_def)
      ultimately show ?thesis using move h by auto
    next
      case False
      have "\<not> (lh_in_cache h \<and> lh_refs h - 1 = 1)" using r E(1) l False e by (auto simp: one_word [symmetric])
      then have "lc_Unref e c = Some ?c" using h n E(3) by (auto simp: lc_Unref_def Let_def)
      moreover have "cache_ok ?c (held(e := held e - 1)) lru inuse T" using base z False e l by (auto simp: cache_ok_def)
      ultimately show ?thesis using k False True h by auto
    qed
  qed
qed

subsection \<open>Entries that leave the cache\<close>

lemma cache_ok_table:
  "cache_ok c held lru inuse T \<Longrightarrow> table_of (lc_handles c) t T' \<Longrightarrow> T' \<subseteq> set lru \<union> set inuse \<Longrightarrow>
    cache_ok (c\<lparr>lc_table := t\<rparr>) held lru inuse T'"
  by (simp add: cache_ok_def cache_base_def rings_ok_def refs_ok_def)

lemma keeps_table: "keeps c (c\<lparr>lc_table := t\<rparr>)"
proof -
  have "pair_at (c\<lparr>lc_table := t\<rparr>) = pair_at c" by (simp add: fun_eq_iff pair_at_def)
  then show ?thesis by (simp add: keeps_def same_data_def all_pairs_def)
qed

lemma base_uncache:
  assumes b: "cache_base c held lru inuse T" and h: "lc_handles c e = Some h" and e: "e \<in> set lru \<union> set inuse" "e \<notin> T"
    and r: "rings_ok (c\<lparr>lc_prv := p, lc_nxt := n\<rparr>) (removeAll e lru) (removeAll e inuse)"
  shows "cache_base (c\<lparr>lc_prv := p, lc_nxt := n, lc_handles := (lc_handles c)(e \<mapsto> h\<lparr>lh_in_cache := False\<rparr>), lc_usage := lc_usage c - lh_charge h\<rparr>)
    (held(e := held e + 1)) (removeAll e lru) (removeAll e inuse) T"
    (is "cache_base ?c _ _ _ _")
proof -
  let ?S = "set lru \<union> set inuse" and ?hs = "(lc_handles c)(e \<mapsto> h\<lparr>lh_in_cache := False\<rparr>)"
  note c = b [unfolded cache_base_def]
  have ro: "refs_ok c held ?S" and t: "table_of (lc_handles c) (lc_table c) T" using c by blast+
  have S: "set (removeAll e lru) \<union> set (removeAll e inuse) = ?S - {e}" by auto
  have "rings_ok ?c (removeAll e lru) (removeAll e inuse)"
    by (rule rings_cong [OF _ _ _ r]) (use r in \<open>auto simp: rings_ok_def\<close>)
  moreover have "(\<Sum>a \<in> ?S. lh_charge (the (lc_handles c a))) = lh_charge h + (\<Sum>a \<in> ?S - {e}. lh_charge (the (lc_handles c a)))"
    using e(1) h by (subst sum.remove [of _ e]) auto
  moreover have "(\<Sum>a \<in> ?S - {e}. lh_charge (the (?hs a))) = (\<Sum>a \<in> ?S - {e}. lh_charge (the (lc_handles c a)))"
    by (intro sum.cong) auto
  ultimately have usage: "lc_usage ?c = (\<Sum>a \<in> ?S - {e}. lh_charge (the (?hs a)))"
    using ro by (simp add: refs_ok_def)
  have "unat (lh_refs h) = held e + 1" "3 \<le> e" "e < lc_fresh c" "lh_refs h \<noteq> 0" using base_entry [OF b h] e(1) by auto
  then have "refs_ok ?c (held(e := held e + 1)) (?S - {e})"
    unfolding refs_ok_def using ro usage by (auto simp: refs_ok_def)
  moreover have "\<exists>h h'. lc_handles c a = Some h \<and> ?hs a = Some h' \<and> same_data h h'" if "a \<in> T" for a
  proof -
    have "\<exists>h'. lc_handles c a = Some h'" using t that unfolding table_of_def by blast
    then show ?thesis using h by (auto simp: same_data_def)
  qed
  then have "table_of ?hs (lc_table c) T" by (rule table_cong [OF t])
  ultimately show ?thesis
    using c e(2) \<open>rings_ok ?c _ _\<close> unfolding cache_base_def S by auto
qed

lemma FinishErase_ok:
  assumes ok: "cache_ok c held lru inuse T" and e: "e \<in> set lru \<union> set inuse" "e \<notin> T"
  shows "\<exists>c'. FinishErase (Some e) c = Some (True, c') \<and> keeps c c' \<and> cache_ok c' held (removeAll e lru) (removeAll e inuse) T \<and>
    lc_deleted c' = lc_deleted c @ (if held e = 0 then [pair_at c e] else [])"
proof -
  have b: "cache_base c held lru inuse T" and z: "\<forall>e \<in> set lru. held e = 0" "\<forall>e \<in> set inuse. 0 < held e"
    using ok by (auto simp: cache_ok_def)
  obtain h where h: "lc_handles c e = Some h" using base_member [OF b e(1)] by blast
  have "rings_ok c lru inuse" using b by (simp add: cache_base_def)
  then obtain n p where r: "LRU_Remove e c = Some (c\<lparr>lc_prv := p, lc_nxt := n\<rparr>)"
    "rings_ok (c\<lparr>lc_prv := p, lc_nxt := n\<rparr>) (removeAll e lru) (removeAll e inuse)" using Remove_rings e(1) by blast
  let ?c = "c\<lparr>lc_prv := p, lc_nxt := n, lc_handles := (lc_handles c)(e \<mapsto> h\<lparr>lh_in_cache := False\<rparr>), lc_usage := lc_usage c - lh_charge h\<rparr>"
  have "cache_ok ?c (held(e := held e + 1)) (removeAll e lru) (removeAll e inuse) T"
    using base_uncache [OF b h e r(2)] z by (auto simp: cache_ok_def)
  from Unref_ok [OF this, of e] obtain c' where c': "lc_Unref e ?c = Some c'" "keeps ?c c'"
    "cache_ok c' held (removeAll e lru) (removeAll e inuse) T"
    "lc_deleted c' = lc_deleted ?c @ (if held e = 0 then [pair_at ?c e] else [])" by auto
  have "keeps c ?c" by (rule update_pairs [OF h]) (auto simp: same_data_def)
  then have "keeps c c'" using c'(2) by (rule keeps_trans)
  moreover have "pair_at ?c e = pair_at c e" using h by (simp add: pair_at_def)
  moreover have "FinishErase (Some e) c = Some (True, c')"
    using h r(1) c'(1) base_entry(1) [OF b h] e(1) by (simp add: FinishErase_def Let_def)
  ultimately show ?thesis using c'(3,4) by auto
qed

text \<open>Removal from the table and from the cache.\<close>

definition without :: "nat option \<Rightarrow> nat list \<Rightarrow> nat list" where
  "without r xs = (case r of None \<Rightarrow> xs | Some e \<Rightarrow> removeAll e xs)"

lemma set_without [simp]: "set (without r xs) = set xs - set_option r"
  by (auto simp: without_def split: option.split)

lemma erase_ok:
  assumes ok: "cache_inv c held lru inuse"
  shows "\<exists>r t c'. HandleTable_Remove (lc_handles c) key hash (lc_table c) = Some (r, t) \<and>
    entry_of (lc_handles c) (set lru \<union> set inuse) key hash r \<and>
    FinishErase r (c\<lparr>lc_table := t\<rparr>) = Some (r \<noteq> None, c') \<and> keeps c c' \<and> cache_inv c' held (without r lru) (without r inuse)"
proof -
  let ?S = "set lru \<union> set inuse"
  have "table_of (lc_handles c) (lc_table c) ?S" using ok by (simp add: cache_ok_def cache_base_def)
  from Remove_spec [OF this, of key hash] obtain r t where r: "HandleTable_Remove (lc_handles c) key hash (lc_table c) = Some (r, t)"
    "entry_of (lc_handles c) ?S key hash r" "table_of (lc_handles c) t (?S - set_option r)" by blast
  have ok': "cache_ok (c\<lparr>lc_table := t\<rparr>) held lru inuse (?S - set_option r)" using cache_ok_table [OF ok r(3)] by auto
  have "\<exists>c'. FinishErase r (c\<lparr>lc_table := t\<rparr>) = Some (r \<noteq> None, c') \<and> keeps c c' \<and> cache_inv c' held (without r lru) (without r inuse)"
  proof (cases r)
    case None
    then show ?thesis using ok' keeps_table by (simp add: FinishErase_def without_def)
  next
    case (Some e)
    then have e: "e \<in> ?S" using r(2) by (auto simp: entry_of_def)
    obtain c' where c': "FinishErase (Some e) (c\<lparr>lc_table := t\<rparr>) = Some (True, c')" "keeps (c\<lparr>lc_table := t\<rparr>) c'"
      "cache_ok c' held (removeAll e lru) (removeAll e inuse) (?S - {e})" using FinishErase_ok [OF ok' e] Some by auto
    have "set (removeAll e lru) \<union> set (removeAll e inuse) = ?S - {e}" by auto
    then show ?thesis using c' keeps_trans [OF keeps_table c'(2)] Some by (auto simp: without_def)
  qed
  then show ?thesis using r(1,2) by blast
qed

text \<open>The oldest entry of the LRU list.\<close>

lemma erase_oldest_ok:
  assumes ok: "cache_inv c held (e # lru) inuse"
  shows "lc_nxt c 0 = e \<and> e \<noteq> 0 \<and> (\<exists>c'. erase_oldest c = Some c' \<and> keeps c c' \<and> cache_inv c' held lru inuse)"
proof -
  let ?S = "set (e # lru) \<union> set inuse"
  have b: "cache_base c held (e # lru) inuse ?S" and z: "held e = 0" using ok by (auto simp: cache_ok_def)
  have ring: "ring (lc_nxt c) (lc_prv c) 0 (e # lru)" using b by (simp add: cache_base_def rings_ok_def)
  have e: "lc_nxt c 0 = e" using ring_next(1) [OF ring] by simp
  obtain h where h: "lc_handles c e = Some h" using base_member [OF b, of e] by auto
  note E = base_entry [OF b h]
  have one: "lh_refs h = 1" using E(2) z one_word by simp
  obtain r t c' where r: "HandleTable_Remove (lc_handles c) (lh_key h) (lh_hash h) (lc_table c) = Some (r, t)"
    "entry_of (lc_handles c) ?S (lh_key h) (lh_hash h) r" "FinishErase r (c\<lparr>lc_table := t\<rparr>) = Some (r \<noteq> None, c')"
    "keeps c c'" "cache_inv c' held (without r (e # lru)) (without r inuse)"
    using erase_ok [OF ok, of "lh_key h" "lh_hash h"] by blast
  have "\<forall>e \<in> ?S. \<forall>e' \<in> ?S. lh_key (the (lc_handles c e)) = lh_key (the (lc_handles c e')) \<and>
      lh_hash (the (lc_handles c e)) = lh_hash (the (lc_handles c e')) \<longrightarrow> e = e'"
    using b unfolding cache_base_def table_of_def by blast
  then have re: "r = Some e" using r(2) h by (cases r) (auto simp: entry_of_def)
  have "e \<notin> set lru" "e \<notin> set inuse" using ring base_disjoint [OF b, of e] by (auto simp: ring_def)
  then have "without r (e # lru) = lru" "without r inuse = inuse" unfolding re by (simp_all add: without_def removeAll_id)
  then show ?thesis using e E(4) h one r re by (auto simp: erase_oldest_def)
qed

subsection \<open>Loops\<close>

text \<open>Eviction takes the oldest entries, and no more of them than the capacity asks for.\<close>

fun trim :: "u64 \<Rightarrow> (nat \<Rightarrow> u64) \<Rightarrow> nat list \<Rightarrow> nat list \<Rightarrow> nat list" where
  "trim capacity charge [] used = []"
| "trim capacity charge (e # es) used =
     (if capacity < sum_list (map charge (e # es @ used)) then trim capacity charge es used else e # es)"

lemma trim_suffix: "\<exists>n. trim capacity charge es used = drop n es"
proof (induction es)
  case (Cons e es)
  then obtain n where "trim capacity charge es used = drop n es" by blast
  then have "trim capacity charge es used = drop (Suc n) (e # es)" by simp
  then show ?case by (metis drop0 trim.simps(2))
qed simp

lemma set_trim: "set (trim capacity charge es used) \<subseteq> set es"
  using trim_suffix [of capacity charge es used] by (auto dest: in_set_dropD)

definition charges :: "lru_cache \<Rightarrow> (nat \<Rightarrow> u64) \<Rightarrow> nat set \<Rightarrow> bool" where
  "charges c charge S \<longleftrightarrow> (\<forall>e \<in> S. charge e = lh_charge (the (lc_handles c e)))"

lemma charges_keeps:
  assumes "keeps c c'" "charges c charge S" "\<And>e. e \<in> S' \<Longrightarrow> lc_handles c' e \<noteq> None" "S' \<subseteq> S"
  shows "charges c' charge S'"
  unfolding charges_def
proof
  fix e assume e: "e \<in> S'"
  then obtain h' where h': "lc_handles c' e = Some h'" using assms(3) by blast
  then show "charge e = lh_charge (the (lc_handles c' e))"
    using keepsD [OF assms(1) h'] assms(2,4) e by (auto simp: charges_def same_data_def)
qed

lemma inv_usage:
  assumes "cache_ok c held lru inuse T" "charges c charge (set lru \<union> set inuse)"
  shows "lc_usage c = sum_list (map charge (lru @ inuse))"
proof -
  have "distinct (lru @ inuse)" using assms(1) by (auto simp: cache_ok_def cache_base_def rings_ok_def ring_def)
  then have "sum_list (map charge (lru @ inuse)) = (\<Sum>e \<in> set lru \<union> set inuse. charge e)"
    by (metis sum_list_distinct_conv_sum_set set_append)
  also have "\<dots> = (\<Sum>e \<in> set lru \<union> set inuse. lh_charge (the (lc_handles c e)))"
    using assms(2) by (auto simp: charges_def)
  also have "\<dots> = lc_usage c" using assms(1) by (simp add: cache_ok_def cache_base_def refs_ok_def)
  finally show ?thesis by simp
qed

lemma inv_alive: "cache_ok c held lru inuse T \<Longrightarrow> e \<in> set lru \<union> set inuse \<Longrightarrow> lc_handles c e \<noteq> None"
  using base_member by (auto simp: cache_ok_def)

lemma inv_front: "cache_ok c held [] inuse T \<Longrightarrow> lc_nxt c 0 = 0"
  using ring_next(1) [of "lc_nxt c" "lc_prv c" 0 "[]"] by (simp add: cache_ok_def cache_base_def rings_ok_def)

lemma evict_ok:
  assumes "cache_inv c held lru inuse" "charges c charge (set lru \<union> set inuse)"
  shows "\<exists>c'. evict c = Some c' \<and> keeps c c' \<and> cache_inv c' held (trim (lc_capacity c) charge lru inuse) inuse"
  using assms
proof (induction lru arbitrary: c)
  case Nil
  then show ?case by (intro exI [of _ c]) (simp add: evict.simps inv_front keeps_refl)
next
  case (Cons e lru)
  note u = inv_usage [OF Cons.prems]
  show ?case
  proof (cases "lc_capacity c < lc_usage c")
    case False
    then show ?thesis using Cons.prems u by (intro exI [of _ c]) (simp add: evict.simps keeps_refl)
  next
    case True
    obtain c1 where c1: "lc_nxt c 0 = e" "e \<noteq> 0" "erase_oldest c = Some c1" "keeps c c1" "cache_inv c1 held lru inuse"
      using erase_oldest_ok [OF Cons.prems(1)] by blast
    have "charges c1 charge (set lru \<union> set inuse)"
      by (rule charges_keeps [OF c1(4) Cons.prems(2) inv_alive [OF c1(5)]]) auto
    then obtain c' where c': "evict c1 = Some c'" "keeps c1 c'" "cache_inv c' held (trim (lc_capacity c) charge lru inuse) inuse"
      using Cons.IH [OF c1(5)] c1(4) by (auto simp: keeps_def)
    have "evict c = Some c'" using True c1 c'(1) by (simp add: evict.simps [of c])
    then show ?thesis using c'(3) keeps_trans [OF c1(4) c'(2)] True u by auto
  qed
qed

lemma Prune_ok:
  assumes "cache_inv c held lru inuse"
  shows "\<exists>c'. LRUCache_Prune c = Some c' \<and> keeps c c' \<and> cache_inv c' held [] inuse"
  using assms
proof (induction lru arbitrary: c)
  case Nil
  then show ?case by (intro exI [of _ c]) (simp add: LRUCache_Prune.simps inv_front keeps_refl)
next
  case (Cons e lru)
  obtain c1 where c1: "lc_nxt c 0 = e" "e \<noteq> 0" "erase_oldest c = Some c1" "keeps c c1" "cache_inv c1 held lru inuse"
    using erase_oldest_ok [OF Cons.prems] by blast
  obtain c' where c': "LRUCache_Prune c1 = Some c'" "keeps c1 c'" "cache_inv c' held [] inuse" using Cons.IH [OF c1(5)] by blast
  have "LRUCache_Prune c = Some c'" using c1 c'(1) by (simp add: LRUCache_Prune.simps [of c])
  then show ?case using c'(3) keeps_trans [OF c1(4) c'(2)] by blast
qed

subsection \<open>Insertion\<close>

text \<open>A cache with a new entry.\<close>

definition with_entry :: "lru_handle \<Rightarrow> lru_cache \<Rightarrow> lru_cache" where
  "with_entry h c = c\<lparr>lc_fresh := lc_fresh c + 1, lc_handles := (lc_handles c)(lc_fresh c \<mapsto> h)\<rparr>"

lemma alloc_ok:
  assumes ok: "cache_inv c held lru inuse"
    and h: "lh_in_cache h = cached" "lh_refs h = (if cached then 2 else 1)"
    and r: "rings_ok (with_entry h c\<lparr>lc_nxt := n, lc_prv := p\<rparr>) lru (if cached then inuse @ [lc_fresh c] else inuse)"
    and u: "u = lc_usage c + (if cached then lh_charge h else 0)"
  shows "cache_ok (with_entry h c\<lparr>lc_nxt := n, lc_prv := p, lc_usage := u\<rparr>) (held(lc_fresh c := 1))
    lru (if cached then inuse @ [lc_fresh c] else inuse) (set lru \<union> set inuse)"
    (is "cache_ok ?c ?held _ ?inuse ?S")
proof -
  let ?e = "lc_fresh c" and ?hs = "(lc_handles c)(lc_fresh c \<mapsto> h)"
  have b: "cache_base c held lru inuse ?S" and z: "\<forall>e \<in> set lru. held e = 0" "\<forall>e \<in> set inuse. 0 < held e"
    using ok by (auto simp: cache_ok_def)
  note c = b [unfolded cache_base_def]
  have ro: "refs_ok c held ?S" and t: "table_of (lc_handles c) (lc_table c) ?S" and f: "3 \<le> ?e" using c by blast+
  have less: "e < ?e" if "lc_handles c e \<noteq> None" for e using ro that by (auto simp: refs_ok_def)
  have e: "lc_handles c ?e = None" using less [of ?e] by blast
  have eS: "?e \<notin> ?S" using e inv_alive [OF ok] by blast
  have S': "set lru \<union> set ?inuse = (if cached then insert ?e ?S else ?S)" by auto
  have "(\<Sum>a \<in> ?S. lh_charge (the (?hs a))) = (\<Sum>a \<in> ?S. lh_charge (the (lc_handles c a)))" using eS by (intro sum.cong) auto
  then have "lc_usage ?c = (\<Sum>a \<in> set lru \<union> set ?inuse. lh_charge (the (?hs a)))"
    using u ro eS unfolding S' by (auto simp: refs_ok_def algebra_simps)
  moreover have "\<forall>a. ?hs a = None \<longrightarrow> ?held a = 0" using ro by (auto simp: refs_ok_def)
  moreover have "3 \<le> a \<and> a < ?e + 1 \<and> lh_in_cache g = (a \<in> set lru \<union> set ?inuse) \<and>
    unat (lh_refs g) = ?held a + (if a \<in> set lru \<union> set ?inuse then 1 else 0) \<and> lh_refs g \<noteq> 0" if g: "?hs a = Some g" for a g
  proof (cases "a = ?e")
    case True
    then show ?thesis using g h f eS unfolding S' by auto
  next
    case False
    then have "lc_handles c a = Some g" using g by simp
    then have "3 \<le> a \<and> a < ?e \<and> lh_in_cache g = (a \<in> ?S) \<and> unat (lh_refs g) = held a + (if a \<in> ?S then 1 else 0) \<and> lh_refs g \<noteq> 0"
      using base_entry [OF b] by blast
    moreover have "a \<in> set lru \<union> set ?inuse \<longleftrightarrow> a \<in> ?S" using False unfolding S' by simp
    ultimately show ?thesis using False by simp
  qed
  ultimately have refs: "refs_ok ?c ?held (set lru \<union> set ?inuse)" by (simp add: refs_ok_def with_entry_def)
  have "\<exists>h h'. lc_handles c a = Some h \<and> ?hs a = Some h' \<and> same_data h h'" if "a \<in> ?S" for a
    using inv_alive [OF ok that] e by (auto simp: same_data_def)
  then have "table_of ?hs (lc_table c) ?S" by (rule table_cong [OF t])
  moreover have "rings_ok ?c lru ?inuse" by (rule rings_cong [OF _ _ _ r]) (use r in \<open>auto simp: rings_ok_def\<close>)
  moreover have "?S \<subseteq> set lru \<union> set ?inuse" by auto
  ultimately have "cache_base ?c ?held lru ?inuse ?S" using refs f
    by (simp add: cache_base_def with_entry_def)
  then show ?thesis using z eS by (auto simp: cache_ok_def)
qed

definition new_handle :: "u8 list \<Rightarrow> u32 \<Rightarrow> nat \<Rightarrow> u64 \<Rightarrow> nat \<Rightarrow> lru_handle" where
  "new_handle key hash val charge deleter =
     \<lparr>lh_value = val, lh_deleter = deleter, lh_charge = charge, lh_in_cache = False, lh_refs = 1, lh_hash = hash, lh_key = key\<rparr>"

abbreviation allocated :: "u8 list \<Rightarrow> u32 \<Rightarrow> nat \<Rightarrow> u64 \<Rightarrow> nat \<Rightarrow> lru_cache \<Rightarrow> lru_cache" where
  "allocated key hash val charge deleter c \<equiv> with_entry (new_handle key hash val charge deleter) c"

text \<open>The part of \<open>Insert\<close> that puts a new entry in the cache.\<close>

definition put_in_cache :: "u8 list \<Rightarrow> u32 \<Rightarrow> nat \<Rightarrow> u64 \<Rightarrow> nat \<Rightarrow> lru_cache \<Rightarrow> lru_cache option" where
  "put_in_cache key hash val charge deleter c =
     (case LRU_Append 1 (lc_fresh c) (with_entry (new_handle key hash val charge deleter\<lparr>lh_refs := 2, lh_in_cache := True\<rparr>) c) of
        None \<Rightarrow> None
      | Some c' \<Rightarrow>
          let c' = c'\<lparr>lc_usage := lc_usage c' + charge\<rparr>
          in (case HandleTable_Insert (lc_handles c') (lc_fresh c) (lc_table c') of
                None \<Rightarrow> None
              | Some (old, t) \<Rightarrow> map_option snd (FinishErase old (c'\<lparr>lc_table := t\<rparr>))))"

lemma Insert_alt:
  "LRUCache_Insert key hash val charge deleter c =
     (case (if 0 < lc_capacity c then put_in_cache key hash val charge deleter c
            else Some (allocated key hash val charge deleter c\<lparr>lc_nxt := (lc_nxt c)(lc_fresh c := 2)\<rparr>)) of
        None \<Rightarrow> None | Some c' \<Rightarrow> map_option (Pair (lc_fresh c)) (evict c'))"
  by (simp add: LRUCache_Insert_def put_in_cache_def with_entry_def new_handle_def Let_def)

lemma rings_with_entry: "rings_ok c lru inuse \<Longrightarrow> rings_ok (with_entry h c) lru inuse"
  by (rule rings_cong [of _ c]) (auto simp: with_entry_def rings_ok_def)

lemma entry_of_cong: "(\<And>e. e \<in> S \<Longrightarrow> hs e = hs' e) \<Longrightarrow> entry_of hs S key hash r = entry_of hs' S key hash r"
  by (cases r) (auto simp: entry_of_def)

lemma put_in_cache_ok:
  assumes ok: "cache_inv c held lru inuse" and few: "lc_fresh c < 2 ^ 31"
  shows "\<exists>r c'. put_in_cache key hash val charge deleter c = Some c' \<and> keeps (allocated key hash val charge deleter c) c' \<and>
    entry_of (lc_handles c) (set lru \<union> set inuse) key hash r \<and>
    cache_inv c' (held(lc_fresh c := 1)) (without r lru) (without r inuse @ [lc_fresh c])"
proof -
  let ?e = "lc_fresh c" and ?S = "set lru \<union> set inuse" and ?h = "new_handle key hash val charge deleter\<lparr>lh_refs := 2, lh_in_cache := True\<rparr>"
  have r0: "rings_ok c lru inuse" and ro: "refs_ok c held ?S" and f: "3 \<le> ?e" using ok by (auto simp: cache_ok_def cache_base_def)
  have less: "e < ?e" if "lc_handles c e \<noteq> None" for e using ro that by (auto simp: refs_ok_def)
  have e: "?e \<notin> ?S" using less [of ?e] inv_alive [OF ok, of ?e] by blast
  have "?S \<subseteq> {..<?e}" using less inv_alive [OF ok] by blast
  then have "card ?S \<le> ?e" using card_mono [of "{..<?e}" ?S] by simp
  then have card: "card ?S < 2 ^ 31" using few by simp
  obtain n p where a: "LRU_Append 1 ?e (with_entry ?h c) = Some (with_entry ?h c\<lparr>lc_nxt := n, lc_prv := p\<rparr>)"
    "rings_ok (with_entry ?h c\<lparr>lc_nxt := n, lc_prv := p\<rparr>) lru (inuse @ [?e])"
    using Append_rings [OF rings_with_entry [OF r0], of ?e ?h 1] e f by (auto simp: with_entry_def)
  let ?c = "with_entry ?h c\<lparr>lc_nxt := n, lc_prv := p, lc_usage := lc_usage c + charge\<rparr>"
  have A: "cache_ok ?c (held(?e := 1)) lru (inuse @ [?e]) ?S"
    using alloc_ok [OF ok, of ?h True p n "lc_usage c + charge"] a(2) by (simp add: new_handle_def)
  have he: "lc_handles ?c ?e = Some ?h" "lh_key ?h = key" "lh_hash ?h = hash" by (simp_all add: with_entry_def new_handle_def)
  have t: "table_of (lc_handles ?c) (lc_table ?c) ?S" using A by (simp add: cache_ok_def cache_base_def)
  obtain r t where T: "HandleTable_Insert (lc_handles ?c) ?e (lc_table ?c) = Some (r, t)" "entry_of (lc_handles ?c) ?S key hash r"
    "table_of (lc_handles ?c) t (insert ?e (?S - set_option r))" using Insert_spec [OF t he(1) e card] he(2,3) by auto
  have entry: "entry_of (lc_handles c) ?S key hash r" using T(2) e
    by (subst entry_of_cong [of _ _ "lc_handles ?c"]) (auto simp: with_entry_def)
  have B: "cache_ok (?c\<lparr>lc_table := t\<rparr>) (held(?e := 1)) lru (inuse @ [?e]) (insert ?e (?S - set_option r))"
    by (rule cache_ok_table [OF A T(3)]) auto
  have "keeps (allocated key hash val charge deleter c) ?c"
    by (rule update_pairs [of _ ?e "new_handle key hash val charge deleter" ?h]) (auto simp: with_entry_def same_data_def new_handle_def)
  then have k: "keeps (allocated key hash val charge deleter c) (?c\<lparr>lc_table := t\<rparr>)" using keeps_table by (rule keeps_trans)
  have sets: "set (without r lru) \<union> set (without r inuse @ [?e]) = insert ?e (?S - set_option r)" by auto
  have "\<exists>c'. FinishErase r (?c\<lparr>lc_table := t\<rparr>) = Some (r \<noteq> None, c') \<and> keeps (allocated key hash val charge deleter c) c' \<and>
    cache_inv c' (held(?e := 1)) (without r lru) (without r inuse @ [?e])"
  proof (cases r)
    case None
    then show ?thesis using B k sets by (simp add: FinishErase_def without_def)
  next
    case (Some x)
    then have x: "x \<in> set lru \<union> set (inuse @ [?e])" "x \<notin> insert ?e (?S - set_option r)" "x \<noteq> ?e"
      using T(2) e by (auto simp: entry_of_def)
    obtain c' where c': "FinishErase (Some x) (?c\<lparr>lc_table := t\<rparr>) = Some (True, c')" "keeps (?c\<lparr>lc_table := t\<rparr>) c'"
      "cache_ok c' (held(?e := 1)) (removeAll x lru) (removeAll x (inuse @ [?e])) (insert ?e (?S - set_option r))"
      using FinishErase_ok [OF B x(1,2)] by blast
    have "removeAll x (inuse @ [?e]) = without r inuse @ [?e]" "removeAll x lru = without r lru" using x(3) Some by (simp_all add: without_def)
    then show ?thesis using c' keeps_trans [OF k c'(2)] sets Some by auto
  qed
  then obtain c' where c': "FinishErase r (?c\<lparr>lc_table := t\<rparr>) = Some (r \<noteq> None, c')" "keeps (allocated key hash val charge deleter c) c'"
    "cache_inv c' (held(?e := 1)) (without r lru) (without r inuse @ [?e])" by blast
  have "put_in_cache key hash val charge deleter c = Some c'"
    using a(1) T(1) c'(1) by (simp add: put_in_cache_def Let_def with_entry_def)
  then show ?thesis using c'(2,3) entry by blast
qed

text \<open>
  \<open>Insert\<close> replaces the entry of the same key, if there is one, and then evicts; with a capacity of 0 the new
  entry stays out of the cache.
\<close>

lemma Insert_ok:
  assumes ok: "cache_inv c held lru inuse" and few: "lc_fresh c < 2 ^ 31"
    and ch: "charges c charges_of (set lru \<union> set inuse)" "charges_of (lc_fresh c) = charge"
  shows "\<exists>r c'. LRUCache_Insert key hash val charge deleter c = Some (lc_fresh c, c') \<and> keeps (allocated key hash val charge deleter c) c' \<and>
    (if 0 < lc_capacity c then entry_of (lc_handles c) (set lru \<union> set inuse) key hash r else r = None) \<and>
    (let inuse' = without r inuse @ (if 0 < lc_capacity c then [lc_fresh c] else [])
     in cache_inv c' (held(lc_fresh c := 1)) (trim (lc_capacity c) charges_of (without r lru) inuse') inuse')"
proof -
  let ?a = "allocated key hash val charge deleter c" and ?in = "\<lambda>r. without r inuse @ (if 0 < lc_capacity c then [lc_fresh c] else [])"
  have r0: "rings_ok c lru inuse" and ro: "refs_ok c held (set lru \<union> set inuse)" and f: "3 \<le> lc_fresh c"
    using ok by (auto simp: cache_ok_def cache_base_def)
  have new: "lc_fresh c \<noteq> e" if "e \<in> set lru \<union> set inuse" for e
    using inv_alive [OF ok that] ro by (auto simp: refs_ok_def)
  obtain r c1 where c1: "(if 0 < lc_capacity c then put_in_cache key hash val charge deleter c
            else Some (?a\<lparr>lc_nxt := (lc_nxt c)(lc_fresh c := 2)\<rparr>)) = Some c1" "keeps ?a c1"
    "if 0 < lc_capacity c then entry_of (lc_handles c) (set lru \<union> set inuse) key hash r else r = None"
    "cache_inv c1 (held(lc_fresh c := 1)) (without r lru) (?in r)"
  proof (cases "0 < lc_capacity c")
    case True
    obtain r c1 where "put_in_cache key hash val charge deleter c = Some c1" "keeps ?a c1"
      "entry_of (lc_handles c) (set lru \<union> set inuse) key hash r"
      "cache_inv c1 (held(lc_fresh c := 1)) (without r lru) (without r inuse @ [lc_fresh c])" using put_in_cache_ok [OF ok few] by blast
    then show ?thesis using that [of c1 r] True by simp
  next
    case False
    let ?c = "?a\<lparr>lc_nxt := (lc_nxt c)(lc_fresh c := 2)\<rparr>"
    have "ring (lc_nxt ?c) (lc_prv ?c) 0 lru" "ring (lc_nxt ?c) (lc_prv ?c) 1 inuse"
      using r0 f new by (subst ring_frame [of _ _ _ "lc_nxt c" _ "lc_prv c"], auto simp: rings_ok_def with_entry_def)+
    then have rg: "rings_ok (?a\<lparr>lc_nxt := (lc_nxt c)(lc_fresh c := 2), lc_prv := lc_prv c\<rparr>) lru inuse"
      using rings_with_entry [OF r0] by (simp add: rings_ok_def with_entry_def)
    have "?a\<lparr>lc_nxt := (lc_nxt c)(lc_fresh c := 2), lc_prv := lc_prv c, lc_usage := lc_usage c\<rparr> = ?c" by (simp add: with_entry_def)
    then have "cache_inv ?c (held(lc_fresh c := 1)) lru inuse"
      using alloc_ok [OF ok, of "new_handle key hash val charge deleter" False "lc_prv c" "(lc_nxt c)(lc_fresh c := 2)" "lc_usage c"] rg
      by (simp add: new_handle_def)
    moreover have "keeps ?a ?c"
      by (rule update_pairs [of _ "lc_fresh c" "new_handle key hash val charge deleter" "new_handle key hash val charge deleter"])
        (auto simp: with_entry_def same_data_def)
    ultimately show ?thesis using that [of ?c None] False by (simp add: without_def)
  qed
  have "charges ?a charges_of (insert (lc_fresh c) (set lru \<union> set inuse))"
    using ch new by (auto simp: charges_def with_entry_def new_handle_def)
  then have "charges c1 charges_of (set (without r lru) \<union> set (?in r))"
    by (rule charges_keeps [OF c1(2) _ inv_alive [OF c1(4)]]) auto
  moreover have "lc_capacity c1 = lc_capacity c" using c1(2) by (simp add: keeps_def with_entry_def)
  ultimately obtain c' where c': "evict c1 = Some c'" "keeps c1 c'"
    "cache_inv c' (held(lc_fresh c := 1)) (trim (lc_capacity c) charges_of (without r lru) (?in r)) (?in r)"
    using evict_ok [OF c1(4)] by metis
  have "LRUCache_Insert key hash val charge deleter c = Some (lc_fresh c, c')" using c1(1) c'(1) unfolding Insert_alt by simp
  then show ?thesis using c1(3) c'(3) keeps_trans [OF c1(2) c'(2)] unfolding Let_def by blast
qed

subsection \<open>The other operations\<close>

lemma Lookup_ok:
  assumes ok: "cache_inv c held lru inuse" and few: "\<And>e. e \<in> set lru \<union> set inuse \<Longrightarrow> held e < 2 ^ 32 - 2"
  shows "\<exists>r c'. LRUCache_Lookup key hash c = Some (r, c') \<and> keeps c c' \<and>
    entry_of (lc_handles c) (set lru \<union> set inuse) key hash r \<and>
    (case r of
       None \<Rightarrow> cache_inv c' held lru inuse
     | Some e \<Rightarrow> cache_inv c' (held(e := held e + 1)) (removeAll e lru) (if e \<in> set lru then inuse @ [e] else inuse))"
proof -
  let ?S = "set lru \<union> set inuse"
  have "table_of (lc_handles c) (lc_table c) ?S" using ok by (simp add: cache_ok_def cache_base_def)
  then obtain r where r: "HandleTable_Lookup (lc_handles c) (lc_table c) key hash = Some r" "entry_of (lc_handles c) ?S key hash r"
    using Lookup_spec by blast
  show ?thesis
  proof (cases r)
    case None
    then show ?thesis using r ok keeps_refl by (auto simp: LRUCache_Lookup_def)
  next
    case (Some e)
    then have e: "e \<in> ?S" using r(2) by (auto simp: entry_of_def)
    have "set (removeAll e lru) \<union> set (if e \<in> set lru then inuse @ [e] else inuse) = ?S" using e by auto
    moreover obtain c' where "lc_Ref e c = Some c'" "keeps c c'"
      "cache_ok c' (held(e := held e + 1)) (removeAll e lru) (if e \<in> set lru then inuse @ [e] else inuse) ?S"
      using Ref_ok [OF ok e few [OF e]] by blast
    ultimately show ?thesis using r Some by (auto simp: LRUCache_Lookup_def)
  qed
qed

lemma Release_ok:
  assumes ok: "cache_inv c held lru inuse" and e: "0 < held e"
  shows "\<exists>c'. LRUCache_Release e c = Some c' \<and> keeps c c' \<and>
    (if e \<in> set inuse \<and> held e = 1 then cache_inv c' (held(e := 0)) (lru @ [e]) (removeAll e inuse)
     else cache_inv c' (held(e := held e - 1)) lru inuse)"
proof -
  have "set (lru @ [e]) \<union> set (removeAll e inuse) = set lru \<union> set inuse" if "e \<in> set inuse" using that by auto
  then show ?thesis using Unref_ok [OF ok e] unfolding LRUCache_Release_def by metis
qed

lemma Erase_ok:
  assumes "cache_inv c held lru inuse"
  shows "\<exists>r c'. LRUCache_Erase key hash c = Some c' \<and> keeps c c' \<and>
    entry_of (lc_handles c) (set lru \<union> set inuse) key hash r \<and> cache_inv c' held (without r lru) (without r inuse)"
  using erase_ok [OF assms, of key hash] by (force simp: LRUCache_Erase_def)

lemma new_ok:
  "\<exists>c. LRUCache_new = Some c \<and> cache_inv (SetCapacity capacity c) (\<lambda>_. 0) [] [] \<and> all_pairs (SetCapacity capacity c) = {#} \<and>
    lc_fresh c = 3"
proof -
  obtain t where t: "HandleTable_new = Some t" "table_of (\<lambda>_. None) t {}"
  proof -
    obtain t where "HandleTable_new = Some t" "table_of (\<lambda>_. None :: lru_handle option) t {}" using HandleTable_new_spec by blast
    then show thesis using that by blast
  qed
  then show ?thesis
    unfolding LRUCache_new_def
    by (simp add: t(1) SetCapacity_def cache_ok_def cache_base_def rings_ok_def ring_def refs_ok_def all_pairs_def dom_def)
qed

text \<open>The destructor frees the entries of the LRU list, which are all of them when no client holds a handle.\<close>

lemma destroy_from_ok:
  assumes "links n p (es @ [0])" "distinct es" "0 \<notin> set es" "lc_nxt c = n"
    "\<And>e. e \<in> set es \<Longrightarrow> \<exists>h. lc_handles c e = Some h \<and> lh_in_cache h \<and> lh_refs h = 1"
  shows "\<exists>c'. destroy_from (hd (es @ [0])) c = Some c' \<and> lc_deleted c' = lc_deleted c @ map (pair_at c) es \<and>
    (\<forall>a. lc_handles c' a = (if a \<in> set es then None else lc_handles c a))"
  using assms
proof (induction es arbitrary: c)
  case Nil
  then show ?case by (simp add: destroy_from.simps)
next
  case (Cons e es)
  obtain h where h: "lc_handles c e = Some h" "lh_in_cache h" "lh_refs h = 1" using Cons.prems(5) [of e] by auto
  have nx: "lc_nxt c e = hd (es @ [0])" "links n p (es @ [0])" using Cons.prems(1,4) by (cases es; simp)+
  let ?c = "c\<lparr>lc_deleted := lc_deleted c @ [(lh_deleter h, lh_key h, lh_value h)], lc_handles := (lc_handles c)(e := None)\<rparr>"
  have u: "lc_Unref e (c\<lparr>lc_handles := (lc_handles c)(e \<mapsto> h\<lparr>lh_in_cache := False\<rparr>)\<rparr>) = Some ?c"
    using h by (simp add: lc_Unref_def)
  have es: "distinct es" "0 \<notin> set es" "lc_nxt ?c = n" and ne: "e \<notin> set es" using Cons.prems(2-4) by auto
  have "\<exists>h. lc_handles ?c a = Some h \<and> lh_in_cache h \<and> lh_refs h = 1" if "a \<in> set es" for a
    using Cons.prems(5) [of a] that ne by auto
  from Cons.IH [OF nx(2) es this]
  obtain c' where c': "destroy_from (hd (es @ [0])) ?c = Some c'" "lc_deleted c' = lc_deleted ?c @ map (pair_at ?c) es"
    "\<forall>a. lc_handles c' a = (if a \<in> set es then None else lc_handles ?c a)"
    by blast
  have "destroy_from (hd ((e # es) @ [0])) c = Some c'"
    using Cons.prems(3) h nx(1) u c'(1) by (simp add: destroy_from.simps [of e] Let_def)
  moreover have "map (pair_at ?c) es = map (pair_at c) es" using Cons.prems(2) by (auto simp: pair_at_def)
  ultimately show ?case using c'(2,3) h(1) by (auto simp: pair_at_def)
qed

lemma destroy_ok:
  assumes ok: "cache_inv c (\<lambda>_. 0) lru inuse"
  shows "\<exists>c'. LRUCache_destroy c = Some c' \<and> mset (lc_deleted c') = all_pairs c \<and> (\<forall>a. lc_handles c' a = None)"
proof -
  have b: "cache_base c (\<lambda>_. 0) lru inuse (set lru \<union> set inuse)" and i: "inuse = []" using ok by (auto simp: cache_ok_def)
  have r: "ring (lc_nxt c) (lc_prv c) 0 lru" "lc_nxt c 1 = 1" using b i ring_next(1) [of "lc_nxt c" "lc_prv c" 1 "[]"]
    by (auto simp: cache_base_def rings_ok_def)
  have E: "\<exists>h. lc_handles c e = Some h \<and> lh_in_cache h \<and> lh_refs h = 1" if e: "e \<in> set lru" for e
  proof -
    obtain h where h: "lc_handles c e = Some h" using inv_alive [OF ok, of e] e by blast
    then show ?thesis using base_entry [OF b h] e one_word by auto
  qed
  have l: "links (lc_nxt c) (lc_prv c) (lru @ [0])" "distinct lru" "0 \<notin> set lru" using r(1) by (cases lru; auto simp: ring_def)+
  obtain c' where c': "destroy_from (hd (lru @ [0])) c = Some c'" "lc_deleted c' = lc_deleted c @ map (pair_at c) lru"
    "\<forall>a. lc_handles c' a = (if a \<in> set lru then None else lc_handles c a)"
    using destroy_from_ok [OF l refl E] by blast
  have "a \<in> set lru" if "lc_handles c a = Some h" for a h
  proof (rule ccontr)
    assume "a \<notin> set lru"
    then have "unat (lh_refs h) = 0" using base_entry(2) [OF b that] i by simp
    then show False using base_entry(3) [OF b that] by (simp add: unat_eq_zero)
  qed
  then have dom: "dom (lc_handles c) = set lru" using E by (blast intro: domI)
  moreover from this have "\<forall>a. lc_handles c' a = None" using c'(3) by auto
  moreover have "mset_set (set lru) = mset lru" using l(2) by (rule mset_set_set)
  moreover have "LRUCache_destroy c = Some c'" using c'(1) ring_next(1) [OF r(1)] r(2) by (simp add: LRUCache_destroy_def)
  ultimately show ?thesis using c'(2) by (simp add: all_pairs_def)
qed

end
