(* ===== verification/Refinement.thy ===== *)
theory Refinement
  imports Prelude
begin

text \<open>
  Sequences of calls: a machine whose calls may fail, and a specification whose calls do not. The locale
  \<open>refined_machine\<close> says that a machine does what a specification says one call at a time, for the calls a
  client is allowed to make; then it does so for every sequence of allowed calls.
\<close>

fun run_machine :: "('p \<Rightarrow> 's \<Rightarrow> ('r \<times> 's) option) \<Rightarrow> 'p list \<Rightarrow> 's \<Rightarrow> ('r list \<times> 's) option" where
  "run_machine step [] s = Some ([], s)"
| "run_machine step (p # ps) s =
     (case step p s of
        None \<Rightarrow> None
      | Some (r, s) \<Rightarrow> map_option (\<lambda>(rs, s). (r # rs, s)) (run_machine step ps s))"

fun run_spec :: "('p \<Rightarrow> 'a \<Rightarrow> 'r \<times> 'a) \<Rightarrow> 'p list \<Rightarrow> 'a \<Rightarrow> 'r list \<times> 'a" where
  "run_spec spec [] S = ([], S)"
| "run_spec spec (p # ps) S = (case spec p S of (r, S) \<Rightarrow> case run_spec spec ps S of (rs, S) \<Rightarrow> (r # rs, S))"

fun run_allowed :: "('p \<Rightarrow> 'a \<Rightarrow> 'r \<times> 'a) \<Rightarrow> ('p \<Rightarrow> 'a \<Rightarrow> bool) \<Rightarrow> 'p list \<Rightarrow> 'a \<Rightarrow> bool" where
  "run_allowed spec allowed [] S \<longleftrightarrow> True"
| "run_allowed spec allowed (p # ps) S \<longleftrightarrow> allowed p S \<and> run_allowed spec allowed ps (snd (spec p S))"

lemma run_spec_sel:
  "fst (run_spec spec [] S) = []" "fst (run_spec spec (p # ps) S) = fst (spec p S) # fst (run_spec spec ps (snd (spec p S)))"
  "snd (run_spec spec [] S) = S" "snd (run_spec spec (p # ps) S) = snd (run_spec spec ps (snd (spec p S)))"
  by (simp_all add: case_prod_beta)

lemma run_spec_snoc:
  "run_spec spec (ps @ [p]) S =
     (fst (run_spec spec ps S) @ [fst (spec p (snd (run_spec spec ps S)))], snd (spec p (snd (run_spec spec ps S))))"
  by (induction ps arbitrary: S) (simp_all add: case_prod_beta)

text \<open>What every call keeps, a sequence of calls keeps.\<close>

lemma run_spec_keeps: "(\<And>p S. Inv S \<Longrightarrow> Inv (snd (spec p S))) \<Longrightarrow> Inv S \<Longrightarrow> Inv (snd (run_spec spec ps S))"
  by (induction ps arbitrary: S) (simp_all add: case_prod_beta)

locale refined_machine =
  fixes step :: "'p \<Rightarrow> 's \<Rightarrow> ('r \<times> 's) option"
    and spec :: "'p \<Rightarrow> 'a \<Rightarrow> 'r \<times> 'a"
    and allowed :: "'p \<Rightarrow> 'a \<Rightarrow> bool"
    and sim :: "'s \<Rightarrow> 'a \<Rightarrow> bool"
  assumes step_refines: "sim s S \<Longrightarrow> allowed p S \<Longrightarrow> \<exists>s'. step p s = Some (fst (spec p S), s') \<and> sim s' (snd (spec p S))"
begin

lemma run_refines:
  "sim s S \<Longrightarrow> run_allowed spec allowed ps S \<Longrightarrow>
    \<exists>s'. run_machine step ps s = Some (fst (run_spec spec ps S), s') \<and> sim s' (snd (run_spec spec ps S))"
proof (induction ps arbitrary: s S)
  case (Cons p ps)
  then obtain s1 where 1: "step p s = Some (fst (spec p S), s1)" "sim s1 (snd (spec p S))"
    using step_refines [of s S p] by auto
  then show ?case using Cons.IH [OF 1(2)] Cons.prems(2) by (auto simp: case_prod_beta)
qed simp

end

end
