(* ===== verification/Ldb_Lru_Spec.thy ===== *)
theory Ldb_Lru_Spec
  imports Ldb_Cache Refinement
begin

text \<open>
  What the cache of util/cache.cc promises: a specification with lists and no pointers, and the proof that
  every sequence of calls of a client that releases only handles it holds gets from the cache what the
  specification says.
\<close>

subsection \<open>The specification\<close>

record cache_entry =
  en_key :: "u8 list"
  en_hash :: u32
  en_value :: nat
  en_charge :: u64
  en_deleter :: nat

text \<open>
  Entries are known by their handles. Those in the cache are on \<open>sp_lru\<close>, the oldest first, when no client
  holds them, and on \<open>sp_used\<close> otherwise.
\<close>

record lru_spec =
  sp_capacity :: u64
  sp_entry :: "nat \<Rightarrow> cache_entry option"
  sp_lru :: "nat list"
  sp_used :: "nat list"
  sp_held :: "nat \<Rightarrow> nat"
  sp_fresh :: nat
  sp_given :: "(nat \<times> u8 list \<times> nat) list" \<comment> \<open>what was inserted: deleters, keys and values\<close>

datatype cache_op =
    Insert_op "u8 list" u32 nat u64 nat
  | Lookup_op "u8 list" u32
  | Release_op nat
  | Erase_op "u8 list" u32
  | Prune_op

definition sp_new :: "u64 \<Rightarrow> lru_spec" where
  "sp_new capacity =
     \<lparr>sp_capacity = capacity, sp_entry = (\<lambda>_. None), sp_lru = [], sp_used = [], sp_held = (\<lambda>_. 0), sp_fresh = 3, sp_given = []\<rparr>"

definition sp_find :: "u8 list \<Rightarrow> u32 \<Rightarrow> lru_spec \<Rightarrow> nat option" where
  "sp_find key hash S =
     find (\<lambda>e. en_key (the (sp_entry S e)) = key \<and> en_hash (the (sp_entry S e)) = hash) (sp_lru S @ sp_used S)"

definition sp_without :: "nat option \<Rightarrow> lru_spec \<Rightarrow> lru_spec" where
  "sp_without r S = S\<lparr>sp_lru := without r (sp_lru S), sp_used := without r (sp_used S)\<rparr>"

definition sp_hold :: "nat \<Rightarrow> lru_spec \<Rightarrow> lru_spec" where
  "sp_hold e S =
     S\<lparr>sp_lru := removeAll e (sp_lru S), sp_used := (if e \<in> set (sp_lru S) then sp_used S @ [e] else sp_used S),
       sp_held := (sp_held S)(e := sp_held S e + 1)\<rparr>"

definition sp_release :: "nat \<Rightarrow> lru_spec \<Rightarrow> lru_spec" where
  "sp_release e S =
     (let S' = S\<lparr>sp_held := (sp_held S)(e := sp_held S e - 1)\<rparr>
      in if e \<in> set (sp_used S) \<and> sp_held S e = 1
         then S'\<lparr>sp_lru := sp_lru S @ [e], sp_used := removeAll e (sp_used S)\<rparr> else S')"

definition sp_insert :: "u8 list \<Rightarrow> u32 \<Rightarrow> nat \<Rightarrow> u64 \<Rightarrow> nat \<Rightarrow> lru_spec \<Rightarrow> lru_spec" where
  "sp_insert key hash val charge deleter S =
     (let e = sp_fresh S;
          r = (if 0 < sp_capacity S then sp_find key hash S else None);
          S = (sp_without r S)\<lparr>sp_entry := (sp_entry S)(e \<mapsto> \<lparr>en_key = key, en_hash = hash, en_value = val, en_charge = charge, en_deleter = deleter\<rparr>),
                sp_held := (sp_held S)(e := 1), sp_fresh := e + 1, sp_given := sp_given S @ [(deleter, key, val)]\<rparr>;
          S = S\<lparr>sp_used := sp_used S @ (if 0 < sp_capacity S then [e] else [])\<rparr>
      in S\<lparr>sp_lru := trim (sp_capacity S) (\<lambda>a. en_charge (the (sp_entry S a))) (sp_lru S) (sp_used S)\<rparr>)"

fun sp_step :: "cache_op \<Rightarrow> lru_spec \<Rightarrow> nat option \<times> lru_spec" where
  "sp_step (Insert_op key hash val charge deleter) S = (Some (sp_fresh S), sp_insert key hash val charge deleter S)"
| "sp_step (Lookup_op key hash) S =
     (case sp_find key hash S of None \<Rightarrow> (None, S) | Some e \<Rightarrow> (Some e, sp_hold e S))"
| "sp_step (Release_op e) S = (None, sp_release e S)"
| "sp_step (Erase_op key hash) S = (None, sp_without (sp_find key hash S) S)"
| "sp_step Prune_op S = (None, S\<lparr>sp_lru := []\<rparr>)"

text \<open>What a client may do: it releases what it holds, and the counters do not overflow.\<close>

fun allowed :: "cache_op \<Rightarrow> lru_spec \<Rightarrow> bool" where
  "allowed (Insert_op key hash val charge deleter) S \<longleftrightarrow> sp_fresh S < 2 ^ 31"
| "allowed (Lookup_op key hash) S \<longleftrightarrow> list_all (\<lambda>e. sp_held S e < 2 ^ 32 - 2) (sp_used S)"
| "allowed (Release_op e) S \<longleftrightarrow> 0 < sp_held S e"
| "allowed (Erase_op key hash) S \<longleftrightarrow> True"
| "allowed Prune_op S \<longleftrightarrow> True"

fun cache_step :: "cache_op \<Rightarrow> lru_cache \<Rightarrow> (nat option \<times> lru_cache) option" where
  "cache_step (Insert_op key hash val charge deleter) c = map_option (\<lambda>(e, c). (Some e, c)) (LRUCache_Insert key hash val charge deleter c)"
| "cache_step (Lookup_op key hash) c = LRUCache_Lookup key hash c"
| "cache_step (Release_op e) c = map_option (Pair None) (LRUCache_Release e c)"
| "cache_step (Erase_op key hash) c = map_option (Pair None) (LRUCache_Erase key hash c)"
| "cache_step Prune_op c = map_option (Pair None) (LRUCache_Prune c)"

text \<open>Sequences of calls, with the handles they return.\<close>

abbreviation "sp_steps \<equiv> run_spec sp_step"
abbreviation "allowed_steps \<equiv> run_allowed sp_step allowed"
abbreviation "cache_steps \<equiv> run_machine cache_step"

definition new_cache :: "u64 \<Rightarrow> lru_cache option" where
  "new_cache capacity = map_option (SetCapacity capacity) LRUCache_new"

subsection \<open>Refinement\<close>

definition entry_data :: "lru_handle \<Rightarrow> cache_entry" where
  "entry_data h = \<lparr>en_key = lh_key h, en_hash = lh_hash h, en_value = lh_value h, en_charge = lh_charge h, en_deleter = lh_deleter h\<rparr>"

definition cache_sim :: "lru_cache \<Rightarrow> lru_spec \<Rightarrow> bool" where
  "cache_sim c S \<longleftrightarrow>
     cache_inv c (sp_held S) (sp_lru S) (sp_used S) \<and> lc_capacity c = sp_capacity S \<and> lc_fresh c = sp_fresh S \<and>
     all_pairs c = mset (sp_given S) \<and> (\<forall>e h. lc_handles c e = Some h \<longrightarrow> sp_entry S e = Some (entry_data h))"

lemma sim_keeps:
  assumes s: "cache_sim c S" and k: "keeps c c'" and inv: "cache_inv c' (sp_held S') (sp_lru S') (sp_used S')"
    and S: "sp_capacity S' = sp_capacity S" "sp_fresh S' = sp_fresh S" "sp_entry S' = sp_entry S" "sp_given S' = sp_given S"
  shows "cache_sim c' S'"
proof -
  have "sp_entry S' e = Some (entry_data h')" if "lc_handles c' e = Some h'" for e h'
    using keepsD [OF k that] s S(3) by (auto simp: cache_sim_def same_data_def entry_data_def)
  then show ?thesis using s k inv S(1,2,4) by (simp add: cache_sim_def keeps_def)
qed

lemma sim_data:
  assumes "cache_sim c S" "e \<in> set (sp_lru S) \<union> set (sp_used S)"
  shows "\<exists>h. lc_handles c e = Some h \<and> sp_entry S e = Some (entry_data h)"
proof -
  have inv: "cache_inv c (sp_held S) (sp_lru S) (sp_used S)"
    and d: "\<And>h. lc_handles c e = Some h \<Longrightarrow> sp_entry S e = Some (entry_data h)" using assms(1) by (simp_all add: cache_sim_def)
  obtain h where "lc_handles c e = Some h" using inv_alive [OF inv assms(2)] by auto
  then show ?thesis using d by simp
qed

lemma find_SomeD: "find P xs = Some x \<Longrightarrow> x \<in> set xs \<and> P x"
  by (induction xs) (auto split: if_splits)

lemma find_unique:
  assumes u: "\<And>x y. x \<in> set xs \<Longrightarrow> y \<in> set xs \<Longrightarrow> P x \<Longrightarrow> P y \<Longrightarrow> x = y"
    and r: "case r of None \<Rightarrow> \<forall>x \<in> set xs. \<not> P x | Some x \<Rightarrow> x \<in> set xs \<and> P x"
  shows "find P xs = r"
proof (cases "find P xs")
  case None
  then show ?thesis using r by (cases r) (auto simp: find_None_iff)
next
  case (Some y)
  then show ?thesis using r u [of y] find_SomeD [OF Some] by (cases r) auto
qed

text \<open>The entry that the table finds is the one of the specification.\<close>

lemma sim_find:
  assumes s: "cache_sim c S" and r: "entry_of (lc_handles c) (set (sp_lru S) \<union> set (sp_used S)) key hash r"
  shows "sp_find key hash S = r"
proof -
  let ?xs = "sp_lru S @ sp_used S"
  have d: "en_key (the (sp_entry S e)) = lh_key (the (lc_handles c e)) \<and> en_hash (the (sp_entry S e)) = lh_hash (the (lc_handles c e))"
    if e: "e \<in> set ?xs" for e using sim_data [OF s, of e] e by (auto simp: entry_data_def)
  have "table_of (lc_handles c) (lc_table c) (set ?xs)" using s by (simp add: cache_sim_def cache_ok_def cache_base_def)
  then have u: "\<forall>e \<in> set ?xs. \<forall>e' \<in> set ?xs. lh_key (the (lc_handles c e)) = lh_key (the (lc_handles c e')) \<and>
    lh_hash (the (lc_handles c e)) = lh_hash (the (lc_handles c e')) \<longrightarrow> e = e'" unfolding table_of_def by blast
  show ?thesis
    unfolding sp_find_def
  proof (rule find_unique)
    fix x y assume "x \<in> set ?xs" "y \<in> set ?xs" "en_key (the (sp_entry S x)) = key \<and> en_hash (the (sp_entry S x)) = hash"
      "en_key (the (sp_entry S y)) = key \<and> en_hash (the (sp_entry S y)) = hash"
    then show "x = y" using u d by simp
  next
    show "case r of None \<Rightarrow> \<forall>x \<in> set ?xs. \<not> (en_key (the (sp_entry S x)) = key \<and> en_hash (the (sp_entry S x)) = hash)
      | Some x \<Rightarrow> x \<in> set ?xs \<and> en_key (the (sp_entry S x)) = key \<and> en_hash (the (sp_entry S x)) = hash"
      using r d by (cases r) (auto simp: entry_of_def)
  qed
qed

lemma sim_charges:
  assumes "cache_sim c S"
  shows "charges c (\<lambda>a. en_charge (the (sp_entry S a))) (set (sp_lru S) \<union> set (sp_used S))"
  unfolding charges_def
proof
  fix e assume "e \<in> set (sp_lru S) \<union> set (sp_used S)"
  then show "en_charge (the (sp_entry S e)) = lh_charge (the (lc_handles c e))"
    using sim_data [OF assms, of e] by (auto simp: entry_data_def)
qed

lemma alloc_pairs:
  assumes "finite (dom (lc_handles c))" "lc_handles c (lc_fresh c) = None"
  shows "all_pairs (with_entry h c) = all_pairs c + {#(lh_deleter h, lh_key h, lh_value h)#}"
proof -
  let ?D = "dom (lc_handles c)" and ?c = "with_entry h c"
  have "image_mset (pair_at ?c) (mset_set ?D) = image_mset (pair_at c) (mset_set ?D)"
    using assms by (intro image_mset_cong) (auto simp: pair_at_def with_entry_def)
  moreover have "dom (lc_handles ?c) = insert (lc_fresh c) ?D" by (simp add: with_entry_def)
  moreover have "pair_at ?c (lc_fresh c) = (lh_deleter h, lh_key h, lh_value h)" "lc_deleted ?c = lc_deleted c" by (simp_all add: pair_at_def with_entry_def)
  ultimately show ?thesis using assms by (simp add: all_pairs_def domIff)
qed

lemma sim_insert:
  assumes s: "cache_sim c S" and few: "sp_fresh S < 2 ^ 31"
  shows "\<exists>c'. LRUCache_Insert key hash val charge deleter c = Some (sp_fresh S, c') \<and> cache_sim c' (sp_insert key hash val charge deleter S)"
proof -
  let ?entry = "(sp_entry S)(sp_fresh S \<mapsto> \<lparr>en_key = key, en_hash = hash, en_value = val, en_charge = charge, en_deleter = deleter\<rparr>)"
  let ?ch = "\<lambda>a. en_charge (the (?entry a))" and ?a = "allocated key hash val charge deleter c"
  have inv: "cache_inv c (sp_held S) (sp_lru S) (sp_used S)" and eq: "lc_capacity c = sp_capacity S" "lc_fresh c = sp_fresh S"
    and d: "\<And>e h. lc_handles c e = Some h \<Longrightarrow> sp_entry S e = Some (entry_data h)" using s by (simp_all add: cache_sim_def)
  have ro: "refs_ok c (sp_held S) (set (sp_lru S) \<union> set (sp_used S))" using inv by (simp add: cache_ok_def cache_base_def)
  then have none: "e \<noteq> sp_fresh S" if "lc_handles c e \<noteq> None" for e using that eq(2) by (auto simp: refs_ok_def)
  then have "e \<noteq> sp_fresh S" if "e \<in> set (sp_lru S) \<union> set (sp_used S)" for e using inv_alive [OF inv that] by blast
  then have ch: "charges c ?ch (set (sp_lru S) \<union> set (sp_used S))" using sim_charges [OF s] by (simp add: charges_def)
  have few': "lc_fresh c < 2 ^ 31" and new: "?ch (lc_fresh c) = charge" using few eq by simp_all
  obtain r c' where r: "LRUCache_Insert key hash val charge deleter c = Some (lc_fresh c, c')" "keeps ?a c'"
    "if 0 < lc_capacity c then entry_of (lc_handles c) (set (sp_lru S) \<union> set (sp_used S)) key hash r else r = None"
    "let inuse' = without r (sp_used S) @ (if 0 < lc_capacity c then [lc_fresh c] else [])
     in cache_inv c' ((sp_held S)(lc_fresh c := 1)) (trim (lc_capacity c) ?ch (without r (sp_lru S)) inuse') inuse'"
    using Insert_ok [OF inv few' ch new, of key hash val] by blast
  let ?used = "without r (sp_used S) @ (if 0 < sp_capacity S then [sp_fresh S] else [])"
  have "(if 0 < sp_capacity S then sp_find key hash S else None) = r" using r(3) sim_find [OF s] eq(1) by (auto split: if_splits)
  then have sel: "sp_held (sp_insert key hash val charge deleter S) = (sp_held S)(sp_fresh S := 1)" "sp_used (sp_insert key hash val charge deleter S) = ?used"
    "sp_lru (sp_insert key hash val charge deleter S) = trim (sp_capacity S) ?ch (without r (sp_lru S)) ?used"
    by (simp_all add: sp_insert_def Let_def sp_without_def)
  have inv': "cache_inv c' (sp_held (sp_insert key hash val charge deleter S)) (sp_lru (sp_insert key hash val charge deleter S))
      (sp_used (sp_insert key hash val charge deleter S))"
    using r(4) unfolding Let_def eq sel .
  have "?entry e = Some (entry_data h')" if h': "lc_handles c' e = Some h'" for e h'
  proof -
    obtain h where h: "lc_handles ?a e = Some h" "same_data h h'" using keepsD [OF r(2) h'] by blast
    show ?thesis
    proof (cases "e = sp_fresh S")
      case True
      then show ?thesis using h eq(2) by (auto simp: with_entry_def new_handle_def same_data_def entry_data_def)
    next
      case False
      then show ?thesis using h d [of e h] eq(2) by (auto simp: with_entry_def same_data_def entry_data_def)
    qed
  qed
  moreover have "lc_capacity c' = sp_capacity S" "lc_fresh c' = sp_fresh S + 1" using r(2) eq by (simp_all add: keeps_def with_entry_def)
  moreover have "sp_entry (sp_insert key hash val charge deleter S) = ?entry" "sp_capacity (sp_insert key hash val charge deleter S) = sp_capacity S"
    "sp_fresh (sp_insert key hash val charge deleter S) = sp_fresh S + 1" "sp_given (sp_insert key hash val charge deleter S) = sp_given S @ [(deleter, key, val)]"
    by (simp_all add: sp_insert_def Let_def sp_without_def)
  moreover have "lc_handles c (lc_fresh c) = None" using none [of "lc_fresh c"] eq(2) by blast
  then have "all_pairs c' = mset (sp_given S @ [(deleter, key, val)])"
    using r(2) alloc_pairs [OF refs_finite [OF ro]] s by (simp add: keeps_def new_handle_def cache_sim_def)
  ultimately have "cache_sim c' (sp_insert key hash val charge deleter S)" using inv' by (simp add: cache_sim_def)
  then show ?thesis using r(1) eq(2) by auto
qed

lemma sim_step:
  assumes s: "cache_sim c S" and a: "allowed p S"
  shows "\<exists>c'. cache_step p c = Some (fst (sp_step p S), c') \<and> cache_sim c' (snd (sp_step p S))"
proof -
  have inv: "cache_inv c (sp_held S) (sp_lru S) (sp_used S)" using s by (simp add: cache_sim_def)
  show ?thesis
  proof (cases p)
    case (Insert_op key hash val charge deleter)
    then show ?thesis using sim_insert [OF s, of key hash val charge deleter] a by auto
  next
    case (Lookup_op key hash)
    have "sp_held S e < 2 ^ 32 - 2" if "e \<in> set (sp_lru S) \<union> set (sp_used S)" for e
      using a inv that unfolding Lookup_op by (auto simp: list_all_iff cache_ok_def)
    from Lookup_ok [OF inv this, of key hash] obtain r c' where
      r: "LRUCache_Lookup key hash c = Some (r, c')" "keeps c c'"
      "entry_of (lc_handles c) (set (sp_lru S) \<union> set (sp_used S)) key hash r"
      "case r of None \<Rightarrow> cache_inv c' (sp_held S) (sp_lru S) (sp_used S)
       | Some e \<Rightarrow> cache_inv c' ((sp_held S)(e := sp_held S e + 1)) (removeAll e (sp_lru S)) (if e \<in> set (sp_lru S) then sp_used S @ [e] else sp_used S)"
      by blast
    show ?thesis
    proof (cases r)
      case None
      have "cache_sim c' S" by (rule sim_keeps [OF s r(2)]) (use r(4) None in simp_all)
      then show ?thesis using r(1) sim_find [OF s r(3)] None Lookup_op by simp
    next
      case (Some e)
      have "cache_sim c' (sp_hold e S)" by (rule sim_keeps [OF s r(2)]) (use r(4) Some in \<open>simp_all add: sp_hold_def\<close>)
      then show ?thesis using r(1) sim_find [OF s r(3)] Some Lookup_op by simp
    qed
  next
    case (Release_op e)
    then obtain c' where c': "LRUCache_Release e c = Some c'" "keeps c c'"
      "if e \<in> set (sp_used S) \<and> sp_held S e = 1 then cache_inv c' ((sp_held S)(e := 0)) (sp_lru S @ [e]) (removeAll e (sp_used S))
       else cache_inv c' ((sp_held S)(e := sp_held S e - 1)) (sp_lru S) (sp_used S)"
      using Release_ok [OF inv, of e] a by auto
    have "cache_sim c' (sp_release e S)"
      by (rule sim_keeps [OF s c'(2)]) (use c'(3) in \<open>auto simp: sp_release_def Let_def\<close>)
    then show ?thesis using c'(1) Release_op by simp
  next
    case (Erase_op key hash)
    obtain r c' where r: "LRUCache_Erase key hash c = Some c'" "keeps c c'"
      "entry_of (lc_handles c) (set (sp_lru S) \<union> set (sp_used S)) key hash r"
      "cache_inv c' (sp_held S) (without r (sp_lru S)) (without r (sp_used S))"
      using Erase_ok [OF inv] by blast
    have "cache_sim c' (sp_without r S)" by (rule sim_keeps [OF s r(2)]) (use r(4) in \<open>simp_all add: sp_without_def\<close>)
    then show ?thesis using r(1) sim_find [OF s r(3)] Erase_op by simp
  next
    case Prune_op
    obtain c' where c': "LRUCache_Prune c = Some c'" "keeps c c'" "cache_inv c' (sp_held S) [] (sp_used S)"
      using Prune_ok [OF inv] by blast
    have "cache_sim c' (S\<lparr>sp_lru := []\<rparr>)" by (rule sim_keeps [OF s c'(2)]) (use c'(3) in simp_all)
    then show ?thesis using c'(1) Prune_op by simp
  qed
qed

lemma sim_new: "\<exists>c. new_cache capacity = Some c \<and> cache_sim c (sp_new capacity)"
proof -
  obtain c where c: "LRUCache_new = Some c" "cache_inv (SetCapacity capacity c) (\<lambda>_. 0) [] []" "all_pairs (SetCapacity capacity c) = {#}"
    "lc_fresh c = 3" using new_ok [of capacity] by blast
  have "lc_handles c = (\<lambda>_. None)" using c(1) by (auto simp: LRUCache_new_def split: option.splits)
  then have "cache_sim (SetCapacity capacity c) (sp_new capacity)" using c by (simp add: cache_sim_def sp_new_def SetCapacity_def)
  moreover have "new_cache capacity = Some (SetCapacity capacity c)" unfolding new_cache_def c(1) by simp
  ultimately show ?thesis by blast
qed

interpretation lru: refined_machine cache_step sp_step allowed cache_sim
  by unfold_locales (rule sim_step)

lemma run_ok:
  assumes "allowed_steps ps (sp_new capacity)"
  obtains c0 c where "new_cache capacity = Some c0" "cache_steps ps c0 = Some (fst (sp_steps ps (sp_new capacity)), c)"
    "cache_sim c (snd (sp_steps ps (sp_new capacity)))"
proof -
  obtain c0 where c0: "new_cache capacity = Some c0" "cache_sim c0 (sp_new capacity)" using sim_new by blast
  then show ?thesis using that lru.run_refines [OF c0(2) assms] by blast
qed

text \<open>The value that a call gives to the cache, with its deleter and its key.\<close>

fun given :: "cache_op \<Rightarrow> (nat \<times> u8 list \<times> nat) list" where
  "given (Insert_op key hash val charge deleter) = [(deleter, key, val)]"
| "given _ = []"

lemma given_step: "sp_given (snd (sp_step p S)) = sp_given S @ given p"
  by (cases p) (simp_all add: sp_insert_def sp_without_def sp_hold_def sp_release_def Let_def split: option.split)

lemma given_steps: "sp_given (snd (sp_steps ps S)) = sp_given S @ concat (map given ps)"
  by (induction ps arbitrary: S) (simp_all add: case_prod_beta given_step)

subsection \<open>What a cache never forgets\<close>

text \<open>The value that was inserted last under a key and a hash, if it was not erased since.\<close>

fun note_op :: "cache_op \<Rightarrow> (u8 list \<times> u32 \<Rightarrow> nat option) \<Rightarrow> u8 list \<times> u32 \<Rightarrow> nat option" where
  "note_op (Insert_op key hash val charge deleter) m = m((key, hash) := Some val)"
| "note_op (Erase_op key hash) m = m((key, hash) := None)"
| "note_op _ m = m"

definition en_name :: "lru_spec \<Rightarrow> nat \<Rightarrow> u8 list \<times> u32" where
  "en_name S e = (en_key (the (sp_entry S e)), en_hash (the (sp_entry S e)))"

definition sp_set :: "lru_spec \<Rightarrow> nat set" where
  "sp_set S = set (sp_lru S) \<union> set (sp_used S)"

definition current :: "(u8 list \<times> u32 \<Rightarrow> nat option) \<Rightarrow> lru_spec \<Rightarrow> bool" where
  "current m S \<longleftrightarrow>
     (\<forall>e \<in> sp_set S. e < sp_fresh S \<and> m (en_name S e) = Some (en_value (the (sp_entry S e)))) \<and>
     inj_on (en_name S) (sp_set S) \<and> (sp_capacity S = 0 \<longrightarrow> sp_set S = {})"

lemma current_less:
  "current m S \<Longrightarrow> sp_set S' \<subseteq> sp_set S \<Longrightarrow> sp_entry S' = sp_entry S \<Longrightarrow> sp_fresh S' = sp_fresh S \<Longrightarrow>
    sp_capacity S' = sp_capacity S \<Longrightarrow> current m S'"
  unfolding current_def en_name_def by (auto intro: inj_on_subset)

lemma find_name: "sp_find key hash S = find (\<lambda>e. en_name S e = (key, hash)) (sp_lru S @ sp_used S)"
  by (simp add: sp_find_def en_name_def)

lemma others_differ:
  assumes "inj_on (en_name S) (sp_set S)" "e \<in> sp_set S" "Some e \<noteq> sp_find key hash S"
  shows "en_name S e \<noteq> (key, hash)"
proof (cases "sp_find key hash S")
  case None
  then show ?thesis using assms(2) by (auto simp: find_name find_None_iff sp_set_def)
next
  case (Some x)
  then have "x \<in> sp_set S" "en_name S x = (key, hash)" using find_SomeD unfolding find_name by (fastforce simp: sp_set_def)+
  then show ?thesis using assms(2,3) Some inj_onD [OF assms(1), of e x] by auto
qed

lemma current_insert:
  assumes c: "current m S"
  shows "current (m((key, hash) := Some val)) (sp_insert key hash val charge deleter S)"
proof -
  let ?S = "sp_insert key hash val charge deleter S" and ?e = "sp_fresh S"
  let ?r = "if 0 < sp_capacity S then sp_find key hash S else None"
  have sel: "sp_fresh ?S = ?e + 1" "sp_capacity ?S = sp_capacity S"
    "sp_entry ?S = (sp_entry S)(?e \<mapsto> \<lparr>en_key = key, en_hash = hash, en_value = val, en_charge = charge, en_deleter = deleter\<rparr>)"
    by (simp_all add: sp_insert_def Let_def sp_without_def)
  have "sp_lru ?S = trim (sp_capacity S) (\<lambda>a. en_charge (the (sp_entry ?S a))) (without ?r (sp_lru S)) (sp_used ?S)"
    by (simp add: sp_insert_def Let_def sp_without_def)
  then have "set (sp_lru ?S) \<subseteq> set (sp_lru S) - set_option ?r" using set_trim by (metis set_without)
  moreover have "set (sp_used ?S) = (set (sp_used S) - set_option ?r) \<union> (if 0 < sp_capacity S then {?e} else {})"
    by (simp add: sp_insert_def Let_def sp_without_def)
  ultimately have S: "sp_set ?S \<subseteq> (sp_set S - set_option ?r) \<union> (if 0 < sp_capacity S then {?e} else {})" by (auto simp: sp_set_def)
  show ?thesis
  proof (cases "sp_capacity S = 0")
    case True
    then show ?thesis using c S sel(2) by (auto simp: current_def)
  next
    case False
    then have pos: "0 < sp_capacity S" by (simp add: word_gt_0)
    have old: "x < ?e" "en_name ?S x = en_name S x" "en_name S x \<noteq> (key, hash)" "en_value (the (sp_entry ?S x)) = en_value (the (sp_entry S x))"
      "m (en_name S x) = Some (en_value (the (sp_entry S x)))" "x \<in> sp_set S" if "x \<in> sp_set ?S" "x \<noteq> ?e" for x
    proof -
      have x: "x \<in> sp_set S" "Some x \<noteq> sp_find key hash S" using that S pos by (auto split: if_splits)
      then show "x < ?e" "m (en_name S x) = Some (en_value (the (sp_entry S x)))" "x \<in> sp_set S" using c by (auto simp: current_def)
      show "en_name S x \<noteq> (key, hash)" using others_differ [OF _ x] c by (simp add: current_def)
      show "en_name ?S x = en_name S x" "en_value (the (sp_entry ?S x)) = en_value (the (sp_entry S x))"
        using that(2) by (simp_all add: en_name_def sel)
    qed
    have new: "en_name ?S ?e = (key, hash)" "en_value (the (sp_entry ?S ?e)) = val" by (simp_all add: en_name_def sel)
    have "x < ?e + 1 \<and> (m((key, hash) := Some val)) (en_name ?S x) = Some (en_value (the (sp_entry ?S x)))" if "x \<in> sp_set ?S" for x
      using old [OF that] new by (cases "x = ?e") auto
    moreover have "inj_on (en_name ?S) (sp_set ?S)"
    proof (rule inj_onI)
      fix x y assume xy: "x \<in> sp_set ?S" "y \<in> sp_set ?S" "en_name ?S x = en_name ?S y"
      have "inj_on (en_name S) (sp_set S)" using c by (simp add: current_def)
      then show "x = y"
        using old [OF xy(1)] old [OF xy(2)] new xy(3) inj_onD [of "en_name S" "sp_set S" x y] by (cases "x = ?e"; cases "y = ?e") auto
    qed
    ultimately show ?thesis using False sel(1,2) by (simp add: current_def)
  qed
qed

lemma current_erase:
  assumes c: "current m S"
  shows "current (m((key, hash) := None)) (sp_without (sp_find key hash S) S)"
proof -
  let ?S = "sp_without (sp_find key hash S) S"
  have S: "sp_set ?S \<subseteq> sp_set S" by (auto simp: sp_set_def sp_without_def)
  have "current m ?S" by (rule current_less [OF c S]) (simp_all add: sp_without_def)
  moreover have "en_name ?S e \<noteq> (key, hash)" if e: "e \<in> sp_set ?S" for e
  proof -
    have "Some e \<noteq> sp_find key hash S" using e by (auto simp: sp_set_def sp_without_def)
    then have "en_name S e \<noteq> (key, hash)" using others_differ [of S e key hash] c S e by (auto simp: current_def)
    then show ?thesis by (simp add: en_name_def sp_without_def)
  qed
  ultimately show ?thesis by (simp add: current_def)
qed

lemma current_step:
  assumes c: "current m S"
  shows "current (note_op p m) (snd (sp_step p S))"
proof (cases p)
  case (Lookup_op key hash)
  show ?thesis
  proof (cases "sp_find key hash S")
    case None
    then show ?thesis using c Lookup_op by simp
  next
    case (Some e)
    then have "e \<in> sp_set S" using find_SomeD unfolding find_name by (fastforce simp: sp_set_def)
    then have "sp_set (sp_hold e S) \<subseteq> sp_set S" by (auto simp: sp_set_def sp_hold_def)
    then have "current m (sp_hold e S)" by (rule current_less [OF c]) (simp_all add: sp_hold_def)
    then show ?thesis using Some Lookup_op by simp
  qed
next
  case (Release_op e)
  have "sp_set (sp_release e S) \<subseteq> sp_set S" by (auto simp: sp_set_def sp_release_def Let_def)
  then have "current m (sp_release e S)" by (rule current_less [OF c]) (simp_all add: sp_release_def Let_def)
  then show ?thesis using Release_op by simp
next
  case Prune_op
  have "current m (S\<lparr>sp_lru := []\<rparr>)" by (rule current_less [OF c]) (auto simp: sp_set_def)
  then show ?thesis using Prune_op by simp
qed (simp_all add: current_insert [OF c] current_erase [OF c])

lemma current_steps: "current m S \<Longrightarrow> current (fold note_op ps m) (snd (sp_steps ps S))"
proof (induction ps arbitrary: m S)
  case (Cons p ps)
  show ?case using Cons.IH [OF current_step [OF Cons.prems, of p]] by (simp add: case_prod_beta)
qed simp

lemma current_new: "current (\<lambda>_. None) (sp_new capacity)"
  by (simp add: current_def sp_new_def sp_set_def)

lemma sim_held: "cache_sim c S \<Longrightarrow> 0 < sp_held S e \<Longrightarrow> \<exists>h. lc_handles c e = Some h \<and> sp_entry S e = Some (entry_data h)"
  unfolding cache_sim_def cache_ok_def using base_held by blast

lemma sim_usage:
  "cache_sim c S \<Longrightarrow> lc_usage c = sum_list (map (\<lambda>e. en_charge (the (sp_entry S e))) (sp_lru S @ sp_used S))"
  using inv_usage sim_charges by (auto simp: cache_sim_def)

subsection \<open>What the cache promises\<close>

text \<open>A run with a capacity of 2: the first key is looked up again, so that the second is evicted.\<close>

definition sample_calls :: "cache_op list" where
  "sample_calls =
     [Insert_op [1] 7 100 1 81, Release_op 3, Insert_op [2] 9 200 1 82, Release_op 4, Lookup_op [1] 7, Release_op 3,
      Insert_op [3] 7 300 1 83, Lookup_op [2] 9, Lookup_op [1] 7]"

lemmas sp_eval = run_spec_sel sp_new_def sp_find_def sp_without_def sp_hold_def sp_release_def sp_insert_def without_def Let_def

lemma sample_run:
  "fst (sp_steps sample_calls (sp_new 2)) = [Some 3, None, Some 4, None, Some 3, None, Some 5, None, Some 3]"
  "sp_lru (snd (sp_steps sample_calls (sp_new 2))) = []" "sp_used (snd (sp_steps sample_calls (sp_new 2))) = [5, 3]"
  by (simp_all add: sample_calls_def sp_eval del: run_spec.simps)

text \<open>C8: a lookup never returns a stale value: when it finds an entry, this entry has the key and the hash
  that were asked for and the value inserted last under them, and they were not erased since.\<close>

theorem cache_lookup_latest:
  assumes "allowed_steps (ps @ [Lookup_op key hash]) (sp_new capacity)" "sp_find key hash (snd (sp_steps ps (sp_new capacity))) = r"
  shows "\<exists>c0 rs c. new_cache capacity = Some c0 \<and> cache_steps (ps @ [Lookup_op key hash]) c0 = Some (rs @ [r], c) \<and>
    (\<forall>e. r = Some e \<longrightarrow> (\<exists>h. lc_handles c e = Some h \<and> lh_key h = key \<and> lh_hash h = hash \<and>
      fold note_op ps (\<lambda>_. None) (key, hash) = Some (lh_value h)))"
proof -
  let ?S = "snd (sp_steps ps (sp_new capacity))" and ?ps = "ps @ [Lookup_op key hash]"
  obtain c0 c where c: "new_cache capacity = Some c0" "cache_steps ?ps c0 = Some (fst (sp_steps ?ps (sp_new capacity)), c)"
    "cache_sim c (snd (sp_steps ?ps (sp_new capacity)))" using run_ok [OF assms(1)] by blast
  have run: "sp_steps ?ps (sp_new capacity) =
      (fst (sp_steps ps (sp_new capacity)) @ [r], case r of None \<Rightarrow> ?S | Some e \<Rightarrow> sp_hold e ?S)"
    using assms(2) by (auto simp: run_spec_snoc split: option.split)
  have cur: "current (fold note_op ps (\<lambda>_. None)) ?S" by (rule current_steps [OF current_new])
  have "\<exists>h. lc_handles c e = Some h \<and> lh_key h = key \<and> lh_hash h = hash \<and> fold note_op ps (\<lambda>_. None) (key, hash) = Some (lh_value h)"
    if r: "r = Some e" for e
  proof -
    have e: "e \<in> sp_set ?S" "en_name ?S e = (key, hash)"
      using assms(2) r find_SomeD [of _ "sp_lru ?S @ sp_used ?S" e] by (auto simp: find_name sp_set_def)
    have s: "cache_sim c (sp_hold e ?S)" using c(3) run r by simp
    then obtain h where h: "lc_handles c e = Some h" "sp_entry ?S e = Some (entry_data h)"
      using sim_held [OF s, of e] by (auto simp: sp_hold_def)
    then show ?thesis using cur e by (auto simp: current_def en_name_def entry_data_def)
  qed
  then show ?thesis using c(1,2) run by auto
qed

theorem cache_lookup_latest_witness:
  "\<exists>c0 rs c h. new_cache 2 = Some c0 \<and> cache_steps (butlast sample_calls @ [Lookup_op [1] 7]) c0 = Some (rs @ [Some 3], c) \<and>
    lc_handles c 3 = Some h \<and> lh_value h = 100"
proof -
  have a: "allowed_steps (butlast sample_calls @ [Lookup_op [1] 7]) (sp_new 2)"
    and r: "sp_find [1] 7 (snd (sp_steps (butlast sample_calls) (sp_new 2))) = Some 3"
    and v: "fold note_op (butlast sample_calls) (\<lambda>_. None) ([1], 7) = Some 100"
    by (simp_all add: sample_calls_def sp_eval del: run_spec.simps)
  show ?thesis using cache_lookup_latest [OF a r] v by auto
qed

text \<open>C7: every value that was given to the cache goes exactly once, with its key, to the deleter it was given with, when the
  clients have released all their handles and the cache is destroyed; then nothing is left on the heap.\<close>

theorem cache_deletes_each_once:
  assumes "allowed_steps ps (sp_new capacity)" "sp_held (snd (sp_steps ps (sp_new capacity))) = (\<lambda>_. 0)"
  shows "\<exists>c0 rs c c'. new_cache capacity = Some c0 \<and> cache_steps ps c0 = Some (rs, c) \<and> LRUCache_destroy c = Some c' \<and>
    mset (lc_deleted c') = mset (concat (map given ps)) \<and> (\<forall>e. lc_handles c' e = None)"
proof -
  obtain c0 c where c: "new_cache capacity = Some c0" "cache_steps ps c0 = Some (fst (sp_steps ps (sp_new capacity)), c)"
    "cache_sim c (snd (sp_steps ps (sp_new capacity)))" using run_ok [OF assms(1)] by blast
  have "cache_inv c (\<lambda>_. 0) (sp_lru (snd (sp_steps ps (sp_new capacity)))) (sp_used (snd (sp_steps ps (sp_new capacity))))"
    using c(3) unfolding cache_sim_def assms(2) by blast
  note d = destroy_ok [OF this]
  have "all_pairs c = mset (concat (map given ps))" using c(3) given_steps [of ps "sp_new capacity"] by (simp add: cache_sim_def sp_new_def)
  then show ?thesis using d c(1,2) by metis
qed

theorem cache_deletes_each_once_witness:
  "\<exists>c0 rs c c'. new_cache 2 = Some c0 \<and> cache_steps (sample_calls @ [Release_op 5, Release_op 3]) c0 = Some (rs, c) \<and>
    LRUCache_destroy c = Some c' \<and> mset (lc_deleted c') = {#(81, [1], 100), (82, [2], 200), (83, [3], 300)#}"
proof -
  have "allowed_steps (sample_calls @ [Release_op 5, Release_op 3]) (sp_new 2)"
    "sp_held (snd (sp_steps (sample_calls @ [Release_op 5, Release_op 3]) (sp_new 2))) = (\<lambda>_. 0)"
    by (simp_all add: sample_calls_def sp_eval fun_eq_iff del: run_spec.simps)
  from cache_deletes_each_once [OF this] show ?thesis by (auto simp: sample_calls_def add_mset_commute)
qed

end
