(* ===== verification/Ldb_Sharded_Cache.thy ===== *)
theory Ldb_Sharded_Cache
  imports Ldb_Lru_Spec Ldb_Bloom
begin

text \<open>
  The cache that \<open>NewLRUCache\<close> of util/cache.cc makes: sixteen shards, each an LRU cache of its own, and the
  hash of a key says in which of them it is. The heap is divided by the shards that allocated from it: a
  handle is a shard and an address. Calling a method of one shard with an entry of another has no meaning,
  and makes the result \<open>None\<close>.
\<close>

subsection \<open>The shards\<close>

abbreviation kNumShards :: nat where
  "kNumShards \<equiv> 16"

definition HashSlice :: "u8 list \<Rightarrow> u32" where
  "HashSlice s = Hash s 0"

definition Shard :: "u32 \<Rightarrow> nat" where
  "Shard hash = unat (drop_bit (32 - 4) hash)"

record sharded_cache =
  sh_shard :: "lru_cache list"
  sh_last_id :: u64

definition NewLRUCache :: "u64 \<Rightarrow> sharded_cache option" where
  "NewLRUCache capacity =
     (case LRUCache_new of
        None \<Rightarrow> None
      | Some c \<Rightarrow>
          let per_shard = (capacity + (of_nat kNumShards - 1)) div of_nat kNumShards
          in Some \<lparr>sh_shard = map (SetCapacity per_shard) (replicate kNumShards c), sh_last_id = 0\<rparr>)"

definition Sharded_Insert :: "u8 list \<Rightarrow> nat \<Rightarrow> u64 \<Rightarrow> nat \<Rightarrow> sharded_cache \<Rightarrow> ((nat \<times> nat) \<times> sharded_cache) option" where
  "Sharded_Insert key val charge deleter sc =
     (let hash = HashSlice key; s = Shard hash
      in map_option (\<lambda>(e, c). ((s, e), sc\<lparr>sh_shard := (sh_shard sc)[s := c]\<rparr>))
           (LRUCache_Insert key hash val charge deleter (sh_shard sc ! s)))"

definition Sharded_Lookup :: "u8 list \<Rightarrow> sharded_cache \<Rightarrow> ((nat \<times> nat) option \<times> sharded_cache) option" where
  "Sharded_Lookup key sc =
     (let hash = HashSlice key; s = Shard hash
      in map_option (\<lambda>(r, c). (map_option (Pair s) r, sc\<lparr>sh_shard := (sh_shard sc)[s := c]\<rparr>))
           (LRUCache_Lookup key hash (sh_shard sc ! s)))"

definition Sharded_Release :: "nat \<times> nat \<Rightarrow> sharded_cache \<Rightarrow> sharded_cache option" where
  "Sharded_Release handle sc =
     (case lc_handles (sh_shard sc ! fst handle) (snd handle) of
        None \<Rightarrow> None
      | Some h \<Rightarrow>
          let s = Shard (lh_hash h)
          in if s \<noteq> fst handle then None else
             map_option (\<lambda>c. sc\<lparr>sh_shard := (sh_shard sc)[s := c]\<rparr>) (LRUCache_Release (snd handle) (sh_shard sc ! s)))"

definition Sharded_Erase :: "u8 list \<Rightarrow> sharded_cache \<Rightarrow> sharded_cache option" where
  "Sharded_Erase key sc =
     (let hash = HashSlice key; s = Shard hash
      in map_option (\<lambda>c. sc\<lparr>sh_shard := (sh_shard sc)[s := c]\<rparr>) (LRUCache_Erase key hash (sh_shard sc ! s)))"

definition Sharded_Value :: "nat \<times> nat \<Rightarrow> sharded_cache \<Rightarrow> nat option" where
  "Sharded_Value handle sc = map_option lh_value (lc_handles (sh_shard sc ! fst handle) (snd handle))"

definition NewId :: "sharded_cache \<Rightarrow> u64 \<times> sharded_cache" where
  "NewId sc = (let i = sh_last_id sc + 1 in (i, sc\<lparr>sh_last_id := i\<rparr>))"

fun prune_shards :: "lru_cache list \<Rightarrow> lru_cache list option" where
  "prune_shards [] = Some []"
| "prune_shards (c # cs) =
     (case LRUCache_Prune c of None \<Rightarrow> None | Some c \<Rightarrow> map_option ((#) c) (prune_shards cs))"

definition Sharded_Prune :: "sharded_cache \<Rightarrow> sharded_cache option" where
  "Sharded_Prune sc = map_option (\<lambda>cs. sc\<lparr>sh_shard := cs\<rparr>) (prune_shards (sh_shard sc))"

definition TotalCharge :: "sharded_cache \<Rightarrow> u64" where
  "TotalCharge sc = fold (\<lambda>c total. total + lc_usage c) (sh_shard sc) 0"

subsection \<open>Sixteen specifications\<close>

datatype sharded_op =
    S_Insert "u8 list" nat u64 nat
  | S_Lookup "u8 list"
  | S_Release "nat \<times> nat"
  | S_Erase "u8 list"
  | S_Prune

fun sharded_step :: "sharded_op \<Rightarrow> sharded_cache \<Rightarrow> ((nat \<times> nat) option \<times> sharded_cache) option" where
  "sharded_step (S_Insert key val charge deleter) sc = map_option (\<lambda>(e, sc). (Some e, sc)) (Sharded_Insert key val charge deleter sc)"
| "sharded_step (S_Lookup key) sc = Sharded_Lookup key sc"
| "sharded_step (S_Release e) sc = map_option (Pair None) (Sharded_Release e sc)"
| "sharded_step (S_Erase key) sc = map_option (Pair None) (Sharded_Erase key sc)"
| "sharded_step S_Prune sc = map_option (Pair None) (Sharded_Prune sc)"

text \<open>The shard that a call goes to, and the call it makes there.\<close>

fun route :: "sharded_op \<Rightarrow> nat \<times> cache_op" where
  "route (S_Insert key val charge deleter) = (Shard (HashSlice key), Insert_op key (HashSlice key) val charge deleter)"
| "route (S_Lookup key) = (Shard (HashSlice key), Lookup_op key (HashSlice key))"
| "route (S_Release handle) = (fst handle, Release_op (snd handle))"
| "route (S_Erase key) = (Shard (HashSlice key), Erase_op key (HashSlice key))"
| "route S_Prune = (0, Prune_op)"

definition shards_step :: "sharded_op \<Rightarrow> lru_spec list \<Rightarrow> (nat \<times> nat) option \<times> lru_spec list" where
  "shards_step p Ss =
     (if p = S_Prune then (None, map (\<lambda>S. snd (sp_step Prune_op S)) Ss)
      else case route p of (i, q) \<Rightarrow> (map_option (Pair i) (fst (sp_step q (Ss ! i))), Ss[i := snd (sp_step q (Ss ! i))]))"

definition shards_allowed :: "sharded_op \<Rightarrow> lru_spec list \<Rightarrow> bool" where
  "shards_allowed p Ss \<longleftrightarrow> fst (route p) < length Ss \<and> allowed (snd (route p)) (Ss ! fst (route p))"

abbreviation "shards_steps \<equiv> run_spec shards_step"
abbreviation "shards_allowed_steps \<equiv> run_allowed shards_step shards_allowed"
abbreviation "sharded_steps \<equiv> run_machine sharded_step"

definition per_shard :: "u64 \<Rightarrow> u64" where
  "per_shard capacity = (capacity + 15) div 16"

definition shards_new :: "u64 \<Rightarrow> lru_spec list" where
  "shards_new capacity = replicate kNumShards (sp_new (per_shard capacity))"

subsection \<open>Refinement\<close>

text \<open>Each shard refines its specification, and holds entries of its own only.\<close>

definition own_entries :: "nat \<Rightarrow> lru_spec \<Rightarrow> bool" where
  "own_entries i S \<longleftrightarrow> (\<forall>e d. sp_entry S e = Some d \<longrightarrow> Shard (en_hash d) = i)"

definition sharded_sim :: "sharded_cache \<Rightarrow> lru_spec list \<Rightarrow> bool" where
  "sharded_sim sc Ss \<longleftrightarrow>
     length (sh_shard sc) = kNumShards \<and> length Ss = kNumShards \<and>
     (\<forall>i < kNumShards. cache_sim (sh_shard sc ! i) (Ss ! i) \<and> own_entries i (Ss ! i))"

lemma Shard_less: "Shard hash < kNumShards"
proof -
  have "unat hash < 2 ^ 32" by (rule less_le_trans [OF unsigned_less]) simp
  then have "drop_bit 28 (unat hash) < 16" unfolding drop_bit_eq_div by simp
  moreover have "Shard hash = drop_bit 28 (unat hash)" by (simp add: Shard_def unat_drop_bit_eq)
  ultimately show ?thesis by simp
qed

lemma own_step:
  assumes "own_entries i S" "\<And>key hash val charge deleter. q = Insert_op key hash val charge deleter \<Longrightarrow> Shard hash = i"
  shows "own_entries i (snd (sp_step q S))"
  using assms
  by (cases q) (auto simp: own_entries_def sp_insert_def sp_without_def sp_hold_def sp_release_def Let_def split: option.split)

lemma put_shard:
  assumes "sharded_sim sc Ss" "cache_sim c (snd (sp_step q (Ss ! i)))" "i < kNumShards"
    "\<And>key hash val charge deleter. q = Insert_op key hash val charge deleter \<Longrightarrow> Shard hash = i"
  shows "sharded_sim (sc\<lparr>sh_shard := (sh_shard sc)[i := c]\<rparr>) (Ss[i := snd (sp_step q (Ss ! i))])"
  using assms own_step [OF _ assms(4)] by (auto simp: sharded_sim_def nth_list_update)

text \<open>A call goes to one shard and is made there.\<close>

lemma routed_step:
  assumes s: "sharded_sim sc Ss" and a: "shards_allowed p Ss" and p: "p \<noteq> S_Prune" "route p = (i, q)"
    and own: "\<And>key hash val charge deleter. q = Insert_op key hash val charge deleter \<Longrightarrow> Shard hash = i"
  obtains c where "cache_step q (sh_shard sc ! i) = Some (fst (sp_step q (Ss ! i)), c)"
    "sharded_sim (sc\<lparr>sh_shard := (sh_shard sc)[i := c]\<rparr>) (snd (shards_step p Ss))"
    "fst (shards_step p Ss) = map_option (Pair i) (fst (sp_step q (Ss ! i)))"
proof -
  have i: "i < kNumShards" "allowed q (Ss ! i)" using s a p by (auto simp: sharded_sim_def shards_allowed_def)
  then obtain c where c: "cache_step q (sh_shard sc ! i) = Some (fst (sp_step q (Ss ! i)), c)" "cache_sim c (snd (sp_step q (Ss ! i)))"
    using sim_step [of "sh_shard sc ! i" "Ss ! i" q] s unfolding sharded_sim_def by blast
  then show ?thesis using that [OF c(1)] put_shard [OF s c(2) i(1) own] p by (simp add: shards_step_def)
qed

lemma prune_shards_ok:
  "list_all2 cache_sim cs Ss \<Longrightarrow>
    \<exists>cs'. prune_shards cs = Some cs' \<and> list_all2 cache_sim cs' (map (\<lambda>S. snd (sp_step Prune_op S)) Ss)"
proof (induction rule: list_all2_induct)
  case (Cons c cs S Ss)
  obtain c' where "LRUCache_Prune c = Some c'" "cache_sim c' (snd (sp_step Prune_op S))"
    using sim_step [OF Cons(1), of Prune_op] by auto
  then show ?case using Cons(3) by auto
qed simp

lemma sharded_sim_step:
  assumes s: "sharded_sim sc Ss" and a: "shards_allowed p Ss"
  shows "\<exists>sc'. sharded_step p sc = Some (fst (shards_step p Ss), sc') \<and> sharded_sim sc' (snd (shards_step p Ss))"
proof (cases p)
  case (S_Insert key val charge deleter)
  show ?thesis by (rule routed_step [OF s a]) (auto simp: S_Insert Sharded_Insert_def Let_def)
next
  case (S_Lookup key)
  show ?thesis by (rule routed_step [OF s a]) (auto simp: S_Lookup Sharded_Lookup_def Let_def)
next
  case (S_Release handle)
  obtain i e where h: "handle = (i, e)" by (cases handle)
  have i: "i < kNumShards" "0 < sp_held (Ss ! i) e" using a s S_Release h by (auto simp: shards_allowed_def sharded_sim_def)
  then have si: "cache_sim (sh_shard sc ! i) (Ss ! i)" "own_entries i (Ss ! i)" using s by (auto simp: sharded_sim_def)
  obtain g where g: "lc_handles (sh_shard sc ! i) e = Some g" "sp_entry (Ss ! i) e = Some (entry_data g)"
    using sim_held [OF si(1) i(2)] by blast
  then have "Shard (en_hash (entry_data g)) = i" using si(2) unfolding own_entries_def by blast
  then have "Shard (lh_hash g) = i" by (simp add: entry_data_def)
  then have c: "sharded_step p sc = map_option (Pair None)
      (map_option (\<lambda>c. sc\<lparr>sh_shard := (sh_shard sc)[i := c]\<rparr>) (LRUCache_Release e (sh_shard sc ! i)))"
    using g(1) by (simp add: S_Release h Sharded_Release_def)
  show ?thesis by (rule routed_step [OF s a, of i "Release_op e"]) (auto simp: S_Release [symmetric] c, auto simp: S_Release h)
next
  case (S_Erase key)
  show ?thesis by (rule routed_step [OF s a]) (auto simp: S_Erase Sharded_Erase_def Let_def)
next
  case S_Prune
  have "list_all2 cache_sim (sh_shard sc) Ss" using s by (auto simp: sharded_sim_def list_all2_conv_all_nth)
  then obtain cs where cs: "prune_shards (sh_shard sc) = Some cs" "list_all2 cache_sim cs (map (\<lambda>S. snd (sp_step Prune_op S)) Ss)"
    using prune_shards_ok by blast
  then have "sharded_sim (sc\<lparr>sh_shard := cs\<rparr>) (map (\<lambda>S. snd (sp_step Prune_op S)) Ss)"
    using s by (auto simp: sharded_sim_def list_all2_conv_all_nth own_entries_def)
  then show ?thesis using cs(1) S_Prune by (simp add: shards_step_def Sharded_Prune_def)
qed

lemma sharded_sim_new: "\<exists>sc. NewLRUCache capacity = Some sc \<and> sharded_sim sc (shards_new capacity)"
proof -
  obtain c where c: "new_cache (per_shard capacity) = Some c" "cache_sim c (sp_new (per_shard capacity))" using sim_new by blast
  then obtain c0 where c0: "LRUCache_new = Some c0" "c = SetCapacity (per_shard capacity) c0"
    by (auto simp: new_cache_def)
  have "NewLRUCache capacity = Some \<lparr>sh_shard = replicate 16 c, sh_last_id = 0\<rparr>"
    unfolding NewLRUCache_def c0(1) by (simp add: c0(2) per_shard_def)
  moreover have "own_entries i (sp_new (per_shard capacity))" for i by (simp add: own_entries_def sp_new_def)
  ultimately show ?thesis using c(2) by (simp add: sharded_sim_def shards_new_def)
qed

interpretation sharded: refined_machine sharded_step shards_step shards_allowed sharded_sim
  by unfold_locales (rule sharded_sim_step)

lemma TotalCharge_sum: "TotalCharge sc = sum_list (map lc_usage (sh_shard sc))"
proof -
  have "fold (\<lambda>c total. total + lc_usage c) cs t = t + sum_list (map lc_usage cs)" for cs t
    by (induction cs arbitrary: t) (simp_all add: add.assoc)
  from this [of "sh_shard sc" 0] show ?thesis by (simp add: TotalCharge_def)
qed

lemma sharded_run_ok:
  assumes "shards_allowed_steps ps (shards_new capacity)"
  obtains sc0 sc where "NewLRUCache capacity = Some sc0" "sharded_steps ps sc0 = Some (fst (shards_steps ps (shards_new capacity)), sc)"
    "sharded_sim sc (snd (shards_steps ps (shards_new capacity)))"
proof -
  obtain sc0 where sc0: "NewLRUCache capacity = Some sc0" "sharded_sim sc0 (shards_new capacity)" using sharded_sim_new by blast
  then show ?thesis using that sharded.run_refines [OF sc0(2) assms] by blast
qed

subsection \<open>What the cache promises\<close>

definition spec_charge :: "lru_spec \<Rightarrow> u64" where
  "spec_charge S = sum_list (map (\<lambda>e. en_charge (the (sp_entry S e))) (sp_lru S @ sp_used S))"

text \<open>C2: whatever calls a client makes that releases only handles it holds, the sharded cache answers every
  one of them without touching freed memory, failing an assertion, running for ever or releasing an entry
  into a wrong shard, and gives the handles that sixteen specifications of an LRU cache give: the entry of
  the key when it is cached, the oldest entries that no client holds being evicted first, and only while the
  charges of their shard exceed its share of the capacity. The total charge is the sum of the charges of
  what is cached, and the value of a handle that a client holds is the one it was made with.\<close>

theorem sharded_cache_refines:
  assumes "shards_allowed_steps ps (shards_new capacity)" "shards_steps ps (shards_new capacity) = (rs, Ss)"
  shows "\<exists>sc0 sc. NewLRUCache capacity = Some sc0 \<and> sharded_steps ps sc0 = Some (rs, sc) \<and>
    TotalCharge sc = sum_list (map spec_charge Ss) \<and>
    (\<forall>i < kNumShards. \<forall>e. 0 < sp_held (Ss ! i) e \<longrightarrow>
      (\<exists>d. sp_entry (Ss ! i) e = Some d \<and> Sharded_Value (i, e) sc = Some (en_value d)))"
proof -
  obtain sc0 sc where c: "NewLRUCache capacity = Some sc0" "sharded_steps ps sc0 = Some (rs, sc)" "sharded_sim sc Ss"
    using sharded_run_ok [OF assms(1)] assms(2) by (metis fst_conv snd_conv)
  have s: "cache_sim (sh_shard sc ! i) (Ss ! i)" if "i < kNumShards" for i using c(3) that by (simp add: sharded_sim_def)
  have "map lc_usage (sh_shard sc) = map spec_charge Ss"
    using c(3) sim_usage [OF s] by (intro nth_equalityI) (auto simp: sharded_sim_def spec_charge_def)
  then have "TotalCharge sc = sum_list (map spec_charge Ss)" by (simp add: TotalCharge_sum)
  moreover have "\<exists>d. sp_entry (Ss ! i) e = Some d \<and> Sharded_Value (i, e) sc = Some (en_value d)"
    if "i < kNumShards" "0 < sp_held (Ss ! i) e" for i e
    using sim_held [OF s [OF that(1)] that(2)] by (auto simp: Sharded_Value_def entry_data_def)
  ultimately show ?thesis using c(1,2) by blast
qed

text \<open>A run with a capacity of 32, two for each shard: the key 1 belongs to shard 4, the key 2 to shard 1.\<close>

definition sharded_calls :: "sharded_op list" where
  "sharded_calls = [S_Insert [1] 100 1 80, S_Insert [2] 200 1 80, S_Lookup [1], S_Release (1, 3), S_Erase [2], S_Lookup [2]]"

lemma sample_shards: "Shard (HashSlice [1]) = 4" "Shard (HashSlice [2]) = 1"
  by code_simp+

lemma sixteen: "replicate 16 x = [x, x, x, x, x, x, x, x, x, x, x, x, x, x, x, x]"
  by (simp add: numeral_eq_Suc)

lemmas sharded_eval = shards_new_def per_shard_def shards_step_def shards_allowed_def sp_eval sample_shards sixteen

lemma sharded_sample:
  "shards_allowed_steps sharded_calls (shards_new 32)"
  "fst (shards_steps sharded_calls (shards_new 32)) = [Some (4, 3), Some (1, 3), Some (4, 3), None, None, None]"
  "map spec_charge (snd (shards_steps sharded_calls (shards_new 32))) = [0, 0, 0, 0, 1, 0, 0, 0, 0, 0, 0, 0, 0, 0, 0, 0]"
  by (simp_all add: sharded_calls_def sharded_eval spec_charge_def del: run_spec.simps)

theorem sharded_cache_refines_witness:
  "\<exists>sc0 sc. NewLRUCache 32 = Some sc0 \<and>
    sharded_steps sharded_calls sc0 = Some ([Some (4, 3), Some (1, 3), Some (4, 3), None, None, None], sc) \<and> TotalCharge sc = 1"
proof -
  have "shards_steps sharded_calls (shards_new 32) =
      ([Some (4, 3), Some (1, 3), Some (4, 3), None, None, None], snd (shards_steps sharded_calls (shards_new 32)))"
    using sharded_sample(2) by (metis prod.collapse)
  from sharded_cache_refines [OF sharded_sample(1) this] sharded_sample(3) show ?thesis by auto
qed

text \<open>A cache whose shards have no capacity.\<close>

definition idle :: "lru_spec \<Rightarrow> bool" where
  "idle S \<longleftrightarrow> sp_capacity S = 0 \<and> sp_lru S = [] \<and> sp_used S = []"

lemma idle_step: "idle S \<Longrightarrow> idle (snd (sp_step q S))"
  by (cases q) (auto simp: idle_def sp_eval split: option.split)

lemma idle_shards: "list_all idle Ss \<Longrightarrow> list_all idle (snd (shards_step p Ss))"
proof (cases "p = S_Prune")
  case True
  then show "list_all idle Ss \<Longrightarrow> ?thesis" using idle_step [of _ Prune_op] by (auto simp: shards_step_def list_all_iff)
next
  case False
  then show "list_all idle Ss \<Longrightarrow> ?thesis"
    using idle_step [of "Ss ! fst (route p)" "snd (route p)"]
    by (cases "fst (route p) < length Ss") (auto simp: shards_step_def case_prod_beta list_all_length nth_list_update)
qed

text \<open>C40: the capacity is rounded up to a multiple of sixteen in the width of a machine word, so that a cache
  that is asked for with one of the fifteen largest capacities caches nothing at all: no lookup ever finds
  anything.\<close>

theorem huge_capacity_caches_nothing:
  assumes "2 ^ 64 - 15 \<le> unat capacity" "shards_allowed_steps (ps @ [S_Lookup key]) (shards_new capacity)"
  shows "\<exists>sc0 rs sc. NewLRUCache capacity = Some sc0 \<and> sharded_steps (ps @ [S_Lookup key]) sc0 = Some (rs @ [None], sc)"
proof -
  let ?Ss = "snd (shards_steps ps (shards_new capacity))" and ?s = "Shard (HashSlice key)"
  have "unat capacity < 2 ^ 64" by (rule less_le_trans [OF unsigned_less]) simp
  then have "unat (capacity + 15) = unat capacity + 15 - 2 ^ 64" using assms(1) by (simp add: unat_word_ariths mod_if)
  then have "unat (capacity + 15) < 16" using \<open>unat capacity < 2 ^ 64\<close> by simp
  then have "unat (per_shard capacity) = 0" by (simp add: per_shard_def unat_div)
  then have "idle (sp_new (per_shard capacity))" by (simp add: idle_def sp_new_def unat_eq_zero)
  then have "list_all idle (shards_new capacity)" by (simp add: shards_new_def list_all_iff)
  then have idle: "list_all idle ?Ss" by (rule run_spec_keeps [where Inv = "list_all idle", rotated]) (rule idle_shards)
  obtain sc0 sc where c: "NewLRUCache capacity = Some sc0"
    "sharded_steps (ps @ [S_Lookup key]) sc0 = Some (fst (shards_steps (ps @ [S_Lookup key]) (shards_new capacity)), sc)"
    "sharded_sim sc (snd (shards_steps (ps @ [S_Lookup key]) (shards_new capacity)))" using sharded_run_ok [OF assms(2)] by blast
  have "length (snd (shards_steps (ps @ [S_Lookup key]) (shards_new capacity))) = 16" using c(3) by (simp add: sharded_sim_def)
  then have "?s < length ?Ss" using Shard_less by (simp add: run_spec_snoc shards_step_def)
  then have "idle (?Ss ! ?s)" using idle by (simp add: list_all_length)
  then have "fst (shards_steps (ps @ [S_Lookup key]) (shards_new capacity)) = fst (shards_steps ps (shards_new capacity)) @ [None]"
    by (simp add: run_spec_snoc shards_step_def idle_def sp_find_def)
  then show ?thesis using c(1,2) by auto
qed

theorem huge_capacity_caches_nothing_witness:
  "\<exists>sc0 rs sc. NewLRUCache 0xFFFFFFFFFFFFFFFF = Some sc0 \<and> sharded_steps [S_Insert [1] 100 1 80, S_Lookup [1]] sc0 = Some (rs @ [None], sc)"
proof -
  have "shards_allowed_steps ([S_Insert [1] 100 1 80] @ [S_Lookup [1]]) (shards_new 0xFFFFFFFFFFFFFFFF)"
    by (simp add: sharded_eval)
  from huge_capacity_caches_nothing [OF _ this] show ?thesis by simp
qed

end
