(* ===== verification/Spec2Isabelle.thy ===== *)
theory Spec2Isabelle
  imports Cbb_Values Win32_Window Win32_Utils Linux_Runner Pb_Wire Pb_Iter Sk_Stack Base64_Codec Pool Ldb_Db Ldb_Skiplist_Readers Ldb_Filter_Block Ldb_Block Ldb_Sharded_Cache
begin

text \<open>
  A verification library for the C and C++ code of this application: its own desktop runners, and
  the C and C++ libraries of its iOS build that parse and build what comes from the network and
  store it on the device.

  \<^bold>\<open>Parts and theories.\<close> The paths are below \<open>src/\<close>; \<open>crypto\<close> is
  \<open>ios/Pods/BoringSSL-GRPC/src/crypto\<close>.

  \<^item> \<open>Prelude\<close>: machine words, calls that return 1 or 0 and update an object, bytes and words.
  \<^item> \<open>Mem\<close> (\<open>crypto/mem.c\<close>, \<open>crypto/internal.h\<close>): allocation with its size prefix, comparison,
    hashing. The heap is the parameter \<open>heap_env\<close>: which requests \<open>malloc\<close> serves and what fresh
    memory holds; every theorem is for all of them.
  \<^item> \<open>Cbs\<close>, \<open>Cbs_Asn1\<close>, \<open>Cbs_Values\<close> (\<open>crypto/bytestring/cbs.c\<close>): the byte-string reader, its ASN.1
    elements and values. A \<open>CBS\<close> is the list of its bytes; the theorems say which inputs are
    accepted, in terms of the unique DER encoding, and what is returned.
  \<^item> \<open>Cbb\<close>, \<open>Cbb_Values\<close> (\<open>crypto/bytestring/cbb.c\<close>): the builder. Its buffer and its chain of pending
    children are the state; the flush is refined to an abstract stack of frames.
  \<^item> \<open>Comparator\<close>, \<open>Sk_Stack\<close> (\<open>crypto/stack/stack.c\<close>): pointer stacks: growth, insertion and
    deletion, heap sort, binary search, copies. The contract of comparison functions is the locale
    \<open>comparator\<close>.
  \<^item> \<open>Lhash\<close>, \<open>Siphash\<close>, \<open>Refcount\<close>, \<open>Pool\<close> (\<open>crypto/lhash/lhash.c\<close>, \<open>crypto/siphash/siphash.c\<close>,
    \<open>crypto/refcount.c\<close>, \<open>crypto/pool/pool.c\<close>): hash tables, refined to maps under the locale
    \<open>hashed_keys\<close>; the keyed hash; reference counts under any interference of other threads; and the
    pools of shared buffers built from them, as a step relation of many threads with an invariant.
  \<^item> \<open>Const_Time\<close>, \<open>Base64_Codec\<close> (\<open>crypto/internal.h\<close>, \<open>crypto/base64/base64.c\<close>): constant-time masks
    and the base64 codec built from them, one-shot and streaming.
  \<^item> \<open>Varint_Bytes\<close>: base-128 numbers and the words that varint readers build, for nanopb and leveldb.
  \<^item> \<open>Pb_Stream\<close>, \<open>Pb_Wire\<close>, \<open>Pb_Iter\<close> (\<open>ios/Pods/nanopb/pb_decode.c\<close>, \<open>pb_encode.c\<close>, \<open>pb_common.c\<close>):
    protocol-buffer streams, the wire format and the field iterator. The locales \<open>pb_reader\<close> and
    \<open>pb_writer\<close> state what a decoder and an encoder promise on any stream, buffer or callback.
  \<^item> The local store, leveldb (\<open>ios/Pods/leveldb-library\<close>): \<open>Ldb_Coding\<close> (\<open>util/coding.cc\<close>) and \<open>Ldb_Crc32c\<close>
    (\<open>util/crc32c.cc\<close>), the encodings and the checksum; \<open>Ldb_Log\<close> (\<open>db/log_writer.cc\<close>,
    \<open>db/log_reader.cc\<close>), the write-ahead log, whose failures are the parameter \<open>log_env\<close>, with its promise in
    \<open>Ldb_Recovery\<close>; \<open>Ldb_Format\<close> (\<open>db/dbformat.cc\<close>, \<open>util/comparator.cc\<close>), internal keys and their order;
    \<open>Ldb_Skiplist\<close> (\<open>db/skiplist.h\<close>, \<open>util/random.h\<close>), nodes and links in an arena, with an invariant that
    holds after every store of an insertion, so that \<open>Ldb_Skiplist_Readers\<close> can let searches run between the
    stores; \<open>Ldb_Memtable\<close> (\<open>db/memtable.cc\<close>), which is that list under
    the order of the internal keys (the locale \<open>key_order\<close>); \<open>Ldb_Write_Batch\<close> (\<open>db/write_batch.cc\<close>); and
    \<open>Ldb_Db\<close> (\<open>db/db_impl.cc\<close>), the recovery that reads the log into memtables and writes those that grow too
    large out as tables, which are kept as memtables; building a table may fail.
  \<^item> The tables of leveldb: \<open>Fixed_Array\<close>, what their block formats share; \<open>Ldb_Bloom\<close> (\<open>util/bloom.cc\<close>,
    \<open>util/hash.cc\<close>), the Bloom filter as an instance of the locale \<open>filter_policy\<close>, which is all that
    \<open>Ldb_Filter_Block\<close> (\<open>table/filter_block.cc\<close>) relies on; \<open>Ldb_Block_Builder\<close> (\<open>table/block_builder.cc\<close>), whose
    output is a relation between entries, restart points and bytes, and \<open>Ldb_Block\<close> (\<open>table/block.cc\<close>), the
    iterator that reads it back and searches it under the locale \<open>slice_order\<close>.
  \<^item> The cache of leveldb (\<open>util/cache.cc\<close>): \<open>Ldb_Handle_Table\<close>, its hash table; \<open>Ldb_Cache\<close>, one shard, with
    counted entries on a heap and two circular lists, and the invariant that ties the counters, the lists and
    the table together; \<open>Ldb_Lru_Spec\<close>, the specification with lists and no pointers that the shard refines; and
    \<open>Ldb_Sharded_Cache\<close>, the sixteen shards. That calls one after the other do what a specification says is
    the locale \<open>refined_machine\<close> of \<open>Refinement\<close>. Each method holds the mutex of its shard and is one step;
    the assertion of \<open>key()\<close>, which compares an entry with the head of a list, is left out.
  \<^item> \<open>Win32_Window\<close>, \<open>Win32_Utils\<close> (\<open>windows/runner/*.cpp\<close>) and \<open>Linux_Runner\<close>
    (\<open>linux/my_application.cc\<close>): the desktop runners. Windows is a parameter (\<open>win_os\<close>): the messages it
    sends and the events it dispatches during a call, which creations fail, what plugins take, and the answers of
    its functions; \<open>os_ok\<close> is what its documentation promises of them. The window procedure is re-entrant, so its
    handlers are mutually recursive functions; a call through a null pointer is their outcome \<open>None\<close>. The
    functions of the Linux runner are definitions over a trace of calls, without a property of their own.

  \<^bold>\<open>What the theorems show.\<close> Acceptance and result of parsers as equivalences with a reference encoding;
  round trips of builder and parser, of text and binary forms, of streams cut into any pieces;
  refinement of the builder to frames and of the stacks to lists; invariants of the stacks, under any calls and comparison functions, and of the
  windows in all reachable states; sortedness and permutation of the sort; agreement of the binary
  search with a scan; termination of the field search; that a crash at any byte of the log loses only
  the batches that were not written as a whole, however often the recovery writes a table and whether or not that
  fails, and that lookups see the last write of their snapshot; that a search beside a writer is
  atomic; that blocks read back as they were built and filters deny no key
  of theirs; that the cache evicts the oldest entries, never gives a stale value and deletes every value once; the exact conditions of failure; and the
  behaviours that the findings of the manifest name, each with a theorem that exhibits it.

  \<^bold>\<open>Bounds.\<close> Sizes are natural numbers with \<open>size_wrap\<close> (modulo \<open>2 ^ 64\<close>) where the code adds or multiplies
  without a check. No fuel is used: loops are total functions with a measure, or partial functions
  whose termination is a theorem.

  \<^bold>\<open>Not modelled.\<close> The message layer of nanopb, which reads and writes C structs in raw memory through
  field descriptors; the rest of BoringSSL (ciphers, public keys, X.509, TLS); whole tables
  and the compaction of leveldb; gRPC, Abseil, Firestore and the Firebase SDKs; the Dart, Swift and Kotlin code; generated files. They are listed
  in the manifest with the reasons.
\<close>

text \<open>C23: what the builder writes, the parser reads: a tag, a body and the builder calls
  \<open>CBB_init_fixed\<close>, \<open>CBB_add_asn1\<close>, \<open>CBB_add_bytes\<close> on the child and \<open>CBB_finish\<close> give bytes from
  which \<open>CBS_get_asn1\<close> with that tag returns exactly that body and leaves nothing, whenever the
  buffer can hold the element.\<close>

theorem CBB_CBS_element_roundtrip:
  assumes tag: "valid_tag tag" and body: "length body \<le> 0xfffffffe"
    and buf: "length buf < 2 ^ 64" "length (der_element tag body) \<le> length buf"
  shows "\<exists>out n s'. bindC (CBB_add_asn1 E 0 tag) (\<lambda>_. bindC (CBB_add_bytes E 1 body (length body))
        (\<lambda>_. CBB_finish E 0 True)) (snd (CBB_init_fixed (Some buf) (length buf))) = (Some (Some out, n), s') \<and>
      (\<exists>c c'. CBS_get_asn1 tag (of_bytes (take n out)) = (Some c, c') \<and> cbs_bytes c = body \<and> cbs_bytes c' = [])"
proof -
  let ?s = "snd (CBB_init_fixed (Some buf) (length buf))"
  have s: "rep ?s ([], [])" "small_prefixes ([], [])"
    using buf(1) by (simp_all add: CBB_init_fixed_rep small_prefixes_def)
  have cap: "base_len ?s = 0" "base_cap ?s = length buf"
    by (simp_all add: CBB_init_fixed_def cbb_init_def)
  have w: "cbb_writer (Suc 0) (CBB_add_bytes E (Suc 0) body (length body)) body"
    using body by (intro add_bytes_writer) simp_all
  from element_fits [OF w body s, of tag E] buf(2) cap obtain t u v where
    t: "CBB_add_asn1 E 0 tag ?s = (Some (), t)" "CBB_add_bytes E (Suc 0) body (length body) t = (Some (), u)"
      "CBB_flush E 0 u = (Some (), v)" by (auto simp: der_element_def)
  from element_rep [OF t w s] have v: "rep v (der_element tag body, [])"
    by (auto simp: spec_write_def spec_flush_idle append_top_def der_element_def)
  then have wr: "written v = der_element tag body" by (simp add: rep_def layout_def)
  then obtain out where out: "base_buf v = Some out" "take (base_len v) out = der_element tag body"
    by (cases "base_buf v") (auto simp: written_def buf_bytes_def der_element_def der_header_def der_tag_def Let_def split: if_splits)
  have fin: "CBB_finish E 0 True u = (Some (Some out, base_len v), v\<lparr>base_buf := None\<rparr>)"
    using t(3) out(1) by (simp add: CBB_finish_def bindC_def)
  have len: "length (der_element tag body) < 2 ^ 64" using buf by simp
  then have ok: "cbs_ok (of_bytes (der_element tag body))" by simp
  have "length body < 2 ^ 32" using body by simp
  with tag have "l_asn1 tag (der_element tag body) = (Some body, [])"
    using l_asn1_append [of tag body "[]"] by (simp add: der_element_def)
  with asn1.reader_iff [OF ok, where tag = tag and v = body and r = "[]"] len
  have "\<exists>c c'. CBS_get_asn1 tag (of_bytes (der_element tag body)) = (Some c, c') \<and> cbs_bytes c = body \<and> cbs_bytes c' = []"
    by (auto simp: spans_def)
  with t fin out(2) show ?thesis by (auto simp: bindC_def intro!: exI)
qed

lemma octet_string_tag: "valid_tag CBS_ASN1_OCTETSTRING" "length (der_element CBS_ASN1_OCTETSTRING [7, 8]) = 4"
  by (simp_all add: valid_tag_def CBS_ASN1_OCTETSTRING_def CBS_ASN1_CONSTRUCTED_def der_element_def
      der_header_def der_tag_def der_len_def CBS_ASN1_TAG_NUMBER_MASK_def)

theorem CBB_CBS_element_roundtrip_witness:
  "\<exists>out n s'. bindC (CBB_add_asn1 calm_heap 0 CBS_ASN1_OCTETSTRING) (\<lambda>_. bindC (CBB_add_bytes calm_heap 1 [7, 8] (length [7, 8 :: u8]))
        (\<lambda>_. CBB_finish calm_heap 0 True)) (snd (CBB_init_fixed (Some [0, 0, 0, 0]) (length [0, 0, 0, 0 :: u8]))) = (Some (Some out, n), s') \<and>
      (\<exists>c c'. CBS_get_asn1 CBS_ASN1_OCTETSTRING (of_bytes (take n out)) = (Some c, c') \<and>
        cbs_bytes c = [7, 8] \<and> cbs_bytes c' = [])"
  using CBB_CBS_element_roundtrip [OF octet_string_tag(1), of "[7, 8]" "[0, 0, 0, 0]" calm_heap] octet_string_tag(2)
  by simp

end
